(* ===== verification/Prelude.thy ===== *)
theory Prelude
  imports Main "HOL-Library.Word" "HOL-Library.AList" "HOL-Library.Multiset"
    "HOL-Library.Char_ord" "HOL-Library.List_Lexorder"
begin

text \<open>
  Shared vocabulary of the development: the machine integers the code uses, Rust's saturating
  arithmetic on \<open>u64\<close> with its reading in \<^typ>\<open>nat\<close>, hash maps as association lists in their
  iteration order, and the generic list lemmas the components need.

  A \<open>HashMap\<close> is modelled by the list of its entries in the order in which iterating over it
  would visit them. Rust leaves that order open, so a definition that iterates takes the list as
  it is, and every statement about the outcome reads maps through \<^const>\<open>map_of\<close> and holds for
  every order of the entries.
\<close>

named_theorems sat_simps \<open>saturating arithmetic read in nat\<close>
named_theorems hm_simps \<open>hash maps read through their lookup function\<close>

type_synonym u8 = "8 word"
type_synonym u32 = "32 word"
type_synonym i32 = "32 word"
type_synonym u64 = "64 word"
type_synonym i64 = "64 word"
type_synonym bytes = "8 word list"
type_synonym ('k, 'v) hash_map = "('k \<times> 'v) list"

section \<open>Saturating arithmetic on u64\<close>

definition u64_MAX :: u64 where
  "u64_MAX = - 1"

definition saturating_add :: "u64 \<Rightarrow> u64 \<Rightarrow> u64" where
  "saturating_add a b = (if unat a + unat b < 2 ^ 64 then a + b else u64_MAX)"

definition saturating_mul :: "u64 \<Rightarrow> u64 \<Rightarrow> u64" where
  "saturating_mul a b = (if unat a * unat b < 2 ^ 64 then a * b else u64_MAX)"

definition saturating_pow :: "u64 \<Rightarrow> nat \<Rightarrow> u64" where
  "saturating_pow a n = (if unat a ^ n < 2 ^ 64 then a ^ n else u64_MAX)"

definition saturating_of_nat :: "nat \<Rightarrow> u64" where
  "saturating_of_nat n = (if n < 2 ^ 64 then of_nat n else u64_MAX)"

text \<open>The bound every saturating operation stops at, as a natural number.\<close>

abbreviation max64 :: nat where
  "max64 \<equiv> 18446744073709551615"

lemma unat_u64_MAX [simp]: "unat u64_MAX = max64"
  unfolding u64_MAX_def by (simp add: unsigned_minus_1_eq_mask mask_eq_exp_minus_1)

lemma unat_le_max64 [simp, intro]: "unat (a :: u64) \<le> max64"
  using unsigned_less [of a, where 'a = nat] by simp

lemma unat_saturating_add [sat_simps]:
  "unat (saturating_add a b) = min (unat a + unat b) max64"
  by (auto simp: saturating_add_def unat_word_ariths min_def)

lemma unat_saturating_mul [sat_simps]:
  "unat (saturating_mul a b) = min (unat a * unat b) max64"
  by (auto simp: saturating_mul_def unat_word_ariths min_def)

lemma unat_saturating_of_nat [sat_simps]:
  "unat (saturating_of_nat n) = min n max64"
  by (auto simp: saturating_of_nat_def unat_of_nat min_def)

lemma unat_power_small:
  assumes "unat (a :: u64) ^ n < 2 ^ 64"
  shows "unat (a ^ n) = unat a ^ n"
  using assms
proof (induction n)
  case 0
  then show ?case by simp
next
  case (Suc n)
  show ?case
  proof (cases "a = 0")
    case True
    then show ?thesis by simp
  next
    case False
    then have pos: "1 \<le> unat a" by (simp add: unat_gt_0 Suc_le_eq)
    have "unat a ^ n \<le> unat a ^ Suc n" using pos by simp
    with Suc have "unat (a ^ n) = unat a ^ n" by linarith
    with Suc.prems show ?thesis by (simp add: unat_word_ariths)
  qed
qed

lemma unat_saturating_pow [sat_simps]:
  "unat (saturating_pow a n) = min (unat a ^ n) max64"
  by (auto simp: saturating_pow_def unat_power_small min_def)

section \<open>Hash maps\<close>

abbreviation hm_wf :: "('k, 'v) hash_map \<Rightarrow> bool" where
  "hm_wf m \<equiv> distinct (map fst m)"

abbreviation hm_get :: "('k, 'v) hash_map \<Rightarrow> 'k \<Rightarrow> 'v option" where
  "hm_get \<equiv> map_of"

abbreviation hm_insert :: "'k \<Rightarrow> 'v \<Rightarrow> ('k, 'v) hash_map \<Rightarrow> ('k, 'v) hash_map" where
  "hm_insert \<equiv> AList.update"

abbreviation hm_remove :: "'k \<Rightarrow> ('k, 'v) hash_map \<Rightarrow> ('k, 'v) hash_map" where
  "hm_remove \<equiv> AList.delete"

text \<open>Rust's \<open>==\<close> on hash maps: the same entries, whatever the order.\<close>

definition hm_eq :: "('k, 'v) hash_map \<Rightarrow> ('k, 'v) hash_map \<Rightarrow> bool" where
  "hm_eq a b \<longleftrightarrow> set a = set b"

lemma hm_eq_iff:
  assumes "hm_wf a" "hm_wf b"
  shows "hm_eq a b \<longleftrightarrow> map_of a = map_of b"
  using assms by (auto simp: hm_eq_def map_of_inject_set)

lemma hm_wf_update [simp, intro]: "hm_wf m \<Longrightarrow> hm_wf (AList.update k v m)"
  by (rule distinct_update)

lemma hm_wf_delete [simp, intro]: "hm_wf m \<Longrightarrow> hm_wf (AList.delete k m)"
  by (rule distinct_delete)

lemma hm_get_insert [hm_simps]: "map_of (AList.update k v m) = (map_of m)(k \<mapsto> v)"
  by (rule update_conv')

lemma hm_get_remove [hm_simps]: "map_of (AList.delete k m) = (map_of m)(k := None)"
  by (rule delete_conv')

lemma hm_wf_perm: "hm_wf a \<Longrightarrow> mset a = mset b \<Longrightarrow> hm_wf b"
  by (metis mset_eq_imp_distinct_iff mset_map)

lemma map_of_perm:
  assumes "hm_wf a" "mset a = mset b"
  shows "map_of a = map_of b"
  using assms hm_wf_perm [OF assms] by (metis map_of_inject_set set_mset_mset)

section \<open>Ordered maps\<close>

text \<open>
  A \<open>BTreeMap\<close> is the list of its entries in increasing key order, which is the order in which
  Rust iterates over it. String keys compare byte by byte, as \<open>str\<close> does in Rust.
\<close>

type_synonym ('k, 'v) btree_map = "('k \<times> 'v) list"

fun bt_insert :: "'k::linorder \<Rightarrow> 'v \<Rightarrow> ('k, 'v) btree_map \<Rightarrow> ('k, 'v) btree_map" where
  "bt_insert k v [] = [(k, v)]"
| "bt_insert k v (e # m) =
     (if k = fst e then (k, v) # m
      else if fst e < k then e # bt_insert k v m
      else (k, v) # e # m)"

definition bt_from_iter :: "('k::linorder \<times> 'v) list \<Rightarrow> ('k, 'v) btree_map" where
  "bt_from_iter kvs = fold (\<lambda>(k, v). bt_insert k v) kvs []"

abbreviation bt_wf :: "('k::linorder, 'v) btree_map \<Rightarrow> bool" where
  "bt_wf m \<equiv> sorted_wrt (<) (map fst m)"

lemma map_of_bt_insert [hm_simps]: "map_of (bt_insert k v m) = (map_of m)(k \<mapsto> v)"
  by (induction m) (auto simp: fun_eq_iff)

lemma set_fst_bt_insert [simp]: "fst ` set (bt_insert k v m) = insert k (fst ` set m)"
  by (induction m) auto

lemma bt_wf_insert [simp, intro]: "bt_wf m \<Longrightarrow> bt_wf (bt_insert k v m)"
proof (induction m)
  case (Cons e m)
  then show ?case
    using set_fst_bt_insert [of k v m] by auto
qed simp

lemma bt_wf_distinct: "bt_wf m \<Longrightarrow> hm_wf m"
  by (induction m) auto

lemma fold_bt_insert_map_of:
  "map_of (fold (\<lambda>(k, v). bt_insert k v) kvs m) = map_of m ++ map_of (rev kvs)"
  by (induction kvs arbitrary: m) (auto simp: hm_simps map_add_def fun_eq_iff split: option.splits)

lemma map_of_bt_from_iter [hm_simps]: "map_of (bt_from_iter kvs) = map_of (rev kvs)"
  by (simp add: bt_from_iter_def fold_bt_insert_map_of)

lemma bt_wf_from_iter [simp, intro]: "bt_wf (bt_from_iter kvs)"
proof -
  have "bt_wf m \<Longrightarrow> bt_wf (fold (\<lambda>(k, v). bt_insert k v) kvs m)" for m :: "('a, 'b) btree_map"
    by (induction kvs arbitrary: m) auto
  then show ?thesis by (simp add: bt_from_iter_def)
qed

text \<open>\<open>filter_map\<close> of an iterator, and its \<open>find_map\<close>.\<close>

abbreviation filter_map :: "('a \<Rightarrow> 'b option) \<Rightarrow> 'a list \<Rightarrow> 'b list" where
  "filter_map \<equiv> List.map_filter"

definition find_map :: "('a \<Rightarrow> 'b option) \<Rightarrow> 'a list \<Rightarrow> 'b option" where
  "find_map f xs = (case filter_map f xs of [] \<Rightarrow> None | y # _ \<Rightarrow> Some y)"

lemma set_filter_map [simp]: "set (filter_map f xs) = {y. \<exists>x \<in> set xs. f x = Some y}"
  by (induction xs) (auto simp: List.map_filter_simps split: option.splits)

lemma filter_map_Cons [simp]:
  "filter_map f (x # xs) = (case f x of None \<Rightarrow> filter_map f xs | Some y \<Rightarrow> y # filter_map f xs)"
  by (simp add: List.map_filter_simps)

lemma filter_map_Nil [simp]: "filter_map f [] = []"
  by (simp add: List.map_filter_simps)

lemma find_map_Some: "find_map f xs = Some y \<Longrightarrow> \<exists>x \<in> set xs. f x = Some y"
  by (induction xs) (auto simp: find_map_def split: option.splits list.splits)

lemma find_map_None: "find_map f xs = None \<longleftrightarrow> (\<forall>x \<in> set xs. f x = None)"
  by (induction xs) (auto simp: find_map_def split: option.splits list.splits)

text \<open>Loops that stop at the first error.\<close>

fun try_fold :: "('a \<Rightarrow> 's \<Rightarrow> 'e + 's) \<Rightarrow> 'a list \<Rightarrow> 's \<Rightarrow> 'e + 's" where
  "try_fold f [] s = Inr s"
| "try_fold f (x # xs) s = (case f x s of Inl e \<Rightarrow> Inl e | Inr s' \<Rightarrow> try_fold f xs s')"

lemma try_fold_append:
  "try_fold f (xs @ ys) s = (case try_fold f xs s of Inl e \<Rightarrow> Inl e | Inr t \<Rightarrow> try_fold f ys t)"
  by (induction xs arbitrary: s) (auto split: sum.splits)

lemma try_fold_invariant:
  assumes "try_fold f xs s = Inr t" "I s"
    and "\<And>x s s'. x \<in> set xs \<Longrightarrow> I s \<Longrightarrow> f x s = Inr s' \<Longrightarrow> I s'"
  shows "I t"
  using assms
proof (induction xs arbitrary: s)
  case (Cons x xs)
  from Cons.prems(1) obtain s' where s': "f x s = Inr s'" "try_fold f xs s' = Inr t"
    by (auto split: sum.splits)
  have "I s'" using Cons.prems(2) Cons.prems(3) [of x s s'] s'(1) by simp
  moreover have "\<And>y s s'. y \<in> set xs \<Longrightarrow> I s \<Longrightarrow> f y s = Inr s' \<Longrightarrow> I s'"
    using Cons.prems(3) by (meson list.set_intros(2))
  ultimately show ?case using Cons.IH [OF s'(2)] by blast
qed simp

text \<open>\<open>collect\<close> into a \<open>Result\<close>: the list of results, or the first error.\<close>

fun collect_results :: "('e + 'a) list \<Rightarrow> 'e + 'a list" where
  "collect_results [] = Inr []"
| "collect_results (Inl e # rs) = Inl e"
| "collect_results (Inr x # rs) =
     (case collect_results rs of Inl e \<Rightarrow> Inl e | Inr xs \<Rightarrow> Inr (x # xs))"

lemma collect_results_map_Inr [simp]: "collect_results (map (\<lambda>x. Inr (f x)) xs) = Inr (map f xs)"
  by (induction xs) auto

lemma collect_results_Inr_iff:
  "collect_results rs = Inr xs \<longleftrightarrow> rs = map Inr xs"
proof (induction rs arbitrary: xs)
  case (Cons r rs)
  then show ?case by (cases r; cases xs) (auto split: sum.splits)
qed auto

end
