(* ===== verification/Float64.thy ===== *)
theory Float64
  imports Complex_Main Prelude
begin

text \<open>
  The part of IEEE-754 double arithmetic that the code relies on. A double is a not-a-number, an
  infinity or a finite value; the two zeros are not distinguished, since no code here divides by a
  negative number. Every operation on finite values is the exact one followed by a rounding
  function \<open>rnd\<close>, a parameter of every definition that computes with doubles. What the code needs
  of the rounding is the locale \<open>f64_rounding\<close>: it is monotone and leaves the integers a double
  represents exactly unchanged. The identity is one such function; so is round-to-nearest.
\<close>

datatype f64 = NaN | PosInf | NegInf | Fin real

type_synonym rounding = "real \<Rightarrow> real"

definition f64_of_nat :: "rounding \<Rightarrow> nat \<Rightarrow> f64" where
  "f64_of_nat rnd n = Fin (rnd (real n))"

definition f64_of_int :: "rounding \<Rightarrow> int \<Rightarrow> f64" where
  "f64_of_int rnd i = Fin (rnd (real_of_int i))"

fun f64_add :: "rounding \<Rightarrow> f64 \<Rightarrow> f64 \<Rightarrow> f64" where
  "f64_add rnd (Fin x) (Fin y) = Fin (rnd (x + y))"
| "f64_add rnd NaN _ = NaN"
| "f64_add rnd _ NaN = NaN"
| "f64_add rnd PosInf NegInf = NaN"
| "f64_add rnd NegInf PosInf = NaN"
| "f64_add rnd PosInf _ = PosInf"
| "f64_add rnd _ PosInf = PosInf"
| "f64_add rnd NegInf _ = NegInf"
| "f64_add rnd _ NegInf = NegInf"

fun f64_neg :: "f64 \<Rightarrow> f64" where
  "f64_neg NaN = NaN"
| "f64_neg PosInf = NegInf"
| "f64_neg NegInf = PosInf"
| "f64_neg (Fin x) = Fin (- x)"

definition f64_sub :: "rounding \<Rightarrow> f64 \<Rightarrow> f64 \<Rightarrow> f64" where
  "f64_sub rnd a b = f64_add rnd a (f64_neg b)"

definition inf_of_sign :: "real \<Rightarrow> f64" where
  "inf_of_sign x = (if x = 0 then NaN else if x > 0 then PosInf else NegInf)"

fun f64_mul :: "rounding \<Rightarrow> f64 \<Rightarrow> f64 \<Rightarrow> f64" where
  "f64_mul rnd (Fin x) (Fin y) = Fin (rnd (x * y))"
| "f64_mul rnd NaN _ = NaN"
| "f64_mul rnd _ NaN = NaN"
| "f64_mul rnd PosInf (Fin y) = inf_of_sign y"
| "f64_mul rnd NegInf (Fin y) = inf_of_sign (- y)"
| "f64_mul rnd (Fin x) PosInf = inf_of_sign x"
| "f64_mul rnd (Fin x) NegInf = inf_of_sign (- x)"
| "f64_mul rnd PosInf PosInf = PosInf"
| "f64_mul rnd PosInf NegInf = NegInf"
| "f64_mul rnd NegInf PosInf = NegInf"
| "f64_mul rnd NegInf NegInf = PosInf"

text \<open>Division by zero gives an infinity, and not-a-number for zero by zero.\<close>

fun f64_div :: "rounding \<Rightarrow> f64 \<Rightarrow> f64 \<Rightarrow> f64" where
  "f64_div rnd (Fin x) (Fin y) = (if y = 0 then inf_of_sign x else Fin (rnd (x / y)))"
| "f64_div rnd NaN _ = NaN"
| "f64_div rnd _ NaN = NaN"
| "f64_div rnd PosInf (Fin y) = (if y < 0 then NegInf else PosInf)"
| "f64_div rnd NegInf (Fin y) = (if y < 0 then PosInf else NegInf)"
| "f64_div rnd (Fin x) _ = Fin 0"
| "f64_div rnd _ _ = NaN"

text \<open>Comparisons are false as soon as a not-a-number takes part.\<close>

fun f64_less :: "f64 \<Rightarrow> f64 \<Rightarrow> bool" where
  "f64_less (Fin x) (Fin y) \<longleftrightarrow> x < y"
| "f64_less NaN _ \<longleftrightarrow> False"
| "f64_less _ NaN \<longleftrightarrow> False"
| "f64_less NegInf b \<longleftrightarrow> b \<noteq> NegInf"
| "f64_less a PosInf \<longleftrightarrow> a \<noteq> PosInf"
| "f64_less _ _ \<longleftrightarrow> False"

fun f64_eq :: "f64 \<Rightarrow> f64 \<Rightarrow> bool" where
  "f64_eq NaN _ \<longleftrightarrow> False"
| "f64_eq a b \<longleftrightarrow> a = b"

text \<open>\<open>f64::min\<close> and \<open>f64::max\<close> return the other operand when one is not-a-number.\<close>

definition f64_min :: "f64 \<Rightarrow> f64 \<Rightarrow> f64" where
  "f64_min a b = (if a = NaN then b else if b = NaN then a else if f64_less b a then b else a)"

definition f64_max :: "f64 \<Rightarrow> f64 \<Rightarrow> f64" where
  "f64_max a b = (if a = NaN then b else if b = NaN then a else if f64_less a b then b else a)"

text \<open>\<open>as i32\<close> truncates towards zero and saturates; not-a-number becomes 0.\<close>

fun f64_as_i32 :: "f64 \<Rightarrow> int" where
  "f64_as_i32 NaN = 0"
| "f64_as_i32 PosInf = 2147483647"
| "f64_as_i32 NegInf = - 2147483648"
| "f64_as_i32 (Fin x) =
     max (- 2147483648) (min 2147483647 (if x < 0 then \<lceil>x\<rceil> else \<lfloor>x\<rfloor>))"

section \<open>What the code relies on\<close>

locale f64_rounding =
  fixes rnd :: rounding
  assumes rnd_mono: "x \<le> y \<Longrightarrow> rnd x \<le> rnd y"
    and rnd_int: "\<bar>i\<bar> \<le> 2 ^ 53 \<Longrightarrow> rnd (real_of_int i) = real_of_int i"
begin

lemma rnd_0: "rnd 0 = 0"
  using rnd_int [of 0] by simp

lemma rnd_1: "rnd 1 = 1"
  using rnd_int [of 1] by simp

lemma rnd_nonneg: "0 \<le> x \<Longrightarrow> 0 \<le> rnd x"
  using rnd_mono [of 0 x] by (simp add: rnd_0)

lemma rnd_le_1: "x \<le> 1 \<Longrightarrow> rnd x \<le> 1"
  using rnd_mono [of x 1] by (simp add: rnd_1)

lemma rnd_unit: "0 \<le> x \<Longrightarrow> x \<le> 1 \<Longrightarrow> 0 \<le> rnd x \<and> rnd x \<le> 1"
  by (simp add: rnd_nonneg rnd_le_1)

end

interpretation exact_rounding: f64_rounding "\<lambda>x. x"
  by unfold_locales auto

definition round_down_to_int :: rounding where
  "round_down_to_int x = real_of_int \<lfloor>x\<rfloor>"

interpretation int_rounding: f64_rounding round_down_to_int
  by unfold_locales (auto simp: round_down_to_int_def floor_mono)

end
