(* ===== verification/Graphql_Schema.thy ===== *)
theory Graphql_Schema
  imports Prelude Float64
begin

text \<open>
  The subgraph schema: the GraphQL schema document as the parser hands it over, the lookups of
  \<open>graph/src/data/graphql/ext.rs\<close>, and from \<open>graph/src/data/schema.rs\<close> the construction of a
  \<open>Schema\<close> (which types implement which interface, which types are immutable, the
  \<open>@subgraphId\<close> directives) together with its local validations.

  Source positions and descriptions of the syntax tree play no role in any of this code and are
  left out of the records. The printed form of a field comes from the parser's printer and is the
  parameter \<open>show_field\<close> where an error message carries it.
\<close>

section \<open>Schema documents\<close>

datatype s_type = NamedType string | ListType s_type | NonNullType s_type

datatype s_value =
    SV_Variable string
  | SV_Int i64
  | SV_Float f64
  | SV_String string
  | SV_Boolean bool
  | SV_Null
  | SV_Enum string
  | SV_List "s_value list"
  | SV_Object "(string \<times> s_value) list"

record directive =
  dir_name :: string
  dir_arguments :: "(string \<times> s_value) list"

record input_value =
  iv_name :: string
  iv_type :: s_type
  iv_default :: "s_value option"
  iv_directives :: "directive list"

record s_field =
  fld_name :: string
  fld_arguments :: "input_value list"
  fld_type :: s_type
  fld_directives :: "directive list"

record object_type =
  obj_name :: string
  obj_implements_interfaces :: "string list"
  obj_directives :: "directive list"
  obj_fields :: "s_field list"

record interface_type =
  intf_name :: string
  intf_directives :: "directive list"
  intf_fields :: "s_field list"

text \<open>
  The other kinds of definition share their name and their directives; an enum adds the names of its
  values, an input object its input fields and a union its members.
\<close>

record plain_type =
  pt_name :: string
  pt_directives :: "directive list"

record enum_type = plain_type +
  enum_values :: "string list"

record input_object_type = plain_type +
  io_fields :: "input_value list"

record union_type = plain_type +
  union_types :: "string list"

datatype type_definition =
    TD_Scalar plain_type
  | TD_Object object_type
  | TD_Interface interface_type
  | TD_Union union_type
  | TD_Enum enum_type
  | TD_InputObject input_object_type

datatype s_definition =
    SchemaDefinition
  | TypeDefinition type_definition
  | TypeExtension
  | DirectiveDefinition

type_synonym s_document = "s_definition list"

definition SCHEMA_TYPE_NAME :: string where
  "SCHEMA_TYPE_NAME = ''_Schema_''"

definition META_FIELD_TYPE :: string where
  "META_FIELD_TYPE = ''_Meta_''"

section \<open>Lookups in a document\<close>

definition argument :: "directive \<Rightarrow> string \<Rightarrow> s_value option" where
  "argument d name = map_option snd (find (\<lambda>(key, _). key = name) (dir_arguments d))"

definition find_directive :: "directive list \<Rightarrow> string \<Rightarrow> directive option" where
  "find_directive ds name = find (\<lambda>d. dir_name d = name) ds"

definition is_derived :: "directive list \<Rightarrow> bool" where
  "is_derived ds = list_ex (\<lambda>d. dir_name d = ''derivedFrom'') ds"

definition object_field :: "object_type \<Rightarrow> string \<Rightarrow> s_field option" where
  "object_field t name = find (\<lambda>f. fld_name f = name) (obj_fields t)"

definition interface_field :: "interface_type \<Rightarrow> string \<Rightarrow> s_field option" where
  "interface_field t name = find (\<lambda>f. fld_name f = name) (intf_fields t)"

definition object_is_meta :: "object_type \<Rightarrow> bool" where
  "object_is_meta t \<longleftrightarrow> obj_name t = META_FIELD_TYPE"

definition object_is_immutable :: "object_type \<Rightarrow> bool" where
  "object_is_immutable t =
     (case Option.bind (find_directive (obj_directives t) ''entity'')
             (\<lambda>dir. argument dir ''immutable'') of
        Some (SV_Boolean b) \<Rightarrow> b
      | _ \<Rightarrow> False)"

definition get_object_type_definitions :: "s_document \<Rightarrow> object_type list" where
  "get_object_type_definitions doc =
     filter_map (\<lambda>d. case d of TypeDefinition (TD_Object t) \<Rightarrow> Some t | _ \<Rightarrow> None) doc"

definition get_interface_type_definitions :: "s_document \<Rightarrow> interface_type list" where
  "get_interface_type_definitions doc =
     filter_map (\<lambda>d. case d of TypeDefinition (TD_Interface t) \<Rightarrow> Some t | _ \<Rightarrow> None) doc"

definition get_object_type_definition :: "s_document \<Rightarrow> string \<Rightarrow> object_type option" where
  "get_object_type_definition doc name =
     find (\<lambda>t. obj_name t = name) (get_object_type_definitions doc)"

definition get_object_and_interface_type_fields ::
    "s_document \<Rightarrow> (string, s_field list) hash_map" where
  "get_object_and_interface_type_fields doc =
     fold (\<lambda>(k, v). hm_insert k v)
       (filter_map
          (\<lambda>d. case d of
             TypeDefinition (TD_Object t) \<Rightarrow> Some (obj_name t, obj_fields t)
           | TypeDefinition (TD_Interface t) \<Rightarrow> Some (intf_name t, intf_fields t)
           | _ \<Rightarrow> None) doc) []"

definition get_enum_definitions :: "s_document \<Rightarrow> enum_type list" where
  "get_enum_definitions doc =
     filter_map (\<lambda>d. case d of TypeDefinition (TD_Enum e) \<Rightarrow> Some e | _ \<Rightarrow> None) doc"

definition find_interface :: "s_document \<Rightarrow> string \<Rightarrow> interface_type option" where
  "find_interface doc name =
     find_map
       (\<lambda>d. case d of
          TypeDefinition (TD_Interface t) \<Rightarrow> if intf_name t = name then Some t else None
        | _ \<Rightarrow> None) doc"

text \<open>The flag is \<open>ENV_VARS.allow_non_deterministic_fulltext_search\<close>.\<close>

definition get_fulltext_directives :: "bool \<Rightarrow> s_document \<Rightarrow> string + directive list" where
  "get_fulltext_directives allow doc =
     (let directives =
        (case get_object_type_definition doc SCHEMA_TYPE_NAME of
           None \<Rightarrow> []
         | Some t \<Rightarrow> filter (\<lambda>d. dir_name d = ''fulltext'') (obj_directives t))
      in if \<not> allow \<and> directives \<noteq> []
         then Inl ''Fulltext search is not yet deterministic''
         else Inr directives)"

definition get_root_query_type :: "s_document \<Rightarrow> object_type option" where
  "get_root_query_type doc =
     find_map
       (\<lambda>d. case d of
          TypeDefinition (TD_Object t) \<Rightarrow> if obj_name t = ''Query'' then Some t else None
        | _ \<Rightarrow> None) doc"

definition get_root_subscription_type :: "s_document \<Rightarrow> object_type option" where
  "get_root_subscription_type doc =
     find_map
       (\<lambda>d. case d of
          TypeDefinition (TD_Object t) \<Rightarrow> if obj_name t = ''Subscription'' then Some t else None
        | _ \<Rightarrow> None) doc"

fun type_definition_name :: "type_definition \<Rightarrow> string" where
  "type_definition_name (TD_Scalar t) = pt_name t"
| "type_definition_name (TD_Object t) = obj_name t"
| "type_definition_name (TD_Interface t) = intf_name t"
| "type_definition_name (TD_Union t) = pt_name t"
| "type_definition_name (TD_Enum t) = pt_name t"
| "type_definition_name (TD_InputObject t) = pt_name t"

definition type_definition_is_introspection :: "type_definition \<Rightarrow> bool" where
  "type_definition_is_introspection t \<longleftrightarrow> take 2 (type_definition_name t) = ''__''"

definition field_is_introspection :: "s_field \<Rightarrow> bool" where
  "field_is_introspection f \<longleftrightarrow> fld_name f = ''__schema'' \<or> fld_name f = ''__type''"

definition get_named_type :: "s_document \<Rightarrow> string \<Rightarrow> type_definition option" where
  "get_named_type doc name =
     find (\<lambda>td. case td of
              TD_Object t \<Rightarrow> obj_name t = name
            | TD_Enum t \<Rightarrow> pt_name t = name
            | TD_InputObject t \<Rightarrow> pt_name t = name
            | TD_Interface t \<Rightarrow> intf_name t = name
            | TD_Scalar t \<Rightarrow> pt_name t = name
            | TD_Union t \<Rightarrow> pt_name t = name)
       (filter_map (\<lambda>d. case d of TypeDefinition td \<Rightarrow> Some td | _ \<Rightarrow> None) doc)"

datatype object_or_interface = OI_Object object_type | OI_Interface interface_type

definition object_or_interface_of :: "s_document \<Rightarrow> string \<Rightarrow> object_or_interface option" where
  "object_or_interface_of doc name =
     (case get_named_type doc name of
        Some (TD_Object t) \<Rightarrow> Some (OI_Object t)
      | Some (TD_Interface t) \<Rightarrow> Some (OI_Interface t)
      | _ \<Rightarrow> None)"

fun get_base_type :: "s_type \<Rightarrow> string" where
  "get_base_type (NamedType name) = name"
| "get_base_type (NonNullType inner) = get_base_type inner"
| "get_base_type (ListType inner) = get_base_type inner"

fun is_list :: "s_type \<Rightarrow> bool" where
  "is_list (NamedType _) = False"
| "is_list (NonNullType inner) = is_list inner"
| "is_list (ListType _) = True"

fun is_non_null :: "s_type \<Rightarrow> bool" where
  "is_non_null (NonNullType _) = True"
| "is_non_null _ = False"

text \<open>\<^term>\<open>None\<close> is the panic on a type name that the document does not define.\<close>

definition is_leaf_type :: "s_document \<Rightarrow> s_type \<Rightarrow> bool option" where
  "is_leaf_type doc ty =
     (case get_named_type doc (get_base_type ty) of
        None \<Rightarrow> None
      | Some (TD_Enum _) \<Rightarrow> Some True
      | Some (TD_Scalar _) \<Rightarrow> Some True
      | Some _ \<Rightarrow> Some False)"

end
