(* ===== verification/Scalar.thy ===== *)
theory Scalar
  imports Complex_Main Prelude
begin

text \<open>
  The custom scalars of \<open>graph/src/data/store/scalar.rs\<close>: \<open>BigInt\<close>, \<open>BigDecimal\<close> and \<open>Bytes\<close>.

  They wrap the crates \<open>num_bigint\<close>, \<open>bigdecimal\<close>, \<open>hex\<close> and the \<open>U256\<close> of \<open>primitive_types\<close>. A
  \<open>num_bigint::BigInt\<close> is an \<^typ>\<open>int\<close>, a \<open>bigdecimal::BigDecimal\<close> its pair of integer value and
  scale; the functions of the crates that the wrappers call are the fields of the record
  \<open>scalar_lib\<close>, which every definition takes as an argument. What their documentation promises is
  the locale \<open>scalar_crates\<close>, and \<open>reference_lib\<close> is an implementation of all of it.
\<close>

section \<open>The crates\<close>

datatype sign = Minus | NoSign | Plus

type_synonym u256 = "256 word"
type_synonym bigdec = "int \<times> int"

record scalar_lib =
  to_radix_be :: "int \<Rightarrow> sign \<times> nat list"
  from_radix_be :: "sign \<Rightarrow> nat list \<Rightarrow> int option"
  nb_to_bytes_le :: "int \<Rightarrow> sign \<times> bytes"
  nb_from_bytes_le :: "sign \<Rightarrow> bytes \<Rightarrow> int"
  nb_to_signed_bytes_le :: "int \<Rightarrow> bytes"
  nb_from_signed_bytes_le :: "bytes \<Rightarrow> int"
  nb_bits :: "int \<Rightarrow> nat"
  nb_to_string :: "int \<Rightarrow> string"
  nb_from_str :: "string \<Rightarrow> int option"
  u256_from_little_endian :: "bytes \<Rightarrow> u256 option"
  u256_to_little_endian :: "u256 \<Rightarrow> bytes"
  with_prec :: "nat \<Rightarrow> bigdec \<Rightarrow> bigdec"
  bd_add :: "bigdec \<Rightarrow> bigdec \<Rightarrow> bigdec"
  bd_sub :: "bigdec \<Rightarrow> bigdec \<Rightarrow> bigdec"
  bd_mul :: "bigdec \<Rightarrow> bigdec \<Rightarrow> bigdec"
  bd_div :: "bigdec \<Rightarrow> bigdec \<Rightarrow> bigdec"
  bd_to_string :: "bigdec \<Rightarrow> string"
  bd_from_str :: "string \<Rightarrow> bigdec option"
  hex_encode :: "bytes \<Rightarrow> string"
  hex_decode :: "string \<Rightarrow> bytes option"

text \<open>What digit strings denote.\<close>

definition sign_of :: "int \<Rightarrow> sign" where
  "sign_of i = (if i < 0 then Minus else if i = 0 then NoSign else Plus)"

fun apply_sign :: "sign \<Rightarrow> int \<Rightarrow> int" where
  "apply_sign Minus n = - n"
| "apply_sign NoSign n = 0"
| "apply_sign Plus n = n"

definition be_value :: "nat list \<Rightarrow> int" where
  "be_value ds = foldl (\<lambda>n d. 10 * n + int d) 0 ds"

fun le_value :: "bytes \<Rightarrow> nat" where
  "le_value [] = 0"
| "le_value (b # bs) = unat b + 256 * le_value bs"

definition signed_le_value :: "bytes \<Rightarrow> int" where
  "signed_le_value bs =
     (if bs \<noteq> [] \<and> 128 \<le> unat (last bs) then int (le_value bs) - 256 ^ length bs
      else int (le_value bs))"

text \<open>The number a decimal denotes; \<open>scale\<close> counts the digits after the point.\<close>

definition bd_value :: "bigdec \<Rightarrow> real" where
  "bd_value d = real_of_int (fst d) * 10 powi (- snd d)"

text \<open>\<open>==\<close> of \<open>bigdecimal::BigDecimal\<close> compares at a common scale.\<close>

definition bd_eq :: "bigdec \<Rightarrow> bigdec \<Rightarrow> bool" where
  "bd_eq a b \<longleftrightarrow>
     (if snd a \<le> snd b then fst a * 10 ^ nat (snd b - snd a) = fst b
      else fst a = fst b * 10 ^ nat (snd a - snd b))"

section \<open>BigDecimal\<close>

definition MAX_SIGNFICANT_DIGITS :: nat where
  "MAX_SIGNFICANT_DIGITS = 34"

definition bd_zero :: bigdec where
  "bd_zero = (0, 0)"

text \<open>\<^term>\<open>None\<close> is the panic of the \<open>unwrap\<close> on \<open>from_radix_be\<close>.\<close>

definition normalized :: "scalar_lib \<Rightarrow> bigdec \<Rightarrow> bigdec option" where
  "normalized lib self =
     (if bd_eq self bd_zero then Some bd_zero
      else
        let big_decimal = with_prec lib MAX_SIGNFICANT_DIGITS self;
            bigint = fst big_decimal;
            expo = snd big_decimal;
            (sign, digits) = to_radix_be lib bigint;
            trailing_count = length (takeWhile (\<lambda>i. i = 0) (rev digits));
            digits = take (length digits - trailing_count) digits
        in case from_radix_be lib sign digits of
             None \<Rightarrow> None
           | Some int_val \<Rightarrow> Some (int_val, expo - int trailing_count))"

definition bd_from :: "scalar_lib \<Rightarrow> bigdec \<Rightarrow> bigdec option" where
  "bd_from lib big_decimal = normalized lib big_decimal"

definition bd_new :: "scalar_lib \<Rightarrow> int \<Rightarrow> int \<Rightarrow> bigdec option" where
  "bd_new lib digits expo = bd_from lib (digits, - expo)"

datatype bd_error = ParseBigDecimalError | Bd_panic

definition big_decimal_from_str :: "scalar_lib \<Rightarrow> string \<Rightarrow> bd_error + bigdec" where
  "big_decimal_from_str lib s =
     (case bd_from_str lib s of
        None \<Rightarrow> Inl ParseBigDecimalError
      | Some d \<Rightarrow> (case bd_from lib d of None \<Rightarrow> Inl Bd_panic | Some d' \<Rightarrow> Inr d'))"

definition big_decimal_add :: "scalar_lib \<Rightarrow> bigdec \<Rightarrow> bigdec \<Rightarrow> bigdec option" where
  "big_decimal_add lib self other = bd_from lib (bd_add lib self other)"

definition big_decimal_sub :: "scalar_lib \<Rightarrow> bigdec \<Rightarrow> bigdec \<Rightarrow> bigdec option" where
  "big_decimal_sub lib self other = bd_from lib (bd_sub lib self other)"

definition big_decimal_mul :: "scalar_lib \<Rightarrow> bigdec \<Rightarrow> bigdec \<Rightarrow> bigdec option" where
  "big_decimal_mul lib self other = bd_from lib (bd_mul lib self other)"

text \<open>Dividing by zero panics.\<close>

definition big_decimal_div :: "scalar_lib \<Rightarrow> bigdec \<Rightarrow> bigdec \<Rightarrow> bigdec option" where
  "big_decimal_div lib self other =
     (case bd_from lib (0, 0) of
        None \<Rightarrow> None
      | Some zero \<Rightarrow> if bd_eq other zero then None else bd_from lib (bd_div lib self other))"

section \<open>BigInt\<close>

unbundle bit_operations_syntax

datatype big_int_out_of_range = BI_Negative | BI_Overflow

text \<open>The loop that assembles the bytes: \<open>n |= (b as u64) << shift_dist; shift_dist += 8\<close>.\<close>

fun le_loop :: "bytes \<Rightarrow> u64 \<Rightarrow> nat \<Rightarrow> u64" where
  "le_loop [] n shift_dist = n"
| "le_loop (b # bs) n shift_dist = le_loop bs (n OR push_bit shift_dist (ucast b)) (shift_dist + 8)"

definition u64_try_from :: "scalar_lib \<Rightarrow> int \<Rightarrow> big_int_out_of_range + u64" where
  "u64_try_from lib value =
     (let (sign, bytes) = nb_to_bytes_le lib value
      in if sign = Minus then Inl BI_Negative
         else if length bytes > 8 then Inl BI_Overflow
         else Inr (le_loop bytes 0 0))"

definition from_unsigned_u256 :: "scalar_lib \<Rightarrow> u256 \<Rightarrow> int" where
  "from_unsigned_u256 lib n = nb_from_bytes_le lib Plus (u256_to_little_endian lib n)"

definition from_signed_u256 :: "scalar_lib \<Rightarrow> u256 \<Rightarrow> int" where
  "from_signed_u256 lib n = nb_from_signed_bytes_le lib (u256_to_little_endian lib n)"

text \<open>\<^term>\<open>None\<close>: the assertion fails, or \<open>from_little_endian\<close> panics on more than 32 bytes.\<close>

definition to_signed_u256 :: "scalar_lib \<Rightarrow> int \<Rightarrow> u256 option" where
  "to_signed_u256 lib self =
     (let bytes = nb_to_signed_bytes_le lib self
      in if self < 0 then
           (if length bytes \<le> 32
            then u256_from_little_endian lib (bytes @ replicate (32 - length bytes) 255)
            else None)
         else u256_from_little_endian lib bytes)"

definition to_unsigned_u256 :: "scalar_lib \<Rightarrow> int \<Rightarrow> u256 option" where
  "to_unsigned_u256 lib self =
     (let (sign, bytes) = nb_to_bytes_le lib self
      in if sign = NoSign \<or> sign = Plus then u256_from_little_endian lib bytes else None)"

text \<open>Division of integers truncates towards zero, and panics on a zero divisor.\<close>

definition big_int_div :: "int \<Rightarrow> int \<Rightarrow> int option" where
  "big_int_div self other =
     (if other = 0 then None else Some (sgn self * sgn other * (\<bar>self\<bar> div \<bar>other\<bar>)))"

definition big_int_rem :: "int \<Rightarrow> int \<Rightarrow> int option" where
  "big_int_rem self other =
     (if other = 0 then None else Some (sgn self * (\<bar>self\<bar> mod \<bar>other\<bar>)))"

section \<open>Bytes\<close>

definition bytes_to_string :: "scalar_lib \<Rightarrow> bytes \<Rightarrow> string" where
  "bytes_to_string lib bs = ''0x'' @ hex_encode lib bs"

text \<open>\<open>trim_start_matches\<close> removes the prefix as often as it occurs.\<close>

fun trim_start_0x :: "string \<Rightarrow> string" where
  "trim_start_0x (a # b # s) = (if a = CHR ''0'' \<and> b = CHR ''x'' then trim_start_0x s else a # b # s)"
| "trim_start_0x s = s"

definition bytes_from_str :: "scalar_lib \<Rightarrow> string \<Rightarrow> bytes option" where
  "bytes_from_str lib s = hex_decode lib (trim_start_0x s)"


section \<open>Digit strings\<close>

lemma be_value_snoc [simp]: "be_value (ds @ [d]) = 10 * be_value ds + int d"
  by (simp add: be_value_def)

lemma be_value_Nil [simp]: "be_value [] = 0"
  by (simp add: be_value_def)

lemma be_value_append_zeros: "be_value (ds @ replicate n 0) = 10 ^ n * be_value ds"
proof (induction n)
  case (Suc n)
  have "be_value (ds @ replicate (Suc n) 0) = be_value ((ds @ replicate n 0) @ [0])"
    by (simp add: replicate_append_same)
  also have "\<dots> = 10 * (10 ^ n * be_value ds)"
    by (simp only: be_value_snoc Suc.IH)
  finally show ?case by simp
qed simp

text \<open>Dropping the trailing zeros, the way the source counts them from the end.\<close>

definition strip_zeros :: "nat list \<Rightarrow> nat list" where
  "strip_zeros ds = take (length ds - length (takeWhile (\<lambda>i. i = 0) (rev ds))) ds"

lemma rev_strip_zeros: "rev (strip_zeros ds) = dropWhile (\<lambda>i. i = 0) (rev ds)"
  by (simp add: strip_zeros_def dropWhile_eq_drop drop_rev)

lemma takeWhile_zeros: "takeWhile (\<lambda>i. i = 0) ds = replicate (length (takeWhile (\<lambda>i. i = 0) ds)) (0::nat)"
  by (induction ds) auto

lemma strip_zeros_split:
  "ds = strip_zeros ds @ replicate (length (takeWhile (\<lambda>i. i = 0) (rev ds))) 0"
proof -
  have "rev ds = replicate (length (takeWhile (\<lambda>i. i = 0) (rev ds))) 0 @ rev (strip_zeros ds)"
    unfolding rev_strip_zeros takeWhile_zeros [symmetric] by simp
  then show ?thesis by (metis rev_append rev_replicate rev_rev_ident)
qed

lemma strip_zeros_last: "strip_zeros ds \<noteq> [] \<Longrightarrow> last (strip_zeros ds) \<noteq> 0"
  using hd_dropWhile [of "\<lambda>i. i = 0" "rev ds"]
  by (simp add: rev_strip_zeros [symmetric] hd_rev)

lemma set_strip_zeros: "set (strip_zeros ds) \<subseteq> set ds"
  unfolding strip_zeros_def by (rule set_take_subset)

lemma be_value_strip_zeros:
  "be_value ds = 10 ^ length (takeWhile (\<lambda>i. i = 0) (rev ds)) * be_value (strip_zeros ds)"
  by (metis be_value_append_zeros strip_zeros_split)

lemma strip_zeros_not_dvd:
  assumes "\<forall>d \<in> set ds. d < 10" "strip_zeros ds \<noteq> []"
  shows "\<not> 10 dvd be_value (strip_zeros ds)"
proof -
  obtain es e where es: "strip_zeros ds = es @ [e]"
    using assms(2) rev_exhaust by blast
  have "e \<noteq> 0" using strip_zeros_last [OF assms(2)] es by simp
  moreover have "e < 10" using assms(1) set_strip_zeros [of ds] es by auto
  ultimately have "\<not> (10::int) dvd int e" by presburger
  then show ?thesis using es by (simp add: dvd_add_right_iff)
qed

lemma le_value_less: "le_value bs < 256 ^ length bs"
proof (induction bs)
  case (Cons b bs)
  have "unat b < 256" using unsigned_less [of b, where 'a = nat] by simp
  with Cons show ?case by simp
qed simp

lemma le_value_append: "le_value (as @ bs) = le_value as + 256 ^ length as * le_value bs"
  by (induction as) (auto simp: algebra_simps)

lemma or_push_bit_disjoint:
  assumes "unat (n :: u64) < 2 ^ k"
  shows "n OR push_bit k m = n + push_bit k m"
proof -
  have n: "n = take_bit k n"
    using assms by (metis take_bit_nat_eq_self unsigned_take_bit_eq unsigned_word_eqI)
  have "n AND push_bit k m = 0"
    by (subst n, rule bit_eqI) (auto simp: bit_simps)
  then show ?thesis using word_plus_and_or [of n "push_bit k m"] by simp
qed

lemma unat_le_loop:
  assumes "unat n < 2 ^ k" "k + 8 * length bs \<le> 64"
  shows "unat (le_loop bs n k) = unat n + 2 ^ k * le_value bs"
  using assms
proof (induction bs arbitrary: n k)
  case (Cons b bs)
  let ?m = "n OR push_bit k (ucast b) :: u64"
  have b: "unat b < 256" using unsigned_less [of b, where 'a = nat] by simp
  have pw: "(2::nat) ^ (k + 8) = 256 * 2 ^ k" by (simp add: power_add)
  have le64: "(2::nat) ^ (k + 8) \<le> 2 ^ 64" using Cons.prems by (intro power_increasing) auto
  have prod: "2 ^ k * unat b + 2 ^ k \<le> 256 * 2 ^ k"
    using mult_le_mono2 [of "unat b + 1" 256 "2 ^ k"] b by (simp add: algebra_simps)
  have small: "unat n + 2 ^ k * unat b < 2 ^ (k + 8)" using prod Cons.prems(1) pw by linarith
  have ub: "unat (ucast b :: u64) = unat b" by (simp add: unsigned_ucast_eq take_bit_nat_eq_self b less_trans [OF b])
  have pb: "unat (push_bit k (ucast b :: u64)) = 2 ^ k * unat b"
  proof -
    have "push_bit k (ucast b :: u64) = of_nat (2 ^ k * unat b)"
      by (simp add: push_bit_eq_mult mult.commute)
    moreover have "2 ^ k * unat b < 2 ^ 64" using small le64 by linarith
    ultimately show ?thesis by (simp only: unat_of_nat) simp
  qed
  have "unat ?m = unat n + 2 ^ k * unat b"
    using small le64 pb by (simp add: or_push_bit_disjoint [OF Cons.prems(1)] unat_word_ariths)
  moreover have "unat (le_loop bs ?m (k + 8)) = unat ?m + 2 ^ (k + 8) * le_value bs"
    using Cons.IH [of ?m "k + 8"] calculation small Cons.prems by simp
  ultimately show ?case by (simp add: pw algebra_simps)
qed simp

lemma le_value_snoc:
  assumes "bs \<noteq> []"
  shows "le_value bs = le_value (butlast bs) + 256 ^ (length bs - 1) * unat (last bs)"
  using assms le_value_append [of "butlast bs" "[last bs]"] by simp

lemma le_value_last_ge:
  assumes "bs \<noteq> []" "128 \<le> unat (last bs)"
  shows "256 ^ length bs \<le> 2 * int (le_value bs)"
proof -
  have "(256::nat) ^ (length bs - 1) * 128 \<le> 256 ^ (length bs - 1) * unat (last bs)"
    using assms(2) by simp
  moreover have "(256::nat) ^ length bs = 256 ^ (length bs - 1) * 256"
    using assms(1) by (cases bs) auto
  ultimately have "256 ^ length bs \<le> 2 * le_value bs"
    using le_value_snoc [OF assms(1)] by linarith
  then show ?thesis by (metis of_nat_le_iff of_nat_mult of_nat_numeral of_nat_power)
qed

lemma le_value_last_less:
  assumes "bs \<noteq> []" "unat (last bs) < 128"
  shows "2 * int (le_value bs) < 256 ^ length bs"
proof -
  have "(256::nat) ^ (length bs - 1) * (unat (last bs) + 1) \<le> 256 ^ (length bs - 1) * 128"
    using assms(2) by (intro mult_le_mono2) simp
  then have "(256::nat) ^ (length bs - 1) * unat (last bs) + 256 ^ (length bs - 1) \<le>
      256 ^ (length bs - 1) * 128"
    by (simp only: distrib_left mult_1_right)
  moreover have "(256::nat) ^ length bs = 256 ^ (length bs - 1) * 256"
    using assms(1) by (cases bs) auto
  moreover have "le_value (butlast bs) < 256 ^ (length bs - 1)"
    using le_value_less [of "butlast bs"] by simp
  ultimately have "2 * le_value bs < 256 ^ length bs"
    using le_value_snoc [OF assms(1)] by linarith
  then show ?thesis by (metis of_nat_less_iff of_nat_mult of_nat_numeral of_nat_power)
qed

lemma le_value_ones: "int (le_value (replicate n 255)) = 256 ^ n - 1"
  by (induction n) auto


lemma sint_uint_u256: "sint (w :: u256) = (if uint w < 2 ^ 255 then uint w else uint w - 2 ^ 256)"
proof -
  have b: "- (2 ^ 255) \<le> sint w" "sint w < 2 ^ 255"
    using sint_greater_eq [of w] sint_less [of w] by simp_all
  have u: "uint w = sint w mod 2 ^ 256" by (simp add: uint_sint take_bit_eq_mod)
  show ?thesis
  proof (cases "sint w < 0")
    case True
    have "uint w = (sint w + 2 ^ 256) mod 2 ^ 256" using u by simp
    also have "\<dots> = sint w + 2 ^ 256" using b True by (intro mod_pos_pos_trivial) simp_all
    finally show ?thesis using b by simp
  next
    case False
    have "uint w = sint w" using u b False by (simp add: mod_pos_pos_trivial)
    then show ?thesis using b by simp
  qed
qed

section \<open>Decimals in lowest terms\<close>

lemma bd_eq_value: "bd_eq a b \<longleftrightarrow> bd_value a = bd_value b"
proof -
  have shift: "bd_value (i, s) = bd_value (i * 10 ^ nat (t - s), t)" if "s \<le> t" for i s t
  proof -
    have "(10::real) powi (- s) = 10 powi (t - s) * 10 powi (- t)"
      by (subst power_int_add [symmetric]) auto
    also have "(10::real) powi (t - s) = 10 ^ nat (t - s)"
      using that by (simp add: power_int_def)
    finally show ?thesis by (simp add: bd_value_def)
  qed
  have inj: "bd_value (i, t) = bd_value (j, t) \<longleftrightarrow> i = j" for i j t
    by (simp add: bd_value_def)
  show ?thesis
  proof (cases "snd a \<le> snd b")
    case True
    then show ?thesis
      using shift [OF True, of "fst a"] inj by (simp add: bd_eq_def) (metis prod.collapse)
  next
    case False
    then show ?thesis
      using shift [of "snd b" "snd a" "fst b"] inj by (simp add: bd_eq_def) (metis prod.collapse)
  qed
qed

lemma bd_value_zero [simp]: "bd_value bd_zero = 0"
  by (simp add: bd_value_def bd_zero_def)

lemma bd_value_eq_0: "bd_value a = 0 \<longleftrightarrow> fst a = 0"
  by (simp add: bd_value_def)

text \<open>Zero with scale zero, or an integer value without a trailing zero: one form per number.\<close>

definition canonical :: "bigdec \<Rightarrow> bool" where
  "canonical d \<longleftrightarrow> d = bd_zero \<or> \<not> 10 dvd fst d"

lemma canonical_unique:
  assumes "canonical a" "canonical b" "bd_value a = bd_value b"
  shows "a = b"
proof -
  have same: "i = j \<and> s = t"
    if "i * 10 ^ nat (t - s) = j" "s \<le> t" "\<not> 10 dvd j" for i j s t :: int
  proof -
    have "nat (t - s) = 0"
    proof (rule ccontr)
      assume "nat (t - s) \<noteq> 0"
      then have "(10::int) dvd 10 ^ nat (t - s)" by (simp add: dvd_power)
      with that show False by (metis dvd_mult)
    qed
    with that show ?thesis by simp
  qed
  have eq: "bd_eq a b" "bd_eq b a" using assms(3) by (simp_all add: bd_eq_value)
  show ?thesis
  proof (cases "a = bd_zero \<or> b = bd_zero")
    case True
    then have "fst a = 0" "fst b = 0"
      using assms(3) bd_value_eq_0 [of a] bd_value_eq_0 [of b] by auto
    with assms(1,2) show ?thesis by (auto simp: canonical_def)
  next
    case False
    with assms have nd: "\<not> 10 dvd fst a" "\<not> 10 dvd fst b" by (auto simp: canonical_def)
    show ?thesis
    proof (cases "snd a \<le> snd b")
      case True
      with eq(1) have "fst a * 10 ^ nat (snd b - snd a) = fst b" by (simp add: bd_eq_def)
      from same [OF this True nd(2)] show ?thesis by (simp add: prod_eq_iff)
    next
      case False
      with eq(2) have "fst b * 10 ^ nat (snd a - snd b) = fst a" "snd b \<le> snd a"
        by (simp_all add: bd_eq_def)
      from same [OF this nd(1)] show ?thesis by (simp add: prod_eq_iff)
    qed
  qed
qed

section \<open>What the crates promise\<close>

locale scalar_crates =
  fixes lib :: scalar_lib
  assumes to_radix_sign: "fst (to_radix_be lib i) = sign_of i"
    and to_radix_value: "be_value (snd (to_radix_be lib i)) = \<bar>i\<bar>"
    and to_radix_digit: "d \<in> set (snd (to_radix_be lib i)) \<Longrightarrow> d < 10"
    and from_radix: "(\<And>d. d \<in> set ds \<Longrightarrow> d < 10) \<Longrightarrow>
      from_radix_be lib s ds = Some (apply_sign s (be_value ds))"
    and to_bytes_sign: "fst (nb_to_bytes_le lib i) = sign_of i"
    and to_bytes_value: "int (le_value (snd (nb_to_bytes_le lib i))) = \<bar>i\<bar>"
    and to_bytes_short: "0 < n \<Longrightarrow> \<bar>i\<bar> < 256 ^ n \<Longrightarrow> length (snd (nb_to_bytes_le lib i)) \<le> n"
    and from_bytes: "nb_from_bytes_le lib s bs = apply_sign s (int (le_value bs))"
    and to_signed_value: "signed_le_value (nb_to_signed_bytes_le lib i) = i"
    and to_signed_short: "- (256 ^ n) \<le> 2 * i \<Longrightarrow> 2 * i < 256 ^ n \<Longrightarrow> 0 < n \<Longrightarrow>
      length (nb_to_signed_bytes_le lib i) \<le> n"
    and from_signed: "nb_from_signed_bytes_le lib bs = signed_le_value bs"
    and u256_from: "u256_from_little_endian lib bs =
      (if length bs \<le> 32 then Some (of_nat (le_value bs)) else None)"
    and u256_to_length: "length (u256_to_little_endian lib w) = 32"
    and u256_to_value: "le_value (u256_to_little_endian lib w) = unat w"
    and with_prec_exact: "0 < p \<Longrightarrow> \<bar>fst b\<bar> < 10 ^ p \<Longrightarrow> bd_value b = bd_value a \<Longrightarrow>
      bd_value (with_prec lib p a) = bd_value a"
    and with_prec_bound: "0 < p \<Longrightarrow> \<bar>fst (with_prec lib p a)\<bar> \<le> 10 ^ p"
    and with_prec_nonzero: "0 < p \<Longrightarrow> bd_value a \<noteq> 0 \<Longrightarrow> bd_value (with_prec lib p a) \<noteq> 0"
    and bd_add_value: "bd_value (bd_add lib a b) = bd_value a + bd_value b"
    and bd_sub_value: "bd_value (bd_sub lib a b) = bd_value a - bd_value b"
    and bd_mul_value: "bd_value (bd_mul lib a b) = bd_value a * bd_value b"
    and nb_print_parse: "nb_from_str lib (nb_to_string lib i) = Some i"
    and bd_print_parse: "\<exists>c. bd_from_str lib (bd_to_string lib a) = Some c \<and> bd_value c = bd_value a"
    and hex_round_trip: "hex_decode lib (hex_encode lib bs) = Some bs"
    and hex_no_x: "CHR ''x'' \<notin> set (hex_encode lib bs)"

begin


lemma normalized_nonzero:
  assumes "bd_value d \<noteq> 0"
  obtains r where "normalized lib d = Some r" "canonical r"
    "bd_value r = bd_value (with_prec lib 34 d)" "\<bar>fst r\<bar> < 10 ^ 34"
proof -
  define w where "w = with_prec lib 34 d"
  define ds where "ds = snd (to_radix_be lib (fst w))"
  define tc where "tc = length (takeWhile (\<lambda>i. i = 0) (rev ds))"
  define r where "r = (apply_sign (sign_of (fst w)) (be_value (strip_zeros ds)), snd w - int tc)"
  have w0: "fst w \<noteq> 0"
    using with_prec_nonzero [of 34 d] assms by (simp add: w_def bd_value_eq_0)
  have digits: "\<forall>x \<in> set ds. x < 10" using to_radix_digit by (auto simp: ds_def)
  have val: "\<bar>fst w\<bar> = 10 ^ tc * be_value (strip_zeros ds)"
    using to_radix_value [of "fst w"] be_value_strip_zeros [of ds] by (simp add: ds_def tc_def)
  have ne: "strip_zeros ds \<noteq> []" using val w0 by auto
  have nonneg: "0 < be_value (strip_zeros ds)"
    using val w0 by (metis abs_ge_zero mult_zero_right zero_less_abs_iff zero_less_mult_pos zero_less_numeral zero_less_power)
  have r1: "\<bar>fst r\<bar> = be_value (strip_zeros ds)"
    using nonneg w0 by (auto simp: r_def sign_of_def)
  have r2: "fst w = fst r * 10 ^ tc"
    using val w0 by (auto simp: r_def sign_of_def mult.commute)
  have "\<not> 10 dvd fst r"
    using strip_zeros_not_dvd [OF digits ne] r1 by (metis dvd_abs_iff)
  then have can: "canonical r" by (simp add: canonical_def)
  have vr: "bd_value r = bd_value w"
    using r2 by (subst bd_eq_value [symmetric]) (simp add: bd_eq_def r_def)
  have "\<bar>fst r\<bar> < 10 ^ 34"
  proof -
    have "\<bar>fst r\<bar> \<le> \<bar>fst w\<bar>" using r2 by (simp add: abs_mult mult_le_cancel_left1)
    also have "\<dots> \<le> 10 ^ 34" using with_prec_bound [of 34 d] by (simp add: w_def)
    finally have "\<bar>fst r\<bar> \<le> 10 ^ 34" .
    moreover have "\<bar>fst r\<bar> \<noteq> 10 ^ 34" using \<open>\<not> 10 dvd fst r\<close> by (metis dvd_abs_iff dvd_power zero_less_numeral)
    ultimately show ?thesis by simp
  qed
  moreover have "normalized lib d = Some r"
  proof -
    have "to_radix_be lib (fst w) = (sign_of (fst w), ds)"
      using to_radix_sign [of "fst w"] by (simp add: ds_def prod_eq_iff)
    moreover have "from_radix_be lib (sign_of (fst w)) (strip_zeros ds) = Some (fst r)"
      using from_radix [of "strip_zeros ds"] digits set_strip_zeros [of ds] by (auto simp: r_def)
    moreover have "\<not> bd_eq d bd_zero" using assms by (simp add: bd_eq_value)
    ultimately show ?thesis
      by (simp add: normalized_def MAX_SIGNFICANT_DIGITS_def Let_def w_def [symmetric]
          strip_zeros_def [symmetric] tc_def [symmetric] r_def)
  qed
  ultimately show thesis using that can vr w_def by simp
qed

lemma normalized_total: "\<exists>r. normalized lib d = Some r \<and> canonical r \<and> \<bar>fst r\<bar> < 10 ^ 34"
proof (cases "bd_value d = 0")
  case True
  then have "normalized lib d = Some bd_zero" by (simp add: normalized_def bd_eq_value)
  then show ?thesis by (simp add: canonical_def) (simp add: bd_zero_def)
next
  case False
  then show ?thesis using normalized_nonzero by metis
qed

lemma normalized_exact:
  assumes "normalized lib d = Some r" "bd_value e = bd_value d" "\<bar>fst e\<bar> < 10 ^ 34"
  shows "bd_value r = bd_value d"
proof (cases "bd_value d = 0")
  case True
  with assms(1) show ?thesis by (auto simp: normalized_def bd_eq_value)
next
  case False
  then obtain r' where "normalized lib d = Some r'" "bd_value r' = bd_value (with_prec lib 34 d)"
    by (rule normalized_nonzero)
  with assms with_prec_exact [of 34 e d] show ?thesis by simp
qed

lemma normalized_canonical_id:
  assumes "canonical r" "\<bar>fst r\<bar> < 10 ^ 34" "bd_value c = bd_value r"
  shows "normalized lib c = Some r"
  using normalized_total [of c] normalized_exact [of c _ r] canonical_unique [of _ r] assms by metis

lemma normalized_idem: "normalized lib d = Some r \<Longrightarrow> normalized lib r = Some r"
  using normalized_total [of d] normalized_canonical_id [of r r] by auto

lemma big_decimal_print_parse:
  assumes "normalized lib d = Some r"
  shows "big_decimal_from_str lib (bd_to_string lib r) = Inr r"
proof -
  obtain c where c: "bd_from_str lib (bd_to_string lib r) = Some c" "bd_value c = bd_value r"
    using bd_print_parse by blast
  have "normalized lib c = Some r"
    using normalized_total [of d] normalized_canonical_id [of r c] assms c(2) by auto
  with c(1) show ?thesis by (simp add: big_decimal_from_str_def bd_from_def)
qed

lemma u64_try_from_spec:
  "u64_try_from lib i =
     (if i < 0 then Inl BI_Negative else if i < 2 ^ 64 then Inr (of_int i) else Inl BI_Overflow)"
proof -
  obtain sg bs where b: "nb_to_bytes_le lib i = (sg, bs)" by (cases "nb_to_bytes_le lib i")
  have sg: "sg = sign_of i" using to_bytes_sign [of i] b by simp
  have val: "int (le_value bs) = \<bar>i\<bar>" using to_bytes_value [of i] b by simp
  consider "i < 0" | "0 \<le> i" "i < 2 ^ 64" | "2 ^ 64 \<le> i" by linarith
  then show ?thesis
  proof cases
    case 1
    then show ?thesis using b sg by (simp add: u64_try_from_def sign_of_def)
  next
    case 2
    have len: "length bs \<le> 8" using to_bytes_short [of 8 i] b 2 by simp
    have "unat (le_loop bs 0 0) = nat i" using unat_le_loop [of 0 0 bs] len val 2 by simp
    then have "le_loop bs 0 0 = of_nat (nat i)" by (metis of_nat_unat ucast_id)
    then have "le_loop bs 0 0 = of_int i" using 2(1) by simp
    with b sg len 2 show ?thesis by (simp add: u64_try_from_def sign_of_def)
  next
    case 3
    have "\<not> length bs \<le> 8"
    proof
      assume "length bs \<le> 8"
      then have "(256::nat) ^ length bs \<le> 256 ^ 8" by (rule power_increasing) simp
      with le_value_less [of bs] have "le_value bs < 256 ^ 8" by linarith
      with val 3 show False by simp
    qed
    with b sg 3 show ?thesis by (simp add: u64_try_from_def sign_of_def)
  qed
qed

lemma signed_le_value_append_ones:
  assumes "signed_le_value bs = i" "i < 0"
  shows "int (le_value (bs @ replicate n 255)) = i + 256 ^ (length bs + n)"
proof -
  have "int (le_value bs) = i + 256 ^ length bs"
    using assms by (auto simp: signed_le_value_def split: if_splits)
  then show ?thesis
    by (simp add: le_value_append le_value_ones algebra_simps power_add)
qed

lemma to_signed_u256_negative:
  assumes "i < 0"
  shows "to_signed_u256 lib i = (if - (2 ^ 255) \<le> i then Some (of_int i) else None)"
proof -
  define bs where "bs = nb_to_signed_bytes_le lib i"
  have val: "signed_le_value bs = i" by (simp add: bs_def to_signed_value)
  have eq: "int (le_value (bs @ replicate (32 - length bs) 255)) = i + 2 ^ 256" if "length bs \<le> 32"
    using signed_le_value_append_ones [OF val assms, of "32 - length bs"] that by simp
  have "length bs \<le> 32 \<longleftrightarrow> - (2 ^ 255) \<le> i"
  proof
    assume len: "length bs \<le> 32"
    have neg: "int (le_value bs) - 256 ^ length bs = i" "128 \<le> unat (last bs)" "bs \<noteq> []"
      using val assms by (auto simp: signed_le_value_def split: if_splits)
    have "- (256 ^ length bs) \<le> 2 * i" using le_value_last_ge [OF neg(3,2)] neg(1) by simp
    moreover have "(256::int) ^ length bs \<le> 256 ^ 32" using len by (intro power_increasing) auto
    ultimately show "- (2 ^ 255) \<le> i" by simp
  next
    assume "- (2 ^ 255) \<le> i"
    then show "length bs \<le> 32" using to_signed_short [of 32 i] assms by (simp add: bs_def)
  qed
  moreover have "of_nat (le_value (bs @ replicate (32 - length bs) 255)) = (of_int i :: u256)"
    if "length bs \<le> 32"
  proof -
    have "(of_nat (le_value (bs @ replicate (32 - length bs) 255)) :: u256) = of_int (i + 2 ^ 256)"
      using eq [OF that] by (metis of_int_of_nat_eq)
    also have "\<dots> = of_int i" by (simp add: word_of_int_2p_len)
    finally show ?thesis .
  qed
  ultimately show ?thesis using assms
    by (auto simp: to_signed_u256_def Let_def bs_def [symmetric] u256_from)
qed

lemma to_signed_u256_nonneg:
  assumes "0 \<le> i"
  shows "to_signed_u256 lib i = (if i < 2 ^ 255 then Some (of_int i) else None)"
proof -
  define bs where "bs = nb_to_signed_bytes_le lib i"
  have val: "signed_le_value bs = i" by (simp add: bs_def to_signed_value)
  have pos: "int (le_value bs) = i" "bs \<noteq> [] \<Longrightarrow> unat (last bs) < 128"
    using val assms le_value_less [of bs]
    by (auto simp: signed_le_value_def split: if_splits)
  have "length bs \<le> 32 \<longleftrightarrow> i < 2 ^ 255"
  proof
    assume len: "length bs \<le> 32"
    show "i < 2 ^ 255"
    proof (cases "bs = []")
      case True
      with pos(1) show ?thesis by simp
    next
      case False
      have "2 * i < 256 ^ length bs" using le_value_last_less [OF False pos(2) [OF False]] pos(1) by simp
      moreover have "(256::int) ^ length bs \<le> 256 ^ 32" using len by (intro power_increasing) auto
      ultimately show ?thesis by simp
    qed
  next
    assume "i < 2 ^ 255"
    then show "length bs \<le> 32" using to_signed_short [of 32 i] assms by (simp add: bs_def)
  qed
  moreover have "of_nat (le_value bs) = (of_int i :: u256)" using pos(1) by (metis of_int_of_nat_eq)
  ultimately show ?thesis using assms
    by (auto simp: to_signed_u256_def Let_def bs_def [symmetric] u256_from)
qed

lemma to_signed_u256_spec:
  "to_signed_u256 lib i = (if - (2 ^ 255) \<le> i \<and> i < 2 ^ 255 then Some (of_int i) else None)"
proof (cases "i < 0")
  case True
  then have "i < 2 ^ 255" by simp
  with True show ?thesis using to_signed_u256_negative [of i] by simp
next
  case False
  then have "- (2 ^ 255) \<le> i" by simp
  with False show ?thesis using to_signed_u256_nonneg [of i] by simp
qed

lemma from_signed_u256_sint: "from_signed_u256 lib w = sint w"
proof -
  define bs where "bs = u256_to_little_endian lib w"
  have len: "length bs = 32" and val: "le_value bs = unat w"
    by (simp_all add: bs_def u256_to_length u256_to_value)
  have ne: "bs \<noteq> []" using len by auto
  have sw: "sint w = (if uint w < 2 ^ 255 then uint w else uint w - 2 ^ 256)"
    using sint_uint_u256 [of w] .
  show ?thesis
  proof (cases "128 \<le> unat (last bs)")
    case True
    then show ?thesis
      using le_value_last_ge [OF ne True] len val ne sw
      by (simp add: from_signed_u256_def from_signed signed_le_value_def bs_def [symmetric])
  next
    case False
    then show ?thesis
      using le_value_last_less [OF ne] len val ne sw
      by (simp add: from_signed_u256_def from_signed signed_le_value_def bs_def [symmetric])
  qed
qed

end

section \<open>An implementation of the crates\<close>

text \<open>
  Digit generation by division, two's complement by the sign of the remaining quotient, rounding
  half up to the requested precision. It shows that the laws of \<open>scalar_crates\<close> hold together.
\<close>

fun digits10 :: "nat \<Rightarrow> nat list" where
  "digits10 n = (if n < 10 then [n] else digits10 (n div 10) @ [n mod 10])"

declare digits10.simps [simp del]

fun bytes_le :: "nat \<Rightarrow> bytes" where
  "bytes_le n = (if n < 256 then [of_nat n] else of_nat n # bytes_le (n div 256))"

declare bytes_le.simps [simp del]

function signed_bytes_le :: "int \<Rightarrow> bytes" where
  "signed_bytes_le i =
     (if - 128 \<le> i \<and> i < 128 then [of_int i] else of_int i # signed_bytes_le (i div 256))"
  by auto
termination by (relation "measure (\<lambda>i. nat \<bar>i\<bar>)") auto

declare signed_bytes_le.simps [simp del]

fun fixed_le :: "nat \<Rightarrow> nat \<Rightarrow> bytes" where
  "fixed_le 0 n = []"
| "fixed_le (Suc k) n = of_nat n # fixed_le k (n div 256)"

fun nat_bits :: "nat \<Rightarrow> nat" where
  "nat_bits n = (if n = 0 then 0 else Suc (nat_bits (n div 2)))"

declare nat_bits.simps [simp del]

definition ref_with_prec :: "nat \<Rightarrow> bigdec \<Rightarrow> bigdec" where
  "ref_with_prec p d =
     (let n = length (digits10 (nat \<bar>fst d\<bar>)) in
      if p < n then
        (let k = n - p; q = \<bar>fst d\<bar> div 10 ^ k; r = \<bar>fst d\<bar> mod 10 ^ k
         in (sgn (fst d) * (if 10 ^ k \<le> 2 * r then q + 1 else q), snd d - int k))
      else (fst d * 10 ^ (p - n), snd d + int (p - n)))"

definition digit_char :: "nat \<Rightarrow> char" where
  "digit_char d = char_of (if d < 10 then 48 + d else 87 + d)"

definition char_digit :: "char \<Rightarrow> nat" where
  "char_digit c = (if of_char c < (58::nat) then of_char c - 48 else of_char c - 87)"

definition show_int :: "int \<Rightarrow> string" where
  "show_int i = (if i < 0 then ''-'' else []) @ map digit_char (digits10 (nat \<bar>i\<bar>))"

definition parse_digits :: "string \<Rightarrow> int option" where
  "parse_digits s =
     (if s \<noteq> [] \<and> list_all (\<lambda>c. c = digit_char (char_digit c) \<and> char_digit c < 10) s
      then Some (be_value (map char_digit s)) else None)"

definition parse_int :: "string \<Rightarrow> int option" where
  "parse_int s =
     (case s of c # cs \<Rightarrow> if c = CHR ''-'' then map_option uminus (parse_digits cs) else parse_digits s
      | [] \<Rightarrow> None)"

definition show_dec :: "bigdec \<Rightarrow> string" where
  "show_dec d = show_int (fst d) @ ''E'' @ show_int (- snd d)"

definition parse_dec :: "string \<Rightarrow> bigdec option" where
  "parse_dec s =
     (let a = takeWhile (\<lambda>c. c \<noteq> CHR ''E'') s; b = drop (Suc (length a)) s
      in case (parse_int a, if length a < length s then parse_int b else Some 0) of
           (Some i, Some e) \<Rightarrow> Some (i, - e)
         | _ \<Rightarrow> None)"

definition ref_hex_encode :: "bytes \<Rightarrow> string" where
  "ref_hex_encode bs = concat (map (\<lambda>b. [digit_char (unat b div 16), digit_char (unat b mod 16)]) bs)"

fun ref_hex_decode :: "string \<Rightarrow> bytes option" where
  "ref_hex_decode [] = Some []"
| "ref_hex_decode [c] = None"
| "ref_hex_decode (c # d # s) =
     (if list_all (\<lambda>c. char_digit c < 16 \<and> c = digit_char (char_digit c)) [c, d]
      then map_option (\<lambda>bs. of_nat (16 * char_digit c + char_digit d) # bs) (ref_hex_decode s)
      else None)"

definition align :: "(int \<Rightarrow> int \<Rightarrow> int) \<Rightarrow> bigdec \<Rightarrow> bigdec \<Rightarrow> bigdec" where
  "align f a b =
     (let s = max (snd a) (snd b)
      in (f (fst a * 10 ^ nat (s - snd a)) (fst b * 10 ^ nat (s - snd b)), s))"

definition reference_lib :: scalar_lib where
  "reference_lib = \<lparr>
     to_radix_be = (\<lambda>i. (sign_of i, digits10 (nat \<bar>i\<bar>))),
     from_radix_be = (\<lambda>s ds. if list_all (\<lambda>d. d < 10) ds then Some (apply_sign s (be_value ds)) else None),
     nb_to_bytes_le = (\<lambda>i. (sign_of i, bytes_le (nat \<bar>i\<bar>))),
     nb_from_bytes_le = (\<lambda>s bs. apply_sign s (int (le_value bs))),
     nb_to_signed_bytes_le = signed_bytes_le,
     nb_from_signed_bytes_le = signed_le_value,
     nb_bits = (\<lambda>i. nat_bits (nat \<bar>i\<bar>)),
     nb_to_string = show_int,
     nb_from_str = parse_int,
     u256_from_little_endian = (\<lambda>bs. if length bs \<le> 32 then Some (of_nat (le_value bs)) else None),
     u256_to_little_endian = (\<lambda>w. fixed_le 32 (unat w)),
     with_prec = ref_with_prec,
     bd_add = align (+),
     bd_sub = align (-),
     bd_mul = (\<lambda>a b. (fst a * fst b, snd a + snd b)),
     bd_div = (\<lambda>a b. (fst a * 10 ^ 100 div fst b, snd a + 100 - snd b)),
     bd_to_string = show_dec,
     bd_from_str = parse_dec,
     hex_encode = ref_hex_encode,
     hex_decode = ref_hex_decode \<rparr>"

lemma be_value_digits10: "be_value (digits10 n) = int n"
proof (induction n rule: digits10.induct)
  case (1 n)
  then show ?case
    by (subst digits10.simps) (auto simp: be_value_def zdiv_int zmod_int)
qed

lemma digits10_lt: "d \<in> set (digits10 n) \<Longrightarrow> d < 10"
proof (induction n rule: digits10.induct)
  case (1 n)
  from 1(2) show ?case using 1(1) by (subst (asm) digits10.simps) (auto split: if_splits)
qed

lemma digits10_upper: "n < 10 ^ length (digits10 n)"
proof (induction n rule: digits10.induct)
  case (1 n)
  show ?case
  proof (cases "n < 10")
    case True
    then show ?thesis by (subst digits10.simps) simp
  next
    case False
    with 1 have "n div 10 < 10 ^ length (digits10 (n div 10))" by blast
    then have "n < 10 * 10 ^ length (digits10 (n div 10))" by linarith
    with False show ?thesis by (subst digits10.simps) simp
  qed
qed

lemma digits10_lower: "10 \<le> n \<Longrightarrow> 10 ^ (length (digits10 n) - 1) \<le> n"
proof (induction n rule: digits10.induct)
  case (1 n)
  have len: "0 < length (digits10 m)" for m by (subst digits10.simps) simp
  have "10 ^ (length (digits10 (n div 10)) - 1) \<le> n div 10"
  proof (cases "10 \<le> n div 10")
    case True
    with 1 show ?thesis by simp
  next
    case False
    with 1 show ?thesis by (subst digits10.simps) simp
  qed
  then have "10 * 10 ^ (length (digits10 (n div 10)) - 1) \<le> n" by linarith
  moreover have "10 * 10 ^ (length (digits10 (n div 10)) - 1) = (10::nat) ^ length (digits10 (n div 10))"
    using len [of "n div 10"] by (cases "length (digits10 (n div 10))") auto
  ultimately show ?case using 1(2) by (subst digits10.simps) simp
qed

lemma le_value_bytes_le: "le_value (bytes_le n) = n"
proof (induction n rule: bytes_le.induct)
  case (1 n)
  then show ?case by (subst bytes_le.simps) (auto simp: unat_of_nat)
qed

lemma length_bytes_le: "n < 256 ^ Suc k \<Longrightarrow> length (bytes_le n) \<le> Suc k"
proof (induction k arbitrary: n)
  case 0
  then show ?case by (subst bytes_le.simps) simp
next
  case (Suc k)
  then have "n div 256 < 256 ^ Suc k" by (simp add: less_mult_imp_div_less mult.commute)
  with Suc.IH show ?case by (subst bytes_le.simps) simp
qed

lemma le_value_fixed_le: "le_value (fixed_le k n) = n mod 256 ^ k"
proof (induction k arbitrary: n)
  case (Suc k)
  then show ?case by (simp add: unat_of_nat mod_mult2_eq)
qed simp

lemma length_fixed_le [simp]: "length (fixed_le k n) = k"
  by (induction k arbitrary: n) auto

lemma uint_of_int_u8: "int (unat (of_int i :: u8)) = i mod 256"
  by (simp add: uint_word_of_int)

lemma signed_le_value_Cons:
  "bs \<noteq> [] \<Longrightarrow> signed_le_value (b # bs) = int (unat b) + 256 * signed_le_value bs"
  by (auto simp: signed_le_value_def)

lemma signed_bytes_le_nonempty [simp]: "signed_bytes_le i \<noteq> []"
  by (subst signed_bytes_le.simps) simp

lemma signed_le_value_bytes: "signed_le_value (signed_bytes_le i) = i"
proof (induction i rule: signed_bytes_le.induct)
  case (1 i)
  show ?case
  proof (cases "- 128 \<le> i \<and> i < 128")
    case True
    have m: "i mod 256 = (if i < 0 then i + 256 else i)"
    proof (cases "i < 0")
      case neg: True
      have "i mod 256 = (i + 256) mod 256" by simp
      also have "\<dots> = i + 256" using True neg by (intro mod_pos_pos_trivial) auto
      finally show ?thesis using neg by simp
    qed (use True in simp)
    have u: "int (unat (of_int i :: u8)) = (if i < 0 then i + 256 else i)"
      using uint_of_int_u8 [of i] m by simp
    have "128 \<le> int (unat (of_int i :: u8)) \<longleftrightarrow> i < 0" unfolding u using True by auto
    then have "128 \<le> unat (of_int i :: u8) \<longleftrightarrow> i < 0" by linarith
    with u True show ?thesis
      by (subst signed_bytes_le.simps) (simp add: signed_le_value_def del: of_nat_unat)
  next
    case False
    with 1 have "signed_le_value (signed_bytes_le (i div 256)) = i div 256" by blast
    with False show ?thesis
      by (subst signed_bytes_le.simps)
        (auto simp: signed_le_value_Cons uint_of_int_u8 simp del: of_nat_unat)
  qed
qed

lemma length_signed_bytes_le:
  "- (256 ^ Suc k) \<le> 2 * i \<Longrightarrow> 2 * i < 256 ^ Suc k \<Longrightarrow> length (signed_bytes_le i) \<le> Suc k"
proof (induction k arbitrary: i)
  case 0
  then show ?case by (subst signed_bytes_le.simps) simp
next
  case (Suc k)
  define P where "P = (256::int) ^ Suc k"
  have "- (256 * P) \<le> 2 * i" "2 * i < 256 * P" "even P" using Suc.prems by (simp_all add: P_def)
  then obtain Q where Q: "P = 2 * Q" "- (256 * Q) \<le> i" "i < 256 * Q" by (auto elim!: evenE)
  have "i div 256 < Q" using Q(3) by linarith
  moreover have "- Q \<le> i div 256" using Q(2) by linarith
  ultimately have "- P \<le> 2 * (i div 256)" "2 * (i div 256) < P" using Q(1) by simp_all
  with Suc.IH [of "i div 256"] show ?case by (subst signed_bytes_le.simps) (simp add: P_def)
qed

lemma digit_char_less: "d < 10 \<Longrightarrow> char_digit (digit_char d) = d"
  by (simp add: char_digit_def digit_char_def)

lemma char_digit_hex: "d < 16 \<Longrightarrow> char_digit (digit_char d) = d"
  by (simp add: char_digit_def digit_char_def)

lemma digit_char_neq:
  assumes "d < 16"
  shows "digit_char d \<noteq> CHR ''-''" "digit_char d \<noteq> CHR ''E''" "digit_char d \<noteq> CHR ''x''"
proof -
  have "of_char (digit_char d) = (if d < 10 then 48 + d else 87 + d :: nat)"
    using assms by (simp add: digit_char_def)
  moreover have "of_char CHR ''-'' = (45::nat)" "of_char CHR ''E'' = (69::nat)"
    "of_char CHR ''x'' = (120::nat)" by simp_all
  ultimately show "digit_char d \<noteq> CHR ''-''" "digit_char d \<noteq> CHR ''E''" "digit_char d \<noteq> CHR ''x''"
    using assms by (auto split: if_splits)
qed

lemma digits10_nonempty [simp]: "digits10 n \<noteq> []"
  by (subst digits10.simps) simp

lemma parse_digits_digits10: "parse_digits (map digit_char (digits10 n)) = Some (int n)"
proof -
  have "map (char_digit \<circ> digit_char) (digits10 n) = digits10 n"
    using digits10_lt by (auto intro!: map_idI simp: digit_char_less)
  then show ?thesis
    using digits10_lt be_value_digits10 [of n]
    by (auto simp: parse_digits_def list_all_iff digit_char_less)
qed

lemma parse_show_int: "parse_int (show_int i) = Some i"
proof (cases "i < 0")
  case True
  then show ?thesis by (simp add: parse_int_def show_int_def parse_digits_digits10)
next
  case False
  obtain d ds where ds: "digits10 (nat \<bar>i\<bar>) = d # ds" by (meson digits10_nonempty neq_Nil_conv)
  have "d < 10" using digits10_lt [of d "nat \<bar>i\<bar>"] ds by simp
  with False ds parse_digits_digits10 [of "nat \<bar>i\<bar>"] show ?thesis
    using digit_char_neq [of d] by (simp add: parse_int_def show_int_def)
qed

lemma show_int_no_E: "CHR ''E'' \<notin> set (show_int i)"
proof -
  have "\<forall>d \<in> set (digits10 n). CHR ''E'' \<noteq> digit_char d" for n
  proof
    fix d assume "d \<in> set (digits10 n)"
    then have "d < 16" using digits10_lt [of d n] by simp
    from digit_char_neq(2) [OF this] show "CHR ''E'' \<noteq> digit_char d" by (rule not_sym)
  qed
  then show ?thesis by (simp add: show_int_def image_iff)
qed

lemma parse_show_dec: "parse_dec (show_dec d) = Some d"
proof -
  have "takeWhile (\<lambda>c. c \<noteq> CHR ''E'') (show_dec d) = show_int (fst d)"
    using show_int_no_E [of "fst d"] unfolding show_dec_def
    by (subst takeWhile_append2) auto
  then show ?thesis
    by (simp add: parse_dec_def Let_def parse_show_int) (simp add: show_dec_def parse_show_int)
qed

lemma u8_nibbles:
  "unat (b :: u8) div 16 < 16" "unat b mod 16 < 16"
  "(of_nat (16 * (unat b div 16) + unat b mod 16) :: u8) = b"
proof -
  have "unat b < 256" using unsigned_less [of b, where 'a = nat] by simp
  then show "unat b div 16 < 16" by simp
  show "unat b mod 16 < 16" by simp
  have "16 * (unat b div 16) + unat b mod 16 = unat b" by simp
  then show "(of_nat (16 * (unat b div 16) + unat b mod 16) :: u8) = b"
    by (metis of_nat_unat ucast_id)
qed

lemma ref_hex_round_trip: "ref_hex_decode (ref_hex_encode bs) = Some bs"
proof (induction bs)
  case (Cons b bs)
  then show ?case
    using u8_nibbles [of b] by (simp add: ref_hex_encode_def char_digit_hex del: of_nat_add of_nat_mult)
qed (simp add: ref_hex_encode_def)

lemma ref_hex_no_x: "CHR ''x'' \<notin> set (ref_hex_encode bs)"
proof (induction bs)
  case (Cons b bs)
  then show ?case
    using digit_char_neq(3) [OF u8_nibbles(1) [of b]] digit_char_neq(3) [OF u8_nibbles(2) [of b]]
    by (simp add: ref_hex_encode_def)
qed (simp add: ref_hex_encode_def)

lemma bd_value_scale:
  assumes "0 \<le> k"
  shows "bd_value (i * 10 ^ nat k, s + k) = bd_value (i, s)"
  using assms by (subst bd_eq_value [symmetric]) (auto simp: bd_eq_def)

lemma bd_value_at: "bd_value (i, s) + bd_value (j, s) = bd_value (i + j, s)"
  "bd_value (i, s) - bd_value (j, s) = bd_value (i - j, s)"
  by (simp_all add: bd_value_def algebra_simps)

lemma align_operands:
  "bd_value a = bd_value (fst a * 10 ^ nat (max (snd a) t - snd a), max (snd a) t)"
  using bd_value_scale [of "max (snd a) t - snd a" "fst a" "snd a"] by simp

lemma bd_value_align:
  "bd_value (align (+) a b) = bd_value a + bd_value b"
  "bd_value (align (-) a b) = bd_value a - bd_value b"
  by (simp_all add: align_def Let_def align_operands [of a "snd b"] align_operands [of b "snd a"]
      max.commute [of "snd b"] bd_value_at)

lemma ref_with_prec_short:
  assumes "length (digits10 (nat \<bar>fst d\<bar>)) \<le> p"
  shows "bd_value (ref_with_prec p d) = bd_value d" "\<bar>fst (ref_with_prec p d)\<bar> < 10 ^ p"
proof -
  let ?n = "length (digits10 (nat \<bar>fst d\<bar>))"
  show "bd_value (ref_with_prec p d) = bd_value d"
    using bd_value_scale [of "int (p - ?n)" "fst d" "snd d"] assms
    by (simp add: ref_with_prec_def Let_def del: of_nat_diff)
  have "nat \<bar>fst d\<bar> < 10 ^ ?n" by (rule digits10_upper)
  then have "\<bar>fst d\<bar> < 10 ^ ?n"
    by (metis abs_ge_zero int_nat_eq of_nat_less_iff of_nat_numeral of_nat_power)
  then have "\<bar>fst d\<bar> * 10 ^ (p - ?n) < 10 ^ ?n * 10 ^ (p - ?n)" by simp
  also have "(10::int) ^ ?n * 10 ^ (p - ?n) = 10 ^ p" using assms by (simp add: power_add [symmetric])
  finally show "\<bar>fst (ref_with_prec p d)\<bar> < 10 ^ p"
    using assms by (simp add: ref_with_prec_def Let_def abs_mult)
qed

lemma zdiv_less_of_mult:
  assumes "(0::int) < b" "a < c * b"
  shows "a div b < c"
proof (rule ccontr)
  assume "\<not> a div b < c"
  then have "c * b \<le> (a div b) * b" using assms(1) by (intro mult_right_mono) auto
  also have "\<dots> \<le> a" using assms(1) by (simp add: minus_mod_eq_div_mult [symmetric])
  finally show False using assms(2) by simp
qed

lemma ref_with_prec_long:
  assumes "p < length (digits10 (nat \<bar>fst d\<bar>))" "0 < p"
  defines "k \<equiv> length (digits10 (nat \<bar>fst d\<bar>)) - p"
  shows "1 \<le> \<bar>fst d\<bar> div 10 ^ k" "\<bar>fst d\<bar> div 10 ^ k < 10 ^ p" "10 ^ (k + p - 1) \<le> \<bar>fst d\<bar>"
proof -
  let ?n = "length (digits10 (nat \<bar>fst d\<bar>))"
  have n: "?n = k + p" using assms(1) by (simp add: k_def)
  have "10 \<le> nat \<bar>fst d\<bar>"
  proof (rule ccontr)
    assume "\<not> 10 \<le> nat \<bar>fst d\<bar>"
    then have "?n = 1" by (subst digits10.simps) simp
    with assms show False by simp
  qed
  from digits10_lower [OF this] have low: "10 ^ (k + p - 1) \<le> nat \<bar>fst d\<bar>" by (simp add: n)
  then show low': "10 ^ (k + p - 1) \<le> \<bar>fst d\<bar>"
    by (metis abs_ge_zero int_nat_eq of_nat_le_iff of_nat_numeral of_nat_power)
  have "(10::int) ^ k \<le> 10 ^ (k + p - 1)" using assms(2) by (intro power_increasing) auto
  with low' have "10 ^ k \<le> \<bar>fst d\<bar>" by linarith
  then show "1 \<le> \<bar>fst d\<bar> div 10 ^ k" by (simp add: pos_imp_zdiv_pos_iff [symmetric] int_one_le_iff_zero_less)
  have "nat \<bar>fst d\<bar> < 10 ^ (k + p)" using digits10_upper [of "nat \<bar>fst d\<bar>"] n by simp
  then have "\<bar>fst d\<bar> < 10 ^ (k + p)"
    by (metis abs_ge_zero int_nat_eq of_nat_less_iff of_nat_numeral of_nat_power)
  then have "\<bar>fst d\<bar> < 10 ^ p * 10 ^ k" by (simp add: power_add mult.commute)
  then show "\<bar>fst d\<bar> div 10 ^ k < 10 ^ p"
    by (rule zdiv_less_of_mult [rotated]) simp
qed

lemma ref_with_prec_bound: "0 < p \<Longrightarrow> \<bar>fst (ref_with_prec p d)\<bar> \<le> 10 ^ p"
proof (cases "p < length (digits10 (nat \<bar>fst d\<bar>))")
  case True
  assume "0 < p"
  let ?q = "\<bar>fst d\<bar> div 10 ^ (length (digits10 (nat \<bar>fst d\<bar>)) - p)"
  have "1 \<le> ?q" "?q < 10 ^ p" using ref_with_prec_long [OF True \<open>0 < p\<close>] by simp_all
  moreover have "\<bar>fst (ref_with_prec p d)\<bar> \<le> ?q + 1"
    using calculation(1) True
    by (cases "fst d = 0") (simp_all add: ref_with_prec_def Let_def abs_mult abs_sgn_eq)
  ultimately show ?thesis by linarith
next
  case False
  then show ?thesis using ref_with_prec_short(2) [of d p] by simp
qed

lemma ref_with_prec_nonzero:
  assumes "0 < p" "fst d \<noteq> 0"
  shows "fst (ref_with_prec p d) \<noteq> 0"
proof (cases "p < length (digits10 (nat \<bar>fst d\<bar>))")
  case True
  then show ?thesis
    using ref_with_prec_long(1) [OF True assms(1)] assms(2)
    by (auto simp: ref_with_prec_def Let_def sgn_if)
next
  case False
  then show ?thesis using assms(2) by (simp add: ref_with_prec_def Let_def)
qed

lemma ref_with_prec_exact:
  assumes "0 < p" "\<bar>fst e\<bar> < 10 ^ p" "bd_value e = bd_value d"
  shows "bd_value (ref_with_prec p d) = bd_value d"
proof (cases "p < length (digits10 (nat \<bar>fst d\<bar>))")
  case True
  define k where "k = length (digits10 (nat \<bar>fst d\<bar>)) - p"
  define q where "q = \<bar>fst d\<bar> div 10 ^ k"
  have low: "10 ^ (k + p - 1) \<le> \<bar>fst d\<bar>"
    using ref_with_prec_long(3) [OF True assms(1)] by (simp add: k_def)
  have kp: "k + p - 1 = (k - 1) + p" using True by (simp add: k_def)
  have eq: "bd_eq e d" using assms(3) by (simp add: bd_eq_value)
  have "snd d \<le> snd e \<Longrightarrow> \<bar>fst d\<bar> \<le> \<bar>fst e\<bar>"
    using eq by (auto simp: bd_eq_def abs_mult mult_le_cancel_left1 split: if_splits)
  moreover have "(10::int) ^ p \<le> 10 ^ (k + p - 1)" unfolding kp by (intro power_increasing) auto
  ultimately have sc: "snd e < snd d" using low assms(2) by linarith
  define m where "m = nat (snd d - snd e)"
  have fd: "fst d = fst e * 10 ^ m" using eq sc by (simp add: bd_eq_def m_def)
  have "k \<le> m"
  proof (rule ccontr)
    assume "\<not> k \<le> m"
    then have "(10::int) ^ m \<le> 10 ^ (k - 1)" by (intro power_increasing) auto
    then have "\<bar>fst e\<bar> * 10 ^ m \<le> \<bar>fst e\<bar> * 10 ^ (k - 1)" by (intro mult_left_mono) auto
    also have "\<dots> < 10 ^ p * 10 ^ (k - 1)" using assms(2) by simp
    also have "\<dots> = 10 ^ (k + p - 1)" unfolding kp by (simp add: power_add mult.commute)
    finally show False using low fd by (simp add: abs_mult)
  qed
  then have "10 ^ k dvd \<bar>fst d\<bar>" using fd by (simp add: le_imp_power_dvd dvd_mult)
  then have r0: "\<bar>fst d\<bar> mod 10 ^ k = 0" and q: "\<bar>fst d\<bar> = q * 10 ^ k" by (simp_all add: q_def)
  have p0: "\<not> (10::int) ^ k \<le> 0" using zero_less_power [of "10::int" k] by linarith
  have "ref_with_prec p d = (sgn (fst d) * q, snd d - int k)"
    using True r0 p0 by (simp add: ref_with_prec_def Let_def k_def [symmetric] q_def)
  moreover have "bd_value (sgn (fst d) * q * 10 ^ nat (int k), snd d - int k + int k) =
      bd_value (sgn (fst d) * q, snd d - int k)"
    by (rule bd_value_scale) simp
  moreover have "sgn (fst d) * q * 10 ^ k = fst d"
    using q by (metis abs_sgn mult.assoc mult.commute sgn_mult_abs)
  ultimately show ?thesis by simp
next
  case False
  then show ?thesis using ref_with_prec_short(1) [of d p] by simp
qed

lemma reference_lib_crates: "scalar_crates reference_lib"
proof
  fix n and i :: int assume "0 < (n::nat)" "\<bar>i\<bar> < 256 ^ n"
  then show "length (snd (nb_to_bytes_le reference_lib i)) \<le> n"
    using length_bytes_le [of "nat \<bar>i\<bar>" "n - 1"] by (simp add: reference_lib_def nat_less_iff)
next
  fix n and i :: int assume "- (256 ^ n) \<le> 2 * i" "2 * i < 256 ^ n" "0 < (n::nat)"
  then show "length (nb_to_signed_bytes_le reference_lib i) \<le> n"
    using length_signed_bytes_le [of "n - 1" i] by (simp add: reference_lib_def)
next
  fix w :: u256
  have "unat w < 2 ^ 256" using unsigned_less [of w, where 'a = nat] by simp
  then show "le_value (u256_to_little_endian reference_lib w) = unat w"
    by (simp add: reference_lib_def le_value_fixed_le)
next
  fix a b
  show "bd_value (bd_mul reference_lib a b) = bd_value a * bd_value b"
    using power_int_add [of "10::real" "- snd a" "- snd b"]
    by (simp add: reference_lib_def bd_value_def)
qed (simp_all add: reference_lib_def be_value_digits10 digits10_lt list_all_iff le_value_bytes_le
    signed_le_value_bytes ref_with_prec_exact ref_with_prec_bound bd_value_eq_0
    ref_with_prec_nonzero bd_value_align parse_show_int parse_show_dec ref_hex_round_trip
    ref_hex_no_x)

interpretation ref: scalar_crates reference_lib
  by (rule reference_lib_crates)

section \<open>The scalars are correct\<close>



text \<open>
  Converting a \<open>BigInt\<close> to \<open>u64\<close> succeeds exactly on the numbers that fit, with their value,
  and otherwise tells a negative number from one that is too large.
\<close>

theorem u64_try_from_exact:
  assumes "scalar_crates lib"
  shows "u64_try_from lib i =
     (if i < 0 then Inl BI_Negative else if i < 2 ^ 64 then Inr (of_int i) else Inl BI_Overflow)"
  by (rule scalar_crates.u64_try_from_spec [OF assms])

theorem u64_try_from_exact_witness:
  "scalar_crates reference_lib \<and> u64_try_from reference_lib 70000 = Inr 70000 \<and>
   u64_try_from reference_lib (2 ^ 64) = Inl BI_Overflow"
  using reference_lib_crates u64_try_from_exact [OF reference_lib_crates, of 70000]
    u64_try_from_exact [OF reference_lib_crates, of "2 ^ 64"] by simp

text \<open>
  C21. \<open>to_signed_u256\<close> accepts exactly the integers of 256-bit two's complement and panics on the
  others; what it produces is read back by \<open>from_signed_u256\<close>, and every word is produced by the
  integer it is read as.
\<close>

theorem signed_u256_round_trip:
  assumes "scalar_crates lib"
  shows "(to_signed_u256 lib i = None \<longleftrightarrow> i < - (2 ^ 255) \<or> 2 ^ 255 \<le> i) \<and>
    (to_signed_u256 lib i = Some w \<longleftrightarrow> from_signed_u256 lib w = i)"
proof -
  have spec: "to_signed_u256 lib i =
      (if - (2 ^ 255) \<le> i \<and> i < 2 ^ 255 then Some (of_int i) else None)"
    by (rule scalar_crates.to_signed_u256_spec [OF assms])
  have "- (2 ^ 255) \<le> sint w" "sint w < 2 ^ 255"
    using sint_greater_eq [of w] sint_less [of w] by simp_all
  moreover have "sint (of_int i :: u256) = i" if "- (2 ^ 255) \<le> i" "i < 2 ^ 255"
    using that signed_take_bit_int_eq_self [of 255 i] by (simp add: signed_of_int)
  moreover have "of_int (sint w) = w" by simp
  ultimately show ?thesis
    unfolding scalar_crates.from_signed_u256_sint [OF assms] spec by auto
qed

theorem signed_u256_round_trip_witness:
  "scalar_crates reference_lib \<and> from_signed_u256 reference_lib (- 2) = - 2 \<and>
   to_signed_u256 reference_lib (- 2) = Some (- 2) \<and> to_signed_u256 reference_lib (2 ^ 255) = None"
proof -
  have "to_signed_u256 reference_lib (- 2) = Some (- 2)"
    by (simp add: scalar_crates.to_signed_u256_spec [OF reference_lib_crates])
  then show ?thesis
    using reference_lib_crates signed_u256_round_trip [OF reference_lib_crates, of "- 2" "- 2"]
      signed_u256_round_trip [OF reference_lib_crates, of "2 ^ 255"] by simp
qed

end
