(* ===== verification/Store_Value.thy ===== *)
theory Store_Value
  imports Graphql_Schema Scalar Float64
begin

text \<open>
  Attribute values, query values and entities: \<open>graph/src/data/store/mod.rs\<close> and
  \<open>graph/src/data/value.rs\<close>. Values of the store are converted to query values and back, entities
  are hash maps from attribute names to values that are updated by merging.
\<close>

section \<open>Values\<close>

datatype value_type = VT_Boolean | VT_BigInt | VT_Bytes | VT_BigDecimal | VT_Int | VT_String

definition value_type_from_str :: "string \<Rightarrow> value_type option" where
  "value_type_from_str s =
     (if s = ''Boolean'' then Some VT_Boolean
      else if s = ''BigInt'' then Some VT_BigInt
      else if s = ''Bytes'' then Some VT_Bytes
      else if s = ''BigDecimal'' then Some VT_BigDecimal
      else if s = ''Int'' then Some VT_Int
      else if s = ''String'' \<or> s = ''ID'' then Some VT_String
      else None)"

definition is_scalar :: "string \<Rightarrow> bool" where
  "is_scalar s \<longleftrightarrow> value_type_from_str s \<noteq> None"

datatype store_value =
    V_String string
  | V_Int i32
  | V_BigDecimal bigdec
  | V_Bool bool
  | V_List "store_value list"
  | V_Null
  | V_Bytes bytes
  | V_BigInt int

text \<open>
  Query values. An object is a list of entries whose key is \<^term>\<open>None\<close> once it has been removed.
\<close>

datatype r_value =
    RV_Int i64
  | RV_Float f64
  | RV_String string
  | RV_Boolean bool
  | RV_Null
  | RV_Enum string
  | RV_List "r_value list"
  | RV_Object "(string option \<times> r_value) list"

type_synonym r_object = "(string option \<times> r_value) list"

definition has_key :: "string option \<times> r_value \<Rightarrow> string \<Rightarrow> bool" where
  "has_key entry key = (case fst entry of None \<Rightarrow> False | Some k \<Rightarrow> k = key)"

definition robject_get :: "r_object \<Rightarrow> string \<Rightarrow> r_value option" where
  "robject_get obj key = map_option snd (find (\<lambda>entry. has_key entry key) obj)"

fun robject_remove :: "r_object \<Rightarrow> string \<Rightarrow> r_value option \<times> r_object" where
  "robject_remove [] key = (None, [])"
| "robject_remove (entry # obj) key =
     (if has_key entry key then (Some (snd entry), (None, RV_Null) # obj)
      else let (r, obj') = robject_remove obj key in (r, entry # obj'))"

definition robject_iter :: "r_object \<Rightarrow> (string \<times> r_value) list" where
  "robject_iter obj =
     filter_map (\<lambda>(key, value). case key of None \<Rightarrow> None | Some k \<Rightarrow> Some (k, value)) obj"

definition robject_extend :: "r_object \<Rightarrow> r_object \<Rightarrow> r_object" where
  "robject_extend obj other = obj @ other"

definition robject_from_iter :: "(string \<times> r_value) list \<Rightarrow> r_object" where
  "robject_from_iter items = map (\<lambda>(key, value). (Some key, value)) items"

definition r_object_value :: "(string, r_value) btree_map \<Rightarrow> r_value" where
  "r_object_value m = RV_Object (map (\<lambda>(key, value). (Some key, value)) m)"

definition r_is_null :: "r_value \<Rightarrow> bool" where
  "r_is_null v \<longleftrightarrow> v = RV_Null"

text \<open>
  Coercion of an argument to an enum, given the names of the enum's values, and to a scalar.
  \<open>show_f64\<close> is Rust's \<open>f64::to_string\<close>.
\<close>

definition coerce_enum :: "string list \<Rightarrow> r_value \<Rightarrow> r_value + r_value" where
  "coerce_enum names v =
     (case v of
        RV_Null \<Rightarrow> Inr RV_Null
      | RV_String name \<Rightarrow> if name \<in> set names then Inr (RV_Enum name) else Inl v
      | RV_Enum name \<Rightarrow> if name \<in> set names then Inr (RV_Enum name) else Inl v
      | _ \<Rightarrow> Inl v)"

definition i64_to_string :: "i64 \<Rightarrow> string" where
  "i64_to_string n = show_int (sint n)"

definition coerce_scalar :: "(f64 \<Rightarrow> string) \<Rightarrow> string \<Rightarrow> r_value \<Rightarrow> r_value + r_value" where
  "coerce_scalar show_f64 name v =
     (case v of
        RV_Null \<Rightarrow> Inr RV_Null
      | RV_Boolean b \<Rightarrow> if name = ''Boolean'' then Inr v else Inl v
      | RV_Float f \<Rightarrow> if name = ''BigDecimal'' then Inr (RV_String (show_f64 f)) else Inl v
      | RV_Int i \<Rightarrow>
          if name = ''BigDecimal'' \<or> name = ''ID'' \<or> name = ''BigInt''
          then Inr (RV_String (i64_to_string i))
          else if name = ''Int'' then
            (if - (2 ^ 31) \<le> sint i \<and> sint i \<le> 2 ^ 31 - 1 then Inr v else Inl v)
          else Inl v
      | RV_String s \<Rightarrow>
          if name \<in> {''BigDecimal'', ''String'', ''ID'', ''Bytes'', ''BigInt'', ''Date''}
          then Inr v else Inl v
      | RV_Object obj \<Rightarrow> if name = ''JSONObject'' then Inr v else Inl v
      | _ \<Rightarrow> Inl v)"

section \<open>Conversions\<close>

definition BYTES_SCALAR :: string where "BYTES_SCALAR = ''Bytes''"
definition BIG_INT_SCALAR :: string where "BIG_INT_SCALAR = ''BigInt''"
definition BIG_DECIMAL_SCALAR :: string where "BIG_DECIMAL_SCALAR = ''BigDecimal''"

text \<open>
  \<open>AttributeTypeError\<close> carries the two printed terms; here it carries the terms. A failing parse
  of a custom scalar is a \<open>ValueParseError\<close> with the name of the type. \<open>QE_panic\<close> is the panic
  inside the normalisation of a decimal, which the crates rule out.
\<close>

datatype query_error =
    AttributeTypeError r_value s_type
  | ValueParseError string
  | QE_panic

definition custom_scalar :: "scalar_lib \<Rightarrow> string \<Rightarrow> string \<Rightarrow> query_error + store_value" where
  "custom_scalar lib n s =
     (if n = BYTES_SCALAR then
        (case bytes_from_str lib s of None \<Rightarrow> Inl (ValueParseError n) | Some b \<Rightarrow> Inr (V_Bytes b))
      else if n = BIG_INT_SCALAR then
        (case nb_from_str lib s of None \<Rightarrow> Inl (ValueParseError n) | Some i \<Rightarrow> Inr (V_BigInt i))
      else if n = BIG_DECIMAL_SCALAR then
        (case big_decimal_from_str lib s of
           Inl ParseBigDecimalError \<Rightarrow> Inl (ValueParseError n)
         | Inl Bd_panic \<Rightarrow> Inl QE_panic
         | Inr d \<Rightarrow> Inr (V_BigDecimal d))
      else Inr (V_String s))"

function (sequential) from_query_value ::
    "scalar_lib \<Rightarrow> r_value \<Rightarrow> s_type \<Rightarrow> query_error + store_value" where
  "from_query_value lib v (NonNullType t) = from_query_value lib v t"
| "from_query_value lib (RV_List vs) (ListType ty) =
     (case collect_results (map (\<lambda>v. from_query_value lib v ty) vs) of
        Inl e \<Rightarrow> Inl e | Inr xs \<Rightarrow> Inr (V_List xs))"
| "from_query_value lib (RV_List vs) (NamedType n) =
     (case collect_results (map (\<lambda>v. from_query_value lib v (NamedType n)) vs) of
        Inl e \<Rightarrow> Inl e | Inr xs \<Rightarrow> Inr (V_List xs))"
| "from_query_value lib (RV_Enum e) (NamedType n) = Inr (V_String e)"
| "from_query_value lib (RV_String s) (NamedType n) = custom_scalar lib n s"
| "from_query_value lib (RV_Int i) ty = Inr (V_Int (ucast i))"
| "from_query_value lib (RV_Boolean b) ty = Inr (V_Bool b)"
| "from_query_value lib RV_Null ty = Inr V_Null"
| "from_query_value lib v ty = Inl (AttributeTypeError v ty)"
  by pat_completeness auto
termination
  by (relation "measures [\<lambda>(lib, v, ty). size v, \<lambda>(lib, v, ty). size ty]")
    (auto simp: less_Suc_eq_le size_list_estimation')

text \<open>\<open>From<Value> for r::Value\<close>.\<close>

fun to_r_value :: "scalar_lib \<Rightarrow> store_value \<Rightarrow> r_value" where
  "to_r_value lib (V_String s) = RV_String s"
| "to_r_value lib (V_Int i) = RV_Int (scast i)"
| "to_r_value lib (V_BigDecimal d) = RV_String (bd_to_string lib d)"
| "to_r_value lib (V_Bool b) = RV_Boolean b"
| "to_r_value lib V_Null = RV_Null"
| "to_r_value lib (V_List vs) = RV_List (map (to_r_value lib) vs)"
| "to_r_value lib (V_Bytes b) = RV_String (bytes_to_string lib b)"
| "to_r_value lib (V_BigInt n) = RV_String (nb_to_string lib n)"

fun value_as_string :: "store_value \<Rightarrow> string option" where
  "value_as_string (V_String s) = Some s"
| "value_as_string _ = None"

fun value_as_int :: "store_value \<Rightarrow> i32 option" where
  "value_as_int (V_Int i) = Some i"
| "value_as_int _ = None"

fun value_as_list :: "store_value \<Rightarrow> store_value list option" where
  "value_as_list (V_List v) = Some v"
| "value_as_list _ = None"

fun value_as_bytes :: "store_value \<Rightarrow> bytes option" where
  "value_as_bytes (V_Bytes b) = Some b"
| "value_as_bytes _ = None"

fun type_name :: "store_value \<Rightarrow> string" where
  "type_name (V_BigDecimal _) = ''BigDecimal''"
| "type_name (V_BigInt _) = ''BigInt''"
| "type_name (V_Bool _) = ''Boolean''"
| "type_name (V_Bytes _) = ''Bytes''"
| "type_name (V_Int _) = ''Int''"
| "type_name (V_List []) = ''[Any]''"
| "type_name (V_List (v # vs)) = ''['' @ type_name v @ '']''"
| "type_name V_Null = ''Null''"
| "type_name (V_String _) = ''String''"

fun is_assignable :: "store_value \<Rightarrow> value_type \<Rightarrow> bool \<Rightarrow> bool" where
  "is_assignable (V_String _) t l \<longleftrightarrow> t = VT_String"
| "is_assignable (V_BigDecimal _) t l \<longleftrightarrow> t = VT_BigDecimal"
| "is_assignable (V_BigInt _) t l \<longleftrightarrow> t = VT_BigInt"
| "is_assignable (V_Bool _) t l \<longleftrightarrow> t = VT_Boolean"
| "is_assignable (V_Bytes _) t l \<longleftrightarrow> t = VT_Bytes"
| "is_assignable (V_Int _) t l \<longleftrightarrow> t = VT_Int"
| "is_assignable V_Null t l \<longleftrightarrow> True"
| "is_assignable (V_List vs) t l \<longleftrightarrow> l \<and> list_all (\<lambda>v. is_assignable v t False) vs"

section \<open>Entities\<close>

type_synonym entity = "(string, store_value) hash_map"

definition entity_get :: "entity \<Rightarrow> string \<Rightarrow> store_value option" where
  "entity_get e key = hm_get e key"

definition entity_insert :: "entity \<Rightarrow> string \<Rightarrow> store_value \<Rightarrow> entity" where
  "entity_insert e key v = hm_insert key v e"

definition entity_remove :: "entity \<Rightarrow> string \<Rightarrow> entity" where
  "entity_remove e key = hm_remove key e"

definition entity_sorted :: "entity \<Rightarrow> (string \<times> store_value) list" where
  "entity_sorted e = sort_key fst e"

definition entity_id :: "scalar_lib \<Rightarrow> entity \<Rightarrow> string + string" where
  "entity_id lib e =
     (case entity_get e ''id'' of
        None \<Rightarrow> Inl ''Entity is missing an `id` attribute''
      | Some (V_String s) \<Rightarrow> Inr s
      | Some (V_Bytes b) \<Rightarrow> Inr (bytes_to_string lib b)
      | Some _ \<Rightarrow> Inl ''Entity has non-string `id` attribute'')"

definition entity_merge :: "entity \<Rightarrow> entity \<Rightarrow> entity" where
  "entity_merge e update = fold (\<lambda>(key, value) e. entity_insert e key value) update e"

definition merge_remove_null_fields :: "entity \<Rightarrow> entity \<Rightarrow> entity" where
  "merge_remove_null_fields e update =
     fold (\<lambda>(key, value) e.
        case value of
          V_Null \<Rightarrow> entity_remove e key
        | _ \<Rightarrow> entity_insert e key value) update e"

section \<open>Keys\<close>

type_synonym entity_type = string

definition is_poi :: "entity_type \<Rightarrow> bool" where
  "is_poi t \<longleftrightarrow> t = ''Poi$''"

record entity_key =
  key_entity_type :: entity_type
  key_entity_id :: string
  key_causality_region :: i32

text \<open>A node id is a string of 1 to 63 bytes.\<close>

definition node_id_new :: "string \<Rightarrow> string option" where
  "node_id_new s = (if length s > 63 \<or> s = [] then None else Some s)"

section \<open>Values survive the way to the query and back\<close>

text \<open>
  A value is well typed at a GraphQL type: a custom scalar only at its own name, a decimal in its
  normal form, a plain string at any other name, a list element by element.
\<close>

function (sequential) well_typed :: "scalar_lib \<Rightarrow> store_value \<Rightarrow> s_type \<Rightarrow> bool" where
  "well_typed lib v (NonNullType t) = well_typed lib v t"
| "well_typed lib (V_List vs) (ListType ty) = list_all (\<lambda>v. well_typed lib v ty) vs"
| "well_typed lib (V_List vs) (NamedType n) = list_all (\<lambda>v. well_typed lib v (NamedType n)) vs"
| "well_typed lib (V_String s) (NamedType n) =
     (n \<notin> {BYTES_SCALAR, BIG_INT_SCALAR, BIG_DECIMAL_SCALAR})"
| "well_typed lib (V_Bytes b) (NamedType n) = (n = BYTES_SCALAR)"
| "well_typed lib (V_BigInt i) (NamedType n) = (n = BIG_INT_SCALAR)"
| "well_typed lib (V_BigDecimal d) (NamedType n) =
     (n = BIG_DECIMAL_SCALAR \<and> normalized lib d = Some d)"
| "well_typed lib (V_Int i) ty = True"
| "well_typed lib (V_Bool b) ty = True"
| "well_typed lib V_Null ty = True"
| "well_typed lib v ty = False"
  by pat_completeness auto
termination
  by (relation "measures [\<lambda>(lib, v, ty). size v, \<lambda>(lib, v, ty). size ty]")
    (auto simp: less_Suc_eq_le size_list_estimation')

lemma ucast_scast_i32: "(ucast (scast (i :: i32) :: i64) :: i32) = i"
proof (rule bit_word_eqI)
  fix n assume "n < LENGTH(32)"
  then have "n = 31 \<or> n < 31" by auto
  then show "bit (ucast (scast i :: i64) :: i32) n = bit i n"
    by (auto simp: bit_ucast_iff bit_signed_iff min_def)
qed

lemma trim_start_0x_id: "CHR ''x'' \<notin> set s \<Longrightarrow> trim_start_0x s = s"
  by (induction s rule: trim_start_0x.induct) auto

lemmas scalar_name_defs = BYTES_SCALAR_def BIG_INT_SCALAR_def BIG_DECIMAL_SCALAR_def

context scalar_crates
begin

lemma bytes_print_parse: "bytes_from_str lib (bytes_to_string lib b) = Some b"
  using hex_no_x [of b] hex_round_trip [of b]
  by (simp add: bytes_from_str_def bytes_to_string_def trim_start_0x_id)

lemma custom_scalar_print:
  "custom_scalar lib BYTES_SCALAR (bytes_to_string lib b) = Inr (V_Bytes b)"
  "custom_scalar lib BIG_INT_SCALAR (nb_to_string lib i) = Inr (V_BigInt i)"
  "normalized lib d = Some d \<Longrightarrow>
     custom_scalar lib BIG_DECIMAL_SCALAR (bd_to_string lib d) = Inr (V_BigDecimal d)"
  by (simp_all add: custom_scalar_def bytes_print_parse nb_print_parse big_decimal_print_parse
      scalar_name_defs)

lemma from_query_value_to_r_value:
  "well_typed lib v ty \<Longrightarrow> from_query_value lib (to_r_value lib v) ty = Inr v"
proof (induction lib \<equiv> lib v ty rule: well_typed.induct)
  case (1 v t)
  then show ?case by (cases v) auto
next
  case (2 vs ty)
  then have "map (\<lambda>v. from_query_value lib v ty) (map (to_r_value lib) vs) = map Inr vs"
    by (auto simp: list_all_iff)
  then show ?case by (simp add: collect_results_Inr_iff [THEN iffD2] del: map_map)
next
  case (3 vs n)
  then have "map (\<lambda>v. from_query_value lib v (NamedType n)) (map (to_r_value lib) vs) = map Inr vs"
    by (auto simp: list_all_iff)
  then show ?case by (simp add: collect_results_Inr_iff [THEN iffD2] del: map_map)
next
  case (4 s n)
  then show ?case by (simp add: custom_scalar_def)
qed (auto simp: custom_scalar_print ucast_scast_i32)

end

text \<open>
  C22. A value of the store that is well typed at a GraphQL type survives the conversion to a query
  value and back: custom scalars are recognised by the name of the type, integers are widened and
  truncated without loss, lists are converted element by element.
\<close>

theorem value_query_round_trip:
  assumes "scalar_crates lib" "well_typed lib v ty"
  shows "from_query_value lib (to_r_value lib v) ty = Inr v"
  by (rule scalar_crates.from_query_value_to_r_value [OF assms])

theorem value_query_round_trip_witness:
  "from_query_value reference_lib
     (to_r_value reference_lib (V_List [V_Bytes [1, 255], V_Null])) (ListType (NonNullType (NamedType ''Bytes'')))
   = Inr (V_List [V_Bytes [1, 255], V_Null])"
  by (rule value_query_round_trip [OF reference_lib_crates]) (simp add: scalar_name_defs)

section \<open>Merging entities\<close>

lemma hm_wf_fold:
  assumes "hm_wf m" "\<And>x m. hm_wf m \<Longrightarrow> hm_wf (f x m)"
  shows "hm_wf (fold f xs m)"
  using assms(1) by (induction xs arbitrary: m) (auto simp: assms(2))

lemma hm_wf_entity_merge [simp]: "hm_wf e \<Longrightarrow> hm_wf (entity_merge e u)"
  unfolding entity_merge_def by (rule hm_wf_fold) (auto simp: entity_insert_def)

lemma hm_wf_merge_remove_null_fields [simp]: "hm_wf e \<Longrightarrow> hm_wf (merge_remove_null_fields e u)"
  unfolding merge_remove_null_fields_def
  by (rule hm_wf_fold) (auto simp: entity_insert_def entity_remove_def split: store_value.splits)

lemma map_of_entity_merge [hm_simps]:
  "hm_wf u \<Longrightarrow> map_of (entity_merge e u) = map_of e ++ map_of u"
  unfolding entity_merge_def
proof (induction u arbitrary: e)
  case (Cons x u)
  then have "map_of u (fst x) = None" by (simp add: map_of_eq_None_iff)
  with Cons show ?case
    by (cases x) (auto simp: entity_insert_def hm_simps map_add_def fun_eq_iff split: option.splits)
qed simp

lemma merge_remove_null_fields_Cons:
  "merge_remove_null_fields e ((k, v) # u) =
     merge_remove_null_fields (if v = V_Null then entity_remove e k else entity_insert e k v) u"
  by (simp add: merge_remove_null_fields_def split: store_value.splits)

text \<open>The lookup function after a merge that treats null as deletion.\<close>

definition null_merge :: "store_value option \<Rightarrow> store_value option \<Rightarrow> store_value option" where
  "null_merge old new = (case new of None \<Rightarrow> old | Some v \<Rightarrow> if v = V_Null then None else Some v)"

lemma map_of_merge_remove_null_fields [hm_simps]:
  "hm_wf u \<Longrightarrow> map_of (merge_remove_null_fields e u) = (\<lambda>k. null_merge (map_of e k) (map_of u k))"
proof (induction u arbitrary: e)
  case Nil
  then show ?case by (simp add: merge_remove_null_fields_def null_merge_def)
next
  case (Cons x u)
  then have "map_of u (fst x) = None" by (simp add: map_of_eq_None_iff)
  with Cons show ?case
    by (cases x) (auto simp: merge_remove_null_fields_Cons entity_insert_def entity_remove_def
        hm_simps null_merge_def fun_eq_iff split: option.splits)
qed

text \<open>
  C23. Merging an update with null as deletion: an attribute of the update replaces the entity's,
  a null attribute deletes it, every other attribute stays. The outcome does not depend on the
  order in which the update's hash map is traversed, and applying two updates one after the other
  is the same as merging them first and applying the result.
\<close>

theorem merge_remove_null_fields_correct:
  assumes "hm_wf e" "hm_wf u" "hm_wf w" "mset u' = mset u"
  shows "(\<forall>k. entity_get (merge_remove_null_fields e u) k =
            (case entity_get u k of
               None \<Rightarrow> entity_get e k
             | Some v \<Rightarrow> if v = V_Null then None else Some v)) \<and>
         hm_eq (merge_remove_null_fields e u') (merge_remove_null_fields e u) \<and>
         hm_eq (merge_remove_null_fields (merge_remove_null_fields e u) w)
           (merge_remove_null_fields e (entity_merge u w))"
proof (intro conjI)
  show "\<forall>k. entity_get (merge_remove_null_fields e u) k =
      (case entity_get u k of
         None \<Rightarrow> entity_get e k | Some v \<Rightarrow> if v = V_Null then None else Some v)"
    using assms(2) by (simp add: entity_get_def hm_simps null_merge_def split: option.splits)
  have u': "hm_wf u'" "map_of u' = map_of u"
    using assms(2,4) hm_wf_perm [of u u'] map_of_perm [of u u'] by simp_all
  then show "hm_eq (merge_remove_null_fields e u') (merge_remove_null_fields e u)"
    using assms by (simp add: hm_eq_iff hm_simps)
  show "hm_eq (merge_remove_null_fields (merge_remove_null_fields e u) w)
      (merge_remove_null_fields e (entity_merge u w))"
    using assms
    by (auto simp: hm_eq_iff hm_simps null_merge_def fun_eq_iff map_add_def split: option.splits)
qed

theorem merge_remove_null_fields_correct_witness:
  "entity_get (merge_remove_null_fields [(''id'', V_String ''a''), (''x'', V_Bool True)]
     [(''x'', V_Null), (''y'', V_Int 3)]) ''x'' = None \<and>
   hm_eq (merge_remove_null_fields [(''id'', V_String ''a''), (''x'', V_Bool True)]
       [(''y'', V_Int 3), (''x'', V_Null)])
     (merge_remove_null_fields [(''id'', V_String ''a''), (''x'', V_Bool True)]
       [(''x'', V_Null), (''y'', V_Int 3)])"
  using merge_remove_null_fields_correct
    [of "[(''id'', V_String ''a''), (''x'', V_Bool True)]" "[(''x'', V_Null), (''y'', V_Int 3)]"
      "[]" "[(''y'', V_Int 3), (''x'', V_Null)]"]
  by (simp add: entity_get_def)

section \<open>Query objects\<close>

lemma robject_remove_get:
  assumes "distinct (map fst (robject_iter obj))"
  shows "fst (robject_remove obj k) = robject_get obj k"
    and "robject_get (snd (robject_remove obj k)) k' = (if k' = k then None else robject_get obj k')"
proof -
  show "fst (robject_remove obj k) = robject_get obj k"
    by (induction obj k rule: robject_remove.induct)
      (auto simp: robject_get_def split: prod.splits)
  have iter_Cons: "robject_iter ((Some a, v) # obj) = (a, v) # robject_iter obj"
    "robject_iter ((None, v) # obj) = robject_iter obj" for a v obj
    by (simp_all add: robject_iter_def)
  have absent: "robject_get obj a = None" if "a \<notin> fst ` set (robject_iter obj)" for a obj
    using that
    by (induction obj)
      (auto simp: robject_get_def has_key_def robject_iter_def split: option.splits)
  show "robject_get (snd (robject_remove obj k)) k' = (if k' = k then None else robject_get obj k')"
    using assms
  proof (induction obj)
    case Nil
    then show ?case by (simp add: robject_get_def)
  next
    case (Cons entry obj)
    obtain a v where entry: "entry = (a, v)" by (cases entry)
    show ?case
    proof (cases a)
      case None
      then show ?thesis using Cons entry
        by (auto simp: iter_Cons robject_get_def has_key_def split: prod.splits)
    next
      case (Some b)
      then have "b \<notin> fst ` set (robject_iter obj)" "distinct (map fst (robject_iter obj))"
        using Cons.prems entry by (auto simp: iter_Cons)
      with Cons.IH absent [of b obj] Some entry show ?thesis
        by (auto simp: robject_get_def has_key_def split: prod.splits)
    qed
  qed
qed

end
