(* ===== verification/Gas.thy ===== *)
theory Gas
  imports Store_Value
begin

text \<open>
  Gas accounting of the mapping runtime: \<open>graph/src/runtime/gas/\<close>. Gas is a \<open>u64\<close> with saturating
  arithmetic. The trait \<open>GasSizeOf\<close> is a record of its two methods, an implementation for a type is
  a value of that record, and \<open>gas_sized\<close> is the contract between the two methods.
\<close>

section \<open>Operators\<close>

type_synonym gas = u64

definition gas_add :: "gas \<Rightarrow> gas \<Rightarrow> gas" where
  "gas_add a b = saturating_add a b"

definition gas_mul :: "gas \<Rightarrow> u64 \<Rightarrow> gas" where
  "gas_mul a n = saturating_mul a n"

text \<open>\<open>usize\<close> operands are natural numbers, converted by \<open>SaturatingFrom<usize>\<close>.\<close>

definition gas_of_usize :: "nat \<Rightarrow> gas" where
  "gas_of_usize n = saturating_of_nat n"

definition gas_mul_usize :: "gas \<Rightarrow> nat \<Rightarrow> gas" where
  "gas_mul_usize a n = saturating_mul a (saturating_of_nat n)"

definition gas_add_assign :: "gas \<Rightarrow> gas \<Rightarrow> gas" where
  "gas_add_assign a b = saturating_add a b"

text \<open>As in the source, \<open>*=\<close> adds its operand.\<close>

definition gas_mul_assign :: "gas \<Rightarrow> u64 \<Rightarrow> gas" where
  "gas_mul_assign a n = saturating_add a n"

definition gas_sum :: "gas list \<Rightarrow> gas" where
  "gas_sum gs = foldl gas_add_assign 0 gs"

section \<open>Sizes\<close>

record 'a gas_size_of =
  gas_size :: "'a \<Rightarrow> gas"
  const_gas_size :: "gas option"

text \<open>A type that implements only \<open>const_gas_size_of\<close> inherits \<open>gas_size_of\<close> from it.\<close>

definition const_gas :: "gas \<Rightarrow> 'a gas_size_of" where
  "const_gas g = \<lparr> gas_size = (\<lambda>_. g), const_gas_size = Some g \<rparr>"

definition dyn_gas :: "('a \<Rightarrow> gas) \<Rightarrow> 'a gas_size_of" where
  "dyn_gas f = \<lparr> gas_size = f, const_gas_size = None \<rparr>"

definition gas_bool :: "bool gas_size_of" where
  "gas_bool = const_gas 1"

text \<open>The macro \<open>int_gas\<close>: an integer type has the size of its representation.\<close>

definition int_gas :: "nat \<Rightarrow> 'a gas_size_of" where
  "int_gas size_of = const_gas (gas_of_usize size_of)"

definition gas_u8 :: "u8 gas_size_of" where "gas_u8 = int_gas 1"
definition gas_i32 :: "i32 gas_size_of" where "gas_i32 = int_gas 4"
definition gas_usize :: "nat gas_size_of" where "gas_usize = int_gas 8"

definition gas_option :: "'a gas_size_of \<Rightarrow> 'a option gas_size_of" where
  "gas_option G = dyn_gas (\<lambda>x. case x of Some v \<Rightarrow> gas_add 1 (gas_size G v) | None \<Rightarrow> 1)"

definition gas_big_int :: "scalar_lib \<Rightarrow> int gas_size_of" where
  "gas_big_int lib = dyn_gas (\<lambda>i. gas_of_usize (nb_bits lib i div 8 + 1))"

definition gas_big_decimal :: "scalar_lib \<Rightarrow> bigdec gas_size_of" where
  "gas_big_decimal lib = dyn_gas (\<lambda>d. gas_size (gas_big_int lib) (fst d))"

definition gas_str :: "string gas_size_of" where
  "gas_str = dyn_gas (\<lambda>s. gas_of_usize (length s))"

definition gas_slice :: "'a gas_size_of \<Rightarrow> 'a list gas_size_of" where
  "gas_slice G = dyn_gas (\<lambda>xs.
     case const_gas_size G of
       Some g \<Rightarrow> gas_mul_usize g (length xs)
     | None \<Rightarrow> gas_sum (map (gas_size G) xs))"

definition gas_bytes :: "bytes gas_size_of" where
  "gas_bytes = dyn_gas (gas_size (gas_slice gas_u8))"

definition gas_vec :: "'a gas_size_of \<Rightarrow> 'a list gas_size_of" where
  "gas_vec G = dyn_gas (\<lambda>xs.
     gas_add (gas_add (gas_size (gas_slice G) xs) 16) (gas_of_usize (length xs)))"

definition gas_hash_map :: "'k gas_size_of \<Rightarrow> 'v gas_size_of \<Rightarrow> ('k, 'v) hash_map gas_size_of" where
  "gas_hash_map K V = dyn_gas (\<lambda>m.
     let members =
       (case (const_gas_size K, const_gas_size V) of
          (Some k_gas, None) \<Rightarrow>
            gas_add (gas_sum (map (gas_size V) (map snd m))) (gas_mul_usize k_gas (length m))
        | (None, Some v_gas) \<Rightarrow>
            gas_add (gas_sum (map (gas_size K) (map fst m))) (gas_mul_usize v_gas (length m))
        | (Some k_gas, Some v_gas) \<Rightarrow> gas_mul_usize (gas_add k_gas v_gas) (length m)
        | (None, None) \<Rightarrow> gas_sum (map (\<lambda>(k, v). gas_add (gas_size K k) (gas_size V v)) m))
     in gas_add (gas_add members 32) (gas_mul_usize 8 (length m)))"

text \<open>
  \<open>Value\<close>: the list case is \<open>Vec<Value>\<close>, whose element type has no constant size, so its members
  are summed.
\<close>

fun gas_size_of_value :: "scalar_lib \<Rightarrow> store_value \<Rightarrow> gas" where
  "gas_size_of_value lib (V_BigDecimal d) = gas_add 4 (gas_size (gas_big_decimal lib) d)"
| "gas_size_of_value lib (V_String s) = gas_add 4 (gas_size gas_str s)"
| "gas_size_of_value lib V_Null = gas_add 4 1"
| "gas_size_of_value lib (V_List vs) =
     gas_add 4 (gas_add (gas_add (gas_sum (map (gas_size_of_value lib) vs)) 16)
       (gas_of_usize (length vs)))"
| "gas_size_of_value lib (V_Int i) = gas_add 4 (gas_size gas_i32 i)"
| "gas_size_of_value lib (V_Bytes b) = gas_add 4 (gas_size gas_bytes b)"
| "gas_size_of_value lib (V_Bool b) = gas_add 4 (gas_size gas_bool b)"
| "gas_size_of_value lib (V_BigInt i) = gas_add 4 (gas_size (gas_big_int lib) i)"

definition gas_value :: "scalar_lib \<Rightarrow> store_value gas_size_of" where
  "gas_value lib = dyn_gas (gas_size_of_value lib)"

definition gas_entity :: "scalar_lib \<Rightarrow> entity gas_size_of" where
  "gas_entity lib = dyn_gas (gas_size (gas_hash_map gas_str (gas_value lib)))"

definition gas_entity_key :: "entity_key gas_size_of" where
  "gas_entity_key =
     dyn_gas (\<lambda>k. gas_add (gas_size gas_str (key_entity_type k)) (gas_size gas_str (key_entity_id k)))"

section \<open>Combinators\<close>

datatype complexity = Linear | Mul | Min | Max

fun combine :: "complexity \<Rightarrow> gas \<Rightarrow> gas \<Rightarrow> gas" where
  "combine Linear lhs rhs = gas_add lhs rhs"
| "combine Mul lhs rhs = saturating_mul lhs rhs"
| "combine Min lhs rhs = min lhs rhs"
| "combine Max lhs rhs = max lhs rhs"

definition gas_pair :: "complexity \<Rightarrow> 'a gas_size_of \<Rightarrow> 'b gas_size_of \<Rightarrow> ('a \<times> 'b) gas_size_of" where
  "gas_pair C A B =
     \<lparr> gas_size = (\<lambda>(a, b). combine C (gas_size A a) (gas_size B b)),
       const_gas_size =
         (case const_gas_size A of
            Some t0 \<Rightarrow> (case const_gas_size B of Some t1 \<Rightarrow> Some (combine C t0 t1) | None \<Rightarrow> None)
          | None \<Rightarrow> None) \<rparr>"

definition gas_triple ::
    "complexity \<Rightarrow> 'a gas_size_of \<Rightarrow> 'b gas_size_of \<Rightarrow> 'c gas_size_of \<Rightarrow> ('a \<times> 'b \<times> 'c) gas_size_of"
  where
  "gas_triple C A B D =
     \<lparr> gas_size = (\<lambda>(a, b, d). combine C (combine C (gas_size A a) (gas_size B b)) (gas_size D d)),
       const_gas_size =
         (case (const_gas_size A, const_gas_size B, const_gas_size D) of
            (Some t0, Some t1, Some t2) \<Rightarrow> Some (combine C (combine C t0 t1) t2)
          | _ \<Rightarrow> None) \<rparr>"

definition gas_exponential :: "'a gas_size_of \<Rightarrow> ('a \<times> u8) gas_size_of" where
  "gas_exponential A = dyn_gas (\<lambda>(a, b). saturating_pow (gas_size A a) (unat b))"

record gas_op =
  base_cost :: u64
  size_mult :: u64

definition with_args :: "gas_op \<Rightarrow> 'a gas_size_of \<Rightarrow> 'a \<Rightarrow> gas" where
  "with_args op G args = gas_add (base_cost op) (gas_mul (gas_size G args) (size_mult op))"

section \<open>Costs\<close>

definition GAS_PER_SECOND :: u64 where "GAS_PER_SECOND = 10000000000"
definition CONST_MAX_GAS_PER_HANDLER :: u64 where "CONST_MAX_GAS_PER_HANDLER = 1000 * GAS_PER_SECOND"
definition HOST_EXPORT_GAS :: gas where "HOST_EXPORT_GAS = 10000"
definition DEFAULT_BYTE_PER_SECOND :: u64 where "DEFAULT_BYTE_PER_SECOND = 10000000"
definition DEFAULT_GAS_PER_BYTE :: u64 where
  "DEFAULT_GAS_PER_BYTE = GAS_PER_SECOND div DEFAULT_BYTE_PER_SECOND"
definition DEFAULT_BASE_COST :: u64 where "DEFAULT_BASE_COST = 100000"
definition BIG_MATH_BYTE_PER_SECOND :: u64 where "BIG_MATH_BYTE_PER_SECOND = 100000000"
definition BIG_MATH_GAS_PER_BYTE :: u64 where
  "BIG_MATH_GAS_PER_BYTE = GAS_PER_SECOND div BIG_MATH_BYTE_PER_SECOND"

definition DEFAULT_GAS_OP :: gas_op where
  "DEFAULT_GAS_OP = \<lparr> base_cost = DEFAULT_BASE_COST, size_mult = DEFAULT_GAS_PER_BYTE \<rparr>"
definition BIG_MATH_GAS_OP :: gas_op where
  "BIG_MATH_GAS_OP = \<lparr> base_cost = DEFAULT_BASE_COST, size_mult = BIG_MATH_GAS_PER_BYTE \<rparr>"
definition CREATE_DATA_SOURCE :: gas where
  "CREATE_DATA_SOURCE = CONST_MAX_GAS_PER_HANDLER div 100000"
definition LOG_OP :: gas_op where
  "LOG_OP = \<lparr> base_cost = CONST_MAX_GAS_PER_HANDLER div 100000, size_mult = DEFAULT_GAS_PER_BYTE \<rparr>"
definition STORE_SET :: gas_op where
  "STORE_SET = \<lparr> base_cost = CONST_MAX_GAS_PER_HANDLER div 250000,
                 size_mult = CONST_MAX_GAS_PER_HANDLER div 1000000000 \<rparr>"
definition STORE_GET :: gas_op where
  "STORE_GET = \<lparr> base_cost = CONST_MAX_GAS_PER_HANDLER div 10000000,
                 size_mult = CONST_MAX_GAS_PER_HANDLER div 10000000000 \<rparr>"
definition STORE_REMOVE :: gas_op where "STORE_REMOVE = STORE_SET"

section \<open>The counter\<close>

text \<open>
  The counter is one atomic \<open>u64\<close>. \<open>consume_host_fn\<close> updates it by one atomic read-modify-write, so
  calls from several threads are a sequence of calls. The limit is
  \<open>ENV_VARS.max_gas_per_handler\<close>; the error carries the amount used.
\<close>

definition consume_host_fn :: "u64 \<Rightarrow> gas \<Rightarrow> u64 \<Rightarrow> (u64 + unit) \<times> u64" where
  "consume_host_fn max_gas_per_handler amount counter =
     (let amount = gas_add_assign amount HOST_EXPORT_GAS;
          old = counter;
          counter' = saturating_add old amount;
          new = saturating_add old amount
      in (if new \<ge> max_gas_per_handler then Inl new else Inr (), counter'))"

fun consume_all :: "u64 \<Rightarrow> gas list \<Rightarrow> u64 \<Rightarrow> (u64 + unit) list \<times> u64" where
  "consume_all limit [] counter = ([], counter)"
| "consume_all limit (a # as) counter =
     (let (r, counter') = consume_host_fn limit a counter;
          (rs, counter'') = consume_all limit as counter'
      in (r # rs, counter''))"

section \<open>Saturating arithmetic read in the natural numbers\<close>

lemmas gas_defs = gas_add_def gas_mul_def gas_of_usize_def gas_mul_usize_def gas_add_assign_def

lemma min_max64 [sat_simps]:
  "min (min a max64 + b) max64 = min (a + b) max64"
  "min (a + min b max64) max64 = min (a + b) max64"
  "min (min a max64) max64 = min a max64"
  by (auto simp: min_def)

lemma min_max64_mult [sat_simps]:
  "min (min a max64 * b) max64 = min (a * b) max64"
  "min (a * min b max64) max64 = min (a * b) max64"
proof -
  show *: "min (min a max64 * b) max64 = min (a * b) max64" for a b
  proof (cases "a \<le> max64 \<or> b = 0")
    case False
    then have "max64 * 1 \<le> max64 * b" by (intro mult_le_mono) auto
    moreover from False have "max64 * 1 \<le> a * b" by (intro mult_le_mono) auto
    ultimately show ?thesis using False by (simp add: min_def)
  qed (auto simp: min_def)
  show "min (a * min b max64) max64 = min (a * b) max64" using * [of b a] by (simp add: mult.commute)
qed

lemma unat_gas_sum [sat_simps]: "unat (gas_sum gs) = min (sum_list (map unat gs)) max64"
proof -
  have "unat (foldl gas_add_assign a gs) = min (unat a + sum_list (map unat gs)) max64" for a
    by (induction gs arbitrary: a) (simp_all add: gas_defs sat_simps min_def add.assoc)
  from this [of 0] show ?thesis by (simp add: gas_sum_def)
qed

lemma sum_list_perm: "mset xs = mset ys \<Longrightarrow> sum_list (map f xs) = (sum_list (map f ys) :: nat)"
  by (metis mset_map sum_mset_sum_list)

lemma gas_sum_perm: "mset gs = mset hs \<Longrightarrow> gas_sum gs = gas_sum hs"
  using sum_list_perm [of gs hs unat] by (simp add: unat_gas_sum word_unat_eq_iff)

lemma sum_list_const: "(\<And>x. x \<in> set xs \<Longrightarrow> f x = c) \<Longrightarrow> sum_list (map f xs) = length xs * (c :: nat)"
  by (induction xs) auto

lemma min_sum_list: "min (\<Sum>x \<leftarrow> xs. min (f x) max64) max64 = min (\<Sum>x \<leftarrow> xs. f x) max64"
proof (induction xs)
  case (Cons x xs)
  have "min (\<Sum>x \<leftarrow> x # xs. min (f x) max64) max64 = min (f x + min (\<Sum>x \<leftarrow> xs. min (f x) max64) max64) max64"
    by (simp add: sat_simps)
  then show ?case by (simp only: Cons.IH) (simp add: sat_simps)
qed simp

section \<open>The contract of GasSizeOf\<close>

locale gas_sized =
  fixes G :: "'a gas_size_of"
  assumes const_law: "const_gas_size G = Some g \<Longrightarrow> gas_size G x = g"
begin

lemma const_sum:
  "const_gas_size G = Some g \<Longrightarrow> sum_list (map (\<lambda>x. unat (gas_size G (f x))) xs) = length xs * unat g"
  by (rule sum_list_const) (simp add: const_law)

lemma unat_gas_slice: "unat (gas_size (gas_slice G) xs) = min (\<Sum>x \<leftarrow> xs. unat (gas_size G x)) max64"
  using const_sum [of _ "\<lambda>x. x" xs]
  by (auto simp: gas_slice_def dyn_gas_def gas_defs sat_simps mult.commute o_def split: option.splits)

lemma unat_gas_vec:
  "unat (gas_size (gas_vec G) xs) =
     min ((\<Sum>x \<leftarrow> xs. unat (gas_size G x)) + 16 + length xs) max64"
  by (simp add: gas_vec_def dyn_gas_def gas_defs sat_simps unat_gas_slice)

end

locale gas_sized_pair = k: gas_sized K + v: gas_sized V
  for K :: "'k gas_size_of" and V :: "'v gas_size_of"
begin

lemma unat_gas_hash_map:
  "unat (gas_size (gas_hash_map K V) m) =
     min ((\<Sum>(a, b) \<leftarrow> m. unat (gas_size K a) + unat (gas_size V b)) + 32 + 8 * length m) max64"
proof -
  have split: "(\<Sum>(a, b) \<leftarrow> m. unat (gas_size K a) + unat (gas_size V b)) =
      (\<Sum>x \<leftarrow> m. unat (gas_size K (fst x))) + (\<Sum>x \<leftarrow> m. unat (gas_size V (snd x)))"
    by (induction m) auto
  have both: "unat (gas_sum (map (\<lambda>(k, v). gas_add (gas_size K k) (gas_size V v)) m)) =
      min (\<Sum>(a, b) \<leftarrow> m. unat (gas_size K a) + unat (gas_size V b)) max64"
    using min_sum_list [of "\<lambda>x. unat (gas_size K (fst x)) + unat (gas_size V (snd x))" m]
    by (simp add: sat_simps gas_defs o_def case_prod_unfold)
  define members where "members =
       (case (const_gas_size K, const_gas_size V) of
          (Some k_gas, None) \<Rightarrow>
            gas_add (gas_sum (map (gas_size V) (map snd m))) (gas_mul_usize k_gas (length m))
        | (None, Some v_gas) \<Rightarrow>
            gas_add (gas_sum (map (gas_size K) (map fst m))) (gas_mul_usize v_gas (length m))
        | (Some k_gas, Some v_gas) \<Rightarrow> gas_mul_usize (gas_add k_gas v_gas) (length m)
        | (None, None) \<Rightarrow> gas_sum (map (\<lambda>(k, v). gas_add (gas_size K k) (gas_size V v)) m))"
  have "unat members = min (\<Sum>(a, b) \<leftarrow> m. unat (gas_size K a) + unat (gas_size V b)) max64"
  proof (cases "const_gas_size K"; cases "const_gas_size V")
    assume "const_gas_size K = None" "const_gas_size V = None"
    then show ?thesis using both by (simp add: members_def)
  next
    fix g assume "const_gas_size K = None" "const_gas_size V = Some g"
    then show ?thesis using v.const_sum [of g snd m]
      by (simp add: members_def gas_defs sat_simps split o_def mult.commute)
  next
    fix g assume "const_gas_size K = Some g" "const_gas_size V = None"
    then show ?thesis using k.const_sum [of g fst m]
      by (simp add: members_def gas_defs sat_simps split o_def mult.commute add.commute)
  next
    fix g h assume "const_gas_size K = Some g" "const_gas_size V = Some h"
    then show ?thesis using k.const_sum [of g fst m] v.const_sum [of h snd m]
      by (simp add: members_def gas_defs sat_simps split distrib_left mult.commute)
  qed
  moreover have "gas_size (gas_hash_map K V) m = gas_add (gas_add members 32) (gas_mul_usize 8 (length m))"
    by (simp add: gas_hash_map_def dyn_gas_def members_def)
  ultimately show ?thesis by (simp add: gas_defs sat_simps)
qed

end

lemma gas_sized_const [simp, intro]: "gas_sized (const_gas g)"
  by unfold_locales (simp add: const_gas_def)

lemma gas_sized_dyn [simp, intro]: "gas_sized (dyn_gas f)"
  by unfold_locales (simp add: dyn_gas_def)

lemma gas_sized_pair_of: "gas_sized A \<Longrightarrow> gas_sized B \<Longrightarrow> gas_sized (gas_pair C A B)"
  unfolding gas_sized_def gas_pair_def by (auto split: option.splits)

lemma gas_sized_triple: "gas_sized A \<Longrightarrow> gas_sized B \<Longrightarrow> gas_sized D \<Longrightarrow> gas_sized (gas_triple C A B D)"
  unfolding gas_sized_def gas_triple_def by (auto split: option.splits)

interpretation g_bool: gas_sized gas_bool
  unfolding gas_bool_def by (rule gas_sized_const)

interpretation g_u8: gas_sized gas_u8
  unfolding gas_u8_def int_gas_def by (rule gas_sized_const)

interpretation g_str: gas_sized gas_str
  unfolding gas_str_def by (rule gas_sized_dyn)

interpretation g_value: gas_sized "gas_value lib" for lib
  unfolding gas_value_def by (rule gas_sized_dyn)

interpretation g_entity: gas_sized_pair gas_str "gas_value lib" for lib
  by unfold_locales

interpretation g_key: gas_sized gas_entity_key
  unfolding gas_entity_key_def by (rule gas_sized_dyn)

section \<open>Sizes of values\<close>

lemma unat_gas_size_of_list:
  "unat (gas_size_of_value lib (V_List vs)) =
     min (20 + length vs + (\<Sum>v \<leftarrow> vs. unat (gas_size_of_value lib v))) max64"
  by (simp add: gas_defs sat_simps o_def add.assoc)

lemma gas_size_of_value_ge: "4 \<le> unat (gas_size_of_value lib v)"
  by (cases v) (simp_all add: gas_defs sat_simps min_def)

text \<open>
  The gas charged for a hash map is the sum of the sizes of its keys and values plus the
  overhead, cut off at the largest \<open>u64\<close>. This holds whichever of the four computations the code
  takes, depending on which of the two types have a constant size, and it does not depend on the
  order in which the map is traversed, so gas is deterministic across nodes.
\<close>

theorem gas_hash_map_deterministic:
  assumes "gas_sized K" "gas_sized V" "mset m' = mset m"
  shows "unat (gas_size (gas_hash_map K V) m) =
           min ((\<Sum>(k, v) \<leftarrow> m. unat (gas_size K k) + unat (gas_size V v)) + 32 + 8 * length m) max64 \<and>
         gas_size (gas_hash_map K V) m' = gas_size (gas_hash_map K V) m"
proof -
  have pair: "gas_sized_pair K V" using assms(1,2) by (rule gas_sized_pair.intro)
  note size = gas_sized_pair.unat_gas_hash_map [OF pair]
  have "(\<Sum>(k, v) \<leftarrow> m'. unat (gas_size K k) + unat (gas_size V v)) =
      (\<Sum>(k, v) \<leftarrow> m. unat (gas_size K k) + unat (gas_size V v))"
    using assms(3) by (rule sum_list_perm)
  moreover have "length m' = length m" using assms(3) by (rule mset_eq_length)
  ultimately show ?thesis by (simp add: size word_unat_eq_iff)
qed

theorem gas_hash_map_deterministic_witness:
  "gas_size (gas_hash_map gas_str gas_bool) [(''ab'', True), (''c'', False)] =
     gas_size (gas_hash_map gas_str gas_bool) [(''c'', False), (''ab'', True)] \<and>
   unat (gas_size (gas_hash_map gas_str gas_bool) [(''ab'', True), (''c'', False)]) = 53"
  using gas_hash_map_deterministic [OF g_str.gas_sized_axioms g_bool.gas_sized_axioms,
      of "[(''c'', False), (''ab'', True)]" "[(''ab'', True), (''c'', False)]"]
  by (simp add: gas_str_def gas_bool_def dyn_gas_def const_gas_def gas_defs sat_simps)

text \<open>
  Wrapping values in a list always costs more than the values together: at least the 4 of a
  value, the 16 of a vector and 1 per element are added, up to the cut-off at the largest \<open>u64\<close>. So
  nesting is never free, and no value is free.
\<close>

theorem gas_value_nesting:
  "unat (gas_size_of_value lib (V_List vs)) =
     min (20 + length vs + (\<Sum>v \<leftarrow> vs. unat (gas_size_of_value lib v))) max64 \<and>
   4 \<le> unat (gas_size_of_value lib v)"
  by (intro conjI unat_gas_size_of_list gas_size_of_value_ge)

section \<open>Charging operations\<close>

locale gas_combinator =
  fixes comb :: "gas \<Rightarrow> gas \<Rightarrow> gas"
  assumes comb_mono: "a \<le> a' \<Longrightarrow> b \<le> b' \<Longrightarrow> comb a b \<le> comb a' b'"
begin

lemma comb3_mono: "a \<le> a' \<Longrightarrow> b \<le> b' \<Longrightarrow> c \<le> c' \<Longrightarrow> comb (comb a b) c \<le> comb (comb a' b') c'"
  by (intro comb_mono)

end

lemma saturating_mono:
  assumes "(a :: u64) \<le> a'" "b \<le> b'"
  shows "saturating_add a b \<le> saturating_add a' b'" "saturating_mul a b \<le> saturating_mul a' b'"
  using assms by (simp_all add: word_le_nat_alt sat_simps min.coboundedI1 min_le_iff_disj add_mono mult_le_mono)

lemma combine_mono: "a \<le> a' \<Longrightarrow> b \<le> b' \<Longrightarrow> combine C a b \<le> combine C a' b'"
  by (cases C) (auto simp: gas_add_def saturating_mono min_def max_def)

interpretation combine: gas_combinator "combine C" for C
  by unfold_locales (rule combine_mono)

lemma with_args_ge_base: "base_cost op \<le> with_args op G args"
  by (simp add: with_args_def gas_defs word_le_nat_alt sat_simps)

lemma with_args_mono:
  "gas_size G a \<le> gas_size H b \<Longrightarrow> with_args op G a \<le> with_args op H b"
  unfolding with_args_def gas_defs by (intro saturating_mono order_refl)

text \<open>
  Charging an operation for its arguments: the charge is never below the base cost of the
  operation, and for every combinator it can only grow when the sizes of the arguments grow, also
  where the arithmetic saturates.
\<close>

theorem with_args_monotone:
  assumes "gas_size A a \<le> gas_size A a'" "gas_size B b \<le> gas_size B b'" "gas_size D d \<le> gas_size D d'"
  shows "base_cost op \<le> with_args op (gas_pair C A B) (a, b) \<and>
    with_args op (gas_pair C A B) (a, b) \<le> with_args op (gas_pair C A B) (a', b') \<and>
    with_args op (gas_triple C A B D) (a, b, d) \<le> with_args op (gas_triple C A B D) (a', b', d')"
  using assms combine.comb_mono [of _ _ _ _ C] combine.comb3_mono [of _ _ _ _ _ _ C]
  by (intro conjI with_args_ge_base with_args_mono) (simp_all add: gas_pair_def gas_triple_def)

theorem with_args_monotone_witness:
  "with_args BIG_MATH_GAS_OP (gas_pair Max gas_str gas_str) (''a'', ''b'') \<le>
   with_args BIG_MATH_GAS_OP (gas_pair Max gas_str gas_str) (''abc'', ''b'')"
  using with_args_monotone [of gas_str "''a''" "''abc''" gas_str "''b''" "''b''" gas_str "''a''" "''a''"]
  by (simp add: gas_str_def dyn_gas_def gas_defs word_le_nat_alt sat_simps)

section \<open>The counter limits a handler\<close>

definition gas_used :: "u64 \<Rightarrow> gas list \<Rightarrow> nat" where
  "gas_used counter as = min (unat counter + (\<Sum>a \<leftarrow> as. unat a + 10000)) max64"

lemma unat_consume_host_fn:
  "unat (snd (consume_host_fn limit a c)) = min (unat c + (unat a + 10000)) max64"
  "fst (consume_host_fn limit a c) =
     (if unat limit \<le> unat (snd (consume_host_fn limit a c))
      then Inl (snd (consume_host_fn limit a c)) else Inr ())"
proof -
  show "unat (snd (consume_host_fn limit a c)) = min (unat c + (unat a + 10000)) max64"
    by (simp add: consume_host_fn_def Let_def gas_defs HOST_EXPORT_GAS_def sat_simps)
qed (simp add: consume_host_fn_def Let_def word_le_nat_alt)

lemma gas_used_Cons:
  "gas_used c (a # as) = gas_used (snd (consume_host_fn limit a c)) as"
  by (simp add: gas_used_def unat_consume_host_fn sat_simps add.assoc)

lemma consume_all_Cons:
  "consume_all limit (a # as) c =
     (fst (consume_host_fn limit a c) # fst (consume_all limit as (snd (consume_host_fn limit a c))),
      snd (consume_all limit as (snd (consume_host_fn limit a c))))"
  by (simp add: case_prod_beta Let_def)

lemma unat_consume_all: "unat (snd (consume_all limit as c)) = gas_used c as"
proof (induction as arbitrary: c)
  case Nil
  then show ?case by (simp add: gas_used_def min_def unat_le_max64)
next
  case (Cons a as)
  show ?case by (simp only: consume_all_Cons snd_conv Cons.IH gas_used_Cons [of c a as limit])
qed

lemma length_consume_all: "length (fst (consume_all limit as c)) = length as"
  by (induction as arbitrary: c) (simp_all add: consume_all_Cons del: consume_all.simps(2))

lemma consume_all_nth:
  "i < length as \<Longrightarrow> fst (consume_all limit as c) ! i =
     (if unat limit \<le> gas_used c (take (Suc i) as)
      then Inl (of_nat (gas_used c (take (Suc i) as))) else Inr ())"
proof (induction as arbitrary: c i)
  case (Cons a as)
  show ?case
  proof (cases i)
    case 0
    have "gas_used c [a] = unat (snd (consume_host_fn limit a c))"
      by (simp add: gas_used_def unat_consume_host_fn)
    then show ?thesis unfolding 0
      by (simp add: consume_all_Cons unat_consume_host_fn(2) del: consume_all.simps(2))
  next
    case (Suc j)
    with Cons show ?thesis
      by (simp add: consume_all_Cons gas_used_Cons [of c a _ limit] del: consume_all.simps(2))
  qed
qed simp

lemma consume_all_successes:
  assumes "\<And>a. a \<in> set as \<Longrightarrow> q \<le> unat a"
  shows "(q + 10000) * length (filter (\<lambda>r. r = Inr ()) (fst (consume_all limit as c))) \<le>
    unat limit - unat c"
  using assms
proof (induction as arbitrary: c)
  case (Cons a as)
  define c' where "c' = snd (consume_host_fn limit a c)"
  define n where "n = length (filter (\<lambda>r. r = Inr ()) (fst (consume_all limit as c')))"
  have IH: "(q + 10000) * n \<le> unat limit - unat c'" using Cons by (simp add: n_def)
  have a: "q \<le> unat a" using Cons.prems by simp
  show ?case
  proof (cases "unat limit \<le> unat c'")
    case True
    with IH have "n = 0" by simp
    with True show ?thesis
      by (simp add: consume_all_Cons unat_consume_host_fn(2) c'_def n_def del: consume_all.simps(2))
  next
    case False
    have "unat c' = unat c + (unat a + 10000)"
      using False unat_consume_host_fn(1) [of limit a c] unat_le_max64 [of limit]
      by (simp add: c'_def min_def split: if_splits)
    with IH a False have "(q + 10000) * Suc n \<le> unat limit - unat c" by (simp add: algebra_simps)
    with False show ?thesis
      by (simp add: consume_all_Cons unat_consume_host_fn(2) c'_def n_def del: consume_all.simps(2))
  qed
qed simp

text \<open>
  C32. A sequence of host function calls leaves in the counter the sum of the amounts plus 10000 per
  call, cut off at the largest \<open>u64\<close>; the i-th call fails exactly when the gas used so far, itself
  included, has reached the limit, and reports that amount. A call after a failed one fails too.
\<close>

theorem consume_all_exact:
  "unat (snd (consume_all limit as c)) = gas_used c as \<and>
   length (fst (consume_all limit as c)) = length as \<and>
   (\<forall>i. i < length as \<longrightarrow> fst (consume_all limit as c) ! i =
      (if unat limit \<le> gas_used c (take (Suc i) as)
       then Inl (of_nat (gas_used c (take (Suc i) as))) else Inr ())) \<and>
   (\<forall>i j. i < j \<and> j < length as \<and> fst (consume_all limit as c) ! i \<noteq> Inr () \<longrightarrow>
      fst (consume_all limit as c) ! j \<noteq> Inr ())"
proof -
  have mono: "gas_used c (take i as) \<le> gas_used c (take j as)" if "i \<le> j" for i j
  proof -
    have "take j as = take i as @ take (j - i) (drop i as)"
      using take_add [of i "j - i" as] that by simp
    then show ?thesis by (simp add: gas_used_def min_le_iff_disj)
  qed
  have "fst (consume_all limit as c) ! j \<noteq> Inr ()"
    if "i < j" "j < length as" "fst (consume_all limit as c) ! i \<noteq> Inr ()" for i j
    using that mono [of "Suc i" "Suc j"] by (auto simp: consume_all_nth split: if_splits)
  then show ?thesis
    by (intro conjI allI impI unat_consume_all length_consume_all consume_all_nth) blast+
qed

theorem consume_all_exact_witness:
  "fst (consume_all 25000 [100, 100, 5000] 0) ! 0 = Inr () \<and>
   fst (consume_all 25000 [100, 100, 5000] 0) ! 2 = Inl 35200"
  using consume_all_exact [of 25000 "[100, 100, 5000]" 0] by (simp add: gas_used_def)

text \<open>
  The budgets that the cost table promises hold: under the default limit a handler can save at
  most 250000 entities, create at most 100000 data sources and write at most 100000 log lines,
  whatever else it does in between and however large the arguments are, and in any sequence of
  calls at most one call per 10000 gas of the limit succeeds.
\<close>

theorem handler_budgets:
  "length (filter (\<lambda>r. r = Inr ()) (fst (consume_all limit as c))) \<le> unat limit div 10000 \<and>
   length (filter (\<lambda>r. r = Inr ())
     (fst (consume_all CONST_MAX_GAS_PER_HANDLER (map (with_args STORE_SET G) args) 0))) \<le> 250000 \<and>
   length (filter (\<lambda>r. r = Inr ())
     (fst (consume_all CONST_MAX_GAS_PER_HANDLER (map (with_args LOG_OP G) args) 0))) \<le> 100000 \<and>
   length (filter (\<lambda>r. r = Inr ())
     (fst (consume_all CONST_MAX_GAS_PER_HANDLER (replicate n CREATE_DATA_SOURCE) 0))) \<le> 100000"
proof (intro conjI)
  have lim: "unat CONST_MAX_GAS_PER_HANDLER = 10000000000000"
    by (simp add: CONST_MAX_GAS_PER_HANDLER_def GAS_PER_SECOND_def)
  have "10000 * length (filter (\<lambda>r. r = Inr ()) (fst (consume_all limit as c))) \<le> unat limit"
    using consume_all_successes [of as 0 limit c] by simp
  then show "length (filter (\<lambda>r. r = Inr ()) (fst (consume_all limit as c))) \<le> unat limit div 10000"
    by linarith
  have budget: "length (filter (\<lambda>r. r = Inr ()) (fst (consume_all CONST_MAX_GAS_PER_HANDLER as 0))) \<le> m"
    if "\<And>a. a \<in> set as \<Longrightarrow> q \<le> unat a" "10000000000000 \<le> (q + 10000) * m" for as q m
  proof -
    let ?n = "length (filter (\<lambda>r. r = Inr ()) (fst (consume_all CONST_MAX_GAS_PER_HANDLER as 0)))"
    have "(q + 10000) * ?n \<le> unat CONST_MAX_GAS_PER_HANDLER - unat (0 :: u64)"
      by (rule consume_all_successes) (rule that(1))
    then have "(q + 10000) * ?n \<le> 10000000000000" by (simp only: lim unsigned_0 diff_zero)
    then have "(q + 10000) * ?n \<le> (q + 10000) * m" using that(2) by (rule order_trans)
    then show ?thesis by (simp only: mult_le_cancel1)
  qed
  have base: "q \<le> unat a" if "a \<in> set (map (with_args op G) args)" "unat (base_cost op) = q" for a q op
    using that with_args_ge_base [of op G] by (auto simp: word_le_nat_alt)
  show "length (filter (\<lambda>r. r = Inr ())
      (fst (consume_all CONST_MAX_GAS_PER_HANDLER (map (with_args STORE_SET G) args) 0))) \<le> 250000"
    by (rule budget [of _ 40000000], erule base)
      (simp_all add: STORE_SET_def CONST_MAX_GAS_PER_HANDLER_def GAS_PER_SECOND_def)
  show "length (filter (\<lambda>r. r = Inr ())
      (fst (consume_all CONST_MAX_GAS_PER_HANDLER (map (with_args LOG_OP G) args) 0))) \<le> 100000"
    by (rule budget [of _ 100000000], erule base)
      (simp_all add: LOG_OP_def CONST_MAX_GAS_PER_HANDLER_def GAS_PER_SECOND_def)
  show "length (filter (\<lambda>r. r = Inr ())
      (fst (consume_all CONST_MAX_GAS_PER_HANDLER (replicate n CREATE_DATA_SOURCE) 0))) \<le> 100000"
    by (rule budget [of _ 100000000])
      (simp_all add: CREATE_DATA_SOURCE_def CONST_MAX_GAS_PER_HANDLER_def GAS_PER_SECOND_def)
qed

end
