(* ===== verification/Lfu_Cache.thy ===== *)
theory Lfu_Cache
  imports Prelude
begin

text \<open>
  The cache of \<open>graph/src/util/lfu_cache.rs\<close>: entries with a weight, evicted stale ones first and then
  by least frequency, until the total weight respects a bound.

  The cache sits on the crate \<open>priority_queue\<close>. Its operations are the record \<open>pq_ops\<close>, an argument
  of every definition; items compare by their key only, so the operations that look an item up take
  the key. The locale \<open>priority_queue\<close> states what the crate documents, read through the map from
  keys to entries and priorities, and \<open>list_pq\<close> implements it on lists.

  Weights and frequencies are \<open>usize\<close> and \<open>u64\<close>, with the wrap-around of a release build.
\<close>

section \<open>Entries, priorities and the queue\<close>

record ('k, 'v) cache_entry =
  ce_weight :: u64
  ce_key :: 'k
  ce_value :: 'v
  ce_will_stale :: bool

text \<open>\<open>(bool, Reverse<u64>)\<close>: stale entries are larger, then those of smaller frequency.\<close>

type_synonym priority = "bool \<times> u64"

definition prio_le :: "priority \<Rightarrow> priority \<Rightarrow> bool" where
  "prio_le p q \<longleftrightarrow> \<not> fst p \<and> fst q \<or> fst p = fst q \<and> snd q \<le> snd p"

record ('k, 'v, 'q) pq_ops =
  pq_new :: 'q
  pq_push :: "('k, 'v) cache_entry \<Rightarrow> priority \<Rightarrow> 'q \<Rightarrow> 'q"
  pq_change_priority :: "'k \<Rightarrow> priority \<Rightarrow> 'q \<Rightarrow> priority option \<times> 'q"
  pq_change_priority_by :: "'k \<Rightarrow> (priority \<Rightarrow> priority) \<Rightarrow> 'q \<Rightarrow> 'q"
  pq_get :: "'k \<Rightarrow> 'q \<Rightarrow> (('k, 'v) cache_entry \<times> priority) option"
  pq_modify :: "'k \<Rightarrow> (('k, 'v) cache_entry \<Rightarrow> ('k, 'v) cache_entry) \<Rightarrow> 'q \<Rightarrow> 'q"
  pq_pop :: "'q \<Rightarrow> (('k, 'v) cache_entry \<times> priority) option \<times> 'q"
  pq_len :: "'q \<Rightarrow> nat"
  pq_iter_mut :: "(('k, 'v) cache_entry \<times> priority \<Rightarrow> ('k, 'v) cache_entry \<times> priority) \<Rightarrow> 'q \<Rightarrow> 'q"
  pq_extend :: "(('k, 'v) cache_entry \<times> priority) list \<Rightarrow> 'q \<Rightarrow> 'q"
  pq_into_iter :: "'q \<Rightarrow> (('k, 'v) cache_entry \<times> priority) list"

definition pq_map :: "('k, 'v, 'q) pq_ops \<Rightarrow> 'q \<Rightarrow> 'k \<rightharpoonup> ('k, 'v) cache_entry \<times> priority" where
  "pq_map ops q = map_of (map (\<lambda>x. (ce_key (fst x), x)) (pq_into_iter ops q))"

section \<open>The cache\<close>

definition STALE_PERIOD :: u64 where
  "STALE_PERIOD = 100"

record 'q lfu_cache =
  lfu_queue :: 'q
  lfu_total_weight :: u64
  lfu_stale_counter :: u64
  lfu_dead_weight :: bool

text \<open>The flag is \<open>ENV_VARS.mappings.entity_cache_dead_weight\<close>.\<close>

definition lfu_new :: "('k, 'v, 'q) pq_ops \<Rightarrow> bool \<Rightarrow> 'q lfu_cache" where
  "lfu_new ops dead = \<lparr> lfu_queue = pq_new ops, lfu_total_weight = 0, lfu_stale_counter = 0,
                        lfu_dead_weight = dead \<rparr>"

text \<open>Bumps the frequency, marks the entry as used and returns it.\<close>

definition lfu_get_mut ::
    "('k, 'v, 'q) pq_ops \<Rightarrow> 'k \<Rightarrow> 'q lfu_cache \<Rightarrow> ('k, 'v) cache_entry option \<times> 'q lfu_cache" where
  "lfu_get_mut ops key c =
     (let q = pq_change_priority_by ops key (\<lambda>(s, f). (s, f + 1)) (lfu_queue c);
          q' = pq_modify ops key (ce_will_stale_update (\<lambda>_. False)) q
      in (map_option fst (pq_get ops key q'), c\<lparr>lfu_queue := q'\<rparr>))"

definition lfu_get :: "('k, 'v, 'q) pq_ops \<Rightarrow> 'k \<Rightarrow> 'q lfu_cache \<Rightarrow> 'v option \<times> 'q lfu_cache" where
  "lfu_get ops key c = (let (e, c') = lfu_get_mut ops key c in (map_option ce_value e, c'))"

text \<open>\<open>wt\<close> is \<open>CacheEntry::weight\<close>, the indirect weight of the value and of the key.\<close>

definition lfu_insert ::
    "('k, 'v, 'q) pq_ops \<Rightarrow> ('k \<Rightarrow> 'v \<Rightarrow> u64) \<Rightarrow> 'k \<Rightarrow> 'v \<Rightarrow> 'q lfu_cache \<Rightarrow> 'q lfu_cache" where
  "lfu_insert ops wt key value c =
     (let weight = wt key value;
          (found, c') = lfu_get_mut ops key c
      in case found of
           None \<Rightarrow>
             c'\<lparr>lfu_total_weight := lfu_total_weight c' + weight,
                lfu_queue := pq_push ops
                  \<lparr>ce_weight = weight, ce_key = key, ce_value = value, ce_will_stale = False\<rparr>
                  (False, 1) (lfu_queue c')\<rparr>
         | Some entry \<Rightarrow>
             c'\<lparr>lfu_queue := pq_modify ops key
                  (\<lambda>e. e\<lparr>ce_weight := weight, ce_value := value\<rparr>) (lfu_queue c'),
                lfu_total_weight := lfu_total_weight c' - ce_weight entry + weight\<rparr>)"

text \<open>\<open>Inl ()\<close> is the failing assertion that the popped entry is the one to remove.\<close>

definition lfu_remove ::
    "('k, 'v, 'q) pq_ops \<Rightarrow> 'k \<Rightarrow> 'q lfu_cache \<Rightarrow> unit + ('v option \<times> 'q lfu_cache)" where
  "lfu_remove ops key c =
     (let (old, q) = pq_change_priority ops key (True, 0) (lfu_queue c)
      in case old of
           None \<Rightarrow> Inr (None, c\<lparr>lfu_queue := q\<rparr>)
         | Some _ \<Rightarrow>
             (case pq_pop ops q of
                (None, q') \<Rightarrow> Inr (None, c\<lparr>lfu_queue := q'\<rparr>)
              | (Some (e, _), q') \<Rightarrow>
                  if ce_key e = key
                  then Inr (Some (ce_value e),
                            c\<lparr>lfu_queue := q', lfu_total_weight := lfu_total_weight c - ce_weight e\<rparr>)
                  else Inl ()))"

definition lfu_contains_key :: "('k, 'v, 'q) pq_ops \<Rightarrow> 'k \<Rightarrow> 'q lfu_cache \<Rightarrow> bool" where
  "lfu_contains_key ops key c \<longleftrightarrow> pq_get ops key (lfu_queue c) \<noteq> None"

definition lfu_is_empty :: "('k, 'v, 'q) pq_ops \<Rightarrow> 'q lfu_cache \<Rightarrow> bool" where
  "lfu_is_empty ops c \<longleftrightarrow> pq_len ops (lfu_queue c) = 0"

definition lfu_len :: "('k, 'v, 'q) pq_ops \<Rightarrow> 'q lfu_cache \<Rightarrow> nat" where
  "lfu_len ops c = pq_len ops (lfu_queue c)"

record evict_stats =
  new_weight :: u64
  evicted_weight :: u64
  new_count :: nat
  evicted_count :: nat
  stale_update :: bool

datatype 'a evict_result = Evict_done 'a | Evict_panic | Evict_out_of_fuel

text \<open>
  The loop \<open>while self.total_weight + dead_weight > max_weight\<close>. Popping an empty queue panics. Every
  round pops an entry, so the length of the queue plus one is fuel enough.
\<close>

fun evict_loop ::
    "('k, 'v, 'q) pq_ops \<Rightarrow> nat \<Rightarrow> u64 \<Rightarrow> u64 \<Rightarrow> 'q \<Rightarrow> u64 \<Rightarrow> u64 \<Rightarrow> ('q \<times> u64 \<times> u64) evict_result"
  where
  "evict_loop ops fuel max_weight dead_weight q tot evicted =
     (if tot + dead_weight > max_weight then
        (case fuel of
           0 \<Rightarrow> Evict_out_of_fuel
         | Suc n \<Rightarrow>
             (case pq_pop ops q of
                (None, _) \<Rightarrow> Evict_panic
              | (Some (e, _), q') \<Rightarrow>
                  evict_loop ops n max_weight dead_weight q' (tot - ce_weight e)
                    (evicted + ce_weight e)))
      else Evict_done (q, tot, evicted))"

declare evict_loop.simps [simp del]

text \<open>\<open>entry_size\<close> is \<open>size_of::<CacheEntry<K, V>>()\<close>.\<close>

definition evict_with_period ::
    "('k, 'v, 'q) pq_ops \<Rightarrow> u64 \<Rightarrow> u64 \<Rightarrow> u64 \<Rightarrow> 'q lfu_cache \<Rightarrow>
     (evict_stats option \<times> 'q lfu_cache) evict_result" where
  "evict_with_period ops entry_size max_weight stale_period c =
     (if lfu_total_weight c \<le> max_weight then Evict_done (None, c)
      else
        let counter = lfu_stale_counter c + 1;
            (counter, q) =
              (if counter = stale_period
               then (0, pq_iter_mut ops
                          (\<lambda>(e, p). (e\<lparr>ce_will_stale := True\<rparr>, (ce_will_stale e, snd p))) (lfu_queue c))
               else (counter, lfu_queue c));
            old_len = pq_len ops q;
            dead_weight = (if lfu_dead_weight c then of_nat old_len * (entry_size + 40) else 0)
        in case evict_loop ops (Suc old_len) max_weight dead_weight q (lfu_total_weight c) 0 of
             Evict_done (q', tot, evicted) \<Rightarrow>
               Evict_done
                 (Some \<lparr>new_weight = tot, evicted_weight = evicted, new_count = pq_len ops q',
                        evicted_count = old_len - pq_len ops q', stale_update = (counter = 0)\<rparr>,
                  c\<lparr>lfu_queue := q', lfu_total_weight := tot, lfu_stale_counter := counter\<rparr>)
           | Evict_panic \<Rightarrow> Evict_panic
           | Evict_out_of_fuel \<Rightarrow> Evict_out_of_fuel)"

definition lfu_evict ::
    "('k, 'v, 'q) pq_ops \<Rightarrow> u64 \<Rightarrow> u64 \<Rightarrow> 'q lfu_cache \<Rightarrow>
     (evict_stats option \<times> 'q lfu_cache) evict_result" where
  "lfu_evict ops entry_size max_weight c = evict_with_period ops entry_size max_weight STALE_PERIOD c"

text \<open>\<open>IntoIterator\<close> and \<open>Extend\<close>.\<close>

definition lfu_into_iter ::
    "('k, 'v, 'q) pq_ops \<Rightarrow> 'q lfu_cache \<Rightarrow> (('k, 'v) cache_entry \<times> priority) list" where
  "lfu_into_iter ops c = pq_into_iter ops (lfu_queue c)"

definition lfu_extend ::
    "('k, 'v, 'q) pq_ops \<Rightarrow> (('k, 'v) cache_entry \<times> priority) list \<Rightarrow> 'q lfu_cache \<Rightarrow> 'q lfu_cache" where
  "lfu_extend ops items c = c\<lparr>lfu_queue := pq_extend ops items (lfu_queue c)\<rparr>"

section \<open>What the queue promises\<close>

locale priority_queue =
  fixes ops :: "('k, 'v, 'q) pq_ops"
  assumes items_distinct: "distinct (map (\<lambda>x. ce_key (fst x)) (pq_into_iter ops q))"
    and new_empty: "pq_into_iter ops (pq_new ops) = []"
    and push_fresh: "pq_map ops q (ce_key e) = None \<Longrightarrow>
      pq_map ops (pq_push ops e p q) = (pq_map ops q)(ce_key e \<mapsto> (e, p))"
    and change_priority_old: "fst (pq_change_priority ops k p q) = map_option snd (pq_map ops q k)"
    and change_priority_map: "pq_map ops (snd (pq_change_priority ops k p q)) =
      (pq_map ops q)(k := map_option (\<lambda>x. (fst x, p)) (pq_map ops q k))"
    and change_priority_by_map: "pq_map ops (pq_change_priority_by ops k f q) =
      (pq_map ops q)(k := map_option (\<lambda>x. (fst x, f (snd x))) (pq_map ops q k))"
    and get_map: "pq_get ops k q = pq_map ops q k"
    and modify_map: "(\<And>e. ce_key (g e) = ce_key e) \<Longrightarrow> pq_map ops (pq_modify ops k g q) =
      (pq_map ops q)(k := map_option (\<lambda>x. (g (fst x), snd x)) (pq_map ops q k))"
    and pop_empty: "fst (pq_pop ops q) = None \<longleftrightarrow> pq_into_iter ops q = []"
    and pop_max: "fst (pq_pop ops q) = Some (e, p) \<Longrightarrow>
      pq_map ops q (ce_key e) = Some (e, p) \<and>
      (\<forall>x \<in> set (pq_into_iter ops q). prio_le (snd x) p) \<and>
      pq_map ops (snd (pq_pop ops q)) = (pq_map ops q)(ce_key e := None)"
    and len_items: "pq_len ops q = length (pq_into_iter ops q)"
    and iter_mut_map: "(\<And>x. ce_key (fst (h x)) = ce_key (fst x)) \<Longrightarrow>
      pq_map ops (pq_iter_mut ops h q) = map_option h \<circ> pq_map ops q"
    and extend_old: "k \<notin> (\<lambda>x. ce_key (fst x)) ` set items \<Longrightarrow>
      pq_map ops (pq_extend ops items q) k = pq_map ops q k"
    and extend_fresh: "distinct (map (\<lambda>x. ce_key (fst x)) items) \<Longrightarrow> x \<in> set items \<Longrightarrow>
      pq_map ops q (ce_key (fst x)) = None \<Longrightarrow>
      pq_map ops (pq_extend ops items q) (ce_key (fst x)) = Some x"
    and extend_present: "distinct (map (\<lambda>x. ce_key (fst x)) items) \<Longrightarrow> x \<in> set items \<Longrightarrow>
      pq_map ops q (ce_key (fst x)) = Some y \<Longrightarrow>
      \<exists>e. pq_map ops (pq_extend ops items q) (ce_key (fst x)) = Some (e, snd x) \<and> e \<in> {fst x, fst y}"

section \<open>The content and its weight\<close>

definition lfu_map :: "('k, 'v, 'q) pq_ops \<Rightarrow> 'q lfu_cache \<Rightarrow> 'k \<rightharpoonup> 'v" where
  "lfu_map ops c k = map_option (\<lambda>x. ce_value (fst x)) (pq_map ops (lfu_queue c) k)"

definition map_weight :: "('k \<rightharpoonup> ('k, 'v) cache_entry \<times> priority) \<Rightarrow> u64" where
  "map_weight m = (\<Sum>k \<in> dom m. ce_weight (fst (the (m k))))"

text \<open>The recorded total is the sum of the weights of the entries.\<close>

definition lfu_weight_ok :: "('k, 'v, 'q) pq_ops \<Rightarrow> 'q lfu_cache \<Rightarrow> bool" where
  "lfu_weight_ok ops c \<longleftrightarrow> lfu_total_weight c = map_weight (pq_map ops (lfu_queue c))"

text \<open>Every entry has been counted at least once and at most \<open>n\<close> times.\<close>

definition lfu_freq_ok :: "('k, 'v, 'q) pq_ops \<Rightarrow> nat \<Rightarrow> 'q lfu_cache \<Rightarrow> bool" where
  "lfu_freq_ok ops n c \<longleftrightarrow>
     (\<forall>k e s f. pq_map ops (lfu_queue c) k = Some (e, s, f) \<longrightarrow> 1 \<le> unat f \<and> unat f \<le> n)"

lemma map_weight_remove:
  assumes "finite (dom m)" "m k = Some x"
  shows "map_weight (m(k := None)) = map_weight m - ce_weight (fst x)"
proof -
  have "map_weight m = ce_weight (fst (the (m k))) + (\<Sum>k \<in> dom m - {k}. ce_weight (fst (the (m k))))"
    unfolding map_weight_def using assms by (intro sum.remove) auto
  moreover have "(\<Sum>k \<in> dom m - {k}. ce_weight (fst (the (m k)))) = map_weight (m(k := None))"
    unfolding map_weight_def by (intro sum.cong) auto
  ultimately show ?thesis using assms(2) by simp
qed

lemma map_weight_insert:
  assumes "finite (dom m)" "m k = None"
  shows "map_weight (m(k \<mapsto> x)) = map_weight m + ce_weight (fst x)"
  using map_weight_remove [of "m(k \<mapsto> x)" k x] assms by (simp add: fun_upd_idem)

lemma map_weight_update:
  assumes "finite (dom m)" "m k = Some y"
  shows "map_weight (m(k \<mapsto> x)) = map_weight m - ce_weight (fst y) + ce_weight (fst x)"
  using map_weight_insert [of "m(k := None)" k x] map_weight_remove [OF assms] assms(1) by simp

lemma map_weight_same:
  assumes "dom m' = dom m" "\<And>k x y. m k = Some x \<Longrightarrow> m' k = Some y \<Longrightarrow> ce_weight (fst y) = ce_weight (fst x)"
  shows "map_weight m' = map_weight m"
  unfolding map_weight_def
proof (rule sum.cong [OF assms(1)])
  fix k assume "k \<in> dom m"
  then obtain x y where "m k = Some x" "m' k = Some y" using assms(1) by blast
  with assms(2) [of k x y] show "ce_weight (fst (the (m' k))) = ce_weight (fst (the (m k)))" by simp
qed

text \<open>Looking an entry up touches its frequency and its stale mark only.\<close>

definition bump :: "('k, 'v) cache_entry \<times> priority \<Rightarrow> ('k, 'v) cache_entry \<times> priority" where
  "bump x = ((fst x)\<lparr>ce_will_stale := False\<rparr>, fst (snd x), snd (snd x) + 1)"

context priority_queue
begin

lemma pq_map_iff: "pq_map ops q k = Some x \<longleftrightarrow> x \<in> set (pq_into_iter ops q) \<and> ce_key (fst x) = k"
proof -
  have "distinct (map fst (map (\<lambda>x. (ce_key (fst x), x)) (pq_into_iter ops q)))"
    using items_distinct [of q] by (simp add: o_def)
  from map_of_eq_Some_iff [OF this] show ?thesis unfolding pq_map_def by auto
qed

lemma pq_map_key: "pq_map ops q k = Some x \<Longrightarrow> ce_key (fst x) = k"
  by (simp add: pq_map_iff)

lemma finite_pq_map [simp]: "finite (dom (pq_map ops q))"
  unfolding pq_map_def by (rule finite_dom_map_of)

lemma pq_map_empty: "pq_map ops q = Map.empty \<longleftrightarrow> pq_into_iter ops q = []"
  by (auto simp: pq_map_def)

lemma card_pq_map: "card (dom (pq_map ops q)) = pq_len ops q"
proof -
  have "dom (pq_map ops q) = set (map (\<lambda>x. ce_key (fst x)) (pq_into_iter ops q))"
  proof (rule set_eqI)
    fix k
    have "k \<in> dom (pq_map ops q) \<longleftrightarrow> (\<exists>x \<in> set (pq_into_iter ops q). ce_key (fst x) = k)"
      unfolding dom_def mem_Collect_eq by (metis not_None_eq pq_map_iff)
    then show "k \<in> dom (pq_map ops q) \<longleftrightarrow> k \<in> set (map (\<lambda>x. ce_key (fst x)) (pq_into_iter ops q))"
      unfolding set_map by blast
  qed
  with distinct_card [OF items_distinct [of q]] show ?thesis by (simp only: len_items length_map)
qed

lemma lfu_new_facts:
  "lfu_weight_ok ops (lfu_new ops d)" "lfu_freq_ok ops n (lfu_new ops d)"
  "lfu_map ops (lfu_new ops d) = Map.empty"
  by (auto simp: lfu_weight_ok_def lfu_freq_ok_def lfu_map_def lfu_new_def pq_map_def new_empty
      map_weight_def)

lemma get_mut_map:
  "pq_map ops (lfu_queue (snd (lfu_get_mut ops k c))) =
     (pq_map ops (lfu_queue c))(k := map_option bump (pq_map ops (lfu_queue c) k))"
  by (simp add: lfu_get_mut_def Let_def modify_map change_priority_by_map option.map_comp o_def
      bump_def [abs_def] case_prod_beta)

lemma get_mut_result:
  "fst (lfu_get_mut ops k c) = map_option (\<lambda>x. fst (bump x)) (pq_map ops (lfu_queue c) k)"
  by (simp add: lfu_get_mut_def Let_def get_map modify_map change_priority_by_map option.map_comp
      o_def bump_def)

lemma get_mut_fields:
  "lfu_total_weight (snd (lfu_get_mut ops k c)) = lfu_total_weight c"
  "lfu_stale_counter (snd (lfu_get_mut ops k c)) = lfu_stale_counter c"
  "lfu_dead_weight (snd (lfu_get_mut ops k c)) = lfu_dead_weight c"
  by (simp_all add: lfu_get_mut_def Let_def)

lemma get_mut_weight_ok:
  assumes "lfu_weight_ok ops c"
  shows "lfu_weight_ok ops (snd (lfu_get_mut ops k c))"
proof -
  have "map_weight (pq_map ops (lfu_queue (snd (lfu_get_mut ops k c)))) =
      map_weight (pq_map ops (lfu_queue c))"
    by (rule map_weight_same) (auto simp: get_mut_map bump_def split: if_splits)
  with assms show ?thesis by (simp add: lfu_weight_ok_def get_mut_fields)
qed

lemma get_mut_freq_ok:
  assumes "lfu_freq_ok ops n c" "n < max64"
  shows "lfu_freq_ok ops (Suc n) (snd (lfu_get_mut ops k c))"
  unfolding lfu_freq_ok_def
proof (intro allI impI)
  fix k' e s f
  assume new: "pq_map ops (lfu_queue (snd (lfu_get_mut ops k c))) k' = Some (e, s, f)"
  show "1 \<le> unat f \<and> unat f \<le> Suc n"
  proof (cases "k' = k")
    case True
    then obtain e' f' where old: "pq_map ops (lfu_queue c) k = Some (e', s, f')" "f = f' + 1"
      using new by (auto simp: get_mut_map bump_def)
    with assms have "1 \<le> unat f'" "unat f' \<le> n" by (auto simp: lfu_freq_ok_def)
    with assms(2) have "unat (f' + 1) = unat f' + 1" by (simp add: unat_word_ariths)
    with old(2) \<open>unat f' \<le> n\<close> show ?thesis by simp
  next
    case False
    with new assms show ?thesis by (fastforce simp: get_mut_map lfu_freq_ok_def)
  qed
qed

lemma lfu_get_map:
  "fst (lfu_get ops k c) = lfu_map ops c k" "lfu_map ops (snd (lfu_get ops k c)) = lfu_map ops c"
proof -
  have eq: "snd (lfu_get ops k c) = snd (lfu_get_mut ops k c)"
    "fst (lfu_get ops k c) = map_option ce_value (fst (lfu_get_mut ops k c))"
    by (simp_all add: lfu_get_def Let_def case_prod_beta)
  show "fst (lfu_get ops k c) = lfu_map ops c k"
    by (simp add: eq get_mut_result lfu_map_def option.map_comp o_def bump_def)
  show "lfu_map ops (snd (lfu_get ops k c)) = lfu_map ops c"
    by (auto simp: eq lfu_map_def get_mut_map bump_def fun_eq_iff option.map_comp o_def)
qed

end

context priority_queue
begin

lemma lfu_insert_queue:
  "\<exists>e p. pq_map ops (lfu_queue (lfu_insert ops wt k v c)) = (pq_map ops (lfu_queue c))(k \<mapsto> (e, p)) \<and>
     ce_value e = v \<and> ce_weight e = wt k v \<and>
     p = (case pq_map ops (lfu_queue c) k of None \<Rightarrow> (False, 1) | Some x \<Rightarrow> snd (bump x))"
proof (cases "pq_map ops (lfu_queue c) k")
  case None
  then have found: "fst (lfu_get_mut ops k c) = None" by (simp add: get_mut_result)
  have same: "pq_map ops (lfu_queue (snd (lfu_get_mut ops k c))) = pq_map ops (lfu_queue c)"
    using None by (simp add: get_mut_map fun_upd_idem)
  from found None show ?thesis
    by (intro exI [of _ "\<lparr>ce_weight = wt k v, ce_key = k, ce_value = v, ce_will_stale = False\<rparr>"]
        exI [of _ "(False, 1)"])
      (simp add: lfu_insert_def Let_def case_prod_beta push_fresh same)
next
  case (Some x)
  then have found: "fst (lfu_get_mut ops k c) = Some (fst (bump x))" by (simp add: get_mut_result)
  from found Some show ?thesis
    by (intro exI [of _ "(fst (bump x))\<lparr>ce_weight := wt k v, ce_value := v\<rparr>"] exI [of _ "snd (bump x)"])
      (simp add: lfu_insert_def Let_def case_prod_beta modify_map get_mut_map)
qed

lemma lfu_insert_total:
  "lfu_total_weight (lfu_insert ops wt k v c) =
     (case pq_map ops (lfu_queue c) k of
        None \<Rightarrow> lfu_total_weight c + wt k v
      | Some x \<Rightarrow> lfu_total_weight c - ce_weight (fst x) + wt k v)"
  by (auto simp: lfu_insert_def Let_def case_prod_beta get_mut_result get_mut_fields bump_def
      split: option.splits)

lemma lfu_insert_map: "lfu_map ops (lfu_insert ops wt k v c) = (lfu_map ops c)(k \<mapsto> v)"
  using lfu_insert_queue [of wt k v c] by (auto simp: lfu_map_def fun_eq_iff)

lemma lfu_insert_weight_ok:
  assumes "lfu_weight_ok ops c"
  shows "lfu_weight_ok ops (lfu_insert ops wt k v c)"
proof -
  obtain e p where q: "pq_map ops (lfu_queue (lfu_insert ops wt k v c)) =
      (pq_map ops (lfu_queue c))(k \<mapsto> (e, p))" "ce_weight e = wt k v"
    using lfu_insert_queue by blast
  show ?thesis
    using assms q map_weight_insert [of "pq_map ops (lfu_queue c)" k "(e, p)"]
      map_weight_update [of "pq_map ops (lfu_queue c)" k _ "(e, p)"]
    by (cases "pq_map ops (lfu_queue c) k") (auto simp: lfu_weight_ok_def lfu_insert_total)
qed

lemma lfu_insert_freq_ok:
  assumes "lfu_freq_ok ops n c" "n < max64"
  shows "lfu_freq_ok ops (Suc n) (lfu_insert ops wt k v c)"
  unfolding lfu_freq_ok_def
proof (intro allI impI)
  fix k' e s f
  assume new: "pq_map ops (lfu_queue (lfu_insert ops wt k v c)) k' = Some (e, s, f)"
  obtain e' p where q: "pq_map ops (lfu_queue (lfu_insert ops wt k v c)) =
      (pq_map ops (lfu_queue c))(k \<mapsto> (e', p))"
      "p = (case pq_map ops (lfu_queue c) k of None \<Rightarrow> (False, 1) | Some x \<Rightarrow> snd (bump x))"
    using lfu_insert_queue by blast
  show "1 \<le> unat f \<and> unat f \<le> Suc n"
  proof (cases "k' = k")
    case True
    show ?thesis
    proof (cases "pq_map ops (lfu_queue c) k")
      case None
      with new q True show ?thesis by simp
    next
      case (Some x)
      then have "pq_map ops (lfu_queue (snd (lfu_get_mut ops k c))) k = Some (bump x)"
        by (simp add: get_mut_map)
      moreover have "snd (bump x) = (s, f)" using new q True Some by simp
      ultimately show ?thesis
        using get_mut_freq_ok [OF assms, of k] unfolding lfu_freq_ok_def by (metis prod.collapse)
    qed
  next
    case False
    with new q assms show ?thesis by (fastforce simp: lfu_freq_ok_def)
  qed
qed

text \<open>An insertion of a key that is not there does not raise the bound on the frequencies.\<close>

lemma lfu_insert_fresh_freq_ok:
  assumes "lfu_freq_ok ops n c" "lfu_map ops c k = None" "1 \<le> n"
  shows "lfu_freq_ok ops n (lfu_insert ops wt k v c)"
proof -
  obtain e p where q: "pq_map ops (lfu_queue (lfu_insert ops wt k v c)) =
      (pq_map ops (lfu_queue c))(k \<mapsto> (e, p))"
      "p = (case pq_map ops (lfu_queue c) k of None \<Rightarrow> (False, 1) | Some x \<Rightarrow> snd (bump x))"
    using lfu_insert_queue by blast
  moreover have "pq_map ops (lfu_queue c) k = None" using assms(2) by (simp add: lfu_map_def)
  ultimately show ?thesis using assms(1,3) by (auto simp: lfu_freq_ok_def)
qed

lemma lfu_remove_spec:
  assumes "lfu_freq_ok ops n c"
  obtains c' where "lfu_remove ops k c = Inr (lfu_map ops c k, c')"
    "pq_map ops (lfu_queue c') = (pq_map ops (lfu_queue c))(k := None)"
    "lfu_total_weight c' =
       (case pq_map ops (lfu_queue c) k of
          None \<Rightarrow> lfu_total_weight c | Some x \<Rightarrow> lfu_total_weight c - ce_weight (fst x))"
    "lfu_dead_weight c' = lfu_dead_weight c"
proof -
  obtain old q where cp: "pq_change_priority ops k (True, 0) (lfu_queue c) = (old, q)"
    by (cases "pq_change_priority ops k (True, 0) (lfu_queue c)")
  have old: "old = map_option snd (pq_map ops (lfu_queue c) k)"
    using change_priority_old [of k "(True, 0)" "lfu_queue c"] cp by simp
  have mq: "pq_map ops q = (pq_map ops (lfu_queue c))
      (k := map_option (\<lambda>x. (fst x, (True, 0))) (pq_map ops (lfu_queue c) k))"
    using change_priority_map [of k "(True, 0)" "lfu_queue c"] cp by simp
  show thesis
  proof (cases "pq_map ops (lfu_queue c) k")
    case None
    show thesis
      by (rule that [of "c\<lparr>lfu_queue := q\<rparr>"])
        (use None old mq cp in \<open>simp_all add: lfu_remove_def lfu_map_def fun_upd_idem\<close>)
  next
    case (Some x)
    then have in_q: "pq_map ops q k = Some (fst x, (True, 0))" using mq by simp
    then have "pq_into_iter ops q \<noteq> []" by (metis list.set(1) empty_iff pq_map_iff)
    then obtain e p q' where pop: "pq_pop ops q = (Some (e, p), q')"
      using pop_empty [of q] by (cases "pq_pop ops q") (metis fst_conv not_None_eq surj_pair)
    from pop_max [of q e p] pop have e: "pq_map ops q (ce_key e) = Some (e, p)"
      "\<forall>x \<in> set (pq_into_iter ops q). prio_le (snd x) p"
      "pq_map ops q' = (pq_map ops q)(ce_key e := None)" by auto
    have "prio_le (True, 0) p" using e(2) in_q by (force simp: pq_map_iff)
    then have p: "p = (True, 0)" by (cases p) (auto simp: prio_le_def)
    have key: "ce_key e = k"
    proof (rule ccontr)
      assume "ce_key e \<noteq> k"
      then have "pq_map ops (lfu_queue c) (ce_key e) = Some (e, True, 0)" using e(1) mq p by simp
      with assms show False by (fastforce simp: lfu_freq_ok_def)
    qed
    have ex: "e = fst x" using e(1) key in_q by simp
    show thesis
      by (rule that [of "c\<lparr>lfu_queue := q', lfu_total_weight := lfu_total_weight c - ce_weight e\<rparr>"])
        (use Some old mq cp pop key ex e(3) in \<open>simp_all add: lfu_remove_def lfu_map_def\<close>)
  qed
qed

lemma lfu_remove_ok:
  assumes "lfu_freq_ok ops n c"
  obtains c' where "lfu_remove ops k c = Inr (lfu_map ops c k, c')"
    "lfu_map ops c' = (lfu_map ops c)(k := None)" "lfu_freq_ok ops n c'"
    "lfu_weight_ok ops c \<Longrightarrow> lfu_weight_ok ops c'" "lfu_dead_weight c' = lfu_dead_weight c"
proof -
  obtain c' where c': "lfu_remove ops k c = Inr (lfu_map ops c k, c')"
    "pq_map ops (lfu_queue c') = (pq_map ops (lfu_queue c))(k := None)"
    "lfu_total_weight c' =
       (case pq_map ops (lfu_queue c) k of
          None \<Rightarrow> lfu_total_weight c | Some x \<Rightarrow> lfu_total_weight c - ce_weight (fst x))"
    "lfu_dead_weight c' = lfu_dead_weight c"
    using lfu_remove_spec [OF assms] by blast
  have "lfu_map ops c' = (lfu_map ops c)(k := None)" "lfu_freq_ok ops n c'"
    using assms c'(2) by (auto simp: lfu_map_def lfu_freq_ok_def fun_eq_iff)
  moreover have "lfu_weight_ok ops c \<Longrightarrow> lfu_weight_ok ops c'"
    using c'(2,3) map_weight_remove [of "pq_map ops (lfu_queue c)" k]
    by (auto simp: lfu_weight_ok_def fun_upd_idem split: option.splits)
  ultimately show thesis using that c'(1,4) by blast
qed

end

section \<open>Eviction\<close>

lemma prio_le_trans: "prio_le p q \<Longrightarrow> prio_le q r \<Longrightarrow> prio_le p r"
  by (auto simp: prio_le_def)

text \<open>What is left of a queue after popping: a part of it, never with a larger priority than what went.\<close>

definition evicted_to ::
    "('k \<rightharpoonup> ('k, 'v) cache_entry \<times> priority) \<Rightarrow> ('k \<rightharpoonup> ('k, 'v) cache_entry \<times> priority) \<Rightarrow> bool" where
  "evicted_to m m' \<longleftrightarrow> m' \<subseteq>\<^sub>m m \<and>
     (\<forall>k x k' y. m k = Some x \<and> m' k = None \<and> m' k' = Some y \<longrightarrow> prio_le (snd y) (snd x))"

lemma evicted_to_refl [simp]: "evicted_to m m"
  unfolding evicted_to_def by (metis map_le_refl option.distinct(1))

lemma evicted_to_pop:
  assumes "m k = Some x" "\<And>k' y. m k' = Some y \<Longrightarrow> prio_le (snd y) (snd x)"
    and "evicted_to (m(k := None)) m'"
  shows "evicted_to m m'"
proof -
  have sub: "m' \<subseteq>\<^sub>m m(k := None)" using assms(3) by (simp add: evicted_to_def)
  then have sub': "m' \<subseteq>\<^sub>m m" by (auto simp: map_le_def split: if_splits)
  moreover have "prio_le (snd z) (snd y)"
    if "m k1 = Some y" "m' k1 = None" "m' k2 = Some z" for k1 y k2 z
  proof (cases "k1 = k")
    case True
    have "m k2 = Some z" using sub' that(3) by (metis domI map_le_def)
    with True that assms(1,2) show ?thesis by simp
  next
    case False
    with that assms(3) show ?thesis unfolding evicted_to_def by (metis fun_upd_other)
  qed
  ultimately show ?thesis unfolding evicted_to_def by blast
qed

text \<open>Every \<open>stale_period\<close> evictions the marks are turned into priorities.\<close>

definition after_stale_update ::
    "('k, 'v, 'q) pq_ops \<Rightarrow> u64 \<Rightarrow> 'q lfu_cache \<Rightarrow> 'k \<rightharpoonup> ('k, 'v) cache_entry \<times> priority" where
  "after_stale_update ops stale_period c =
     (if lfu_stale_counter c + 1 = stale_period
      then map_option (\<lambda>x. ((fst x)\<lparr>ce_will_stale := True\<rparr>, (ce_will_stale (fst x), snd (snd x))))
             \<circ> pq_map ops (lfu_queue c)
      else pq_map ops (lfu_queue c))"

context priority_queue
begin

lemma evict_loop_done:
  assumes "tot = map_weight (pq_map ops q)" "pq_len ops q < fuel" "dead \<le> max_weight"
  shows "\<exists>q' tot'. evict_loop ops fuel max_weight dead q tot ev = Evict_done (q', tot', ev + (tot - tot')) \<and>
    tot' = map_weight (pq_map ops q') \<and> tot' + dead \<le> max_weight \<and>
    evicted_to (pq_map ops q) (pq_map ops q')"
  using assms
proof (induction fuel arbitrary: q tot ev)
  case (Suc n)
  show ?case
  proof (cases "tot + dead \<le> max_weight")
    case True
    then have "evict_loop ops (Suc n) max_weight dead q tot ev = Evict_done (q, tot, ev)"
      by (subst evict_loop.simps) (simp add: leD)
    with True Suc.prems(1) show ?thesis by simp
  next
    case False
    have "pq_into_iter ops q \<noteq> []"
    proof
      assume "pq_into_iter ops q = []"
      then have "tot = 0" using Suc.prems(1) by (simp add: pq_map_def map_weight_def)
      with False Suc.prems(3) show False by simp
    qed
    then obtain e p q' where pop: "pq_pop ops q = (Some (e, p), q')"
      using pop_empty [of q] by (cases "pq_pop ops q") (metis fst_conv not_None_eq surj_pair)
    from pop_max [of q e p] pop have e: "pq_map ops q (ce_key e) = Some (e, p)"
      "\<forall>x \<in> set (pq_into_iter ops q). prio_le (snd x) p"
      "pq_map ops q' = (pq_map ops q)(ce_key e := None)" by auto
    have tot: "tot - ce_weight e = map_weight (pq_map ops q')"
      using map_weight_remove [OF finite_pq_map e(1)] Suc.prems(1) e(3) by simp
    have "pq_len ops q' < pq_len ops q"
      unfolding card_pq_map [symmetric] e(3) using e(1) by (intro psubset_card_mono) auto
    with Suc.IH [OF tot _ Suc.prems(3), of "ev + ce_weight e"] Suc.prems(2)
    obtain q2 tot2 where IH: "evict_loop ops n max_weight dead q' (tot - ce_weight e) (ev + ce_weight e) =
        Evict_done (q2, tot2, ev + ce_weight e + (tot - ce_weight e - tot2))"
      "tot2 = map_weight (pq_map ops q2)" "tot2 + dead \<le> max_weight"
      "evicted_to (pq_map ops q') (pq_map ops q2)" by auto
    have "evict_loop ops (Suc n) max_weight dead q tot ev = Evict_done (q2, tot2, ev + (tot - tot2))"
      using False pop IH(1) by (subst evict_loop.simps) (simp add: not_le)
    moreover have "evicted_to (pq_map ops q) (pq_map ops q2)"
      by (rule evicted_to_pop [of _ "ce_key e" "(e, p)"])
        (use e IH(4) in \<open>auto simp: pq_map_iff\<close>)
    ultimately show ?thesis using IH(2,3) by blast
  qed
qed simp

lemma after_stale_update_map:
  "pq_map ops (if lfu_stale_counter c + 1 = stale_period
     then pq_iter_mut ops (\<lambda>(e, p). (e\<lparr>ce_will_stale := True\<rparr>, (ce_will_stale e, snd p))) (lfu_queue c)
     else lfu_queue c) = after_stale_update ops stale_period c"
  by (simp add: after_stale_update_def iter_mut_map case_prod_unfold)

lemma map_weight_after_stale_update:
  "map_weight (after_stale_update ops stale_period c) = map_weight (pq_map ops (lfu_queue c))"
  by (rule map_weight_same) (auto simp: after_stale_update_def split: if_splits)

text \<open>The dead weight of the entries that are in the cache when eviction starts.\<close>

lemma evict_done:
  assumes "lfu_weight_ok ops c"
    and dead: "lfu_dead_weight c \<Longrightarrow> of_nat (lfu_len ops c) * (entry_size + 40) \<le> max_weight"
  shows "\<exists>stats c'. evict_with_period ops entry_size max_weight stale_period c = Evict_done (stats, c') \<and>
    lfu_weight_ok ops c' \<and> lfu_dead_weight c' = lfu_dead_weight c \<and>
    (if lfu_total_weight c \<le> max_weight then stats = None \<and> c' = c
     else (\<exists>s. stats = Some s \<and> new_weight s = lfu_total_weight c' \<and> new_count s = lfu_len ops c' \<and>
             evicted_weight s = lfu_total_weight c - lfu_total_weight c') \<and>
       lfu_total_weight c' + (if lfu_dead_weight c then of_nat (lfu_len ops c) * (entry_size + 40) else 0)
         \<le> max_weight \<and>
       evicted_to (after_stale_update ops stale_period c) (pq_map ops (lfu_queue c')))"
proof (cases "lfu_total_weight c \<le> max_weight")
  case True
  with assms(1) show ?thesis by (auto simp: evict_with_period_def)
next
  case False
  define q where "q = (if lfu_stale_counter c + 1 = stale_period
     then pq_iter_mut ops (\<lambda>(e, p). (e\<lparr>ce_will_stale := True\<rparr>, (ce_will_stale e, snd p))) (lfu_queue c)
     else lfu_queue c)"
  define counter where "counter = (if lfu_stale_counter c + 1 = stale_period then 0 else lfu_stale_counter c + 1)"
  define dead' where "dead' = (if lfu_dead_weight c then of_nat (pq_len ops q) * (entry_size + 40) else 0)"
  have mq: "pq_map ops q = after_stale_update ops stale_period c"
    unfolding q_def by (rule after_stale_update_map)
  have tot: "lfu_total_weight c = map_weight (pq_map ops q)"
    using assms(1) by (simp add: mq map_weight_after_stale_update lfu_weight_ok_def)
  have "dom (pq_map ops q) = dom (pq_map ops (lfu_queue c))"
    by (auto simp: mq after_stale_update_def dom_def)
  then have len: "pq_len ops q = lfu_len ops c" by (simp add: lfu_len_def card_pq_map [symmetric])
  have le: "dead' \<le> max_weight" using dead by (simp add: dead'_def len)
  from evict_loop_done [OF tot _ le, of "Suc (pq_len ops q)" 0]
  obtain q' tot' where loop: "evict_loop ops (Suc (pq_len ops q)) max_weight dead' q (lfu_total_weight c) 0 =
      Evict_done (q', tot', lfu_total_weight c - tot')"
    "tot' = map_weight (pq_map ops q')" "tot' + dead' \<le> max_weight"
    "evicted_to (pq_map ops q) (pq_map ops q')" by auto
  have "evict_with_period ops entry_size max_weight stale_period c = Evict_done
     (Some \<lparr>new_weight = tot', evicted_weight = lfu_total_weight c - tot', new_count = pq_len ops q',
        evicted_count = pq_len ops q - pq_len ops q', stale_update = (counter = 0)\<rparr>,
      c\<lparr>lfu_queue := q', lfu_total_weight := tot', lfu_stale_counter := counter\<rparr>)"
    using False loop(1)
    by (simp add: evict_with_period_def Let_def q_def counter_def dead'_def split: if_splits)
  with False loop(2,3,4) show ?thesis
    by (auto simp: lfu_weight_ok_def mq len dead'_def lfu_len_def)
qed

end

section \<open>A queue on lists\<close>

text \<open>
  The items in a list, an earlier one hiding later ones of the same key; the item of the largest
  priority is found by a search.
\<close>

type_synonym ('k, 'v) list_queue = "(('k, 'v) cache_entry \<times> priority) list"

abbreviation item_key :: "('k, 'v) cache_entry \<times> priority \<Rightarrow> 'k" where
  "item_key x \<equiv> ce_key (fst x)"

fun list_items :: "('k, 'v) list_queue \<Rightarrow> ('k, 'v) list_queue" where
  "list_items [] = []"
| "list_items (x # xs) = x # filter (\<lambda>y. item_key y \<noteq> item_key x) (list_items xs)"

definition list_update_key ::
    "'k \<Rightarrow> (('k, 'v) cache_entry \<times> priority \<Rightarrow> ('k, 'v) cache_entry \<times> priority) \<Rightarrow>
     ('k, 'v) list_queue \<Rightarrow> ('k, 'v) list_queue" where
  "list_update_key k g q = map (\<lambda>x. if item_key x = k then g x else x) q"

definition list_push :: "('k, 'v) cache_entry \<Rightarrow> priority \<Rightarrow> ('k, 'v) list_queue \<Rightarrow> ('k, 'v) list_queue" where
  "list_push e p q =
     (if find (\<lambda>x. item_key x = ce_key e) q = None then q @ [(e, p)]
      else list_update_key (ce_key e) (\<lambda>x. (fst x, p)) q)"

fun list_best :: "('k, 'v) list_queue \<Rightarrow> (('k, 'v) cache_entry \<times> priority) option" where
  "list_best [] = None"
| "list_best (x # xs) =
     (case list_best xs of
        None \<Rightarrow> Some x
      | Some y \<Rightarrow> if prio_le (snd y) (snd x) then Some x else Some y)"

definition list_pq :: "('k, 'v, ('k, 'v) list_queue) pq_ops" where
  "list_pq = \<lparr>
     pq_new = [],
     pq_push = list_push,
     pq_change_priority = (\<lambda>k p q.
       (map_option snd (find (\<lambda>x. item_key x = k) q), list_update_key k (\<lambda>x. (fst x, p)) q)),
     pq_change_priority_by = (\<lambda>k f. list_update_key k (\<lambda>x. (fst x, f (snd x)))),
     pq_get = (\<lambda>k. find (\<lambda>x. item_key x = k)),
     pq_modify = (\<lambda>k g. list_update_key k (\<lambda>x. (g (fst x), snd x))),
     pq_pop = (\<lambda>q. case list_best (list_items q) of
                 None \<Rightarrow> (None, q)
               | Some x \<Rightarrow> (Some x, filter (\<lambda>y. item_key y \<noteq> item_key x) q)),
     pq_len = (\<lambda>q. length (list_items q)),
     pq_iter_mut = map,
     pq_extend = fold (\<lambda>(e, p). list_push e p),
     pq_into_iter = list_items \<rparr>"

definition list_map :: "('k, 'v) list_queue \<Rightarrow> 'k \<rightharpoonup> ('k, 'v) cache_entry \<times> priority" where
  "list_map q = map_of (map (\<lambda>x. (item_key x, x)) q)"

lemma list_map_simps [simp]:
  "list_map [] = Map.empty" "list_map (x # q) = (list_map q)(item_key x \<mapsto> x)"
  by (simp_all add: list_map_def)

lemma list_map_key: "list_map q k = Some x \<Longrightarrow> x \<in> set q \<and> item_key x = k"
  by (induction q) (auto split: if_splits)

lemma list_map_filter:
  "list_map (filter (\<lambda>y. item_key y \<noteq> k) q) = (list_map q)(k := None)"
  by (induction q) (auto simp: fun_eq_iff)

lemma list_map_items: "list_map (list_items q) = list_map q"
  by (induction q) (auto simp: list_map_filter fun_eq_iff)

lemma pq_map_list: "pq_map list_pq q = list_map q"
  unfolding pq_map_def list_map_items [of q, symmetric] by (simp add: list_pq_def list_map_def)

lemma distinct_list_items: "distinct (map item_key (list_items q))"
  by (induction q) (auto simp: distinct_map_filter)

lemma list_map_map:
  "(\<And>x. item_key (h x) = item_key x) \<Longrightarrow> list_map (map h q) = map_option h \<circ> list_map q"
  by (induction q) (auto simp: fun_eq_iff)

lemma list_map_update_key:
  assumes "\<And>x. item_key (g x) = item_key x"
  shows "list_map (list_update_key k g q) = (list_map q)(k := map_option g (list_map q k))"
  unfolding list_update_key_def
  by (subst list_map_map) (auto simp: assms fun_eq_iff map_option_case split: option.splits dest: list_map_key)

lemma find_list_map: "find (\<lambda>x. item_key x = k) q = list_map q k"
  by (induction q) auto

lemma list_map_append: "list_map (q @ r) = list_map r ++ list_map q"
  by (simp add: list_map_def)

lemma list_map_push:
  "list_map (list_push e p q) =
     (list_map q)(ce_key e \<mapsto> (case list_map q (ce_key e) of None \<Rightarrow> (e, p) | Some x \<Rightarrow> (fst x, p)))"
  by (auto simp: list_push_def find_list_map list_map_append list_map_update_key fun_eq_iff
      map_add_def split: option.splits)

lemma list_best_max:
  "list_best q = Some x \<Longrightarrow> x \<in> set q \<and> (\<forall>y \<in> set q. prio_le (snd y) (snd x))"
proof (induction q arbitrary: x)
  case (Cons a q)
  show ?case
  proof (cases "list_best q")
    case None
    then have "q = []" by (cases q) (auto split: option.splits if_splits)
    with Cons.prems show ?thesis by (auto simp: prio_le_def)
  next
    case (Some b)
    note best = Cons.IH [OF Some]
    show ?thesis
    proof (cases "prio_le (snd b) (snd a)")
      case True
      with Some Cons.prems have "x = a" by simp
      with best True show ?thesis using prio_le_trans [of _ "snd b" "snd a"] by (auto simp: prio_le_def)
    next
      case False
      with Some Cons.prems have x: "x = b" by simp
      have "prio_le (snd a) (snd b)" using False by (auto simp: prio_le_def)
      with best x show ?thesis by auto
    qed
  qed
qed simp

lemma list_best_None: "list_best q = None \<longleftrightarrow> q = []"
  by (cases q) (auto split: option.splits if_splits)

lemma list_map_extend_old:
  "k \<notin> item_key ` set items \<Longrightarrow> list_map (fold (\<lambda>(e, p). list_push e p) items q) k = list_map q k"
  by (induction items arbitrary: q) (auto simp: list_map_push)

lemma list_map_extend:
  "distinct (map item_key items) \<Longrightarrow> x \<in> set items \<Longrightarrow>
   list_map (fold (\<lambda>(e, p). list_push e p) items q) (item_key x) =
     Some (case list_map q (item_key x) of None \<Rightarrow> x | Some y \<Rightarrow> (fst y, snd x))"
proof (induction items arbitrary: q)
  case (Cons a items)
  show ?case
  proof (cases "x = a")
    case True
    then have "item_key x \<notin> item_key ` set items" using Cons.prems by auto
    with True show ?thesis
      by (cases a) (auto simp: list_map_extend_old list_map_push split: option.splits)
  next
    case False
    then have x: "x \<in> set items" using Cons.prems by simp
    have "item_key a \<notin> item_key ` set items" using Cons.prems(1) by simp
    moreover have "item_key x \<in> item_key ` set items" using x by (rule imageI)
    ultimately have "item_key x \<noteq> item_key a" by metis
    note x this
    with Cons show ?thesis by (cases a) (auto simp: list_map_push)
  qed
qed simp

lemma list_pq_queue: "priority_queue list_pq"
proof
  fix q :: "('a, 'b) list_queue" and e p
  assume "fst (pq_pop list_pq q) = Some (e, p)"
  then have best: "list_best (list_items q) = Some (e, p)"
    and rest: "snd (pq_pop list_pq q) = filter (\<lambda>y. item_key y \<noteq> ce_key e) q"
    by (auto simp: list_pq_def split: option.splits)
  have "(e, p) \<in> set (list_items q)" using list_best_max [OF best] by simp
  then have "list_map q (ce_key e) = Some (e, p)"
    using distinct_list_items [of q] list_map_items [of q]
    by (metis (no_types, lifting) fst_conv image_eqI list.set_map list_map_def map_of_eq_Some_iff map_map
        comp_def map_ext)
  then show "pq_map list_pq q (ce_key e) = Some (e, p) \<and>
      (\<forall>x \<in> set (pq_into_iter list_pq q). prio_le (snd x) p) \<and>
      pq_map list_pq (snd (pq_pop list_pq q)) = (pq_map list_pq q)(ce_key e := None)"
    using list_best_max [OF best] by (simp add: pq_map_list rest list_map_filter) (simp add: list_pq_def)
next
  fix h :: "('a, 'b) cache_entry \<times> priority \<Rightarrow> ('a, 'b) cache_entry \<times> priority"
    and q :: "('a, 'b) list_queue"
  assume "\<And>x. item_key (h x) = item_key x"
  from list_map_map [of h, OF this]
  show "pq_map list_pq (pq_iter_mut list_pq h q) = map_option h \<circ> pq_map list_pq q"
    unfolding pq_map_list by (simp add: list_pq_def)
next
  fix items q :: "('a, 'b) list_queue" and x
  assume d: "distinct (map item_key items)" "x \<in> set items"
  have ext: "pq_map list_pq (pq_extend list_pq items q) (item_key x) =
      Some (case list_map q (item_key x) of None \<Rightarrow> x | Some y \<Rightarrow> (fst y, snd x))"
    using list_map_extend [OF d, of q] unfolding pq_map_list by (simp add: list_pq_def)
  show "pq_map list_pq (pq_extend list_pq items q) (item_key x) = Some x"
    if "pq_map list_pq q (item_key x) = None"
    using ext that by (simp add: pq_map_list)
  show "\<exists>e. pq_map list_pq (pq_extend list_pq items q) (item_key x) = Some (e, snd x) \<and> e \<in> {fst x, fst y}"
    if "pq_map list_pq q (item_key x) = Some y" for y
    using ext that by (simp add: pq_map_list)
qed (auto simp: pq_map_list, auto simp: list_pq_def distinct_list_items find_list_map
    list_map_update_key list_map_push list_best_None list_map_extend_old split: option.splits)

interpretation lq: priority_queue list_pq
  by (rule list_pq_queue)

section \<open>The cache is correct\<close>

text \<open>
  C14. The cache behaves as a map with a weight account: a lookup returns the value inserted last,
  an insertion changes one key, a removal returns and deletes the value and its assertion that the
  popped entry is the requested one never fails. All three keep the recorded total equal to the
  sum of the weights, and no frequency overflows as long as the number of accesses fits in 64 bits.
\<close>

theorem lfu_cache_is_map:
  assumes "priority_queue ops" "lfu_weight_ok ops c" "lfu_freq_ok ops n c" "n < max64"
  shows "(fst (lfu_get ops k c) = lfu_map ops c k \<and> lfu_map ops (snd (lfu_get ops k c)) = lfu_map ops c \<and>
      lfu_weight_ok ops (snd (lfu_get ops k c)) \<and> lfu_freq_ok ops (Suc n) (snd (lfu_get ops k c))) \<and>
    (lfu_map ops (lfu_insert ops wt k v c) = (lfu_map ops c)(k \<mapsto> v) \<and>
      lfu_weight_ok ops (lfu_insert ops wt k v c) \<and> lfu_freq_ok ops (Suc n) (lfu_insert ops wt k v c)) \<and>
    (\<exists>c'. lfu_remove ops k c = Inr (lfu_map ops c k, c') \<and>
      lfu_map ops c' = (lfu_map ops c)(k := None) \<and> lfu_weight_ok ops c' \<and> lfu_freq_ok ops n c')"
proof (intro conjI)
  note q = assms(1)
  have get: "snd (lfu_get ops k c) = snd (lfu_get_mut ops k c)"
    by (simp add: lfu_get_def case_prod_beta)
  show "lfu_weight_ok ops (snd (lfu_get ops k c))" "lfu_freq_ok ops (Suc n) (snd (lfu_get ops k c))"
    unfolding get
    by (rule priority_queue.get_mut_weight_ok [OF q assms(2)]
        priority_queue.get_mut_freq_ok [OF q assms(3,4)])+
  show "\<exists>c'. lfu_remove ops k c = Inr (lfu_map ops c k, c') \<and>
      lfu_map ops c' = (lfu_map ops c)(k := None) \<and> lfu_weight_ok ops c' \<and> lfu_freq_ok ops n c'"
    using priority_queue.lfu_remove_ok [OF q assms(3), of k] assms(2) by blast
qed (rule priority_queue.lfu_get_map priority_queue.lfu_insert_map priority_queue.lfu_insert_weight_ok
    priority_queue.lfu_insert_freq_ok assms)+

theorem lfu_cache_is_map_witness:
  "lfu_map list_pq (lfu_insert list_pq (\<lambda>k v. v) ''panda'' 2 (lfu_new list_pq False)) ''panda'' = Some (2 :: u64)"
  using lfu_cache_is_map [OF list_pq_queue lq.lfu_new_facts(1) lq.lfu_new_facts(2),
      of 1 "''panda''" False "\<lambda>k v. v" "2 :: u64"]
  by simp

text \<open>
  C15. Eviction terminates without panicking whenever the dead weight of the entries fits in the
  bound, in particular always when dead weight is not counted. Afterwards the total weight plus the
  dead weight respects the bound and the account is still exact; nothing happens when the bound was
  respected already; the entries that stay are a part of the cache, and no entry that stays is
  staler, or as stale and less frequently used, than one that went.
\<close>

theorem evict_respects_bound:
  assumes "priority_queue ops" "lfu_weight_ok ops c"
    and "lfu_dead_weight c \<Longrightarrow> of_nat (lfu_len ops c) * (entry_size + 40) \<le> max_weight"
  shows "\<exists>stats c'. evict_with_period ops entry_size max_weight stale_period c = Evict_done (stats, c') \<and>
    lfu_weight_ok ops c' \<and> lfu_dead_weight c' = lfu_dead_weight c \<and>
    (if lfu_total_weight c \<le> max_weight then stats = None \<and> c' = c
     else (\<exists>s. stats = Some s \<and> new_weight s = lfu_total_weight c' \<and> new_count s = lfu_len ops c' \<and>
             evicted_weight s = lfu_total_weight c - lfu_total_weight c') \<and>
       lfu_total_weight c' + (if lfu_dead_weight c then of_nat (lfu_len ops c) * (entry_size + 40) else 0)
         \<le> max_weight \<and>
       evicted_to (after_stale_update ops stale_period c) (pq_map ops (lfu_queue c')))"
  using assms(3) by (rule priority_queue.evict_done [OF assms(1,2)])

theorem evict_respects_bound_witness:
  "\<exists>stats c'. evict_with_period list_pq 0 1 100
      (lfu_insert list_pq (\<lambda>k v. v) ''cow'' 1 (lfu_insert list_pq (\<lambda>k v. v) ''panda'' 2 (lfu_new list_pq False)))
    = Evict_done (stats, c') \<and> lfu_total_weight c' \<le> 1"
proof -
  let ?c = "lfu_insert list_pq (\<lambda>k v. v) ''cow'' 1
    (lfu_insert list_pq (\<lambda>k v. v) ''panda'' (2 :: u64) (lfu_new list_pq False))"
  have w: "lfu_weight_ok list_pq ?c" by (intro lq.lfu_insert_weight_ok lq.lfu_new_facts)
  have d: "\<not> lfu_dead_weight ?c" by code_simp
  from evict_respects_bound [OF list_pq_queue w, of 0 1 100] d show ?thesis
    by (auto split: if_splits)
qed

text \<open>
  C34. Extending the cache adds entries without adding their weight: the account is exact afterwards
  only if what was added weighs nothing, and eviction does not see the added weight.
\<close>

theorem lfu_extend_loses_weight:
  assumes "priority_queue ops" "lfu_weight_ok ops c" "lfu_map ops c (ce_key e) = None"
    and "lfu_total_weight c \<le> max_weight"
  shows "(lfu_weight_ok ops (lfu_extend ops [(e, p)] c) \<longleftrightarrow> ce_weight e = 0) \<and>
    evict_with_period ops entry_size max_weight stale_period (lfu_extend ops [(e, p)] c) =
      Evict_done (None, lfu_extend ops [(e, p)] c)"
proof -
  have fresh: "pq_map ops (lfu_queue c) (ce_key e) = None" using assms(3) by (simp add: lfu_map_def)
  have "pq_map ops (lfu_queue (lfu_extend ops [(e, p)] c)) = (pq_map ops (lfu_queue c))(ce_key e \<mapsto> (e, p))"
  proof
    fix k
    show "pq_map ops (lfu_queue (lfu_extend ops [(e, p)] c)) k =
        ((pq_map ops (lfu_queue c))(ce_key e \<mapsto> (e, p))) k"
      using priority_queue.extend_fresh [OF assms(1), of "[(e, p)]" "(e, p)" "lfu_queue c"] fresh
        priority_queue.extend_old [OF assms(1), of k "[(e, p)]" "lfu_queue c"]
      by (simp add: lfu_extend_def)
  qed
  then have "map_weight (pq_map ops (lfu_queue (lfu_extend ops [(e, p)] c))) = lfu_total_weight c + ce_weight e"
    using map_weight_insert [OF priority_queue.finite_pq_map [OF assms(1)] fresh, of "(e, p)"] assms(2)
    by (simp add: lfu_weight_ok_def)
  moreover have "lfu_total_weight (lfu_extend ops [(e, p)] c) = lfu_total_weight c"
    by (simp add: lfu_extend_def)
  ultimately show ?thesis using assms(4) by (simp add: lfu_weight_ok_def evict_with_period_def)
qed

theorem lfu_extend_loses_weight_witness:
  "\<not> lfu_weight_ok list_pq (lfu_extend list_pq
      [(\<lparr>ce_weight = 7, ce_key = ''cow'', ce_value = (), ce_will_stale = False\<rparr>, (False, 1))] (lfu_new list_pq False))"
  using lfu_extend_loses_weight [OF list_pq_queue lq.lfu_new_facts(1) [of False],
      of "\<lparr>ce_weight = 7, ce_key = ''cow'', ce_value = (), ce_will_stale = False\<rparr>" 0 "(False, 1)"]
  by (simp add: lq.lfu_new_facts(3)) (simp add: lfu_new_def)

end
