(* ===== verification/Store_Types.thy ===== *)
theory Store_Types
  imports Store_Value
begin

text \<open>
  The vocabulary of the store, \<open>graph/src/components/store/mod.rs\<close>: filters and queries for entities,
  change events and their throttled delivery, and the operations on entities that the mappings
  accumulate and that are turned into modifications of the store.
\<close>

type_synonym block_number = int
type_synonym deployment_hash = string

definition BLOCK_NUMBER_MAX :: block_number where
  "BLOCK_NUMBER_MAX = 2147483647"

section \<open>Filters and queries\<close>

datatype entity_filter =
    F_And "entity_filter list"
  | F_Or "entity_filter list"
  | F_Equal string store_value
  | F_Not string store_value
  | F_GreaterThan string store_value
  | F_LessThan string store_value
  | F_GreaterOrEqual string store_value
  | F_LessOrEqual string store_value
  | F_In string "store_value list"
  | F_NotIn string "store_value list"
  | F_Contains string store_value
  | F_ContainsNoCase string store_value
  | F_NotContains string store_value
  | F_NotContainsNoCase string store_value
  | F_StartsWith string store_value
  | F_StartsWithNoCase string store_value
  | F_NotStartsWith string store_value
  | F_NotStartsWithNoCase string store_value
  | F_EndsWith string store_value
  | F_EndsWithNoCase string store_value
  | F_NotEndsWith string store_value
  | F_NotEndsWithNoCase string store_value
  | F_ChangeBlockGte block_number
  | F_Child string entity_type entity_filter bool

definition and_maybe :: "entity_filter \<Rightarrow> entity_filter option \<Rightarrow> entity_filter" where
  "and_maybe self other =
     (case other of
        Some f2 \<Rightarrow>
          (case self of
             F_And fs1 \<Rightarrow> (case f2 of F_And fs2 \<Rightarrow> F_And (fs1 @ fs2) | _ \<Rightarrow> F_And (fs1 @ [f2]))
           | _ \<Rightarrow> (case f2 of F_And fs2 \<Rightarrow> F_And (fs2 @ [self]) | _ \<Rightarrow> F_And [self, f2]))
      | None \<Rightarrow> self)"

record order_by_child_info =
  sort_by_attribute :: string
  join_attribute :: string
  ob_derived :: bool

datatype order_by_child =
    OC_Object order_by_child_info entity_type
  | OC_Interface order_by_child_info "entity_type list"

datatype entity_order =
    Order_Ascending string value_type
  | Order_Descending string value_type
  | Order_ChildAscending order_by_child
  | Order_ChildDescending order_by_child
  | Order_Default
  | Order_Unordered

record entity_range =
  range_first :: "u32 option"
  range_skip :: u32

definition entity_range_first :: "u32 \<Rightarrow> entity_range" where
  "entity_range_first n = \<lparr> range_first = Some n, range_skip = 0 \<rparr>"

datatype window_attribute = WA_Scalar string | WA_List string

fun window_attribute_name :: "window_attribute \<Rightarrow> string" where
  "window_attribute_name (WA_Scalar name) = name"
| "window_attribute_name (WA_List name) = name"

datatype parent_link = PL_List "string list list" | PL_Scalar "string list"

datatype child_multiplicity = CM_Single | CM_Many

datatype entity_link = EL_Direct window_attribute child_multiplicity | EL_Parent entity_type parent_link

text \<open>The selected columns; a \<open>BTreeSet\<close> is a set, since its order is not used here.\<close>

datatype attribute_names = AN_All | AN_Select "string set"

definition is_meta_field :: "string \<Rightarrow> bool" where
  "is_meta_field field_name \<longleftrightarrow> take 2 field_name = ''__''"

fun attribute_names_insert :: "attribute_names \<Rightarrow> string \<Rightarrow> attribute_names" where
  "attribute_names_insert AN_All column_name = AN_Select {column_name}"
| "attribute_names_insert (AN_Select s) column_name = AN_Select (insert column_name s)"

definition attribute_names_update :: "attribute_names \<Rightarrow> string \<Rightarrow> attribute_names" where
  "attribute_names_update names field_name =
     (if is_meta_field field_name then names else attribute_names_insert names field_name)"

definition attribute_names_add_str :: "attribute_names \<Rightarrow> string \<Rightarrow> attribute_names" where
  "attribute_names_add_str names field_name =
     (if is_meta_field field_name then names else attribute_names_insert names field_name)"

text \<open>\<^term>\<open>None\<close> is the \<open>unreachable!()\<close> branch.\<close>

fun attribute_names_extend :: "attribute_names \<Rightarrow> attribute_names \<Rightarrow> attribute_names option" where
  "attribute_names_extend AN_All AN_All = Some AN_All"
| "attribute_names_extend AN_All (AN_Select b) = Some (AN_Select b)"
| "attribute_names_extend (AN_Select a) AN_All = None"
| "attribute_names_extend (AN_Select a) (AN_Select b) = Some (AN_Select (a \<union> b))"

record entity_window =
  ew_child_type :: entity_type
  ew_ids :: "string list"
  ew_link :: entity_link
  ew_column_names :: attribute_names

datatype entity_collection =
    EC_All "(entity_type \<times> attribute_names) list"
  | EC_Window "entity_window list"

fun window_columns ::
    "entity_window list \<Rightarrow> (entity_type, attribute_names) btree_map \<Rightarrow>
     (entity_type, attribute_names) btree_map option" where
  "window_columns [] m = Some m"
| "window_columns (w # ws) m =
     (case map_of m (ew_child_type w) of
        Some names \<Rightarrow>
          (case attribute_names_extend names (ew_column_names w) of
             None \<Rightarrow> None
           | Some names' \<Rightarrow> window_columns ws (bt_insert (ew_child_type w) names' m))
      | None \<Rightarrow> window_columns ws (bt_insert (ew_child_type w) (ew_column_names w) m))"

fun entity_types_and_column_names ::
    "entity_collection \<Rightarrow> (entity_type, attribute_names) btree_map option" where
  "entity_types_and_column_names (EC_All pairs) = Some (bt_from_iter pairs)"
| "entity_types_and_column_names (EC_Window windows) = window_columns windows []"

record entity_query =
  eq_subgraph_id :: deployment_hash
  eq_block :: block_number
  eq_collection :: entity_collection
  eq_filter :: "entity_filter option"
  eq_order :: entity_order
  eq_range :: entity_range
  eq_query_id :: "string option"
  eq_trace :: bool

definition entity_query_new :: "deployment_hash \<Rightarrow> block_number \<Rightarrow> entity_collection \<Rightarrow> entity_query" where
  "entity_query_new subgraph_id block collection =
     \<lparr> eq_subgraph_id = subgraph_id, eq_block = block, eq_collection = collection, eq_filter = None,
       eq_order = Order_Default, eq_range = entity_range_first 100, eq_query_id = None, eq_trace = False \<rparr>"

definition entity_query_filter :: "entity_query \<Rightarrow> entity_filter \<Rightarrow> entity_query" where
  "entity_query_filter q f = q\<lparr>eq_filter := Some f\<rparr>"

definition entity_query_first :: "entity_query \<Rightarrow> u32 \<Rightarrow> entity_query" where
  "entity_query_first q n = q\<lparr>eq_range := (eq_range q)\<lparr>range_first := Some n\<rparr>\<rparr>"

definition entity_query_skip :: "entity_query \<Rightarrow> u32 \<Rightarrow> entity_query" where
  "entity_query_skip q n = q\<lparr>eq_range := (eq_range q)\<lparr>range_skip := n\<rparr>\<rparr>"

definition simplify :: "entity_query \<Rightarrow> entity_query" where
  "simplify q =
     (case eq_collection q of
        EC_Window [window] \<Rightarrow>
          (case (ew_ids window, ew_link window) of
             ([i], EL_Direct attribute _) \<Rightarrow>
               (let f = (case attribute of
                           WA_Scalar name \<Rightarrow> F_Equal name (V_String i)
                         | WA_List name \<Rightarrow> F_Contains name (V_List [V_String i]))
                in q\<lparr>eq_filter := Some (and_maybe f (eq_filter q)),
                     eq_collection := EC_All [(ew_child_type window, ew_column_names window)]\<rparr>)
           | _ \<Rightarrow> q)
      | _ \<Rightarrow> q)"

section \<open>Change events\<close>

datatype change_operation = Change_Set | Change_Removed

datatype entity_change =
    Change_Data deployment_hash entity_type
  | Change_Assignment deployment_hash int change_operation

datatype subscription_filter = SF_Entities deployment_hash entity_type | SF_Assignment

fun subscription_matches :: "subscription_filter \<Rightarrow> entity_change \<Rightarrow> bool" where
  "subscription_matches (SF_Entities eid etype) (Change_Data subgraph_id entity_type) \<longleftrightarrow>
     subgraph_id = eid \<and> entity_type = etype"
| "subscription_matches SF_Assignment (Change_Assignment _ _ _) \<longleftrightarrow> True"
| "subscription_matches _ _ \<longleftrightarrow> False"

definition change_for_data :: "deployment_hash \<Rightarrow> entity_key \<Rightarrow> entity_change" where
  "change_for_data subgraph_id key = Change_Data subgraph_id (key_entity_type key)"

fun as_filter :: "entity_change \<Rightarrow> subscription_filter" where
  "as_filter (Change_Data subgraph_id entity_type) = SF_Entities subgraph_id entity_type"
| "as_filter (Change_Assignment _ _ _) = SF_Assignment"

record store_event =
  se_tag :: nat
  se_changes :: "entity_change set"

text \<open>The tags come from a global counter, which is passed along.\<close>

definition store_event_new :: "entity_change list \<Rightarrow> nat \<Rightarrow> store_event \<times> nat" where
  "store_event_new changes next_tag = (\<lparr> se_tag = next_tag, se_changes = set changes \<rparr>, next_tag + 1)"

definition store_event_extend :: "store_event \<Rightarrow> store_event \<Rightarrow> store_event" where
  "store_event_extend ev other = ev\<lparr>se_changes := se_changes ev \<union> se_changes other\<rparr>"

definition store_event_matches :: "store_event \<Rightarrow> subscription_filter set \<Rightarrow> bool" where
  "store_event_matches ev filters \<longleftrightarrow>
     (\<exists>change \<in> se_changes ev. \<exists>filter \<in> filters. subscription_matches filter change)"

definition store_event_accumulate :: "store_event option \<Rightarrow> store_event \<Rightarrow> store_event option" where
  "store_event_accumulate ev1 ev2 =
     (case ev1 of
        Some e \<Rightarrow> Some (e\<lparr>se_changes := se_changes e \<union> se_changes ev2\<rparr>)
      | None \<Rightarrow> Some ev2)"

text \<open>
  The throttled stream. What one poll of the source can answer, the state the closure captures, and
  the poll of the closure: \<open>timer\<close> says whether the delay has elapsed, the list holds the answers the
  source gives during this poll, and a source that has nothing more is not ready.
\<close>

datatype source_poll = Src_NotReady | Src_End | Src_Event store_event | Src_Err

datatype stream_poll = Poll_NotReady | Poll_Ready "store_event option" | Poll_Err

record throttle =
  th_pending :: "store_event option"
  th_had_err :: bool

fun throttle_loop :: "bool \<Rightarrow> source_poll list \<Rightarrow> throttle \<Rightarrow> stream_poll \<times> throttle \<times> source_poll list" where
  "throttle_loop should_send [] st =
     (if should_send \<and> th_pending st \<noteq> None
      then (Poll_Ready (th_pending st), st\<lparr>th_pending := None\<rparr>, [])
      else (Poll_NotReady, st, []))"
| "throttle_loop should_send (Src_NotReady # src) st =
     (if should_send \<and> th_pending st \<noteq> None
      then (Poll_Ready (th_pending st), st\<lparr>th_pending := None\<rparr>, src)
      else (Poll_NotReady, st, src))"
| "throttle_loop should_send (Src_End # src) st =
     (Poll_Ready (th_pending st), st\<lparr>th_pending := None\<rparr>, src)"
| "throttle_loop should_send (Src_Event ev # src) st =
     throttle_loop should_send src (st\<lparr>th_pending := store_event_accumulate (th_pending st) ev\<rparr>)"
| "throttle_loop should_send (Src_Err # src) st =
     (if th_pending st \<noteq> None
      then (Poll_Ready (th_pending st), st\<lparr>th_pending := None, th_had_err := True\<rparr>, src)
      else (Poll_Err, st, src))"

fun source_poll_direct :: "source_poll list \<Rightarrow> stream_poll \<times> source_poll list" where
  "source_poll_direct [] = (Poll_NotReady, [])"
| "source_poll_direct (Src_NotReady # src) = (Poll_NotReady, src)"
| "source_poll_direct (Src_End # src) = (Poll_Ready None, src)"
| "source_poll_direct (Src_Event ev # src) = (Poll_Ready (Some ev), src)"
| "source_poll_direct (Src_Err # src) = (Poll_Err, src)"

definition throttle_poll ::
    "bool \<Rightarrow> bool \<Rightarrow> source_poll list \<Rightarrow> throttle \<Rightarrow> stream_poll \<times> throttle \<times> source_poll list" where
  "throttle_poll synced timer src st =
     (if th_had_err st then (Poll_Err, st\<lparr>th_had_err := False\<rparr>, src)
      else if synced then (let (r, src') = source_poll_direct src in (r, st, src'))
      else throttle_loop timer src st)"

section \<open>Operations on entities\<close>

datatype entity_operation = Op_Set entity_key entity | Op_Remove entity_key

datatype entity_modification =
    Mod_Insert entity_key entity
  | Mod_Overwrite entity_key entity
  | Mod_Remove entity_key

fun mod_entity_ref :: "entity_modification \<Rightarrow> entity_key" where
  "mod_entity_ref (Mod_Insert key _) = key"
| "mod_entity_ref (Mod_Overwrite key _) = key"
| "mod_entity_ref (Mod_Remove key) = key"

fun mod_entity :: "entity_modification \<Rightarrow> entity option" where
  "mod_entity (Mod_Insert _ data) = Some data"
| "mod_entity (Mod_Overwrite _ data) = Some data"
| "mod_entity (Mod_Remove _) = None"

fun mod_is_remove :: "entity_modification \<Rightarrow> bool" where
  "mod_is_remove (Mod_Remove _) = True"
| "mod_is_remove _ = False"

definition store_event_from_mods ::
    "deployment_hash \<Rightarrow> entity_modification list \<Rightarrow> nat \<Rightarrow> store_event \<times> nat" where
  "store_event_from_mods subgraph_id mods next_tag =
     store_event_new (map (\<lambda>m. change_for_data subgraph_id (mod_entity_ref m)) mods) next_tag"

datatype entity_op = EO_Remove | EO_Update entity | EO_Overwrite entity

fun apply_to :: "entity_op \<Rightarrow> entity option \<Rightarrow> entity option" where
  "apply_to EO_Remove _ = None"
| "apply_to (EO_Overwrite new) _ = Some new"
| "apply_to (EO_Update new) None = Some new"
| "apply_to (EO_Update updates) (Some entity) = Some (merge_remove_null_fields entity updates)"

fun accumulate :: "entity_op \<Rightarrow> entity_op \<Rightarrow> entity_op" where
  "accumulate self EO_Remove = EO_Remove"
| "accumulate self (EO_Overwrite e) = EO_Overwrite e"
| "accumulate EO_Remove (EO_Update update) = EO_Overwrite update"
| "accumulate (EO_Update current) (EO_Update update) = EO_Update (entity_merge current update)"
| "accumulate (EO_Overwrite current) (EO_Update update) = EO_Overwrite (entity_merge current update)"

section \<open>Schema versions\<close>

datatype deployment_schema_version = DSV_V0 | DSV_V1

definition DSV_LATEST :: deployment_schema_version where
  "DSV_LATEST = DSV_V1"

fun private_data_sources :: "deployment_schema_version \<Rightarrow> bool" where
  "private_data_sources DSV_V0 = False"
| "private_data_sources DSV_V1 = True"

definition schema_version_try_from :: "int \<Rightarrow> int + deployment_schema_version" where
  "schema_version_try_from value =
     (if value = 0 then Inr DSV_V0 else if value = 1 then Inr DSV_V1 else Inl value)"

section \<open>Simplified queries select the same entities\<close>

text \<open>
  The meaning of a filter for one entity, relative to the meaning \<open>atom\<close> of the elementary filters,
  and which entities of a type a query selects. A window selects the entities that are linked to one
  of its parent ids: directly, when the attribute holds the id, or through the parents' table, whose
  content is the parameter \<open>parent\<close>.
\<close>

fun filter_holds :: "(entity_filter \<Rightarrow> bool) \<Rightarrow> entity_filter \<Rightarrow> bool" where
  "filter_holds atom (F_And fs) \<longleftrightarrow> list_all (filter_holds atom) fs"
| "filter_holds atom (F_Or fs) \<longleftrightarrow> list_ex (filter_holds atom) fs"
| "filter_holds atom f \<longleftrightarrow> atom f"

definition linked :: "(entity_filter \<Rightarrow> bool) \<Rightarrow> (entity_type \<Rightarrow> parent_link \<Rightarrow> string \<Rightarrow> bool) \<Rightarrow>
    entity_link \<Rightarrow> string \<Rightarrow> bool" where
  "linked atom parent link i =
     (case link of
        EL_Direct (WA_Scalar name) _ \<Rightarrow> atom (F_Equal name (V_String i))
      | EL_Direct (WA_List name) _ \<Rightarrow> atom (F_Contains name (V_List [V_String i]))
      | EL_Parent t l \<Rightarrow> parent t l i)"

definition selects :: "(entity_filter \<Rightarrow> bool) \<Rightarrow> (entity_type \<Rightarrow> parent_link \<Rightarrow> string \<Rightarrow> bool) \<Rightarrow>
    entity_query \<Rightarrow> entity_type \<Rightarrow> bool" where
  "selects atom parent q t \<longleftrightarrow>
     (case eq_collection q of
        EC_All pairs \<Rightarrow> t \<in> fst ` set pairs
      | EC_Window ws \<Rightarrow> \<exists>w \<in> set ws. ew_child_type w = t \<and> (\<exists>i \<in> set (ew_ids w). linked atom parent (ew_link w) i)) \<and>
     (case eq_filter q of None \<Rightarrow> True | Some f \<Rightarrow> filter_holds atom f)"

lemma filter_holds_and_maybe:
  "filter_holds atom (and_maybe f g) \<longleftrightarrow>
     filter_holds atom f \<and> (case g of None \<Rightarrow> True | Some h \<Rightarrow> filter_holds atom h)"
proof (cases g)
  case (Some h)
  have other: "(case f' of F_And fs \<Rightarrow> g' fs | _ \<Rightarrow> r) = r" if "\<nexists>fs. f' = F_And fs"
    for f' r and g' :: "entity_filter list \<Rightarrow> entity_filter"
    using that by (cases f') auto
  show ?thesis
  proof (cases "\<exists>fs. f = F_And fs")
    case True
    then show ?thesis
      by (cases "\<exists>fs. h = F_And fs") (auto simp: Some and_maybe_def other)
  next
    case False
    then show ?thesis
      by (cases "\<exists>fs. h = F_And fs") (auto simp: Some and_maybe_def other)
  qed
qed (simp add: and_maybe_def)

text \<open>
  C24. Simplifying a query changes neither which entities it selects, whatever the elementary
  filters mean, nor their order, range or block: a single window with a single parent id and a
  direct link becomes a filter on the linked attribute.
\<close>

theorem simplify_selects_same:
  "selects atom parent (simplify q) t = selects atom parent q t \<and>
   eq_order (simplify q) = eq_order q \<and> eq_range (simplify q) = eq_range q \<and>
   eq_block (simplify q) = eq_block q \<and> eq_subgraph_id (simplify q) = eq_subgraph_id q"
proof (cases "simplify q = q")
  case False
  then obtain w i a m where q: "eq_collection q = EC_Window [w]" "ew_ids w = [i]" "ew_link w = EL_Direct a m"
    by (auto simp: simplify_def split: entity_collection.splits list.splits entity_link.splits)
  then show ?thesis
    by (cases a) (auto simp: simplify_def selects_def linked_def filter_holds_and_maybe)
qed simp

section \<open>Change events\<close>

lemma subscription_matches_as_filter: "subscription_matches (as_filter change) change"
  by (cases change) auto

lemma store_event_matches_extend:
  "store_event_matches (store_event_extend ev other) filters \<longleftrightarrow>
     store_event_matches ev filters \<or> store_event_matches other filters"
  by (auto simp: store_event_matches_def store_event_extend_def)

definition pending_changes :: "store_event option \<Rightarrow> entity_change set" where
  "pending_changes ev = (case ev of None \<Rightarrow> {} | Some e \<Rightarrow> se_changes e)"

fun delivered_changes :: "stream_poll \<Rightarrow> entity_change set" where
  "delivered_changes (Poll_Ready (Some e)) = se_changes e"
| "delivered_changes _ = {}"

definition source_changes :: "source_poll list \<Rightarrow> entity_change set" where
  "source_changes src = \<Union> (set (map (\<lambda>p. case p of Src_Event e \<Rightarrow> se_changes e | _ \<Rightarrow> {}) src))"

lemma source_changes_simps [simp]:
  "source_changes [] = {}" "source_changes (Src_Event e # src) = se_changes e \<union> source_changes src"
  "source_changes (Src_NotReady # src) = source_changes src" "source_changes (Src_End # src) = source_changes src"
  "source_changes (Src_Err # src) = source_changes src"
  by (auto simp: source_changes_def)

lemma pending_changes_accumulate [simp]:
  "pending_changes (store_event_accumulate p e) = pending_changes p \<union> se_changes e"
  by (auto simp: pending_changes_def store_event_accumulate_def split: option.splits)

lemma throttle_loop_changes:
  "throttle_loop s src st = (r, st', src') \<Longrightarrow>
     delivered_changes r \<union> pending_changes (th_pending st') \<union> source_changes src' =
     pending_changes (th_pending st) \<union> source_changes src"
proof (induction s src st rule: throttle_loop.induct)
  case (1 s st)
  then show ?case by (cases "th_pending st") (auto simp: pending_changes_def split: if_splits)
next
  case (2 s src st)
  then show ?case by (cases "th_pending st") (auto simp: pending_changes_def split: if_splits)
next
  case (3 s src st)
  then show ?case by (cases "th_pending st") (auto simp: pending_changes_def split: if_splits)
next
  case (4 s ev src st)
  then show ?case by simp blast
next
  case (5 s src st)
  then show ?case by (cases "th_pending st") (auto simp: pending_changes_def split: if_splits)
qed

lemma throttle_poll_changes:
  assumes "throttle_poll synced timer src st = (r, st', src')"
  shows "delivered_changes r \<union> pending_changes (th_pending st') \<union> source_changes src' =
    pending_changes (th_pending st) \<union> source_changes src"
proof (cases "\<not> th_had_err st \<and> synced")
  case True
  then show ?thesis using assms
    by (cases src rule: source_poll_direct.cases) (auto simp: throttle_poll_def)
next
  case False
  then show ?thesis using assms throttle_loop_changes [of timer src st r st' src']
    by (auto simp: throttle_poll_def split: if_splits)
qed

text \<open>A run: between two polls the source gets further answers ready, and the delay may elapse.\<close>

fun throttle_run ::
    "bool \<Rightarrow> (bool \<times> source_poll list) list \<Rightarrow> throttle \<Rightarrow> source_poll list \<Rightarrow>
     stream_poll list \<times> throttle \<times> source_poll list" where
  "throttle_run synced [] st src = ([], st, src)"
| "throttle_run synced ((timer, arrived) # polls) st src =
     (let (r, st', src') = throttle_poll synced timer (src @ arrived) st;
          (rs, st'', src'') = throttle_run synced polls st' src'
      in (r # rs, st'', src''))"

lemma source_changes_append [simp]: "source_changes (a @ b) = source_changes a \<union> source_changes b"
  by (simp add: source_changes_def)

lemma throttle_run_changes:
  "throttle_run synced polls st src = (rs, st', src') \<Longrightarrow>
     (\<Union>r \<in> set rs. delivered_changes r) \<union> pending_changes (th_pending st') \<union> source_changes src' =
     pending_changes (th_pending st) \<union> source_changes src \<union> (\<Union>p \<in> set polls. source_changes (snd p))"
proof (induction synced polls st src arbitrary: rs st' src' rule: throttle_run.induct)
  case (2 synced timer arrived polls st src)
  obtain r st1 src1 where p: "throttle_poll synced timer (src @ arrived) st = (r, st1, src1)"
    by (cases "throttle_poll synced timer (src @ arrived) st") auto
  obtain rs1 where run: "throttle_run synced polls st1 src1 = (rs1, st', src')" "rs = r # rs1"
    using 2(2) p by (auto simp: Let_def split: prod.splits)
  from 2(1) [OF p [symmetric] refl refl run(1)] throttle_poll_changes [OF p] run(2)
  show ?case by auto
qed auto

text \<open>
  C25. Throttling loses and invents no changes: at any moment the changes delivered so far, those
  pending and those the source still holds are exactly the changes the source was given. While the
  deployment is not synced, a poll that finds the source not ready delivers the pending event exactly
  when the delay has elapsed, and an error or the end of the source delivers it at once.
\<close>

theorem throttle_loses_nothing:
  assumes "throttle_run synced polls \<lparr>th_pending = None, th_had_err = False\<rparr> [] = (rs, st, src)"
  shows "(\<Union>r \<in> set rs. delivered_changes r) \<union> pending_changes (th_pending st) \<union> source_changes src =
      (\<Union>p \<in> set polls. source_changes (snd p)) \<and>
    (\<forall>ev. throttle_poll False timer [] \<lparr>th_pending = Some ev, th_had_err = False\<rparr> =
       (if timer then (Poll_Ready (Some ev), \<lparr>th_pending = None, th_had_err = False\<rparr>, [])
        else (Poll_NotReady, \<lparr>th_pending = Some ev, th_had_err = False\<rparr>, []))) \<and>
    (\<forall>ev rest. throttle_poll False timer (Src_Err # rest) \<lparr>th_pending = Some ev, th_had_err = False\<rparr> =
       (Poll_Ready (Some ev), \<lparr>th_pending = None, th_had_err = True\<rparr>, rest) \<and>
     throttle_poll False timer (Src_End # rest) \<lparr>th_pending = Some ev, th_had_err = False\<rparr> =
       (Poll_Ready (Some ev), \<lparr>th_pending = None, th_had_err = False\<rparr>, rest))"
  using throttle_run_changes [OF assms] by (simp add: pending_changes_def throttle_poll_def)

theorem throttle_loses_nothing_witness:
  "\<exists>rs st src. throttle_run False
      [(False, [Src_Event \<lparr>se_tag = 0, se_changes = {Change_Data ''Qm'' ''A''}\<rparr>]),
       (True, [Src_Event \<lparr>se_tag = 1, se_changes = {Change_Data ''Qm'' ''B''}\<rparr>])]
      \<lparr>th_pending = None, th_had_err = False\<rparr> [] = (rs, st, src) \<and>
    (\<Union>r \<in> set rs. delivered_changes r) \<union> pending_changes (th_pending st) \<union> source_changes src =
      {Change_Data ''Qm'' ''A'', Change_Data ''Qm'' ''B''}"
proof -
  let ?run = "throttle_run False
      [(False, [Src_Event \<lparr>se_tag = 0, se_changes = {Change_Data ''Qm'' ''A''}\<rparr>]),
       (True, [Src_Event \<lparr>se_tag = 1, se_changes = {Change_Data ''Qm'' ''B''}\<rparr>])]
      \<lparr>th_pending = None, th_had_err = False\<rparr> []"
  obtain rs st src where run: "?run = (rs, st, src)" by (cases ?run)
  from throttle_loses_nothing [OF run] run show ?thesis by auto
qed

section \<open>Accumulated operations\<close>

text \<open>Two states of an entity that differ at most in attributes set to null.\<close>

definition non_null :: "entity \<Rightarrow> string \<Rightarrow> store_value option" where
  "non_null e k = (case map_of e k of None \<Rightarrow> None | Some v \<Rightarrow> if v = V_Null then None else Some v)"

fun same_entity :: "entity option \<Rightarrow> entity option \<Rightarrow> bool" where
  "same_entity None None \<longleftrightarrow> True"
| "same_entity (Some a) (Some b) \<longleftrightarrow> non_null a = non_null b"
| "same_entity _ _ \<longleftrightarrow> False"

fun op_wf :: "entity_op \<Rightarrow> bool" where
  "op_wf EO_Remove \<longleftrightarrow> True"
| "op_wf (EO_Update e) \<longleftrightarrow> hm_wf e"
| "op_wf (EO_Overwrite e) \<longleftrightarrow> hm_wf e"

lemma same_entity_refl [simp]: "same_entity e e"
  by (cases e) auto

lemma same_entity_sym: "same_entity a b \<Longrightarrow> same_entity b a"
  by (induction a b rule: same_entity.induct) auto

lemma same_entity_trans [trans]: "same_entity a b \<Longrightarrow> same_entity b c \<Longrightarrow> same_entity a c"
  by (induction a b rule: same_entity.induct) (cases c; simp)+

lemma non_null_merge: "hm_wf u \<Longrightarrow> non_null (merge_remove_null_fields e u) k =
    (if map_of u k = None then non_null e k else non_null u k)"
  by (auto simp: non_null_def hm_simps null_merge_def split: option.splits)

lemma non_null_entity_merge: "hm_wf u \<Longrightarrow> non_null (entity_merge e u) k =
    (if map_of u k = None then non_null e k else non_null u k)"
  by (auto simp: non_null_def hm_simps map_add_def split: option.splits)

lemma op_wf_accumulate: "op_wf a \<Longrightarrow> op_wf b \<Longrightarrow> op_wf (accumulate a b)"
  by (induction a b rule: accumulate.induct) auto

lemma apply_to_cong: "op_wf a \<Longrightarrow> same_entity e e' \<Longrightarrow> same_entity (apply_to a e) (apply_to a e')"
  by (cases a; cases e; cases e') (auto simp: fun_eq_iff non_null_merge)

lemma apply_to_accumulate:
  "op_wf a \<Longrightarrow> op_wf b \<Longrightarrow> same_entity (apply_to (accumulate a b) e) (apply_to b (apply_to a e))"
  by (cases a; cases b; cases e)
    (auto simp: fun_eq_iff non_null_merge non_null_entity_merge map_of_entity_merge map_add_None split: option.splits)

text \<open>
  C13. Accumulating operations is sound: applying the accumulated operation to an entity gives the
  same entity, up to attributes that are set to null, as applying the operations one after the
  other.
\<close>

theorem accumulate_is_sequential:
  assumes "op_wf a" "list_all op_wf ops"
  shows "same_entity (apply_to (foldl accumulate a ops) e) (foldl (\<lambda>e op. apply_to op e) (apply_to a e) ops)"
  using assms
proof (induction ops arbitrary: a e)
  case (Cons b ops)
  have wf: "op_wf b" "op_wf (accumulate a b)" "list_all op_wf ops"
    using Cons.prems op_wf_accumulate by auto
  have cong: "same_entity e1 e2 \<Longrightarrow>
      same_entity (foldl (\<lambda>e op. apply_to op e) e1 ops) (foldl (\<lambda>e op. apply_to op e) e2 ops)" for e1 e2
    using wf(3) by (induction ops arbitrary: e1 e2) (auto simp: apply_to_cong)
  show ?case
    using Cons.IH [OF wf(2,3), of e] cong [OF apply_to_accumulate [OF Cons.prems(1) wf(1), of e]]
    by (auto intro: same_entity_trans)
qed simp

theorem accumulate_is_sequential_witness:
  "same_entity
     (apply_to (foldl accumulate (EO_Update [(''x'', V_Int 1)]) [EO_Remove, EO_Update [(''y'', V_Null)]]) None)
     (Some [])"
  using accumulate_is_sequential [of "EO_Update [(''x'', V_Int 1)]" "[EO_Remove, EO_Update [(''y'', V_Null)]]" None]
  by (simp add: fun_eq_iff non_null_def)

end
