(* ===== verification/Schema.thy ===== *)
theory Schema
  imports Store_Types
begin

text \<open>
  The validated schema of a subgraph, from \<open>graph/src/data/schema.rs\<close>: its construction (which types
  implement which interface, which types are immutable, the \<open>@subgraphId\<close> directives), ids, imports and
  full text definitions; and the names of \<open>graph/src/data/subgraph/mod.rs\<close>.

  The printer of \<open>graphql_parser\<close> is a parameter: \<open>show_field\<close> for a field, \<open>show_value\<close> for a value.
\<close>

section \<open>Names\<close>

definition is_ascii_digit :: "char \<Rightarrow> bool" where
  "is_ascii_digit c \<longleftrightarrow> 48 \<le> (of_char c :: nat) \<and> (of_char c :: nat) \<le> 57"

definition is_ascii_alphabetic :: "char \<Rightarrow> bool" where
  "is_ascii_alphabetic c \<longleftrightarrow>
     65 \<le> (of_char c :: nat) \<and> (of_char c :: nat) \<le> 90 \<or> 97 \<le> (of_char c :: nat) \<and> (of_char c :: nat) \<le> 122"

definition is_ascii_alphanumeric :: "char \<Rightarrow> bool" where
  "is_ascii_alphanumeric c \<longleftrightarrow> is_ascii_digit c \<or> is_ascii_alphabetic c"

definition deployment_hash_new :: "string \<Rightarrow> string + deployment_hash" where
  "deployment_hash_new s =
     (if length s > 46 then Inl s
      else if \<not> list_all (\<lambda>c. is_ascii_alphanumeric c \<or> c = CHR ''_'') s then Inl s
      else if s = ''subgraphs'' then Inl s
      else Inr s)"

text \<open>\<open>str::split('/')\<close>: the parts between the separators, empty ones included.\<close>

fun split_on :: "char \<Rightarrow> string \<Rightarrow> string list" where
  "split_on sep [] = [[]]"
| "split_on sep (c # cs) =
     (if c = sep then [] # split_on sep cs
      else case split_on sep cs of [] \<Rightarrow> [[c]] | p # ps \<Rightarrow> (c # p) # ps)"

definition subgraph_name_part_ok :: "string \<Rightarrow> bool" where
  "subgraph_name_part_ok part \<longleftrightarrow>
     part \<noteq> [] \<and> part \<noteq> ''graphql'' \<and> is_ascii_alphanumeric (hd part) \<and>
     is_ascii_alphanumeric (last part) \<and> list_ex is_ascii_alphabetic part"

definition subgraph_name_new :: "string \<Rightarrow> string option" where
  "subgraph_name_new s =
     (if s = [] \<or> length s > 255 then None
      else if \<not> list_all (\<lambda>c. is_ascii_alphanumeric c \<or> c \<in> {CHR ''-'', CHR ''_'', CHR ''/''}) s then None
      else if list_all subgraph_name_part_ok (split_on (CHR ''/'') s) then Some s
      else None)"

section \<open>Errors\<close>

text \<open>The set of id types in \<open>InterfaceImplementorsMixId\<close> is printed in no fixed order.\<close>

datatype schema_validation_error =
    InterfaceUndefined string
  | EntityDirectivesMissing "string list"
  | InterfaceFieldsMissing string string "string list"
  | InterfaceImplementorsMixId string "string set"
  | InvalidDerivedFrom string string string
  | UsageOfReservedTypes "string list"
  | SchemaTypeWithFields
  | ImportedSubgraphNameInvalid string
  | ImportedSubgraphIdInvalid string
  | InvalidSchemaTypeDirectives
  | ImportDirectiveInvalid
  | FieldTypeUnknown string string string
  | ImportedTypeUndefined string string
  | FulltextNameUndefined
  | FulltextNameConflict string
  | FulltextNameCollision string
  | FulltextLanguageUndefined
  | FulltextLanguageInvalid string
  | FulltextAlgorithmUndefined
  | FulltextAlgorithmInvalid string
  | FulltextIncludeInvalid
  | FulltextIncludeUndefined
  | FulltextIncludeObjectMissing
  | FulltextIncludeEntityMissingOrIncorrectAttributes
  | FulltextIncludedEntityNotFound
  | FulltextIncludedFieldMissingRequiredProperty
  | FulltextIncludedFieldInvalid string

section \<open>Construction\<close>

record schema =
  sch_id :: deployment_hash
  sch_document :: s_document
  sch_interfaces_for_type :: "(entity_type, interface_type list) btree_map"
  sch_types_for_interface :: "(entity_type, object_type list) btree_map"
  sch_immutable_types :: "entity_type set"

definition validate_interface_implementation ::
    "(s_field \<Rightarrow> string) \<Rightarrow> object_type \<Rightarrow> interface_type \<Rightarrow> schema_validation_error + unit" where
  "validate_interface_implementation show_field object intf =
     (let missing_fields =
        map show_field
          (filter (\<lambda>i. \<not> list_ex (\<lambda>fl. fld_name fl = fld_name i \<and> fld_type fl = fld_type i) (obj_fields object))
             (intf_fields intf))
      in if missing_fields \<noteq> []
         then Inl (InterfaceFieldsMissing (obj_name object) (intf_name intf) missing_fields)
         else Inr ())"

type_synonym interface_maps =
  "(entity_type, interface_type list) btree_map \<times> (entity_type, object_type list) btree_map"

text \<open>
  The body of the inner loop, for one implemented interface of one object type. The \<open>unwrap\<close> on
  \<open>types_for_interface\<close> is on a key that was put there at the start; the model leaves the map as it
  is should the key be missing, and the invariant shows that it never is.
\<close>

definition collect_step ::
    "(s_field \<Rightarrow> string) \<Rightarrow> s_document \<Rightarrow> object_type \<times> string \<Rightarrow> interface_maps \<Rightarrow>
     schema_validation_error + interface_maps" where
  "collect_step show_field doc oi maps =
     (let (object_type, implemented_interface) = oi; (ifaces, types) = maps in
      case find_interface doc implemented_interface of
        None \<Rightarrow> Inl (InterfaceUndefined implemented_interface)
      | Some intf \<Rightarrow>
          (case validate_interface_implementation show_field object_type intf of
             Inl e \<Rightarrow> Inl e
           | Inr _ \<Rightarrow>
               Inr (bt_insert (obj_name object_type)
                      ((case map_of ifaces (obj_name object_type) of None \<Rightarrow> [] | Some l \<Rightarrow> l) @ [intf]) ifaces,
                    (case map_of types implemented_interface of
                       None \<Rightarrow> types
                     | Some l \<Rightarrow> bt_insert implemented_interface (l @ [object_type]) types))))"

definition implementations :: "s_document \<Rightarrow> (object_type \<times> string) list" where
  "implementations doc =
     concat (map (\<lambda>t. map (Pair t) (obj_implements_interfaces t)) (get_object_type_definitions doc))"

definition collect_interfaces ::
    "(s_field \<Rightarrow> string) \<Rightarrow> s_document \<Rightarrow> schema_validation_error + interface_maps" where
  "collect_interfaces show_field doc =
     try_fold (collect_step show_field doc) (implementations doc)
       ([], bt_from_iter (map (\<lambda>t. (intf_name t, [])) (get_interface_type_definitions doc)))"

definition collect_immutable_types :: "s_document \<Rightarrow> entity_type set" where
  "collect_immutable_types doc =
     set (map obj_name (filter object_is_immutable (get_object_type_definitions doc)))"

definition subgraph_id_directive :: "deployment_hash \<Rightarrow> directive" where
  "subgraph_id_directive hash =
     \<lparr> dir_name = ''subgraphId'', dir_arguments = [(''id'', SV_String hash)] \<rparr>"

definition push_subgraph_id :: "deployment_hash \<Rightarrow> string \<Rightarrow> directive list \<Rightarrow> directive list" where
  "push_subgraph_id hash name directives =
     (if name \<noteq> SCHEMA_TYPE_NAME \<and> \<not> list_ex (\<lambda>d. dir_name d = ''subgraphId'') directives
      then directives @ [subgraph_id_directive hash] else directives)"

fun add_subgraph_id :: "deployment_hash \<Rightarrow> type_definition \<Rightarrow> type_definition" where
  "add_subgraph_id h (TD_Object t) = TD_Object (t\<lparr>obj_directives := push_subgraph_id h (obj_name t) (obj_directives t)\<rparr>)"
| "add_subgraph_id h (TD_Interface t) =
     TD_Interface (t\<lparr>intf_directives := push_subgraph_id h (intf_name t) (intf_directives t)\<rparr>)"
| "add_subgraph_id h (TD_Enum t) = TD_Enum (t\<lparr>pt_directives := push_subgraph_id h (pt_name t) (pt_directives t)\<rparr>)"
| "add_subgraph_id h (TD_Scalar t) = TD_Scalar (t\<lparr>pt_directives := push_subgraph_id h (pt_name t) (pt_directives t)\<rparr>)"
| "add_subgraph_id h (TD_InputObject t) =
     TD_InputObject (t\<lparr>pt_directives := push_subgraph_id h (pt_name t) (pt_directives t)\<rparr>)"
| "add_subgraph_id h (TD_Union t) = TD_Union (t\<lparr>pt_directives := push_subgraph_id h (pt_name t) (pt_directives t)\<rparr>)"

definition add_subgraph_id_directives :: "deployment_hash \<Rightarrow> s_document \<Rightarrow> s_document" where
  "add_subgraph_id_directives h doc =
     map (\<lambda>d. case d of TypeDefinition td \<Rightarrow> TypeDefinition (add_subgraph_id h td) | _ \<Rightarrow> d) doc"

definition schema_new ::
    "(s_field \<Rightarrow> string) \<Rightarrow> deployment_hash \<Rightarrow> s_document \<Rightarrow> schema_validation_error + schema" where
  "schema_new show_field h doc =
     (case collect_interfaces show_field doc of
        Inl e \<Rightarrow> Inl e
      | Inr (ifaces, types) \<Rightarrow>
          Inr \<lparr> sch_id = h, sch_document = add_subgraph_id_directives h doc,
                sch_interfaces_for_type = ifaces, sch_types_for_interface = types,
                sch_immutable_types = collect_immutable_types doc \<rparr>)"

definition is_immutable :: "schema \<Rightarrow> entity_type \<Rightarrow> bool" where
  "is_immutable sch t \<longleftrightarrow> t \<in> sch_immutable_types sch"

text \<open>\<open>Id_panic\<close> is the \<open>unwrap\<close> on the field \<open>id\<close>.\<close>

datatype id_error = Id_unknown_type | Id_parse | Id_illegal_type string | Id_panic

definition id_value :: "scalar_lib \<Rightarrow> schema \<Rightarrow> entity_key \<Rightarrow> id_error + store_value" where
  "id_value lib sch key =
     (case get_object_type_definition (sch_document sch) (key_entity_type key) of
        None \<Rightarrow> Inl Id_unknown_type
      | Some t \<Rightarrow>
          (case object_field t ''id'' of
             None \<Rightarrow> Inl Id_panic
           | Some f \<Rightarrow>
               (let base_type = get_base_type (fld_type f) in
                if base_type = ''ID'' \<or> base_type = ''String'' then Inr (V_String (key_entity_id key))
                else if base_type = ''Bytes'' then
                  (case bytes_from_str lib (key_entity_id key) of
                     None \<Rightarrow> Inl Id_parse | Some b \<Rightarrow> Inr (V_Bytes b))
                else Inl (Id_illegal_type base_type))))"

section \<open>Imports\<close>

record imported_type =
  imp_name :: string
  imp_alias :: string
  imp_explicit :: bool

definition imported_type_parse :: "(s_value \<Rightarrow> string) \<Rightarrow> s_value \<Rightarrow> imported_type option" where
  "imported_type_parse show_value type_import =
     (case type_import of
        SV_String tn \<Rightarrow>
          Some \<lparr> imp_name = tn, imp_alias = tn, imp_explicit = False \<rparr>
      | SV_Object m \<Rightarrow>
          (case (map_of m ''name'', map_of m ''as'') of
             (Some name, Some az) \<Rightarrow>
               Some \<lparr> imp_name = show_value name, imp_alias = show_value az, imp_explicit = True \<rparr>
           | _ \<Rightarrow> None)
      | _ \<Rightarrow> None)"

type_synonym schema_reference = deployment_hash

definition schema_reference_parse :: "s_value \<Rightarrow> schema_reference option" where
  "schema_reference_parse v =
     (case v of
        SV_Object m \<Rightarrow>
          (case map_of m ''id'' of
             Some (SV_String i) \<Rightarrow> (case deployment_hash_new i of Inr h \<Rightarrow> Some h | Inl _ \<Rightarrow> None)
           | _ \<Rightarrow> None)
      | _ \<Rightarrow> None)"

definition subgraph_schema_object_type :: "s_document \<Rightarrow> object_type option" where
  "subgraph_schema_object_type doc =
     find (\<lambda>t. obj_name t = SCHEMA_TYPE_NAME) (get_object_type_definitions doc)"

definition parse_types :: "(s_value \<Rightarrow> string) \<Rightarrow> directive \<Rightarrow> imported_type list" where
  "parse_types show_value import =
     (case argument import ''types'' of
        Some (SV_List types) \<Rightarrow> filter_map (imported_type_parse show_value) types
      | _ \<Rightarrow> [])"

definition imported_types ::
    "(s_value \<Rightarrow> string) \<Rightarrow> s_document \<Rightarrow> (imported_type, schema_reference) hash_map" where
  "imported_types show_value doc =
     (case subgraph_schema_object_type doc of
        None \<Rightarrow> []
      | Some object \<Rightarrow>
          fold (\<lambda>(k, v). hm_insert k v)
            (concat (map (\<lambda>import.
               (case argument import ''from'' of
                  None \<Rightarrow> []
                | Some from \<Rightarrow>
                    (case schema_reference_parse from of
                       None \<Rightarrow> []
                     | Some schema_ref \<Rightarrow> map (\<lambda>t. (t, schema_ref)) (parse_types show_value import))))
               (filter (\<lambda>d. dir_name d = ''import'') (obj_directives object)))) [])"

definition imported_schemas :: "s_document \<Rightarrow> schema_reference list" where
  "imported_schemas doc =
     (case subgraph_schema_object_type doc of
        None \<Rightarrow> []
      | Some object \<Rightarrow>
          filter_map schema_reference_parse
            (filter_map (\<lambda>d. argument d ''from'')
               (filter (\<lambda>d. dir_name d = ''import'') (obj_directives object))))"

text \<open>
  Following the imports. \<open>store\<close> resolves a deployment to its schema. The visit log stops the walk at
  a schema that was seen before; every recursive call adds a schema to it, so one more than the
  number of schemas not yet visited is fuel enough. \<^term>\<open>None\<close> is running out of fuel.
\<close>

datatype schema_import_error = ImportedSchemaNotFound schema_reference

type_synonym import_state =
  "(schema_reference, schema) hash_map \<times> deployment_hash set \<times> schema_import_error list"

fun resolve_import_graph ::
    "(schema_reference \<Rightarrow> schema option) \<Rightarrow> nat \<Rightarrow> schema_reference list \<Rightarrow> import_state \<Rightarrow>
     import_state option" where
  "resolve_import_graph store fuel [] st = Some st"
| "resolve_import_graph store fuel (r # refs) (schemas, visited, errors) =
     (case store r of
        None \<Rightarrow> resolve_import_graph store fuel refs (schemas, visited, errors @ [ImportedSchemaNotFound r])
      | Some sch \<Rightarrow>
          (if sch_id sch \<in> visited
           then resolve_import_graph store fuel refs (hm_insert r sch schemas, visited, errors)
           else case fuel of
                  0 \<Rightarrow> None
                | Suc n \<Rightarrow>
                    (case resolve_import_graph store n (imported_schemas (sch_document sch))
                            (hm_insert r sch schemas, insert (sch_id sch) visited, errors) of
                       None \<Rightarrow> None
                     | Some st' \<Rightarrow> resolve_import_graph store fuel refs st')))"

definition resolve_schema_references ::
    "(schema_reference \<Rightarrow> schema option) \<Rightarrow> nat \<Rightarrow> schema \<Rightarrow>
     ((schema_reference, schema) hash_map \<times> schema_import_error list) option" where
  "resolve_schema_references store fuel sch =
     map_option (\<lambda>(schemas, _, errors). (schemas, errors))
       (resolve_import_graph store fuel (imported_schemas (sch_document sch)) ([], {}, []))"

section \<open>Full text search\<close>

datatype fulltext_language =
    FL_Simple | FL_Danish | FL_Dutch | FL_English | FL_Finnish | FL_French | FL_German | FL_Hungarian
  | FL_Italian | FL_Norwegian | FL_Portugese | FL_Romanian | FL_Russian | FL_Spanish | FL_Swedish
  | FL_Turkish

definition fulltext_languages :: "(string \<times> fulltext_language) list" where
  "fulltext_languages =
     [(''simple'', FL_Simple), (''da'', FL_Danish), (''nl'', FL_Dutch), (''en'', FL_English),
      (''fi'', FL_Finnish), (''fr'', FL_French), (''de'', FL_German), (''hu'', FL_Hungarian),
      (''it'', FL_Italian), (''no'', FL_Norwegian), (''pt'', FL_Portugese), (''ro'', FL_Romanian),
      (''ru'', FL_Russian), (''es'', FL_Spanish), (''sv'', FL_Swedish), (''tr'', FL_Turkish)]"

definition fulltext_language_try_from :: "string \<Rightarrow> fulltext_language option" where
  "fulltext_language_try_from language = map_of fulltext_languages language"

text \<open>A language as an SQL literal, between single quotes.\<close>

definition sql_quote :: "string \<Rightarrow> string" where
  "sql_quote s = [CHR 0x27] @ s @ [CHR 0x27]"

fun fulltext_language_as_sql :: "fulltext_language \<Rightarrow> string" where
  "fulltext_language_as_sql FL_Simple = sql_quote ''simple''"
| "fulltext_language_as_sql FL_Danish = sql_quote ''danish''"
| "fulltext_language_as_sql FL_Dutch = sql_quote ''dutch''"
| "fulltext_language_as_sql FL_English = sql_quote ''english''"
| "fulltext_language_as_sql FL_Finnish = sql_quote ''finnish''"
| "fulltext_language_as_sql FL_French = sql_quote ''french''"
| "fulltext_language_as_sql FL_German = sql_quote ''german''"
| "fulltext_language_as_sql FL_Hungarian = sql_quote ''hungarian''"
| "fulltext_language_as_sql FL_Italian = sql_quote ''italian''"
| "fulltext_language_as_sql FL_Norwegian = sql_quote ''norwegian''"
| "fulltext_language_as_sql FL_Portugese = sql_quote ''portugese''"
| "fulltext_language_as_sql FL_Romanian = sql_quote ''romanian''"
| "fulltext_language_as_sql FL_Russian = sql_quote ''russian''"
| "fulltext_language_as_sql FL_Spanish = sql_quote ''spanish''"
| "fulltext_language_as_sql FL_Swedish = sql_quote ''swedish''"
| "fulltext_language_as_sql FL_Turkish = sql_quote ''turkish''"

datatype fulltext_algorithm = FA_Rank | FA_ProximityRank

definition fulltext_algorithm_try_from :: "string \<Rightarrow> fulltext_algorithm option" where
  "fulltext_algorithm_try_from algorithm =
     (if algorithm = ''rank'' then Some FA_Rank
      else if algorithm = ''proximityRank'' then Some FA_ProximityRank
      else None)"

section \<open>Values of directives\<close>

fun sv_as_object :: "s_value \<Rightarrow> (string \<times> s_value) list option" where
  "sv_as_object (SV_Object m) = Some m"
| "sv_as_object _ = None"

fun sv_as_list :: "s_value \<Rightarrow> s_value list option" where
  "sv_as_list (SV_List l) = Some l"
| "sv_as_list _ = None"

fun sv_as_str :: "s_value \<Rightarrow> string option" where
  "sv_as_str (SV_String s) = Some s"
| "sv_as_str _ = None"

fun sv_as_enum :: "s_value \<Rightarrow> string option" where
  "sv_as_enum (SV_Enum e) = Some e"
| "sv_as_enum _ = None"

record fulltext_definition =
  ft_language :: fulltext_language
  ft_algorithm :: fulltext_algorithm
  ft_included_fields :: "string set"
  ft_name :: string

text \<open>The name of one included field; \<^term>\<open>None\<close> is a failing \<open>unwrap\<close>.\<close>

definition included_field_name :: "s_value \<Rightarrow> string option" where
  "included_field_name v =
     (case sv_as_object v of
        None \<Rightarrow> None
      | Some m \<Rightarrow> (case map_of m ''name'' of None \<Rightarrow> None | Some n \<Rightarrow> sv_as_str n))"

fun collect_options :: "'a option list \<Rightarrow> 'a list option" where
  "collect_options [] = Some []"
| "collect_options (None # xs) = None"
| "collect_options (Some x # xs) = map_option ((#) x) (collect_options xs)"

definition fulltext_definition_from :: "directive \<Rightarrow> fulltext_definition option" where
  "fulltext_definition_from d =
     (case (Option.bind (argument d ''name'') sv_as_str,
            Option.bind (Option.bind (argument d ''algorithm'') sv_as_enum) fulltext_algorithm_try_from,
            Option.bind (Option.bind (argument d ''language'') sv_as_enum) fulltext_language_try_from,
            Option.bind (argument d ''include'') sv_as_list) of
        (Some name, Some algorithm, Some language, Some (included_entity # _)) \<Rightarrow>
          (case Option.bind (Option.bind (sv_as_object included_entity) (\<lambda>m. map_of m ''fields'')) sv_as_list of
             None \<Rightarrow> None
           | Some fs \<Rightarrow>
               (case collect_options (map included_field_name fs) of
                  None \<Rightarrow> None
                | Some names \<Rightarrow>
                    Some \<lparr> ft_language = language, ft_algorithm = algorithm,
                           ft_included_fields = set names, ft_name = name \<rparr>))
      | _ \<Rightarrow> None)"

definition includes_entity :: "string \<Rightarrow> directive \<Rightarrow> bool" where
  "includes_entity entity d =
     (case argument d ''include'' of
        Some (SV_List includes) \<Rightarrow>
          includes \<noteq> [] \<and>
          list_ex (\<lambda>include. case include of
                     SV_Object m \<Rightarrow> map_of m ''entity'' = Some (SV_String entity)
                   | _ \<Rightarrow> False) includes
      | _ \<Rightarrow> False)"

text \<open>The outer sum is the error of \<open>get_fulltext_directives\<close>, the inner option a panic.\<close>

definition entity_fulltext_definitions ::
    "bool \<Rightarrow> string \<Rightarrow> s_document \<Rightarrow> string + fulltext_definition list option" where
  "entity_fulltext_definitions allow entity doc =
     (case get_fulltext_directives allow doc of
        Inl e \<Rightarrow> Inl e
      | Inr ds \<Rightarrow> Inr (collect_options (map fulltext_definition_from (filter (includes_entity entity) ds))))"

section \<open>Interfaces and their implementors\<close>

definition satisfies :: "object_type \<Rightarrow> interface_type \<Rightarrow> bool" where
  "satisfies t intf \<longleftrightarrow>
     (\<forall>i \<in> set (intf_fields intf). \<exists>f \<in> set (obj_fields t). fld_name f = fld_name i \<and> fld_type f = fld_type i)"

lemma validate_interface_implementation_iff:
  "validate_interface_implementation show_field t intf = Inr () \<longleftrightarrow> satisfies t intf"
  by (auto simp: validate_interface_implementation_def satisfies_def Let_def filter_empty_conv list_ex_iff)

definition implementors :: "(object_type \<times> string) list \<Rightarrow> string \<Rightarrow> object_type list" where
  "implementors impls i = map fst (filter (\<lambda>x. snd x = i) impls)"

definition interfaces_of :: "s_document \<Rightarrow> (object_type \<times> string) list \<Rightarrow> string \<Rightarrow> interface_type list" where
  "interfaces_of doc impls n = map (\<lambda>x. the (find_interface doc (snd x))) (filter (\<lambda>x. obj_name (fst x) = n) impls)"

definition implementation_ok :: "s_document \<Rightarrow> object_type \<times> string \<Rightarrow> bool" where
  "implementation_ok doc x \<longleftrightarrow> (\<exists>intf. find_interface doc (snd x) = Some intf \<and> satisfies (fst x) intf)"

lemma collect_step_ok:
  "implementation_ok doc x \<Longrightarrow> \<exists>intf. find_interface doc (snd x) = Some intf \<and>
     collect_step show_field doc x maps =
       Inr (bt_insert (obj_name (fst x))
              ((case map_of (fst maps) (obj_name (fst x)) of None \<Rightarrow> [] | Some l \<Rightarrow> l) @ [intf]) (fst maps),
            (case map_of (snd maps) (snd x) of
               None \<Rightarrow> snd maps | Some l \<Rightarrow> bt_insert (snd x) (l @ [fst x]) (snd maps)))"
proof -
  assume "implementation_ok doc x"
  then obtain intf where intf: "find_interface doc (snd x) = Some intf" "satisfies (fst x) intf"
    by (auto simp: implementation_ok_def)
  then have "validate_interface_implementation show_field (fst x) intf = Inr ()"
    by (simp add: validate_interface_implementation_iff)
  with intf(1) show ?thesis by (simp add: collect_step_def case_prod_beta)
qed

lemma collect_step_error:
  "\<not> implementation_ok doc x \<Longrightarrow> \<exists>e. collect_step show_field doc x maps = Inl e"
  using validate_interface_implementation_iff [of show_field "fst x"]
  by (auto simp: implementation_ok_def collect_step_def case_prod_beta split: option.splits sum.splits)

lemma collect_fold_error:
  "\<not> list_all (implementation_ok doc) impls \<Longrightarrow> \<exists>e. try_fold (collect_step show_field doc) impls maps = Inl e"
proof (induction impls arbitrary: maps)
  case (Cons x impls)
  show ?case
  proof (cases "implementation_ok doc x")
    case True
    with Cons show ?thesis by (auto split: sum.splits)
  next
    case False
    then obtain e where "collect_step show_field doc x maps = Inl e" using collect_step_error by blast
    then show ?thesis by simp
  qed
qed simp

definition extended :: "'a list option \<Rightarrow> 'a list \<Rightarrow> 'a list option" where
  "extended old new = (if new = [] then old else Some ((case old of None \<Rightarrow> [] | Some l \<Rightarrow> l) @ new))"

lemma collect_fold_ok:
  "list_all (implementation_ok doc) impls \<Longrightarrow> (\<And>x. x \<in> set impls \<Longrightarrow> map_of types (snd x) \<noteq> None) \<Longrightarrow>
   \<exists>ifaces' types'. try_fold (collect_step show_field doc) impls (ifaces, types) = Inr (ifaces', types') \<and>
     (\<forall>i. map_of types' i = map_option (\<lambda>l. l @ implementors impls i) (map_of types i)) \<and>
     (\<forall>n. map_of ifaces' n = extended (map_of ifaces n) (interfaces_of doc impls n))"
proof (induction impls arbitrary: ifaces types)
  case Nil
  then show ?case by (auto simp: implementors_def interfaces_of_def extended_def option.map_ident)
next
  case (Cons x impls)
  from Cons.prems(2) [of x] obtain l where l: "map_of types (snd x) = Some l" by auto
  have "implementation_ok doc x" using Cons.prems(1) by simp
  from collect_step_ok [OF this, of show_field "(ifaces, types)"] l
  obtain intf where intf: "find_interface doc (snd x) = Some intf"
    and step: "collect_step show_field doc x (ifaces, types) =
      Inr (bt_insert (obj_name (fst x))
             ((case map_of ifaces (obj_name (fst x)) of None \<Rightarrow> [] | Some l \<Rightarrow> l) @ [intf]) ifaces,
           bt_insert (snd x) (l @ [fst x]) types)" (is "_ = Inr (?ifaces, ?types)")
    by auto
  have "\<And>y. y \<in> set impls \<Longrightarrow> map_of ?types (snd y) \<noteq> None"
    using Cons.prems(2) by (auto simp: hm_simps)
  with Cons.IH [of ?types ?ifaces] Cons.prems(1)
  obtain ifaces' types' where IH: "try_fold (collect_step show_field doc) impls (?ifaces, ?types) = Inr (ifaces', types')"
    "\<forall>i. map_of types' i = map_option (\<lambda>l. l @ implementors impls i) (map_of ?types i)"
    "\<forall>n. map_of ifaces' n = extended (map_of ?ifaces n) (interfaces_of doc impls n)"
    by (auto simp: list_all_iff)
  have "map_of types' i = map_option (\<lambda>l. l @ implementors (x # impls) i) (map_of types i)" for i
    using IH(2) l by (auto simp: hm_simps implementors_def)
  moreover have "map_of ifaces' n = extended (map_of ifaces n) (interfaces_of doc (x # impls) n)" for n
    using IH(3) intf by (auto simp: hm_simps interfaces_of_def extended_def split: option.splits)
  ultimately show ?case using step IH(1) by simp
qed

lemma find_interface_defined:
  "find_interface doc i = Some intf \<Longrightarrow> i \<in> intf_name ` set (get_interface_type_definitions doc)"
proof -
  assume "find_interface doc i = Some intf"
  then obtain d where d: "d \<in> set doc" "d = TypeDefinition (TD_Interface intf)" "intf_name intf = i"
    unfolding find_interface_def
    by (auto dest!: find_map_Some split: s_definition.splits type_definition.splits if_splits)
  then have "intf \<in> set (get_interface_type_definitions doc)"
    unfolding get_interface_type_definitions_def set_filter_map by force
  with d(3) show ?thesis by blast
qed

lemma map_of_initial_types:
  "map_of (bt_from_iter (map (\<lambda>t. (intf_name t, [])) ts)) i = (if i \<in> intf_name ` set ts then Some [] else None)"
proof -
  have "map_of (rev (map (\<lambda>t. (intf_name t, [])) ts)) i = (if i \<in> intf_name ` set ts then Some [] else None)"
    by (induction ts) (auto simp: map_add_def split: option.splits)
  then show ?thesis by (simp add: hm_simps)
qed

lemma collect_interfaces_facts:
  "((\<exists>r. collect_interfaces show_field doc = Inr r) \<longleftrightarrow> list_all (implementation_ok doc) (implementations doc)) \<and>
   (\<forall>ifaces types. collect_interfaces show_field doc = Inr (ifaces, types) \<longrightarrow>
      (\<forall>i. map_of types i =
         (if i \<in> intf_name ` set (get_interface_type_definitions doc)
          then Some (implementors (implementations doc) i) else None)) \<and>
      (\<forall>n. map_of ifaces n =
         (case interfaces_of doc (implementations doc) n of [] \<Rightarrow> None | l \<Rightarrow> Some l)))"
proof (cases "list_all (implementation_ok doc) (implementations doc)")
  case True
  let ?types = "bt_from_iter (map (\<lambda>t. (intf_name t, [])) (get_interface_type_definitions doc))"
  have "map_of ?types (snd x) \<noteq> None" if "x \<in> set (implementations doc)" for x
    using True that find_interface_defined [of doc "snd x"]
    by (auto simp: map_of_initial_types list_all_iff implementation_ok_def)
  from collect_fold_ok [OF True this, of show_field "[]"]
  obtain ifaces types where r: "collect_interfaces show_field doc = Inr (ifaces, types)"
    "\<forall>i. map_of types i = map_option (\<lambda>l. l @ implementors (implementations doc) i) (map_of ?types i)"
    "\<forall>n. map_of ifaces n = extended None (interfaces_of doc (implementations doc) n)"
    unfolding collect_interfaces_def by auto
  with True show ?thesis
    by (auto simp: map_of_initial_types extended_def split: list.splits)
next
  case False
  then obtain e where "collect_interfaces show_field doc = Inl e"
    using collect_fold_error unfolding collect_interfaces_def by blast
  with False show ?thesis by simp
qed

text \<open>
  C26. Building a schema succeeds exactly when every interface an object type names is defined and
  the object type has all of its fields with the same names and types. The result then lists, for
  every interface and nothing else, its implementors in the order of the document, interfaces
  without implementors included; and for every object type that implements something its interfaces
  in the order in which it names them.
\<close>

theorem collect_interfaces_correct:
  "((\<exists>r. collect_interfaces show_field doc = Inr r) \<longleftrightarrow> list_all (implementation_ok doc) (implementations doc)) \<and>
   (\<forall>ifaces types. collect_interfaces show_field doc = Inr (ifaces, types) \<longrightarrow>
      (\<forall>i. map_of types i =
         (if i \<in> intf_name ` set (get_interface_type_definitions doc)
          then Some (implementors (implementations doc) i) else None)) \<and>
      (\<forall>n. map_of ifaces n =
         (case interfaces_of doc (implementations doc) n of [] \<Rightarrow> None | l \<Rightarrow> Some l)))"
  by (rule collect_interfaces_facts)

theorem collect_interfaces_correct_witness:
  "\<exists>r. collect_interfaces fld_name
      [TypeDefinition (TD_Interface \<lparr>intf_name = ''I'', intf_directives = [], intf_fields = []\<rparr>),
       TypeDefinition (TD_Object \<lparr>obj_name = ''A'', obj_implements_interfaces = [''I''], obj_directives = [], obj_fields = []\<rparr>)]
    = Inr r"
  using collect_interfaces_correct [of fld_name
      "[TypeDefinition (TD_Interface \<lparr>intf_name = ''I'', intf_directives = [], intf_fields = []\<rparr>),
       TypeDefinition (TD_Object \<lparr>obj_name = ''A'', obj_implements_interfaces = [''I''], obj_directives = [], obj_fields = []\<rparr>)]"]
  by (simp add: implementations_def get_object_type_definitions_def implementation_ok_def find_interface_def
      find_map_def satisfies_def)

section \<open>Subgraph id directives\<close>

fun td_directives :: "type_definition \<Rightarrow> directive list" where
  "td_directives (TD_Scalar t) = pt_directives t"
| "td_directives (TD_Object t) = obj_directives t"
| "td_directives (TD_Interface t) = intf_directives t"
| "td_directives (TD_Union t) = pt_directives t"
| "td_directives (TD_Enum t) = pt_directives t"
| "td_directives (TD_InputObject t) = pt_directives t"

lemma push_subgraph_id_idem [simp]:
  "push_subgraph_id h' n (push_subgraph_id h n ds) = push_subgraph_id h n ds"
  by (auto simp: push_subgraph_id_def subgraph_id_directive_def)

lemma add_subgraph_id_facts:
  "add_subgraph_id h' (add_subgraph_id h td) = add_subgraph_id h td"
  "type_definition_name (add_subgraph_id h td) = type_definition_name td"
  "td_directives (add_subgraph_id h td) = push_subgraph_id h (type_definition_name td) (td_directives td)"
  by (cases td; simp)+



section \<open>Following imports\<close>

definition handled :: "(schema_reference \<Rightarrow> schema option) \<Rightarrow> import_state \<Rightarrow> schema_reference \<Rightarrow> bool" where
  "handled store st r =
     (case store r of
        None \<Rightarrow> ImportedSchemaNotFound r \<in> set (snd (snd st))
      | Some sch \<Rightarrow> r \<in> fst (snd st) \<and> map_of (fst st) r = Some sch)"

definition grows :: "(schema_reference \<Rightarrow> schema option) \<Rightarrow> import_state \<Rightarrow> import_state \<Rightarrow> bool" where
  "grows store st st' \<longleftrightarrow>
     (\<forall>r. handled store st r \<longrightarrow> handled store st' r) \<and> fst (snd st) \<subseteq> fst (snd st') \<and>
     (\<forall>e \<in> set (snd (snd st')). e \<in> set (snd (snd st)) \<or> (\<exists>r. e = ImportedSchemaNotFound r \<and> store r = None))"

definition imports_handled :: "(schema_reference \<Rightarrow> schema option) \<Rightarrow> import_state \<Rightarrow> schema_reference \<Rightarrow> bool" where
  "imports_handled store st v \<longleftrightarrow>
     (\<forall>sch. store v = Some sch \<longrightarrow> (\<forall>r \<in> set (imported_schemas (sch_document sch)). handled store st r))"

lemma grows_trans: "grows store a b \<Longrightarrow> grows store b c \<Longrightarrow> grows store a c"
  unfolding grows_def by blast

lemma imports_handled_mono: "grows store a b \<Longrightarrow> imports_handled store a v \<Longrightarrow> imports_handled store b v"
  unfolding grows_def imports_handled_def by blast

locale schema_store =
  fixes store :: "schema_reference \<Rightarrow> schema option" and U :: "deployment_hash set"
  assumes store_id: "store r = Some sch \<Longrightarrow> sch_id sch = r"
    and finite_U: "finite U"
    and store_U: "store r = Some sch \<Longrightarrow> r \<in> U"
begin

lemma resolve_total:
  "card (U - visited) \<le> fuel \<Longrightarrow>
   \<exists>st'. resolve_import_graph store fuel refs (schemas, visited, errors) = Some st' \<and> visited \<subseteq> fst (snd st')"
proof (induction store \<equiv> store fuel refs "(schemas, visited, errors)" arbitrary: schemas visited errors
    rule: resolve_import_graph.induct)
  case (2 fuel r refs schemas visited errors)
  show ?case
  proof (cases "store r")
    case None
    with 2 show ?thesis by simp
  next
    case (Some sch)
    show ?thesis
    proof (cases "sch_id sch \<in> visited")
      case True
      with Some 2 show ?thesis by simp
    next
      case False
      have inU: "sch_id sch \<in> U" using store_U [OF Some] store_id [OF Some] by simp
      have "U - insert (sch_id sch) visited = (U - visited) - {sch_id sch}" by auto
      moreover have "sch_id sch \<in> U - visited" using inU False by simp
      ultimately have card: "card (U - insert (sch_id sch) visited) = card (U - visited) - 1"
        "0 < card (U - visited)"
        using finite_U by (auto simp: card_gt_0_iff)
      then obtain n where fuel: "fuel = Suc n" using 2(5) by (cases fuel) auto
      have "card (U - insert (sch_id sch) visited) \<le> n" using card 2(5) fuel by simp
      from 2(3) [OF Some False fuel this] obtain st1 where
        st1: "resolve_import_graph store n (imported_schemas (sch_document sch))
          (hm_insert r sch schemas, insert (sch_id sch) visited, errors) = Some st1"
          "insert (sch_id sch) visited \<subseteq> fst (snd st1)" by blast
      obtain s1 v1 e1 where st1_eq: "st1 = (s1, v1, e1)" by (cases st1)
      have "U - v1 \<subseteq> U - visited" using st1(2) st1_eq by auto
      then have "card (U - v1) \<le> fuel"
        using 2(5) card_mono [of "U - visited" "U - v1"] finite_U by simp
      from 2(4) [OF Some False fuel st1(1) [unfolded st1_eq] this] show ?thesis
        using Some False fuel st1 st1_eq by auto
    qed
  qed
qed simp

lemma handled_insert: "store r = Some sch \<Longrightarrow> r \<in> V \<Longrightarrow> handled store (hm_insert r sch S, V, E) r"
  by (simp add: handled_def hm_simps)

lemma grows_insert:
  assumes "store r = Some sch" "V \<subseteq> V'"
  shows "grows store (S, V, E) (hm_insert r sch S, V', E)"
  using assms by (auto simp: grows_def handled_def hm_simps split: option.splits)

lemma resolve_complete:
  "resolve_import_graph store fuel refs st = Some st' \<Longrightarrow>
   grows store st st' \<and> (\<forall>r \<in> set refs. handled store st' r) \<and>
   (\<forall>v \<in> fst (snd st') - fst (snd st). imports_handled store st' v)"
proof (induction store \<equiv> store fuel refs st arbitrary: st' rule: resolve_import_graph.induct)
  case (1 fuel st)
  then show ?case by (simp add: grows_def)
next
  case (2 fuel r refs S V E)
  show ?case
  proof (cases "store r")
    case None
    let ?st1 = "(S, V, E @ [ImportedSchemaNotFound r])"
    have g: "grows store (S, V, E) ?st1" "handled store ?st1 r"
      using None by (auto simp: grows_def handled_def split: option.splits)
    from 2(1) [OF None, of st'] 2(5) None have IH: "grows store ?st1 st'"
      "\<forall>r \<in> set refs. handled store st' r" "\<forall>v \<in> fst (snd st') - V. imports_handled store st' v" by auto
    have "handled store st' r" using g(2) IH(1) unfolding grows_def by blast
    with IH grows_trans [OF g(1) IH(1)] show ?thesis by simp
  next
    case (Some sch)
    have sid: "sch_id sch = r" by (rule store_id [OF Some])
    show ?thesis
    proof (cases "sch_id sch \<in> V")
      case True
      let ?st1 = "(hm_insert r sch S, V, E)"
      have g: "grows store (S, V, E) ?st1" "handled store ?st1 r"
        using grows_insert [OF Some, of V V] handled_insert [OF Some] True sid by auto
      from 2(2) [OF Some True, of st'] 2(5) Some True have IH: "grows store ?st1 st'"
        "\<forall>r \<in> set refs. handled store st' r" "\<forall>v \<in> fst (snd st') - V. imports_handled store st' v" by auto
      have "handled store st' r" using g(2) IH(1) unfolding grows_def by blast
      with IH grows_trans [OF g(1) IH(1)] show ?thesis by simp
    next
      case False
      let ?st1 = "(hm_insert r sch S, insert r V, E)"
      from 2(5) Some False obtain n st2 where fuel: "fuel = Suc n"
        and inner: "resolve_import_graph store n (imported_schemas (sch_document sch)) ?st1 = Some st2"
        and outer: "resolve_import_graph store fuel refs st2 = Some st'"
        using sid by (auto split: nat.splits option.splits)
      have g1: "grows store (S, V, E) ?st1" "handled store ?st1 r"
        using grows_insert [OF Some, of V "insert r V"] handled_insert [OF Some, of "insert r V"] by auto
      from 2(3) [OF Some False fuel, of st2] inner sid have IH1: "grows store ?st1 st2"
        "\<forall>r \<in> set (imported_schemas (sch_document sch)). handled store st2 r"
        "\<forall>v \<in> fst (snd st2) - insert r V. imports_handled store st2 v" by auto
      from 2(4) [OF Some False fuel _ outer] inner sid have IH2: "grows store st2 st'"
        "\<forall>r \<in> set refs. handled store st' r" "\<forall>v \<in> fst (snd st') - fst (snd st2). imports_handled store st' v"
        by auto
      have "imports_handled store st2 r" using Some IH1(2) by (auto simp: imports_handled_def)
      then have "\<forall>v \<in> fst (snd st2) - V. imports_handled store st' v"
        using IH1(3) imports_handled_mono [OF IH2(1)] by (metis Diff_iff insert_iff)
      then have "\<forall>v \<in> fst (snd st') - V. imports_handled store st' v" using IH2(3) by blast
      moreover have "grows store (S, V, E) st'" using g1(1) IH1(1) IH2(1) grows_trans by blast
      moreover have "handled store st' r" using g1(2) IH1(1) IH2(1) unfolding grows_def by blast
      ultimately show ?thesis using IH2(2) by simp
    qed
  qed
qed

end

text \<open>The references that can be reached from a schema by following imports.\<close>

inductive import_reachable :: "(schema_reference \<Rightarrow> schema option) \<Rightarrow> schema \<Rightarrow> schema_reference \<Rightarrow> bool"
  for store sch where
  direct: "r \<in> set (imported_schemas (sch_document sch)) \<Longrightarrow> import_reachable store sch r"
| step: "import_reachable store sch r \<Longrightarrow> store r = Some sch' \<Longrightarrow>
    r' \<in> set (imported_schemas (sch_document sch')) \<Longrightarrow> import_reachable store sch r'"

text \<open>
  C27. Resolving the imports of a schema terminates on every import graph, cyclic ones included, with
  at most one nested call per schema of the store. The result holds the schema of every reference
  that can be reached through imports and exists; every reachable reference that does not exist is
  reported, and nothing that exists is reported.
\<close>

theorem resolve_schema_references_complete:
  assumes "schema_store store U" "card U \<le> fuel"
  shows "\<exists>schemas errors. resolve_schema_references store fuel sch = Some (schemas, errors) \<and>
    (\<forall>r sch'. import_reachable store sch r \<and> store r = Some sch' \<longrightarrow> map_of schemas r = Some sch') \<and>
    (\<forall>r. import_reachable store sch r \<and> store r = None \<longrightarrow> ImportedSchemaNotFound r \<in> set errors) \<and>
    (\<forall>r. ImportedSchemaNotFound r \<in> set errors \<longrightarrow> store r = None)"
proof -
  let ?refs = "imported_schemas (sch_document sch)"
  from schema_store.resolve_total [OF assms(1), of "{}" fuel ?refs "[]" "[]"] assms(2)
  obtain S V E where run: "resolve_import_graph store fuel ?refs ([], {}, []) = Some (S, V, E)"
    by auto
  from schema_store.resolve_complete [OF assms(1) run]
  have g: "grows store ([], {}, []) (S, V, E)" and start: "\<forall>r \<in> set ?refs. handled store (S, V, E) r"
    and closed: "\<forall>v \<in> V. imports_handled store (S, V, E) v" by auto
  have "handled store (S, V, E) r" if "import_reachable store sch r" for r
    using that
  proof induction
    case (direct r)
    with start show ?case by blast
  next
    case (step r sch' r')
    then have "r \<in> V" by (simp add: handled_def)
    with closed step show ?case by (auto simp: imports_handled_def)
  qed
  moreover have "\<forall>r. ImportedSchemaNotFound r \<in> set E \<longrightarrow> store r = None"
    using g by (auto simp: grows_def)
  ultimately show ?thesis using run
    by (intro exI [of _ S] exI [of _ E]) (fastforce simp: resolve_schema_references_def handled_def)
qed

definition empty_schema :: "deployment_hash \<Rightarrow> s_document \<Rightarrow> schema" where
  "empty_schema h doc = \<lparr> sch_id = h, sch_document = doc, sch_interfaces_for_type = [],
     sch_types_for_interface = [], sch_immutable_types = {} \<rparr>"

text \<open>A schema that imports itself and one that does not exist.\<close>

definition self_importing :: schema where
  "self_importing = empty_schema ''QmA''
     [TypeDefinition (TD_Object \<lparr>obj_name = ''_Schema_'', obj_implements_interfaces = [],
        obj_directives =
          [\<lparr>dir_name = ''import'', dir_arguments = [(''from'', SV_Object [(''id'', SV_String ''QmA'')])]\<rparr>,
           \<lparr>dir_name = ''import'', dir_arguments = [(''from'', SV_Object [(''id'', SV_String ''QmB'')])]\<rparr>],
        obj_fields = []\<rparr>)]"

interpretation self_store: schema_store "\<lambda>r. if r = ''QmA'' then Some self_importing else None" "{''QmA''}"
  by unfold_locales (auto simp: self_importing_def empty_schema_def split: if_splits)

theorem resolve_schema_references_complete_witness:
  "\<exists>schemas errors.
     resolve_schema_references (\<lambda>r. if r = ''QmA'' then Some self_importing else None) 1 self_importing
       = Some (schemas, errors) \<and> map_of schemas ''QmA'' = Some self_importing \<and>
     ImportedSchemaNotFound ''QmB'' \<in> set errors"
proof -
  let ?store = "\<lambda>r. if r = ''QmA'' then Some self_importing else None"
  have "imported_schemas (sch_document self_importing) = [''QmA'', ''QmB'']" by code_simp
  then have reach: "import_reachable ?store self_importing ''QmA''" "import_reachable ?store self_importing ''QmB''"
    by (auto intro: import_reachable.direct)
  have "card {''QmA''} \<le> 1" by simp
  from resolve_schema_references_complete [OF self_store.schema_store_axioms this, of self_importing]
  obtain S E where r: "resolve_schema_references ?store 1 self_importing = Some (S, E)"
    and found: "\<forall>r sch'. import_reachable ?store self_importing r \<and> ?store r = Some sch' \<longrightarrow> map_of S r = Some sch'"
    and missing: "\<forall>r. import_reachable ?store self_importing r \<and> ?store r = None \<longrightarrow>
      ImportedSchemaNotFound r \<in> set E"
    by blast
  have "map_of S ''QmA'' = Some self_importing" using found reach(1) by simp
  moreover have "ImportedSchemaNotFound ''QmB'' \<in> set E" using missing reach(2) by simp
  ultimately show ?thesis using r by blast
qed

end
