(* ===== verification/Schema_Validation.thy ===== *)
theory Schema_Validation
  imports Schema
begin

text \<open>
  \<open>Schema::validate\<close> of \<open>graph/src/data/schema.rs\<close> and the checks it runs. The conversions of names to
  camel case and plural come from the crate \<open>inflector\<close> and are the parameters \<open>to_camel_case\<close> and
  \<open>to_plural\<close>.
\<close>

section \<open>The schema type\<close>

definition validate_schema_type_has_no_fields :: "s_document \<Rightarrow> schema_validation_error + unit" where
  "validate_schema_type_has_no_fields doc =
     (case subgraph_schema_object_type doc of
        Some t \<Rightarrow> if obj_fields t \<noteq> [] then Inl SchemaTypeWithFields else Inr ()
      | None \<Rightarrow> Inr ())"

definition validate_directives_on_schema_type :: "s_document \<Rightarrow> schema_validation_error + unit" where
  "validate_directives_on_schema_type doc =
     (case subgraph_schema_object_type doc of
        Some t \<Rightarrow>
          if filter (\<lambda>d. dir_name d \<noteq> ''import'' \<and> dir_name d \<noteq> ''fulltext'') (obj_directives t) \<noteq> []
          then Inl InvalidSchemaTypeDirectives else Inr ()
      | None \<Rightarrow> Inr ())"

section \<open>Imports\<close>

definition validate_import_type :: "s_value \<Rightarrow> bool" where
  "validate_import_type typ =
     (case typ of
        SV_String _ \<Rightarrow> True
      | SV_Object m \<Rightarrow>
          (case (map_of m ''name'', map_of m ''as'') of
             (Some (SV_String _), Some (SV_String _)) \<Rightarrow> True
           | _ \<Rightarrow> False)
      | _ \<Rightarrow> False)"

definition types_are_valid :: "s_value option \<Rightarrow> bool" where
  "types_are_valid types =
     (case types of Some (SV_List ts) \<Rightarrow> list_all validate_import_type ts | _ \<Rightarrow> False)"

definition is_sv_string :: "s_value option \<Rightarrow> bool" where
  "is_sv_string v = (case v of Some (SV_String _) \<Rightarrow> True | _ \<Rightarrow> False)"

definition from_is_valid :: "s_value option \<Rightarrow> bool" where
  "from_is_valid from =
     (case from of
        Some (SV_Object m) \<Rightarrow> is_sv_string (map_of m ''id'') \<noteq> is_sv_string (map_of m ''name'')
      | _ \<Rightarrow> False)"

definition validate_import_directive_arguments :: "directive \<Rightarrow> schema_validation_error option" where
  "validate_import_directive_arguments import =
     (if from_is_valid (argument import ''from'') \<and> types_are_valid (argument import ''types'')
      then None else Some ImportDirectiveInvalid)"

definition validate_import_directive_schema_reference_parses ::
    "directive \<Rightarrow> schema_validation_error option" where
  "validate_import_directive_schema_reference_parses d =
     (case argument d ''from'' of
        Some (SV_Object from) \<Rightarrow>
          (let id_parse_error =
             (case map_of from ''id'' of
                Some (SV_String i) \<Rightarrow>
                  (case deployment_hash_new i of Inl _ \<Rightarrow> Some (ImportedSubgraphIdInvalid i) | Inr _ \<Rightarrow> None)
              | _ \<Rightarrow> None);
               name_parse_error =
             (case map_of from ''name'' of
                Some (SV_String n) \<Rightarrow>
                  (case subgraph_name_new n of None \<Rightarrow> Some (ImportedSubgraphNameInvalid n) | Some _ \<Rightarrow> None)
              | _ \<Rightarrow> None)
           in case id_parse_error of Some e \<Rightarrow> Some e | None \<Rightarrow> name_parse_error)
      | _ \<Rightarrow> None)"

definition option_list :: "'a option \<Rightarrow> 'a list" where
  "option_list x = (case x of None \<Rightarrow> [] | Some y \<Rightarrow> [y])"

definition validate_import_directives :: "s_document \<Rightarrow> schema_validation_error list" where
  "validate_import_directives doc =
     (case subgraph_schema_object_type doc of
        None \<Rightarrow> []
      | Some t \<Rightarrow>
          fold (\<lambda>import errors.
             errors @ option_list (validate_import_directive_arguments import)
               @ option_list (validate_import_directive_schema_reference_parses import))
            (filter (\<lambda>d. dir_name d = ''import'') (obj_directives t)) [])"

definition validate_imported_types ::
    "(s_value \<Rightarrow> string) \<Rightarrow> (schema_reference, schema) hash_map \<Rightarrow> s_document \<Rightarrow>
     schema_validation_error list" where
  "validate_imported_types show_value schemas doc =
     fold (\<lambda>(imported_type, schema_ref) errors.
        errors @
        (case hm_get schemas schema_ref of
           None \<Rightarrow> []
         | Some sch \<Rightarrow>
             (let name = imp_name imported_type;
                  is_local = list_ex (\<lambda>t. obj_name t = name) (get_object_type_definitions (sch_document sch));
                  is_imported = list_ex (\<lambda>(import, _). name = imp_alias import)
                    (imported_types show_value (sch_document sch))
              in if \<not> is_local \<and> \<not> is_imported then [ImportedTypeUndefined name schema_ref] else [])))
       (imported_types show_value doc) []"

section \<open>Full text directives\<close>

definition validate_fulltext_directive_name ::
    "(string \<Rightarrow> string) \<Rightarrow> (string \<Rightarrow> string) \<Rightarrow> s_document \<Rightarrow> directive \<Rightarrow> schema_validation_error list" where
  "validate_fulltext_directive_name to_camel_case to_plural doc fulltext =
     (case argument fulltext ''name'' of
        Some (SV_String name) \<Rightarrow>
          (if list_ex (\<lambda>t. list_ex (\<lambda>f. name = to_camel_case (fld_name f) \<or>
                                         name = to_camel_case (to_plural (fld_name f)) \<or> fld_name f = name)
                              (obj_fields t)) (get_object_type_definitions doc)
           then [FulltextNameCollision name]
           else case subgraph_schema_object_type doc of
                  None \<Rightarrow> []
                | Some t \<Rightarrow>
                    if length (filter (\<lambda>d. dir_name d = ''fulltext'' \<and> argument d ''name'' = Some (SV_String name))
                         (obj_directives t)) > 1
                    then [FulltextNameConflict name] else [])
      | _ \<Rightarrow> [FulltextNameUndefined])"

definition validate_fulltext_directive_language :: "directive \<Rightarrow> schema_validation_error list" where
  "validate_fulltext_directive_language fulltext =
     (case argument fulltext ''language'' of
        Some (SV_Enum language) \<Rightarrow>
          (case fulltext_language_try_from language of
             Some _ \<Rightarrow> [] | None \<Rightarrow> [FulltextLanguageInvalid language])
      | _ \<Rightarrow> [FulltextLanguageUndefined])"

definition validate_fulltext_directive_algorithm :: "directive \<Rightarrow> schema_validation_error list" where
  "validate_fulltext_directive_algorithm fulltext =
     (case argument fulltext ''algorithm'' of
        Some (SV_Enum algorithm) \<Rightarrow>
          (case fulltext_algorithm_try_from algorithm of
             Some _ \<Rightarrow> [] | None \<Rightarrow> [FulltextAlgorithmInvalid algorithm])
      | _ \<Rightarrow> [FulltextAlgorithmUndefined])"

text \<open>The two loops over the included entities and their fields return at the first error.\<close>

fun check_included_fields :: "object_type \<Rightarrow> s_value list \<Rightarrow> schema_validation_error option" where
  "check_included_fields entity_type [] = None"
| "check_included_fields entity_type (field_value # rest) =
     (case field_value of
        SV_Object field_map \<Rightarrow>
          (case map_of field_map ''name'' of
             Some (SV_String field_name) \<Rightarrow>
               (if list_ex (\<lambda>f. value_type_from_str (get_base_type (fld_type f)) = Some VT_String \<and>
                              fld_name f = field_name) (obj_fields entity_type)
                then check_included_fields entity_type rest
                else Some (FulltextIncludedFieldInvalid field_name))
           | _ \<Rightarrow> Some FulltextIncludedFieldMissingRequiredProperty)
      | _ \<Rightarrow> Some FulltextIncludeEntityMissingOrIncorrectAttributes)"

fun check_includes :: "object_type list \<Rightarrow> s_value list \<Rightarrow> schema_validation_error option" where
  "check_includes local_types [] = None"
| "check_includes local_types (include # rest) =
     (case sv_as_object include of
        None \<Rightarrow> Some FulltextIncludeObjectMissing
      | Some m \<Rightarrow>
          (case (map_of m ''entity'', map_of m ''fields'') of
             (Some (SV_String entity), Some (SV_List fs)) \<Rightarrow>
               (case find (\<lambda>t. obj_name t = entity) local_types of
                  None \<Rightarrow> Some FulltextIncludedEntityNotFound
                | Some entity_type \<Rightarrow>
                    (case check_included_fields entity_type fs of
                       Some e \<Rightarrow> Some e
                     | None \<Rightarrow> check_includes local_types rest))
           | _ \<Rightarrow> Some FulltextIncludeEntityMissingOrIncorrectAttributes))"

definition validate_fulltext_directive_includes :: "s_document \<Rightarrow> directive \<Rightarrow> schema_validation_error list" where
  "validate_fulltext_directive_includes doc fulltext =
     (case argument fulltext ''include'' of
        Some (SV_List includes) \<Rightarrow>
          (if includes = [] then [FulltextIncludeUndefined]
           else option_list (check_includes (get_object_type_definitions doc) includes))
      | _ \<Rightarrow> [FulltextIncludeUndefined])"

definition validate_fulltext_directives ::
    "(string \<Rightarrow> string) \<Rightarrow> (string \<Rightarrow> string) \<Rightarrow> s_document \<Rightarrow> schema_validation_error list" where
  "validate_fulltext_directives to_camel_case to_plural doc =
     (case subgraph_schema_object_type doc of
        None \<Rightarrow> []
      | Some t \<Rightarrow>
          fold (\<lambda>fulltext errors.
             errors @ validate_fulltext_directive_name to_camel_case to_plural doc fulltext
               @ validate_fulltext_directive_language fulltext
               @ validate_fulltext_directive_algorithm fulltext
               @ validate_fulltext_directive_includes doc fulltext)
            (filter (\<lambda>d. dir_name d = ''fulltext'') (obj_directives t)) [])"

section \<open>Fields and types\<close>

definition field_type_known :: "(s_value \<Rightarrow> string) \<Rightarrow> s_document \<Rightarrow> string \<Rightarrow> bool" where
  "field_type_known show_value doc base \<longleftrightarrow>
     is_scalar base \<or> hm_get (get_object_and_interface_type_fields doc) base \<noteq> None \<or>
     list_ex (\<lambda>(t, _). imp_alias t = base) (imported_types show_value doc) \<or>
     list_ex (\<lambda>e. pt_name e = base) (get_enum_definitions doc)"

definition validate_fields :: "(s_value \<Rightarrow> string) \<Rightarrow> s_document \<Rightarrow> schema_validation_error list" where
  "validate_fields show_value doc =
     fold (\<lambda>(tn, fs) errors.
        fold (\<lambda>f errors.
           let base = get_base_type (fld_type f) in
           if field_type_known show_value doc base then errors
           else errors @ [FieldTypeUnknown tn (fld_name f) base]) fs errors)
       (get_object_and_interface_type_fields doc) []"

definition reserved_type_names :: "s_document \<Rightarrow> string list" where
  "reserved_type_names doc =
     (let object_types = map obj_name (get_object_type_definitions doc);
          interface_types = map intf_name (get_interface_type_definitions doc)
      in [''Boolean'', ''ID'', ''Int'', ''BigDecimal'', ''String'', ''Bytes'', ''BigInt'', ''Query'',
          ''Subscription'']
         @ map (\<lambda>n. n @ ''_filter'') (object_types @ interface_types)
         @ map (\<lambda>n. n @ ''_orderBy'') (object_types @ interface_types))"

definition validate_reserved_types_usage :: "s_document \<Rightarrow> schema_validation_error + unit" where
  "validate_reserved_types_usage doc =
     (let reserved_types = filter (\<lambda>n. get_named_type doc n \<noteq> None) (reserved_type_names doc)
      in if reserved_types = [] then Inr () else Inl (UsageOfReservedTypes reserved_types))"

definition validate_schema_types :: "s_document \<Rightarrow> schema_validation_error + unit" where
  "validate_schema_types doc =
     (let types_without_entity_directive =
        map obj_name
          (filter (\<lambda>t. find_directive (obj_directives t) ''entity'' = None \<and> obj_name t \<noteq> SCHEMA_TYPE_NAME)
             (get_object_type_definitions doc))
      in if types_without_entity_directive = [] then Inr ()
         else Inl (EntityDirectivesMissing types_without_entity_directive))"

fun join_comma :: "string list \<Rightarrow> string" where
  "join_comma [] = []"
| "join_comma [s] = s"
| "join_comma (s # t # ss) = s @ '', '' @ join_comma (t # ss)"

definition type_signatures :: "string \<Rightarrow> string list" where
  "type_signatures name = [name, name @ ''!'', ''['' @ name @ ''!]'', ''['' @ name @ ''!]!'']"

text \<open>The interfaces of a type that have a field of the given name.\<close>

definition interfaces_with_field :: "s_document \<Rightarrow> object_type \<Rightarrow> s_field \<Rightarrow> string list" where
  "interfaces_with_field doc t f =
     filter (\<lambda>iface.
        case find_interface doc iface of
          Some i \<Rightarrow> list_ex (\<lambda>ifield. fld_name ifield = fld_name f) (intf_fields i)
        | None \<Rightarrow> False) (obj_implements_interfaces t)"

text \<open>One derived field: its type, the interfaces of that type that have the field, the field, the argument.\<close>

definition derived_fields ::
    "s_document \<Rightarrow> (object_type \<times> string list \<times> s_field \<times> s_value option) list" where
  "derived_fields doc =
     filter_map
       (\<lambda>(t, f).
          map_option
            (\<lambda>d. (t, interfaces_with_field doc t f, f, argument d ''field''))
            (find_directive (fld_directives f) ''derivedFrom''))
       (concat (map (\<lambda>t. map (Pair t) (obj_fields t)) (get_object_type_definitions doc)))"

definition check_derived_field ::
    "s_document \<Rightarrow> object_type \<times> string list \<times> s_field \<times> s_value option \<Rightarrow> schema_validation_error option" where
  "check_derived_field doc x =
     (let (t, interface_types, f, target_field) = x;
          invalid = (\<lambda>reason. Some (InvalidDerivedFrom (obj_name t) (fld_name f) reason));
          target_type_name = get_base_type (fld_type f)
      in case target_field of
           None \<Rightarrow> invalid ''the @derivedFrom directive must have a `field` argument''
         | Some (SV_String s) \<Rightarrow>
             (case hm_get (get_object_and_interface_type_fields doc) target_type_name of
                None \<Rightarrow> invalid ''type must be an existing entity or interface''
              | Some target_fields \<Rightarrow>
                  (case find (\<lambda>f. fld_name f = s) target_fields of
                     None \<Rightarrow> invalid (''field `'' @ s @ ''` does not exist on type `'' @ target_type_name @ ''`'')
                   | Some target \<Rightarrow>
                       (let target_field_type = get_base_type (fld_type target)
                        in if target_field_type \<noteq> obj_name t \<and> target_field_type \<noteq> ''ID'' \<and>
                              target_field_type \<notin> set interface_types
                           then invalid (''field `'' @ fld_name target @ ''` on type `'' @ target_type_name @
                                  ''` must have one of the following types: '' @
                                  join_comma (type_signatures (obj_name t) @ concat (map type_signatures interface_types)))
                           else None)))
         | Some _ \<Rightarrow> invalid ''the @derivedFrom `field` argument must be a string'')"

definition validate_derived_from :: "s_document \<Rightarrow> schema_validation_error + unit" where
  "validate_derived_from doc =
     (case find_map (check_derived_field doc) (derived_fields doc) of
        Some e \<Rightarrow> Inl e | None \<Rightarrow> Inr ())"

definition id_types :: "object_type list \<Rightarrow> string set" where
  "id_types ts =
     set (map (\<lambda>f. let n = get_base_type (fld_type f) in if n = ''ID'' then ''String'' else n)
       (filter_map (\<lambda>t. object_field t ''id'') ts))"

definition validate_interface_id_type ::
    "(entity_type, object_type list) btree_map \<Rightarrow> schema_validation_error + unit" where
  "validate_interface_id_type types_for_interface =
     (case find (\<lambda>(intf, ts). card (id_types ts) > 1) types_for_interface of
        Some (intf, ts) \<Rightarrow> Inl (InterfaceImplementorsMixId intf (id_types ts))
      | None \<Rightarrow> Inr ())"

section \<open>All checks\<close>

fun unwrap_errs :: "(schema_validation_error + unit) list \<Rightarrow> schema_validation_error list" where
  "unwrap_errs [] = []"
| "unwrap_errs (Inl e # rs) = e # unwrap_errs rs"
| "unwrap_errs (Inr _ # rs) = unwrap_errs rs"

definition validate ::
    "(s_value \<Rightarrow> string) \<Rightarrow> (string \<Rightarrow> string) \<Rightarrow> (string \<Rightarrow> string) \<Rightarrow>
     (schema_reference, schema) hash_map \<Rightarrow> schema \<Rightarrow> schema_validation_error list + unit" where
  "validate show_value to_camel_case to_plural schemas sch =
     (let doc = sch_document sch;
          errors =
            unwrap_errs
              [validate_schema_types doc, validate_derived_from doc, validate_schema_type_has_no_fields doc,
               validate_directives_on_schema_type doc, validate_reserved_types_usage doc,
               validate_interface_id_type (sch_types_for_interface sch)]
            @ validate_fields show_value doc @ validate_import_directives doc
            @ validate_fulltext_directives to_camel_case to_plural doc
            @ validate_imported_types show_value schemas doc
      in if errors = [] then Inr () else Inl errors)"

section \<open>What a validated schema guarantees\<close>

lemma fold_append_concat: "fold (\<lambda>x acc. acc @ f x) xs acc = acc @ concat (map f xs)"
  by (induction xs arbitrary: acc) auto

lemma fold_append_nil: "fold (\<lambda>x acc. acc @ f x) xs [] = [] \<longleftrightarrow> (\<forall>x \<in> set xs. f x = [])"
  by (simp add: fold_append_concat)

lemma option_list_nil [simp]: "option_list x = [] \<longleftrightarrow> x = None"
  by (simp add: option_list_def split: option.splits)

lemma unwrap_errs_nil: "unwrap_errs rs = [] \<longleftrightarrow> (\<forall>r \<in> set rs. r = Inr ())"
  by (induction rs rule: unwrap_errs.induct) auto

lemma validate_ok_iff:
  "validate sv cc pl schemas sch = Inr () \<longleftrightarrow>
     validate_schema_types (sch_document sch) = Inr () \<and> validate_derived_from (sch_document sch) = Inr () \<and>
     validate_schema_type_has_no_fields (sch_document sch) = Inr () \<and>
     validate_directives_on_schema_type (sch_document sch) = Inr () \<and>
     validate_reserved_types_usage (sch_document sch) = Inr () \<and>
     validate_interface_id_type (sch_types_for_interface sch) = Inr () \<and>
     validate_fields sv (sch_document sch) = [] \<and> validate_import_directives (sch_document sch) = [] \<and>
     validate_fulltext_directives cc pl (sch_document sch) = [] \<and>
     validate_imported_types sv schemas (sch_document sch) = []"
  by (simp add: validate_def Let_def unwrap_errs_nil)

subsection \<open>Derived fields\<close>

definition derived_ok :: "s_document \<Rightarrow> object_type \<Rightarrow> s_field \<Rightarrow> directive \<Rightarrow> bool" where
  "derived_ok doc t f d \<longleftrightarrow>
     (\<exists>s fs g. argument d ''field'' = Some (SV_String s) \<and>
        map_of (get_object_and_interface_type_fields doc) (get_base_type (fld_type f)) = Some fs \<and>
        find (\<lambda>f. fld_name f = s) fs = Some g \<and>
        (get_base_type (fld_type g) = obj_name t \<or> get_base_type (fld_type g) = ''ID'' \<or>
         (get_base_type (fld_type g) \<in> set (obj_implements_interfaces t) \<and>
          (\<exists>i. find_interface doc (get_base_type (fld_type g)) = Some i \<and>
             (\<exists>j \<in> set (intf_fields i). fld_name j = fld_name f)))))"

lemma check_derived_field_None:
  "check_derived_field doc (t, is, f, a) = None \<longleftrightarrow>
     (\<exists>s fs g. a = Some (SV_String s) \<and>
        map_of (get_object_and_interface_type_fields doc) (get_base_type (fld_type f)) = Some fs \<and>
        find (\<lambda>f. fld_name f = s) fs = Some g \<and>
        (get_base_type (fld_type g) = obj_name t \<or> get_base_type (fld_type g) = ''ID'' \<or>
         get_base_type (fld_type g) \<in> set is))"
proof (cases "\<exists>s. a = Some (SV_String s)")
  case False
  then have "check_derived_field doc (t, is, f, a) \<noteq> None"
    by (simp add: check_derived_field_def Let_def split: option.splits s_value.splits)
  with False show ?thesis by blast
next
  case True
  then obtain s where s: "a = Some (SV_String s)" by blast
  show ?thesis
    unfolding check_derived_field_def s Let_def
    by (auto split: option.splits if_splits)
qed

lemma interfaces_with_field_iff:
  "n \<in> set (interfaces_with_field doc t f) \<longleftrightarrow>
     n \<in> set (obj_implements_interfaces t) \<and>
     (\<exists>i. find_interface doc n = Some i \<and> (\<exists>j \<in> set (intf_fields i). fld_name j = fld_name f))"
  by (auto simp: interfaces_with_field_def list_ex_iff split: option.splits)

lemma check_derived_field_iff:
  "check_derived_field doc (t, interfaces_with_field doc t f, f, argument d ''field'') = None \<longleftrightarrow>
     derived_ok doc t f d"
  unfolding check_derived_field_None derived_ok_def interfaces_with_field_iff ..

lemma derived_fields_iff:
  "x \<in> set (derived_fields doc) \<longleftrightarrow>
     (\<exists>t \<in> set (get_object_type_definitions doc). \<exists>f \<in> set (obj_fields t). \<exists>d.
        find_directive (fld_directives f) ''derivedFrom'' = Some d \<and>
        x = (t, interfaces_with_field doc t f, f, argument d ''field''))"
proof -
  define g where "g = (\<lambda>(t, f). map_option
            (\<lambda>d. (t, interfaces_with_field doc t f, f, argument d ''field''))
            (find_directive (fld_directives f) ''derivedFrom''))"
  have g: "g (t, f) = Some x \<longleftrightarrow> (\<exists>d. find_directive (fld_directives f) ''derivedFrom'' = Some d \<and>
        x = (t, interfaces_with_field doc t f, f, argument d ''field''))" for t f
    unfolding g_def prod.case by (cases "find_directive (fld_directives f) ''derivedFrom''") auto
  have pairs: "p \<in> set (concat (map (\<lambda>t. map (Pair t) (obj_fields t)) ts)) \<longleftrightarrow>
      (\<exists>t \<in> set ts. \<exists>f \<in> set (obj_fields t). p = (t, f))" for p and ts
    by auto
  have "x \<in> set (derived_fields doc) \<longleftrightarrow>
      (\<exists>p. p \<in> set (concat (map (\<lambda>t. map (Pair t) (obj_fields t)) (get_object_type_definitions doc))) \<and> g p = Some x)"
    unfolding derived_fields_def g_def [symmetric] set_filter_map by blast
  also have "\<dots> \<longleftrightarrow> (\<exists>t \<in> set (get_object_type_definitions doc). \<exists>f \<in> set (obj_fields t). g (t, f) = Some x)"
    unfolding pairs by blast
  finally show ?thesis unfolding g .
qed

lemma all_Bex_eq:
  "(\<forall>x. (\<exists>t \<in> A. \<exists>f \<in> B t. \<exists>d. P t f d \<and> x = h t f d) \<longrightarrow> Q x) \<longleftrightarrow>
   (\<forall>t \<in> A. \<forall>f \<in> B t. \<forall>d. P t f d \<longrightarrow> Q (h t f d))"
  by metis

lemma validate_derived_from_iff:
  "validate_derived_from doc = Inr () \<longleftrightarrow>
     (\<forall>t \<in> set (get_object_type_definitions doc). \<forall>f \<in> set (obj_fields t). \<forall>d.
        find_directive (fld_directives f) ''derivedFrom'' = Some d \<longrightarrow> derived_ok doc t f d)"
proof -
  have "validate_derived_from doc = Inr () \<longleftrightarrow> (\<forall>x \<in> set (derived_fields doc). check_derived_field doc x = None)"
    by (simp add: validate_derived_from_def find_map_None [symmetric] split: option.splits)
  also have "\<dots> \<longleftrightarrow> (\<forall>x. (\<exists>t \<in> set (get_object_type_definitions doc). \<exists>f \<in> set (obj_fields t). \<exists>d.
        find_directive (fld_directives f) ''derivedFrom'' = Some d \<and>
        x = (t, interfaces_with_field doc t f, f, argument d ''field'')) \<longrightarrow> check_derived_field doc x = None)"
    unfolding Ball_def derived_fields_iff ..
  also have "\<dots> \<longleftrightarrow> (\<forall>t \<in> set (get_object_type_definitions doc). \<forall>f \<in> set (obj_fields t). \<forall>d.
        find_directive (fld_directives f) ''derivedFrom'' = Some d \<longrightarrow>
        check_derived_field doc (t, interfaces_with_field doc t f, f, argument d ''field'') = None)"
    by (rule all_Bex_eq)
  finally show ?thesis unfolding check_derived_field_iff .
qed

text \<open>
  C29. Validation accepts the derived fields of a schema exactly when each names, by a string
  argument, a field that exists on an object or interface type of the schema and points back: to the
  type itself, to \<open>ID\<close>, or to one of its interfaces that declares the derived field.
\<close>

theorem validate_derived_from_exact:
  "validate_derived_from doc = Inr () \<longleftrightarrow>
     (\<forall>t \<in> set (get_object_type_definitions doc). \<forall>f \<in> set (obj_fields t). \<forall>d.
        find_directive (fld_directives f) ''derivedFrom'' = Some d \<longrightarrow>
        (\<exists>s fs g. argument d ''field'' = Some (SV_String s) \<and>
           map_of (get_object_and_interface_type_fields doc) (get_base_type (fld_type f)) = Some fs \<and>
           find (\<lambda>f. fld_name f = s) fs = Some g \<and>
           (get_base_type (fld_type g) = obj_name t \<or> get_base_type (fld_type g) = ''ID'' \<or>
            (get_base_type (fld_type g) \<in> set (obj_implements_interfaces t) \<and>
             (\<exists>i. find_interface doc (get_base_type (fld_type g)) = Some i \<and>
                (\<exists>j \<in> set (intf_fields i). fld_name j = fld_name f))))))"
  by (simp add: validate_derived_from_iff derived_ok_def)

definition derived_example :: s_document where
  "derived_example =
     [TypeDefinition (TD_Object \<lparr>obj_name = ''A'', obj_implements_interfaces = [], obj_directives = [],
        obj_fields = [\<lparr>fld_name = ''bs'', fld_arguments = [], fld_type = ListType (NamedType ''B''),
          fld_directives = [\<lparr>dir_name = ''derivedFrom'', dir_arguments = [(''field'', SV_String ''a'')]\<rparr>]\<rparr>]\<rparr>),
      TypeDefinition (TD_Object \<lparr>obj_name = ''B'', obj_implements_interfaces = [], obj_directives = [],
        obj_fields = [\<lparr>fld_name = ''a'', fld_arguments = [], fld_type = NamedType ''A'', fld_directives = []\<rparr>]\<rparr>)]"

theorem validate_derived_from_exact_witness:
  "validate_derived_from derived_example = Inr ()"
proof -
  have objs: "get_object_type_definitions derived_example =
     [\<lparr>obj_name = ''A'', obj_implements_interfaces = [], obj_directives = [],
        obj_fields = [\<lparr>fld_name = ''bs'', fld_arguments = [], fld_type = ListType (NamedType ''B''),
          fld_directives = [\<lparr>dir_name = ''derivedFrom'', dir_arguments = [(''field'', SV_String ''a'')]\<rparr>]\<rparr>]\<rparr>,
      \<lparr>obj_name = ''B'', obj_implements_interfaces = [], obj_directives = [],
        obj_fields = [\<lparr>fld_name = ''a'', fld_arguments = [], fld_type = NamedType ''A'', fld_directives = []\<rparr>]\<rparr>]"
    by (simp add: get_object_type_definitions_def derived_example_def)
  have "map_of (get_object_and_interface_type_fields derived_example) ''B'' =
      Some [\<lparr>fld_name = ''a'', fld_arguments = [], fld_type = NamedType ''A'', fld_directives = []\<rparr>]"
    by (simp add: get_object_and_interface_type_fields_def derived_example_def)
  then show ?thesis
    unfolding validate_derived_from_exact objs by (auto simp: find_directive_def argument_def)
qed

subsection \<open>Reserved names\<close>

lemma get_named_type_iff:
  "get_named_type doc n \<noteq> None \<longleftrightarrow> (\<exists>td. TypeDefinition td \<in> set doc \<and> type_definition_name td = n)"
proof -
  have name: "(case td of
              TD_Object t \<Rightarrow> obj_name t = n
            | TD_Enum t \<Rightarrow> pt_name t = n
            | TD_InputObject t \<Rightarrow> pt_name t = n
            | TD_Interface t \<Rightarrow> intf_name t = n
            | TD_Scalar t \<Rightarrow> pt_name t = n
            | TD_Union t \<Rightarrow> pt_name t = n) = (type_definition_name td = n)" for td
    by (cases td) auto
  have find: "find P xs \<noteq> None \<longleftrightarrow> (\<exists>x \<in> set xs. P x)" for P :: "type_definition \<Rightarrow> bool" and xs
    by (induction xs) auto
  have td: "(case d of TypeDefinition td \<Rightarrow> Some td | _ \<Rightarrow> None) = Some td \<longleftrightarrow> d = TypeDefinition td" for d td
    by (cases d) auto
  show ?thesis
    unfolding get_named_type_def name find set_filter_map td by blast
qed

text \<open>
  C30. A schema passes the check for reserved names exactly when none of its types, of whatever kind,
  is called like a built-in scalar, \<open>Query\<close> or \<open>Subscription\<close>, or like one of the types
  \<open>X_filter\<close> and \<open>X_orderBy\<close> that are generated for its object and interface types \<open>X\<close>.
\<close>

theorem validate_reserved_types_usage_exact:
  "validate_reserved_types_usage doc = Inr () \<longleftrightarrow>
     (\<forall>td. TypeDefinition td \<in> set doc \<longrightarrow>
        type_definition_name td \<notin>
          {''Boolean'', ''ID'', ''Int'', ''BigDecimal'', ''String'', ''Bytes'', ''BigInt'', ''Query'', ''Subscription''} \<and>
        (\<forall>t \<in> set (get_object_type_definitions doc).
           type_definition_name td \<noteq> obj_name t @ ''_filter'' \<and> type_definition_name td \<noteq> obj_name t @ ''_orderBy'') \<and>
        (\<forall>t \<in> set (get_interface_type_definitions doc).
           type_definition_name td \<noteq> intf_name t @ ''_filter'' \<and> type_definition_name td \<noteq> intf_name t @ ''_orderBy''))"
proof -
  define B where "B = set [''Boolean'', ''ID'', ''Int'', ''BigDecimal'', ''String'', ''Bytes'', ''BigInt'',
    ''Query'', ''Subscription'']"
  define F where "F = ''_filter''"
  define Fo where "Fo = ''_orderBy''"
  have names: "set (reserved_type_names doc) = B \<union>
      (\<lambda>n. n @ F) ` (obj_name ` set (get_object_type_definitions doc) \<union>
         intf_name ` set (get_interface_type_definitions doc)) \<union>
      (\<lambda>n. n @ Fo) ` (obj_name ` set (get_object_type_definitions doc) \<union>
         intf_name ` set (get_interface_type_definitions doc))"
    unfolding reserved_type_names_def Let_def B_def F_def Fo_def
    by (simp only: set_append set_map image_Un Un_assoc)
  have "validate_reserved_types_usage doc = Inr () \<longleftrightarrow>
      (\<forall>n \<in> set (reserved_type_names doc). get_named_type doc n = None)"
    by (auto simp: validate_reserved_types_usage_def Let_def filter_empty_conv)
  also have "\<dots> \<longleftrightarrow> (\<forall>td. TypeDefinition td \<in> set doc \<longrightarrow> type_definition_name td \<notin> set (reserved_type_names doc))"
    using get_named_type_iff [of doc] by metis
  also have "\<dots> \<longleftrightarrow> (\<forall>td. TypeDefinition td \<in> set doc \<longrightarrow> type_definition_name td \<notin> B \<and>
        (\<forall>t \<in> set (get_object_type_definitions doc).
           type_definition_name td \<noteq> obj_name t @ F \<and> type_definition_name td \<noteq> obj_name t @ Fo) \<and>
        (\<forall>t \<in> set (get_interface_type_definitions doc).
           type_definition_name td \<noteq> intf_name t @ F \<and> type_definition_name td \<noteq> intf_name t @ Fo))"
    unfolding names by blast
  finally show ?thesis unfolding B_def F_def Fo_def by simp
qed

theorem validate_reserved_types_usage_exact_witness:
  "validate_reserved_types_usage [TypeDefinition (TD_Enum \<lparr>pt_name = ''Color'', pt_directives = [], enum_values = []\<rparr>)] = Inr ()"
  unfolding validate_reserved_types_usage_exact
  by (simp add: get_object_type_definitions_def get_interface_type_definitions_def)

subsection \<open>Full text directives\<close>

lemma collect_options_Some:
  "(\<forall>x \<in> set xs. x \<noteq> None) \<Longrightarrow> \<exists>ys. collect_options xs = Some ys \<and> xs = map Some ys"
  by (induction xs rule: collect_options.induct) auto

lemma check_included_fields_None:
  "check_included_fields t fs = None \<Longrightarrow> v \<in> set fs \<Longrightarrow>
     \<exists>n. included_field_name v = Some n \<and>
       (\<exists>f \<in> set (obj_fields t). fld_name f = n \<and> value_type_from_str (get_base_type (fld_type f)) = Some VT_String)"
proof (induction t fs rule: check_included_fields.induct)
  case (2 t w rest)
  then obtain m n where w: "w = SV_Object m" "map_of m ''name'' = Some (SV_String n)"
    by (auto split: s_value.splits option.splits)
  with 2(2) have f: "list_ex (\<lambda>f. value_type_from_str (get_base_type (fld_type f)) = Some VT_String \<and>
      fld_name f = n) (obj_fields t)" and rest: "check_included_fields t rest = None"
    by (simp_all split: if_splits)
  show ?case
  proof (cases "v = w")
    case True
    then show ?thesis using w f unfolding included_field_name_def list_ex_iff by auto
  next
    case False
    with 2(3) have "v \<in> set rest" by simp
    from 2(1) [OF w(1) w(2) refl f rest this] show ?thesis .
  qed
qed simp

lemma check_includes_first:
  assumes "check_includes local_types (inc # rest) = None"
  obtains m e fs t where "inc = SV_Object m" "map_of m ''entity'' = Some (SV_String e)"
    "map_of m ''fields'' = Some (SV_List fs)" "find (\<lambda>t. obj_name t = e) local_types = Some t"
    "check_included_fields t fs = None"
proof -
  from assms obtain m where m: "inc = SV_Object m" by (cases inc) auto
  from assms m obtain e fs where e: "map_of m ''entity'' = Some (SV_String e)"
      "map_of m ''fields'' = Some (SV_List fs)"
    by (auto split: option.splits s_value.splits)
  from assms m e obtain t where t: "find (\<lambda>t. obj_name t = e) local_types = Some t"
      "check_included_fields t fs = None"
    by (auto split: option.splits)
  from that [OF m e t] show thesis .
qed

text \<open>What the extraction of a directive yields when the directive passed the four checks.\<close>

definition good_definition :: "s_document \<Rightarrow> directive \<Rightarrow> fulltext_definition \<Rightarrow> bool" where
  "good_definition doc d def \<longleftrightarrow>
     argument d ''name'' = Some (SV_String (ft_name def)) \<and>
     (\<exists>m rest t. argument d ''include'' = Some (SV_List (SV_Object m # rest)) \<and>
        t \<in> set (get_object_type_definitions doc) \<and> map_of m ''entity'' = Some (SV_String (obj_name t)) \<and>
        (\<forall>n \<in> ft_included_fields def. \<exists>f \<in> set (obj_fields t).
           fld_name f = n \<and> value_type_from_str (get_base_type (fld_type f)) = Some VT_String))"

lemma find_SomeD: "find P xs = Some x \<Longrightarrow> x \<in> set xs \<and> P x"
  by (induction xs) (auto split: if_splits)

lemma fulltext_definition_from_validated:
  assumes name: "validate_fulltext_directive_name cc pl doc d = []"
    and lang: "validate_fulltext_directive_language d = []"
    and alg: "validate_fulltext_directive_algorithm d = []"
    and incl: "validate_fulltext_directive_includes doc d = []"
  shows "\<exists>def. fulltext_definition_from d = Some def \<and> good_definition doc d def"
proof -
  from name obtain n where n: "argument d ''name'' = Some (SV_String n)"
    by (auto simp: validate_fulltext_directive_name_def split: option.splits s_value.splits)
  from lang obtain l l' where l: "argument d ''language'' = Some (SV_Enum l)" "fulltext_language_try_from l = Some l'"
    by (auto simp: validate_fulltext_directive_language_def split: option.splits s_value.splits)
  from alg obtain a a' where a: "argument d ''algorithm'' = Some (SV_Enum a)" "fulltext_algorithm_try_from a = Some a'"
    by (auto simp: validate_fulltext_directive_algorithm_def split: option.splits s_value.splits)
  from incl obtain incs where i: "argument d ''include'' = Some (SV_List incs)" "incs \<noteq> []"
      "check_includes (get_object_type_definitions doc) incs = None"
    by (auto simp: validate_fulltext_directive_includes_def split: option.splits s_value.splits if_splits)
  from i(2) obtain inc rest where inc: "incs = inc # rest" by (cases incs) auto
  from i(3) obtain m e fs t where m: "inc = SV_Object m" "map_of m ''entity'' = Some (SV_String e)"
      "map_of m ''fields'' = Some (SV_List fs)" "find (\<lambda>t. obj_name t = e) (get_object_type_definitions doc) = Some t"
      "check_included_fields t fs = None"
    unfolding inc by (rule check_includes_first)
  from check_included_fields_None [OF m(5)] have "\<forall>x \<in> set (map included_field_name fs). x \<noteq> None" by fastforce
  from collect_options_Some [OF this] obtain ns where ns: "collect_options (map included_field_name fs) = Some ns"
      "map included_field_name fs = map Some ns" by blast
  define def where "def = \<lparr> ft_language = l', ft_algorithm = a', ft_included_fields = set ns, ft_name = n \<rparr>"
  have "fulltext_definition_from d = Some def"
    by (simp add: fulltext_definition_from_def n l a i inc m ns(1) def_def)
  moreover have "\<exists>f \<in> set (obj_fields t). fld_name f = k \<and>
      value_type_from_str (get_base_type (fld_type f)) = Some VT_String" if "k \<in> set ns" for k
  proof -
    from that have "Some k \<in> set (map included_field_name fs)" unfolding ns(2) by simp
    then obtain v where "v \<in> set fs" "included_field_name v = Some k" by auto
    with check_included_fields_None [OF m(5) this(1)] show ?thesis by simp
  qed
  moreover from find_SomeD [OF m(4)] have "t \<in> set (get_object_type_definitions doc)" "obj_name t = e" by auto
  ultimately have "good_definition doc d def"
    unfolding good_definition_def using n i(1) m(1,2) inc by (auto simp: def_def)
  with \<open>fulltext_definition_from d = Some def\<close> show ?thesis by blast
qed

lemma validate_fulltext_directives_nil:
  assumes "validate_fulltext_directives cc pl doc = []" "get_fulltext_directives allow doc = Inr ds" "d \<in> set ds"
  shows "validate_fulltext_directive_name cc pl doc d = [] \<and> validate_fulltext_directive_language d = [] \<and>
    validate_fulltext_directive_algorithm d = [] \<and> validate_fulltext_directive_includes doc d = []"
proof -
  from assms(2,3) obtain t where t: "subgraph_schema_object_type doc = Some t"
      and d: "d \<in> set (filter (\<lambda>d. dir_name d = ''fulltext'') (obj_directives t))"
    by (auto simp: get_fulltext_directives_def get_object_type_definition_def subgraph_schema_object_type_def Let_def
        split: option.splits if_splits)
  from assms(1) have "fold (\<lambda>x acc. acc @ (validate_fulltext_directive_name cc pl doc x
               @ validate_fulltext_directive_language x
               @ validate_fulltext_directive_algorithm x
               @ validate_fulltext_directive_includes doc x))
            (filter (\<lambda>d. dir_name d = ''fulltext'') (obj_directives t)) [] = []"
    by (simp add: validate_fulltext_directives_def t)
  with d show ?thesis unfolding fold_append_nil by blast
qed

text \<open>
  C31. The full text definitions of a schema that passed validation can be extracted: none of the
  \<open>unwrap\<close> calls on the directives panics. Each definition carries the name its directive gives and
  only fields of type \<open>String\<close> that exist on the first entity the directive includes.
\<close>

theorem validated_fulltext_never_panics:
  assumes "validate sv cc pl schemas sch = Inr ()"
    and "entity_fulltext_definitions allow entity (sch_document sch) = Inr r"
  shows "\<exists>defs. r = Some defs \<and> (\<forall>def \<in> set defs. \<exists>d. includes_entity entity d \<and>
           argument d ''name'' = Some (SV_String (ft_name def)) \<and>
           (\<exists>m rest t. argument d ''include'' = Some (SV_List (SV_Object m # rest)) \<and>
              t \<in> set (get_object_type_definitions (sch_document sch)) \<and>
              map_of m ''entity'' = Some (SV_String (obj_name t)) \<and>
              (\<forall>n \<in> ft_included_fields def. \<exists>f \<in> set (obj_fields t).
                 fld_name f = n \<and> value_type_from_str (get_base_type (fld_type f)) = Some VT_String)))"
proof -
  let ?doc = "sch_document sch"
  from assms(1) have ok: "validate_fulltext_directives cc pl ?doc = []" by (simp add: validate_ok_iff)
  from assms(2) obtain ds where ds: "get_fulltext_directives allow ?doc = Inr ds"
      and r: "r = collect_options (map fulltext_definition_from (filter (includes_entity entity) ds))"
    by (auto simp: entity_fulltext_definitions_def split: sum.splits)
  have good: "\<exists>def. fulltext_definition_from d = Some def \<and> good_definition ?doc d def" if "d \<in> set ds" for d
    using fulltext_definition_from_validated validate_fulltext_directives_nil [OF ok ds that] by blast
  have "\<forall>x \<in> set (map fulltext_definition_from (filter (includes_entity entity) ds)). x \<noteq> None"
    using good by fastforce
  from collect_options_Some [OF this] obtain defs where defs: "r = Some defs"
      "map fulltext_definition_from (filter (includes_entity entity) ds) = map Some defs" using r by auto
  have "\<exists>d. includes_entity entity d \<and> good_definition ?doc d def" if "def \<in> set defs" for def
  proof -
    from that have "Some def \<in> set (map fulltext_definition_from (filter (includes_entity entity) ds))"
      unfolding defs(2) by simp
    then obtain d where "d \<in> set ds" "includes_entity entity d" "fulltext_definition_from d = Some def" by auto
    with good [OF this(1)] show ?thesis by auto
  qed
  then show ?thesis unfolding defs(1) good_definition_def by blast
qed

definition fulltext_directive_example :: directive where
  "fulltext_directive_example = \<lparr>dir_name = ''fulltext'', dir_arguments =
     [(''name'', SV_String ''search''), (''language'', SV_Enum ''en''), (''algorithm'', SV_Enum ''rank''),
      (''include'', SV_List [SV_Object [(''entity'', SV_String ''A''),
         (''fields'', SV_List [SV_Object [(''name'', SV_String ''b'')]])]])]\<rparr>"

definition fulltext_schema_example :: schema where
  "fulltext_schema_example =
     \<lparr>sch_id = ''Qm'', sch_document =
        [TypeDefinition (TD_Object \<lparr>obj_name = ''_Schema_'', obj_implements_interfaces = [],
           obj_directives = [fulltext_directive_example], obj_fields = []\<rparr>),
         TypeDefinition (TD_Object \<lparr>obj_name = ''A'', obj_implements_interfaces = [],
           obj_directives = [\<lparr>dir_name = ''entity'', dir_arguments = []\<rparr>],
           obj_fields = [\<lparr>fld_name = ''b'', fld_arguments = [], fld_type = NamedType ''String'', fld_directives = []\<rparr>]\<rparr>)],
      sch_interfaces_for_type = [], sch_types_for_interface = [], sch_immutable_types = {}\<rparr>"

lemma fulltext_schema_example_valid:
  "validate sv (\<lambda>s. s) (\<lambda>s. s) [] fulltext_schema_example = Inr ()"
  unfolding validate_ok_iff
proof (intro conjI)
  define A where "A = \<lparr>obj_name = ''A'', obj_implements_interfaces = [],
           obj_directives = [\<lparr>dir_name = ''entity'', dir_arguments = []\<rparr>],
           obj_fields = [\<lparr>fld_name = ''b'', fld_arguments = [], fld_type = NamedType ''String'', fld_directives = []\<rparr>]\<rparr>"
  define S where "S = \<lparr>obj_name = ''_Schema_'', obj_implements_interfaces = [],
           obj_directives = [fulltext_directive_example], obj_fields = []\<rparr>"
  let ?doc = "sch_document fulltext_schema_example"
  have doc: "?doc = [TypeDefinition (TD_Object S), TypeDefinition (TD_Object A)]"
    by (simp add: fulltext_schema_example_def A_def S_def)
  have objs: "get_object_type_definitions ?doc = [S, A]" "get_interface_type_definitions ?doc = []"
    by (simp_all add: doc get_object_type_definitions_def get_interface_type_definitions_def)
  have A [simp]: "obj_name A = ''A''" "obj_implements_interfaces A = []"
      "obj_directives A = [\<lparr>dir_name = ''entity'', dir_arguments = []\<rparr>]"
      "obj_fields A = [\<lparr>fld_name = ''b'', fld_arguments = [], fld_type = NamedType ''String'', fld_directives = []\<rparr>]"
    by (simp_all add: A_def)
  have S [simp]: "obj_name S = ''_Schema_''" "obj_implements_interfaces S = []"
      "obj_directives S = [fulltext_directive_example]" "obj_fields S = []"
    by (simp_all add: S_def)
  have sot: "subgraph_schema_object_type ?doc = Some S"
    by (simp add: subgraph_schema_object_type_def objs SCHEMA_TYPE_NAME_def)
  have dn: "dir_name fulltext_directive_example = ''fulltext''" by (simp add: fulltext_directive_example_def)
  show "validate_schema_types ?doc = Inr ()"
    by (simp add: validate_schema_types_def objs SCHEMA_TYPE_NAME_def find_directive_def)
  show "validate_derived_from ?doc = Inr ()"
    unfolding validate_derived_from_iff objs by (simp add: find_directive_def)
  show "validate_schema_type_has_no_fields ?doc = Inr ()"
    by (simp add: validate_schema_type_has_no_fields_def sot)
  show "validate_directives_on_schema_type ?doc = Inr ()"
    by (simp add: validate_directives_on_schema_type_def sot dn)
  show "validate_reserved_types_usage ?doc = Inr ()"
    by (simp add: validate_reserved_types_usage_def reserved_type_names_def objs get_named_type_def doc)
  show "validate_interface_id_type (sch_types_for_interface fulltext_schema_example) = Inr ()"
    by (simp add: validate_interface_id_type_def fulltext_schema_example_def)
  show "validate_fields sv ?doc = []"
    by (simp add: validate_fields_def get_object_and_interface_type_fields_def doc field_type_known_def
        is_scalar_def value_type_from_str_def)
  show "validate_import_directives ?doc = []"
    by (simp add: validate_import_directives_def sot dn)
  show "validate_imported_types sv [] ?doc = []"
    by (simp add: validate_imported_types_def imported_types_def sot dn)
  show "validate_fulltext_directives (\<lambda>s. s) (\<lambda>s. s) ?doc = []"
    by (simp add: validate_fulltext_directives_def sot dn objs validate_fulltext_directive_name_def
        validate_fulltext_directive_language_def validate_fulltext_directive_algorithm_def
        validate_fulltext_directive_includes_def fulltext_directive_example_def argument_def
        fulltext_language_try_from_def fulltext_languages_def fulltext_algorithm_try_from_def
        value_type_from_str_def)
qed

theorem validated_fulltext_never_panics_witness:
  "\<exists>defs. collect_options (map fulltext_definition_from
      (filter (includes_entity ''A'') [fulltext_directive_example])) = Some defs"
proof -
  have "entity_fulltext_definitions True ''A'' (sch_document fulltext_schema_example) =
      Inr (collect_options (map fulltext_definition_from (filter (includes_entity ''A'') [fulltext_directive_example])))"
    by (simp add: entity_fulltext_definitions_def get_fulltext_directives_def get_object_type_definition_def
        get_object_type_definitions_def fulltext_schema_example_def SCHEMA_TYPE_NAME_def
        fulltext_directive_example_def)
  from validated_fulltext_never_panics [OF fulltext_schema_example_valid this] show ?thesis by blast
qed

end
