(* ===== verification/Entity_Validation.thy ===== *)
theory Entity_Validation
  imports Schema_Validation
begin

text \<open>
  \<open>Entity::validate\<close> of \<open>graph/src/data/store/mod.rs\<close>: the check that an entity matches the object type
  of its key before it is cached. The recursion on the type of the \<open>id\<close> field need not end (an object
  type may use itself as the type of its \<open>id\<close>), so \<open>scalar_value_type\<close> is a partial function: \<^term>\<open>None\<close> is
  a run that does not return, and \<open>Panic\<close> a failing \<open>expect\<close> or \<open>unreachable!\<close>.
\<close>

section \<open>Validation of an entity\<close>

datatype 'a outcome = Panic string | Return 'a

partial_function (option) scalar_value_type :: "schema \<Rightarrow> s_type \<Rightarrow> value_type outcome option" where
  "scalar_value_type sch field_type =
     (case field_type of
        NamedType name \<Rightarrow>
          (case value_type_from_str name of
             Some v \<Rightarrow> Some (Return v)
           | None \<Rightarrow>
               (case get_named_type (sch_document sch) name of
                  Some (TD_Object obj_type) \<Rightarrow>
                    (case object_field obj_type ''id'' of
                       None \<Rightarrow> Some (Panic ''all object types have an id'')
                     | Some f \<Rightarrow> scalar_value_type sch (fld_type f))
                | Some (TD_Interface intf) \<Rightarrow>
                    (case map_of (sch_types_for_interface sch) (intf_name intf) of
                       None \<Rightarrow> Some (Panic ''interface type names are known'')
                     | Some [] \<Rightarrow> Some (Return VT_String)
                     | Some (obj_type # _) \<Rightarrow>
                         (case object_field obj_type ''id'' of
                            None \<Rightarrow> Some (Panic ''all object types have an id'')
                          | Some f \<Rightarrow> scalar_value_type sch (fld_type f)))
                | Some (TD_Enum _) \<Rightarrow> Some (Return VT_String)
                | Some (TD_Scalar _) \<Rightarrow> Some (Panic ''user-defined scalars are not used'')
                | Some (TD_Union _) \<Rightarrow> Some (Panic ''unions are not used'')
                | Some (TD_InputObject _) \<Rightarrow> Some (Panic ''inputObjects are not used'')
                | None \<Rightarrow> Some (Panic ''names of field types have been validated'')))
      | NonNullType inner \<Rightarrow> scalar_value_type sch inner
      | ListType inner \<Rightarrow> scalar_value_type sch inner)"

text \<open>The errors carry what their message prints besides the key.\<close>

datatype entity_error =
    UnknownEntityType string
  | ListElementType string s_type store_value string nat
  | FieldValueType store_value string s_type string
  | MissingValue string
  | DerivedFieldSet string

text \<open>The first element of a list that cannot be assigned, with its index.\<close>

fun bad_element :: "value_type \<Rightarrow> nat \<Rightarrow> store_value list \<Rightarrow> (nat \<times> store_value) option" where
  "bad_element st index [] = None"
| "bad_element st index (elt # elts) =
     (if \<not> is_assignable elt st False then Some (index, elt) else bad_element st (Suc index) elts)"

definition validate_value :: "s_field \<Rightarrow> value_type \<Rightarrow> store_value \<Rightarrow> entity_error + unit" where
  "validate_value f scalar_type v =
     (case (if is_list (fld_type f)
            then (case v of V_List elts \<Rightarrow> bad_element scalar_type 0 elts | _ \<Rightarrow> None)
            else None) of
        Some (index, elt) \<Rightarrow> Inl (ListElementType (fld_name f) (fld_type f) v (type_name elt) index)
      | None \<Rightarrow>
          if \<not> is_assignable v scalar_type (is_list (fld_type f))
          then Inl (FieldValueType v (fld_name f) (fld_type f) (type_name v))
          else Inr ())"

definition validate_field :: "schema \<Rightarrow> entity \<Rightarrow> s_field \<Rightarrow> (entity_error + unit) outcome option" where
  "validate_field sch e f =
     (case (entity_get e (fld_name f), is_derived (fld_directives f)) of
        (Some v, False) \<Rightarrow>
          (case scalar_value_type sch (fld_type f) of
             None \<Rightarrow> None
           | Some (Panic p) \<Rightarrow> Some (Panic p)
           | Some (Return st) \<Rightarrow> Some (Return (validate_value f st v)))
      | (None, False) \<Rightarrow>
          Some (Return (if is_non_null (fld_type f) then Inl (MissingValue (fld_name f)) else Inr ()))
      | (Some _, True) \<Rightarrow> Some (Return (Inl (DerivedFieldSet (fld_name f))))
      | (None, True) \<Rightarrow> Some (Return (Inr ())))"

fun validate_field_loop :: "schema \<Rightarrow> entity \<Rightarrow> s_field list \<Rightarrow> (entity_error + unit) outcome option" where
  "validate_field_loop sch e [] = Some (Return (Inr ()))"
| "validate_field_loop sch e (f # fs) =
     (case validate_field sch e f of
        Some (Return (Inr _)) \<Rightarrow> validate_field_loop sch e fs
      | r \<Rightarrow> r)"

definition entity_validate :: "schema \<Rightarrow> entity_key \<Rightarrow> entity \<Rightarrow> (entity_error + unit) outcome option" where
  "entity_validate sch key e =
     (if is_poi (key_entity_type key) then Some (Return (Inr ()))
      else case find (\<lambda>t. key_entity_type key = obj_name t) (get_object_type_definitions (sch_document sch)) of
             None \<Rightarrow> Some (Return (Inl (UnknownEntityType (key_entity_type key))))
           | Some object_type \<Rightarrow> validate_field_loop sch e (obj_fields object_type))"

section \<open>The types of fields\<close>

text \<open>The type of an \<open>id\<close> field, and the type in which references to a named type are stored.\<close>

definition id_type :: "object_type \<Rightarrow> value_type option" where
  "id_type t = Option.bind (object_field t ''id'') (\<lambda>f. value_type_from_str (get_base_type (fld_type f)))"

definition field_value_type :: "schema \<Rightarrow> string \<Rightarrow> value_type option" where
  "field_value_type sch name =
     (case value_type_from_str name of
        Some v \<Rightarrow> Some v
      | None \<Rightarrow>
          (case get_named_type (sch_document sch) name of
             Some (TD_Object t) \<Rightarrow> id_type t
           | Some (TD_Interface i) \<Rightarrow>
               (case map_of (sch_types_for_interface sch) (intf_name i) of
                  None \<Rightarrow> None | Some [] \<Rightarrow> Some VT_String | Some (t # _) \<Rightarrow> id_type t)
           | Some (TD_Enum _) \<Rightarrow> Some VT_String
           | _ \<Rightarrow> None))"

lemma scalar_value_type_base:
  "scalar_value_type sch ty = scalar_value_type sch (NamedType (get_base_type ty))"
proof (induction ty)
  case (ListType ty)
  then show ?case by (subst scalar_value_type.simps) simp
next
  case (NonNullType ty)
  then show ?case by (subst scalar_value_type.simps) simp
qed simp

lemma scalar_value_type_builtin:
  "value_type_from_str (get_base_type ty) = Some v \<Longrightarrow> scalar_value_type sch ty = Some (Return v)"
  by (subst scalar_value_type_base, subst scalar_value_type.simps) simp

lemma scalar_value_type_id:
  assumes "id_type t = Some v"
  shows "\<exists>f. object_field t ''id'' = Some f \<and> scalar_value_type sch (fld_type f) = Some (Return v)"
  using assms by (auto simp: id_type_def bind_eq_Some_conv scalar_value_type_builtin)

lemma scalar_value_type_resolves:
  assumes "field_value_type sch (get_base_type ty) = Some v"
  shows "scalar_value_type sch ty = Some (Return v)"
proof (cases "value_type_from_str (get_base_type ty)")
  case (Some w)
  with assms show ?thesis by (simp add: field_value_type_def scalar_value_type_builtin)
next
  case None
  show ?thesis
    apply (subst scalar_value_type_base, subst scalar_value_type.simps)
    using assms None
    by (auto simp: field_value_type_def dest!: scalar_value_type_id [of _ _ sch]
        split: option.splits type_definition.splits list.splits)
qed

section \<open>Validated schemas resolve every field\<close>

definition type_definitions :: "s_document \<Rightarrow> type_definition list" where
  "type_definitions doc = filter_map (\<lambda>d. case d of TypeDefinition td \<Rightarrow> Some td | _ \<Rightarrow> None) doc"

lemma type_definitions_iff: "td \<in> set (type_definitions doc) \<longleftrightarrow> TypeDefinition td \<in> set doc"
proof -
  have td: "(case d of TypeDefinition td \<Rightarrow> Some td | _ \<Rightarrow> None) = Some td \<longleftrightarrow> d = TypeDefinition td" for d td
    by (cases d) auto
  show ?thesis unfolding type_definitions_def set_filter_map td by blast
qed

text \<open>
  What the code relies on and validation does not check: type names are unique, there are only
  object, interface and enum types, every object type but \<open>_Schema_\<close> has an \<open>id\<close> of a scalar type, and
  \<open>_Schema_\<close> implements no interface and is the type of no field.
\<close>

definition stored_type :: "type_definition \<Rightarrow> bool" where
  "stored_type td =
     (case td of
        TD_Object t \<Rightarrow>
          (id_type t \<noteq> None \<or> obj_name t = SCHEMA_TYPE_NAME \<and> obj_implements_interfaces t = []) \<and>
          list_all (\<lambda>f. get_base_type (fld_type f) \<noteq> SCHEMA_TYPE_NAME) (obj_fields t)
      | TD_Interface _ \<Rightarrow> True
      | TD_Enum _ \<Rightarrow> True
      | _ \<Rightarrow> False)"

definition stored_document :: "s_document \<Rightarrow> bool" where
  "stored_document doc \<longleftrightarrow>
     distinct (map type_definition_name (type_definitions doc)) \<and> list_all stored_type (type_definitions doc)"

definition typed_fields :: "type_definition \<Rightarrow> (string \<times> s_field list) option" where
  "typed_fields td =
     (case td of
        TD_Object t \<Rightarrow> Some (obj_name t, obj_fields t)
      | TD_Interface t \<Rightarrow> Some (intf_name t, intf_fields t)
      | _ \<Rightarrow> None)"

lemma all_fields_typed:
  "get_object_and_interface_type_fields doc =
     fold (\<lambda>(k, v). hm_insert k v) (filter_map typed_fields (type_definitions doc)) []"
proof -
  have "filter_map (\<lambda>d. case d of
             TypeDefinition (TD_Object t) \<Rightarrow> Some (obj_name t, obj_fields t)
           | TypeDefinition (TD_Interface t) \<Rightarrow> Some (intf_name t, intf_fields t)
           | _ \<Rightarrow> None) doc = filter_map typed_fields (type_definitions doc)"
    unfolding type_definitions_def
    by (induction doc) (auto simp: typed_fields_def split: s_definition.splits type_definition.splits)
  then show ?thesis by (simp add: get_object_and_interface_type_fields_def)
qed

lemma typed_fields_name: "typed_fields td = Some (n, fs) \<Longrightarrow> type_definition_name td = n"
  by (cases td) (auto simp: typed_fields_def)

lemma fold_hm_insert_map_of:
  "map_of (fold (\<lambda>(k, v). hm_insert k v) kvs m) = map_of m ++ map_of (rev kvs)"
  by (induction kvs arbitrary: m) (auto simp: hm_simps map_add_def fun_eq_iff split: option.splits)

lemma distinct_typed_fields:
  "distinct (map type_definition_name tds) \<Longrightarrow> hm_wf (filter_map typed_fields tds)"
proof (induction tds)
  case (Cons td tds)
  have "fst p \<noteq> type_definition_name td" if "p \<in> set (filter_map typed_fields tds)" for p
  proof -
    from that obtain td' where "td' \<in> set tds" "typed_fields td' = Some (fst p, snd p)" by auto
    with typed_fields_name [OF this(2)] Cons.prems show ?thesis by (metis distinct.simps(2) image_eqI list.map(2) list.set_map)
  qed
  with Cons show ?case by (cases "typed_fields td") (auto dest!: typed_fields_name split: prod.splits)
qed simp

lemma all_fields_iff:
  assumes "distinct (map type_definition_name (type_definitions doc))"
  shows "map_of (get_object_and_interface_type_fields doc) n = Some fs \<longleftrightarrow>
    (\<exists>td. TypeDefinition td \<in> set doc \<and> typed_fields td = Some (n, fs))"
proof -
  have "hm_wf (rev (filter_map typed_fields (type_definitions doc)))"
    using distinct_typed_fields [OF assms] by (simp add: rev_map [symmetric])
  then have "map_of (get_object_and_interface_type_fields doc) n = Some fs \<longleftrightarrow>
      (n, fs) \<in> set (filter_map typed_fields (type_definitions doc))"
    unfolding all_fields_typed fold_hm_insert_map_of by (simp add: map_of_eq_Some_iff)
  also have "\<dots> \<longleftrightarrow> (\<exists>td \<in> set (type_definitions doc). typed_fields td = Some (n, fs))"
    unfolding set_filter_map by blast
  finally show ?thesis by (auto simp: type_definitions_iff)
qed

lemma fold_errors_nil:
  assumes "fold (\<lambda>x errors. if P x then errors else errors @ [e x]) xs es = []"
  shows "es = [] \<and> (\<forall>x \<in> set xs. P x)"
  using assms
proof (induction xs arbitrary: es)
  case (Cons x xs)
  show ?case
  proof (cases "P x")
    case True
    with Cons.IH [of es] Cons.prems show ?thesis by simp
  next
    case False
    with Cons.IH [of "es @ [e x]"] Cons.prems show ?thesis by simp
  qed
qed simp

lemma validate_fields_nil:
  assumes "validate_fields sv doc = []" "(n, fs) \<in> set (get_object_and_interface_type_fields doc)" "f \<in> set fs"
  shows "field_type_known sv doc (get_base_type (fld_type f))"
proof -
  have "es = [] \<and> (\<forall>p \<in> set kvs. \<forall>f \<in> set (snd p). field_type_known sv doc (get_base_type (fld_type f)))"
    if "fold (\<lambda>(tn, fs) errors.
        fold (\<lambda>f errors.
           let base = get_base_type (fld_type f) in
           if field_type_known sv doc base then errors
           else errors @ [FieldTypeUnknown tn (fld_name f) base]) fs errors) kvs es = []" for kvs es
    using that
  proof (induction kvs arbitrary: es)
    case (Cons p kvs)
    from Cons.IH [OF Cons.prems [unfolded fold_simps(2) o_def]] show ?case
      unfolding Let_def case_prod_beta by (auto dest!: fold_errors_nil)
  qed simp
  from this [OF assms(1) [unfolded validate_fields_def]] assms(2,3) show ?thesis by force
qed

lemma get_named_type_SomeD:
  assumes "get_named_type doc n = Some td"
  shows "TypeDefinition td \<in> set doc \<and> type_definition_name td = n"
proof -
  have name: "(case td of
              TD_Object t \<Rightarrow> obj_name t = n
            | TD_Enum t \<Rightarrow> pt_name t = n
            | TD_InputObject t \<Rightarrow> pt_name t = n
            | TD_Interface t \<Rightarrow> intf_name t = n
            | TD_Scalar t \<Rightarrow> pt_name t = n
            | TD_Union t \<Rightarrow> pt_name t = n) = (type_definition_name td = n)" for td
    by (cases td) auto
  from assms have "find (\<lambda>td. type_definition_name td = n) (type_definitions doc) = Some td"
    unfolding get_named_type_def name type_definitions_def .
  from find_SomeD [OF this] show ?thesis by (simp add: type_definitions_iff)
qed

lemma object_definitions_iff:
  "t \<in> set (get_object_type_definitions doc) \<longleftrightarrow> TypeDefinition (TD_Object t) \<in> set doc"
proof -
  have td: "(case d of TypeDefinition (TD_Object t) \<Rightarrow> Some t | _ \<Rightarrow> None) = Some t \<longleftrightarrow>
      d = TypeDefinition (TD_Object t)" for d t
    by (auto split: s_definition.splits type_definition.splits)
  show ?thesis unfolding get_object_type_definitions_def set_filter_map td by blast
qed

lemma interface_definitions_iff:
  "t \<in> set (get_interface_type_definitions doc) \<longleftrightarrow> TypeDefinition (TD_Interface t) \<in> set doc"
proof -
  have td: "(case d of TypeDefinition (TD_Interface t) \<Rightarrow> Some t | _ \<Rightarrow> None) = Some t \<longleftrightarrow>
      d = TypeDefinition (TD_Interface t)" for d t
    by (auto split: s_definition.splits type_definition.splits)
  show ?thesis unfolding get_interface_type_definitions_def set_filter_map td by blast
qed

lemma enum_definitions_iff:
  "t \<in> set (get_enum_definitions doc) \<longleftrightarrow> TypeDefinition (TD_Enum t) \<in> set doc"
proof -
  have td: "(case d of TypeDefinition (TD_Enum t) \<Rightarrow> Some t | _ \<Rightarrow> None) = Some t \<longleftrightarrow>
      d = TypeDefinition (TD_Enum t)" for d t
    by (auto split: s_definition.splits type_definition.splits)
  show ?thesis unfolding get_enum_definitions_def set_filter_map td by blast
qed

lemma add_subgraph_id_in_document:
  "TypeDefinition td \<in> set doc \<Longrightarrow> TypeDefinition (add_subgraph_id h td) \<in> set (add_subgraph_id_directives h doc)"
  unfolding add_subgraph_id_directives_def set_map by (rule image_eqI [of _ _ "TypeDefinition td"]) simp_all

lemma add_subgraph_id_from_document:
  assumes "TypeDefinition td \<in> set (add_subgraph_id_directives h doc)"
  obtains td0 where "TypeDefinition td0 \<in> set doc" "td = add_subgraph_id h td0"
  using assms by (auto simp: add_subgraph_id_directives_def split: s_definition.splits)

lemma implementor_stored:
  assumes stored: "stored_document (add_subgraph_id_directives h doc)"
    and t: "t \<in> set (implementors (implementations doc) i)"
  shows "id_type t \<noteq> None"
proof -
  from t have doc: "TypeDefinition (TD_Object t) \<in> set doc" and impl: "obj_implements_interfaces t \<noteq> []"
    by (auto simp: implementors_def implementations_def object_definitions_iff)
  let ?t = "t\<lparr>obj_directives := push_subgraph_id h (obj_name t) (obj_directives t)\<rparr>"
  from add_subgraph_id_in_document [OF doc, of h]
  have "TypeDefinition (TD_Object ?t) \<in> set (add_subgraph_id_directives h doc)" by simp
  with stored have "stored_type (TD_Object ?t)"
    by (auto simp: stored_document_def list_all_iff type_definitions_iff)
  with impl show ?thesis by (auto simp: stored_type_def id_type_def object_field_def)
qed

lemma schema_new_interface:
  assumes new: "schema_new show_field h doc = Inr sch"
    and intf: "TypeDefinition (TD_Interface i) \<in> set (sch_document sch)"
  shows "map_of (sch_types_for_interface sch) (intf_name i) = Some (implementors (implementations doc) (intf_name i))"
proof -
  from new obtain ifaces types where c: "collect_interfaces show_field doc = Inr (ifaces, types)"
      and sch: "sch_types_for_interface sch = types" "sch_document sch = add_subgraph_id_directives h doc"
    by (auto simp: schema_new_def split: sum.splits)
  from intf obtain td0 where td0: "TypeDefinition td0 \<in> set doc" "TD_Interface i = add_subgraph_id h td0"
    unfolding sch by (rule add_subgraph_id_from_document)
  then obtain j where "td0 = TD_Interface j" "intf_name j = intf_name i" by (cases td0) auto
  with td0(1) have "intf_name i \<in> intf_name ` set (get_interface_type_definitions doc)"
    unfolding image_iff by (metis interface_definitions_iff)
  with collect_interfaces_facts [of show_field doc] c show ?thesis unfolding sch by simp
qed

text \<open>A schema as the code builds and accepts it, with the conditions above.\<close>

definition stored_schema :: "(s_field \<Rightarrow> string) \<Rightarrow> (s_value \<Rightarrow> string) \<Rightarrow> schema \<Rightarrow> bool" where
  "stored_schema show_field show_value sch \<longleftrightarrow>
     (\<exists>h doc. schema_new show_field h doc = Inr sch) \<and> validate_fields show_value (sch_document sch) = [] \<and>
     imported_types show_value (sch_document sch) = [] \<and> stored_document (sch_document sch)"

lemma known_type_named:
  assumes "field_type_known sv doc base" "imported_types sv doc = []" "value_type_from_str base = None"
  shows "get_named_type doc base \<noteq> None"
proof -
  from assms have "hm_get (get_object_and_interface_type_fields doc) base \<noteq> None \<or>
      (\<exists>e \<in> set (get_enum_definitions doc). pt_name e = base)"
    by (auto simp: field_type_known_def is_scalar_def list_ex_iff)
  then have "\<exists>td. TypeDefinition td \<in> set doc \<and> type_definition_name td = base"
  proof
    assume "hm_get (get_object_and_interface_type_fields doc) base \<noteq> None"
    then obtain fs where "map_of (rev (filter_map typed_fields (type_definitions doc))) base = Some fs"
      unfolding all_fields_typed fold_hm_insert_map_of by auto
    from map_of_SomeD [OF this] have "(base, fs) \<in> set (filter_map typed_fields (type_definitions doc))"
      by (simp only: set_rev)
    then obtain td where "td \<in> set (type_definitions doc)" "typed_fields td = Some (base, fs)"
      unfolding set_filter_map by blast
    then show ?thesis using typed_fields_name type_definitions_iff by blast
  next
    assume "\<exists>e \<in> set (get_enum_definitions doc). pt_name e = base"
    then obtain e where "TypeDefinition (TD_Enum e) \<in> set doc" "type_definition_name (TD_Enum e) = base"
      by (auto simp: enum_definitions_iff)
    then show ?thesis by blast
  qed
  then show ?thesis unfolding get_named_type_iff .
qed

lemma stored_schema_field_known:
  assumes s: "stored_schema show_field sv sch" and t: "t \<in> set (get_object_type_definitions (sch_document sch))"
    and f: "f \<in> set (obj_fields t)"
  shows "field_type_known sv (sch_document sch) (get_base_type (fld_type f)) \<and>
    get_base_type (fld_type f) \<noteq> SCHEMA_TYPE_NAME"
proof
  have td: "TypeDefinition (TD_Object t) \<in> set (sch_document sch)" using t by (simp add: object_definitions_iff)
  have "map_of (get_object_and_interface_type_fields (sch_document sch)) (obj_name t) = Some (obj_fields t)"
    using s td by (subst all_fields_iff) (auto simp: stored_schema_def stored_document_def typed_fields_def intro!: exI [of _ "TD_Object t"])
  from map_of_SomeD [OF this] s f
  show "field_type_known sv (sch_document sch) (get_base_type (fld_type f))"
    by (auto simp: stored_schema_def intro: validate_fields_nil)
  have "stored_type (TD_Object t)"
    using s td by (auto simp: stored_schema_def stored_document_def list_all_iff type_definitions_iff)
  then show "get_base_type (fld_type f) \<noteq> SCHEMA_TYPE_NAME" using f by (auto simp: stored_type_def list_all_iff)
qed

lemma stored_schema_resolves:
  assumes s: "stored_schema show_field sv sch" and t: "t \<in> set (get_object_type_definitions (sch_document sch))"
    and f: "f \<in> set (obj_fields t)"
  shows "\<exists>st. field_value_type sch (get_base_type (fld_type f)) = Some st"
proof (cases "value_type_from_str (get_base_type (fld_type f))")
  case None
  let ?n = "get_base_type (fld_type f)"
  from s have imps: "imported_types sv (sch_document sch) = []" by (simp add: stored_schema_def)
  from stored_schema_field_known [OF s t f] known_type_named [OF _ imps None]
  obtain td where td: "get_named_type (sch_document sch) ?n = Some td" by blast
  from get_named_type_SomeD [OF td] have in_doc: "TypeDefinition td \<in> set (sch_document sch)"
      and name: "type_definition_name td = ?n" by auto
  have stored: "stored_type td" using s in_doc
    by (auto simp: stored_schema_def stored_document_def list_all_iff type_definitions_iff)
  show ?thesis
  proof (cases td)
    case (TD_Object u)
    with stored name stored_schema_field_known [OF s t f] have "id_type u \<noteq> None" by (auto simp: stored_type_def)
    then show ?thesis using None td TD_Object by (auto simp: field_value_type_def)
  next
    case (TD_Interface i)
    from s obtain h doc where new: "schema_new show_field h doc = Inr sch" by (auto simp: stored_schema_def)
    then have doc: "sch_document sch = add_subgraph_id_directives h doc"
      by (auto simp: schema_new_def split: sum.splits)
    from schema_new_interface [OF new] in_doc TD_Interface
    have types: "map_of (sch_types_for_interface sch) (intf_name i) = Some (implementors (implementations doc) (intf_name i))"
      by simp
    show ?thesis
    proof (cases "implementors (implementations doc) (intf_name i)")
      case Nil
      then show ?thesis using None td TD_Interface types by (simp add: field_value_type_def)
    next
      case (Cons u us)
      then have "u \<in> set (implementors (implementations doc) (intf_name i))" by simp
      moreover from s doc have "stored_document (add_subgraph_id_directives h doc)" by (simp add: stored_schema_def)
      ultimately have "id_type u \<noteq> None" using implementor_stored by blast
      then show ?thesis using None td TD_Interface types Cons by (auto simp: field_value_type_def)
    qed
  qed (use stored None td in \<open>auto simp: stored_type_def field_value_type_def\<close>)
qed (simp add: field_value_type_def)

section \<open>What validation accepts\<close>

fun scalar_type_of :: "store_value \<Rightarrow> value_type option" where
  "scalar_type_of (V_String _) = Some VT_String"
| "scalar_type_of (V_BigDecimal _) = Some VT_BigDecimal"
| "scalar_type_of (V_BigInt _) = Some VT_BigInt"
| "scalar_type_of (V_Bool _) = Some VT_Boolean"
| "scalar_type_of (V_Bytes _) = Some VT_Bytes"
| "scalar_type_of (V_Int _) = Some VT_Int"
| "scalar_type_of V_Null = None"
| "scalar_type_of (V_List _) = None"

definition scalar_or_null :: "value_type \<Rightarrow> store_value \<Rightarrow> bool" where
  "scalar_or_null st v \<longleftrightarrow> v = V_Null \<or> scalar_type_of v = Some st"

definition value_fits :: "s_type \<Rightarrow> value_type \<Rightarrow> store_value \<Rightarrow> bool" where
  "value_fits ty st v \<longleftrightarrow>
     scalar_or_null st v \<or> is_list ty \<and> (\<exists>vs. v = V_List vs \<and> (\<forall>w \<in> set vs. scalar_or_null st w))"

lemma is_assignable_scalar: "is_assignable v st False \<longleftrightarrow> scalar_or_null st v"
  by (cases v) (auto simp: scalar_or_null_def)

lemma is_assignable_list: "is_assignable (V_List vs) st l \<longleftrightarrow> l \<and> (\<forall>w \<in> set vs. scalar_or_null st w)"
  by (simp add: list_all_iff is_assignable_scalar)

lemma is_assignable_fits: "is_assignable v st (is_list ty) \<longleftrightarrow> value_fits ty st v"
proof (cases v)
  case (V_List vs)
  then show ?thesis unfolding V_List is_assignable_list by (auto simp: value_fits_def scalar_or_null_def)
qed (auto simp: value_fits_def scalar_or_null_def)

lemma bad_element_None: "bad_element st i vs = None \<longleftrightarrow> (\<forall>v \<in> set vs. scalar_or_null st v)"
  by (induction vs arbitrary: i) (auto simp: is_assignable_scalar)

lemma validate_value_iff: "validate_value f st v = Inr () \<longleftrightarrow> value_fits (fld_type f) st v"
proof (cases "is_list (fld_type f) \<and> (\<exists>vs. v = V_List vs \<and> bad_element st 0 vs \<noteq> None)")
  case True
  then obtain vs i w where "v = V_List vs" "bad_element st 0 vs = Some (i, w)" "is_list (fld_type f)" by auto
  moreover from this have "\<not> (\<forall>w \<in> set vs. scalar_or_null st w)" using bad_element_None [of st 0 vs] by simp
  ultimately show ?thesis by (auto simp: validate_value_def value_fits_def scalar_or_null_def)
next
  case False
  then have "(if is_list (fld_type f) then (case v of V_List elts \<Rightarrow> bad_element st 0 elts | _ \<Rightarrow> None) else None) = None"
    by (cases v) (simp_all del: split_paired_All not_None_eq)
  then have "validate_value f st v = (if is_assignable v st (is_list (fld_type f)) then Inr ()
      else Inl (FieldValueType v (fld_name f) (fld_type f) (type_name v)))"
    unfolding validate_value_def by (simp only: option.case) simp
  then show ?thesis unfolding is_assignable_fits by simp
qed

text \<open>The condition on one field of the type.\<close>

definition field_ok :: "schema \<Rightarrow> entity \<Rightarrow> s_field \<Rightarrow> bool" where
  "field_ok sch e f \<longleftrightarrow>
     (if is_derived (fld_directives f) then entity_get e (fld_name f) = None
      else case entity_get e (fld_name f) of
             None \<Rightarrow> \<not> is_non_null (fld_type f)
           | Some v \<Rightarrow> \<exists>st. field_value_type sch (get_base_type (fld_type f)) = Some st \<and> value_fits (fld_type f) st v)"

lemma validate_field_correct:
  assumes "\<exists>st. field_value_type sch (get_base_type (fld_type f)) = Some st"
  shows "\<exists>r. validate_field sch e f = Some (Return r) \<and> (r = Inr () \<longleftrightarrow> field_ok sch e f)"
proof -
  from assms obtain st where st: "field_value_type sch (get_base_type (fld_type f)) = Some st" by blast
  then show ?thesis
    by (cases "is_derived (fld_directives f)"; cases "entity_get e (fld_name f)")
      (auto simp: validate_field_def field_ok_def scalar_value_type_resolves validate_value_iff)
qed

lemma validate_field_loop_correct:
  assumes "\<And>f. f \<in> set fs \<Longrightarrow> \<exists>st. field_value_type sch (get_base_type (fld_type f)) = Some st"
  shows "\<exists>r. validate_field_loop sch e fs = Some (Return r) \<and> (r = Inr () \<longleftrightarrow> (\<forall>f \<in> set fs. field_ok sch e f))"
  using assms
proof (induction fs)
  case (Cons f fs)
  from validate_field_correct [OF Cons.prems [of f]] obtain r
    where r: "validate_field sch e f = Some (Return r)" "r = Inr () \<longleftrightarrow> field_ok sch e f" by auto
  show ?case
  proof (cases "r = Inr ()")
    case True
    with Cons r show ?thesis by auto
  next
    case False
    then obtain err where "r = Inl err" by (cases r) auto
    with r False show ?thesis by auto
  qed
qed simp


definition owner_schema :: schema where
  "owner_schema =
     \<lparr>sch_id = ''Qm'',
      sch_document =
        [TypeDefinition (TD_Object \<lparr>obj_name = ''A'', obj_implements_interfaces = [],
           obj_directives = [\<lparr>dir_name = ''subgraphId'', dir_arguments = [(''id'', SV_String ''Qm'')]\<rparr>],
           obj_fields = [\<lparr>fld_name = ''id'', fld_arguments = [], fld_type = NonNullType (NamedType ''Bytes''), fld_directives = []\<rparr>,
             \<lparr>fld_name = ''owners'', fld_arguments = [], fld_type = ListType (NamedType ''A''), fld_directives = []\<rparr>]\<rparr>)],
      sch_interfaces_for_type = [], sch_types_for_interface = [], sch_immutable_types = {}\<rparr>"

lemma owner_schema_stored: "stored_schema fld_name sv owner_schema"
proof -
  let ?f1 = "\<lparr>fld_name = ''id'', fld_arguments = [], fld_type = NonNullType (NamedType ''Bytes''), fld_directives = []\<rparr>"
  let ?f2 = "\<lparr>fld_name = ''owners'', fld_arguments = [], fld_type = ListType (NamedType ''A''), fld_directives = []\<rparr>"
  let ?doc = "[TypeDefinition (TD_Object \<lparr>obj_name = ''A'', obj_implements_interfaces = [], obj_directives = [],
           obj_fields = [?f1, ?f2]\<rparr>)]"
  have "schema_new fld_name ''Qm'' ?doc = Inr owner_schema"
    by (simp add: schema_new_def collect_interfaces_def implementations_def get_object_type_definitions_def
        get_interface_type_definitions_def bt_from_iter_def add_subgraph_id_directives_def push_subgraph_id_def
        SCHEMA_TYPE_NAME_def subgraph_id_directive_def collect_immutable_types_def object_is_immutable_def
        find_directive_def owner_schema_def)
  moreover have "imported_types sv (sch_document owner_schema) = []"
    by (simp add: imported_types_def subgraph_schema_object_type_def get_object_type_definitions_def owner_schema_def
        SCHEMA_TYPE_NAME_def)
  moreover have "validate_fields sv (sch_document owner_schema) = []"
    by (simp add: validate_fields_def get_object_and_interface_type_fields_def owner_schema_def field_type_known_def
        is_scalar_def value_type_from_str_def)
  moreover have "stored_document (sch_document owner_schema)"
    by (simp add: stored_document_def type_definitions_def owner_schema_def stored_type_def id_type_def
        object_field_def value_type_from_str_def SCHEMA_TYPE_NAME_def)
  ultimately show ?thesis unfolding stored_schema_def by blast
qed


text \<open>
  C33. Two values pass the check although the comments on it rule them out: a scalar of the element type
  for a list field, which was to be caught, and null for a field whose type does not allow it. On
  any schema, an entity type with one such field accepts both.
\<close>

theorem entity_validate_gaps:
  assumes "\<not> is_poi n" "\<not> is_derived (fld_directives f)"
    and "find (\<lambda>t. n = obj_name t) (get_object_type_definitions (sch_document sch)) = Some t" "obj_fields t = [f]"
    and "value_type_from_str (get_base_type (fld_type f)) = Some st" "is_list (fld_type f)" "is_non_null (fld_type f)"
    and "key_entity_type key = n"
  shows "entity_validate sch key [(fld_name f, V_Null)] = Some (Return (Inr ())) \<and>
    (\<forall>v. scalar_type_of v = Some st \<longrightarrow> entity_validate sch key [(fld_name f, v)] = Some (Return (Inr ())))"
proof -
  have "field_value_type sch (get_base_type (fld_type f)) = Some st" using assms(5) by (simp add: field_value_type_def)
  from scalar_value_type_resolves [OF this]
  have "entity_validate sch key [(fld_name f, v)] = Some (Return (Inr ()))" if "value_fits (fld_type f) st v" for v
    using assms that validate_value_iff [of f st v] by (simp add: entity_validate_def validate_field_def entity_get_def)
  then show ?thesis by (simp add: value_fits_def scalar_or_null_def)
qed

theorem entity_validate_gaps_witness:
  "entity_validate
     \<lparr>sch_id = ''Qm'',
      sch_document = [TypeDefinition (TD_Object \<lparr>obj_name = ''A'', obj_implements_interfaces = [], obj_directives = [],
           obj_fields = [\<lparr>fld_name = ''tags'', fld_arguments = [], fld_type = NonNullType (ListType (NamedType ''String'')), fld_directives = []\<rparr>]\<rparr>)],
      sch_interfaces_for_type = [], sch_types_for_interface = [], sch_immutable_types = {}\<rparr>
     \<lparr>key_entity_type = ''A'', key_entity_id = ''a'', key_causality_region = 0\<rparr>
     [(''tags'', V_String ''x'')] = Some (Return (Inr ()))"
  using entity_validate_gaps [of "''A''"
      "\<lparr>fld_name = ''tags'', fld_arguments = [], fld_type = NonNullType (ListType (NamedType ''String'')), fld_directives = []\<rparr>"
      "\<lparr>sch_id = ''Qm'',
      sch_document = [TypeDefinition (TD_Object \<lparr>obj_name = ''A'', obj_implements_interfaces = [], obj_directives = [],
           obj_fields = [\<lparr>fld_name = ''tags'', fld_arguments = [], fld_type = NonNullType (ListType (NamedType ''String'')), fld_directives = []\<rparr>]\<rparr>)],
      sch_interfaces_for_type = [], sch_types_for_interface = [], sch_immutable_types = {}\<rparr>"
      "\<lparr>obj_name = ''A'', obj_implements_interfaces = [], obj_directives = [],
           obj_fields = [\<lparr>fld_name = ''tags'', fld_arguments = [], fld_type = NonNullType (ListType (NamedType ''String'')), fld_directives = []\<rparr>]\<rparr>"
      VT_String "\<lparr>key_entity_type = ''A'', key_entity_id = ''a'', key_causality_region = 0\<rparr>"]
  by (simp add: is_poi_def is_derived_def get_object_type_definitions_def value_type_from_str_def)

end
