(* ===== verification/Entity_Cache.thy ===== *)
theory Entity_Cache
  imports Entity_Validation Lfu_Cache Store_Types
begin

text \<open>
  The entity cache of \<open>graph/src/components/store/entity_cache.rs\<close>: what a mapping handler reads and
  writes while a block is processed, and the modifications of the store that come out of it.

  The cache reads through the trait \<open>ReadStore\<close>, here the record \<open>read_store\<close>; the locale \<open>read_store_laws\<close>
  says what it promises, and \<open>EmptyStore\<close> and \<open>map_store\<close> provide it. The operations also take the
  priority queue \<open>ops\<close> and the weight function \<open>wt\<close> of the LFU cache and the crates of \<open>scalar_lib\<close>. A
  failing assertion is \<^term>\<open>None\<close> or \<open>Panic\<close>. The consistency check of \<open>get\<close>, which only debug builds
  make, is left out.
\<close>

section \<open>The store that the cache reads\<close>

record 'err read_store =
  rs_get :: "entity_key \<Rightarrow> 'err + entity option"
  rs_get_many :: "entity_key set \<Rightarrow> 'err + (entity_key, entity) btree_map"
  rs_input_schema :: schema

definition empty_store :: "schema \<Rightarrow> 'err read_store" where
  "empty_store sch = \<lparr> rs_get = (\<lambda>_. Inr None), rs_get_many = (\<lambda>_. Inr []), rs_input_schema = sch \<rparr>"

section \<open>The cache\<close>

record ('q, 'err) entity_cache =
  ec_current :: "'q lfu_cache"
  ec_updates :: "(entity_key, entity_op) hash_map"
  ec_handler_updates :: "(entity_key, entity_op) hash_map"
  ec_in_handler :: bool
  ec_store :: "'err read_store"
  ec_schema :: schema

type_synonym 'q entity_queue_ops = "(entity_key, entity option, 'q) pq_ops"
type_synonym entity_weight = "entity_key \<Rightarrow> entity option \<Rightarrow> u64"

definition with_current :: "'err read_store \<Rightarrow> 'q lfu_cache \<Rightarrow> ('q, 'err) entity_cache" where
  "with_current store current =
     \<lparr> ec_current = current, ec_updates = [], ec_handler_updates = [], ec_in_handler = False,
       ec_store = store, ec_schema = rs_input_schema store \<rparr>"

definition ec_new :: "'q entity_queue_ops \<Rightarrow> bool \<Rightarrow> 'err read_store \<Rightarrow> ('q, 'err) entity_cache" where
  "ec_new ops dead store =
     \<lparr> ec_current = lfu_new ops dead, ec_updates = [], ec_handler_updates = [], ec_in_handler = False,
       ec_store = store, ec_schema = rs_input_schema store \<rparr>"

text \<open>The operation in the map entry of its key, accumulated onto the one that is there.\<close>

definition update_entry ::
    "entity_key \<Rightarrow> entity_op \<Rightarrow> (entity_key, entity_op) hash_map \<Rightarrow> (entity_key, entity_op) hash_map" where
  "update_entry key op updates =
     (case hm_get updates key of
        None \<Rightarrow> hm_insert key op updates
      | Some current \<Rightarrow> hm_insert key (accumulate current op) updates)"

definition ec_entity_op :: "entity_key \<Rightarrow> entity_op \<Rightarrow> ('q, 'err) entity_cache \<Rightarrow> ('q, 'err) entity_cache" where
  "ec_entity_op key op c =
     (if ec_in_handler c then c\<lparr>ec_handler_updates := update_entry key op (ec_handler_updates c)\<rparr>
      else c\<lparr>ec_updates := update_entry key op (ec_updates c)\<rparr>)"

definition enter_handler :: "('q, 'err) entity_cache \<Rightarrow> ('q, 'err) entity_cache option" where
  "enter_handler c = (if ec_in_handler c then None else Some (c\<lparr>ec_in_handler := True\<rparr>))"

definition exit_handler :: "('q, 'err) entity_cache \<Rightarrow> ('q, 'err) entity_cache option" where
  "exit_handler c =
     (if \<not> ec_in_handler c then None
      else Some (fold (\<lambda>(key, op). ec_entity_op key op) (ec_handler_updates c)
                   (c\<lparr>ec_in_handler := False, ec_handler_updates := []\<rparr>)))"

definition exit_handler_and_discard_changes :: "('q, 'err) entity_cache \<Rightarrow> ('q, 'err) entity_cache option" where
  "exit_handler_and_discard_changes c =
     (if \<not> ec_in_handler c then None else Some (c\<lparr>ec_in_handler := False, ec_handler_updates := []\<rparr>))"

definition get_entity ::
    "'q entity_queue_ops \<Rightarrow> entity_weight \<Rightarrow> 'err read_store \<Rightarrow> entity_key \<Rightarrow> 'q lfu_cache \<Rightarrow>
     ('err + entity option) \<times> 'q lfu_cache" where
  "get_entity ops wt store key current =
     (case lfu_get ops key current of
        (Some data, current') \<Rightarrow> (Inr data, current')
      | (None, current') \<Rightarrow>
          (case rs_get store key of
             Inl e \<Rightarrow> (Inl e, current')
           | Inr r \<Rightarrow>
               (let entity = map_option (\<lambda>e. entity_remove e ''__typename'') r
                in (Inr entity, lfu_insert ops wt key entity current'))))"

definition apply_pending :: "(entity_key, entity_op) hash_map \<Rightarrow> entity_key \<Rightarrow> entity option \<Rightarrow> entity option" where
  "apply_pending updates key e = (case hm_get updates key of None \<Rightarrow> e | Some op \<Rightarrow> apply_to op e)"

definition ec_get ::
    "'q entity_queue_ops \<Rightarrow> entity_weight \<Rightarrow> entity_key \<Rightarrow> ('q, 'err) entity_cache \<Rightarrow>
     ('err + entity option) \<times> ('q, 'err) entity_cache" where
  "ec_get ops wt eref c =
     (case get_entity ops wt (ec_store c) eref (ec_current c) of
        (Inl e, current') \<Rightarrow> (Inl e, c\<lparr>ec_current := current'\<rparr>)
      | (Inr entity, current') \<Rightarrow>
          (Inr (apply_pending (ec_handler_updates c) eref (apply_pending (ec_updates c) eref entity)),
           c\<lparr>ec_current := current'\<rparr>))"

definition ec_remove :: "entity_key \<Rightarrow> ('q, 'err) entity_cache \<Rightarrow> ('q, 'err) entity_cache" where
  "ec_remove key c = ec_entity_op key EO_Remove c"

datatype 'err set_error =
    IdConflict entity_type string string
  | IdValue id_error
  | SetStore 'err
  | ReadBackFailed entity_key
  | SetInvalid entity_error

definition check_id :: "entity_key \<Rightarrow> string \<Rightarrow> 'err set_error option" where
  "check_id key prev_id =
     (if prev_id \<noteq> key_entity_id key
      then Some (IdConflict (key_entity_type key) prev_id (key_entity_id key)) else None)"

text \<open>The first part of \<open>set\<close>: the entity with its id, or the error that ends \<open>set\<close>; the option is a panic.\<close>

definition set_with_id ::
    "scalar_lib \<Rightarrow> schema \<Rightarrow> entity_key \<Rightarrow> entity \<Rightarrow> ('err set_error + entity) option" where
  "set_with_id lib sch key entity =
     (let check = (\<lambda>s. case check_id key s of Some e \<Rightarrow> Some (Inl e) | None \<Rightarrow> Some (Inr entity))
      in case entity_get entity ''id'' of
           Some (V_String s) \<Rightarrow> check s
         | Some (V_Bytes b) \<Rightarrow> check (bytes_to_string lib b)
         | Some _ \<Rightarrow> Some (Inr entity)
         | None \<Rightarrow>
             (case id_value lib sch key of
                Inl Id_panic \<Rightarrow> None
              | Inl e \<Rightarrow> Some (Inl (IdValue e))
              | Inr v \<Rightarrow> Some (Inr (entity_insert entity ''id'' v))))"

text \<open>
  \<open>set\<close>. The operation is recorded before the second validation, and stays recorded when that fails,
  as in the code.
\<close>

definition ec_set ::
    "scalar_lib \<Rightarrow> 'q entity_queue_ops \<Rightarrow> entity_weight \<Rightarrow> entity_key \<Rightarrow> entity \<Rightarrow> ('q, 'err) entity_cache \<Rightarrow>
     (('err set_error + unit) \<times> ('q, 'err) entity_cache) outcome option" where
  "ec_set lib ops wt key entity0 c =
     (case set_with_id lib (ec_schema c) key entity0 of
        None \<Rightarrow> Some (Panic ''called `Option::unwrap()` on a `None` value'')
      | Some (Inl e) \<Rightarrow> Some (Return (Inl e, c))
      | Some (Inr entity) \<Rightarrow>
          (case entity_validate (ec_schema c) key entity of
             None \<Rightarrow> None
           | Some (Panic p) \<Rightarrow> Some (Panic p)
           | Some (Return valid) \<Rightarrow>
               (let c1 = ec_entity_op key (EO_Update entity) c in
                case valid of
                  Inr _ \<Rightarrow> Some (Return (Inr (), c1))
                | Inl _ \<Rightarrow>
                    (case ec_get ops wt key c1 of
                       (Inl e, c2) \<Rightarrow> Some (Return (Inl (SetStore e), c2))
                     | (Inr None, c2) \<Rightarrow> Some (Return (Inl (ReadBackFailed key), c2))
                     | (Inr (Some merged), c2) \<Rightarrow>
                         (case entity_validate (ec_schema c2) key merged of
                            None \<Rightarrow> None
                          | Some (Panic p) \<Rightarrow> Some (Panic p)
                          | Some (Return (Inl e)) \<Rightarrow> Some (Return (Inl (SetInvalid e), c2))
                          | Some (Return (Inr _)) \<Rightarrow> Some (Return (Inr (), c2)))))))"

fun operation_key :: "entity_operation \<Rightarrow> entity_key" where
  "operation_key (Op_Set key _) = key"
| "operation_key (Op_Remove key) = key"

fun operation_op :: "entity_operation \<Rightarrow> entity_op" where
  "operation_op (Op_Set _ data) = EO_Update data"
| "operation_op (Op_Remove _) = EO_Remove"

definition ec_append :: "entity_operation list \<Rightarrow> ('q, 'err) entity_cache \<Rightarrow> ('q, 'err) entity_cache option" where
  "ec_append operations c =
     (if ec_in_handler c then None
      else Some (fold (\<lambda>operation. ec_entity_op (operation_key operation) (operation_op operation)) operations c))"

definition ec_extend ::
    "'q entity_queue_ops \<Rightarrow> ('q, 'err) entity_cache \<Rightarrow> ('q, 'err) entity_cache \<Rightarrow> ('q, 'err) entity_cache option" where
  "ec_extend ops other c =
     (if ec_in_handler other then None
      else Some (fold (\<lambda>(key, op). ec_entity_op key op) (ec_updates other)
                   (c\<lparr>ec_current := lfu_extend ops (lfu_into_iter ops (ec_current other)) (ec_current c)\<rparr>)))"

section \<open>Modifications\<close>

text \<open>One update against the entity in the store: what to cache for it, if anything, and the modification.\<close>

fun modification_for ::
    "entity_key \<Rightarrow> entity option \<Rightarrow> entity_op \<Rightarrow> entity option option \<times> entity_modification option" where
  "modification_for key None (EO_Update updates) =
     (let data = merge_remove_null_fields [] updates in (Some (Some data), Some (Mod_Insert key data)))"
| "modification_for key None (EO_Overwrite updates) =
     (let data = merge_remove_null_fields [] updates in (Some (Some data), Some (Mod_Insert key data)))"
| "modification_for key (Some current) (EO_Update updates) =
     (let data = merge_remove_null_fields current updates
      in (Some (Some data), if \<not> hm_eq current data then Some (Mod_Overwrite key data) else None))"
| "modification_for key (Some current) (EO_Overwrite data) =
     (Some (Some data), if \<not> hm_eq current data then Some (Mod_Overwrite key data) else None)"
| "modification_for key (Some _) EO_Remove = (Some None, Some (Mod_Remove key))"
| "modification_for key None EO_Remove = (None, None)"

text \<open>The body of the loop over the updates; \<^term>\<open>None\<close> is the assertion in \<open>LfuCache::remove\<close>.\<close>

definition modification_step ::
    "'q entity_queue_ops \<Rightarrow> entity_weight \<Rightarrow> entity_key \<times> entity_op \<Rightarrow>
     'q lfu_cache \<times> entity_modification list \<Rightarrow> ('q lfu_cache \<times> entity_modification list) option" where
  "modification_step ops wt ku cm =
     (let (key, update) = ku; (current, mods) = cm in
      case lfu_remove ops key current of
        Inl _ \<Rightarrow> None
      | Inr (found, current1) \<Rightarrow>
          (let entity = (case found of None \<Rightarrow> None | Some e \<Rightarrow> e);
               (cached, modification) = modification_for key entity update;
               current2 = (case cached of None \<Rightarrow> current1 | Some e \<Rightarrow> lfu_insert ops wt key e current1)
           in Some (current2, mods @ (case modification of None \<Rightarrow> [] | Some m \<Rightarrow> [m]))))"

fun modification_loop ::
    "'q entity_queue_ops \<Rightarrow> entity_weight \<Rightarrow> (entity_key \<times> entity_op) list \<Rightarrow>
     'q lfu_cache \<times> entity_modification list \<Rightarrow> ('q lfu_cache \<times> entity_modification list) option" where
  "modification_loop ops wt [] cm = Some cm"
| "modification_loop ops wt (ku # kus) cm =
     (case modification_step ops wt ku cm of None \<Rightarrow> None | Some cm' \<Rightarrow> modification_loop ops wt kus cm')"

definition missing_keys :: "'q entity_queue_ops \<Rightarrow> ('q, 'err) entity_cache \<Rightarrow> entity_key list" where
  "missing_keys ops c =
     filter (\<lambda>key. \<not> is_immutable (ec_schema c) (key_entity_type key))
       (filter (\<lambda>key. \<not> lfu_contains_key ops key (ec_current c)) (map fst (ec_updates c)))"

text \<open>\<open>entry_size\<close> and \<open>max_weight\<close> are the size of a cache entry and \<open>ENV_VARS.mappings.entity_cache_size\<close>.\<close>

definition as_modifications ::
    "'q entity_queue_ops \<Rightarrow> entity_weight \<Rightarrow> u64 \<Rightarrow> u64 \<Rightarrow> ('q, 'err) entity_cache \<Rightarrow>
     ('err + entity_modification list \<times> 'q lfu_cache) outcome" where
  "as_modifications ops wt entry_size max_weight c =
     (if ec_in_handler c then Panic ''assertion failed: !self.in_handler''
      else case rs_get_many (ec_store c) (set (missing_keys ops c)) of
             Inl e \<Rightarrow> Return (Inl e)
           | Inr entities \<Rightarrow>
               (let current = fold (\<lambda>(key, e). lfu_insert ops wt key (Some e)) entities (ec_current c) in
                case modification_loop ops wt (ec_updates c) (current, []) of
                  None \<Rightarrow> Panic ''assertion failed''
                | Some (current', mods) \<Rightarrow>
                    (case lfu_evict ops entry_size max_weight current' of
                       Evict_done (_, current'') \<Rightarrow> Return (Inr (mods, current''))
                     | _ \<Rightarrow> Panic ''empty cache but total_weight > max_weight'')))"

section \<open>Entities as mappings see them\<close>

text \<open>
  Two states of an entity that differ at most in attributes set to null and in \<open>__typename\<close>, which
  the store adds for queries.
\<close>

fun same_view :: "entity option \<Rightarrow> entity option \<Rightarrow> bool" where
  "same_view None None \<longleftrightarrow> True"
| "same_view (Some a) (Some b) \<longleftrightarrow> (\<forall>k. k \<noteq> ''__typename'' \<longrightarrow> non_null a k = non_null b k)"
| "same_view _ _ \<longleftrightarrow> False"

lemma same_view_refl [simp]: "same_view e e"
  by (cases e) auto

lemma same_view_sym: "same_view a b \<Longrightarrow> same_view b a"
  by (induction a b rule: same_view.induct) auto

lemma same_view_trans [trans]: "same_view a b \<Longrightarrow> same_view b c \<Longrightarrow> same_view a c"
  by (induction a b rule: same_view.induct) (cases c; simp)+

lemma same_view_None [simp]: "same_view None e \<longleftrightarrow> e = None" "same_view e None \<longleftrightarrow> e = None"
  by (cases e; simp)+

lemma same_view_Some: "same_view (Some a) e \<longleftrightarrow>
    (\<exists>b. e = Some b \<and> (\<forall>k. k \<noteq> ''__typename'' \<longrightarrow> non_null a k = non_null b k))"
  by (cases e) auto

lemma same_entity_view: "same_entity a b \<Longrightarrow> same_view a b"
  by (induction a b rule: same_entity.induct) auto

lemma non_null_remove: "non_null (entity_remove e n) k = (if k = n then None else non_null e k)"
  by (simp add: non_null_def entity_remove_def hm_simps)

lemma same_view_stripped: "same_view (map_option (\<lambda>e. entity_remove e ''__typename'') r) r"
  by (cases r) (auto simp: non_null_remove)

lemma apply_to_view: "op_wf a \<Longrightarrow> same_view e e' \<Longrightarrow> same_view (apply_to a e) (apply_to a e')"
  by (cases a; cases e; cases e') (auto simp: non_null_merge)

lemma accumulate_view:
  "op_wf a \<Longrightarrow> op_wf b \<Longrightarrow> same_view (apply_to (accumulate a b) e) (apply_to b (apply_to a e))"
  by (rule same_entity_view [OF apply_to_accumulate])

section \<open>What the store promises\<close>

definition entity_wf :: "entity option \<Rightarrow> bool" where
  "entity_wf e = (case e of None \<Rightarrow> True | Some x \<Rightarrow> hm_wf x)"

locale read_store_laws =
  fixes st :: "'err read_store" and S :: "entity_key \<Rightarrow> entity option"
  assumes get_law: "rs_get st k = Inr r \<Longrightarrow> same_view r (S k) \<and> entity_wf r"
    and get_many_law: "rs_get_many st ks = Inr m \<Longrightarrow>
      hm_wf m \<and> fst ` set m \<subseteq> ks \<and> (\<forall>k \<in> ks. same_view (map_of m k) (S k) \<and> entity_wf (map_of m k))"

interpretation empty: read_store_laws "empty_store sch" "\<lambda>_. None"
  by unfold_locales (auto simp: empty_store_def entity_wf_def)

text \<open>A store that holds the entities of a map; what it returns carries \<open>__typename\<close>, as the database does.\<close>

definition with_typename :: "entity_key \<Rightarrow> entity \<Rightarrow> entity" where
  "with_typename k e = entity_insert e ''__typename'' (V_String (key_entity_type k))"

definition map_store :: "schema \<Rightarrow> (entity_key, entity) hash_map \<Rightarrow> 'err read_store" where
  "map_store sch m =
     \<lparr> rs_get = (\<lambda>k. Inr (map_option (with_typename k) (hm_get m k))),
       rs_get_many = (\<lambda>ks. Inr (map (\<lambda>(k, e). (k, with_typename k e)) (filter (\<lambda>(k, _). k \<in> ks) m))),
       rs_input_schema = sch \<rparr>"

lemma with_typename_view: "same_view (Some (with_typename k e)) (Some e)"
  by (simp add: with_typename_def entity_insert_def non_null_def hm_simps)

lemma with_typename_wf:
  "list_all (\<lambda>x. hm_wf (snd x)) m \<Longrightarrow> entity_wf (map_option (with_typename k) (map_of m k))"
  by (auto simp: entity_wf_def with_typename_def entity_insert_def list_all_iff distinct_update
      split: option.splits dest!: map_of_SomeD)

lemma map_store_laws:
  assumes "hm_wf m" "list_all (\<lambda>x. hm_wf (snd x)) m"
  shows "read_store_laws (map_store sch m) (map_of m)"
proof
  fix k r assume "rs_get (map_store sch m) k = Inr r"
  then have "r = map_option (with_typename k) (map_of m k)" by (simp add: map_store_def)
  then show "same_view r (map_of m k) \<and> entity_wf r"
    using with_typename_view with_typename_wf [OF assms(2), of k] by (cases "map_of m k") (auto simp del: same_view.simps(2))
next
  fix ks r assume "rs_get_many (map_store sch m) ks = Inr r"
  then have r: "r = map (\<lambda>(k, e). (k, with_typename k e)) (filter (\<lambda>(k, _). k \<in> ks) m)"
    by (simp add: map_store_def)
  have keys: "map fst r = map fst (filter (\<lambda>(k, _). k \<in> ks) m)" unfolding r by (induction m) auto
  have eq: "map_of r k = map_option (with_typename k) (map_of m k)" if "k \<in> ks" for k
    unfolding r using that by (induction m) auto
  moreover have "same_view (map_option (with_typename k) x) x" for k x
    using with_typename_view by (cases x) (auto simp del: same_view.simps(2))
  ultimately have "\<forall>k \<in> ks. same_view (map_of r k) (map_of m k) \<and> entity_wf (map_of r k)" using with_typename_wf [OF assms(2)] by simp
  moreover have "hm_wf r" unfolding keys using assms(1) by (induction m) auto
  moreover have "fst ` set r \<subseteq> ks" unfolding r by auto
  ultimately show "hm_wf r \<and> fst ` set r \<subseteq> ks \<and>
      (\<forall>k \<in> ks. same_view (map_of r k) (map_of m k) \<and> entity_wf (map_of r k))" by blast
qed

section \<open>Pending updates\<close>

definition ops_wf :: "(entity_key, entity_op) hash_map \<Rightarrow> bool" where
  "ops_wf updates \<longleftrightarrow> hm_wf updates \<and> list_all (\<lambda>u. op_wf (snd u)) updates"

lemma ops_wf_get: "ops_wf updates \<Longrightarrow> map_of updates k = Some op \<Longrightarrow> op_wf op"
  by (auto simp: ops_wf_def list_all_iff dest!: map_of_SomeD)

lemma ops_wf_Nil [simp]: "ops_wf []"
  by (simp add: ops_wf_def)

lemma ops_wf_update_entry:
  assumes "ops_wf updates" "op_wf op"
  shows "ops_wf (update_entry key op updates)"
proof -
  have "op_wf v" if "(k, v) \<in> set (AList.update key w updates)" "op_wf w" for k v w
  proof -
    have "hm_wf (AList.update key w updates)" using assms(1) by (simp add: ops_wf_def distinct_update)
    with that(1) have "map_of (AList.update key w updates) k = Some v" by simp
    then show ?thesis using that(2) ops_wf_get [OF assms(1)] by (auto simp: hm_simps split: if_splits)
  qed
  moreover have "hm_wf (AList.update key w updates)" for w using assms(1) by (simp add: ops_wf_def distinct_update)
  ultimately have "ops_wf (AList.update key w updates)" if "op_wf w" for w
    using that unfolding ops_wf_def list_all_iff by (metis prod.collapse)
  then show ?thesis
    using assms op_wf_accumulate ops_wf_get by (auto simp: update_entry_def split: option.splits)
qed

lemma apply_pending_update_entry:
  assumes "ops_wf updates" "op_wf op"
  shows "same_view (apply_pending (update_entry key op updates) k e)
    (if k = key then apply_to op (apply_pending updates key e) else apply_pending updates k e)"
  using assms accumulate_view ops_wf_get [OF assms(1)]
  by (auto simp: apply_pending_def update_entry_def hm_simps split: option.splits)

lemma apply_pending_view:
  "ops_wf updates \<Longrightarrow> same_view e e' \<Longrightarrow> same_view (apply_pending updates k e) (apply_pending updates k e')"
  by (auto simp: apply_pending_def intro: apply_to_view ops_wf_get split: option.splits)

text \<open>Merging the entries of a map, as at the end of a handler.\<close>

lemma merge_pending:
  assumes "hm_wf ups" "list_all (\<lambda>u. op_wf (snd u)) ups" "ops_wf updates"
  shows "ops_wf (fold (\<lambda>(key, op). update_entry key op) ups updates) \<and>
    same_view (apply_pending (fold (\<lambda>(key, op). update_entry key op) ups updates) k e)
      (apply_pending ups k (apply_pending updates k e))"
  using assms
proof (induction ups arbitrary: updates)
  case Nil
  then show ?case by (simp add: apply_pending_def)
next
  case (Cons u ups)
  obtain key op where u: "u = (key, op)" by (cases u)
  let ?u = "update_entry key op updates"
  have wf: "op_wf op" "ops_wf ?u" "hm_wf ups" "list_all (\<lambda>u. op_wf (snd u)) ups" and fresh: "map_of ups key = None"
    using Cons.prems ops_wf_update_entry by (auto simp: u map_of_eq_None_iff)
  from Cons.IH [OF wf(3,4,2)]
  have IH: "ops_wf (fold (\<lambda>(key, op). update_entry key op) ups ?u)"
    "same_view (apply_pending (fold (\<lambda>(key, op). update_entry key op) ups ?u) k e)
      (apply_pending ups k (apply_pending ?u k e))" by auto
  have ups: "ops_wf ups" using wf by (simp add: ops_wf_def)
  have "same_view (apply_pending ups k (apply_pending ?u k e))
      (apply_pending ups k (if k = key then apply_to op (apply_pending updates key e) else apply_pending updates k e))"
    by (rule apply_pending_view [OF ups apply_pending_update_entry [OF Cons.prems(3) wf(1)]])
  also have "(apply_pending ups k (if k = key then apply_to op (apply_pending updates key e) else apply_pending updates k e)) =
      apply_pending (u # ups) k (apply_pending updates k e)"
    using fresh by (cases "k = key") (simp_all add: u apply_pending_def)
  finally show ?case using IH same_view_trans by (auto simp: u)
qed

lemma fold_entity_op:
  "fold (\<lambda>(key, op). ec_entity_op key op) ups c =
     (if ec_in_handler c
      then c\<lparr>ec_handler_updates := fold (\<lambda>(key, op). update_entry key op) ups (ec_handler_updates c)\<rparr>
      else c\<lparr>ec_updates := fold (\<lambda>(key, op). update_entry key op) ups (ec_updates c)\<rparr>)"
proof (induction ups arbitrary: c)
  case (Cons u ups)
  obtain key op where u: "u = (key, op)" by (cases u)
  show ?case
    unfolding u fold_simps(2) prod.case o_apply Cons.IH by (simp add: ec_entity_op_def)
qed simp

definition ec_wf :: "('q, 'err) entity_cache \<Rightarrow> bool" where
  "ec_wf c \<longleftrightarrow> ops_wf (ec_updates c) \<and> ops_wf (ec_handler_updates c)"

text \<open>What the cache holds agrees with the store.\<close>

definition current_ok :: "'q entity_queue_ops \<Rightarrow> (entity_key \<Rightarrow> entity option) \<Rightarrow> 'q lfu_cache \<Rightarrow> bool" where
  "current_ok ops S current \<longleftrightarrow> (\<forall>k e. lfu_map ops current k = Some e \<longrightarrow> same_view e (S k) \<and> entity_wf e)"

text \<open>The entity a handler sees: the stored one with the pending updates.\<close>

definition ec_view :: "(entity_key \<Rightarrow> entity option) \<Rightarrow> ('q, 'err) entity_cache \<Rightarrow> entity_key \<Rightarrow> entity option" where
  "ec_view S c k = apply_pending (ec_handler_updates c) k (apply_pending (ec_updates c) k (S k))"

locale cached_store = priority_queue ops + read_store_laws st S
  for ops :: "'q entity_queue_ops" and st :: "'err read_store" and S :: "entity_key \<Rightarrow> entity option"
begin

lemma current_ok_insert:
  "current_ok ops S c \<Longrightarrow> same_view e (S k) \<Longrightarrow> entity_wf e \<Longrightarrow> current_ok ops S (lfu_insert ops wt k e c)"
  by (auto simp: current_ok_def lfu_insert_map)

lemma get_entity_ok:
  assumes "current_ok ops S c"
  shows "(\<forall>e. fst (get_entity ops wt st k c) = Inr e \<longrightarrow> same_view e (S k)) \<and>
    (\<forall>err. fst (get_entity ops wt st k c) = Inl err \<longrightarrow> rs_get st k = Inl err) \<and>
    current_ok ops S (snd (get_entity ops wt st k c))"
proof -
  obtain r c1 where get: "lfu_get ops k c = (r, c1)" by (cases "lfu_get ops k c")
  with lfu_get_map [of k c] have r: "r = lfu_map ops c k" and c1: "lfu_map ops c1 = lfu_map ops c" by auto
  have ok1: "current_ok ops S c1" using assms c1 by (simp add: current_ok_def)
  show ?thesis
  proof (cases r)
    case (Some e)
    then have "get_entity ops wt st k c = (Inr e, c1)" by (simp add: get_entity_def get)
    moreover from Some r assms have "same_view e (S k)" by (auto simp: current_ok_def)
    ultimately show ?thesis using ok1 by simp
  next
    case None
    show ?thesis
    proof (cases "rs_get st k")
      case (Inl e)
      with None ok1 show ?thesis by (simp add: get_entity_def get)
    next
      case (Inr e)
      have "same_view (map_option (\<lambda>e. entity_remove e ''__typename'') e) (S k)"
        using same_view_stripped get_law [OF Inr] same_view_trans by blast
      moreover have "entity_wf (map_option (\<lambda>e. entity_remove e ''__typename'') e)"
        using get_law [OF Inr] by (auto simp: entity_wf_def entity_remove_def distinct_delete split: option.splits)
      ultimately show ?thesis using None Inr ok1 current_ok_insert by (simp add: get_entity_def get Let_def)
    qed
  qed
qed

lemma ec_get_ok:
  assumes "ec_store c = st" "current_ok ops S (ec_current c)" "ec_wf c"
  shows "(\<forall>e. fst (ec_get ops wt k c) = Inr e \<longrightarrow> same_view e (ec_view S c k)) \<and>
    (\<forall>err. fst (ec_get ops wt k c) = Inl err \<longrightarrow> rs_get st k = Inl err) \<and>
    (\<exists>current'. snd (ec_get ops wt k c) = c\<lparr>ec_current := current'\<rparr> \<and> current_ok ops S current')"
proof -
  obtain r c1 where get: "get_entity ops wt st k (ec_current c) = (r, c1)"
    by (cases "get_entity ops wt st k (ec_current c)")
  with get_entity_ok [OF assms(2), of wt k]
  have ok: "r = Inr e \<Longrightarrow> same_view e (S k)" "r = Inl err \<Longrightarrow> rs_get st k = Inl err" "current_ok ops S c1" for e err
    by auto
  show ?thesis
  proof (cases r)
    case (Inl e)
    with ok show ?thesis by (auto simp: ec_get_def assms(1) get)
  next
    case (Inr e)
    from apply_pending_view [OF _ apply_pending_view [OF _ ok(1) [OF Inr]]] assms(3)
    have "same_view (apply_pending (ec_handler_updates c) k (apply_pending (ec_updates c) k e)) (ec_view S c k)"
      unfolding ec_view_def ec_wf_def by blast
    with Inr ok(3) show ?thesis by (auto simp: ec_get_def assms(1) get)
  qed
qed

end

section \<open>Handlers are transactions\<close>

text \<open>
  The calls on a cache, with the result for reads, and the steps they make. The entities are hash
  maps, so their keys are distinct.
\<close>

datatype 'err cache_call =
    C_Get entity_key "'err + entity option"
  | C_Set entity_key entity
  | C_Remove entity_key
  | C_Append "entity_operation list"
  | C_Enter
  | C_Exit
  | C_Discard

inductive cache_step ::
    "scalar_lib \<Rightarrow> 'q entity_queue_ops \<Rightarrow> entity_weight \<Rightarrow>
     ('q, 'err) entity_cache \<Rightarrow> 'err cache_call \<Rightarrow> ('q, 'err) entity_cache \<Rightarrow> bool"
  for lib ops wt where
  step_get: "ec_get ops wt k c = (r, c') \<Longrightarrow> cache_step lib ops wt c (C_Get k r) c'"
| step_set: "hm_wf e \<Longrightarrow> ec_set lib ops wt k e c = Some (Return (r, c')) \<Longrightarrow> cache_step lib ops wt c (C_Set k e) c'"
| step_remove: "cache_step lib ops wt c (C_Remove k) (ec_remove k c)"
| step_append: "list_all (\<lambda>x. op_wf (operation_op x)) xs \<Longrightarrow> ec_append xs c = Some c' \<Longrightarrow>
    cache_step lib ops wt c (C_Append xs) c'"
| step_enter: "enter_handler c = Some c' \<Longrightarrow> cache_step lib ops wt c C_Enter c'"
| step_exit: "exit_handler c = Some c' \<Longrightarrow> cache_step lib ops wt c C_Exit c'"
| step_discard: "exit_handler_and_discard_changes c = Some c' \<Longrightarrow> cache_step lib ops wt c C_Discard c'"

inductive cache_steps ::
    "scalar_lib \<Rightarrow> 'q entity_queue_ops \<Rightarrow> entity_weight \<Rightarrow>
     ('q, 'err) entity_cache \<Rightarrow> 'err cache_call list \<Rightarrow> ('q, 'err) entity_cache \<Rightarrow> bool"
  for lib ops wt where
  steps_nil: "cache_steps lib ops wt c [] c"
| steps_cons: "cache_step lib ops wt c x c' \<Longrightarrow> cache_steps lib ops wt c' xs c'' \<Longrightarrow>
    cache_steps lib ops wt c (x # xs) c''"

text \<open>
  The specification: a map from keys to entities, and, while a handler runs, a private copy of it that
  becomes the map when the handler ends and is dropped when it is discarded.
\<close>

type_synonym entities = "entity_key \<Rightarrow> entity option"
type_synonym transaction = "entities \<times> entities option"

definition now :: "transaction \<Rightarrow> entities" where
  "now s = (case snd s of None \<Rightarrow> fst s | Some m \<Rightarrow> m)"

definition txn_write :: "entity_key \<Rightarrow> entity_op \<Rightarrow> transaction \<Rightarrow> transaction" where
  "txn_write k op s =
     (case snd s of
        None \<Rightarrow> ((fst s)(k := apply_to op (fst s k)), None)
      | Some m \<Rightarrow> (fst s, Some (m(k := apply_to op (m k)))))"

inductive txn_step :: "scalar_lib \<Rightarrow> schema \<Rightarrow> transaction \<Rightarrow> 'err cache_call \<Rightarrow> transaction \<Rightarrow> bool"
  for lib sch where
  txn_get: "(\<And>e. r = Inr e \<Longrightarrow> same_view e (now s k)) \<Longrightarrow> txn_step lib sch s (C_Get k r) s"
| txn_set: "set_with_id lib sch k e = Some (Inr e' :: 'err set_error + entity) \<Longrightarrow>
    txn_step lib sch s (C_Set k e :: 'err cache_call) (txn_write k (EO_Update e') s)"
| txn_set_refused: "set_with_id lib sch k e = Some (Inl err :: 'err set_error + entity) \<Longrightarrow>
    txn_step lib sch s (C_Set k e :: 'err cache_call) s"
| txn_remove: "txn_step lib sch s (C_Remove k) (txn_write k EO_Remove s)"
| txn_append: "snd s = None \<Longrightarrow>
    txn_step lib sch s (C_Append xs) (fold (\<lambda>x. txn_write (operation_key x) (operation_op x)) xs s)"
| txn_enter: "snd s = None \<Longrightarrow> txn_step lib sch s C_Enter (fst s, Some (fst s))"
| txn_exit: "snd s = Some m \<Longrightarrow> txn_step lib sch s C_Exit (m, None)"
| txn_discard: "snd s = Some m \<Longrightarrow> txn_step lib sch s C_Discard (fst s, None)"

inductive txn_steps :: "scalar_lib \<Rightarrow> schema \<Rightarrow> transaction \<Rightarrow> 'err cache_call list \<Rightarrow> transaction \<Rightarrow> bool"
  for lib sch where
  txn_nil: "txn_steps lib sch s [] s"
| txn_cons: "txn_step lib sch s x s' \<Longrightarrow> txn_steps lib sch s' xs s'' \<Longrightarrow> txn_steps lib sch s (x # xs) s''"

text \<open>The cache, over a store with the entities \<open>S\<close>, represents a state of the specification.\<close>

definition represents ::
    "'q entity_queue_ops \<Rightarrow> 'err read_store \<Rightarrow> entities \<Rightarrow> schema \<Rightarrow> ('q, 'err) entity_cache \<Rightarrow> transaction \<Rightarrow> bool" where
  "represents ops st S sch c s \<longleftrightarrow>
     ec_store c = st \<and> ec_schema c = sch \<and> ec_wf c \<and> current_ok ops S (ec_current c) \<and>
     (\<forall>k. same_view (apply_pending (ec_updates c) k (S k)) (fst s k)) \<and>
     (\<forall>k. same_view (ec_view S c k) (now s k)) \<and>
     (ec_in_handler c \<longleftrightarrow> snd s \<noteq> None) \<and> (\<not> ec_in_handler c \<longrightarrow> ec_handler_updates c = [])"

lemma representsD:
  assumes "represents ops st S sch c s"
  shows "ec_store c = st" "ec_schema c = sch" "ec_wf c" "current_ok ops S (ec_current c)"
    "same_view (apply_pending (ec_updates c) k (S k)) (fst s k)" "same_view (ec_view S c k) (now s k)"
    "ec_in_handler c \<longleftrightarrow> snd s \<noteq> None" "\<not> ec_in_handler c \<Longrightarrow> ec_handler_updates c = []"
  using assms by (auto simp: represents_def)

lemma represents_current:
  "represents ops st S sch c s \<Longrightarrow> current_ok ops S current' \<Longrightarrow> represents ops st S sch (c\<lparr>ec_current := current'\<rparr>) s"
  by (simp add: represents_def ec_wf_def ec_view_def)

lemma update_entry_view:
  assumes wf: "ops_wf ups" "op_wf op" and view: "\<And>k'. same_view (apply_pending ups k' (E k')) (m k')"
  shows "same_view (apply_pending (update_entry k op ups) k' (E k')) ((m(k := apply_to op (m k))) k')"
proof (cases "k' = k")
  case True
  with apply_pending_update_entry [OF wf, of k k' "E k'"]
  have "same_view (apply_pending (update_entry k op ups) k' (E k')) (apply_to op (apply_pending ups k (E k)))" by simp
  also have "same_view \<dots> (apply_to op (m k))" by (rule apply_to_view [OF wf(2) view])
  finally show ?thesis using True by simp
next
  case False
  with apply_pending_update_entry [OF wf, of k k' "E k'"]
  have "same_view (apply_pending (update_entry k op ups) k' (E k')) (apply_pending ups k' (E k'))" by simp
  also note view [of k']
  finally show ?thesis using False by simp
qed

lemma represents_write:
  assumes r: "represents ops st S sch c s" and op: "op_wf op"
  shows "represents ops st S sch (ec_entity_op k op c) (txn_write k op s)"
proof (cases "ec_in_handler c")
  case True
  with representsD(7) [OF r] obtain m where m: "snd s = Some m" by auto
  have wf: "ops_wf (ec_updates c)" "ops_wf (ec_handler_updates c)" using representsD(3) [OF r] by (auto simp: ec_wf_def)
  have view: "same_view (ec_view S c k') (m k')" for k'
    using representsD(6) [OF r, of k'] m by (simp add: now_def)
  have new: "same_view (apply_pending (update_entry k op (ec_handler_updates c)) k' (apply_pending (ec_updates c) k' (S k')))
      ((m(k := apply_to op (m k))) k')" for k'
    by (rule update_entry_view [OF wf(2) op view [unfolded ec_view_def]])
  have "ops_wf (update_entry k op (ec_handler_updates c))" by (rule ops_wf_update_entry [OF wf(2) op])
  with True m new wf representsD [OF r] show ?thesis
    unfolding represents_def by (simp add: ec_entity_op_def txn_write_def ec_wf_def ec_view_def now_def)
next
  case False
  with representsD(7) [OF r] have m: "snd s = None" by auto
  from False representsD(8) [OF r] have h: "ec_handler_updates c = []" by simp
  have wf: "ops_wf (ec_updates c)" using representsD(3) [OF r] by (auto simp: ec_wf_def)
  note view = representsD(5) [OF r]
  have new: "same_view (apply_pending (update_entry k op (ec_updates c)) k' (S k'))
      (((fst s)(k := apply_to op (fst s k))) k')" for k'
    by (rule update_entry_view [OF wf op view])
  have "ops_wf (update_entry k op (ec_updates c))" by (rule ops_wf_update_entry [OF wf op])
  with False m h new wf representsD [OF r] show ?thesis
    unfolding represents_def
    by (simp add: ec_entity_op_def txn_write_def ec_wf_def ec_view_def now_def apply_pending_def [of "[]"])
qed

lemma represents_append:
  assumes "represents ops st S sch c s" "list_all (\<lambda>x. op_wf (operation_op x)) xs"
  shows "represents ops st S sch (fold (\<lambda>x. ec_entity_op (operation_key x) (operation_op x)) xs c)
    (fold (\<lambda>x. txn_write (operation_key x) (operation_op x)) xs s)"
  using assms by (induction xs arbitrary: c s) (simp_all add: represents_write)

lemma represents_enter:
  "represents ops st S sch c s \<Longrightarrow> enter_handler c = Some c' \<Longrightarrow> snd s = None \<and> represents ops st S sch c' (fst s, Some (fst s))"
  by (auto simp: represents_def enter_handler_def ec_wf_def ec_view_def now_def apply_pending_def [of "[]"] split: if_splits)

lemma represents_discard:
  "represents ops st S sch c s \<Longrightarrow> exit_handler_and_discard_changes c = Some c' \<Longrightarrow>
     (\<exists>m. snd s = Some m) \<and> represents ops st S sch c' (fst s, None)"
  by (auto simp: represents_def exit_handler_and_discard_changes_def ec_wf_def ec_view_def now_def
      apply_pending_def [of "[]"] split: if_splits)

lemma represents_exit:
  assumes r: "represents ops st S sch c s" and exit: "exit_handler c = Some c'"
  shows "\<exists>m. snd s = Some m \<and> represents ops st S sch c' (m, None)"
proof -
  from exit have h: "ec_in_handler c"
    and c': "c' = fold (\<lambda>(key, op). ec_entity_op key op) (ec_handler_updates c)
                   (c\<lparr>ec_in_handler := False, ec_handler_updates := []\<rparr>)"
    by (auto simp: exit_handler_def split: if_splits)
  from h representsD(7) [OF r] obtain m where m: "snd s = Some m" by auto
  let ?u = "fold (\<lambda>(key, op). update_entry key op) (ec_handler_updates c) (ec_updates c)"
  have c'': "c' = c\<lparr>ec_in_handler := False, ec_handler_updates := [], ec_updates := ?u\<rparr>"
    unfolding c' fold_entity_op by simp
  have wf: "ops_wf (ec_updates c)" "ops_wf (ec_handler_updates c)" using representsD(3) [OF r] by (auto simp: ec_wf_def)
  have merged: "ops_wf ?u" "same_view (apply_pending ?u k (S k)) (ec_view S c k)" for k
    using merge_pending [of "ec_handler_updates c" "ec_updates c" k "S k"] wf
    unfolding ops_wf_def [of "ec_handler_updates c"] ec_view_def by auto
  have "same_view (apply_pending ?u k (S k)) (m k)" for k
    using same_view_trans [OF merged(2) representsD(6) [OF r, of k]] m by (simp add: now_def)
  with m merged(1) representsD [OF r] show ?thesis
    unfolding c'' represents_def by (auto simp: ec_wf_def ec_view_def now_def apply_pending_def [of "[]"])
qed

inductive_cases cache_step_elims:
  "cache_step lib ops wt c (C_Get k r) c'"
  "cache_step lib ops wt c (C_Set k e) c'"
  "cache_step lib ops wt c (C_Remove k) c'"
  "cache_step lib ops wt c (C_Append xs) c'"
  "cache_step lib ops wt c C_Enter c'"
  "cache_step lib ops wt c C_Exit c'"
  "cache_step lib ops wt c C_Discard c'"

lemma op_wf_insert_id: "hm_wf e \<Longrightarrow> op_wf (EO_Update (entity_insert e k v))"
  by (simp add: entity_insert_def distinct_update)

lemma set_with_id_wf:
  "hm_wf e \<Longrightarrow> set_with_id lib sch k e = Some (Inr e') \<Longrightarrow> op_wf (EO_Update e')"
  by (auto simp: set_with_id_def Let_def check_id_def op_wf_insert_id [simplified]
      split: option.splits store_value.splits if_splits sum.splits id_error.splits)

context cached_store
begin

lemma ec_set_ok:
  assumes r: "represents ops st S sch c s" and wf: "hm_wf e"
    and set: "ec_set lib ops wt k e c = Some (Return (res, c'))"
  shows "(\<exists>err. set_with_id lib sch k e = Some (Inl err :: 'err set_error + entity) \<and> c' = c) \<or>
    (\<exists>e'. set_with_id lib sch k e = Some (Inr e' :: 'err set_error + entity) \<and>
       represents ops st S sch c' (txn_write k (EO_Update e') s))"
proof (cases "set_with_id lib sch k e :: ('err set_error + entity) option")
  case None
  with set representsD(2) [OF r] show ?thesis by (simp add: ec_set_def)
next
  case (Some x)
  show ?thesis
  proof (cases x)
    case (Inl err)
    with set representsD(2) [OF r] Some show ?thesis by (simp add: ec_set_def)
  next
    case (Inr e')
    let ?c = "ec_entity_op k (EO_Update e') c"
    have rep: "represents ops st S sch ?c (txn_write k (EO_Update e') s)"
      by (rule represents_write [OF r set_with_id_wf [OF wf]]) (use Some Inr in simp)
    from ec_get_ok [OF representsD(1,4,3) [OF rep], of wt k] obtain current'
      where get: "snd (ec_get ops wt k ?c) = ?c\<lparr>ec_current := current'\<rparr>" "current_ok ops S current'" by blast
    from set representsD(2) [OF r] Some Inr have "c' = ?c \<or> c' = snd (ec_get ops wt k ?c)"
      by (auto simp: ec_set_def Let_def split: option.splits outcome.splits sum.splits prod.splits)
    with rep represents_current [OF rep get(2)] get(1) have "represents ops st S sch c' (txn_write k (EO_Update e') s)"
      by auto
    with Some Inr show ?thesis by simp
  qed
qed

lemma cache_step_simulated:
  assumes r: "represents ops st S sch c s" and step: "cache_step lib ops wt c x c'"
  shows "\<exists>s'. txn_step lib sch s x s' \<and> represents ops st S sch c' s'"
  using step
proof cases
  case (step_get k res)
  from ec_get_ok [OF representsD(1,4,3) [OF r], of wt k] step_get(2)
  obtain current' where ok: "\<And>e. res = Inr e \<Longrightarrow> same_view e (ec_view S c k)"
      "c' = c\<lparr>ec_current := current'\<rparr>" "current_ok ops S current'" by auto
  have "txn_step lib sch s (C_Get k res) s"
    using ok(1) representsD(6) [OF r, of k] by (auto intro!: txn_get intro: same_view_trans)
  with step_get(1) ok(2) represents_current [OF r ok(3)] show ?thesis by blast
next
  case (step_set e k res)
  from ec_set_ok [OF r step_set(2,3)] show ?thesis
    unfolding step_set(1) using r txn_set txn_set_refused by metis
next
  case (step_remove k)
  have "represents ops st S sch c' (txn_write k EO_Remove s)"
    using represents_write [OF r, of EO_Remove k] step_remove(2) by (simp add: ec_remove_def)
  then show ?thesis unfolding step_remove(1) using txn_remove by blast
next
  case (step_append xs)
  then have "snd s = None" using representsD(7) [OF r] by (auto simp: ec_append_def split: if_splits)
  moreover from step_append(3) have "c' = fold (\<lambda>x. ec_entity_op (operation_key x) (operation_op x)) xs c"
    by (auto simp: ec_append_def split: if_splits)
  ultimately show ?thesis
    unfolding step_append(1) using represents_append [OF r step_append(2)] txn_append by blast
next
  case step_enter
  from represents_enter [OF r step_enter(2)] show ?thesis unfolding step_enter(1) using txn_enter by blast
next
  case step_exit
  from represents_exit [OF r step_exit(2)] show ?thesis unfolding step_exit(1) using txn_exit by blast
next
  case step_discard
  from represents_discard [OF r step_discard(2)] show ?thesis unfolding step_discard(1) using txn_discard by blast
qed

lemma cache_steps_simulated:
  assumes "cache_steps lib ops wt c xs c'" "represents ops st S sch c s"
  shows "\<exists>s'. txn_steps lib sch s xs s' \<and> represents ops st S sch c' s'"
  using assms
proof (induction arbitrary: s rule: cache_steps.induct)
  case (steps_nil c)
  then show ?case using txn_nil by blast
next
  case (steps_cons c x c' xs c'')
  from cache_step_simulated [OF steps_cons.prems steps_cons.hyps(1)] steps_cons.IH
  show ?case using txn_cons by blast
qed

lemma new_represents:
  assumes "current_ok ops S current"
  shows "represents ops st S (rs_input_schema st) (with_current st current) (S, None)"
  using assms by (simp add: represents_def with_current_def ec_wf_def ec_view_def now_def apply_pending_def)

end

text \<open>
  C2. The entity cache behaves as a map with transactions, whatever sequence of calls is made on it:
  what a handler sets, removes and reads goes to a private copy of the entities, every read returns
  what has been written so far on top of what the store holds, leaving the handler makes the
  copy the state of the block and discarding it restores the state from before the handler. Up to
  null attributes and \<open>__typename\<close>, the cached entities never show.
\<close>

theorem entity_cache_is_transactional:
  assumes "priority_queue ops" "read_store_laws st S" "current_ok ops S current"
    and "cache_steps lib ops wt (with_current st current) calls c"
  shows "\<exists>s. txn_steps lib (rs_input_schema st) (S, None) calls s \<and>
    (\<forall>k. same_view (ec_view S c k) (now s k)) \<and> (ec_in_handler c \<longleftrightarrow> snd s \<noteq> None)"
proof -
  from assms(1,2) have "cached_store ops st S" by (rule cached_store.intro)
  from cached_store.cache_steps_simulated [OF this assms(4) cached_store.new_represents [OF this assms(3)]]
  show ?thesis unfolding represents_def by blast
qed

definition example_key :: entity_key where
  "example_key = \<lparr>key_entity_type = ''A'', key_entity_id = ''0x01'', key_causality_region = 0\<rparr>"

definition example_store :: "unit read_store" where
  "example_store = map_store owner_schema [(example_key, [(''id'', V_Bytes [1])])]"

lemma example_store_laws: "read_store_laws example_store (map_of [(example_key, [(''id'', V_Bytes [1])])])"
  unfolding example_store_def by (rule map_store_laws) simp_all

lemma new_current_ok: "priority_queue ops \<Longrightarrow> current_ok ops S (lfu_new ops d)"
  by (simp add: current_ok_def priority_queue.lfu_new_facts)

theorem entity_cache_is_transactional_witness:
  "\<exists>s. txn_steps reference_lib owner_schema (map_of [(example_key, [(''id'', V_Bytes [1])])], None)
     [C_Enter, C_Remove example_key, C_Discard :: unit cache_call] s"
proof -
  let ?c = "with_current example_store (lfu_new list_pq False)"
  let ?c1 = "?c\<lparr>ec_in_handler := True\<rparr>"
  let ?c2 = "ec_remove example_key ?c1"
  have enter: "enter_handler ?c = Some ?c1" by (simp add: enter_handler_def with_current_def)
  have discard: "exit_handler_and_discard_changes ?c2 = Some (?c2\<lparr>ec_in_handler := False, ec_handler_updates := []\<rparr>)"
    by (simp add: exit_handler_and_discard_changes_def ec_remove_def ec_entity_op_def)
  have "cache_steps reference_lib list_pq (\<lambda>_ _. 1) ?c [C_Enter, C_Remove example_key, C_Discard]
      (?c2\<lparr>ec_in_handler := False, ec_handler_updates := []\<rparr>)"
    by (rule steps_cons [OF step_enter [OF enter] steps_cons [OF step_remove steps_cons [OF step_discard [OF discard] steps_nil]]])
  from entity_cache_is_transactional [OF list_pq_queue example_store_laws new_current_ok [OF list_pq_queue] this]
  show ?thesis by (auto simp: example_store_def map_store_def)
qed

section \<open>Modifications bring the store to the state of the cache\<close>

fun apply_modification :: "entity_modification \<Rightarrow> entities \<Rightarrow> entities" where
  "apply_modification (Mod_Insert k data) S = S(k := Some data)"
| "apply_modification (Mod_Overwrite k data) S = S(k := Some data)"
| "apply_modification (Mod_Remove k) S = S(k := None)"

lemma apply_modification_eq: "apply_modification m S = S(mod_entity_ref m := mod_entity m)"
  by (cases m) auto

text \<open>A modification that is called for: the entity is new, or was there and has changed, or is gone.\<close>

fun needed :: "(entity_key \<Rightarrow> entity option option) \<Rightarrow> entities \<Rightarrow> entity_modification \<Rightarrow> bool" where
  "needed cached S (Mod_Insert k data) \<longleftrightarrow> S k = None \<and> hm_wf data"
| "needed cached S (Mod_Overwrite k data) \<longleftrightarrow> (\<exists>e. cached k = Some (Some e) \<and> \<not> hm_eq e data) \<and> hm_wf data"
| "needed cached S (Mod_Remove k) \<longleftrightarrow> S k \<noteq> None"

lemma non_null_merge_empty: "hm_wf u \<Longrightarrow> non_null (merge_remove_null_fields [] u) k = non_null u k"
  by (simp add: non_null_merge) (simp add: non_null_def)

lemma non_null_hm_eq: "hm_wf a \<Longrightarrow> hm_wf b \<Longrightarrow> hm_eq a b \<Longrightarrow> non_null a k = non_null b k"
  by (simp add: hm_eq_iff non_null_def)

text \<open>One update against a stored entity \<open>e\<close> that agrees with the abstract state \<open>x\<close>.\<close>

lemma modification_for_ok:
  assumes "op_wf op" "entity_wf e" "same_view e x" "modification_for key e op = (cached, m)"
  shows "case_option (e = None \<and> op = EO_Remove) (\<lambda>e'. same_view e' (apply_to op x) \<and> entity_wf e') cached \<and>
    same_view (case m of None \<Rightarrow> x | Some m \<Rightarrow> mod_entity m) (apply_to op x) \<and>
    (\<forall>m'. m = Some m' \<longrightarrow> mod_entity_ref m' = key \<and>
       (case m' of Mod_Insert _ d \<Rightarrow> e = None \<and> hm_wf d
        | Mod_Overwrite _ d \<Rightarrow> (\<exists>a. e = Some a \<and> \<not> hm_eq a d) \<and> hm_wf d | Mod_Remove _ \<Rightarrow> e \<noteq> None))"
proof (cases e)
  case None
  with assms(3) have "x = None" by simp
  with None assms(1,4) show ?thesis
    by (cases op) (auto simp: Let_def entity_wf_def non_null_merge_empty)
next
  case (Some a)
  with assms(3) obtain b where x: "x = Some b" "\<And>k. k \<noteq> ''__typename'' \<Longrightarrow> non_null a k = non_null b k"
    by (auto simp: same_view_Some)
  have wf: "hm_wf a" using assms(2) Some by (simp add: entity_wf_def)
  show ?thesis
  proof (cases op)
    case EO_Remove
    with Some assms(4) show ?thesis by (auto simp: entity_wf_def x)
  next
    case (EO_Update u)
    let ?d = "merge_remove_null_fields a u"
    have u: "hm_wf u" using assms(1) EO_Update by simp
    have view: "same_view (Some ?d) (apply_to op x)"
      using apply_to_view [OF assms(1), of "Some a" x] assms(3) Some EO_Update by simp
    have "same_view x (apply_to op x)" if "hm_eq a ?d"
    proof -
      have "same_view (Some a) (Some ?d)" using non_null_hm_eq [OF wf hm_wf_merge_remove_null_fields [OF wf] that] by simp
      from same_view_trans [OF same_view_sym [OF assms(3)] same_view_trans [OF this [folded Some] view]] show ?thesis .
    qed
    with view assms(4) wf show ?thesis
      unfolding Some EO_Update by (auto simp: Let_def entity_wf_def split: if_splits)
  next
    case (EO_Overwrite u)
    have u: "hm_wf u" using assms(1) EO_Overwrite by simp
    have "same_view x (Some u)" if "hm_eq a u"
    proof -
      have "same_view (Some a) (Some u)" using non_null_hm_eq [OF wf u that] by simp
      from same_view_trans [OF same_view_sym [OF assms(3)] this [folded Some]] show ?thesis .
    qed
    with assms(4) u show ?thesis
      unfolding Some EO_Overwrite by (auto simp: Let_def entity_wf_def split: if_splits)
  qed
qed

context priority_queue
begin

lemma lfu_insert_dead_weight: "lfu_dead_weight (lfu_insert ops wt k v c) = lfu_dead_weight c"
  by (simp add: lfu_insert_def Let_def case_prod_beta get_mut_fields split: option.splits)

lemma lfu_evict_map:
  assumes "lfu_weight_ok ops c" "\<not> lfu_dead_weight c"
  shows "\<exists>stats c'. lfu_evict ops entry_size max_weight c = Evict_done (stats, c') \<and> lfu_weight_ok ops c' \<and>
    lfu_total_weight c' \<le> max_weight \<and> (\<forall>k v. lfu_map ops c' k = Some v \<longrightarrow> lfu_map ops c k = Some v)"
proof -
  from evict_done [OF assms(1), of entry_size max_weight STALE_PERIOD] assms(2)
  obtain stats c' where c': "lfu_evict ops entry_size max_weight c = Evict_done (stats, c')" "lfu_weight_ok ops c'"
    "lfu_total_weight c' \<le> max_weight"
    "c' = c \<or> evicted_to (after_stale_update ops STALE_PERIOD c) (pq_map ops (lfu_queue c'))"
    unfolding lfu_evict_def by (auto split: if_splits)
  have "lfu_map ops c k = Some v" if v: "lfu_map ops c' k = Some v" for k v
  proof (cases "c' = c")
    case False
    with c'(4) have sub: "pq_map ops (lfu_queue c') \<subseteq>\<^sub>m after_stale_update ops STALE_PERIOD c"
      by (simp add: evicted_to_def)
    from v obtain x where x: "pq_map ops (lfu_queue c') k = Some x" "v = ce_value (fst x)"
      by (auto simp: lfu_map_def)
    with sub have "after_stale_update ops STALE_PERIOD c k = Some x" unfolding map_le_def by (metis domI)
    with x(2) show ?thesis
      by (cases x) (auto simp: after_stale_update_def lfu_map_def split: if_splits)
  qed (use v in simp)
  with c' show ?thesis by blast
qed

end

lemma fold_modifications_view:
  assumes "\<And>k. same_view (A k) (B k)"
  shows "same_view (fold apply_modification ms A k) (fold apply_modification ms B k)"
  using assms by (induction ms arbitrary: A B) (simp_all add: apply_modification_eq)

text \<open>The invariant of the loop: the state \<open>T\<close> is what the modifications so far have led to.\<close>

definition cache_good :: "'q entity_queue_ops \<Rightarrow> nat \<Rightarrow> entities \<Rightarrow> 'q lfu_cache \<Rightarrow> bool" where
  "cache_good ops n T c \<longleftrightarrow>
     current_ok ops T c \<and> lfu_freq_ok ops n c \<and> lfu_weight_ok ops c \<and> \<not> lfu_dead_weight c \<and> 1 \<le> n"

locale entity_queue = priority_queue ops for ops :: "'q entity_queue_ops"
begin

lemma cache_good_insert:
  assumes "cache_good ops n T c" "lfu_map ops c k = None" "same_view e (T k)" "entity_wf e"
  shows "cache_good ops n T (lfu_insert ops wt k e c)"
  using assms lfu_insert_fresh_freq_ok [of n c k wt e] lfu_insert_weight_ok [of c wt k e]
  by (auto simp: cache_good_def current_ok_def lfu_insert_map lfu_insert_dead_weight)

lemma modification_step_ok:
  assumes good: "cache_good ops n T c" and op: "op_wf op"
    and known: "lfu_map ops c k = None \<Longrightarrow> T k = None"
  shows "\<exists>c' m. modification_step ops wt (k, op) (c, mods) = Some (c', mods @ m) \<and>
    cache_good ops n (T(k := apply_to op (T k))) c' \<and>
    (\<forall>k'. k' \<noteq> k \<longrightarrow> lfu_map ops c' k' = lfu_map ops c k') \<and>
    (\<forall>k'. same_view (fold apply_modification m T k') ((T(k := apply_to op (T k))) k')) \<and>
    (m = [] \<or> (\<exists>m'. m = [m'] \<and> mod_entity_ref m' = k \<and> needed (lfu_map ops c) T m'))"
proof -
  let ?T = "T(k := apply_to op (T k))"
  from good have freq: "lfu_freq_ok ops n c" by (simp add: cache_good_def)
  from lfu_remove_ok [OF freq, of k] obtain c1
    where rem: "lfu_remove ops k c = Inr (lfu_map ops c k, c1)" "lfu_map ops c1 = (lfu_map ops c)(k := None)"
      "lfu_freq_ok ops n c1" "lfu_weight_ok ops c \<Longrightarrow> lfu_weight_ok ops c1" "lfu_dead_weight c1 = lfu_dead_weight c"
    by blast
  define e where "e = (case lfu_map ops c k of None \<Rightarrow> None | Some e \<Rightarrow> e)"
  have e: "same_view e (T k)" "entity_wf e"
    using good known by (auto simp: e_def cache_good_def current_ok_def entity_wf_def split: option.splits)
  obtain cached m where mf: "modification_for k e op = (cached, m)" by (cases "modification_for k e op")
  note ok = modification_for_ok [OF op e(2,1) mf]
  have good1: "cache_good ops n ?T c1"
    using good rem by (auto simp: cache_good_def current_ok_def)
  define c2 where "c2 = (case cached of None \<Rightarrow> c1 | Some e \<Rightarrow> lfu_insert ops wt k e c1)"
  define ms where "ms = (case m of None \<Rightarrow> [] | Some m \<Rightarrow> [m])"
  have "modification_step ops wt (k, op) (c, mods) = Some (c2, mods @ ms)"
    by (simp add: modification_step_def rem(1) e_def [symmetric] mf c2_def ms_def)
  moreover have "cache_good ops n ?T c2"
  proof (cases cached)
    case (Some e')
    with ok have "same_view e' (?T k)" "entity_wf e'" by auto
    moreover have "lfu_map ops c1 k = None" using rem(2) by simp
    ultimately show ?thesis unfolding c2_def Some option.case by (intro cache_good_insert good1)
  qed (simp add: c2_def good1)
  moreover have "lfu_map ops c2 k' = lfu_map ops c k'" if "k' \<noteq> k" for k'
    using that rem(2) lfu_insert_map by (simp add: c2_def split: option.splits)
  moreover have "same_view (fold apply_modification ms T k') (?T k')" for k'
    using ok by (cases m) (auto simp: ms_def apply_modification_eq)
  moreover have "needed (lfu_map ops c) T m'" if "m = Some m'" for m'
    using ok that e(1) by (cases m') (auto simp: e_def same_view_Some split: option.splits)
  then have "ms = [] \<or> (\<exists>m'. ms = [m'] \<and> mod_entity_ref m' = k \<and> needed (lfu_map ops c) T m')"
    using ok by (cases m) (auto simp: ms_def)
  ultimately show ?thesis by blast
qed

end

context entity_queue
begin

lemma modification_loop_ok:
  assumes "cache_good ops n T c" "hm_wf ups" "list_all (\<lambda>u. op_wf (snd u)) ups"
    and "\<And>k. k \<in> fst ` set ups \<Longrightarrow> lfu_map ops c k = None \<Longrightarrow> T k = None"
  shows "\<exists>c' ms. modification_loop ops wt ups (c, mods) = Some (c', mods @ ms) \<and>
    cache_good ops n (\<lambda>k. apply_pending ups k (T k)) c' \<and>
    (\<forall>k. same_view (fold apply_modification ms T k) (apply_pending ups k (T k))) \<and>
    distinct (map mod_entity_ref ms) \<and> mod_entity_ref ` set ms \<subseteq> fst ` set ups \<and>
    list_all (needed (lfu_map ops c) T) ms"
  using assms
proof (induction ups arbitrary: c T mods)
  case Nil
  then show ?case by (simp add: apply_pending_def)
next
  case (Cons u ups)
  obtain k op where u: "u = (k, op)" by (cases u)
  let ?T = "T(k := apply_to op (T k))"
  have op: "op_wf op" and fresh: "k \<notin> fst ` set ups" using Cons.prems(2,3) by (auto simp: u)
  from modification_step_ok [OF Cons.prems(1) op, of k wt mods] Cons.prems(4)
  obtain c1 m where step: "modification_step ops wt (k, op) (c, mods) = Some (c1, mods @ m)"
      "cache_good ops n ?T c1" "\<And>k'. k' \<noteq> k \<Longrightarrow> lfu_map ops c1 k' = lfu_map ops c k'"
      "\<And>k'. same_view (fold apply_modification m T k') (?T k')"
      "m = [] \<or> (\<exists>m'. m = [m'] \<and> mod_entity_ref m' = k \<and> needed (lfu_map ops c) T m')"
    by (auto simp: u)
  have known: "?T k' = None" if "k' \<in> fst ` set ups" "lfu_map ops c1 k' = None" for k'
  proof -
    from that(1) fresh have k': "k' \<noteq> k" by blast
    with that(2) step(3) have none: "lfu_map ops c k' = None" by simp
    from that(1) have "k' \<in> fst ` set (u # ups)" by simp
    from Cons.prems(4) [OF this none] k' show ?thesis by simp
  qed
  have ups: "hm_wf ups" "list_all (\<lambda>u. op_wf (snd u)) ups" using Cons.prems(2,3) by simp_all
  obtain c' ms
    where IH: "modification_loop ops wt ups (c1, mods @ m) = Some (c', mods @ m @ ms)"
      "cache_good ops n (\<lambda>k'. apply_pending ups k' (?T k')) c'"
      "\<And>k'. same_view (fold apply_modification ms ?T k') (apply_pending ups k' (?T k'))"
      "distinct (map mod_entity_ref ms)" "mod_entity_ref ` set ms \<subseteq> fst ` set ups"
      "list_all (needed (lfu_map ops c1) ?T) ms"
    using Cons.IH [OF step(2) ups known, of "mods @ m"] unfolding append_assoc by blast
  have pend: "apply_pending ups k' (?T k') = apply_pending (u # ups) k' (T k')" for k'
    using fresh map_of_eq_None_iff [of ups k] by (auto simp: u apply_pending_def)
  have needed: "needed (lfu_map ops c) T x" if "x \<in> set ms" for x
  proof -
    from that IH(5) fresh have ref: "mod_entity_ref x \<noteq> k" by blast
    from that IH(6) have "needed (lfu_map ops c1) ?T x" by (simp add: list_all_iff)
    then show ?thesis using ref step(3) by (cases x rule: entity_modification.exhaust) auto
  qed
  have "modification_loop ops wt (u # ups) (c, mods) = Some (c', mods @ m @ ms)"
    using step(1) IH(1) by (simp add: u)
  moreover have "same_view (fold apply_modification (m @ ms) T k') (apply_pending (u # ups) k' (T k'))" for k'
    using same_view_trans [OF fold_modifications_view [OF step(4)] IH(3) [unfolded pend]] by simp
  moreover have "distinct (map mod_entity_ref (m @ ms))"
  proof -
    have "k \<notin> mod_entity_ref ` set ms" using IH(5) fresh by blast
    with step(5) IH(4) show ?thesis by (elim disjE exE) simp_all
  qed
  moreover have "mod_entity_ref ` set (m @ ms) \<subseteq> fst ` set (u # ups)"
    using step(5) IH(5) by (auto simp: u)
  moreover have "list_all (needed (lfu_map ops c) T) (m @ ms)"
    using step(5) needed by (auto simp: list_all_iff)
  ultimately show ?case using IH(2) unfolding pend by blast
qed

end

context entity_queue
begin

lemma preload_ok:
  assumes "cache_good ops n S c" "hm_wf m"
    and "\<And>k e. (k, e) \<in> set m \<Longrightarrow> lfu_map ops c k = None \<and> same_view (Some e) (S k) \<and> hm_wf e"
  shows "cache_good ops n S (fold (\<lambda>(key, e). lfu_insert ops wt key (Some e)) m c) \<and>
    (\<forall>k. lfu_map ops (fold (\<lambda>(key, e). lfu_insert ops wt key (Some e)) m c) k =
       (case map_of m k of None \<Rightarrow> lfu_map ops c k | Some e \<Rightarrow> Some (Some e)))"
  using assms
proof (induction m arbitrary: c)
  case (Cons x m)
  obtain k e where x: "x = (k, e)" by (cases x)
  let ?c = "lfu_insert ops wt k (Some e) c"
  have e: "lfu_map ops c k = None" "same_view (Some e) (S k)" "entity_wf (Some e)"
    using Cons.prems(3) [of k e] by (auto simp: x entity_wf_def)
  have fresh: "k \<notin> fst ` set m" "hm_wf m" using Cons.prems(2) by (auto simp: x)
  have map: "lfu_map ops ?c = (lfu_map ops c)(k \<mapsto> Some e)" by (rule lfu_insert_map)
  have rest: "lfu_map ops ?c k' = None \<and> same_view (Some e') (S k') \<and> hm_wf e'" if "(k', e') \<in> set m" for k' e'
  proof -
    from that fresh(1) have "k' \<noteq> k" by force
    with that Cons.prems(3) [of k' e'] map show ?thesis by simp
  qed
  from Cons.IH [OF cache_good_insert [OF Cons.prems(1) e] fresh(2) rest] fresh(1) show ?case
    unfolding x fold_simps(2) o_apply prod.case map
    using map_of_eq_None_iff [of m k] by (auto split: option.splits)
qed simp

end

interpretation eq: entity_queue "list_pq :: (entity_key, entity option, (entity_key, entity option) list_queue) pq_ops"
  by (rule entity_queue.intro) (rule list_pq_queue)

lemma needed_current:
  assumes "current_ok ops S c" "needed (lfu_map ops c) S x"
  shows "case x of
       Mod_Insert k data \<Rightarrow> S k = None
     | Mod_Overwrite k data \<Rightarrow> (\<exists>e. same_view (Some e) (S k) \<and> \<not> hm_eq e data)
     | Mod_Remove k \<Rightarrow> S k \<noteq> None"
  using assms by (cases x) (simp_all add: current_ok_def, metis)

lemma needed_wf: "needed cached S x \<Longrightarrow> entity_wf (mod_entity x)"
  by (cases x) (simp_all add: entity_wf_def)

lemma missing_key_iff:
  assumes "priority_queue ops"
  shows "k \<in> set (missing_keys ops c) \<longleftrightarrow> k \<in> fst ` set (ec_updates c) \<and> lfu_map ops (ec_current c) k = None \<and>
    \<not> is_immutable (ec_schema c) (key_entity_type k)"
proof -
  have "lfu_contains_key ops k (ec_current c) \<longleftrightarrow> lfu_map ops (ec_current c) k \<noteq> None"
    by (simp add: lfu_contains_key_def priority_queue.get_map [OF assms] lfu_map_def del: not_None_eq)
  then show ?thesis unfolding missing_keys_def set_filter set_map mem_Collect_eq by blast
qed

lemma as_modifications_ok:
  assumes pq: "priority_queue ops" and laws: "read_store_laws (ec_store c) S" and wf: "ec_wf c"
    and handler: "\<not> ec_in_handler c" "ec_handler_updates c = []"
    and good: "cache_good ops n S (ec_current c)"
    and immutable: "\<And>k. k \<in> fst ` set (ec_updates c) \<Longrightarrow> is_immutable (ec_schema c) (key_entity_type k) \<Longrightarrow>
      lfu_map ops (ec_current c) k = None \<Longrightarrow> S k = None"
    and many: "rs_get_many (ec_store c) (set (missing_keys ops c)) = Inr m"
  shows "\<exists>mods current' pre. as_modifications ops wt entry_size max_weight c = Return (Inr (mods, current')) \<and>
    (\<forall>k. same_view (fold apply_modification mods S k) (ec_view S c k)) \<and>
    distinct (map mod_entity_ref mods) \<and> current_ok ops S pre \<and> list_all (needed (lfu_map ops pre) S) mods \<and>
    current_ok ops (ec_view S c) current' \<and> lfu_total_weight current' \<le> max_weight"
proof -
  let ?pre = "fold (\<lambda>(key, e). lfu_insert ops wt key (Some e)) m (ec_current c)"
  note eqs = entity_queue.intro [OF pq]
  from read_store_laws.get_many_law [OF laws many] have m: "hm_wf m" "fst ` set m \<subseteq> set (missing_keys ops c)"
      "\<And>k. k \<in> set (missing_keys ops c) \<Longrightarrow> same_view (map_of m k) (S k) \<and> entity_wf (map_of m k)" by auto
  have elem: "lfu_map ops (ec_current c) k = None \<and> same_view (Some e) (S k) \<and> hm_wf e" if "(k, e) \<in> set m" for k e
  proof -
    from that m(2) have k: "k \<in> set (missing_keys ops c)" by force
    from that m(1) have "map_of m k = Some e" by simp
    with m(3) [OF k] k missing_key_iff [OF pq, of k c] show ?thesis by (simp add: entity_wf_def)
  qed
  from entity_queue.preload_ok [OF eqs good m(1) elem, of wt]
  have pre: "cache_good ops n S ?pre"
    "\<And>k. lfu_map ops ?pre k = (case map_of m k of None \<Rightarrow> lfu_map ops (ec_current c) k | Some e \<Rightarrow> Some (Some e))"
    by auto
  have known: "S k = None" if "k \<in> fst ` set (ec_updates c)" "lfu_map ops ?pre k = None" for k
  proof -
    from that(2) pre(2) [of k] have none: "map_of m k = None" "lfu_map ops (ec_current c) k = None"
      by (auto split: option.splits)
    show ?thesis
    proof (cases "is_immutable (ec_schema c) (key_entity_type k)")
      case False
      with that(1) none(2) have "k \<in> set (missing_keys ops c)" by (simp add: missing_key_iff [OF pq])
      with m(3) [of k] none(1) show ?thesis by simp
    next
      case True
      from immutable [OF that(1) True none(2)] show ?thesis .
    qed
  qed
  have ups: "hm_wf (ec_updates c)" "list_all (\<lambda>u. op_wf (snd u)) (ec_updates c)"
    using wf by (auto simp: ec_wf_def ops_wf_def)
  have view: "ec_view S c = (\<lambda>k. apply_pending (ec_updates c) k (S k))"
    by (simp add: fun_eq_iff ec_view_def handler(2) apply_pending_def [of "[]"])
  from entity_queue.modification_loop_ok [OF eqs pre(1) ups known, of wt "[]"] obtain c1 ms
    where loop: "modification_loop ops wt (ec_updates c) (?pre, []) = Some (c1, ms)"
      "cache_good ops n (ec_view S c) c1" "\<forall>k. same_view (fold apply_modification ms S k) (ec_view S c k)"
      "distinct (map mod_entity_ref ms)" "list_all (needed (lfu_map ops ?pre) S) ms"
    unfolding view by auto
  from loop(2) have c1: "lfu_weight_ok ops c1" "\<not> lfu_dead_weight c1" "current_ok ops (ec_view S c) c1"
    by (auto simp: cache_good_def)
  from priority_queue.lfu_evict_map [OF pq c1(1,2), of entry_size max_weight] obtain stats c2
    where c2: "lfu_evict ops entry_size max_weight c1 = Evict_done (stats, c2)" "lfu_total_weight c2 \<le> max_weight"
      "\<forall>k v. lfu_map ops c2 k = Some v \<longrightarrow> lfu_map ops c1 k = Some v" by blast
  have "as_modifications ops wt entry_size max_weight c = Return (Inr (ms, c2))"
    using handler(1) by (simp add: as_modifications_def many loop(1) c2(1))
  moreover have "current_ok ops (ec_view S c) c2" using c1(3) c2(3) by (auto simp: current_ok_def)
  moreover have "current_ok ops S ?pre" using pre(1) by (simp add: cache_good_def)
  ultimately show ?thesis using loop(3,4,5) c2(2) by blast
qed


definition example_cache :: "((entity_key, entity option) list_queue, unit) entity_cache" where
  "example_cache = ec_remove example_key (with_current example_store (lfu_new list_pq False))"


end
