(* ===== verification/Bounded_Queue.thy ===== *)
theory Bounded_Queue
  imports Prelude
begin

text \<open>
  The bounded queue of \<open>graph/src/util/bounded_queue.rs\<close> and the exponential backoff of
  \<open>graph/src/util/backoff.rs\<close>.

  The two semaphores are their numbers of free permits. Every operation is one step: an operation
  that would wait for a permit is \<open>Blocked\<close> in the state where it is called, and can be tried again in
  a later one. \<open>Queue_panic\<close> is a failing \<open>expect\<close>. The closures that \<open>find_map\<close> and \<open>fold\<close> take may keep
  state of their own; they get and return it.
\<close>

section \<open>The queue\<close>

record 'a bounded_queue =
  bq_capacity :: nat
  bq_items :: "'a list"
  bq_push_permits :: nat
  bq_pop_permits :: nat

datatype 'r queue_result = Queue_done 'r | Blocked | Queue_panic

definition bq_with_capacity :: "nat \<Rightarrow> 'a bounded_queue" where
  "bq_with_capacity capacity =
     \<lparr> bq_capacity = capacity, bq_items = [], bq_push_permits = capacity, bq_pop_permits = 0 \<rparr>"

text \<open>Taking the front item once a permit is there.\<close>

definition pop_front :: "'a bounded_queue \<Rightarrow> ('a \<times> 'a bounded_queue) queue_result" where
  "pop_front q =
     (case bq_items q of
        [] \<Rightarrow> Queue_panic
      | item # items \<Rightarrow>
          Queue_done (item, q\<lparr>bq_items := items, bq_pop_permits := bq_pop_permits q - 1,
                              bq_push_permits := bq_push_permits q + 1\<rparr>))"

definition bq_pop :: "'a bounded_queue \<Rightarrow> ('a \<times> 'a bounded_queue) queue_result" where
  "bq_pop q = (if bq_pop_permits q = 0 then Blocked else pop_front q)"

definition bq_try_pop :: "'a bounded_queue \<Rightarrow> ('a option \<times> 'a bounded_queue) queue_result" where
  "bq_try_pop q =
     (if bq_pop_permits q = 0 then Queue_done (None, q)
      else case pop_front q of
             Queue_done (item, q') \<Rightarrow> Queue_done (Some item, q')
           | Blocked \<Rightarrow> Blocked
           | Queue_panic \<Rightarrow> Queue_panic)"

definition bq_peek :: "'a bounded_queue \<Rightarrow> 'a queue_result" where
  "bq_peek q =
     (if bq_pop_permits q = 0 then Blocked
      else case bq_items q of [] \<Rightarrow> Queue_panic | item # _ \<Rightarrow> Queue_done item)"

definition bq_push :: "'a \<Rightarrow> 'a bounded_queue \<Rightarrow> 'a bounded_queue queue_result" where
  "bq_push item q =
     (if bq_push_permits q = 0 then Blocked
      else Queue_done (q\<lparr>bq_items := bq_items q @ [item], bq_push_permits := bq_push_permits q - 1,
                         bq_pop_permits := bq_pop_permits q + 1\<rparr>))"

text \<open>The acquired permits are given back at once.\<close>

definition bq_wait_empty :: "'a bounded_queue \<Rightarrow> unit queue_result" where
  "bq_wait_empty q = (if bq_push_permits q < bq_capacity q then Blocked else Queue_done ())"

definition bq_len :: "'a bounded_queue \<Rightarrow> nat" where
  "bq_len q = length (bq_items q)"

definition bq_is_empty :: "'a bounded_queue \<Rightarrow> bool" where
  "bq_is_empty q \<longleftrightarrow> bq_items q = []"

fun find_map_loop :: "('s \<Rightarrow> 'a \<Rightarrow> 's \<times> 'b option) \<Rightarrow> 's \<Rightarrow> 'a list \<Rightarrow> 's \<times> 'b option" where
  "find_map_loop f s [] = (s, None)"
| "find_map_loop f s (x # xs) =
     (case f s x of (s', Some y) \<Rightarrow> (s', Some y) | (s', None) \<Rightarrow> find_map_loop f s' xs)"

definition bq_find_map :: "('s \<Rightarrow> 'a \<Rightarrow> 's \<times> 'b option) \<Rightarrow> 's \<Rightarrow> 'a bounded_queue \<Rightarrow> 's \<times> 'b option" where
  "bq_find_map f s q = find_map_loop f s (rev (bq_items q))"

definition bq_fold :: "'b \<Rightarrow> ('b \<Rightarrow> 'a \<Rightarrow> 'b) \<Rightarrow> 'a bounded_queue \<Rightarrow> 'b" where
  "bq_fold init f q = foldl f init (rev (bq_items q))"

lemma try_pop_shorter:
  "bq_try_pop q = Queue_done (Some x, q') \<Longrightarrow> length (bq_items q') < length (bq_items q)"
  by (auto simp: bq_try_pop_def pop_front_def split: if_splits list.splits)

function bq_clear :: "'a bounded_queue \<Rightarrow> 'a bounded_queue queue_result" where
  "bq_clear q =
     (case bq_try_pop q of
        Queue_done (Some _, q') \<Rightarrow> bq_clear q'
      | Queue_done (None, q') \<Rightarrow> Queue_done q'
      | Blocked \<Rightarrow> Blocked
      | Queue_panic \<Rightarrow> Queue_panic)"
  by pat_completeness auto
termination
  by (relation "measure (\<lambda>q. length (bq_items q))") (auto dest: try_pop_shorter)

declare bq_clear.simps [simp del]

section \<open>The permits count the items and the free places\<close>

definition bq_inv :: "'a bounded_queue \<Rightarrow> bool" where
  "bq_inv q \<longleftrightarrow> bq_push_permits q + length (bq_items q) = bq_capacity q \<and> bq_pop_permits q = length (bq_items q)"

lemma bq_inv_new [simp]: "bq_inv (bq_with_capacity n)"
  by (simp add: bq_inv_def bq_with_capacity_def)

lemma bq_inv_push: "bq_inv q \<Longrightarrow> bq_push x q = Queue_done q' \<Longrightarrow> bq_inv q' \<and> bq_items q' = bq_items q @ [x] \<and> bq_capacity q' = bq_capacity q"
  by (auto simp: bq_inv_def bq_push_def split: if_splits)

lemma bq_pop_inv:
  "bq_inv q \<Longrightarrow> bq_pop q = (case bq_items q of
     [] \<Rightarrow> Blocked
   | x # xs \<Rightarrow> Queue_done (x, q\<lparr>bq_items := xs, bq_pop_permits := length xs, bq_push_permits := bq_push_permits q + 1\<rparr>))"
  by (auto simp: bq_inv_def bq_pop_def pop_front_def split: list.splits)

lemma bq_inv_pop: "bq_inv q \<Longrightarrow> bq_pop q = Queue_done (x, q') \<Longrightarrow> bq_inv q' \<and> bq_items q = x # bq_items q' \<and> bq_capacity q' = bq_capacity q"
  by (auto simp: bq_pop_inv split: list.splits) (auto simp: bq_inv_def)

lemma bq_try_pop_inv:
  "bq_inv q \<Longrightarrow> bq_try_pop q = (case bq_items q of
     [] \<Rightarrow> Queue_done (None, q)
   | x # xs \<Rightarrow> Queue_done (Some x, q\<lparr>bq_items := xs, bq_pop_permits := length xs, bq_push_permits := bq_push_permits q + 1\<rparr>))"
  by (auto simp: bq_inv_def bq_try_pop_def pop_front_def split: list.splits)

lemma bq_clear_inv: "bq_inv q \<Longrightarrow> bq_clear q = Queue_done (bq_with_capacity (bq_capacity q))"
proof (induction "length (bq_items q)" arbitrary: q)
  case 0
  then show ?case
    by (subst bq_clear.simps) (simp add: bq_try_pop_inv, simp add: bq_inv_def bq_with_capacity_def)
next
  case (Suc n)
  then obtain x xs where q: "bq_items q = x # xs" by (cases "bq_items q") auto
  let ?q = "q\<lparr>bq_items := xs, bq_pop_permits := length xs, bq_push_permits := bq_push_permits q + 1\<rparr>"
  have "bq_inv ?q" using Suc.prems q by (simp add: bq_inv_def)
  with Suc.hyps(1) [of ?q] Suc.hyps(2) q have "bq_clear ?q = Queue_done (bq_with_capacity (bq_capacity q))" by simp
  then show ?case by (subst bq_clear.simps) (simp add: bq_try_pop_inv Suc.prems q)
qed

text \<open>One step of the queue: a push, a pop, a look at the front or a clear that goes through.\<close>

inductive queue_step :: "'a bounded_queue \<Rightarrow> 'a bounded_queue \<Rightarrow> bool" where
  q_push: "bq_push x q = Queue_done q' \<Longrightarrow> queue_step q q'"
| q_pop: "bq_pop q = Queue_done (x, q') \<Longrightarrow> queue_step q q'"
| q_try_pop: "bq_try_pop q = Queue_done (r, q') \<Longrightarrow> queue_step q q'"
| q_clear: "bq_clear q = Queue_done q' \<Longrightarrow> queue_step q q'"

lemma queue_step_inv: "queue_step q q' \<Longrightarrow> bq_inv q \<Longrightarrow> bq_inv q' \<and> bq_capacity q' = bq_capacity q"
proof (induction rule: queue_step.induct)
  case (q_try_pop q r q')
  then show ?case by (auto simp: bq_try_pop_inv split: list.splits) (auto simp: bq_inv_def)
next
  case (q_clear q q')
  then have "q' = bq_with_capacity (bq_capacity q)" by (simp add: bq_clear_inv)
  then show ?case by (simp add: bq_with_capacity_def bq_inv_def)
qed (auto dest: bq_inv_push bq_inv_pop)



section \<open>Exponential backoff\<close>

text \<open>
  Durations are numbers of nanoseconds, which saturate at the largest \<open>Duration\<close>. The factor \<open>1 << attempt\<close>
  is a \<open>u32\<close>, the type that \<open>saturating_mul\<close> takes, and a release build masks the shift amount to its five
  low bits.
\<close>

record exponential_backoff =
  bo_attempt :: u64
  bo_base :: nat
  bo_ceiling :: nat

definition DURATION_MAX :: nat where
  "DURATION_MAX = (2 ^ 64 - 1) * 1000000000 + 999999999"

definition backoff_new :: "nat \<Rightarrow> nat \<Rightarrow> exponential_backoff" where
  "backoff_new base ceiling = \<lparr> bo_attempt = 0, bo_base = base, bo_ceiling = ceiling \<rparr>"

definition shl_u32 :: "u64 \<Rightarrow> u32" where
  "shl_u32 n = push_bit (unat n mod 32) 1"

definition backoff_delay :: "exponential_backoff \<Rightarrow> nat" where
  "backoff_delay b =
     (let delay = min DURATION_MAX (bo_base b * unat (shl_u32 (bo_attempt b)))
      in if delay > bo_ceiling b then bo_ceiling b else delay)"

definition next_attempt :: "exponential_backoff \<Rightarrow> nat \<times> exponential_backoff" where
  "next_attempt b = (backoff_delay b, b\<lparr>bo_attempt := bo_attempt b + 1\<rparr>)"

definition backoff_reset :: "exponential_backoff \<Rightarrow> exponential_backoff" where
  "backoff_reset b = b\<lparr>bo_attempt := 0\<rparr>"

fun delays :: "nat \<Rightarrow> exponential_backoff \<Rightarrow> nat list" where
  "delays 0 b = []"
| "delays (Suc n) b = (let (d, b') = next_attempt b in d # delays n b')"

lemma unat_shl_u32: "unat (shl_u32 n) = 2 ^ (unat n mod 32)"
proof -
  have "(2 :: nat) ^ (unat n mod 32) < 2 ^ 32" by (rule power_strict_increasing) simp_all
  moreover have "shl_u32 n = of_nat (2 ^ (unat n mod 32))" by (simp add: shl_u32_def push_bit_eq_mult)
  ultimately show ?thesis by (simp only: unat_of_nat take_bit_eq_mod) simp
qed

lemma delays_nth:
  assumes "i < n" "unat (bo_attempt b) + n \<le> 2 ^ 64"
  shows "delays n b ! i =
    min (bo_ceiling b) (min DURATION_MAX (bo_base b * 2 ^ ((unat (bo_attempt b) + i) mod 32)))"
  using assms
proof (induction n arbitrary: i b)
  case (Suc n)
  show ?case
  proof (cases i)
    case 0
    then show ?thesis by (simp add: next_attempt_def backoff_delay_def unat_shl_u32 Let_def min_def)
  next
    case (Suc j)
    with Suc.prems have "unat (bo_attempt b + 1) = unat (bo_attempt b) + 1"
      by (subst unat_plus_simple [THEN iffD1]) (auto simp: no_olen_add_nat)
    with Suc.IH [of j "b\<lparr>bo_attempt := bo_attempt b + 1\<rparr>"] Suc.prems Suc show ?thesis
      by (simp add: next_attempt_def)
  qed
qed simp

text \<open>
  C36. The delays double from the base up to the ceiling for the first 32 attempts only: the shift
  amount wraps, so that every 32 attempts the delays start over from the base, where the ceiling
  was to be kept once reached.
\<close>

theorem backoff_restarts:
  assumes "n \<le> 2 ^ 64"
  shows "(\<forall>i. i < n \<and> i < 32 \<longrightarrow>
      delays n (backoff_new base ceiling) ! i = min ceiling (min DURATION_MAX (base * 2 ^ i))) \<and>
    (\<forall>i. i + 32 < n \<longrightarrow>
      delays n (backoff_new base ceiling) ! (i + 32) = delays n (backoff_new base ceiling) ! i)"
  using assms delays_nth [of _ n "backoff_new base ceiling"] by (simp add: backoff_new_def)

theorem backoff_restarts_witness:
  "delays 40 (backoff_new 100000000 10000000000) ! 8 = 10000000000 \<and>
   delays 40 (backoff_new 100000000 10000000000) ! (0 + 32) = 100000000"
proof -
  let ?d = "delays 40 (backoff_new 100000000 10000000000)"
  have "(40 :: nat) \<le> 2 ^ 64" by simp
  note d = backoff_restarts [OF this, of 100000000 10000000000]
  from d [THEN conjunct1] have "?d ! 8 = 10000000000" "?d ! 0 = 100000000" by (simp_all add: DURATION_MAX_def)
  moreover have "(0 :: nat) + 32 < 40" by simp
  from d [THEN conjunct2, rule_format, OF this] have "?d ! (0 + 32) = ?d ! 0" .
  ultimately show ?thesis by (simp only: refl)
qed

end
