(* ===== verification/Writable_Queue.thy ===== *)
theory Writable_Queue
  imports Entity_Cache Bounded_Queue
begin

text \<open>
  The pipelined writer of \<open>store/postgres/src/writable.rs\<close>: writes and reverts go into a bounded queue
  that a background task executes, and reads combine what is queued with what the database holds.

  The database is behind \<open>SyncStore\<close>, here the record \<open>block_store\<close>. It keeps versions of the entities
  by block; the locale \<open>block_store_laws\<close> states what its operations do to them, and \<open>history_store\<close>
  provides it. Handles that a request carries along (the store, the stopwatch, deterministic errors
  and manifest names), logging and metrics are left out.
\<close>

section \<open>Requests and the block tracker\<close>

record block_ptr =
  ptr_hash :: bytes
  ptr_number :: block_number

datatype 'ds request =
    Req_Write block_ptr string "entity_modification list" "'ds list" "'ds list"
  | Req_RevertTo block_ptr string
  | Req_Stop

record block_tracker =
  trk_revert :: block_number
  trk_block :: block_number

definition tracker_new :: block_tracker where
  "tracker_new = \<lparr> trk_revert = BLOCK_NUMBER_MAX, trk_block = BLOCK_NUMBER_MAX \<rparr>"

fun tracker_update :: "'ds request \<Rightarrow> block_tracker \<Rightarrow> block_tracker" where
  "tracker_update (Req_Write p _ _ _ _) t = t\<lparr>trk_block := min (trk_block t) (ptr_number p - 1)\<rparr>"
| "tracker_update (Req_RevertTo p _) t =
     t\<lparr>trk_revert := min (trk_revert t) (ptr_number p), trk_block := min (trk_block t) (ptr_number p)\<rparr>"
| "tracker_update Req_Stop t = t"

definition query_block :: "block_tracker \<Rightarrow> block_number" where
  "query_block t = trk_block t"

definition tracker_visible :: "block_tracker \<Rightarrow> block_ptr \<Rightarrow> bool" where
  "tracker_visible t p \<longleftrightarrow> ptr_number p \<le> trk_revert t"

section \<open>The database behind the queue\<close>

record ('db, 'err, 'ds) block_store =
  bst_transact :: "block_ptr \<Rightarrow> string \<Rightarrow> entity_modification list \<Rightarrow> 'ds list \<Rightarrow> 'ds list \<Rightarrow> 'db \<Rightarrow> 'err + 'db"
  bst_revert :: "block_ptr \<Rightarrow> string \<Rightarrow> 'db \<Rightarrow> 'err + 'db"
  bst_get :: "'db \<Rightarrow> entity_key \<Rightarrow> block_number \<Rightarrow> 'err + entity option"
  bst_get_many :: "'db \<Rightarrow> entity_key set \<Rightarrow> block_number \<Rightarrow> 'err + (entity_key, entity) btree_map"
  bst_load_dds :: "'db \<Rightarrow> block_number \<Rightarrow> 'err + 'ds list"
  bst_input_schema :: schema

datatype exec_result = Exec_continue | Exec_stop

definition request_execute ::
    "('db, 'err, 'ds) block_store \<Rightarrow> 'ds request \<Rightarrow> 'db \<Rightarrow> 'err + exec_result \<times> 'db" where
  "request_execute st req db =
     (case req of
        Req_Write p cursor mods data_sources processed \<Rightarrow>
          (case bst_transact st p cursor mods data_sources processed db of
             Inl e \<Rightarrow> Inl e | Inr db' \<Rightarrow> Inr (Exec_continue, db'))
      | Req_RevertTo p cursor \<Rightarrow>
          (case bst_revert st p cursor db of Inl e \<Rightarrow> Inl e | Inr db' \<Rightarrow> Inr (Exec_continue, db'))
      | Req_Stop \<Rightarrow> Inr (Exec_stop, db))"

section \<open>Reading through the queue\<close>

datatype queued_op = QO_Write entity | QO_Remove

fun queued_op_of :: "entity_modification \<Rightarrow> queued_op" where
  "queued_op_of (Mod_Insert _ data) = QO_Write data"
| "queued_op_of (Mod_Overwrite _ data) = QO_Write data"
| "queued_op_of (Mod_Remove _) = QO_Remove"

text \<open>The closure that \<open>get\<close> gives to \<open>find_map\<close>; the tracker is its state.\<close>

definition get_step :: "entity_key \<Rightarrow> block_tracker \<Rightarrow> 'ds request \<Rightarrow> block_tracker \<times> queued_op option" where
  "get_step key t req =
     (let t' = tracker_update req t in
      case req of
        Req_Write p _ mods _ _ \<Rightarrow>
          (t', if tracker_visible t' p
               then map_option queued_op_of (find (\<lambda>emod. mod_entity_ref emod = key) mods) else None)
      | _ \<Rightarrow> (t', None))"

definition queue_get ::
    "('db, 'err, 'ds) block_store \<Rightarrow> 'ds request bounded_queue \<Rightarrow> 'db \<Rightarrow> entity_key \<Rightarrow> 'err + entity option" where
  "queue_get st q db key =
     (case bq_find_map (get_step key) tracker_new q of
        (_, Some (QO_Write entity)) \<Rightarrow> Inr (Some entity)
      | (_, Some QO_Remove) \<Rightarrow> Inr None
      | (t, None) \<Rightarrow> bst_get st db key (query_block t))"

text \<open>The closure of \<open>get_many\<close>: the tracker, the keys still to be found and the entities found.\<close>

type_synonym many_state = "block_tracker \<times> entity_key set \<times> (entity_key, entity option) btree_map"

definition take_mod ::
    "entity_modification \<Rightarrow> entity_key set \<times> (entity_key, entity option) btree_map \<Rightarrow>
     entity_key set \<times> (entity_key, entity option) btree_map" where
  "take_mod emod km =
     (if mod_entity_ref emod \<in> fst km
      then (fst km - {mod_entity_ref emod}, hm_insert (mod_entity_ref emod) (mod_entity emod) (snd km)) else km)"

definition get_many_step :: "many_state \<Rightarrow> 'ds request \<Rightarrow> many_state" where
  "get_many_step s req =
     (let t' = tracker_update req (fst s) in
      case req of
        Req_Write p _ mods _ _ \<Rightarrow> (t', if tracker_visible t' p then fold take_mod mods (snd s) else snd s)
      | _ \<Rightarrow> (t', snd s))"

text \<open>\<open>Panic\<close> is the assertion that nothing from the queue was found in the store as well.\<close>

fun add_queued ::
    "(entity_key \<times> entity option) list \<Rightarrow> (entity_key, entity) btree_map \<Rightarrow> (entity_key, entity) btree_map option" where
  "add_queued [] m = Some m"
| "add_queued ((k, None) # xs) m = add_queued xs m"
| "add_queued ((k, Some e) # xs) m = (if map_of m k \<noteq> None then None else add_queued xs (hm_insert k e m))"

definition queue_get_many ::
    "('db, 'err, 'ds) block_store \<Rightarrow> 'ds request bounded_queue \<Rightarrow> 'db \<Rightarrow> entity_key set \<Rightarrow>
     ('err + (entity_key, entity) btree_map) outcome" where
  "queue_get_many st q db keys =
     (let (t, keys', queued) = bq_fold (tracker_new, keys, []) get_many_step q in
      case bst_get_many st db keys' (query_block t) of
        Inl e \<Rightarrow> Return (Inl e)
      | Inr m \<Rightarrow>
          (case add_queued queued m of
             None \<Rightarrow> Panic ''assertion failed: !overwrite''
           | Some m' \<Rightarrow> Return (Inr m')))"

text \<open>
  Data sources that the queued writes create, the newest request first; \<open>creation_block\<close> reads the block
  of a data source. The result is sorted by it, keeping the order of equal ones.
\<close>

definition dds_step :: "block_tracker \<times> 'ds list \<Rightarrow> 'ds request \<Rightarrow> block_tracker \<times> 'ds list" where
  "dds_step s req =
     (let t' = tracker_update req (fst s) in
      case req of
        Req_Write p _ _ data_sources processed \<Rightarrow>
          (t', if tracker_visible t' p
               then filter (\<lambda>d. d \<notin> set processed) (snd s @ data_sources) else snd s)
      | _ \<Rightarrow> (t', snd s))"

definition queue_load_dds ::
    "('ds \<Rightarrow> 'b :: linorder) \<Rightarrow> ('db, 'err, 'ds) block_store \<Rightarrow> 'ds request bounded_queue \<Rightarrow> 'db \<Rightarrow> 'err + 'ds list" where
  "queue_load_dds creation_block st q db =
     (let (t, queue_dds) = bq_fold (tracker_new, []) dds_step q in
      case bst_load_dds st db (query_block t) of
        Inl e \<Rightarrow> Inl e
      | Inr dds \<Rightarrow> Inr (dds @ sort_key creation_block queue_dds))"

section \<open>The queue and its background writer\<close>

datatype 'err store_error = SE_Store 'err | SE_WriterPanic | SE_Poisoned

datatype writer_stage = Writer_idle | Writer_executed exec_result | Writer_stopped

record ('db, 'err, 'ds) write_queue =
  wq_queue :: "'ds request bounded_queue"
  wq_db :: 'db
  wq_write_err :: "'err store_error option"
  wq_poisoned :: bool
  wq_stage :: writer_stage

definition queue_start :: "nat \<Rightarrow> 'db \<Rightarrow> ('db, 'err, 'ds) write_queue" where
  "queue_start capacity db =
     \<lparr> wq_queue = bq_with_capacity capacity, wq_db = db, wq_write_err = None, wq_poisoned = False,
       wq_stage = Writer_idle \<rparr>"

definition check_err :: "('db, 'err, 'ds) write_queue \<Rightarrow> ('err store_error + unit) \<times> ('db, 'err, 'ds) write_queue" where
  "check_err w =
     (case wq_write_err w of
        Some err \<Rightarrow> (Inl err, w\<lparr>wq_write_err := None\<rparr>)
      | None \<Rightarrow> (if wq_poisoned w then Inl SE_Poisoned else Inr (), w))"

text \<open>
  An error is returned at once; otherwise \<open>push\<close> waits for a free place. \<open>push_wait\<close> is what follows the
  check, which other tasks may run before.
\<close>

definition push_wait ::
    "'ds request \<Rightarrow> ('db, 'err, 'ds) write_queue \<Rightarrow> ('db, 'err, 'ds) write_queue queue_result" where
  "push_wait req w =
     (case bq_push req (wq_queue w) of
        Queue_done q \<Rightarrow> Queue_done (w\<lparr>wq_queue := q\<rparr>)
      | Blocked \<Rightarrow> Blocked
      | Queue_panic \<Rightarrow> Queue_panic)"

definition queue_push ::
    "'ds request \<Rightarrow> ('db, 'err, 'ds) write_queue \<Rightarrow>
     (('err store_error + unit) \<times> ('db, 'err, 'ds) write_queue) queue_result" where
  "queue_push req w =
     (case check_err w of
        (Inl e, w') \<Rightarrow> Queue_done (Inl e, w')
      | (Inr _, w') \<Rightarrow>
          (case push_wait req w' of
             Queue_done w'' \<Rightarrow> Queue_done (Inr (), w'')
           | Blocked \<Rightarrow> Blocked
           | Queue_panic \<Rightarrow> Queue_panic))"

definition queue_stop ::
    "('db, 'err, 'ds) write_queue \<Rightarrow> (('err store_error + unit) \<times> ('db, 'err, 'ds) write_queue) queue_result" where
  "queue_stop w = queue_push Req_Stop w"

definition queue_flush ::
    "('db, 'err, 'ds) write_queue \<Rightarrow> (('err store_error + unit) \<times> ('db, 'err, 'ds) write_queue) queue_result" where
  "queue_flush w =
     (case bq_wait_empty (wq_queue w) of
        Queue_done _ \<Rightarrow> Queue_done (check_err w)
      | Blocked \<Rightarrow> Blocked
      | Queue_panic \<Rightarrow> Queue_panic)"

definition record_err ::
    "'err store_error \<Rightarrow> ('db, 'err, 'ds) write_queue \<Rightarrow> ('db, 'err, 'ds) write_queue queue_result" where
  "record_err e w =
     (case bq_clear (wq_queue w) of
        Queue_done q \<Rightarrow> Queue_done (w\<lparr>wq_write_err := Some e, wq_poisoned := True, wq_queue := q\<rparr>)
      | Blocked \<Rightarrow> Blocked
      | Queue_panic \<Rightarrow> Queue_panic)"

text \<open>
  One turn of the loop in \<open>start_writer\<close>, in two steps, since other tasks run between them: the request at
  the front is executed, and only then taken off the queue. The flag says that the execution panics.
\<close>

definition writer_execute ::
    "('db, 'err, 'ds) block_store \<Rightarrow> bool \<Rightarrow> ('db, 'err, 'ds) write_queue \<Rightarrow> ('db, 'err, 'ds) write_queue queue_result" where
  "writer_execute st panics w =
     (case bq_peek (wq_queue w) of
        Queue_done req \<Rightarrow>
          (if panics then
             (case record_err SE_WriterPanic w of
                Queue_done w' \<Rightarrow> Queue_done (w'\<lparr>wq_stage := Writer_stopped\<rparr>) | r \<Rightarrow> r)
           else
             (case request_execute st req (wq_db w) of
                Inr (r, db') \<Rightarrow> Queue_done (w\<lparr>wq_db := db', wq_stage := Writer_executed r\<rparr>)
              | Inl e \<Rightarrow>
                  (case record_err (SE_Store e) w of
                     Queue_done w' \<Rightarrow> Queue_done (w'\<lparr>wq_stage := Writer_stopped\<rparr>) | r \<Rightarrow> r)))
      | Blocked \<Rightarrow> Blocked
      | Queue_panic \<Rightarrow> Queue_panic)"

definition writer_pop :: "exec_result \<Rightarrow> ('db, 'err, 'ds) write_queue \<Rightarrow> ('db, 'err, 'ds) write_queue queue_result" where
  "writer_pop r w =
     (case bq_pop (wq_queue w) of
        Queue_done (_, q) \<Rightarrow>
          Queue_done (w\<lparr>wq_queue := q,
                        wq_stage := (case r of Exec_continue \<Rightarrow> Writer_idle | Exec_stop \<Rightarrow> Writer_stopped)\<rparr>)
      | Blocked \<Rightarrow> Blocked
      | Queue_panic \<Rightarrow> Queue_panic)"

section \<open>What requests do to the versions of the entities\<close>

text \<open>The entities as of each block.\<close>

type_synonym versions = "block_number \<Rightarrow> entities"

definition v_write :: "block_number \<Rightarrow> entity_modification list \<Rightarrow> versions \<Rightarrow> versions" where
  "v_write n mods v b = (if b < n then v b else fold apply_modification mods (v b))"

definition v_revert :: "block_number \<Rightarrow> versions \<Rightarrow> versions" where
  "v_revert n v b = v (min b n)"

fun v_exec :: "'ds request \<Rightarrow> versions \<Rightarrow> versions" where
  "v_exec (Req_Write p _ mods _ _) v = v_write (ptr_number p) mods v"
| "v_exec (Req_RevertTo p _) v = v_revert (ptr_number p) v"
| "v_exec Req_Stop v = v"

fun head_after :: "'ds request \<Rightarrow> block_number \<Rightarrow> block_number" where
  "head_after (Req_Write p _ _ _ _) h = ptr_number p"
| "head_after (Req_RevertTo p _) h = ptr_number p"
| "head_after Req_Stop h = h"

text \<open>Writes go on from the head, one modification per entity, and reverts go back from it.\<close>

fun request_ok :: "block_number \<Rightarrow> 'ds request \<Rightarrow> bool" where
  "request_ok h (Req_Write p _ mods _ _) \<longleftrightarrow>
     h < ptr_number p \<and> ptr_number p \<le> BLOCK_NUMBER_MAX \<and> distinct (map mod_entity_ref mods) \<and>
     list_all (\<lambda>m. entity_wf (mod_entity m)) mods"
| "request_ok h (Req_RevertTo p _) \<longleftrightarrow> ptr_number p \<le> h"
| "request_ok h Req_Stop \<longleftrightarrow> True"

fun requests_ok :: "block_number \<Rightarrow> 'ds request list \<Rightarrow> bool" where
  "requests_ok h [] \<longleftrightarrow> True"
| "requests_ok h (r # rs) \<longleftrightarrow> request_ok h r \<and> requests_ok (head_after r h) rs"

definition v_head :: "block_number \<Rightarrow> versions \<Rightarrow> bool" where
  "v_head h v \<longleftrightarrow> (\<forall>b. v b = v (min b h))"

lemma requests_ok_append:
  "requests_ok h (rs @ rs') \<longleftrightarrow> requests_ok h rs \<and> requests_ok (fold head_after rs h) rs'"
  by (induction rs arbitrary: h) auto

lemma v_head_exec:
  assumes "v_head h v" "request_ok h r"
  shows "v_head (head_after r h) (v_exec r v)"
proof (cases r)
  case (Req_Write p c mods ds pr)
  have v: "v b = v (min b (ptr_number p))" for b
    using assms unfolding Req_Write v_head_def by (metis min.absorb2 min.assoc request_ok.simps(1) less_imp_le)
  show ?thesis
    unfolding Req_Write v_head_def head_after.simps v_exec.simps v_write_def
    by (metis (no_types) v less_le_not_le min.absorb2 min_def)
next
  case (Req_RevertTo p c)
  then show ?thesis by (simp add: v_head_def v_revert_def)
qed (use assms in simp)

lemma v_head_execs:
  "v_head h v \<Longrightarrow> requests_ok h rs \<Longrightarrow> v_head (fold head_after rs h) (fold v_exec rs v)"
  by (induction rs arbitrary: h v) (auto simp: v_head_exec)

lemma fold_apply_modification:
  assumes "distinct (map mod_entity_ref mods)"
  shows "fold apply_modification mods S k =
    (case find (\<lambda>m. mod_entity_ref m = k) mods of None \<Rightarrow> S k | Some m \<Rightarrow> mod_entity m)"
  using assms
proof (induction mods arbitrary: S)
  case (Cons m mods)
  show ?case
  proof (cases "mod_entity_ref m = k")
    case True
    with Cons.prems have "find (\<lambda>m. mod_entity_ref m = k) mods = None"
      unfolding find_None_iff by (metis distinct.simps(2) image_eqI list.map(2) list.set_map)
    with Cons True show ?thesis by (simp add: apply_modification_eq)
  qed (use Cons in \<open>simp add: apply_modification_eq split: option.splits\<close>)
qed simp

section \<open>Reading through the queue\<close>

fun op_entity :: "queued_op \<Rightarrow> entity option" where
  "op_entity (QO_Write e) = Some e"
| "op_entity QO_Remove = None"

lemma op_entity_of [simp]: "op_entity (queued_op_of m) = mod_entity m"
  by (cases m) auto

text \<open>
  Going through the requests from the newest on, what has been seen limits the blocks that count to
  those up to \<open>trk_revert\<close>; below the head of the older requests, \<open>trk_block\<close> says the same.
\<close>

lemma get_scan:
  assumes "requests_ok h (rev rs)" "v_head h v"
    and "min (trk_block t) (fold head_after (rev rs) h) = min (trk_revert t) (fold head_after (rev rs) h)"
  shows "case find_map_loop (get_step key) t rs of
      (t', Some op) \<Rightarrow> op_entity op = fold v_exec (rev rs) v (trk_revert t) key
    | (t', None) \<Rightarrow> v (trk_block t') key = fold v_exec (rev rs) v (trk_revert t) key"
  using assms
proof (induction rs arbitrary: t)
  case Nil
  then have "v (trk_block t) = v (trk_revert t)" unfolding v_head_def by (metis fold_simps(1) id_apply rev.simps(1))
  then show ?case by simp
next
  case (Cons r rs)
  let ?h = "fold head_after (rev rs) h" and ?v = "fold v_exec (rev rs) v"
  from Cons.prems(1) have ok: "requests_ok h (rev rs)" "request_ok ?h r" by (auto simp: requests_ok_append)
  note IH = Cons.IH [OF ok(1) Cons.prems(2)]
  show ?case
  proof (cases r)
    case (Req_Write p c mods ds pr)
    let ?t = "t\<lparr>trk_block := min (trk_block t) (ptr_number p - 1)\<rparr>"
    from ok(2) Req_Write have n: "?h < ptr_number p" "distinct (map mod_entity_ref mods)" by auto
    from Cons.prems(3) Req_Write n(1) have "min (trk_block ?t) ?h = min (trk_revert ?t) ?h" by (auto simp: min_def split: if_splits)
    note IH = IH [OF this]
    have new: "fold v_exec (rev (r # rs)) v (trk_revert t) key =
        (if ptr_number p \<le> trk_revert t
         then case find (\<lambda>m. mod_entity_ref m = key) mods of None \<Rightarrow> ?v (trk_revert t) key | Some m \<Rightarrow> mod_entity m
         else ?v (trk_revert t) key)"
      by (simp add: Req_Write v_write_def fold_apply_modification [OF n(2)])
    show ?thesis
    proof (cases "ptr_number p \<le> trk_revert t \<and> find (\<lambda>m. mod_entity_ref m = key) mods \<noteq> None")
      case True
      then show ?thesis unfolding new by (auto simp: Req_Write get_step_def tracker_visible_def)
    next
      case False
      then have step: "get_step key t r = (?t, None)"
          "fold v_exec (rev (r # rs)) v (trk_revert t) key = ?v (trk_revert t) key"
        unfolding new by (auto simp: Req_Write get_step_def tracker_visible_def Let_def)
      have rv: "trk_revert ?t = trk_revert t" by simp
      from IH [unfolded rv] show ?thesis unfolding step find_map_loop.simps prod.case option.case .
    qed
  next
    case (Req_RevertTo p c)
    let ?t = "t\<lparr>trk_revert := min (trk_revert t) (ptr_number p), trk_block := min (trk_block t) (ptr_number p)\<rparr>"
    from Cons.prems(3) Req_RevertTo have "min (trk_block ?t) ?h = min (trk_revert ?t) ?h" by simp
    note IH = IH [OF this]
    have step: "get_step key t r = (?t, None)"
        "fold v_exec (rev (r # rs)) v (trk_revert t) key = ?v (trk_revert ?t) key"
      by (simp_all add: Req_RevertTo get_step_def v_revert_def)
    from IH show ?thesis unfolding step find_map_loop.simps prod.case option.case .
  next
    case Req_Stop
    have step: "get_step key t r = (t, None)"
        "fold v_exec (rev (r # rs)) v (trk_revert t) key = ?v (trk_revert t) key"
      by (simp_all add: Req_Stop get_step_def)
    from Cons.prems(3) Req_Stop have "min (trk_block t) ?h = min (trk_revert t) ?h" by simp
    from IH [OF this] show ?thesis unfolding step find_map_loop.simps prod.case option.case .
  qed
qed

text \<open>A query at block \<open>q\<close> does not see whether such a request has been executed.\<close>

fun leaves_alone :: "block_number \<Rightarrow> 'ds request \<Rightarrow> bool" where
  "leaves_alone q (Req_Write p _ _ _ _) \<longleftrightarrow> q < ptr_number p"
| "leaves_alone q (Req_RevertTo p _) \<longleftrightarrow> q \<le> ptr_number p"
| "leaves_alone q Req_Stop \<longleftrightarrow> True"

lemma leaves_alone_exec: "leaves_alone q r \<Longrightarrow> v_exec r v q = v q"
  by (cases r) (auto simp: v_write_def v_revert_def min_def)

lemma leaves_alone_execs: "list_all (leaves_alone q) rs \<Longrightarrow> fold v_exec rs v q = v q"
  by (induction rs arbitrary: v) (auto simp: leaves_alone_exec)

lemma leaves_alone_le: "q \<le> q' \<Longrightarrow> leaves_alone q' r \<Longrightarrow> leaves_alone q r"
  by (cases r) auto

lemma tracker_update_le: "trk_block (tracker_update r t) \<le> trk_block t"
  by (cases r) auto

lemma tracker_updates_le: "trk_block (fold tracker_update rs t) \<le> trk_block t"
  by (induction rs arbitrary: t) (auto intro: order_trans tracker_update_le)

lemma tracker_updates_leave_alone: "list_all (leaves_alone (trk_block (fold tracker_update rs t))) rs"
proof (induction rs arbitrary: t)
  case (Cons r rs)
  have "leaves_alone (trk_block (tracker_update r t)) r" by (cases r) auto
  with tracker_updates_le [of rs "tracker_update r t"] Cons show ?case by (simp add: leaves_alone_le)
qed simp

lemma get_step_tracker: "fst (get_step key t r) = tracker_update r t"
  by (cases r) (auto simp: get_step_def Let_def)

lemma get_scan_none:
  "find_map_loop (get_step key) t rs = (t', None) \<Longrightarrow> t' = fold tracker_update rs t"
proof (induction rs arbitrary: t)
  case (Cons r rs)
  obtain s x where step: "get_step key t r = (s, x)" by (cases "get_step key t r")
  with get_step_tracker [of key t r] have "s = tracker_update r t" by simp
  with Cons step show ?case by (cases x) auto
qed simp

lemma get_scan_some:
  assumes "find_map_loop (get_step key) t rs = (t', Some op)"
  shows "\<exists>p c mods ds pr m. Req_Write p c mods ds pr \<in> set rs \<and> m \<in> set mods \<and> op = queued_op_of m"
  using assms
proof (induction rs arbitrary: t)
  case (Cons r rs)
  obtain s x where step: "get_step key t r = (s, x)" by (cases "get_step key t r")
  show ?case
  proof (cases x)
    case None
    with Cons step show ?thesis by fastforce
  next
    case (Some y)
    with step obtain p c mods ds pr where r: "r = Req_Write p c mods ds pr"
      by (cases r) (auto simp: get_step_def split: if_splits)
    with step Some Cons.prems obtain m where "find (\<lambda>m. mod_entity_ref m = key) mods = Some m" "op = queued_op_of m"
      by (auto simp: get_step_def Let_def split: if_splits)
    moreover from find_SomeD [OF this(1)] have "m \<in> set mods" by simp
    moreover from r have "Req_Write p c mods ds pr \<in> set (r # rs)" by simp
    ultimately show ?thesis by blast
  qed
qed simp

lemma requests_ok_entity_wf:
  "requests_ok h rs \<Longrightarrow> Req_Write p c mods ds pr \<in> set rs \<Longrightarrow> m \<in> set mods \<Longrightarrow> entity_wf (mod_entity m)"
  by (induction rs arbitrary: h) (auto simp: list_all_iff)

section \<open>What the database promises\<close>

fun execute_all :: "('db, 'err, 'ds) block_store \<Rightarrow> 'ds request list \<Rightarrow> 'db \<Rightarrow> 'err + 'db" where
  "execute_all st [] db = Inr db"
| "execute_all st (r # rs) db =
     (case request_execute st r db of Inl e \<Rightarrow> Inl e | Inr (_, db') \<Rightarrow> execute_all st rs db')"

locale block_store_laws =
  fixes st :: "('db, 'err, 'ds) block_store" and vers :: "'db \<Rightarrow> versions" and head :: "'db \<Rightarrow> block_number"
  assumes head_law: "v_head (head db) (vers db)"
    and transact_law: "bst_transact st p c mods ds pr db = Inr db' \<Longrightarrow>
      request_ok (head db) (Req_Write p c mods ds pr) \<Longrightarrow>
      vers db' = v_write (ptr_number p) mods (vers db) \<and> head db' = ptr_number p"
    and revert_law: "bst_revert st p c db = Inr db' \<Longrightarrow> ptr_number p \<le> head db \<Longrightarrow>
      vers db' = v_revert (ptr_number p) (vers db) \<and> head db' = ptr_number p"
    and block_get_law: "bst_get st db k b = Inr r \<Longrightarrow> same_view r (vers db b k) \<and> entity_wf r"
    and block_get_many_law: "bst_get_many st db ks b = Inr m \<Longrightarrow>
      hm_wf m \<and> fst ` set m \<subseteq> ks \<and> (\<forall>k \<in> ks. same_view (map_of m k) (vers db b k) \<and> entity_wf (map_of m k))"
begin

lemma execute_law:
  assumes "request_execute st r db = Inr (x, db')" "request_ok (head db) r"
  shows "vers db' = v_exec r (vers db)" "head db' = head_after r (head db)"
proof -
  have "vers db' = v_exec r (vers db) \<and> head db' = head_after r (head db)"
  proof (cases r)
    case (Req_Write p c mods ds pr)
    with assms(1) have "bst_transact st p c mods ds pr db = Inr db'" by (auto simp: request_execute_def split: sum.splits)
    from transact_law [OF this] assms(2) Req_Write show ?thesis by simp
  next
    case (Req_RevertTo p c)
    with assms(1) have "bst_revert st p c db = Inr db'" by (auto simp: request_execute_def split: sum.splits)
    from revert_law [OF this] assms(2) Req_RevertTo show ?thesis by simp
  qed (use assms(1) in \<open>auto simp: request_execute_def\<close>)
  then show "vers db' = v_exec r (vers db)" "head db' = head_after r (head db)" by auto
qed

lemma execute_all_law:
  "execute_all st rs db = Inr db' \<Longrightarrow> requests_ok (head db) rs \<Longrightarrow>
     vers db' = fold v_exec rs (vers db) \<and> head db' = fold head_after rs (head db)"
proof (induction rs arbitrary: db)
  case (Cons r rs)
  from Cons.prems(1) obtain x db1 where r: "request_execute st r db = Inr (x, db1)" "execute_all st rs db1 = Inr db'"
    by (auto split: sum.splits)
  with Cons.IH [OF r(2)] execute_law [OF r(1)] Cons.prems(2) show ?case by simp
qed simp

text \<open>The scan finds the version after all requests, or the block at which the database has it.\<close>

lemma scan_value:
  assumes ok: "requests_ok (head db) (bq_items q)" and part: "execute_all st (take i (bq_items q)) db = Inr db1"
    and scan: "find_map_loop (get_step k) tracker_new (rev (bq_items q)) = (t, x)"
  shows "case x of
      Some op \<Rightarrow> op_entity op = fold v_exec (bq_items q) (vers db) BLOCK_NUMBER_MAX k \<and>
        entity_wf (fold v_exec (bq_items q) (vers db) BLOCK_NUMBER_MAX k)
    | None \<Rightarrow> vers db1 (trk_block t) k = fold v_exec (bq_items q) (vers db) BLOCK_NUMBER_MAX k"
proof -
  let ?rs = "rev (bq_items q)"
  from get_scan [of "head db" ?rs "vers db" tracker_new k] ok head_law scan
  have res: "case x of Some op \<Rightarrow> op_entity op = fold v_exec (bq_items q) (vers db) BLOCK_NUMBER_MAX k
      | None \<Rightarrow> vers db (trk_block t) k = fold v_exec (bq_items q) (vers db) BLOCK_NUMBER_MAX k"
    by (auto simp: tracker_new_def split: option.splits)
  show ?thesis
  proof (cases x)
    case None
    with scan have "t = fold tracker_update ?rs tracker_new" by (simp add: get_scan_none)
    with tracker_updates_leave_alone [of ?rs tracker_new]
    have alone: "\<forall>r \<in> set (bq_items q). leaves_alone (trk_block t) r" by (simp add: list_all_iff)
    have "requests_ok (head db) (take i (bq_items q))"
      using ok requests_ok_append [of "head db" "take i (bq_items q)" "drop i (bq_items q)"] by simp
    with execute_all_law [OF part] have "vers db1 = fold v_exec (take i (bq_items q)) (vers db)" by simp
    moreover have "list_all (leaves_alone (trk_block t)) (take i (bq_items q))"
      using alone by (auto simp: list_all_iff dest: in_set_takeD)
    ultimately have "vers db1 (trk_block t) = vers db (trk_block t)" by (simp add: leaves_alone_execs)
    with res None show ?thesis by simp
  next
    case (Some op)
    from get_scan_some [OF scan [unfolded Some]] requests_ok_entity_wf [OF ok] have "entity_wf (op_entity op)" by auto
    with res Some show ?thesis by simp
  qed
qed

lemma queue_get_ok:
  assumes ok: "requests_ok (head db) (bq_items q)" and part: "execute_all st (take i (bq_items q)) db = Inr db1"
    and get: "queue_get st q db1 k = Inr r"
  shows "same_view r (fold v_exec (bq_items q) (vers db) BLOCK_NUMBER_MAX k) \<and> entity_wf r"
proof -
  obtain t x where scan: "find_map_loop (get_step k) tracker_new (rev (bq_items q)) = (t, x)"
    by (cases "find_map_loop (get_step k) tracker_new (rev (bq_items q))")
  note val = scan_value [OF ok part scan]
  show ?thesis
  proof (cases x)
    case None
    with get scan have "bst_get st db1 k (trk_block t) = Inr r"
      by (simp add: queue_get_def bq_find_map_def query_block_def)
    with val None block_get_law show ?thesis by force
  next
    case (Some op)
    with get scan have "r = op_entity op" by (cases op) (auto simp: queue_get_def bq_find_map_def)
    with val Some show ?thesis by simp
  qed
qed

end

text \<open>
  \<open>get_many\<close> follows, for each of the keys, the scan that \<open>get\<close> makes: as long as that has not found
  anything the key is in the set of open keys, and afterwards the map has what it found.
\<close>

lemma take_mods_keys: "fst (fold take_mod mods (ks, m)) = ks - mod_entity_ref ` set mods"
  by (induction mods arbitrary: ks m) (auto simp: take_mod_def)

lemma take_mods_old: "k \<notin> ks \<Longrightarrow> map_of (snd (fold take_mod mods (ks, m))) k = map_of m k"
proof (induction mods arbitrary: ks m)
  case (Cons x mods)
  have "k \<notin> fst (take_mod x (ks, m))" "map_of (snd (take_mod x (ks, m))) k = map_of m k"
    using Cons.prems by (auto simp: take_mod_def hm_simps)
  with Cons.IH [of "fst (take_mod x (ks, m))" "snd (take_mod x (ks, m))"] show ?case by simp
qed simp

lemma find_None_ref: "find (\<lambda>x. mod_entity_ref x = k) mods = None \<longleftrightarrow> k \<notin> mod_entity_ref ` set mods"
  by (induction mods) auto

lemma take_mods_found:
  "k \<in> ks \<Longrightarrow> map_of (snd (fold take_mod mods (ks, m))) k =
     (case find (\<lambda>x. mod_entity_ref x = k) mods of None \<Rightarrow> map_of m k | Some x \<Rightarrow> Some (mod_entity x))"
proof (induction mods arbitrary: ks m)
  case (Cons x mods)
  let ?s = "take_mod x (ks, m)"
  show ?case
  proof (cases "mod_entity_ref x = k")
    case True
    then have "k \<notin> fst ?s" "map_of (snd ?s) k = Some (mod_entity x)"
      using Cons.prems by (auto simp: take_mod_def hm_simps)
    with take_mods_old [of k "fst ?s" mods "snd ?s"] True show ?thesis by simp
  next
    case False
    then have "k \<in> fst ?s" "map_of (snd ?s) k = map_of m k"
      using Cons.prems by (auto simp: take_mod_def hm_simps)
    with Cons.IH [of "fst ?s" "snd ?s"] False show ?thesis by (simp split: option.splits)
  qed
qed simp

lemma take_mods_wf: "hm_wf m \<Longrightarrow> hm_wf (snd (fold take_mod mods (ks, m)))"
proof (induction mods arbitrary: ks m)
  case (Cons x mods)
  have "hm_wf (snd (take_mod x (ks, m)))" using Cons.prems by (simp add: take_mod_def distinct_update)
  with Cons.IH [of "snd (take_mod x (ks, m))" "fst (take_mod x (ks, m))"] show ?case by simp
qed simp

text \<open>What is open and what has been found after the scan.\<close>

lemma get_many_scan:
  assumes "foldl get_many_step (t, ks, m) rs = (t', ks', m')" "hm_wf m" "fst ` set m \<inter> ks = {}"
  shows "t' = fold tracker_update rs t \<and> hm_wf m' \<and> fst ` set m' \<inter> ks' = {} \<and> ks' \<subseteq> ks \<and>
    (\<forall>k. k \<notin> ks \<longrightarrow> map_of m' k = map_of m k) \<and>
    (\<forall>k \<in> ks. case find_map_loop (get_step k) t rs of
         (_, Some op) \<Rightarrow> k \<notin> ks' \<and> map_of m' k = Some (op_entity op)
       | (_, None) \<Rightarrow> k \<in> ks' \<and> map_of m' k = None)"
  using assms
proof (induction rs arbitrary: t ks m)
  case Nil
  then have "map_of m k = None" if "k \<in> ks" for k using that by (auto simp: map_of_eq_None_iff)
  with Nil show ?case by auto
next
  case (Cons r rs)
  obtain t1 ks1 m1 where step: "get_many_step (t, ks, m) r = (t1, ks1, m1)" by (cases "get_many_step (t, ks, m) r")
  define mods where "mods = (case r of
      Req_Write p _ mods _ _ \<Rightarrow> if tracker_visible (tracker_update r t) p then mods else [] | _ \<Rightarrow> [])"
  have one: "t1 = tracker_update r t" "(ks1, m1) = fold take_mod mods (ks, m)"
    "\<And>k. get_step k t r = (t1, map_option queued_op_of (find (\<lambda>x. mod_entity_ref x = k) mods))"
    using step by (auto simp: get_many_step_def get_step_def Let_def mods_def split: request.splits)
  from one(2) have ks1: "ks1 = ks - mod_entity_ref ` set mods" and m1: "m1 = snd (fold take_mod mods (ks, m))"
    using take_mods_keys [of mods ks m] by (metis fst_conv, metis snd_conv)
  have wf: "hm_wf m1" unfolding m1 by (rule take_mods_wf [OF Cons.prems(2)])
  have none: "map_of m k = None" if "k \<in> ks" for k using that Cons.prems(3) by (auto simp: map_of_eq_None_iff)
  have found: "map_of m1 k = (case find (\<lambda>x. mod_entity_ref x = k) mods of None \<Rightarrow> None | Some x \<Rightarrow> Some (mod_entity x))"
    if "k \<in> ks" for k
    using take_mods_found [OF that, of mods m] none [OF that] by (simp add: m1 split: option.splits)
  have "map_of m1 k = None" if "k \<in> ks1" for k
  proof -
    from that ks1 have "k \<in> ks" "find (\<lambda>x. mod_entity_ref x = k) mods = None" by (auto simp: find_None_ref)
    with found show ?thesis by simp
  qed
  then have disj: "fst ` set m1 \<inter> ks1 = {}" by (auto simp: map_of_eq_None_iff)
  from Cons.prems(1) step have "foldl get_many_step (t1, ks1, m1) rs = (t', ks', m')" by simp
  from Cons.IH [OF this wf disj]
  have IH: "t' = fold tracker_update rs t1" "hm_wf m'" "fst ` set m' \<inter> ks' = {}" "ks' \<subseteq> ks1"
    "\<forall>k. k \<notin> ks1 \<longrightarrow> map_of m' k = map_of m1 k"
    "\<forall>k \<in> ks1. case find_map_loop (get_step k) t1 rs of
         (_, Some op) \<Rightarrow> k \<notin> ks' \<and> map_of m' k = Some (op_entity op)
       | (_, None) \<Rightarrow> k \<in> ks' \<and> map_of m' k = None"
    apply -
    subgoal by (elim conjE)
    subgoal by (elim conjE)
    subgoal by (elim conjE)
    subgoal by (elim conjE)
    subgoal by (elim conjE)
    subgoal by (elim conjE)
    done
  have each: "case find_map_loop (get_step k) t (r # rs) of
         (_, Some op) \<Rightarrow> k \<notin> ks' \<and> map_of m' k = Some (op_entity op)
       | (_, None) \<Rightarrow> k \<in> ks' \<and> map_of m' k = None" if k: "k \<in> ks" for k
  proof (cases "find (\<lambda>x. mod_entity_ref x = k) mods")
    case None
    with k ks1 have "k \<in> ks1" by (simp add: find_None_ref)
    from IH(6) [THEN bspec, OF this]
    show ?thesis unfolding find_map_loop.simps one(3) None option.map prod.case option.case .
  next
    case (Some x)
    from find_SomeD [OF Some] ks1 have "k \<notin> ks1" by auto
    with IH(4,5) have "map_of m' k = map_of m1 k" "k \<notin> ks'" by auto
    with found [OF k] Some show ?thesis by (simp add: one(3))
  qed
  have "map_of m' k = map_of m k" if "k \<notin> ks" for k
  proof -
    from that ks1 have "k \<notin> ks1" by simp
    with IH(5) take_mods_old [OF that, of mods m] show ?thesis by (simp add: m1)
  qed
  with IH(1,2,3,4) each ks1 one(1) show ?case by (intro conjI) (simp_all, blast)
qed

lemma add_queued_ok:
  assumes "hm_wf queued" "hm_wf m" "fst ` set queued \<inter> fst ` set m = {}"
  shows "\<exists>m'. add_queued queued m = Some m' \<and> hm_wf m' \<and>
    (\<forall>k. map_of m' k = (case map_of queued k of None \<Rightarrow> map_of m k | Some e \<Rightarrow> e)) \<and>
    fst ` set m' \<subseteq> fst ` set queued \<union> fst ` set m"
  using assms
proof (induction queued m rule: add_queued.induct)
  case (2 k xs m)
  then have m: "map_of m k = None" "hm_wf xs" "fst ` set xs \<inter> fst ` set m = {}" and k: "k \<notin> fst ` set xs"
    by (auto simp: map_of_eq_None_iff)
  from 2(1) [OF m(2) 2(3) m(3)] obtain m' where m': "add_queued xs m = Some m'" "hm_wf m'"
      "\<forall>k. map_of m' k = (case map_of xs k of None \<Rightarrow> map_of m k | Some e \<Rightarrow> e)"
      "fst ` set m' \<subseteq> fst ` set xs \<union> fst ` set m" by blast
  from k have "map_of xs k = None" by (simp add: map_of_eq_None_iff)
  with m' m(1) show ?case by auto
next
  case (3 k e xs m)
  then have m: "map_of m k = None" "hm_wf xs" "k \<notin> fst ` set xs" "fst ` set xs \<inter> fst ` set (hm_insert k e m) = {}"
    by (auto simp: map_of_eq_None_iff update_keys image_iff dom_update [unfolded dom_map_of_conv_image_fst])
  from 3(1) [OF _ m(2) _ m(4)] m(1) 3(3) obtain m' where m': "add_queued xs (hm_insert k e m) = Some m'" "hm_wf m'"
      "\<forall>k'. map_of m' k' = (case map_of xs k' of None \<Rightarrow> map_of (hm_insert k e m) k' | Some e \<Rightarrow> e)"
      "fst ` set m' \<subseteq> fst ` set xs \<union> fst ` set (hm_insert k e m)"
    by (auto simp: distinct_update)
  have "map_of xs k = None" using m(3) by (simp add: map_of_eq_None_iff)
  moreover have "fst ` set (hm_insert k e m) = insert k (fst ` set m)"
    using dom_update [of k e m] by (simp add: dom_map_of_conv_image_fst)
  moreover have "map_of m' k' = (case map_of ((k, Some e) # xs) k' of None \<Rightarrow> map_of m k' | Some e \<Rightarrow> e)" for k'
    using m'(3) \<open>map_of xs k = None\<close> by (cases "k' = k") (simp_all add: hm_simps split: option.splits)
  ultimately show ?case using m'(1,2,4) m(1) by auto
qed simp

context block_store_laws
begin

lemma queue_get_many_ok:
  assumes ok: "requests_ok (head db) (bq_items q)" and part: "execute_all st (take i (bq_items q)) db = Inr db1"
  shows "(\<exists>e. queue_get_many st q db1 ks = Return (Inl e)) \<or>
    (\<exists>m. queue_get_many st q db1 ks = Return (Inr m) \<and> hm_wf m \<and> fst ` set m \<subseteq> ks \<and>
      (\<forall>k \<in> ks. same_view (map_of m k) (fold v_exec (bq_items q) (vers db) BLOCK_NUMBER_MAX k) \<and> entity_wf (map_of m k)))"
proof -
  let ?rs = "rev (bq_items q)" and ?V = "\<lambda>k. fold v_exec (bq_items q) (vers db) BLOCK_NUMBER_MAX k"
  obtain t ks' queued where scan: "foldl get_many_step (tracker_new, ks, []) ?rs = (t, ks', queued)"
    by (cases "foldl get_many_step (tracker_new, ks, []) ?rs")
  from get_many_scan [OF scan] have t: "t = fold tracker_update ?rs tracker_new" and wf: "hm_wf queued"
      and disj: "fst ` set queued \<inter> ks' = {}" and sub: "ks' \<subseteq> ks" and old: "\<And>k. k \<notin> ks \<Longrightarrow> map_of queued k = None"
      and each: "\<And>k. k \<in> ks \<Longrightarrow> case find_map_loop (get_step k) tracker_new ?rs of
         (_, Some op) \<Rightarrow> k \<notin> ks' \<and> map_of queued k = Some (op_entity op)
       | (_, None) \<Rightarrow> k \<in> ks' \<and> map_of queued k = None" by auto
  show ?thesis
  proof (cases "bst_get_many st db1 ks' (trk_block t)")
    case (Inl e)
    then show ?thesis by (simp add: queue_get_many_def bq_fold_def scan query_block_def)
  next
    case (Inr m)
    from block_get_many_law [OF Inr] have m: "hm_wf m" "fst ` set m \<subseteq> ks'"
        "\<And>k. k \<in> ks' \<Longrightarrow> same_view (map_of m k) (vers db1 (trk_block t) k) \<and> entity_wf (map_of m k)" by auto
    have "fst ` set queued \<inter> fst ` set m = {}" using disj m(2) by blast
    from add_queued_ok [OF wf m(1) this] obtain m' where m': "add_queued queued m = Some m'" "hm_wf m'"
        "\<And>k. map_of m' k = (case map_of queued k of None \<Rightarrow> map_of m k | Some e \<Rightarrow> e)"
        "fst ` set m' \<subseteq> fst ` set queued \<union> fst ` set m" by blast
    have "fst ` set queued \<subseteq> ks" using old map_of_eq_None_iff [of queued] by auto
    with m'(4) m(2) sub have keys: "fst ` set m' \<subseteq> ks" by blast
    have "same_view (map_of m' k) (?V k) \<and> entity_wf (map_of m' k)" if k: "k \<in> ks" for k
    proof -
      obtain t' x where s: "find_map_loop (get_step k) tracker_new ?rs = (t', x)"
        by (cases "find_map_loop (get_step k) tracker_new ?rs")
      note val = scan_value [OF ok part s]
      show ?thesis
      proof (cases x)
        case None
        with s t have "t' = t" by (simp add: get_scan_none)
        moreover from each [OF k] s None have "k \<in> ks'" "map_of queued k = None" by auto
        ultimately show ?thesis using val None m(3) [of k] m'(3) [of k] by simp
      next
        case (Some op)
        with each [OF k] s have "map_of queued k = Some (op_entity op)" by simp
        with val Some m'(3) [of k] show ?thesis by simp
      qed
    qed
    with Inr m'(1,2) keys show ?thesis by (simp add: queue_get_many_def bq_fold_def scan query_block_def)
  qed
qed

end

section \<open>A database that keeps a history\<close>

text \<open>
  The head and the writes, the oldest first, with the data sources they created; only the writes up to
  the head count.
\<close>

type_synonym 'ds history = "block_number \<times> (block_number \<times> entity_modification list \<times> 'ds list) list"

definition up_to :: "block_number \<Rightarrow> (block_number \<times> 'x) list \<Rightarrow> (block_number \<times> 'x) list" where
  "up_to b ws = filter (\<lambda>w. fst w \<le> b) ws"

definition history_versions :: "'ds history \<Rightarrow> versions" where
  "history_versions db b = fold (\<lambda>w. fold apply_modification (fst (snd w))) (up_to (min b (fst db)) (snd db)) (\<lambda>_. None)"

definition history_get :: "'ds history \<Rightarrow> entity_key \<Rightarrow> block_number \<Rightarrow> unit + entity option" where
  "history_get db k b = (if entity_wf (history_versions db b k) then Inr (history_versions db b k) else Inl ())"

definition history_keys :: "'ds history \<Rightarrow> entity_key list" where
  "history_keys db = remdups (concat (map (\<lambda>w. map mod_entity_ref (fst (snd w))) (snd db)))"

definition history_get_many ::
    "'ds history \<Rightarrow> entity_key set \<Rightarrow> block_number \<Rightarrow> unit + (entity_key, entity) btree_map" where
  "history_get_many db ks b =
     (if list_all (\<lambda>k. entity_wf (history_versions db b k)) (history_keys db)
      then Inr (filter_map (\<lambda>k. map_option (Pair k) (history_versions db b k))
                  (filter (\<lambda>k. k \<in> ks) (history_keys db)))
      else Inl ())"

definition history_store :: "schema \<Rightarrow> ('ds history, unit, 'ds) block_store" where
  "history_store sch =
     \<lparr> bst_transact = (\<lambda>p _ mods ds _ db. Inr (ptr_number p, up_to (fst db) (snd db) @ [(ptr_number p, mods, ds)])),
       bst_revert = (\<lambda>p _ db. Inr (ptr_number p, snd db)),
       bst_get = history_get, bst_get_many = history_get_many,
       bst_load_dds = (\<lambda>db b. Inr (concat (map (\<lambda>w. snd (snd w)) (up_to (min b (fst db)) (snd db))))),
       bst_input_schema = sch \<rparr>"

lemma up_to_simps [simp]:
  "up_to b (up_to c ws) = up_to (min b c) ws" "up_to b [] = []" "up_to b (ws @ ws') = up_to b ws @ up_to b ws'"
  by (auto simp: up_to_def intro: filter_cong)

lemma history_versions_unwritten:
  "k \<notin> set (history_keys db) \<Longrightarrow> history_versions db b k = None"
proof -
  assume k: "k \<notin> set (history_keys db)"
  have one: "fold apply_modification mods S k = S k" if "k \<notin> mod_entity_ref ` set mods" for mods S
    using that by (induction mods arbitrary: S) (auto simp: apply_modification_eq)
  have "fold (\<lambda>w. fold apply_modification (fst (snd w))) ws S k = S k"
    if "\<forall>w \<in> set ws. k \<notin> mod_entity_ref ` set (fst (snd w))" for ws :: "(block_number \<times> entity_modification list \<times> 'a list) list" and S
    using that by (induction ws arbitrary: S) (simp_all add: one)
  note all = this
  have "\<forall>w \<in> set (up_to (min b (fst db)) (snd db)). k \<notin> mod_entity_ref ` set (fst (snd w))"
    using k by (simp add: history_keys_def up_to_def)
  then show ?thesis unfolding history_versions_def by (rule all)
qed

lemma map_of_present:
  "distinct ks \<Longrightarrow> map_of (filter_map (\<lambda>k. map_option (Pair k) (f k)) ks) k = (if k \<in> set ks then f k else None)"
proof (induction ks)
  case (Cons x ks)
  then show ?case by (cases "f x") auto
qed simp

lemma hm_wf_present: "distinct ks \<Longrightarrow> hm_wf (filter_map (\<lambda>k. map_option (Pair k) (f k)) ks)"
proof (induction ks)
  case (Cons x ks)
  then show ?case by (cases "f x") auto
qed simp

interpretation hist: block_store_laws "history_store sch" history_versions fst
proof
  fix db :: "'a history"
  show "v_head (fst db) (history_versions db)" by (simp add: v_head_def history_versions_def)
next
  fix p c mods ds pr and db db' :: "'a history"
  assume "bst_transact (history_store sch) p c mods ds pr db = Inr db'" "request_ok (fst db) (Req_Write p c mods ds pr)"
  then have db': "db' = (ptr_number p, up_to (fst db) (snd db) @ [(ptr_number p, mods, ds)])" and n: "fst db < ptr_number p"
    by (auto simp: history_store_def)
  show "history_versions db' = v_write (ptr_number p) mods (history_versions db) \<and> fst db' = ptr_number p"
    using n by (auto simp: db' fun_eq_iff history_versions_def v_write_def min_def up_to_def [of _ "[_]"])
next
  fix p c and db db' :: "'a history"
  assume "bst_revert (history_store sch) p c db = Inr db'" "ptr_number p \<le> fst db"
  then show "history_versions db' = v_revert (ptr_number p) (history_versions db) \<and> fst db' = ptr_number p"
    by (auto simp: history_store_def fun_eq_iff history_versions_def v_revert_def min.assoc min_absorb1)
next
  fix db :: "'a history" and k b r
  assume "bst_get (history_store sch) db k b = Inr r"
  then show "same_view r (history_versions db b k) \<and> entity_wf r"
    by (auto simp: history_store_def history_get_def split: if_splits)
next
  fix db :: "'a history" and ks b m
  let ?ks = "filter (\<lambda>k. k \<in> ks) (history_keys db)"
  assume "bst_get_many (history_store sch) db ks b = Inr m"
  then have m: "m = filter_map (\<lambda>k. map_option (Pair k) (history_versions db b k)) ?ks"
      and wf: "\<forall>k \<in> set (history_keys db). entity_wf (history_versions db b k)"
    by (auto simp: history_store_def history_get_many_def list_all_iff split: if_splits)
  have dist: "distinct ?ks" by (simp add: history_keys_def)
  have "map_of m k = history_versions db b k" if "k \<in> ks" for k
    unfolding m map_of_present [OF dist] using that history_versions_unwritten [of k db b] by auto
  moreover have "entity_wf (history_versions db b k)" for k
    using wf history_versions_unwritten [of k db b] by (cases "k \<in> set (history_keys db)") (auto simp: entity_wf_def)
  moreover have "hm_wf m" unfolding m by (rule hm_wf_present [OF dist])
  moreover have "fst ` set m \<subseteq> ks" unfolding m by auto
  ultimately show "hm_wf m \<and> fst ` set m \<subseteq> ks \<and>
      (\<forall>k \<in> ks. same_view (map_of m k) (history_versions db b k) \<and> entity_wf (map_of m k))" by simp
qed

end
