(* ===== verification/Writable_Store.thy ===== *)
theory Writable_Store
  imports Writable_Queue "HOL-Library.Option_ord"
begin

text \<open>
  The background writer of \<open>store/postgres/src/writable.rs\<close> as a state machine, and the \<open>WritableStore\<close>
  in front of it.

  A state of the machine has the queue with its database, the requests of callers that wait in \<open>push\<close>,
  and the log \<open>pushed\<close> of all requests that were put into the queue, the oldest first. Callers and
  the writer take turns in any order.
\<close>

section \<open>The machine\<close>

type_synonym ('db, 'err, 'ds) pipeline = "('db, 'err, 'ds) write_queue \<times> 'ds request list \<times> 'ds request list"

inductive pipeline_step ::
    "('db, 'err, 'ds) block_store \<Rightarrow> ('db, 'err, 'ds) pipeline \<Rightarrow> ('db, 'err, 'ds) pipeline \<Rightarrow> bool" for st where
  p_check: "check_err w = (Inr (), w') \<Longrightarrow> pipeline_step st (w, waiting, pushed) (w', req # waiting, pushed)"
| p_error: "check_err w = (Inl e, w') \<Longrightarrow> pipeline_step st (w, waiting, pushed) (w', waiting, pushed)"
| p_push: "push_wait req w = Queue_done w' \<Longrightarrow> req \<in> set waiting \<Longrightarrow>
    pipeline_step st (w, waiting, pushed) (w', remove1 req waiting, pushed @ [req])"
| p_execute: "wq_stage w = Writer_idle \<Longrightarrow> writer_execute st panics w = Queue_done w' \<Longrightarrow>
    pipeline_step st (w, waiting, pushed) (w', waiting, pushed)"
| p_pop: "wq_stage w = Writer_executed r \<Longrightarrow> writer_pop r w = Queue_done w' \<Longrightarrow>
    pipeline_step st (w, waiting, pushed) (w', waiting, pushed)"

inductive_cases pipeline_stepE: "pipeline_step st (w, waiting, pushed) s'"

abbreviation pipeline_steps ::
    "('db, 'err, 'ds) block_store \<Rightarrow> ('db, 'err, 'ds) pipeline \<Rightarrow> ('db, 'err, 'ds) pipeline \<Rightarrow> bool" where
  "pipeline_steps st \<equiv> (pipeline_step st)\<^sup>*\<^sup>*"

definition pipeline_start :: "nat \<Rightarrow> 'db \<Rightarrow> ('db, 'err, 'ds) pipeline" where
  "pipeline_start capacity db = (queue_start capacity db, [], [])"

section \<open>The invariant\<close>

text \<open>
  The database is the result of executing a part of the log, the first \<open>n\<close> requests, in order. Unless there
  was an error, the queue has the rest, and the last executed request until it is taken off.
\<close>

definition in_front :: "writer_stage \<Rightarrow> nat" where
  "in_front s = (case s of Writer_executed _ \<Rightarrow> 1 | _ \<Rightarrow> 0)"

fun pipeline_inv :: "('db, 'err, 'ds) block_store \<Rightarrow> 'db \<Rightarrow> ('db, 'err, 'ds) pipeline \<Rightarrow> bool" where
  "pipeline_inv st db0 (w, waiting, pushed) \<longleftrightarrow>
     bq_inv (wq_queue w) \<and> (wq_write_err w \<noteq> None \<longrightarrow> wq_poisoned w) \<and>
     (wq_poisoned w \<longrightarrow> wq_stage w = Writer_stopped) \<and>
     (\<exists>n \<le> length pushed. in_front (wq_stage w) \<le> n \<and> execute_all st (take n pushed) db0 = Inr (wq_db w) \<and>
        (\<not> wq_poisoned w \<longrightarrow> bq_items (wq_queue w) = drop (n - in_front (wq_stage w)) pushed))"

lemma execute_all_append:
  "execute_all st (rs @ rs') db =
     (case execute_all st rs db of Inl e \<Rightarrow> Inl e | Inr db' \<Rightarrow> execute_all st rs' db')"
  by (induction rs arbitrary: db) (auto split: sum.splits)

lemma check_err_cases:
  "check_err w = (Inr (), w') \<Longrightarrow> w' = w \<and> \<not> wq_poisoned w \<and> wq_write_err w = None"
  "check_err w = (Inl e, w') \<Longrightarrow> w' = w\<lparr>wq_write_err := None\<rparr> \<and> (wq_poisoned w \<or> wq_write_err w \<noteq> None)"
  by (auto simp: check_err_def split: option.splits if_splits)

lemma push_wait_done:
  assumes "push_wait req w = Queue_done w'" "bq_inv (wq_queue w)"
  obtains q where "w' = w\<lparr>wq_queue := q\<rparr>" "bq_inv q" "bq_items q = bq_items (wq_queue w) @ [req]"
    "bq_capacity q = bq_capacity (wq_queue w)"
  using assms by (auto simp: push_wait_def split: queue_result.splits dest: bq_inv_push)

lemma record_err_inv:
  "bq_inv (wq_queue w) \<Longrightarrow> record_err e w = Queue_done (w\<lparr>wq_write_err := Some e, wq_poisoned := True,
     wq_queue := bq_with_capacity (bq_capacity (wq_queue w))\<rparr>)"
  by (simp add: record_err_def bq_clear_inv)

lemma peek_inv: "bq_inv q \<Longrightarrow> bq_peek q = (case bq_items q of [] \<Rightarrow> Blocked | x # _ \<Rightarrow> Queue_done x)"
  by (auto simp: bq_inv_def bq_peek_def split: list.splits)

lemma wait_empty_inv: "bq_inv q \<Longrightarrow> bq_wait_empty q = (if bq_items q = [] then Queue_done () else Blocked)"
  by (cases "bq_items q") (auto simp: bq_inv_def bq_wait_empty_def)

lemma writer_execute_done:
  assumes "writer_execute st panics w = Queue_done w'" "bq_inv (wq_queue w)"
  obtains (executed) req rs r db' where "bq_items (wq_queue w) = req # rs" "request_execute st req (wq_db w) = Inr (r, db')"
      "w' = w\<lparr>wq_db := db', wq_stage := Writer_executed r\<rparr>"
  | (failed) e where "w' = w\<lparr>wq_write_err := Some e, wq_poisoned := True,
      wq_queue := bq_with_capacity (bq_capacity (wq_queue w)), wq_stage := Writer_stopped\<rparr>"
  using assms
  by (auto simp: writer_execute_def peek_inv record_err_inv split: list.splits if_splits sum.splits)

lemma writer_pop_done:
  assumes "writer_pop r w = Queue_done w'" "bq_inv (wq_queue w)"
  obtains x q where "bq_inv q" "bq_items (wq_queue w) = x # bq_items q"
    "w' = w\<lparr>wq_queue := q, wq_stage := (case r of Exec_continue \<Rightarrow> Writer_idle | Exec_stop \<Rightarrow> Writer_stopped)\<rparr>"
    "bq_capacity q = bq_capacity (wq_queue w)"
  using assms by (auto simp: writer_pop_def split: queue_result.splits dest: bq_inv_pop)

lemma in_front_simps [simp]:
  "in_front Writer_idle = 0" "in_front (Writer_executed r) = 1" "in_front Writer_stopped = 0"
  "in_front (case r of Exec_continue \<Rightarrow> Writer_idle | Exec_stop \<Rightarrow> Writer_stopped) = 0"
  by (simp_all add: in_front_def split: exec_result.splits)

lemma pipeline_inv_push:
  assumes "pipeline_inv st db0 (w, waiting, pushed)" "push_wait req w = Queue_done w'"
  shows "pipeline_inv st db0 (w', waiting', pushed @ [req])"
proof -
  from assms(1) obtain n where n: "n \<le> length pushed" "in_front (wq_stage w) \<le> n"
      "execute_all st (take n pushed) db0 = Inr (wq_db w)"
      "\<not> wq_poisoned w \<Longrightarrow> bq_items (wq_queue w) = drop (n - in_front (wq_stage w)) pushed"
    and inv: "bq_inv (wq_queue w)" "wq_write_err w \<noteq> None \<Longrightarrow> wq_poisoned w"
      "wq_poisoned w \<Longrightarrow> wq_stage w = Writer_stopped" by auto
  from push_wait_done [OF assms(2) inv(1)] obtain q where
    q: "w' = w\<lparr>wq_queue := q\<rparr>" "bq_inv q" "bq_items q = bq_items (wq_queue w) @ [req]" .
  have "\<exists>n \<le> length (pushed @ [req]). in_front (wq_stage w') \<le> n \<and> execute_all st (take n (pushed @ [req])) db0 = Inr (wq_db w') \<and>
        (\<not> wq_poisoned w' \<longrightarrow> bq_items (wq_queue w') = drop (n - in_front (wq_stage w')) (pushed @ [req]))"
    using n q by (intro exI [of _ n]) simp
  with inv q(1,2) show ?thesis by simp
qed

lemma pipeline_inv_execute:
  assumes inv: "pipeline_inv st db0 (w, waiting, pushed)" and idle: "wq_stage w = Writer_idle"
    and step: "writer_execute st panics w = Queue_done w'"
  shows "pipeline_inv st db0 (w', waiting, pushed)"
proof -
  from inv idle obtain n where n: "n \<le> length pushed" "execute_all st (take n pushed) db0 = Inr (wq_db w)"
      "bq_items (wq_queue w) = drop n pushed" and
    q: "bq_inv (wq_queue w)" "\<not> wq_poisoned w" "wq_write_err w = None" by auto
  from step q(1) show ?thesis
  proof (cases rule: writer_execute_done)
    case (executed req rs r db')
    with n have d: "drop n pushed = req # rs" by simp
    from nth_via_drop [OF this] d have "n < length pushed" "pushed ! n = req" by (auto intro: ccontr)
    then have "execute_all st (take (Suc n) pushed) db0 = Inr db'"
      using n(2) executed(2) by (simp add: take_Suc_conv_app_nth execute_all_append)
    with executed n q \<open>n < length pushed\<close> show ?thesis by (auto intro: exI [of _ "Suc n"])
  next
    case (failed e)
    with n(1,2) show ?thesis by auto
  qed
qed

lemma pipeline_inv_pop:
  assumes inv: "pipeline_inv st db0 (w, waiting, pushed)" and ex: "wq_stage w = Writer_executed r"
    and step: "writer_pop r w = Queue_done w'"
  shows "pipeline_inv st db0 (w', waiting, pushed)"
proof -
  from inv ex obtain n where n: "n \<le> length pushed" "1 \<le> n" "execute_all st (take n pushed) db0 = Inr (wq_db w)"
      "bq_items (wq_queue w) = drop (n - 1) pushed" and
    q: "bq_inv (wq_queue w)" "\<not> wq_poisoned w" "wq_write_err w = None" by auto
  from writer_pop_done [OF step q(1)] obtain x q' where q': "bq_inv q'" "bq_items (wq_queue w) = x # bq_items q'"
    "w' = w\<lparr>wq_queue := q', wq_stage := (case r of Exec_continue \<Rightarrow> Writer_idle | Exec_stop \<Rightarrow> Writer_stopped)\<rparr>" .
  have "bq_items q' = tl (drop (n - 1) pushed)" using n(4) q'(2) by (metis list.sel(3))
  then have "bq_items q' = drop n pushed" using n(2) by (simp add: drop_Suc [symmetric] tl_drop)
  with n q q' show ?thesis by auto
qed

lemma pipeline_inv_step:
  assumes "pipeline_step st s s'" "pipeline_inv st db0 s"
  shows "pipeline_inv st db0 s'"
  using assms
proof (induction rule: pipeline_step.induct)
  case (p_check w w' waiting pushed req)
  then show ?case using check_err_cases(1) [OF p_check(1)] by simp
next
  case (p_error w e w' waiting pushed)
  then show ?case using check_err_cases(2) [OF p_error(1)] by auto
qed (auto simp del: pipeline_inv.simps intro: pipeline_inv_push pipeline_inv_execute pipeline_inv_pop)

lemma pipeline_inv_reachable:
  "pipeline_steps st (pipeline_start capacity db0) s \<Longrightarrow> pipeline_inv st db0 s"
proof (induction rule: rtranclp_induct)
  case base
  then show ?case by (simp add: pipeline_start_def queue_start_def) (simp add: bq_with_capacity_def)
qed (rule pipeline_inv_step)

section \<open>What a flush and a poisoned queue mean\<close>

lemma flush_executed:
  assumes "pipeline_steps st (pipeline_start capacity db0) (w, waiting, pushed)"
    and flush: "queue_flush w = Queue_done (Inr (), w')"
  shows "w' = w \<and> execute_all st pushed db0 = Inr (wq_db w)"
proof -
  from pipeline_inv_reachable [OF assms(1)] obtain n where n: "n \<le> length pushed"
      "execute_all st (take n pushed) db0 = Inr (wq_db w)"
      "\<not> wq_poisoned w \<Longrightarrow> bq_items (wq_queue w) = drop (n - in_front (wq_stage w)) pushed"
    and inv: "bq_inv (wq_queue w)" by auto
  from flush have ok1: "bq_wait_empty (wq_queue w) \<noteq> Blocked" "check_err w = (Inr (), w')"
    by (auto simp: queue_flush_def split: queue_result.splits)
  note ok = check_err_cases(1) [OF ok1(2)]
  have "bq_items (wq_queue w) = []" using ok1(1) wait_empty_inv [OF inv] by (simp split: if_splits)
  with n(3) ok have "length pushed \<le> n - in_front (wq_stage w)" by simp
  with n(2) ok show ?thesis by simp
qed


lemma poisoned_step:
  assumes "pipeline_step st s s'" "pipeline_inv st db0 s" "wq_poisoned (fst s)"
  shows "wq_poisoned (fst s') \<and> wq_db (fst s') = wq_db (fst s) \<and>
    length (snd (snd s')) + length (fst (snd s')) = length (snd (snd s)) + length (fst (snd s)) \<and>
    length (bq_items (wq_queue (fst s))) \<le> length (bq_items (wq_queue (fst s')))"
  using assms
proof (induction rule: pipeline_step.induct)
  case (p_check w w' waiting pushed req)
  then show ?case using check_err_cases(1) [OF p_check(1)] by simp
next
  case (p_error w e w' waiting pushed)
  then show ?case using check_err_cases(2) [OF p_error(1)] by simp
next
  case (p_push req w w' waiting pushed)
  then have "bq_inv (wq_queue w)" by simp
  from push_wait_done [OF p_push(1) this] obtain q where q: "w' = w\<lparr>wq_queue := q\<rparr>" "bq_items q = bq_items (wq_queue w) @ [req]" .
  from p_push(2) have "length waiting > 0" by auto
  with q p_push(2,4) show ?case by (simp add: length_remove1)
qed auto

lemma poisoned_steps:
  assumes "pipeline_steps st s s'" "pipeline_inv st db0 s" "wq_poisoned (fst s)"
  shows "pipeline_inv st db0 s' \<and> wq_poisoned (fst s') \<and> wq_db (fst s') = wq_db (fst s) \<and>
    length (snd (snd s')) + length (fst (snd s')) = length (snd (snd s)) + length (fst (snd s)) \<and>
    length (bq_items (wq_queue (fst s))) \<le> length (bq_items (wq_queue (fst s')))"
  using assms
proof (induction rule: rtranclp_induct)
  case (step s1 s2)
  from step.IH [OF step.prems] have one: "pipeline_inv st db0 s1" "wq_poisoned (fst s1)" by auto
  from poisoned_step [OF step.hyps(2) one] pipeline_inv_step [OF step.hyps(2) one(1)] step.IH [OF step.prems]
  show ?case by auto
qed simp

lemma check_err_poisoned: "wq_poisoned w \<Longrightarrow> \<exists>e w'. check_err w = (Inl e, w')"
  by (simp add: check_err_def split: option.splits)

text \<open>
  C18. Once the writer has failed the database is never changed again and every later push returns an
  error without queuing anything; only pushes that already were waiting still get through.
\<close>

theorem poisoned_writes_nothing:
  assumes "pipeline_steps st (pipeline_start capacity db0) (w, waiting, pushed)" "wq_poisoned w"
    and "pipeline_steps st (w, waiting, pushed) (w', waiting', pushed')"
  shows "wq_db w' = wq_db w \<and> wq_poisoned w' \<and>
    (\<exists>e w''. queue_push req w' = Queue_done (Inl e, w'') \<and> wq_queue w'' = wq_queue w') \<and>
    length pushed' \<le> length pushed + length waiting"
proof -
  note inv = pipeline_inv_reachable [OF assms(1)]
  from poisoned_steps [OF assms(3) inv] assms(2) have p: "wq_poisoned w'" "wq_db w' = wq_db w"
      "length pushed' + length waiting' = length pushed + length waiting" by auto
  from check_err_poisoned [OF p(1)] obtain e w'' where e: "check_err w' = (Inl e, w'')" by blast
  with check_err_cases(2) [OF e] have "queue_push req w' = Queue_done (Inl e, w'')" "wq_queue w'' = wq_queue w'"
    by (simp_all add: queue_push_def)
  with p show ?thesis by simp
qed


text \<open>A run in which the writer panics on the first request while the second one waits.\<close>

definition panic_queue :: "('db, 'err, 'ds) write_queue \<Rightarrow> ('db, 'err, 'ds) write_queue" where
  "panic_queue w = w\<lparr>wq_write_err := Some SE_WriterPanic, wq_poisoned := True, wq_stage := Writer_stopped\<rparr>"

lemma panic_run:
  fixes st :: "('db, 'err, 'ds) block_store"
  shows "pipeline_steps st (pipeline_start 1 db) (panic_queue (queue_start 1 db), [Req_Stop], [Req_Stop])"
proof -
  let ?w = "queue_start 1 db :: ('db, 'err, 'ds) write_queue"
  let ?q = "\<lparr> bq_capacity = 1, bq_items = [Req_Stop :: 'ds request], bq_push_permits = 0, bq_pop_permits = 1 \<rparr>"
  let ?w1 = "?w\<lparr>wq_queue := ?q\<rparr>"
  have check: "check_err ?w = (Inr (), ?w)" "check_err ?w1 = (Inr (), ?w1)" by (simp_all add: check_err_def queue_start_def)
  have push: "push_wait Req_Stop ?w = Queue_done ?w1"
    by (simp add: push_wait_def queue_start_def bq_push_def bq_with_capacity_def)
  have inv: "bq_inv ?q" by (simp add: bq_inv_def)
  have stage: "wq_stage ?w1 = Writer_idle" by (simp add: queue_start_def)
  have exec: "writer_execute st True ?w1 = Queue_done (panic_queue ?w)"
    using record_err_inv [of ?w1 SE_WriterPanic] peek_inv [OF inv] inv
    by (simp add: writer_execute_def panic_queue_def queue_start_def)
  have s1: "pipeline_step st (?w, [], []) (?w, [Req_Stop], [])" by (rule p_check [OF check(1)])
  have s2: "pipeline_step st (?w, [Req_Stop], []) (?w1, [], [Req_Stop])"
    using p_push [OF push, of "[Req_Stop]" st "[]"] by simp
  have s3: "pipeline_step st (?w1, [], [Req_Stop]) (?w1, [Req_Stop], [Req_Stop])" by (rule p_check [OF check(2)])
  have s4: "pipeline_step st (?w1, [Req_Stop], [Req_Stop]) (panic_queue ?w, [Req_Stop], [Req_Stop])"
    by (rule p_execute [OF stage exec])
  show ?thesis unfolding pipeline_start_def
    by (rule converse_rtranclp_into_rtranclp [OF s1 converse_rtranclp_into_rtranclp [OF s2
          converse_rtranclp_into_rtranclp [OF s3 r_into_rtranclp [where r = "pipeline_step st", OF s4]]]])
qed

definition example_pipeline :: "(unit history, unit, unit) write_queue" where
  "example_pipeline = panic_queue (queue_start 1 (0, []))"


theorem poisoned_writes_nothing_witness:
  "\<exists>e w. queue_push Req_Stop example_pipeline = Queue_done (Inl e, w)"
  using poisoned_writes_nothing [OF panic_run [of "history_store owner_schema" "(0, [])"] _ rtranclp.rtrancl_refl, of Req_Stop]
  unfolding example_pipeline_def by (auto simp: panic_queue_def)


section \<open>Reads between the writes\<close>

lemma pipeline_split:
  assumes inv: "pipeline_inv st db0 (w, waiting, pushed)" and live: "\<not> wq_poisoned w"
  obtains pre db i where "pushed = pre @ bq_items (wq_queue w)" "execute_all st pre db0 = Inr db"
    "execute_all st (take i (bq_items (wq_queue w))) db = Inr (wq_db w)"
proof -
  from inv live obtain n where n: "in_front (wq_stage w) \<le> n" "n \<le> length pushed"
      "execute_all st (take n pushed) db0 = Inr (wq_db w)"
      "bq_items (wq_queue w) = drop (n - in_front (wq_stage w)) pushed" by auto
  let ?i = "in_front (wq_stage w)" and ?m = "n - in_front (wq_stage w)"
  have split: "take n pushed = take ?m pushed @ take ?i (drop ?m pushed)"
    using n(1,2) take_add [of ?m ?i pushed] by simp
  with n(3) obtain db where db: "execute_all st (take ?m pushed) db0 = Inr db"
      "execute_all st (take ?i (drop ?m pushed)) db = Inr (wq_db w)"
    by (auto simp: execute_all_append split: sum.splits)
  have "pushed = take ?m pushed @ bq_items (wq_queue w)" by (simp add: n(4))
  from that [OF this db(1), of ?i] db(2) n(4) show ?thesis by simp
qed

context block_store_laws
begin

lemma pipeline_queue:
  assumes inv: "pipeline_inv st db0 (w, waiting, pushed)" and live: "\<not> wq_poisoned w"
    and ok: "requests_ok (head db0) pushed"
  obtains db i where "requests_ok (head db) (bq_items (wq_queue w))"
    "execute_all st (take i (bq_items (wq_queue w))) db = Inr (wq_db w)"
    "fold v_exec (bq_items (wq_queue w)) (vers db) = fold v_exec pushed (vers db0)"
proof -
  obtain pre db i where pre: "pushed = pre @ bq_items (wq_queue w)" "execute_all st pre db0 = Inr db"
    "execute_all st (take i (bq_items (wq_queue w))) db = Inr (wq_db w)"
    using pipeline_split [OF inv live] .
  from ok have rok: "requests_ok (head db0) pre" "requests_ok (fold head_after pre (head db0)) (bq_items (wq_queue w))"
    by (simp_all add: pre(1) requests_ok_append)
  note law = execute_all_law [OF pre(2) rok(1)]
  from law have "fold v_exec (bq_items (wq_queue w)) (vers db) = fold v_exec pushed (vers db0)"
    unfolding pre(1) by (simp only: fold_append comp_apply)
  with rok(2) law pre(3) show ?thesis by (intro that [of db i]) simp_all
qed

lemma pipeline_get:
  assumes "pipeline_inv st db0 (w, waiting, pushed)" "\<not> wq_poisoned w" "requests_ok (head db0) pushed"
    and "queue_get st (wq_queue w) (wq_db w) k = Inr r"
  shows "same_view r (fold v_exec pushed (vers db0) BLOCK_NUMBER_MAX k) \<and> entity_wf r"
proof -
  obtain db i where q: "requests_ok (head db) (bq_items (wq_queue w))"
    "execute_all st (take i (bq_items (wq_queue w))) db = Inr (wq_db w)"
    "fold v_exec (bq_items (wq_queue w)) (vers db) = fold v_exec pushed (vers db0)"
    using pipeline_queue [OF assms(1-3)] .
  from queue_get_ok [OF q(1,2) assms(4)] q(3) show ?thesis by simp
qed

lemma pipeline_get_many:
  assumes "pipeline_inv st db0 (w, waiting, pushed)" "\<not> wq_poisoned w" "requests_ok (head db0) pushed"
  shows "(\<exists>e. queue_get_many st (wq_queue w) (wq_db w) ks = Return (Inl e)) \<or>
    (\<exists>m. queue_get_many st (wq_queue w) (wq_db w) ks = Return (Inr m) \<and> hm_wf m \<and> fst ` set m \<subseteq> ks \<and>
      (\<forall>k \<in> ks. same_view (map_of m k) (fold v_exec pushed (vers db0) BLOCK_NUMBER_MAX k) \<and> entity_wf (map_of m k)))"
proof -
  obtain db i where q: "requests_ok (head db) (bq_items (wq_queue w))"
    "execute_all st (take i (bq_items (wq_queue w))) db = Inr (wq_db w)"
    "fold v_exec (bq_items (wq_queue w)) (vers db) = fold v_exec pushed (vers db0)"
    using pipeline_queue [OF assms] .
  from queue_get_many_ok [OF q(1,2), of ks] show ?thesis unfolding q(3) .
qed

end

text \<open>
  C4. A read through the queue sees every request that was pushed, in whatever state of execution the
  writer is: reading an entity or many of them returns what the database will hold once all requests,
  writes and reverts, are executed, and the assertion in \<open>get_many\<close> never fails.
\<close>

theorem reads_see_queued_writes:
  assumes "block_store_laws st vers head"
    and "pipeline_steps st (pipeline_start capacity db0) (w, waiting, pushed)" "\<not> wq_poisoned w"
    and "requests_ok (head db0) pushed"
  shows "(\<forall>k r. queue_get st (wq_queue w) (wq_db w) k = Inr r \<longrightarrow>
      same_view r (fold v_exec pushed (vers db0) BLOCK_NUMBER_MAX k)) \<and>
    (\<forall>ks s. queue_get_many st (wq_queue w) (wq_db w) ks \<noteq> Panic s) \<and>
    (\<forall>ks m. queue_get_many st (wq_queue w) (wq_db w) ks = Return (Inr m) \<longrightarrow>
      (\<forall>k. same_view (map_of m k) (if k \<in> ks then fold v_exec pushed (vers db0) BLOCK_NUMBER_MAX k else None)))"
proof -
  note inv = pipeline_inv_reachable [OF assms(2)]
  note many = block_store_laws.pipeline_get_many [OF assms(1) inv assms(3,4)]
  have "same_view r (fold v_exec pushed (vers db0) BLOCK_NUMBER_MAX k)"
    if "queue_get st (wq_queue w) (wq_db w) k = Inr r" for k r
    by (rule block_store_laws.pipeline_get [OF assms(1) inv assms(3,4) that, THEN conjunct1])
  moreover have "queue_get_many st (wq_queue w) (wq_db w) ks \<noteq> Panic s" for ks s
    using many [of ks] by auto
  moreover have "same_view (map_of m k) (if k \<in> ks then fold v_exec pushed (vers db0) BLOCK_NUMBER_MAX k else None)"
    if "queue_get_many st (wq_queue w) (wq_db w) ks = Return (Inr m)" for ks m k
  proof -
    from many [of ks] that have m: "fst ` set m \<subseteq> ks"
        "\<And>k. k \<in> ks \<Longrightarrow> same_view (map_of m k) (fold v_exec pushed (vers db0) BLOCK_NUMBER_MAX k)" by auto
    show ?thesis
    proof (cases "k \<in> ks")
      case False
      with m(1) have "map_of m k = None" by (auto simp: map_of_eq_None_iff)
      with False show ?thesis by simp
    qed (use m(2) in simp)
  qed
  ultimately show ?thesis by simp
qed

definition example_write :: "unit request" where
  "example_write = Req_Write \<lparr>ptr_hash = [1], ptr_number = 1\<rparr> '''' [Mod_Insert example_key [(''id'', V_Bytes [1])]] [] []"

definition example_queue :: "(unit history, unit, unit) write_queue" where
  "example_queue = (queue_start 1 (0, []))
     \<lparr>wq_queue := \<lparr> bq_capacity = 1, bq_items = [example_write], bq_push_permits = 0, bq_pop_permits = 1 \<rparr>\<rparr>"

lemma example_queue_reached:
  "pipeline_steps (history_store owner_schema) (pipeline_start 1 (0, [])) (example_queue, [], [example_write])"
proof -
  let ?w = "queue_start 1 (0, []) :: (unit history, unit, unit) write_queue"
  have "check_err ?w = (Inr (), ?w)" by (simp add: check_err_def queue_start_def)
  from p_check [OF this] have s1: "pipeline_step (history_store owner_schema) (?w, [], []) (?w, [example_write], [])" .
  have push: "push_wait example_write ?w = Queue_done example_queue"
    by (simp add: push_wait_def queue_start_def bq_push_def bq_with_capacity_def example_queue_def)
  from p_push [OF push, of "[example_write]" "history_store owner_schema" "[]"]
  have s2: "pipeline_step (history_store owner_schema) (?w, [example_write], []) (example_queue, [], [example_write])" by simp
  show ?thesis unfolding pipeline_start_def
    by (rule converse_rtranclp_into_rtranclp [OF s1 r_into_rtranclp
          [where r = "pipeline_step (history_store owner_schema)", OF s2]])
qed

theorem reads_see_queued_writes_witness:
  "queue_get (history_store owner_schema) (wq_queue example_queue) (wq_db example_queue) example_key
     = Inr (Some [(''id'', V_Bytes [1])]) \<and>
   same_view (Some [(''id'', V_Bytes [1])])
     (fold v_exec [example_write] (history_versions ((0, []) :: unit history)) BLOCK_NUMBER_MAX example_key)"
proof -
  have get: "queue_get (history_store owner_schema) (wq_queue example_queue) (wq_db example_queue) example_key
     = Inr (Some [(''id'', V_Bytes [1])])"
    by (simp add: queue_get_def bq_find_map_def example_queue_def example_write_def get_step_def tracker_visible_def
        tracker_new_def BLOCK_NUMBER_MAX_def)
  have live: "\<not> wq_poisoned example_queue" by (simp add: example_queue_def queue_start_def)
  have ok: "requests_ok (fst ((0, []) :: unit history)) [example_write]"
    by (simp add: example_write_def BLOCK_NUMBER_MAX_def entity_wf_def)
  from reads_see_queued_writes [OF hist.block_store_laws_axioms example_queue_reached live ok] get show ?thesis by blast
qed

section \<open>The writer gets through the queue\<close>

lemma writer_turn:
  assumes inv: "pipeline_inv st db0 (w, waiting, pushed)" and idle: "wq_stage w = Writer_idle"
    and items: "bq_items (wq_queue w) = req # rs" "req \<noteq> Req_Stop"
    and works: "request_execute st req (wq_db w) = Inr (r, db')"
  shows "\<exists>w'. pipeline_steps st (w, waiting, pushed) (w', waiting, pushed) \<and> wq_stage w' = Writer_idle \<and>
    \<not> wq_poisoned w' \<and> bq_items (wq_queue w') = rs"
proof -
  let ?w1 = "w\<lparr>wq_db := db', wq_stage := Writer_executed Exec_continue\<rparr>"
  from inv idle have q: "bq_inv (wq_queue w)" "\<not> wq_poisoned w" by auto
  have "r = Exec_continue" using works items(2) by (cases req) (auto simp: request_execute_def split: sum.splits)
  with works items q(1) have ex: "writer_execute st False w = Queue_done ?w1" by (simp add: writer_execute_def peek_inv)
  have st1: "wq_stage ?w1 = Writer_executed Exec_continue" by simp
  from items q(1) obtain w' where pop: "writer_pop Exec_continue ?w1 = Queue_done w'" "wq_stage w' = Writer_idle"
      "\<not> wq_poisoned w'" "bq_items (wq_queue w') = rs"
    using q(2) by (simp add: writer_pop_def bq_pop_inv)
  from converse_rtranclp_into_rtranclp [OF p_execute [OF idle ex] r_into_rtranclp
      [where r = "pipeline_step st", OF p_pop [OF st1 pop(1)]]] pop(2-4)
  show ?thesis by blast
qed

lemma writer_drains:
  assumes "pipeline_inv st db0 (w, waiting, pushed)" "wq_stage w = Writer_idle"
    and "Req_Stop \<notin> set (bq_items (wq_queue w))"
    and works: "\<And>req db. \<exists>x. request_execute st req db = Inr x"
  shows "\<exists>w'. pipeline_steps st (w, waiting, pushed) (w', waiting, pushed) \<and> \<not> wq_poisoned w' \<and>
    bq_items (wq_queue w') = []"
  using assms(1-3)
proof (induction "bq_items (wq_queue w)" arbitrary: w)
  case Nil
  then have "\<not> wq_poisoned w" by auto
  with Nil.hyps show ?case by auto
next
  case (Cons req rs)
  from works [of req "wq_db w"] obtain r db' where x: "request_execute st req (wq_db w) = Inr (r, db')" by (metis surj_pair)
  have items: "bq_items (wq_queue w) = req # rs" "req \<noteq> Req_Stop" using Cons.hyps(2) Cons.prems(3) by (metis list.set_intros(1))+
  from writer_turn [OF Cons.prems(1,2) items x] obtain w1 where
    w1: "pipeline_steps st (w, waiting, pushed) (w1, waiting, pushed)" "wq_stage w1 = Writer_idle"
      "bq_items (wq_queue w1) = rs" by blast
  have "pipeline_inv st db0 (w1, waiting, pushed)"
    using w1(1) Cons.prems(1) by (induction rule: rtranclp_induct) (auto simp del: pipeline_inv.simps intro: pipeline_inv_step)
  moreover have "Req_Stop \<notin> set (bq_items (wq_queue w1))" using Cons.prems(3) items(1) w1(3) by simp
  ultimately obtain w' where "pipeline_steps st (w1, waiting, pushed) (w', waiting, pushed)" "\<not> wq_poisoned w'"
      "bq_items (wq_queue w') = []" using Cons.hyps(1) [of w1] w1(2,3) by blast
  with w1(1) show ?case by (blast intro: rtranclp_trans)
qed

text \<open>The writer ends without an error only when it is told to.\<close>

fun stop_inv :: "('db, 'err, 'ds) pipeline \<Rightarrow> bool" where
  "stop_inv (w, waiting, pushed) \<longleftrightarrow>
     (wq_stage w = Writer_stopped \<and> \<not> wq_poisoned w \<or> wq_stage w = Writer_executed Exec_stop \<longrightarrow> Req_Stop \<in> set pushed)"

lemma stop_inv_step:
  assumes "pipeline_step st s s'" "pipeline_inv st db0 s" "stop_inv s"
  shows "stop_inv s'"
  using assms
proof (induction rule: pipeline_step.induct)
  case (p_check w w' waiting pushed req)
  then show ?case using check_err_cases(1) [OF p_check(1)] by simp
next
  case (p_error w e w' waiting pushed)
  then show ?case using check_err_cases(2) [OF p_error(1)] by simp
next
  case (p_push req w w' waiting pushed)
  from p_push(3) have "bq_inv (wq_queue w)" by simp
  from push_wait_done [OF p_push(1) this] obtain q where "w' = w\<lparr>wq_queue := q\<rparr>" .
  with p_push(4) show ?case by auto
next
  case (p_execute w panics w' waiting pushed)
  from p_execute(1,3) have inv: "bq_inv (wq_queue w)" "set (bq_items (wq_queue w)) \<subseteq> set pushed"
    by (auto dest: in_set_dropD)
  from p_execute(2) inv(1) show ?case
  proof (cases rule: writer_execute_done)
    case (executed req rs r db')
    moreover have "req = Req_Stop" if "r = Exec_stop"
      using that executed(2) by (cases req) (auto simp: request_execute_def split: sum.splits)
    ultimately show ?thesis using inv(2) by auto
  qed simp
next
  case (p_pop w r w' waiting pushed)
  from p_pop(3) have "bq_inv (wq_queue w)" by simp
  from writer_pop_done [OF p_pop(2) this] obtain x q where
    "w' = w\<lparr>wq_queue := q, wq_stage := (case r of Exec_continue \<Rightarrow> Writer_idle | Exec_stop \<Rightarrow> Writer_stopped)\<rparr>" .
  with p_pop(1,4) show ?case by (cases r) auto
qed

lemma stop_inv_reachable:
  assumes "pipeline_steps st (pipeline_start capacity db0) s"
  shows "stop_inv s"
  using assms
proof (induction rule: rtranclp_induct)
  case base
  then show ?case by (simp add: pipeline_start_def queue_start_def)
qed (metis stop_inv_step pipeline_inv_reachable)

text \<open>
  C17. Nothing gets stuck: as long as the writer has not been stopped and the database does not fail, the
  writer alone can go on, from every state, until a flush succeeds, and the database then has all requests.
\<close>

theorem writer_finishes:
  assumes reach: "pipeline_steps st (pipeline_start capacity db0) (w, waiting, pushed)"
    and live: "\<not> wq_poisoned w" "Req_Stop \<notin> set pushed"
    and works: "\<And>req db. \<exists>x. request_execute st req db = Inr x"
  shows "\<exists>w'. pipeline_steps st (w, waiting, pushed) (w', waiting, pushed) \<and>
    queue_flush w' = Queue_done (Inr (), w') \<and> execute_all st pushed db0 = Inr (wq_db w')"
proof -
  note inv = pipeline_inv_reachable [OF reach]
  from stop_inv_reachable [OF reach] live have stage: "wq_stage w = Writer_idle \<or> wq_stage w = Writer_executed Exec_continue"
    by (cases "wq_stage w") (auto intro: exec_result.exhaust)
  have "\<exists>w1. pipeline_steps st (w, waiting, pushed) (w1, waiting, pushed) \<and> wq_stage w1 = Writer_idle"
  proof (cases "wq_stage w = Writer_idle")
    case False
    with stage have ex: "wq_stage w = Writer_executed Exec_continue" by blast
    with inv live obtain n where n: "1 \<le> n" "n \<le> length pushed" "bq_items (wq_queue w) = drop (n - 1) pushed" by auto
    from inv have q: "bq_inv (wq_queue w)" by simp
    from n have "bq_items (wq_queue w) \<noteq> []" by auto
    then obtain x rs where "bq_items (wq_queue w) = x # rs" by (meson list.exhaust)
    with q obtain w1 where "writer_pop Exec_continue w = Queue_done w1" "wq_stage w1 = Writer_idle"
      by (simp add: writer_pop_def bq_pop_inv)
    with p_pop [OF ex] show ?thesis by blast
  qed blast
  then obtain w1 where w1: "pipeline_steps st (w, waiting, pushed) (w1, waiting, pushed)" "wq_stage w1 = Writer_idle" by blast
  note reach1 = rtranclp_trans [OF reach w1(1)]
  note inv1 = pipeline_inv_reachable [OF reach1]
  from inv1 w1(2) live(2) have "Req_Stop \<notin> set (bq_items (wq_queue w1))" by (auto dest: in_set_dropD)
  from writer_drains [OF inv1 w1(2) this works] obtain w' where
    w': "pipeline_steps st (w1, waiting, pushed) (w', waiting, pushed)" "\<not> wq_poisoned w'" "bq_items (wq_queue w') = []" by blast
  note inv' = pipeline_inv_reachable [OF rtranclp_trans [OF reach1 w'(1)]]
  then have "bq_inv (wq_queue w')" "wq_write_err w' = None" using w'(2) by auto
  with w'(2,3) have flush: "queue_flush w' = Queue_done (Inr (), w')" by (simp add: queue_flush_def wait_empty_inv check_err_def)
  from inv' w'(2,3) have "execute_all st pushed db0 = Inr (wq_db w')" by auto
  with flush rtranclp_trans [OF w1(1) w'(1)] show ?thesis by blast
qed

lemma history_works: "\<exists>x. request_execute (history_store sch) req db = Inr x"
  by (cases req) (simp_all add: request_execute_def history_store_def)

theorem writer_finishes_witness:
  "\<exists>w' :: (unit history, unit, unit) write_queue. queue_flush w' = Queue_done (Inr (), w') \<and>
     execute_all (history_store owner_schema) [example_write] (0, []) = Inr (wq_db w')"
proof -
  have "\<not> wq_poisoned example_queue" "Req_Stop \<notin> set [example_write]"
    by (simp_all add: example_queue_def queue_start_def example_write_def)
  from writer_finishes [OF example_queue_reached this history_works] show ?thesis by blast
qed

section \<open>Data sources that are still in the queue\<close>

text \<open>
  What requests do to the data sources that are loaded at each block, when none is processed; the sources
  that a write creates have its block as their creation block.
\<close>

type_synonym 'ds sources = "block_number \<Rightarrow> 'ds list"

fun d_exec :: "'ds request \<Rightarrow> 'ds sources \<Rightarrow> 'ds sources" where
  "d_exec (Req_Write p _ _ ds _) v b = (if b < ptr_number p then v b else v b @ ds)"
| "d_exec (Req_RevertTo p _) v b = v (min b (ptr_number p))"
| "d_exec Req_Stop v b = v b"

fun sources_ok :: "('ds \<Rightarrow> block_number option) \<Rightarrow> 'ds request \<Rightarrow> bool" where
  "sources_ok creation_block (Req_Write p _ _ ds processed) \<longleftrightarrow>
     processed = [] \<and> list_all (\<lambda>d. creation_block d = Some (ptr_number p)) ds"
| "sources_ok creation_block r \<longleftrightarrow> True"

lemma leaves_alone_sources: "leaves_alone q r \<Longrightarrow> d_exec r v q = v q"
  by (cases r) (auto simp: min_def)

lemma leaves_alone_sources_all: "list_all (leaves_alone q) rs \<Longrightarrow> fold d_exec rs v q = v q"
  by (induction rs arbitrary: v) (auto simp: leaves_alone_sources)

lemma dds_scan_tracker: "fst (foldl dds_step (t, acc) rs) = fold tracker_update rs t"
proof (induction rs arbitrary: t acc)
  case (Cons r rs)
  obtain acc' where "dds_step (t, acc) r = (tracker_update r t, acc')" by (cases r) (auto simp: dds_step_def Let_def)
  with Cons show ?case by simp
qed simp

text \<open>Sources of a newer block come last when they are sorted.\<close>

lemma sort_key_later:
  assumes "\<And>d. d \<in> set ds \<Longrightarrow> f d = c" "\<And>d. d \<in> set xs \<Longrightarrow> f d < c"
  shows "sort_key f (ds @ xs) = sort_key f xs @ ds"
proof (rule properties_for_sort_key)
  fix k
  have "filter (\<lambda>x. f k = f x) ds = []" if "f k \<noteq> c" using that assms(1) by (auto simp: filter_empty_conv)
  moreover have "filter (\<lambda>x. f k = f x) xs = []" if "f k = c" using that assms(2) by (force simp: filter_empty_conv)
  moreover have "filter (\<lambda>x. f k = f x) (sort_key f xs) = filter (\<lambda>x. f k = f x) xs"
    using sort_key_stable [of f "f k" xs] by (simp add: eq_commute [of "f k"])
  ultimately show "filter (\<lambda>x. f k = f x) (sort_key f xs @ ds) = filter (\<lambda>x. f k = f x) (ds @ xs)" by fastforce
next
  have "sorted (map f ds)" using assms(1) by (induction ds) auto
  then show "sorted (map f (sort_key f xs @ ds))" using assms by (auto simp: sorted_append less_imp_le)
qed simp

text \<open>As in \<open>get_scan\<close>: the sources found so far come after those that the older requests will give.\<close>

lemma dds_scan:
  assumes "requests_ok h (rev rs)" "\<And>b. v b = v (min b h)" "list_all (sources_ok creation_block) rs"
    and "min (trk_block t) (fold head_after (rev rs) h) = min (trk_revert t) (fold head_after (rev rs) h)"
  shows "\<exists>new. snd (foldl dds_step (t, acc) rs) = acc @ new \<and>
    (\<forall>d \<in> set new. \<exists>b. creation_block d = Some b \<and> b \<le> fold head_after (rev rs) h \<and> b \<le> trk_revert t) \<and>
    v (trk_block (fold tracker_update rs t)) @ sort_key creation_block new = fold d_exec (rev rs) v (trk_revert t)"
  using assms(1,3,4)
proof (induction rs arbitrary: t acc)
  case Nil
  then have "min (trk_block t) h = min (trk_revert t) h" by simp
  with assms(2) [of "trk_block t"] assms(2) [of "trk_revert t"] have "v (trk_block t) = v (trk_revert t)" by simp
  then show ?case by simp
next
  case (Cons r rs)
  let ?h = "fold head_after (rev rs) h" and ?t = "tracker_update r t"
  from Cons.prems(1) have ok: "requests_ok h (rev rs)" "request_ok ?h r" by (auto simp: requests_ok_append)
  from Cons.prems(2) have src: "list_all (sources_ok creation_block) rs" "sources_ok creation_block r" by simp_all
  have "min (trk_block ?t) ?h = min (trk_revert ?t) ?h"
    using Cons.prems(3) ok(2) by (cases r) (auto simp: min_def split: if_splits)
  note IH = Cons.IH [OF ok(1) src(1) this]
  show ?case
  proof (cases r)
    case (Req_Write p c mods ds pr)
    from ok(2) src(2) Req_Write have n: "?h < ptr_number p" "pr = []" "\<And>d. d \<in> set ds \<Longrightarrow> creation_block d = Some (ptr_number p)"
      by (auto simp: list_all_iff)
    let ?ds = "if ptr_number p \<le> trk_revert t then ds else []"
    from IH [of "acc @ ?ds"] Req_Write obtain new where new: "snd (foldl dds_step (?t, acc @ ?ds) rs) = acc @ ?ds @ new"
        "\<And>d. d \<in> set new \<Longrightarrow> \<exists>b. creation_block d = Some b \<and> b \<le> ?h \<and> b \<le> trk_revert t"
        "v (trk_block (fold tracker_update rs ?t)) @ sort_key creation_block new = fold d_exec (rev rs) v (trk_revert t)"
      by auto
    have step: "dds_step (t, acc) r = (?t, acc @ ?ds)"
      by (simp add: Req_Write dds_step_def tracker_visible_def n(2))
    have "creation_block d < Some (ptr_number p)" if "d \<in> set new" for d using new(2) [OF that] n(1) by auto
    then have "sort_key creation_block (?ds @ new) = sort_key creation_block new @ ?ds"
      using n(3) by (intro sort_key_later [where c = "Some (ptr_number p)"]) (auto split: if_splits)
    with new(3) have "v (trk_block (fold tracker_update (r # rs) t)) @ sort_key creation_block (?ds @ new) =
        fold d_exec (rev (r # rs)) v (trk_revert t)"
      by (simp add: Req_Write flip: append_assoc)
    moreover have "\<exists>b. creation_block d = Some b \<and> b \<le> fold head_after (rev (r # rs)) h \<and> b \<le> trk_revert t"
      if "d \<in> set (?ds @ new)" for d
      using that new(2) [of d] n(1,3) Req_Write by (auto split: if_splits intro: less_imp_le order_trans)
    ultimately show ?thesis using new(1) unfolding foldl_Cons step by (intro exI [of _ "?ds @ new"]) blast
  next
    case (Req_RevertTo p c)
    from IH [of acc] Req_RevertTo obtain new where "snd (foldl dds_step (?t, acc) rs) = acc @ new"
        "\<forall>d \<in> set new. \<exists>b. creation_block d = Some b \<and> b \<le> ptr_number p \<and> b \<le> trk_revert t"
        "v (trk_block (fold tracker_update rs ?t)) @ sort_key creation_block new =
           fold d_exec (rev rs) v (min (trk_revert t) (ptr_number p))"
      by (simp add: min_le_iff_disj) metis
    moreover have "dds_step (t, acc) r = (?t, acc)" by (simp add: Req_RevertTo dds_step_def)
    ultimately show ?thesis by (simp add: Req_RevertTo)
  next
    case Req_Stop
    from IH [of acc] Req_Stop show ?thesis by (simp add: dds_step_def)
  qed
qed

locale source_store_laws = block_store_laws st vers head
  for st :: "('db, 'err, 'ds) block_store" and vers head +
  fixes srcs :: "'db \<Rightarrow> 'ds sources"
  assumes source_head_law: "srcs db b = srcs db (min b (head db))"
    and source_transact_law: "bst_transact st p c mods ds [] db = Inr db' \<Longrightarrow> head db < ptr_number p \<Longrightarrow>
      srcs db' = d_exec (Req_Write p c mods ds []) (srcs db)"
    and source_revert_law: "bst_revert st p c db = Inr db' \<Longrightarrow> ptr_number p \<le> head db \<Longrightarrow>
      srcs db' = d_exec (Req_RevertTo p c) (srcs db)"
    and load_law: "bst_load_dds st db b = Inr l \<Longrightarrow> l = srcs db b"
begin

lemma execute_sources:
  assumes "request_execute st r db = Inr (x, db')" "request_ok (head db) r" "sources_ok creation_block r"
  shows "srcs db' = d_exec r (srcs db)"
proof (cases r)
  case (Req_Write p c mods ds pr)
  with assms show ?thesis by (auto simp: request_execute_def dest: source_transact_law split: sum.splits)
next
  case (Req_RevertTo p c)
  with assms show ?thesis by (auto simp: request_execute_def dest: source_revert_law split: sum.splits)
next
  case Req_Stop
  with assms(1) show ?thesis by (auto simp: request_execute_def)
qed

lemma execute_all_sources:
  "execute_all st rs db = Inr db' \<Longrightarrow> requests_ok (head db) rs \<Longrightarrow> list_all (sources_ok creation_block) rs \<Longrightarrow>
     srcs db' = fold d_exec rs (srcs db)"
proof (induction rs arbitrary: db)
  case (Cons r rs)
  from Cons.prems(1) obtain x db1 where r: "request_execute st r db = Inr (x, db1)" "execute_all st rs db1 = Inr db'"
    by (auto split: sum.splits)
  with Cons.IH [OF r(2)] execute_law [OF r(1)] execute_sources [OF r(1), of creation_block] Cons.prems(2,3) show ?case by simp
qed simp

lemma pipeline_load:
  assumes inv: "pipeline_inv st db0 (w, waiting, pushed)" "\<not> wq_poisoned w" "requests_ok (head db0) pushed"
    and src: "list_all (sources_ok creation_block) pushed"
    and load: "queue_load_dds creation_block st (wq_queue w) (wq_db w) = Inr l"
  shows "l = fold d_exec pushed (srcs db0) BLOCK_NUMBER_MAX"
proof -
  obtain pre db i where pre: "pushed = pre @ bq_items (wq_queue w)" "execute_all st pre db0 = Inr db"
    "execute_all st (take i (bq_items (wq_queue w))) db = Inr (wq_db w)"
    using pipeline_split [OF inv(1,2)] .
  let ?rs = "rev (bq_items (wq_queue w))"
  define t where "t = fold tracker_update ?rs tracker_new"
  from inv(3) src have ok: "requests_ok (head db0) pre" "requests_ok (head db) (rev ?rs)"
      "list_all (sources_ok creation_block) pre" "list_all (sources_ok creation_block) ?rs"
    using execute_all_law [OF pre(2)] by (auto simp: pre(1) requests_ok_append list_all_iff)
  have "requests_ok (head db) (take i (rev ?rs))"
    using ok(2) requests_ok_append [of "head db" "take i (rev ?rs)" "drop i (rev ?rs)"] by simp
  moreover have "list_all (sources_ok creation_block) (take i (rev ?rs))" using ok(4) by (auto simp: list_all_iff dest: in_set_takeD)
  ultimately have now: "srcs (wq_db w) = fold d_exec (take i (rev ?rs)) (srcs db)"
    using execute_all_sources [OF pre(3)] by simp
  have "list_all (leaves_alone (trk_block t)) (take i (rev ?rs))"
    using tracker_updates_leave_alone [of ?rs tracker_new] by (auto simp: list_all_iff t_def dest: in_set_takeD)
  with now have same: "srcs (wq_db w) (trk_block t) = srcs db (trk_block t)" by (simp add: leaves_alone_sources_all)
  from dds_scan [where v = "srcs db" and h = "head db", OF ok(2) source_head_law ok(4), of tracker_new "[]"] obtain new where
    new: "snd (foldl dds_step (tracker_new, []) ?rs) = new"
      "srcs db (trk_block t) @ sort_key creation_block new = fold d_exec (rev ?rs) (srcs db) BLOCK_NUMBER_MAX"
    by (auto simp: tracker_new_def t_def)
  have "foldl dds_step (tracker_new, []) ?rs = (t, new)"
    using new(1) dds_scan_tracker [of tracker_new "[]" ?rs] by (simp add: t_def prod_eq_iff)
  with load obtain dds where "bst_load_dds st (wq_db w) (trk_block t) = Inr dds" "l = dds @ sort_key creation_block new"
    by (auto simp: queue_load_dds_def bq_fold_def query_block_def split: sum.splits)
  with load_law same new(2) execute_all_sources [OF pre(2) ok(1,3)] show ?thesis by (simp add: pre(1))
qed

end

definition history_sources :: "'ds history \<Rightarrow> 'ds sources" where
  "history_sources db b = concat (map (\<lambda>w. snd (snd w)) (up_to (min b (fst db)) (snd db)))"

interpretation hist_src: source_store_laws "history_store sch" history_versions fst history_sources
proof
  fix p c mods and ds :: "'a list" and db db' :: "'a history"
  assume "bst_transact (history_store sch) p c mods ds [] db = Inr db'" "fst db < ptr_number p"
  then show "history_sources db' = d_exec (Req_Write p c mods ds []) (history_sources db)"
    by (auto simp: fun_eq_iff history_store_def history_sources_def min_def up_to_def [of _ "[_]"])
next
  fix p c and db db' :: "'a history"
  assume "bst_revert (history_store sch) p c db = Inr db'" "ptr_number p \<le> fst db"
  then show "history_sources db' = d_exec (Req_RevertTo p c) (history_sources db)"
    by (auto simp: fun_eq_iff history_store_def history_sources_def min.assoc min_absorb1)
qed (simp_all add: history_sources_def history_store_def)

section \<open>The writer with or without a queue\<close>

datatype ('db, 'err, 'ds) writer = Writer_Sync 'db | Writer_Async "('db, 'err, 'ds) write_queue"

definition writer_new :: "nat \<Rightarrow> 'db \<Rightarrow> ('db, 'err, 'ds) writer" where
  "writer_new capacity db = (if capacity = 0 then Writer_Sync db else Writer_Async (queue_start capacity db))"

type_synonym ('db, 'err, 'ds) writer_result =
  "(('err store_error + unit) \<times> ('db, 'err, 'ds) writer) queue_result"

definition sync_result :: "'db \<Rightarrow> 'err + 'db \<Rightarrow> ('db, 'err, 'ds) writer_result" where
  "sync_result db r =
     Queue_done (case r of Inl e \<Rightarrow> (Inl (SE_Store e), Writer_Sync db) | Inr db' \<Rightarrow> (Inr (), Writer_Sync db'))"

definition async_result ::
    "(('err store_error + unit) \<times> ('db, 'err, 'ds) write_queue) queue_result \<Rightarrow> ('db, 'err, 'ds) writer_result" where
  "async_result r =
     (case r of
        Queue_done (x, w) \<Rightarrow> Queue_done (x, Writer_Async w) | Blocked \<Rightarrow> Blocked | Queue_panic \<Rightarrow> Queue_panic)"

definition writer_write ::
    "('db, 'err, 'ds) block_store \<Rightarrow> block_ptr \<Rightarrow> string \<Rightarrow> entity_modification list \<Rightarrow> 'ds list \<Rightarrow> 'ds list \<Rightarrow>
     ('db, 'err, 'ds) writer \<Rightarrow> ('db, 'err, 'ds) writer_result" where
  "writer_write st p cursor mods data_sources processed wr =
     (case wr of
        Writer_Sync db \<Rightarrow> sync_result db (bst_transact st p cursor mods data_sources processed db)
      | Writer_Async w \<Rightarrow> async_result (queue_push (Req_Write p cursor mods data_sources processed) w))"

definition writer_revert ::
    "('db, 'err, 'ds) block_store \<Rightarrow> block_ptr \<Rightarrow> string \<Rightarrow> ('db, 'err, 'ds) writer \<Rightarrow> ('db, 'err, 'ds) writer_result" where
  "writer_revert st p cursor wr =
     (case wr of
        Writer_Sync db \<Rightarrow> sync_result db (bst_revert st p cursor db)
      | Writer_Async w \<Rightarrow> async_result (queue_push (Req_RevertTo p cursor) w))"

definition writer_flush :: "('db, 'err, 'ds) writer \<Rightarrow> ('db, 'err, 'ds) writer_result" where
  "writer_flush wr =
     (case wr of Writer_Sync db \<Rightarrow> Queue_done (Inr (), wr) | Writer_Async w \<Rightarrow> async_result (queue_flush w))"

definition writer_get ::
    "('db, 'err, 'ds) block_store \<Rightarrow> ('db, 'err, 'ds) writer \<Rightarrow> entity_key \<Rightarrow> 'err + entity option" where
  "writer_get st wr key =
     (case wr of
        Writer_Sync db \<Rightarrow> bst_get st db key BLOCK_NUMBER_MAX
      | Writer_Async w \<Rightarrow> queue_get st (wq_queue w) (wq_db w) key)"

definition writer_get_many ::
    "('db, 'err, 'ds) block_store \<Rightarrow> ('db, 'err, 'ds) writer \<Rightarrow> entity_key set \<Rightarrow>
     ('err + (entity_key, entity) btree_map) outcome" where
  "writer_get_many st wr keys =
     (case wr of
        Writer_Sync db \<Rightarrow> Return (bst_get_many st db keys BLOCK_NUMBER_MAX)
      | Writer_Async w \<Rightarrow> queue_get_many st (wq_queue w) (wq_db w) keys)"

definition writer_load_dds ::
    "('ds \<Rightarrow> block_number option) \<Rightarrow> ('db, 'err, 'ds) block_store \<Rightarrow> ('db, 'err, 'ds) writer \<Rightarrow> 'err + 'ds list" where
  "writer_load_dds creation_block st wr =
     (case wr of
        Writer_Sync db \<Rightarrow> bst_load_dds st db BLOCK_NUMBER_MAX
      | Writer_Async w \<Rightarrow> queue_load_dds creation_block st (wq_queue w) (wq_db w))"

definition writer_poisoned :: "('db, 'err, 'ds) writer \<Rightarrow> bool" where
  "writer_poisoned wr = (case wr of Writer_Sync _ \<Rightarrow> False | Writer_Async w \<Rightarrow> wq_poisoned w)"

definition writer_stop :: "('db, 'err, 'ds) writer \<Rightarrow> ('db, 'err, 'ds) writer_result" where
  "writer_stop wr =
     (case wr of Writer_Sync db \<Rightarrow> Queue_done (Inr (), wr) | Writer_Async w \<Rightarrow> async_result (queue_stop w))"

lemma same_views: "same_view a c \<Longrightarrow> same_view b c \<Longrightarrow> same_view a b"
  using same_view_sym same_view_trans by blast



section \<open>The writable store\<close>

text \<open>
  The operations of \<open>SyncStore\<close> on the deployment itself, which are called on the database directly.
\<close>

datatype unfail_outcome = Unfail_Noop | Unfail_Unfailed

record ('db, 'err) deployment_ops =
  dep_block_ptr :: "'db \<Rightarrow> 'err + block_ptr option"
  dep_block_cursor :: "'db \<Rightarrow> 'err + string"
  dep_start :: "'db \<Rightarrow> 'err + 'db"
  dep_unfail_deterministic_error :: "block_ptr \<Rightarrow> block_ptr \<Rightarrow> 'db \<Rightarrow> 'err + unfail_outcome \<times> 'db"

record ('db, 'err, 'ds) writable_store =
  ws_block_ptr :: "block_ptr option"
  ws_block_cursor :: string
  ws_writer :: "('db, 'err, 'ds) writer"

definition ws_new ::
    "('db, 'err) deployment_ops \<Rightarrow> nat \<Rightarrow> 'db \<Rightarrow> 'err + ('db, 'err, 'ds) writable_store" where
  "ws_new dep write_queue_size db =
     (case dep_block_ptr dep db of
        Inl e \<Rightarrow> Inl e
      | Inr ptr \<Rightarrow>
          (case dep_block_cursor dep db of
             Inl e \<Rightarrow> Inl e
           | Inr cursor \<Rightarrow> Inr \<lparr> ws_block_ptr = ptr, ws_block_cursor = cursor, ws_writer = writer_new write_queue_size db \<rparr>))"

fun writer_db :: "('db, 'err, 'ds) writer \<Rightarrow> 'db" where
  "writer_db (Writer_Sync db) = db"
| "writer_db (Writer_Async w) = wq_db w"

fun with_writer_db :: "'db \<Rightarrow> ('db, 'err, 'ds) writer \<Rightarrow> ('db, 'err, 'ds) writer" where
  "with_writer_db db (Writer_Sync _) = Writer_Sync db"
| "with_writer_db db (Writer_Async w) = Writer_Async (w\<lparr>wq_db := db\<rparr>)"

text \<open>Reading pointer and cursor again; an error can come between the two.\<close>

definition ws_refresh ::
    "('db, 'err) deployment_ops \<Rightarrow> ('db, 'err, 'ds) writable_store \<Rightarrow> ('err + unit) \<times> ('db, 'err, 'ds) writable_store" where
  "ws_refresh dep ws =
     (case dep_block_ptr dep (writer_db (ws_writer ws)) of
        Inl e \<Rightarrow> (Inl e, ws)
      | Inr ptr \<Rightarrow>
          (let ws' = ws\<lparr>ws_block_ptr := ptr\<rparr> in
           case dep_block_cursor dep (writer_db (ws_writer ws)) of
             Inl e \<Rightarrow> (Inl e, ws')
           | Inr cursor \<Rightarrow> (Inr (), ws'\<lparr>ws_block_cursor := cursor\<rparr>)))"

definition ws_start_subgraph_deployment ::
    "('db, 'err) deployment_ops \<Rightarrow> ('db, 'err, 'ds) writable_store \<Rightarrow> ('err + unit) \<times> ('db, 'err, 'ds) writable_store" where
  "ws_start_subgraph_deployment dep ws =
     (case dep_start dep (writer_db (ws_writer ws)) of
        Inl e \<Rightarrow> (Inl e, ws)
      | Inr db \<Rightarrow> ws_refresh dep (ws\<lparr>ws_writer := with_writer_db db (ws_writer ws)\<rparr>))"

definition ws_unfail_deterministic_error ::
    "('db, 'err) deployment_ops \<Rightarrow> block_ptr \<Rightarrow> block_ptr \<Rightarrow> ('db, 'err, 'ds) writable_store \<Rightarrow>
     ('err + unfail_outcome) \<times> ('db, 'err, 'ds) writable_store" where
  "ws_unfail_deterministic_error dep current_ptr parent_ptr ws =
     (case dep_unfail_deterministic_error dep current_ptr parent_ptr (writer_db (ws_writer ws)) of
        Inl e \<Rightarrow> (Inl e, ws)
      | Inr (outcome, db) \<Rightarrow>
          (let ws' = ws\<lparr>ws_writer := with_writer_db db (ws_writer ws)\<rparr> in
           if outcome = Unfail_Unfailed then
             (case ws_refresh dep ws' of (Inl e, ws'') \<Rightarrow> (Inl e, ws'') | (Inr _, ws'') \<Rightarrow> (Inr outcome, ws''))
           else (Inr outcome, ws')))"

type_synonym ('db, 'err, 'ds) store_result =
  "(('err store_error + unit) \<times> ('db, 'err, 'ds) writable_store) queue_result"

definition ws_revert_block_operations ::
    "('db, 'err, 'ds) block_store \<Rightarrow> block_ptr \<Rightarrow> string \<Rightarrow> ('db, 'err, 'ds) writable_store \<Rightarrow>
     ('db, 'err, 'ds) store_result" where
  "ws_revert_block_operations st p cursor ws =
     (let ws' = ws\<lparr>ws_block_ptr := Some p, ws_block_cursor := cursor\<rparr> in
      case writer_revert st p cursor (ws_writer ws') of
        Queue_done (r, wr) \<Rightarrow> Queue_done (r, ws'\<lparr>ws_writer := wr\<rparr>)
      | Blocked \<Rightarrow> Blocked
      | Queue_panic \<Rightarrow> Queue_panic)"

definition ws_transact_block_operations ::
    "('db, 'err, 'ds) block_store \<Rightarrow> block_ptr \<Rightarrow> string \<Rightarrow> entity_modification list \<Rightarrow> 'ds list \<Rightarrow> 'ds list \<Rightarrow>
     ('db, 'err, 'ds) writable_store \<Rightarrow> ('db, 'err, 'ds) store_result" where
  "ws_transact_block_operations st p cursor mods data_sources processed ws =
     (case writer_write st p cursor mods data_sources processed (ws_writer ws) of
        Queue_done (Inl e, wr) \<Rightarrow> Queue_done (Inl e, ws\<lparr>ws_writer := wr\<rparr>)
      | Queue_done (Inr _, wr) \<Rightarrow>
          Queue_done (Inr (), ws\<lparr>ws_writer := wr, ws_block_ptr := Some p, ws_block_cursor := cursor\<rparr>)
      | Blocked \<Rightarrow> Blocked
      | Queue_panic \<Rightarrow> Queue_panic)"

definition ws_flush :: "('db, 'err, 'ds) writable_store \<Rightarrow> ('db, 'err, 'ds) store_result" where
  "ws_flush ws =
     (case writer_flush (ws_writer ws) of
        Queue_done (r, wr) \<Rightarrow> Queue_done (r, ws\<lparr>ws_writer := wr\<rparr>) | Blocked \<Rightarrow> Blocked | Queue_panic \<Rightarrow> Queue_panic)"

text \<open>
  The store as the entity cache sees it. A panic unwinds through the caller: it is an error of its own.
\<close>

definition ws_read_store :: "('db, 'err, 'ds) block_store \<Rightarrow> ('db, 'err, 'ds) writable_store \<Rightarrow> (string + 'err) read_store" where
  "ws_read_store st ws =
     \<lparr> rs_get = (\<lambda>key. case writer_get st (ws_writer ws) key of Inl e \<Rightarrow> Inl (Inr e) | Inr r \<Rightarrow> Inr r),
       rs_get_many = (\<lambda>keys.
         case writer_get_many st (ws_writer ws) keys of
           Panic s \<Rightarrow> Inl (Inl s)
         | Return (Inl e) \<Rightarrow> Inl (Inr e)
         | Return (Inr m) \<Rightarrow> Inr m),
       rs_input_schema = bst_input_schema st \<rparr>"

section \<open>Calls on the writable store\<close>

text \<open>
  A run of the store: calls that return, and the background writer in between. The log has the requests
  that were accepted.
\<close>

inductive store_step ::
    "('db, 'err, 'ds) block_store \<Rightarrow> ('db, 'err, 'ds) writable_store \<times> 'ds request list \<Rightarrow>
     ('db, 'err, 'ds) writable_store \<times> 'ds request list \<Rightarrow> bool" for st where
  s_transact: "ws_transact_block_operations st p cursor mods ds processed ws = Queue_done (Inr (), ws') \<Longrightarrow>
    store_step st (ws, pushed) (ws', pushed @ [Req_Write p cursor mods ds processed])"
| s_transact_error: "ws_transact_block_operations st p cursor mods ds processed ws = Queue_done (Inl e, ws') \<Longrightarrow>
    store_step st (ws, pushed) (ws', pushed)"
| s_revert: "ws_revert_block_operations st p cursor ws = Queue_done (Inr (), ws') \<Longrightarrow>
    store_step st (ws, pushed) (ws', pushed @ [Req_RevertTo p cursor])"
| s_flush: "ws_flush ws = Queue_done (r, ws') \<Longrightarrow> store_step st (ws, pushed) (ws', pushed)"
| s_background: "ws_writer ws = Writer_Async w \<Longrightarrow> pipeline_step st (w, [], pushed) (w', [], pushed) \<Longrightarrow>
    store_step st (ws, pushed) (ws\<lparr>ws_writer := Writer_Async w'\<rparr>, pushed)"

fun ptr_after :: "'ds request \<Rightarrow> block_ptr option \<times> string \<Rightarrow> block_ptr option \<times> string" where
  "ptr_after (Req_Write p cursor _ _ _) _ = (Some p, cursor)"
| "ptr_after (Req_RevertTo p cursor) _ = (Some p, cursor)"
| "ptr_after Req_Stop x = x"

fun writer_ran :: "('db, 'err, 'ds) block_store \<Rightarrow> nat \<Rightarrow> 'db \<Rightarrow> ('db, 'err, 'ds) writer \<Rightarrow> 'ds request list \<Rightarrow> bool" where
  "writer_ran st capacity db0 (Writer_Sync db) pushed \<longleftrightarrow> execute_all st pushed db0 = Inr db"
| "writer_ran st capacity db0 (Writer_Async w) pushed \<longleftrightarrow>
     pipeline_steps st (pipeline_start capacity db0) (w, [], pushed)"

lemma queue_push_steps:
  assumes "queue_push req w = Queue_done (r, w')"
  shows "pipeline_steps st (w, [], pushed) (w', [], if r = Inr () then pushed @ [req] else pushed)"
proof (cases "check_err w")
  case (Pair x w1)
  show ?thesis
  proof (cases x)
    case (Inl e)
    with Pair assms p_error [of w e w1] show ?thesis by (auto simp: queue_push_def)
  next
    case (Inr u)
    with Pair assms have r: "r = Inr ()" and push: "push_wait req w1 = Queue_done w'" and ok: "check_err w = (Inr (), w1)"
      by (auto simp: queue_push_def split: queue_result.splits)
    from p_push [OF push, of "[req]" st pushed] have "pipeline_step st (w1, [req], pushed) (w', [], pushed @ [req])" by simp
    from converse_rtranclp_into_rtranclp [OF p_check [OF ok] r_into_rtranclp [where r = "pipeline_step st", OF this]] r
    show ?thesis by simp
  qed
qed

lemma writer_write_ran:
  assumes "writer_ran st capacity db0 wr pushed" "writer_write st p c mods ds pr wr = Queue_done (r, wr')"
  shows "writer_ran st capacity db0 wr' (if r = Inr () then pushed @ [Req_Write p c mods ds pr] else pushed)"
proof (cases wr)
  case (Writer_Sync db)
  with assms show ?thesis
    by (auto simp: writer_write_def sync_result_def execute_all_append request_execute_def split: sum.splits)
next
  case (Writer_Async w)
  with assms(2) obtain w' where "queue_push (Req_Write p c mods ds pr) w = Queue_done (r, w')" "wr' = Writer_Async w'"
    by (auto simp: writer_write_def async_result_def split: queue_result.splits)
  with queue_push_steps [of _ w r w' st pushed] assms(1) Writer_Async show ?thesis by (auto intro: rtranclp_trans)
qed

lemma writer_revert_ran:
  assumes "writer_ran st capacity db0 wr pushed" "writer_revert st p c wr = Queue_done (r, wr')"
  shows "writer_ran st capacity db0 wr' (if r = Inr () then pushed @ [Req_RevertTo p c] else pushed)"
proof (cases wr)
  case (Writer_Sync db)
  with assms show ?thesis
    by (auto simp: writer_revert_def sync_result_def execute_all_append request_execute_def split: sum.splits)
next
  case (Writer_Async w)
  with assms(2) obtain w' where "queue_push (Req_RevertTo p c) w = Queue_done (r, w')" "wr' = Writer_Async w'"
    by (auto simp: writer_revert_def async_result_def split: queue_result.splits)
  with queue_push_steps [of _ w r w' st pushed] assms(1) Writer_Async show ?thesis by (auto intro: rtranclp_trans)
qed

lemma writer_flush_ran:
  assumes "writer_ran st capacity db0 wr pushed" "writer_flush wr = Queue_done (r, wr')"
  shows "writer_ran st capacity db0 wr' pushed"
proof (cases wr)
  case (Writer_Async w)
  with assms(2) obtain w' where w': "check_err w = (r, w')" "wr' = Writer_Async w'"
    by (auto simp: writer_flush_def async_result_def queue_flush_def split: queue_result.splits prod.splits)
  show ?thesis
  proof (cases r)
    case (Inl e)
    with p_error [of w e w' st "[]" pushed] w' assms(1) Writer_Async show ?thesis
      by (auto intro: rtranclp.rtrancl_into_rtrancl)
  next
    case (Inr u)
    with w' check_err_cases(1) [of w w'] assms(1) Writer_Async show ?thesis by simp
  qed
qed (use assms in \<open>auto simp: writer_flush_def\<close>)

lemma store_step_ran:
  assumes "store_step st s s'" "writer_ran st capacity db0 (ws_writer (fst s)) (snd s)"
    and "(ws_block_ptr (fst s), ws_block_cursor (fst s)) = fold ptr_after (snd s) x"
  shows "writer_ran st capacity db0 (ws_writer (fst s')) (snd s') \<and>
    (ws_block_ptr (fst s'), ws_block_cursor (fst s')) = fold ptr_after (snd s') x"
  using assms
proof (induction rule: store_step.induct)
  case (s_transact p cursor mods ds processed ws ws' pushed)
  then obtain wr where wr: "writer_write st p cursor mods ds processed (ws_writer ws) = Queue_done (Inr (), wr)"
      "ws' = ws\<lparr>ws_writer := wr, ws_block_ptr := Some p, ws_block_cursor := cursor\<rparr>"
    by (auto simp: ws_transact_block_operations_def split: queue_result.splits sum.splits)
  with writer_write_ran [OF _ wr(1)] s_transact(2) show ?case by simp
next
  case (s_transact_error p cursor mods ds processed ws e ws' pushed)
  then obtain wr where wr: "writer_write st p cursor mods ds processed (ws_writer ws) = Queue_done (Inl e, wr)"
      "ws' = ws\<lparr>ws_writer := wr\<rparr>"
    by (auto simp: ws_transact_block_operations_def split: queue_result.splits sum.splits)
  with writer_write_ran [OF _ wr(1)] s_transact_error(2,3) show ?case by simp
next
  case (s_revert p cursor ws ws' pushed)
  then obtain wr where wr: "writer_revert st p cursor (ws_writer ws) = Queue_done (Inr (), wr)"
      "ws' = ws\<lparr>ws_block_ptr := Some p, ws_block_cursor := cursor, ws_writer := wr\<rparr>"
    by (auto simp: ws_revert_block_operations_def split: queue_result.splits)
  with writer_revert_ran [OF _ wr(1)] s_revert(2) show ?case by simp
next
  case (s_flush ws r ws' pushed)
  then obtain wr where wr: "writer_flush (ws_writer ws) = Queue_done (r, wr)" "ws' = ws\<lparr>ws_writer := wr\<rparr>"
    by (auto simp: ws_flush_def split: queue_result.splits)
  with writer_flush_ran [OF _ wr(1)] s_flush(2,3) show ?case by simp
next
  case (s_background ws w pushed w')
  then show ?case by (auto intro: rtranclp.rtrancl_into_rtrancl)
qed

lemma store_steps_ran:
  assumes "ws_new dep capacity db0 = Inr ws0" "(store_step st)\<^sup>*\<^sup>* (ws0, []) s"
  shows "writer_ran st capacity db0 (ws_writer (fst s)) (snd s) \<and>
    (ws_block_ptr (fst s), ws_block_cursor (fst s)) = fold ptr_after (snd s) (ws_block_ptr ws0, ws_block_cursor ws0)"
  using assms(2)
proof (induction rule: rtranclp_induct)
  case base
  show ?case using assms(1) by (auto simp: ws_new_def writer_new_def pipeline_start_def split: sum.splits)
next
  case (step s1 s2)
  from store_step_ran [OF step.hyps(2)] step.IH show ?case by blast
qed

lemma flush_ran:
  assumes "writer_ran st capacity db0 (ws_writer ws) pushed" "ws_flush ws = Queue_done (Inr (), ws')"
  shows "execute_all st pushed db0 = Inr (writer_db (ws_writer ws'))"
proof (cases "ws_writer ws")
  case (Writer_Async w)
  with assms(2) obtain w' where w': "queue_flush w = Queue_done (Inr (), w')" "ws_writer ws' = Writer_Async w'"
    by (auto simp: ws_flush_def writer_flush_def async_result_def split: queue_result.splits)
  with flush_executed [OF _ w'(1)] assms(1) Writer_Async show ?thesis by simp
qed (use assms in \<open>auto simp: ws_flush_def writer_flush_def\<close>)


definition example_deployment :: "(unit history, unit) deployment_ops" where
  "example_deployment = \<lparr> dep_block_ptr = (\<lambda>_. Inr None), dep_block_cursor = (\<lambda>_. Inr ''''), dep_start = Inr,
     dep_unfail_deterministic_error = (\<lambda>_ _ db. Inr (Unfail_Noop, db)) \<rparr>"


end
