(* ===== verification/Block_Processing.thy ===== *)
theory Block_Processing
  imports Writable_Store
begin

text \<open>
  One block, from the handlers to the database: the entity cache of \<open>entity_cache.rs\<close> on top of the writable
  store of \<open>writable.rs\<close>. The lemmas say that the writable store is a store in the sense of the entity cache,
  and that the calls of the handlers leave the LFU cache in a state from which \<open>as_modifications\<close> works.
\<close>

section \<open>The writable store is a store for the entity cache\<close>

lemma writable_read_laws:
  assumes laws: "block_store_laws st vers head" and ran: "writer_ran st capacity db0 (ws_writer ws) pushed"
    and live: "\<not> writer_poisoned (ws_writer ws)" and ok: "requests_ok (head db0) pushed"
  shows "read_store_laws (ws_read_store st ws) (fold v_exec pushed (vers db0) BLOCK_NUMBER_MAX)"
proof (cases "ws_writer ws")
  case (Writer_Sync db)
  with ran have db: "execute_all st pushed db0 = Inr db" by simp
  note S = block_store_laws.execute_all_law [OF laws db ok, THEN conjunct1]
  show ?thesis
  proof
    fix k r
    assume "rs_get (ws_read_store st ws) k = Inr r"
    then have "bst_get st db k BLOCK_NUMBER_MAX = Inr r"
      by (simp add: ws_read_store_def writer_get_def Writer_Sync split: sum.splits)
    from block_store_laws.block_get_law [OF laws this]
    show "same_view r (fold v_exec pushed (vers db0) BLOCK_NUMBER_MAX k) \<and> entity_wf r" by (simp add: S)
  next
    fix ks m
    assume "rs_get_many (ws_read_store st ws) ks = Inr m"
    then have "bst_get_many st db ks BLOCK_NUMBER_MAX = Inr m"
      by (simp add: ws_read_store_def writer_get_many_def Writer_Sync split: sum.splits)
    from block_store_laws.block_get_many_law [OF laws this]
    show "hm_wf m \<and> fst ` set m \<subseteq> ks \<and>
      (\<forall>k \<in> ks. same_view (map_of m k) (fold v_exec pushed (vers db0) BLOCK_NUMBER_MAX k) \<and> entity_wf (map_of m k))"
      by (simp add: S)
  qed
next
  case (Writer_Async w)
  with ran live have inv: "pipeline_inv st db0 (w, [], pushed)" and w: "\<not> wq_poisoned w"
    by (auto simp: writer_poisoned_def simp del: pipeline_inv.simps intro: pipeline_inv_reachable)
  show ?thesis
  proof
    fix k r
    assume "rs_get (ws_read_store st ws) k = Inr r"
    then have "queue_get st (wq_queue w) (wq_db w) k = Inr r"
      by (simp add: ws_read_store_def writer_get_def Writer_Async split: sum.splits)
    then show "same_view r (fold v_exec pushed (vers db0) BLOCK_NUMBER_MAX k) \<and> entity_wf r"
      by (rule block_store_laws.pipeline_get [OF laws inv w ok])
  next
    fix ks m
    assume "rs_get_many (ws_read_store st ws) ks = Inr m"
    then have "queue_get_many st (wq_queue w) (wq_db w) ks = Return (Inr m)"
      by (simp add: ws_read_store_def writer_get_many_def Writer_Async split: sum.splits outcome.splits)
    with block_store_laws.pipeline_get_many [OF laws inv w ok, of ks]
    show "hm_wf m \<and> fst ` set m \<subseteq> ks \<and>
      (\<forall>k \<in> ks. same_view (map_of m k) (fold v_exec pushed (vers db0) BLOCK_NUMBER_MAX k) \<and> entity_wf (map_of m k))"
      by simp
  qed
qed

section \<open>The LFU cache during a block\<close>

definition lfu_good :: "'q entity_queue_ops \<Rightarrow> nat \<Rightarrow> 'q lfu_cache \<Rightarrow> bool" where
  "lfu_good ops n c \<longleftrightarrow> lfu_freq_ok ops n c \<and> lfu_weight_ok ops c \<and> \<not> lfu_dead_weight c \<and> 1 \<le> n"

lemma cache_good_iff: "cache_good ops n T c \<longleftrightarrow> current_ok ops T c \<and> lfu_good ops n c"
  by (auto simp: cache_good_def lfu_good_def)

lemma lfu_good_mono: "lfu_good ops n c \<Longrightarrow> n \<le> n' \<Longrightarrow> lfu_good ops n' c"
  by (fastforce simp: lfu_good_def lfu_freq_ok_def)

context entity_queue
begin

lemma get_entity_lfu_good:
  assumes "lfu_good ops n c" "n < max64"
  shows "lfu_good ops (Suc n) (snd (get_entity ops wt st k c))"
proof -
  obtain r c1 where get: "lfu_get ops k c = (r, c1)" by (cases "lfu_get ops k c")
  then have c1: "c1 = snd (lfu_get_mut ops k c)" "lfu_map ops c1 = lfu_map ops c" "r = lfu_map ops c k"
    using lfu_get_map [of k c] by (auto simp: lfu_get_def Let_def case_prod_beta)
  have good: "lfu_good ops (Suc n) c1"
    using assms get_mut_freq_ok [of n c k] get_mut_weight_ok [of c k] by (simp add: lfu_good_def c1(1) get_mut_fields)
  show ?thesis
  proof (cases r)
    case None
    with c1 have "lfu_map ops c1 k = None" by simp
    with good lfu_insert_fresh_freq_ok lfu_insert_weight_ok have "lfu_good ops (Suc n) (lfu_insert ops wt k e c1)" for e
      by (simp add: lfu_good_def lfu_insert_dead_weight)
    with None good show ?thesis by (simp add: get_entity_def get Let_def split: sum.splits)
  qed (use good in \<open>simp add: get_entity_def get\<close>)
qed

end

lemma entity_op_current: "ec_current (ec_entity_op k op c) = ec_current c" "ec_store (ec_entity_op k op c) = ec_store c"
  by (simp_all add: ec_entity_op_def)

lemma entity_ops_current: "ec_current (fold (\<lambda>x. ec_entity_op (f x) (g x)) xs c) = ec_current c"
  by (induction xs arbitrary: c) (simp_all add: entity_op_current)

lemma handler_ops_current: "ec_current (fold (\<lambda>(k, op). ec_entity_op k op) xs c) = ec_current c"
  by (induction xs arbitrary: c) (auto simp: entity_op_current)

lemma ec_get_current: "ec_current (snd (ec_get ops wt k c)) = snd (get_entity ops wt (ec_store c) k (ec_current c))"
  by (simp add: ec_get_def split: prod.splits sum.splits)

lemma cache_step_current:
  fixes c :: "('q, 'err) entity_cache"
  assumes "cache_step lib ops wt c x c'"
  shows "ec_current c' = ec_current c \<or>
    (\<exists>k. \<exists>st :: 'err read_store. ec_current c' = snd (get_entity ops wt st k (ec_current c)))"
  using assms
proof (induction rule: cache_step.induct)
  case (step_get k c r c')
  with ec_get_current [of ops wt k c] show ?case by (metis snd_conv)
next
  case (step_set e k c r c')
  have get: "ec_current c2 = snd (get_entity ops wt (ec_store c) k (ec_current c))"
    if "ec_get ops wt k (ec_entity_op k (EO_Update e') c) = (r, c2)" for e' r c2
    using that ec_get_current [of ops wt k "ec_entity_op k (EO_Update e') c"] by (simp add: entity_op_current)
  from step_set(2) show ?case
    by (auto simp: ec_set_def Let_def entity_op_current dest!: get
        split: option.splits sum.splits outcome.splits prod.splits)
qed (auto simp: ec_remove_def entity_op_current ec_append_def entity_ops_current handler_ops_current enter_handler_def
    exit_handler_def exit_handler_and_discard_changes_def split: if_splits)

lemma cache_steps_lfu_good:
  assumes "cache_steps lib ops wt c calls c'" "priority_queue ops" "lfu_good ops n (ec_current c)" "n + length calls \<le> max64"
  shows "lfu_good ops (n + length calls) (ec_current c')"
  using assms(1,3,4)
proof (induction arbitrary: n rule: cache_steps.induct)
  case (steps_cons c x c' xs c'')
  from cache_step_current [OF steps_cons.hyps(1)] have "lfu_good ops (Suc n) (ec_current c')"
  proof (elim disjE exE)
    fix k and st :: "'b read_store"
    assume "ec_current c' = snd (get_entity ops wt st k (ec_current c))"
    with entity_queue.get_entity_lfu_good [OF entity_queue.intro [OF assms(2)] steps_cons.prems(1)] steps_cons.prems(2) show ?thesis by simp
  qed (use steps_cons.prems lfu_good_mono in \<open>fastforce\<close>)
  from steps_cons.IH [OF this] steps_cons.prems(2) show ?case by simp
qed simp

section \<open>A block is written and read back\<close>

text \<open>Writing the modifications of a cache puts what the cache shows on top of the versions.\<close>

lemma block_modifications:
  assumes pq: "priority_queue ops" and laws: "read_store_laws st S"
    and good: "cache_good ops n S current" "n + length calls \<le> max64"
    and calls: "cache_steps lib ops wt (with_current st current) calls c" "\<not> ec_in_handler c"
    and immutable: "\<And>k. k \<in> fst ` set (ec_updates c) \<Longrightarrow> is_immutable (ec_schema c) (key_entity_type k) \<Longrightarrow>
      lfu_map ops (ec_current c) k = None \<Longrightarrow> S k = None"
    and mods: "as_modifications ops wt entry_size max_weight c = Return (Inr (mods, current'))"
  shows "\<exists>s. txn_steps lib (rs_input_schema st) (S, None) calls s \<and>
    (\<forall>k. same_view (fold apply_modification mods S k) (now s k)) \<and>
    distinct (map mod_entity_ref mods) \<and> list_all (\<lambda>m. entity_wf (mod_entity m)) mods"
proof -
  from pq laws have cs: "cached_store ops st S" by (rule cached_store.intro)
  from good(1) have cur: "current_ok ops S current" "lfu_good ops n current" by (simp_all add: cache_good_iff)
  from cached_store.cache_steps_simulated [OF cs calls(1) cached_store.new_represents [OF cs cur(1)]]
  obtain s where s: "txn_steps lib (rs_input_schema st) (S, None) calls s"
      "represents ops st S (rs_input_schema st) c s" by blast
  note rep = representsD [OF s(2)]
  have "lfu_good ops (n + length calls) (ec_current c)"
    using cache_steps_lfu_good [OF calls(1) pq _ good(2)] cur(2) by (simp add: with_current_def)
  with rep(4) have cg: "cache_good ops (n + length calls) S (ec_current c)" by (simp add: cache_good_iff)
  from mods calls(2) obtain m where many: "rs_get_many (ec_store c) (set (missing_keys ops c)) = Inr m"
    by (auto simp: as_modifications_def split: sum.splits)
  from laws have st: "read_store_laws (ec_store c) S" by (simp add: rep(1))
  from as_modifications_ok [OF pq st rep(3) calls(2) rep(8) [OF calls(2)] cg immutable many, of wt entry_size max_weight]
  obtain ms cur' pre where ms: "as_modifications ops wt entry_size max_weight c = Return (Inr (ms, cur'))"
      "\<forall>k. same_view (fold apply_modification ms S k) (ec_view S c k)" "distinct (map mod_entity_ref ms)"
      "list_all (needed (lfu_map ops pre) S) ms" by blast
  from mods ms(1) have "ms = mods" by simp
  note r = ms(2-4) [unfolded this]
  have "same_view (fold apply_modification mods S k) (now s k)" for k
    using same_view_trans [OF r(1) [THEN spec] rep(6)] .
  moreover have "list_all (\<lambda>m. entity_wf (mod_entity m)) mods" using r(3) by (auto simp: list_all_iff dest: needed_wf)
  ultimately show ?thesis using s(1) r(2) by blast
qed

lemma written_versions:
  "ptr_number p \<le> BLOCK_NUMBER_MAX \<Longrightarrow>
     fold v_exec (pushed @ [Req_Write p cursor mods ds processed]) v BLOCK_NUMBER_MAX =
     fold apply_modification mods (fold v_exec pushed v BLOCK_NUMBER_MAX)"
  by (simp add: v_write_def)

end
