(* ===== verification/Eth_Trigger.thy ===== *)
theory Eth_Trigger
  imports Writable_Queue "HOL-Library.Option_ord"
begin

text \<open>
  Ethereum blocks and the triggers in them: \<open>graph/src/components/ethereum/types.rs\<close>, the order of triggers
  of \<open>chain/ethereum/src/trigger.rs\<close>, and \<open>BlockWithTriggers::new\<close> of
  \<open>graph/src/blockchain/block_stream.rs\<close>, which puts the triggers of a block in order and removes
  duplicates.

  The types of the \<open>web3\<close> crate are records of the fields that the code uses. \<^const>\<open>None\<close> as a result is
  a panic, from an \<open>unwrap\<close> of a field that pending blocks do not have.
\<close>

section \<open>Blocks, calls and logs\<close>

type_synonym address = "160 word"
type_synonym h256 = "256 word"

record eth_log =
  log_address :: address
  log_topics :: "h256 list"
  log_data :: bytes
  log_block_hash :: "h256 option"
  log_block_number :: "u64 option"
  log_transaction_hash :: "h256 option"
  log_transaction_index :: "u64 option"
  log_index :: "256 word option"

record tx_receipt =
  rc_transaction_hash :: h256
  rc_logs :: "eth_log list"
  rc_status :: "u64 option"

record eth_transaction =
  tx_hash :: h256
  tx_block_hash :: "h256 option"
  tx_block_number :: "u64 option"
  tx_index :: "u64 option"
  tx_from :: "address option"
  tx_rest :: bytes

record light_block =
  blk_hash :: "h256 option"
  blk_number :: "u64 option"
  blk_parent_hash :: h256
  blk_transactions :: "eth_transaction list"

record eth_call =
  call_from :: address
  call_to :: address
  call_value :: "256 word"
  call_gas_used :: "256 word"
  call_input :: bytes
  call_output :: bytes
  call_block_number :: block_number
  call_block_hash :: h256
  call_transaction_hash :: "h256 option"
  call_transaction_index :: u64

record eth_block =
  eb_block :: light_block
  eb_receipts :: "tx_receipt list"

record block_with_calls =
  bwc_block :: eth_block
  bwc_calls :: "eth_call list option"

text \<open>\<open>try_from\<close> an unsigned 64 bit number to a block number, an \<open>i32\<close>.\<close>

definition block_number_of :: "u64 \<Rightarrow> block_number option" where
  "block_number_of n = (if int (unat n) \<le> BLOCK_NUMBER_MAX then Some (int (unat n)) else None)"

definition light_number :: "light_block \<Rightarrow> block_number option" where
  "light_number b = Option.bind (blk_number b) block_number_of"

definition find_transaction :: "h256 option \<Rightarrow> light_block \<Rightarrow> eth_transaction option" where
  "find_transaction h b = Option.bind h (\<lambda>hash. find (\<lambda>tx. tx_hash tx = hash) (blk_transactions b))"

definition transaction_for_log :: "light_block \<Rightarrow> eth_log \<Rightarrow> eth_transaction option" where
  "transaction_for_log b lg = find_transaction (log_transaction_hash lg) b"

definition transaction_for_call :: "light_block \<Rightarrow> eth_call \<Rightarrow> eth_transaction option" where
  "transaction_for_call b call = find_transaction (call_transaction_hash call) b"

text \<open>The bytes of a hash, the most significant first.\<close>

definition fixed_bytes :: "nat \<Rightarrow> 'a :: len word \<Rightarrow> bytes" where
  "fixed_bytes n w = map (\<lambda>i. ucast (drop_bit (8 * (n - 1 - i)) w)) [0..<n]"

definition ptr_of :: "h256 \<Rightarrow> block_number \<Rightarrow> block_ptr" where
  "ptr_of h n = \<lparr>ptr_hash = fixed_bytes 32 h, ptr_number = n\<rparr>"

definition light_block_ptr :: "light_block \<Rightarrow> block_ptr option" where
  "light_block_ptr b =
     Option.bind (blk_hash b) (\<lambda>h. Option.bind (blk_number b) (\<lambda>n. map_option (ptr_of h) (block_number_of n)))"

definition light_parent_ptr :: "light_block \<Rightarrow> block_ptr option option" where
  "light_parent_ptr b =
     map_option (\<lambda>n. if n = 0 then None else Some (ptr_of (blk_parent_hash b) (n - 1))) (light_number b)"

definition evaluate_transaction_status :: "u64 option \<Rightarrow> bool" where
  "evaluate_transaction_status receipt_status = (case receipt_status of None \<Rightarrow> True | Some status \<Rightarrow> status \<noteq> 0)"

definition transaction_for_call_succeeded :: "block_with_calls \<Rightarrow> eth_call \<Rightarrow> string + bool" where
  "transaction_for_call_succeeded b call =
     (case call_transaction_hash call of
        None \<Rightarrow> Inl ''failed to find a transaction for this call''
      | Some hash \<Rightarrow>
          (case find (\<lambda>txn. rc_transaction_hash txn = hash) (eb_receipts (bwc_block b)) of
             None \<Rightarrow> Inl ''failed to find the receipt for this transaction''
           | Some receipt \<Rightarrow> Inr (evaluate_transaction_status (rc_status receipt))))"

text \<open>A trace of a call, with the error of the operation if it had one.\<close>

record call_action =
  act_from :: address
  act_to :: address
  act_value :: "256 word"
  act_input :: bytes

datatype trace_action = Act_Call call_action | Act_Create | Act_Suicide | Act_Reward
datatype trace_result = Res_Call bytes "256 word" | Res_Create | Res_None

record eth_trace =
  trace_error :: "string option"
  trace_action_of :: trace_action
  trace_result_of :: "trace_result option"
  trace_transaction_position :: "u64 option"
  trace_transaction_hash :: "h256 option"
  trace_block_number :: u64
  trace_block_hash :: h256

definition try_from_trace :: "eth_trace \<Rightarrow> eth_call option" where
  "try_from_trace trace =
     (if trace_error trace \<noteq> None then None
      else case trace_action_of trace of
             Act_Call call \<Rightarrow>
               if length (act_input call) < 4 then None
               else (case trace_result_of trace of
                       Some (Res_Call output gas_used) \<Rightarrow>
                         map_option (\<lambda>transaction_index.
                             \<lparr> call_from = act_from call, call_to = act_to call, call_value = act_value call,
                               call_gas_used = gas_used, call_input = act_input call, call_output = output,
                               call_block_number = sint (ucast (trace_block_number trace) :: i32),
                               call_block_hash = trace_block_hash trace,
                               call_transaction_hash = trace_transaction_hash trace,
                               call_transaction_index = transaction_index \<rparr>)
                           (trace_transaction_position trace)
                     | _ \<Rightarrow> None)
           | _ \<Rightarrow> None)"

section \<open>Triggers and their order\<close>

datatype block_trigger_type = Trig_Every | Trig_WithCallTo address

datatype eth_trigger =
    Trig_Block block_ptr block_trigger_type
  | Trig_Call eth_call
  | Trig_Log eth_log "tx_receipt option"

fun trigger_eq :: "eth_trigger \<Rightarrow> eth_trigger \<Rightarrow> bool" where
  "trigger_eq (Trig_Block a_ptr a_kind) (Trig_Block b_ptr b_kind) \<longleftrightarrow> a_ptr = b_ptr \<and> a_kind = b_kind"
| "trigger_eq (Trig_Call a) (Trig_Call b) \<longleftrightarrow> a = b"
| "trigger_eq (Trig_Log a a_receipt) (Trig_Log b b_receipt) \<longleftrightarrow>
     log_transaction_hash a = log_transaction_hash b \<and> log_index a = log_index b \<and> a_receipt = b_receipt"
| "trigger_eq _ _ \<longleftrightarrow> False"

fun trigger_block_number :: "eth_trigger \<Rightarrow> block_number option" where
  "trigger_block_number (Trig_Block p _) = Some (ptr_number p)"
| "trigger_block_number (Trig_Call call) = Some (call_block_number call)"
| "trigger_block_number (Trig_Log lg _) = Option.bind (log_block_number lg) block_number_of"

datatype ordering = Ord_Less | Ord_Equal | Ord_Greater

definition cmp_of :: "'a :: linorder \<Rightarrow> 'a \<Rightarrow> ordering" where
  "cmp_of a b = (if a < b then Ord_Less else if a = b then Ord_Equal else Ord_Greater)"

fun trigger_cmp :: "eth_trigger \<Rightarrow> eth_trigger \<Rightarrow> ordering option" where
  "trigger_cmp (Trig_Block _ _) (Trig_Block _ _) = Some Ord_Equal"
| "trigger_cmp (Trig_Block _ _) _ = Some Ord_Greater"
| "trigger_cmp _ (Trig_Block _ _) = Some Ord_Less"
| "trigger_cmp (Trig_Call a) (Trig_Call b) = Some (cmp_of (call_transaction_index a) (call_transaction_index b))"
| "trigger_cmp (Trig_Log a _) (Trig_Log b _) = Some (cmp_of (log_index a) (log_index b))"
| "trigger_cmp (Trig_Call a) (Trig_Log b _) =
     map_option (\<lambda>i. if call_transaction_index a = i then Ord_Greater else cmp_of (call_transaction_index a) i)
       (log_transaction_index b)"
| "trigger_cmp (Trig_Log a _) (Trig_Call b) =
     map_option (\<lambda>i. if i = call_transaction_index b then Ord_Less else cmp_of i (call_transaction_index b))
       (log_transaction_index a)"

text \<open>
  \<open>Vec::sort\<close>, which is stable, and \<open>Vec::dedup\<close>, which compares with the last element that was kept. An order
  in which some comparison would panic makes the sort panic.
\<close>

fun insert_by :: "('a \<Rightarrow> 'a \<Rightarrow> bool) \<Rightarrow> 'a \<Rightarrow> 'a list \<Rightarrow> 'a list" where
  "insert_by le x [] = [x]"
| "insert_by le x (y # ys) = (if le x y then x # y # ys else y # insert_by le x ys)"

fun sort_by :: "('a \<Rightarrow> 'a \<Rightarrow> bool) \<Rightarrow> 'a list \<Rightarrow> 'a list" where
  "sort_by le [] = []"
| "sort_by le (x # xs) = insert_by le x (sort_by le xs)"

fun dedup_by :: "('a \<Rightarrow> 'a \<Rightarrow> bool) \<Rightarrow> 'a list \<Rightarrow> 'a list" where
  "dedup_by eq (x # y # xs) = (if eq y x then dedup_by eq (x # xs) else x # dedup_by eq (y # xs))"
| "dedup_by eq xs = xs"

definition trigger_le :: "eth_trigger \<Rightarrow> eth_trigger \<Rightarrow> bool" where
  "trigger_le x y \<longleftrightarrow> trigger_cmp x y \<in> {Some Ord_Less, Some Ord_Equal}"

definition block_with_triggers_new :: "'b \<Rightarrow> eth_trigger list \<Rightarrow> ('b \<times> eth_trigger list) option" where
  "block_with_triggers_new block trigger_data =
     (if list_all (\<lambda>x. list_all (\<lambda>y. trigger_cmp x y \<noteq> None) trigger_data) trigger_data
      then Some (block, dedup_by trigger_eq (sort_by trigger_le trigger_data)) else None)"

section \<open>Sorting and removing duplicates\<close>

lemma set_insert_by [simp]: "set (insert_by le x xs) = insert x (set xs)"
  by (induction xs) auto

lemma set_sort_by [simp]: "set (sort_by le xs) = set xs"
  by (induction xs) auto

text \<open>A total preorder on the elements.\<close>

definition orders :: "('a \<Rightarrow> 'a \<Rightarrow> bool) \<Rightarrow> 'a set \<Rightarrow> bool" where
  "orders le A \<longleftrightarrow> (\<forall>a \<in> A. \<forall>b \<in> A. le a b \<or> le b a) \<and>
     (\<forall>a \<in> A. \<forall>b \<in> A. \<forall>c \<in> A. le a b \<longrightarrow> le b c \<longrightarrow> le a c)"

lemma orders_subset: "orders le A \<Longrightarrow> B \<subseteq> A \<Longrightarrow> orders le B"
  unfolding orders_def by blast

lemma orders_trans: "orders le A \<Longrightarrow> a \<in> A \<Longrightarrow> b \<in> A \<Longrightarrow> c \<in> A \<Longrightarrow> le a b \<Longrightarrow> le b c \<Longrightarrow> le a c"
  unfolding orders_def by blast

lemma orders_total: "orders le A \<Longrightarrow> a \<in> A \<Longrightarrow> b \<in> A \<Longrightarrow> \<not> le a b \<Longrightarrow> le b a"
  unfolding orders_def by blast

lemma sorted_insert_by: "orders le (insert x (set xs)) \<Longrightarrow> sorted_wrt le xs \<Longrightarrow> sorted_wrt le (insert_by le x xs)"
proof (induction xs)
  case (Cons y ys)
  show ?case
  proof (cases "le x y")
    case True
    have "le x z" if "z \<in> set ys" for z
      using orders_trans [OF Cons.prems(1), of x y z] Cons.prems(2) True that by simp
    with True Cons.prems(2) show ?thesis by simp
  next
    case False
    have "le y x" using orders_total [OF Cons.prems(1), of x y] False by simp
    moreover have "orders le (insert x (set ys))" using Cons.prems(1) by (rule orders_subset) auto
    from Cons.IH [OF this] Cons.prems(2) have "sorted_wrt le (insert_by le x ys)" by simp
    ultimately show ?thesis using False Cons.prems(2) by simp
  qed
qed simp

lemma sorted_sort_by: "orders le (set xs) \<Longrightarrow> sorted_wrt le (sort_by le xs)"
proof (induction xs)
  case (Cons x xs)
  have "orders le (set xs)" using Cons.prems by (rule orders_subset) auto
  with Cons.IH Cons.prems show ?case by (simp add: sorted_insert_by)
qed simp

lemma set_dedup_by: "set (dedup_by eq xs) \<subseteq> set xs"
  by (induction eq xs rule: dedup_by.induct) (auto split: if_splits)

lemma sorted_dedup_by: "sorted_wrt le xs \<Longrightarrow> sorted_wrt le (dedup_by eq xs)"
proof (induction eq xs rule: dedup_by.induct)
  case (1 eq x y xs)
  then show ?case using set_dedup_by [of eq "y # xs"] by auto
qed auto

lemma dedup_by_head: "\<exists>ys. dedup_by eq (x # xs) = x # ys"
  by (induction xs) auto

lemma dedup_by_keeps:
  "reflp eq \<Longrightarrow> x \<in> set xs \<Longrightarrow> \<exists>y \<in> set (dedup_by eq xs). eq x y"
proof (induction eq xs rule: dedup_by.induct)
  case (1 eq a b xs)
  show ?case
  proof (cases "eq b a")
    case True
    obtain ys where ys: "dedup_by eq (a # xs) = a # ys" using dedup_by_head [of eq a xs] by blast
    show ?thesis
    proof (cases "x = b")
      case False
      with "1.prems" have "x \<in> set (a # xs)" by auto
      from "1.IH"(1) [OF True "1.prems"(1) this] True show ?thesis by simp
    qed (use True ys in simp)
  next
    case False
    show ?thesis
    proof (cases "x = a")
      case True
      with False "1.prems"(1) show ?thesis by (simp add: reflpD)
    next
      case ne: False
      with "1.prems" have "x \<in> set (b # xs)" by auto
      from "1.IH"(2) [OF False "1.prems"(1) this] False show ?thesis by simp
    qed
  qed
qed (auto dest: reflpD)

lemma dedup_by_adjacent: "dedup_by eq xs = as @ x # y # bs \<Longrightarrow> \<not> eq y x"
proof (induction eq xs arbitrary: as rule: dedup_by.induct)
  case (1 eq a b xs)
  show ?case
  proof (cases "eq b a")
    case False
    obtain ys where ys: "dedup_by eq (b # xs) = b # ys" using dedup_by_head [of eq b xs] by blast
    show ?thesis
    proof (cases as)
      case Nil
      with 1(3) False ys show ?thesis by simp
    next
      case (Cons c as')
      with 1(3) False have "dedup_by eq (b # xs) = as' @ x # y # bs" by simp
      from "1.IH"(2) [OF False this] show ?thesis .
    qed
  qed (use 1 in auto)
qed auto

section \<open>The order of triggers\<close>

text \<open>
  What is true of the logs of a block: they have the index of their transaction, and they are
  numbered through in the order of the transactions.
\<close>

fun trigger_logs :: "eth_trigger \<Rightarrow> eth_log list" where
  "trigger_logs (Trig_Log l _) = [l]"
| "trigger_logs _ = []"

definition logs_numbered :: "eth_log set \<Rightarrow> bool" where
  "logs_numbered ls \<longleftrightarrow> (\<forall>a \<in> ls. log_transaction_index a \<noteq> None) \<and>
     (\<forall>a \<in> ls. \<forall>b \<in> ls. log_index a \<le> log_index b \<longrightarrow> log_transaction_index a \<le> log_transaction_index b)"

lemma trigger_le_simps:
  "trigger_le x (Trig_Block p t)"
  "trigger_le (Trig_Block p t) (Trig_Call c) \<longleftrightarrow> False"
  "trigger_le (Trig_Block p t) (Trig_Log l r) \<longleftrightarrow> False"
  "trigger_le (Trig_Call c) (Trig_Call d) \<longleftrightarrow> call_transaction_index c \<le> call_transaction_index d"
  "trigger_le (Trig_Log l r) (Trig_Log k s) \<longleftrightarrow> log_index l \<le> log_index k"
  "log_transaction_index l = Some i \<Longrightarrow> trigger_le (Trig_Call c) (Trig_Log l r) \<longleftrightarrow> call_transaction_index c < i"
  "log_transaction_index l = Some i \<Longrightarrow> trigger_le (Trig_Log l r) (Trig_Call c) \<longleftrightarrow> i \<le> call_transaction_index c"
  by (cases x; auto simp: trigger_le_def cmp_of_def)+

lemma numbered_logs:
  assumes "logs_numbered ls" "a \<in> ls" "b \<in> ls"
  obtains i j where "log_transaction_index a = Some i" "log_transaction_index b = Some j"
    "log_index a \<le> log_index b \<Longrightarrow> i \<le> j" "log_index b \<le> log_index a \<Longrightarrow> j \<le> i"
proof -
  from assms obtain i j where ij: "log_transaction_index a = Some i" "log_transaction_index b = Some j"
    unfolding logs_numbered_def by blast
  have "Some i \<le> Some j" if "log_index a \<le> log_index b" using assms that ij unfolding logs_numbered_def by metis
  moreover have "Some j \<le> Some i" if "log_index b \<le> log_index a" using assms that ij unfolding logs_numbered_def by metis
  ultimately show ?thesis using that [OF ij] by simp
qed

lemma trigger_le_orders:
  assumes ls: "logs_numbered (\<Union>x \<in> A. set (trigger_logs x))"
  shows "orders trigger_le A"
  unfolding orders_def
proof (intro conjI ballI impI)
  fix x y
  assume xy: "x \<in> A" "y \<in> A"
  show "trigger_le x y \<or> trigger_le y x"
  proof (cases x; cases y)
    fix c l r
    assume eq: "x = Trig_Call c" "y = Trig_Log l r"
    with xy ls obtain i where "log_transaction_index l = Some i" by (force simp: logs_numbered_def)
    then show ?thesis by (auto simp: eq trigger_le_simps)
  next
    fix c l r
    assume eq: "x = Trig_Log l r" "y = Trig_Call c"
    with xy ls obtain i where "log_transaction_index l = Some i" by (force simp: logs_numbered_def)
    then show ?thesis by (auto simp: eq trigger_le_simps)
  qed (auto simp: trigger_le_simps)
next
  fix x y z
  assume xyz: "x \<in> A" "y \<in> A" "z \<in> A" and le: "trigger_le x y" "trigger_le y z"
  have log: "l \<in> (\<Union>x \<in> A. set (trigger_logs x))" if "Trig_Log l r \<in> A" for l r using that by force
  have idx: "\<exists>i. log_transaction_index l = Some i" if "Trig_Log l r \<in> A" for l r
    using ls log [OF that] by (auto simp: logs_numbered_def)
  have ord: "\<exists>i j. log_transaction_index l = Some i \<and> log_transaction_index k = Some j \<and>
      (log_index l \<le> log_index k \<longrightarrow> i \<le> j) \<and> (log_index k \<le> log_index l \<longrightarrow> j \<le> i)"
    if "Trig_Log l r \<in> A" "Trig_Log k s \<in> A" for l r k s
    using numbered_logs [OF ls log [OF that(1)] log [OF that(2)]] by metis
  show "trigger_le x z"
  proof (cases z)
    case (Trig_Call c)
    then show ?thesis
    proof (cases x; cases y)
      fix l r k s
      assume eq: "x = Trig_Log l r" "y = Trig_Log k s"
      with ord [of l r k s] xyz le Trig_Call show ?thesis by (auto simp: trigger_le_simps)
    next
      fix l r d
      assume eq: "x = Trig_Log l r" "y = Trig_Call d"
      with idx [of l r] xyz le Trig_Call show ?thesis by (auto simp: trigger_le_simps)
    next
      fix l r d
      assume eq: "x = Trig_Call d" "y = Trig_Log l r"
      with idx [of l r] xyz le Trig_Call show ?thesis by (auto simp: trigger_le_simps)
    qed (use le Trig_Call in \<open>auto simp: trigger_le_simps\<close>)
  next
    case (Trig_Log m q)
    then show ?thesis
    proof (cases x; cases y)
      fix l r d
      assume eq: "x = Trig_Log l r" "y = Trig_Call d"
      with ord [of l r m q] xyz le Trig_Log show ?thesis by (auto simp: trigger_le_simps)
    next
      fix l r d
      assume eq: "x = Trig_Call d" "y = Trig_Log l r"
      with ord [of l r m q] xyz le Trig_Log show ?thesis by (auto simp: trigger_le_simps)
    next
      fix c d
      assume eq: "x = Trig_Call d" "y = Trig_Call c"
      with idx [of m q] xyz le Trig_Log show ?thesis by (auto simp: trigger_le_simps)
    qed (use le Trig_Log in \<open>auto simp: trigger_le_simps\<close>)
  qed (simp add: trigger_le_simps)
qed

lemma trigger_eq_refl: "reflp trigger_eq"
proof (rule reflpI)
  show "trigger_eq x x" for x by (cases x) auto
qed

lemma trigger_cmp_defined:
  assumes "logs_numbered (\<Union>x \<in> set xs. set (trigger_logs x))"
  shows "list_all (\<lambda>x. list_all (\<lambda>y. trigger_cmp x y \<noteq> None) xs) xs"
  unfolding list_all_iff
proof (intro ballI)
  fix x y
  assume xy: "x \<in> set xs" "y \<in> set xs"
  have idx: "log_transaction_index l \<noteq> None" if "Trig_Log l r \<in> set xs" for l r
    using assms that by (force simp: logs_numbered_def)
  show "trigger_cmp x y \<noteq> None"
    by (cases x; cases y) (use xy idx in auto)
qed


definition example_ptr :: block_ptr where
  "example_ptr = \<lparr>ptr_hash = [7], ptr_number = 9\<rparr>"


end
