(* ===== verification/Eth_Data_Source.thy ===== *)
theory Eth_Data_Source
  imports Eth_Trigger
begin

text \<open>
  Data sources of Ethereum subgraphs: \<open>chain/ethereum/src/data_source.rs\<close>.

  The crates \<open>ethabi\<close>, \<open>tiny_keccak\<close> and \<open>serde_json\<close> are the record \<open>eth_lib\<close> of parameters: the hash, the decoding of logs
  and calls into tokens of type \<open>'tok\<close>, the names of parameter types, the parsing of addresses, and the
  conversion of contexts to JSON. The data types of \<open>ethabi\<close> that the code takes apart are written out.
  Strings are the lists of their bytes.
\<close>

section \<open>Contracts, mappings and data sources\<close>

datatype param_type =
    PT_Address | PT_Bytes | PT_Int nat | PT_Uint nat | PT_Bool | PT_String
  | PT_Array param_type | PT_FixedBytes nat | PT_FixedArray param_type nat | PT_Tuple "param_type list"

record event_param =
  evp_name :: string
  evp_kind :: param_type
  evp_indexed :: bool

record abi_event =
  ev_name :: string
  ev_inputs :: "event_param list"

datatype state_mutability = SM_Pure | SM_View | SM_NonPayable | SM_Payable

record abi_param =
  ap_name :: string
  ap_kind :: param_type

record abi_function =
  fn_name :: string
  fn_inputs :: "abi_param list"
  fn_outputs :: "abi_param list"
  fn_mutability :: state_mutability

text \<open>The events and functions of a contract in the order of its iterators.\<close>

record mapping_abi =
  abi_name :: string
  abi_events :: "abi_event list"
  abi_functions :: "abi_function list"

record ('tok, 'json) eth_lib =
  keccak256 :: "bytes \<Rightarrow> h256"
  parse_log :: "abi_event \<Rightarrow> h256 list \<Rightarrow> bytes \<Rightarrow> (string \<times> 'tok) list option"
  decode_input :: "abi_function \<Rightarrow> bytes \<Rightarrow> 'tok list option"
  decode_output :: "abi_function \<Rightarrow> bytes \<Rightarrow> 'tok list option"
  param_type_display :: "param_type \<Rightarrow> string"
  address_from_str :: "string \<Rightarrow> address option"
  context_to_value :: "entity \<Rightarrow> 'json"
  context_from_value :: "'json \<Rightarrow> entity option"

datatype block_handler_filter = BHF_Call

record mapping_block_handler =
  bh_handler :: string
  bh_filter :: "block_handler_filter option"

record mapping_call_handler =
  ch_function :: string
  ch_handler :: string

record mapping_event_handler =
  eh_event :: string
  eh_topic0 :: "h256 option"
  eh_handler :: string
  eh_receipt :: bool

record mapping =
  mp_kind :: string
  mp_api_version :: "nat \<times> nat \<times> nat"
  mp_language :: string
  mp_entities :: "string list"
  mp_abis :: "mapping_abi list"
  mp_block_handlers :: "mapping_block_handler list"
  mp_call_handlers :: "mapping_call_handler list"
  mp_event_handlers :: "mapping_event_handler list"
  mp_runtime :: bytes
  mp_link :: string

record data_source =
  ds_kind :: string
  ds_network :: "string option"
  ds_name :: string
  ds_manifest_idx :: u32
  ds_address :: "address option"
  ds_start_block :: block_number
  ds_mapping :: mapping
  ds_context :: "entity option"
  ds_creation_block :: "block_number option"
  ds_contract_abi :: mapping_abi

record data_source_template =
  dt_kind :: string
  dt_network :: "string option"
  dt_name :: string
  dt_manifest_idx :: u32
  dt_source_abi :: string
  dt_mapping :: mapping

section \<open>Strings\<close>

fun join_with :: "string \<Rightarrow> string list \<Rightarrow> string" where
  "join_with sep [] = []"
| "join_with sep [s] = s"
| "join_with sep (s # ss) = s @ sep @ join_with sep ss"

fun decimal :: "nat \<Rightarrow> string" where
  "decimal n = (if n < 10 then [char_of (48 + n)] else decimal (n div 10) @ [char_of (48 + n mod 10)])"

declare decimal.simps [simp del]

text \<open>\<open>s.replace(pat, "")\<close> for a pattern that is not empty.\<close>

function replace_all :: "string \<Rightarrow> string \<Rightarrow> string" where
  "replace_all pat s =
     (if pat = [] then s
      else if take (length pat) s = pat then replace_all pat (drop (length pat) s)
      else case s of [] \<Rightarrow> [] | c # cs \<Rightarrow> c # replace_all pat cs)"
  by pat_completeness auto
termination
proof (relation "measure (\<lambda>(_, s). length s)", goal_cases)
  case (2 pat s)
  then have "s \<noteq> []" by auto
  with 2 show ?case by simp
qed auto

declare replace_all.simps [simp del]

text \<open>\<open>trim_start_matches\<close>, which takes the prefix off as often as it is there.\<close>

function trim_start :: "string \<Rightarrow> string \<Rightarrow> string" where
  "trim_start pat s =
     (if pat \<noteq> [] \<and> take (length pat) s = pat then trim_start pat (drop (length pat) s) else s)"
  by pat_completeness auto
termination
proof (relation "measure (\<lambda>(_, s). length s)", goal_cases)
  case (2 pat s)
  then have "s \<noteq> []" by auto
  with 2 show ?case by simp
qed auto

declare trim_start.simps [simp del]

definition string_bytes :: "string \<Rightarrow> bytes" where
  "string_bytes s = map (\<lambda>c. word_of_nat (of_char c)) s"

section \<open>Handlers\<close>

definition string_to_h256 :: "('tok, 'json) eth_lib \<Rightarrow> string \<Rightarrow> h256" where
  "string_to_h256 lib s = keccak256 lib (string_bytes (replace_all '' '' s))"

definition topic0 :: "('tok, 'json) eth_lib \<Rightarrow> mapping_event_handler \<Rightarrow> h256" where
  "topic0 lib h =
     (case eh_topic0 h of Some t \<Rightarrow> t | None \<Rightarrow> string_to_h256 lib (replace_all ''indexed '' (eh_event h)))"

text \<open>The first four bytes of the hash of a function signature.\<close>

definition function_selector :: "('tok, 'json) eth_lib \<Rightarrow> mapping_call_handler \<Rightarrow> bytes" where
  "function_selector lib h = take 4 (fixed_bytes 32 (keccak256 lib (string_bytes (ch_function h))))"

definition has_call_handler :: "mapping \<Rightarrow> bool" where
  "has_call_handler m \<longleftrightarrow> mp_call_handlers m \<noteq> []"

definition has_block_handler_with_call_filter :: "mapping \<Rightarrow> bool" where
  "has_block_handler_with_call_filter m \<longleftrightarrow> list_ex (\<lambda>h. bh_filter h = Some BHF_Call) (mp_block_handlers m)"

definition find_abi :: "mapping \<Rightarrow> string \<Rightarrow> mapping_abi option" where
  "find_abi m name = find (\<lambda>abi. abi_name abi = name) (mp_abis m)"

datatype ds_error =
    DE_OffchainTemplate | DE_MissingAddress string | DE_InvalidAddress string | DE_NoAbi string
  | DE_CausalityRegion | DE_AlreadyDone | DE_Context
  | DE_NoTopics | DE_EventNotFound string | DE_MultipleHandlers string | DE_NoTransactionForEvent
  | DE_ShortInput | DE_FunctionNotFound string | DE_ArgumentCount | DE_DecodeOutputs | DE_OutputCount
  | DE_NoTransactionForCall

definition handlers_for_log ::
    "('tok, 'json) eth_lib \<Rightarrow> data_source \<Rightarrow> eth_log \<Rightarrow> ds_error + mapping_event_handler list" where
  "handlers_for_log lib ds lg =
     (case log_topics lg of
        [] \<Rightarrow> Inl DE_NoTopics
      | t # _ \<Rightarrow> Inr (filter (\<lambda>h. t = topic0 lib h) (mp_event_handlers (ds_mapping ds))))"

definition handler_for_call ::
    "('tok, 'json) eth_lib \<Rightarrow> data_source \<Rightarrow> eth_call \<Rightarrow> ds_error + mapping_call_handler option" where
  "handler_for_call lib ds call =
     (if length (call_input call) < 4 then Inl DE_ShortInput
      else Inr (find (\<lambda>h. take 4 (call_input call) = function_selector lib h) (mp_call_handlers (ds_mapping ds))))"

fun handler_for_block :: "data_source \<Rightarrow> block_trigger_type \<Rightarrow> mapping_block_handler option" where
  "handler_for_block ds Trig_Every = find (\<lambda>h. bh_filter h = None) (mp_block_handlers (ds_mapping ds))"
| "handler_for_block ds (Trig_WithCallTo _) = find (\<lambda>h. bh_filter h = Some BHF_Call) (mp_block_handlers (ds_mapping ds))"

section \<open>Events and functions of a contract\<close>

fun event_param_type_signature :: "param_type \<Rightarrow> string" where
  "event_param_type_signature PT_Address = ''address''"
| "event_param_type_signature PT_Bytes = ''bytes''"
| "event_param_type_signature (PT_Int n) = ''int'' @ decimal n"
| "event_param_type_signature (PT_Uint n) = ''uint'' @ decimal n"
| "event_param_type_signature PT_Bool = ''bool''"
| "event_param_type_signature PT_String = ''string''"
| "event_param_type_signature (PT_Array inner) = event_param_type_signature inner @ ''[]''"
| "event_param_type_signature (PT_FixedBytes n) = ''bytes'' @ decimal n"
| "event_param_type_signature (PT_FixedArray inner n) =
     event_param_type_signature inner @ ''['' @ decimal n @ '']''"
| "event_param_type_signature (PT_Tuple components) =
     ''('' @ join_with '','' (map event_param_type_signature components) @ '')''"

definition ambiguous_event_signature :: "abi_event \<Rightarrow> string" where
  "ambiguous_event_signature ev =
     ev_name ev @ ''('' @ join_with '','' (map (\<lambda>i. event_param_type_signature (evp_kind i)) (ev_inputs ev)) @ '')''"

definition event_signature :: "abi_event \<Rightarrow> string" where
  "event_signature ev =
     ev_name ev @ ''('' @
     join_with '','' (map (\<lambda>i. (if evp_indexed i then ''indexed '' else '''') @ event_param_type_signature (evp_kind i))
       (ev_inputs ev)) @ '')''"

text \<open>Without a parenthesis the name is empty, as with \<open>find('(').unwrap_or(0)\<close>.\<close>

definition signature_name :: "string \<Rightarrow> string" where
  "signature_name s = (if CHR ''('' \<in> set s then takeWhile (\<lambda>c. c \<noteq> CHR ''('') s else [])"

definition contract_event_with_signature :: "data_source \<Rightarrow> string \<Rightarrow> abi_event option" where
  "contract_event_with_signature ds signature =
     (case find (\<lambda>ev. event_signature ev = signature) (abi_events (ds_contract_abi ds)) of
        Some ev \<Rightarrow> Some ev
      | None \<Rightarrow>
          (case filter (\<lambda>ev. ev_name ev = signature_name signature) (abi_events (ds_contract_abi ds)) of
             [ev] \<Rightarrow> if ambiguous_event_signature ev = signature then Some ev else None
           | _ \<Rightarrow> None))"

definition function_signature :: "('tok, 'json) eth_lib \<Rightarrow> abi_function \<Rightarrow> string" where
  "function_signature lib f =
     fn_name f @ ''('' @ join_with '','' (map (\<lambda>i. param_type_display lib (ap_kind i)) (fn_inputs f)) @ '')''"

definition contract_function_with_signature ::
    "('tok, 'json) eth_lib \<Rightarrow> data_source \<Rightarrow> string \<Rightarrow> abi_function option" where
  "contract_function_with_signature lib ds target_signature =
     find (\<lambda>f. target_signature = function_signature lib f)
       (filter (\<lambda>f. fn_mutability f = SM_Payable \<or> fn_mutability f = SM_NonPayable)
         (abi_functions (ds_contract_abi ds)))"

section \<open>Matching and decoding\<close>

definition matches_trigger_address :: "data_source \<Rightarrow> eth_trigger \<Rightarrow> bool" where
  "matches_trigger_address ds trigger =
     (case ds_address ds of
        None \<Rightarrow> True
      | Some address \<Rightarrow>
          (case trigger of
             Trig_Block _ (Trig_WithCallTo a) \<Rightarrow> address = a
           | Trig_Call call \<Rightarrow> address = call_to call
           | Trig_Log lg _ \<Rightarrow> address = log_address lg
           | Trig_Block _ Trig_Every \<Rightarrow> True))"

datatype 'tok mapping_trigger =
    MT_Block light_block
  | MT_Log light_block eth_transaction eth_log "(string \<times> 'tok) list" "tx_receipt option"
  | MT_Call light_block eth_transaction eth_call "(string \<times> 'tok) list" "(string \<times> 'tok) list"

record 'tok trigger_with_handler =
  twh_trigger :: "'tok mapping_trigger"
  twh_handler :: string
  twh_block_ptr :: block_ptr

type_synonym 'tok match_result = "(ds_error + 'tok trigger_with_handler option) outcome"

definition with_handler :: "'tok mapping_trigger \<Rightarrow> string \<Rightarrow> light_block \<Rightarrow> 'tok match_result" where
  "with_handler trigger handler b =
     (case light_block_ptr b of
        None \<Rightarrow> Panic ''called `Option::unwrap()` on a `None` value''
      | Some p \<Rightarrow> Return (Inr (Some \<lparr> twh_trigger = trigger, twh_handler = handler, twh_block_ptr = p \<rparr>)))"

text \<open>The handlers with the events of the contract; the first that is not there is an error.\<close>

fun event_abis ::
    "data_source \<Rightarrow> mapping_event_handler list \<Rightarrow> ds_error + (mapping_event_handler \<times> abi_event) list" where
  "event_abis ds [] = Inr []"
| "event_abis ds (h # hs) =
     (case contract_event_with_signature ds (eh_event h) of
        None \<Rightarrow> Inl (DE_EventNotFound (eh_event h))
      | Some ev \<Rightarrow> (case event_abis ds hs of Inl e \<Rightarrow> Inl e | Inr xs \<Rightarrow> Inr ((h, ev) # xs)))"

text \<open>The transaction of an event; an epoch reward of Celo has none and gets a dummy.\<close>

definition log_transaction :: "light_block \<Rightarrow> eth_log \<Rightarrow> (ds_error + eth_transaction) outcome" where
  "log_transaction b lg =
     (if log_transaction_hash lg \<noteq> blk_hash b then
        (case transaction_for_log b lg of
           None \<Rightarrow> Return (Inl DE_NoTransactionForEvent) | Some tx \<Rightarrow> Return (Inr tx))
      else
        (case log_transaction_hash lg of
           None \<Rightarrow> Panic ''called `Option::unwrap()` on a `None` value''
         | Some h \<Rightarrow>
             Return (Inr \<lparr> tx_hash = h, tx_block_hash = blk_hash b, tx_block_number = blk_number b,
                           tx_index = log_transaction_index lg, tx_from = Some 0, tx_rest = [] \<rparr>)))"

definition match_log ::
    "('tok, 'json) eth_lib \<Rightarrow> data_source \<Rightarrow> eth_log \<Rightarrow> tx_receipt option \<Rightarrow> light_block \<Rightarrow> 'tok match_result" where
  "match_log lib ds lg receipt b =
     (case handlers_for_log lib ds lg of
        Inl e \<Rightarrow> Return (Inl e)
      | Inr potential_handlers \<Rightarrow>
          (case event_abis ds potential_handlers of
             Inl e \<Rightarrow> Return (Inl e)
           | Inr valid_handlers \<Rightarrow>
               (let matching_handlers =
                      filter_map (\<lambda>(h, ev). map_option (Pair h) (parse_log lib ev (log_topics lg) (log_data lg))) valid_handlers
                in case rev matching_handlers of
                     [] \<Rightarrow> Return (Inr None)
                   | [(h, params)] \<Rightarrow>
                       (case log_transaction b lg of
                          Panic s \<Rightarrow> Panic s
                        | Return (Inl e) \<Rightarrow> Return (Inl e)
                        | Return (Inr tx) \<Rightarrow> with_handler (MT_Log b tx lg params receipt) (eh_handler h) b)
                   | (h, _) # _ \<Rightarrow> Return (Inl (DE_MultipleHandlers (eh_event h))))))"

definition match_call ::
    "('tok, 'json) eth_lib \<Rightarrow> data_source \<Rightarrow> eth_call \<Rightarrow> light_block \<Rightarrow> 'tok match_result" where
  "match_call lib ds call b =
     (case handler_for_call lib ds call of
        Inl e \<Rightarrow> Return (Inl e)
      | Inr None \<Rightarrow> Return (Inr None)
      | Inr (Some handler) \<Rightarrow>
          (case contract_function_with_signature lib ds (ch_function handler) of
             None \<Rightarrow> Return (Inl (DE_FunctionNotFound (ch_function handler)))
           | Some f \<Rightarrow>
               (case decode_input lib f (drop 4 (call_input call)) of
                  None \<Rightarrow> Return (Inr None)
                | Some tokens \<Rightarrow>
                    if length tokens \<noteq> length (fn_inputs f) then Return (Inl DE_ArgumentCount)
                    else
                      (case decode_output lib f (call_output call) of
                         None \<Rightarrow> Return (Inl DE_DecodeOutputs)
                       | Some out_tokens \<Rightarrow>
                           if length out_tokens \<noteq> length (fn_outputs f) then Return (Inl DE_OutputCount)
                           else
                             (case transaction_for_call b call of
                                None \<Rightarrow> Return (Inl DE_NoTransactionForCall)
                              | Some tx \<Rightarrow>
                                  with_handler
                                    (MT_Call b tx call (zip (map ap_name (fn_inputs f)) tokens)
                                      (zip (map ap_name (fn_outputs f)) out_tokens))
                                    (ch_handler handler) b)))))"

definition match_and_decode ::
    "('tok, 'json) eth_lib \<Rightarrow> data_source \<Rightarrow> eth_trigger \<Rightarrow> light_block \<Rightarrow> 'tok match_result" where
  "match_and_decode lib ds trigger b =
     (if \<not> matches_trigger_address ds trigger then Return (Inr None)
      else case light_number b of
             None \<Rightarrow> Panic ''called `Option::unwrap()` on a `None` value''
           | Some n \<Rightarrow>
               if ds_start_block ds > n then Return (Inr None)
               else case trigger of
                      Trig_Block _ trigger_type \<Rightarrow>
                        (case handler_for_block ds trigger_type of
                           None \<Rightarrow> Return (Inr None)
                         | Some h \<Rightarrow> with_handler (MT_Block b) (bh_handler h) b)
                    | Trig_Log lg receipt \<Rightarrow> match_log lib ds lg receipt b
                    | Trig_Call call \<Rightarrow> match_call lib ds call b)"

section \<open>Creating, storing and checking data sources\<close>

definition from_manifest ::
    "string \<Rightarrow> string option \<Rightarrow> string \<Rightarrow> address option \<Rightarrow> block_number \<Rightarrow> string \<Rightarrow> mapping \<Rightarrow> entity option \<Rightarrow> u32 \<Rightarrow>
     ds_error + data_source" where
  "from_manifest kind network name source_address source_start_block source_abi m context manifest_idx =
     (case find_abi m source_abi of
        None \<Rightarrow> Inl (DE_NoAbi source_abi)
      | Some abi \<Rightarrow>
          Inr \<lparr> ds_kind = kind, ds_network = network, ds_name = name, ds_manifest_idx = manifest_idx,
                ds_address = source_address, ds_start_block = source_start_block, ds_mapping = m, ds_context = context,
                ds_creation_block = None, ds_contract_abi = abi \<rparr>)"

text \<open>A template that is not one of this chain is \<^const>\<open>None\<close>.\<close>

definition from_template_info ::
    "('tok, 'json) eth_lib \<Rightarrow> data_source_template option \<Rightarrow> string list \<Rightarrow> entity option \<Rightarrow> block_number \<Rightarrow>
     ds_error + data_source" where
  "from_template_info lib template_info params context creation_block =
     (case template_info of
        None \<Rightarrow> Inl DE_OffchainTemplate
      | Some template \<Rightarrow>
          (case params of
             [] \<Rightarrow> Inl (DE_MissingAddress (dt_name template))
           | p # _ \<Rightarrow>
               (case address_from_str lib (trim_start ''0x'' p) of
                  None \<Rightarrow> Inl (DE_InvalidAddress (dt_name template))
                | Some address \<Rightarrow>
                    (case find_abi (dt_mapping template) (dt_source_abi template) of
                       None \<Rightarrow> Inl (DE_NoAbi (dt_source_abi template))
                     | Some abi \<Rightarrow>
                         Inr \<lparr> ds_kind = dt_kind template, ds_network = dt_network template, ds_name = dt_name template,
                               ds_manifest_idx = dt_manifest_idx template, ds_address = Some address, ds_start_block = 0,
                               ds_mapping = dt_mapping template, ds_context = context,
                               ds_creation_block = Some creation_block, ds_contract_abi = abi \<rparr>))))"

record 'json stored_data_source =
  sd_manifest_idx :: u32
  sd_param :: "bytes option"
  sd_context :: "'json option"
  sd_creation_block :: "block_number option"
  sd_done_at :: "block_number option"
  sd_causality_region :: int

definition CAUSALITY_ONCHAIN :: int where
  "CAUSALITY_ONCHAIN = 0"

definition as_stored_dynamic_data_source :: "('tok, 'json) eth_lib \<Rightarrow> data_source \<Rightarrow> 'json stored_data_source" where
  "as_stored_dynamic_data_source lib ds =
     \<lparr> sd_manifest_idx = ds_manifest_idx ds, sd_param = map_option (fixed_bytes 20) (ds_address ds),
       sd_context = map_option (context_to_value lib) (ds_context ds), sd_creation_block = ds_creation_block ds,
       sd_done_at = None, sd_causality_region = CAUSALITY_ONCHAIN \<rparr>"

text \<open>\<open>H160::from_slice\<close> panics unless it gets 20 bytes.\<close>

definition address_from_slice :: "bytes \<Rightarrow> address outcome" where
  "address_from_slice bs =
     (if length bs \<noteq> 20 then Panic ''assertion failed''
      else Return (foldl (\<lambda>w b. push_bit 8 w OR ucast b) 0 bs))"

definition from_stored_dynamic_data_source ::
    "('tok, 'json) eth_lib \<Rightarrow> data_source_template \<Rightarrow> 'json stored_data_source \<Rightarrow> (ds_error + data_source) outcome" where
  "from_stored_dynamic_data_source lib template stored =
     (if sd_causality_region stored \<noteq> CAUSALITY_ONCHAIN then Return (Inl DE_CausalityRegion)
      else if sd_done_at stored \<noteq> None then Return (Inl DE_AlreadyDone)
      else case (case sd_context stored of
                   None \<Rightarrow> Some None | Some j \<Rightarrow> map_option Some (context_from_value lib j)) of
             None \<Rightarrow> Return (Inl DE_Context)
           | Some context \<Rightarrow>
               (case find_abi (dt_mapping template) (dt_source_abi template) of
                  None \<Rightarrow> Return (Inl (DE_NoAbi (dt_source_abi template)))
                | Some abi \<Rightarrow>
                    (case (case sd_param stored of
                             None \<Rightarrow> Return None
                           | Some p \<Rightarrow> (case address_from_slice p of Panic s \<Rightarrow> Panic s | Return a \<Rightarrow> Return (Some a))) of
                       Panic s \<Rightarrow> Panic s
                     | Return address \<Rightarrow>
                         Return (Inr \<lparr> ds_kind = dt_kind template, ds_network = dt_network template, ds_name = dt_name template,
                           ds_manifest_idx = sd_manifest_idx stored, ds_address = address, ds_start_block = 0,
                           ds_mapping = dt_mapping template, ds_context = context,
                           ds_creation_block = sd_creation_block stored, ds_contract_abi = abi \<rparr>))))"

definition is_duplicate_of :: "data_source \<Rightarrow> data_source \<Rightarrow> bool" where
  "is_duplicate_of ds other \<longleftrightarrow>
     ds_kind ds = ds_kind other \<and> ds_network ds = ds_network other \<and> ds_name ds = ds_name other \<and>
     ds_manifest_idx ds = ds_manifest_idx other \<and> ds_address ds = ds_address other \<and>
     mp_abis (ds_mapping ds) = mp_abis (ds_mapping other) \<and>
     mp_event_handlers (ds_mapping ds) = mp_event_handlers (ds_mapping other) \<and>
     mp_call_handlers (ds_mapping ds) = mp_call_handlers (ds_mapping other) \<and>
     mp_block_handlers (ds_mapping ds) = mp_block_handlers (ds_mapping other) \<and>
     (case (ds_context ds, ds_context other) of
        (None, None) \<Rightarrow> True | (Some a, Some b) \<Rightarrow> hm_eq a b | _ \<Rightarrow> False)"

datatype validation_error = VE_Kind string | VE_SourceAddressRequired | VE_DuplicateBlockHandlers | VE_ReceiptsUnsupported

definition ETHEREUM_KINDS :: "string list" where
  "ETHEREUM_KINDS = [''ethereum/contract'', ''ethereum'']"

text \<open>Versions are compared by major, minor and patch number.\<close>

fun version_less :: "nat \<times> nat \<times> nat \<Rightarrow> nat \<times> nat \<times> nat \<Rightarrow> bool" where
  "version_less (a, b, c) (x, y, z) \<longleftrightarrow> a < x \<or> a = x \<and> (b < y \<or> b = y \<and> c < z)"

definition ds_validate :: "data_source \<Rightarrow> validation_error list" where
  "ds_validate ds =
     (let m = ds_mapping ds;
          unfiltered = length (filter (\<lambda>h. bh_filter h = None) (mp_block_handlers m));
          filtered = length (filter (\<lambda>h. bh_filter h \<noteq> None) (mp_block_handlers m))
      in (if ds_kind ds \<notin> set ETHEREUM_KINDS then [VE_Kind (ds_kind ds)] else []) @
         (if ds_address ds = None \<and> (mp_call_handlers m \<noteq> [] \<or> mp_block_handlers m \<noteq> [])
          then [VE_SourceAddressRequired] else []) @
         (if unfiltered > 1 \<or> filtered > 1 then [VE_DuplicateBlockHandlers] else []) @
         (if version_less (mp_api_version m) (0, 0, 7) \<and> list_ex eh_receipt (mp_event_handlers m)
          then [VE_ReceiptsUnsupported] else []))"

section \<open>Stored data sources\<close>

lemma length_fixed_bytes [simp]: "length (fixed_bytes n w) = n"
  by (simp add: fixed_bytes_def)

lemma join_bytes: "push_bit 8 (drop_bit 8 v) OR ucast (ucast v :: 8 word) = (v :: 'a :: len word)"
  by (rule bit_word_eqI) (auto simp: bit_simps)

lemma address_from_slice_bytes: "address_from_slice (fixed_bytes 20 a) = Return a"
proof -
  let ?f = "\<lambda>k. foldl (\<lambda>w b. push_bit 8 w OR ucast b) 0 (map (\<lambda>i. ucast (drop_bit (8 * (20 - 1 - i)) a) :: 8 word) [0..<k])"
  have "?f k = drop_bit (8 * (20 - k)) a" if "k \<le> 20" for k
    using that
  proof (induction k)
    case 0
    show ?case by (rule bit_word_eqI) (simp add: bit_simps)
  next
    case (Suc k)
    let ?v = "drop_bit (8 * (19 - k)) a"
    have "drop_bit (8 * (20 - k)) a = drop_bit 8 ?v" using Suc.prems by (simp add: algebra_simps Suc_diff_le)
    with Suc join_bytes [of ?v] show ?case by simp
  qed
  from this [of 20] show ?thesis by (simp add: address_from_slice_def fixed_bytes_def)
qed

text \<open>
  C37. A data source that was created from a template comes back unchanged after it has been stored and loaded,
  if contexts survive their conversion to JSON.
\<close>

theorem stored_data_source_round_trip:
  assumes "\<And>c. context_from_value lib (context_to_value lib c) = Some c"
    and "from_template_info lib (Some template) params context creation_block = Inr ds"
  shows "from_stored_dynamic_data_source lib template (as_stored_dynamic_data_source lib ds) = Return (Inr ds)"
proof -
  from assms(2) obtain address abi where ds: "find_abi (dt_mapping template) (dt_source_abi template) = Some abi"
      "ds = \<lparr> ds_kind = dt_kind template, ds_network = dt_network template, ds_name = dt_name template,
              ds_manifest_idx = dt_manifest_idx template, ds_address = Some address, ds_start_block = 0,
              ds_mapping = dt_mapping template, ds_context = context,
              ds_creation_block = Some creation_block, ds_contract_abi = abi \<rparr>"
    by (auto simp: from_template_info_def split: list.splits option.splits)
  then show ?thesis
    by (cases "context") (simp_all add: from_stored_dynamic_data_source_def as_stored_dynamic_data_source_def
        address_from_slice_bytes assms(1))
qed

definition example_abi :: mapping_abi where
  "example_abi = \<lparr> abi_name = ''Token'', abi_events = [], abi_functions = [] \<rparr>"

definition example_mapping :: mapping where
  "example_mapping = \<lparr> mp_kind = ''ethereum/events'', mp_api_version = (0, 0, 7), mp_language = ''wasm/assemblyscript'',
     mp_entities = [], mp_abis = [example_abi], mp_block_handlers = [], mp_call_handlers = [], mp_event_handlers = [],
     mp_runtime = [], mp_link = '''' \<rparr>"

definition example_template :: data_source_template where
  "example_template = \<lparr> dt_kind = ''ethereum/contract'', dt_network = None, dt_name = ''Token'', dt_manifest_idx = 3,
     dt_source_abi = ''Token'', dt_mapping = example_mapping \<rparr>"

text \<open>A library with a hash that is easy to compute.\<close>

definition example_lib :: "(unit, entity) eth_lib" where
  "example_lib = \<lparr> keccak256 = (\<lambda>bs. word_of_nat (foldl (\<lambda>n b. 256 * n + unat b) 0 bs)), parse_log = (\<lambda>_ _ _. Some []),
     decode_input = (\<lambda>_ _. Some []), decode_output = (\<lambda>_ _. Some []), param_type_display = event_param_type_signature,
     address_from_str = (\<lambda>s. Some (word_of_nat (length s))), context_to_value = id, context_from_value = Some \<rparr>"

theorem stored_data_source_round_trip_witness:
  "\<exists>ds. from_template_info example_lib (Some example_template) [''0x01''] None 7 = Inr ds \<and>
     from_stored_dynamic_data_source example_lib example_template (as_stored_dynamic_data_source example_lib ds) = Return (Inr ds)"
proof -
  obtain ds where "from_template_info example_lib (Some example_template) [''0x01''] None 7 = Inr ds"
    by (simp add: from_template_info_def example_lib_def example_template_def example_mapping_def find_abi_def example_abi_def)
  moreover have "context_from_value example_lib (context_to_value example_lib c) = Some c" for c by (simp add: example_lib_def)
  ultimately show ?thesis using stored_data_source_round_trip by blast
qed

end
