(* ===== verification/Eth_Filter.thy ===== *)
theory Eth_Filter
  imports Eth_Data_Source
begin

text \<open>
  The trigger filters of \<open>chain/ethereum/src/adapter.rs\<close>, which say what to ask the node of a chain for, and the functions
  of \<open>chain/ethereum/src/ethereum_adapter.rs\<close> that turn a block into triggers; \<open>chain/ethereum/src/capabilities.rs\<close>.

  The graph of contracts and events is a \<open>GraphMap\<close> of the crate \<open>petgraph\<close>: the record \<open>graph_ops\<close>, with the documented
  behaviour as the locale \<open>graph_map\<close> and \<open>list_graph\<close> as an instance. A \<open>HashSet\<close> is the list of its elements in its
  iteration order.
\<close>

section \<open>The graph of contracts and events\<close>

datatype log_filter_node = LF_Contract address | LF_Event h256

record 'g graph_ops =
  gm_new :: 'g
  gm_add_edge :: "log_filter_node \<Rightarrow> log_filter_node \<Rightarrow> bool \<Rightarrow> 'g \<Rightarrow> 'g"
  gm_all_edges :: "'g \<Rightarrow> (log_filter_node \<times> log_filter_node \<times> bool) list"
  gm_nodes :: "'g \<Rightarrow> log_filter_node list"
  gm_neighbors :: "log_filter_node \<Rightarrow> 'g \<Rightarrow> log_filter_node list"
  gm_remove_node :: "log_filter_node \<Rightarrow> 'g \<Rightarrow> 'g"

definition gm_edge_count :: "'g graph_ops \<Rightarrow> 'g \<Rightarrow> nat" where
  "gm_edge_count ops g = length (gm_all_edges ops g)"

section \<open>Log filters\<close>

record eth_get_logs_filter =
  glf_contracts :: "address list"
  glf_event_signatures :: "h256 list"

definition from_contract :: "address \<Rightarrow> eth_get_logs_filter" where
  "from_contract a = \<lparr> glf_contracts = [a], glf_event_signatures = [] \<rparr>"

definition from_event :: "h256 \<Rightarrow> eth_get_logs_filter" where
  "from_event e = \<lparr> glf_contracts = [], glf_event_signatures = [e] \<rparr>"

record 'g log_filter =
  lf_graph :: 'g
  lf_wildcard_events :: "(h256, bool) hash_map"

definition log_filter_default :: "'g graph_ops \<Rightarrow> 'g log_filter" where
  "log_filter_default ops = \<lparr> lf_graph = gm_new ops, lf_wildcard_events = [] \<rparr>"

definition log_filter_matches :: "'g graph_ops \<Rightarrow> 'g log_filter \<Rightarrow> eth_log \<Rightarrow> bool" where
  "log_filter_matches ops f lg =
     (case log_topics lg of
        [] \<Rightarrow> False
      | sig # _ \<Rightarrow>
          (let contract = LF_Contract (log_address lg); event = LF_Event sig in
           list_ex (\<lambda>(s, t, _). s = contract \<and> t = event \<or> t = contract \<and> s = event) (gm_all_edges ops (lf_graph f))
           \<or> hm_get (lf_wildcard_events f) sig \<noteq> None))"

text \<open>As in the code, \<open>r\<close> belongs to the first of the two alternatives only.\<close>

definition requires_transaction_receipt :: "'g graph_ops \<Rightarrow> 'g log_filter \<Rightarrow> h256 \<Rightarrow> address option \<Rightarrow> bool" where
  "requires_transaction_receipt ops f event_sig contract_address =
     (if hm_get (lf_wildcard_events f) event_sig = Some True then True
      else case contract_address of
             Some address \<Rightarrow>
               (let contract = LF_Contract address; event = LF_Event event_sig in
                list_ex (\<lambda>(s, t, r). r \<and> (s = contract \<and> t = event) \<or> (t = contract \<and> s = event))
                  (gm_all_edges ops (lf_graph f)))
           | None \<Rightarrow> False)"

definition add_event_handler ::
    "('tok, 'json) eth_lib \<Rightarrow> 'g graph_ops \<Rightarrow> address option \<Rightarrow> mapping_event_handler \<Rightarrow> 'g log_filter \<Rightarrow> 'g log_filter" where
  "add_event_handler lib ops addr h f =
     (case addr of
        Some contract \<Rightarrow>
          f\<lparr>lf_graph := gm_add_edge ops (LF_Contract contract) (LF_Event (topic0 lib h)) (eh_receipt h) (lf_graph f)\<rparr>
      | None \<Rightarrow> f\<lparr>lf_wildcard_events := hm_insert (topic0 lib h) (eh_receipt h) (lf_wildcard_events f)\<rparr>)"

definition log_filter_from_data_sources ::
    "('tok, 'json) eth_lib \<Rightarrow> 'g graph_ops \<Rightarrow> data_source list \<Rightarrow> 'g log_filter" where
  "log_filter_from_data_sources lib ops dss =
     fold (\<lambda>ds. fold (add_event_handler lib ops (ds_address ds)) (mp_event_handlers (ds_mapping ds))) dss
       (log_filter_default ops)"

definition log_filter_from_mapping :: "('tok, 'json) eth_lib \<Rightarrow> 'g graph_ops \<Rightarrow> mapping \<Rightarrow> 'g log_filter" where
  "log_filter_from_mapping lib ops m = fold (add_event_handler lib ops None) (mp_event_handlers m) (log_filter_default ops)"

definition log_filter_is_empty :: "'g graph_ops \<Rightarrow> 'g log_filter \<Rightarrow> bool" where
  "log_filter_is_empty ops f \<longleftrightarrow> gm_edge_count ops (lf_graph f) = 0 \<and> lf_wildcard_events f = []"

definition log_filter_extend :: "'g graph_ops \<Rightarrow> 'g log_filter \<Rightarrow> 'g log_filter \<Rightarrow> 'g log_filter" where
  "log_filter_extend ops other f =
     (if log_filter_is_empty ops other then f
      else \<lparr> lf_graph = fold (\<lambda>(s, t, e). gm_add_edge ops s t e) (gm_all_edges ops (lf_graph other)) (lf_graph f),
             lf_wildcard_events = fold (\<lambda>(k, v). hm_insert k v) (lf_wildcard_events other) (lf_wildcard_events f) \<rparr>)"

text \<open>\<open>max_by_key\<close> takes the last of the largest.\<close>

fun max_by_key :: "('a \<Rightarrow> nat) \<Rightarrow> 'a list \<Rightarrow> 'a option" where
  "max_by_key f [] = None"
| "max_by_key f (x # xs) =
     (case max_by_key f xs of None \<Rightarrow> Some x | Some y \<Rightarrow> if f y \<ge> f x then Some y else Some x)"

definition push_filter ::
    "eth_get_logs_filter \<Rightarrow> eth_get_logs_filter list \<Rightarrow> eth_get_logs_filter list outcome" where
  "push_filter flt filters =
     (if glf_contracts flt = [] \<or> glf_event_signatures flt = [] then Panic ''assertion failed''
      else if length (glf_contracts flt) \<noteq> 1 \<and> length (glf_event_signatures flt) \<noteq> 1 then Panic ''assertion failed''
      else Return (filters @ [flt]))"

fun neighbor_loop ::
    "nat \<Rightarrow> log_filter_node list \<Rightarrow> eth_get_logs_filter \<Rightarrow> eth_get_logs_filter list \<Rightarrow>
     (eth_get_logs_filter \<times> eth_get_logs_filter list) outcome" where
  "neighbor_loop max_contracts [] flt filters = Return (flt, filters)"
| "neighbor_loop max_contracts (LF_Contract a # ns) flt filters =
     (if length (glf_contracts flt) = max_contracts then
        (case glf_event_signatures flt of
           [] \<Rightarrow> Panic ''index out of bounds''
         | e # _ \<Rightarrow>
             (case push_filter flt filters of
                Panic s \<Rightarrow> Panic s
              | Return filters' \<Rightarrow>
                  neighbor_loop max_contracts ns \<lparr> glf_contracts = [a], glf_event_signatures = [e] \<rparr> filters'))
      else neighbor_loop max_contracts ns (flt\<lparr>glf_contracts := glf_contracts flt @ [a]\<rparr>) filters)"
| "neighbor_loop max_contracts (LF_Event e # ns) flt filters =
     neighbor_loop max_contracts ns (flt\<lparr>glf_event_signatures := glf_event_signatures flt @ [e]\<rparr>) filters"

text \<open>The loop over the vertices; every turn takes at least one edge away, which bounds the fuel.\<close>

fun vertex_loop ::
    "nat \<Rightarrow> 'g graph_ops \<Rightarrow> nat \<Rightarrow> 'g \<Rightarrow> eth_get_logs_filter list \<Rightarrow> eth_get_logs_filter list outcome option" where
  "vertex_loop fuel ops max_contracts g filters =
     (if gm_edge_count ops g = 0 then Some (Return filters)
      else case fuel of
             0 \<Rightarrow> None
           | Suc n \<Rightarrow>
               (case max_by_key (\<lambda>v. length (gm_neighbors ops v g)) (gm_nodes ops g) of
                  None \<Rightarrow> Some (Panic ''called `Option::unwrap()` on a `None` value'')
                | Some v \<Rightarrow>
                    (case neighbor_loop max_contracts (gm_neighbors ops v g)
                            (case v of LF_Contract a \<Rightarrow> from_contract a | LF_Event e \<Rightarrow> from_event e) filters of
                       Panic s \<Rightarrow> Some (Panic s)
                     | Return (flt, filters') \<Rightarrow>
                         (case push_filter flt filters' of
                            Panic s \<Rightarrow> Some (Panic s)
                          | Return filters'' \<Rightarrow>
                              vertex_loop n ops max_contracts (gm_remove_node ops v g) filters''))))"

declare vertex_loop.simps [simp del]

definition eth_get_logs_filters ::
    "'g graph_ops \<Rightarrow> nat \<Rightarrow> 'g log_filter \<Rightarrow> eth_get_logs_filter list outcome option" where
  "eth_get_logs_filters ops max_contracts f =
     vertex_loop (gm_edge_count ops (lf_graph f)) ops max_contracts (lf_graph f)
       (map (\<lambda>(e, _). from_event e) (lf_wildcard_events f))"

section \<open>Call filters\<close>

record call_filter =
  cf_contract_signatures :: "(address, block_number \<times> bytes list) hash_map"
  cf_wildcard_signatures :: "bytes list"

definition call_filter_is_empty :: "call_filter \<Rightarrow> bool" where
  "call_filter_is_empty f \<longleftrightarrow> cf_contract_signatures f = [] \<and> cf_wildcard_signatures f = []"

definition call_filter_matches :: "call_filter \<Rightarrow> eth_call \<Rightarrow> bool" where
  "call_filter_matches f call =
     (if length (call_input call) < 4 then False
      else let call_signature = take 4 (call_input call) in
           case hm_get (cf_contract_signatures f) (call_to call) of
             Some (_, sigs) \<Rightarrow>
               sigs = [] \<or> call_signature \<in> set sigs \<or> call_signature \<in> set (cf_wildcard_signatures f)
           | None \<Rightarrow> call_signature \<in> set (cf_wildcard_signatures f))"

definition call_filter_from_mapping :: "('tok, 'json) eth_lib \<Rightarrow> mapping \<Rightarrow> call_filter" where
  "call_filter_from_mapping lib m =
     \<lparr> cf_contract_signatures = [], cf_wildcard_signatures = remdups (map (function_selector lib) (mp_call_handlers m)) \<rparr>"

text \<open>The entry of the address, with the smaller start block and the signature added.\<close>

definition call_entry :: "block_number \<times> address \<times> bytes \<Rightarrow> (address, block_number \<times> bytes list) hash_map \<Rightarrow>
     (address, block_number \<times> bytes list) hash_map" where
  "call_entry x lookup =
     (case x of (start_block, address, sig) \<Rightarrow>
        (let (b, sigs) = (case hm_get lookup address of None \<Rightarrow> (start_block, []) | Some e \<Rightarrow> e)
         in hm_insert address (if b > start_block then start_block else b, List.insert sig sigs) lookup))"

definition call_filter_from_iter :: "(block_number \<times> address \<times> bytes) list \<Rightarrow> call_filter" where
  "call_filter_from_iter xs = \<lparr> cf_contract_signatures = fold call_entry xs [], cf_wildcard_signatures = [] \<rparr>"

definition call_filter_from_data_sources :: "('tok, 'json) eth_lib \<Rightarrow> data_source list \<Rightarrow> call_filter" where
  "call_filter_from_data_sources lib dss =
     call_filter_from_iter
       (concat (filter_map (\<lambda>ds. map_option (\<lambda>addr.
            map (\<lambda>h. (ds_start_block ds, addr, function_selector lib h)) (mp_call_handlers (ds_mapping ds))) (ds_address ds)) dss))"

definition extend_entry :: "address \<times> block_number \<times> bytes list \<Rightarrow> (address, block_number \<times> bytes list) hash_map \<Rightarrow>
     (address, block_number \<times> bytes list) hash_map" where
  "extend_entry x m =
     (case x of (address, proposed_start_block, new_sigs) \<Rightarrow>
        (case hm_get m address of
           Some (b, sigs) \<Rightarrow> hm_insert address (min proposed_start_block b, fold List.insert new_sigs sigs) m
         | None \<Rightarrow> hm_insert address (proposed_start_block, new_sigs) m))"

definition call_filter_extend :: "call_filter \<Rightarrow> call_filter \<Rightarrow> call_filter" where
  "call_filter_extend other f =
     (if call_filter_is_empty other then f
      else \<lparr> cf_contract_signatures = fold extend_entry (cf_contract_signatures other) (cf_contract_signatures f),
             cf_wildcard_signatures = fold List.insert (cf_wildcard_signatures other) (cf_wildcard_signatures f) \<rparr>)"

section \<open>Block filters\<close>

record block_filter =
  bf_contract_addresses :: "(block_number \<times> address) list"
  bf_trigger_every_block :: bool

definition block_filter_default :: block_filter where
  "block_filter_default = \<lparr> bf_contract_addresses = [], bf_trigger_every_block = False \<rparr>"

definition block_filter_is_empty :: "block_filter \<Rightarrow> bool" where
  "block_filter_is_empty f \<longleftrightarrow> (if bf_trigger_every_block f then False else bf_contract_addresses f = [])"

definition find_contract_address :: "(block_number \<times> address) list \<Rightarrow> address \<Rightarrow> (block_number \<times> address) option" where
  "find_contract_address xs candidate = find (\<lambda>(_, a). candidate = a) xs"

definition extend_address :: "block_number \<times> address \<Rightarrow> (block_number \<times> address) list \<Rightarrow> (block_number \<times> address) list" where
  "extend_address other xs =
     (case find_contract_address xs (snd other) of
        Some current \<Rightarrow> if fst other < fst current then List.insert other (removeAll current xs) else xs
      | None \<Rightarrow> List.insert other xs)"

definition block_filter_extend :: "block_filter \<Rightarrow> block_filter \<Rightarrow> block_filter" where
  "block_filter_extend other f =
     (if block_filter_is_empty other then f
      else \<lparr> bf_contract_addresses = fold extend_address (bf_contract_addresses other) (bf_contract_addresses f),
             bf_trigger_every_block = (bf_trigger_every_block f \<or> bf_trigger_every_block other) \<rparr>)"

definition block_filter_from_mapping :: "mapping \<Rightarrow> block_filter" where
  "block_filter_from_mapping m = \<lparr> bf_contract_addresses = [], bf_trigger_every_block = (mp_block_handlers m \<noteq> []) \<rparr>"

definition block_filter_of :: "data_source \<Rightarrow> address \<Rightarrow> block_filter" where
  "block_filter_of ds address =
     \<lparr> bf_contract_addresses =
         (if list_ex (\<lambda>h. bh_filter h = Some BHF_Call) (mp_block_handlers (ds_mapping ds))
          then [(ds_start_block ds, address)] else []),
       bf_trigger_every_block = list_ex (\<lambda>h. bh_filter h = None) (mp_block_handlers (ds_mapping ds)) \<rparr>"

definition block_filter_from_data_sources :: "data_source list \<Rightarrow> block_filter" where
  "block_filter_from_data_sources dss =
     fold (\<lambda>ds f. case ds_address ds of None \<Rightarrow> f | Some address \<Rightarrow> block_filter_extend (block_filter_of ds address) f) dss
       block_filter_default"

definition block_filter_requires_traces :: "block_filter \<Rightarrow> bool" where
  "block_filter_requires_traces f \<longleftrightarrow> bf_contract_addresses f \<noteq> []"

definition call_filter_from_block_filter :: "block_filter \<Rightarrow> call_filter" where
  "call_filter_from_block_filter f =
     \<lparr> cf_contract_signatures = fold (\<lambda>(start_block, address). hm_insert address (start_block, [])) (bf_contract_addresses f) [],
       cf_wildcard_signatures = [] \<rparr>"

section \<open>Trigger filters\<close>

record 'g trigger_filter =
  tf_log :: "'g log_filter"
  tf_call :: call_filter
  tf_block :: block_filter

definition trigger_filter_default :: "'g graph_ops \<Rightarrow> 'g trigger_filter" where
  "trigger_filter_default ops =
     \<lparr> tf_log = log_filter_default ops, tf_call = \<lparr> cf_contract_signatures = [], cf_wildcard_signatures = [] \<rparr>,
       tf_block = block_filter_default \<rparr>"

definition trigger_filter_extend ::
    "('tok, 'json) eth_lib \<Rightarrow> 'g graph_ops \<Rightarrow> data_source list \<Rightarrow> 'g trigger_filter \<Rightarrow> 'g trigger_filter" where
  "trigger_filter_extend lib ops dss f =
     \<lparr> tf_log = log_filter_extend ops (log_filter_from_data_sources lib ops dss) (tf_log f),
       tf_call = call_filter_extend (call_filter_from_data_sources lib dss) (tf_call f),
       tf_block = block_filter_extend (block_filter_from_data_sources dss) (tf_block f) \<rparr>"

definition extend_with_template ::
    "('tok, 'json) eth_lib \<Rightarrow> 'g graph_ops \<Rightarrow> data_source_template list \<Rightarrow> 'g trigger_filter \<Rightarrow> 'g trigger_filter" where
  "extend_with_template lib ops templates f =
     fold (\<lambda>t f. \<lparr> tf_log = log_filter_extend ops (log_filter_from_mapping lib ops (dt_mapping t)) (tf_log f),
                    tf_call = call_filter_extend (call_filter_from_mapping lib (dt_mapping t)) (tf_call f),
                    tf_block = block_filter_extend (block_filter_from_mapping (dt_mapping t)) (tf_block f) \<rparr>) templates f"

definition trigger_filter_requires_traces :: "'g trigger_filter \<Rightarrow> bool" where
  "trigger_filter_requires_traces f \<longleftrightarrow> \<not> call_filter_is_empty (tf_call f) \<or> block_filter_requires_traces (tf_block f)"

record node_capabilities =
  cap_archive :: bool
  cap_traces :: bool

definition trigger_filter_capabilities :: "'g trigger_filter \<Rightarrow> node_capabilities" where
  "trigger_filter_capabilities f = \<lparr> cap_archive = False, cap_traces = trigger_filter_requires_traces f \<rparr>"

text \<open>The messages of the firehose, which \<open>prost\<close> encodes.\<close>

record firehose_log_filter =
  flf_addresses :: "bytes list"
  flf_event_signatures :: "bytes list"

record call_to_filter =
  ctf_addresses :: "bytes list"
  ctf_signatures :: "bytes list"

record combined_filter =
  cbf_log_filters :: "firehose_log_filter list"
  cbf_call_filters :: "call_to_filter list"
  cbf_send_all_block_headers :: bool

definition firehose_log_filters ::
    "'g graph_ops \<Rightarrow> nat \<Rightarrow> 'g log_filter \<Rightarrow> firehose_log_filter list outcome option" where
  "firehose_log_filters ops max_contracts f =
     map_option (\<lambda>r. case r of
         Panic s \<Rightarrow> Panic s
       | Return fs \<Rightarrow> Return (map (\<lambda>x. \<lparr> flf_addresses = map (fixed_bytes 20) (glf_contracts x),
                                       flf_event_signatures = map (fixed_bytes 32) (glf_event_signatures x) \<rparr>) fs))
       (eth_get_logs_filters ops max_contracts f)"

definition call_to_filters :: "call_filter \<Rightarrow> call_to_filter list" where
  "call_to_filters f =
     (if call_filter_is_empty f then []
      else map (\<lambda>(addr, _, sigs). \<lparr> ctf_addresses = [fixed_bytes 20 addr], ctf_signatures = sigs \<rparr>) (cf_contract_signatures f) @
           (if cf_wildcard_signatures f \<noteq> [] then [\<lparr> ctf_addresses = [], ctf_signatures = cf_wildcard_signatures f \<rparr>] else []))"

definition block_call_to_filters :: "block_filter \<Rightarrow> call_to_filter list" where
  "block_call_to_filters f =
     map (\<lambda>addr. \<lparr> ctf_addresses = [fixed_bytes 20 addr], ctf_signatures = [] \<rparr>)
       (remdups_adj (sort (map snd (bf_contract_addresses f))))"

definition to_firehose_filter ::
    "(combined_filter \<Rightarrow> bytes) \<Rightarrow> 'g graph_ops \<Rightarrow> nat \<Rightarrow> 'g trigger_filter \<Rightarrow> (string \<times> bytes) list outcome option" where
  "to_firehose_filter encode ops max_contracts f =
     map_option (\<lambda>r. case r of
         Panic s \<Rightarrow> Panic s
       | Return log_filters \<Rightarrow>
           (let call_filters = call_to_filters (tf_call f) @ block_call_to_filters (tf_block f);
                every = bf_trigger_every_block (tf_block f)
            in Return (if call_filters = [] \<and> log_filters = [] \<and> \<not> every then []
                       else [(''type.googleapis.com/sf.ethereum.transform.v1.CombinedFilter'',
                              encode \<lparr> cbf_log_filters = log_filters, cbf_call_filters = call_filters,
                                       cbf_send_all_block_headers = every \<rparr>)])))
       (firehose_log_filters ops max_contracts (tf_log f))"

section \<open>Node capabilities\<close>

definition bool_cmp :: "bool \<Rightarrow> bool \<Rightarrow> ordering" where
  "bool_cmp a b = cmp_of a b"

definition product_order :: "ordering list \<Rightarrow> ordering option" where
  "product_order cmps =
     (if list_all (\<lambda>c. c = Ord_Equal) cmps then Some Ord_Equal
      else if list_all (\<lambda>c. c \<noteq> Ord_Greater) cmps then Some Ord_Less
      else if list_all (\<lambda>c. c \<noteq> Ord_Less) cmps then Some Ord_Greater
      else None)"

definition capabilities_partial_cmp :: "node_capabilities \<Rightarrow> node_capabilities \<Rightarrow> ordering option" where
  "capabilities_partial_cmp a b =
     product_order [bool_cmp (cap_archive a) (cap_archive b), bool_cmp (cap_traces a) (cap_traces b)]"

fun split_on :: "char \<Rightarrow> string \<Rightarrow> string list" where
  "split_on d [] = [[]]"
| "split_on d (c # cs) =
     (if c = d then [] # split_on d cs
      else case split_on d cs of [] \<Rightarrow> [[c]] | w # ws \<Rightarrow> (c # w) # ws)"

definition capabilities_from_str :: "string \<Rightarrow> node_capabilities" where
  "capabilities_from_str s =
     (let capabilities = split_on (CHR '','') s
      in \<lparr> cap_archive = (''archive'' \<in> set capabilities), cap_traces = (''traces'' \<in> set capabilities) \<rparr>)"

definition capabilities_display :: "node_capabilities \<Rightarrow> string" where
  "capabilities_display c =
     join_with '', '' ((if cap_archive c then [''archive''] else []) @ (if cap_traces c then [''traces''] else []))"

text \<open>\<open>requires_archive\<close> looks for a host function in a module; it may not parse.\<close>

definition capabilities_from_data_sources :: "(bytes \<Rightarrow> bool option) \<Rightarrow> data_source list \<Rightarrow> node_capabilities outcome" where
  "capabilities_from_data_sources requires_archive dss =
     (let checks = map (\<lambda>ds. requires_archive (mp_runtime (ds_mapping ds))) dss;
          seen = takeWhile (\<lambda>c. c = Some False) checks
      in if length seen < length checks \<and> checks ! length seen = None then Panic ''failed to parse mappings''
         else Return \<lparr> cap_archive = (Some True \<in> set checks),
                       cap_traces = list_ex (\<lambda>ds. has_call_handler (ds_mapping ds) \<or>
                                       has_block_handler_with_call_filter (ds_mapping ds)) dss \<rparr>)"

section \<open>Triggers in a block\<close>

definition parse_log_triggers :: "'g graph_ops \<Rightarrow> 'g log_filter \<Rightarrow> eth_block \<Rightarrow> eth_trigger list" where
  "parse_log_triggers ops f b =
     (if log_filter_is_empty ops f then []
      else concat (map (\<lambda>receipt. map (\<lambda>lg. Trig_Log lg (Some receipt)) (filter (log_filter_matches ops f) (rc_logs receipt)))
             (eb_receipts b)))"

text \<open>The first error, if there is one.\<close>

fun succeeded_calls :: "block_with_calls \<Rightarrow> eth_call list \<Rightarrow> string + eth_trigger list" where
  "succeeded_calls b [] = Inr []"
| "succeeded_calls b (call # calls) =
     (case transaction_for_call_succeeded b call of
        Inl e \<Rightarrow> Inl e
      | Inr ok \<Rightarrow>
          (case succeeded_calls b calls of
             Inl e \<Rightarrow> Inl e
           | Inr ts \<Rightarrow> Inr (if ok then Trig_Call call # ts else ts)))"

definition parse_call_triggers :: "call_filter \<Rightarrow> block_with_calls \<Rightarrow> string + eth_trigger list" where
  "parse_call_triggers f b =
     (if call_filter_is_empty f then Inr []
      else case bwc_calls b of
             Some calls \<Rightarrow> succeeded_calls b (filter (call_filter_matches f) calls)
           | None \<Rightarrow> Inr [])"

text \<open>\<^const>\<open>None\<close> is the panic for a block without a number or hash.\<close>

definition parse_block_triggers :: "block_filter \<Rightarrow> block_with_calls \<Rightarrow> eth_trigger list option" where
  "parse_block_triggers f b =
     (if block_filter_is_empty f then Some []
      else case light_block_ptr (eb_block (bwc_block b)) of
             None \<Rightarrow> None
           | Some p \<Rightarrow>
               (let call_filter = call_filter_from_block_filter f
                in Some ((case bwc_calls b of
                            Some calls \<Rightarrow>
                              map (\<lambda>call. Trig_Block p (Trig_WithCallTo (call_to call))) (filter (call_filter_matches call_filter) calls)
                          | None \<Rightarrow> []) @
                         (if bf_trigger_every_block f then [Trig_Block p Trig_Every] else []))))"

text \<open>A block that is not final yet: all triggers from the block itself.\<close>

definition triggers_in_nonfinal_block ::
    "'g graph_ops \<Rightarrow> 'g trigger_filter \<Rightarrow> block_with_calls \<Rightarrow> (string + block_with_calls \<times> eth_trigger list) option" where
  "triggers_in_nonfinal_block ops f b =
     (case parse_call_triggers (tf_call f) b of
        Inl e \<Rightarrow> Some (Inl e)
      | Inr calls \<Rightarrow>
          (case parse_block_triggers (tf_block f) b of
             None \<Rightarrow> None
           | Some blocks \<Rightarrow>
               map_option Inr (block_with_triggers_new b (parse_log_triggers ops (tf_log f) (bwc_block b) @ calls @ blocks))))"

text \<open>
  A range of final blocks is scanned by asking the node: \<open>trace_stream\<close> are the traces in the range of calls to the
  given addresses, or of all calls if there are none.
\<close>

definition calls_in_block_range :: "(address list \<Rightarrow> eth_trace list) \<Rightarrow> call_filter \<Rightarrow> block_number \<Rightarrow> eth_call list" where
  "calls_in_block_range trace_stream f to =
     (let addresses = remdups (map fst (filter (\<lambda>(_, start_block, _). start_block \<le> to) (cf_contract_signatures f)))
      in if addresses = [] \<and> cf_wildcard_signatures f = [] then []
         else let addresses = (if length addresses > 100 \<or> cf_wildcard_signatures f \<noteq> [] then [] else addresses)
              in filter (call_filter_matches f) (filter_map try_from_trace (trace_stream addresses)))"

text \<open>The triggers for blocks in a range; \<open>ptrs\<close> are the blocks in it.\<close>

definition scan_block_triggers ::
    "(address list \<Rightarrow> eth_trace list) \<Rightarrow> block_filter \<Rightarrow> block_number \<Rightarrow> block_ptr list \<Rightarrow> eth_trigger list" where
  "scan_block_triggers trace_stream f to ptrs =
     (if bf_trigger_every_block f then map (\<lambda>p. Trig_Block p Trig_Every) ptrs
      else if bf_contract_addresses f \<noteq> [] then
        map (\<lambda>call. Trig_Block (ptr_of (call_block_hash call) (call_block_number call)) (Trig_WithCallTo (call_to call)))
          (calls_in_block_range trace_stream (call_filter_from_block_filter f) to)
      else [])"

section \<open>The log filters cover the graph\<close>

locale graph_map =
  fixes ops :: "'g graph_ops" and edge :: "'g \<Rightarrow> log_filter_node \<Rightarrow> log_filter_node \<Rightarrow> bool option"
  assumes edge_sym: "edge g s t = edge g t s"
    and new_law: "edge (gm_new ops) s t = None"
    and add_law: "edge (gm_add_edge ops a b w g) s t = (if (s, t) = (a, b) \<or> (s, t) = (b, a) then Some w else edge g s t)"
    and all_edges_sound: "(s, t, w) \<in> set (gm_all_edges ops g) \<Longrightarrow> edge g s t = Some w"
    and all_edges_complete: "edge g s t = Some w \<Longrightarrow>
      (s, t, w) \<in> set (gm_all_edges ops g) \<or> (t, s, w) \<in> set (gm_all_edges ops g)"
    and nodes_law: "edge g s t \<noteq> None \<Longrightarrow> s \<in> set (gm_nodes ops g)"
    and neighbors_law: "m \<in> set (gm_neighbors ops n g) \<longleftrightarrow> edge g n m \<noteq> None"
    and remove_law: "edge (gm_remove_node ops n g) s t = (if s = n \<or> t = n then None else edge g s t)"
    and remove_count: "edge g n m \<noteq> None \<Longrightarrow> gm_edge_count ops (gm_remove_node ops n g) < gm_edge_count ops g"
begin

lemma edge_count_0: "gm_edge_count ops g = 0 \<longleftrightarrow> (\<forall>s t. edge g s t = None)"
proof
  assume "gm_edge_count ops g = 0"
  then have "gm_all_edges ops g = []" by (simp add: gm_edge_count_def)
  then show "\<forall>s t. edge g s t = None" using all_edges_complete [of g] by (metis empty_iff empty_set option.exhaust)
next
  assume "\<forall>s t. edge g s t = None"
  then have "x \<notin> set (gm_all_edges ops g)" for x using all_edges_sound [of "fst x" "fst (snd x)" "snd (snd x)" g] by auto
  then show "gm_edge_count ops g = 0" by (metis gm_edge_count_def length_0_conv list.set_intros(1) neq_Nil_conv)
qed

lemma edge_any: "(\<exists>r. (s, t, r) \<in> set (gm_all_edges ops g) \<or> (t, s, r) \<in> set (gm_all_edges ops g)) \<longleftrightarrow> edge g s t \<noteq> None"
  using all_edges_sound [of s t _ g] all_edges_sound [of t s _ g] all_edges_complete [of g s t] edge_sym [of g s t] by fastforce

end

lemma max_by_key_max:
  "xs \<noteq> [] \<Longrightarrow> \<exists>y. max_by_key f xs = Some y \<and> y \<in> set xs \<and> (\<forall>x \<in> set xs. f x \<le> f y)"
proof (induction xs)
  case (Cons x xs)
  show ?case
  proof (cases "xs = []")
    case False
    with Cons.IH obtain y where "max_by_key f xs = Some y" "y \<in> set xs" "\<forall>x \<in> set xs. f x \<le> f y" by blast
    then show ?thesis by force
  qed simp
qed simp

text \<open>Edges go between contracts and events.\<close>

definition bipartite :: "('g \<Rightarrow> log_filter_node \<Rightarrow> log_filter_node \<Rightarrow> bool option) \<Rightarrow> 'g \<Rightarrow> bool" where
  "bipartite edge g \<longleftrightarrow> (\<forall>s t. edge g s t \<noteq> None \<longrightarrow> (case s of LF_Contract _ \<Rightarrow> \<exists>e. t = LF_Event e | LF_Event _ \<Rightarrow> \<exists>c. t = LF_Contract c))"

text \<open>A filter that the assertions let pass, within the limit.\<close>

definition filter_ok :: "nat \<Rightarrow> eth_get_logs_filter \<Rightarrow> bool" where
  "filter_ok limit x \<longleftrightarrow> glf_contracts x \<noteq> [] \<and> glf_event_signatures x \<noteq> [] \<and>
     (length (glf_contracts x) = 1 \<or> length (glf_event_signatures x) = 1) \<and> length (glf_contracts x) \<le> limit"

lemma push_filter_ok: "filter_ok limit x \<Longrightarrow> push_filter x xs = Return (xs @ [x])"
  by (auto simp: filter_ok_def push_filter_def)

lemma neighbor_events:
  "neighbor_loop limit (map LF_Event es) flt filters =
     Return (flt\<lparr>glf_event_signatures := glf_event_signatures flt @ es\<rparr>, filters)"
  by (induction es arbitrary: flt) simp_all

lemma neighbor_contracts:
  assumes "glf_event_signatures flt = [e]" "length (glf_contracts flt) \<le> limit" "1 \<le> limit"
  shows "\<exists>flt' new. neighbor_loop limit (map LF_Contract cs) flt filters = Return (flt', filters @ new) \<and>
    glf_event_signatures flt' = [e] \<and> length (glf_contracts flt') \<le> limit \<and>
    (cs \<noteq> [] \<or> glf_contracts flt \<noteq> [] \<longrightarrow> glf_contracts flt' \<noteq> []) \<and>
    (\<forall>x \<in> set new. filter_ok limit x \<and> glf_event_signatures x = [e]) \<and>
    (\<Union>x \<in> insert flt' (set new). set (glf_contracts x)) = set (glf_contracts flt) \<union> set cs"
  using assms
proof (induction cs arbitrary: flt filters)
  case Nil
  show ?case using Nil by auto
next
  case (Cons c cs)
  show ?case
  proof (cases "length (glf_contracts flt) = limit")
    case True
    let ?new = "\<lparr> glf_contracts = [c], glf_event_signatures = [e] \<rparr>"
    have "filter_ok limit flt" using True Cons.prems by (auto simp: filter_ok_def)
    note push = push_filter_ok [OF this, of filters]
    have step: "neighbor_loop limit (map LF_Contract (c # cs)) flt filters =
        neighbor_loop limit (map LF_Contract cs) ?new (filters @ [flt])"
      using True Cons.prems(1) push by simp
    have "glf_event_signatures ?new = [e]" "length (glf_contracts ?new) \<le> limit" using Cons.prems(3) by simp_all
    from Cons.IH [OF this Cons.prems(3), of "filters @ [flt]"] obtain flt' new where
      IH: "neighbor_loop limit (map LF_Contract cs) ?new (filters @ [flt]) = Return (flt', (filters @ [flt]) @ new)"
        "glf_event_signatures flt' = [e]" "length (glf_contracts flt') \<le> limit" "glf_contracts flt' \<noteq> []"
        "\<forall>x \<in> set new. filter_ok limit x \<and> glf_event_signatures x = [e]"
        "(\<Union>x \<in> insert flt' (set new). set (glf_contracts x)) = insert c (set cs)" by auto
    from IH(6) have "(\<Union>x \<in> insert flt' (set (flt # new)). set (glf_contracts x)) = set (glf_contracts flt) \<union> set (c # cs)" by auto
    moreover have "\<forall>x \<in> set (flt # new). filter_ok limit x \<and> glf_event_signatures x = [e]"
      using IH(5) \<open>filter_ok limit flt\<close> Cons.prems(1) by simp
    ultimately show ?thesis unfolding step IH(1) using IH(2,3,4) by (intro exI [of _ flt'] exI [of _ "flt # new"]) simp
  next
    case False
    let ?flt = "flt\<lparr>glf_contracts := glf_contracts flt @ [c]\<rparr>"
    have step: "neighbor_loop limit (map LF_Contract (c # cs)) flt filters = neighbor_loop limit (map LF_Contract cs) ?flt filters"
      using False by simp
    have "glf_event_signatures ?flt = [e]" "length (glf_contracts ?flt) \<le> limit" using False Cons.prems by simp_all
    from Cons.IH [OF this Cons.prems(3), of filters] show ?thesis unfolding step by simp
  qed
qed

definition covers :: "eth_get_logs_filter set \<Rightarrow> address \<Rightarrow> h256 \<Rightarrow> bool" where
  "covers fs c e \<longleftrightarrow> (\<exists>x \<in> fs. c \<in> set (glf_contracts x) \<and> e \<in> set (glf_event_signatures x))"

lemma covers_simps [simp]:
  "covers {} c e \<longleftrightarrow> False" "covers (A \<union> B) c e \<longleftrightarrow> covers A c e \<or> covers B c e"
  "covers (insert x A) c e \<longleftrightarrow> c \<in> set (glf_contracts x) \<and> e \<in> set (glf_event_signatures x) \<or> covers A c e"
  by (auto simp: covers_def)

lemma ex_map_LF: "(\<forall>x \<in> set xs. \<exists>y. x = f y) \<Longrightarrow> \<exists>ys. xs = map f ys"
  by (metis ex_map_conv)

context graph_map
begin

lemma vertex_turn:
  assumes bip: "bipartite edge g" and v: "gm_neighbors ops v g \<noteq> []" and limit: "1 \<le> limit"
  shows "\<exists>flt new. neighbor_loop limit (gm_neighbors ops v g)
      (case v of LF_Contract a \<Rightarrow> from_contract a | LF_Event e \<Rightarrow> from_event e) filters = Return (flt, filters @ new) \<and>
    (\<forall>x \<in> insert flt (set new). filter_ok limit x) \<and>
    (\<forall>c e. covers (insert flt (set new)) c e \<longleftrightarrow>
       edge g (LF_Contract c) (LF_Event e) \<noteq> None \<and> (v = LF_Contract c \<or> v = LF_Event e))"
proof (cases v)
  case (LF_Contract a)
  have "\<exists>e. n = LF_Event e" if "n \<in> set (gm_neighbors ops v g)" for n
    using that bip unfolding neighbors_law bipartite_def LF_Contract by fastforce
  with ex_map_LF [of "gm_neighbors ops v g" LF_Event] obtain es where es: "gm_neighbors ops v g = map LF_Event es" by auto
  let ?flt = "\<lparr> glf_contracts = [a], glf_event_signatures = es \<rparr>"
  have run: "neighbor_loop limit (gm_neighbors ops v g) (from_contract a) filters = Return (?flt, filters @ [])"
    unfolding es neighbor_events by (simp add: from_contract_def)
  have "e \<in> set es \<longleftrightarrow> edge g (LF_Contract a) (LF_Event e) \<noteq> None" for e
    using neighbors_law [of "LF_Event e" v g] es LF_Contract by auto
  moreover have "filter_ok limit ?flt" using v es limit by (simp add: filter_ok_def)
  ultimately show ?thesis using run by (intro exI [of _ ?flt] exI [of _ "[]"]) (auto simp: LF_Contract)
next
  case (LF_Event e)
  have "\<exists>c. n = LF_Contract c" if "n \<in> set (gm_neighbors ops v g)" for n
    using that bip unfolding neighbors_law bipartite_def LF_Event by fastforce
  with ex_map_LF [of "gm_neighbors ops v g" LF_Contract] obtain cs where cs: "gm_neighbors ops v g = map LF_Contract cs" by auto
  have "glf_event_signatures (from_event e) = [e]" "length (glf_contracts (from_event e)) \<le> limit"
    by (simp_all add: from_event_def)
  from neighbor_contracts [OF this limit, of cs filters] v cs obtain flt new where
    run: "neighbor_loop limit (map LF_Contract cs) (from_event e) filters = Return (flt, filters @ new)"
      "glf_event_signatures flt = [e]" "length (glf_contracts flt) \<le> limit" "glf_contracts flt \<noteq> []"
      "\<forall>x \<in> set new. filter_ok limit x \<and> glf_event_signatures x = [e]"
      "(\<Union>x \<in> insert flt (set new). set (glf_contracts x)) = set cs"
    by (auto simp: from_event_def)
  have "filter_ok limit flt" using run(2,3,4) by (simp add: filter_ok_def)
  moreover have sig: "\<forall>x \<in> insert flt (set new). glf_event_signatures x = [e]" using run(2,5) by simp
  have "covers (insert flt (set new)) c e' \<longleftrightarrow> c \<in> set cs \<and> e' = e" for c e'
  proof -
    have "covers (insert flt (set new)) c e' \<longleftrightarrow> c \<in> (\<Union>x \<in> insert flt (set new). set (glf_contracts x)) \<and> e' = e"
      unfolding covers_def using sig by auto
    then show ?thesis by (simp only: run(6))
  qed
  moreover have "c \<in> set cs \<longleftrightarrow> edge g (LF_Contract c) (LF_Event e) \<noteq> None" for c
    using neighbors_law [of "LF_Contract c" v g] cs LF_Event edge_sym [of g "LF_Contract c"] by auto
  ultimately show ?thesis using run(1,5) LF_Event cs by (intro exI [of _ flt] exI [of _ new]) auto
qed

lemma vertex_loop_ok:
  assumes "bipartite edge g" "gm_edge_count ops g \<le> fuel" and limit: "1 \<le> limit"
  shows "\<exists>new. vertex_loop fuel ops limit g filters = Some (Return (filters @ new)) \<and>
    (\<forall>x \<in> set new. filter_ok limit x) \<and>
    (\<forall>c e. covers (set new) c e \<longleftrightarrow> edge g (LF_Contract c) (LF_Event e) \<noteq> None)"
  using assms(1,2)
proof (induction fuel arbitrary: g filters)
  case 0
  then show ?case using edge_count_0 [of g] by (auto simp: vertex_loop.simps)
next
  case (Suc n)
  show ?case
  proof (cases "gm_edge_count ops g = 0")
    case True
    then show ?thesis using edge_count_0 [of g] by (auto simp: vertex_loop.simps)
  next
    case False
    with edge_count_0 [of g] have "\<not> (\<forall>s t. edge g s t = None)" by simp
    then obtain s t where st: "edge g s t \<noteq> None" by blast
    then have "s \<in> set (gm_nodes ops g)" "gm_neighbors ops s g \<noteq> []"
      using nodes_law [of g s t] neighbors_law [of t s g] by auto
    then obtain v where v: "max_by_key (\<lambda>v. length (gm_neighbors ops v g)) (gm_nodes ops g) = Some v"
        "length (gm_neighbors ops s g) \<le> length (gm_neighbors ops v g)"
      using max_by_key_max [of "gm_nodes ops g" "\<lambda>v. length (gm_neighbors ops v g)"] by force
    with \<open>gm_neighbors ops s g \<noteq> []\<close> have nb: "gm_neighbors ops v g \<noteq> []" by auto
    from vertex_turn [OF Suc.prems(1) nb limit, of filters] obtain flt new where
      turn: "neighbor_loop limit (gm_neighbors ops v g)
          (case v of LF_Contract a \<Rightarrow> from_contract a | LF_Event e \<Rightarrow> from_event e) filters = Return (flt, filters @ new)"
        "\<forall>x \<in> insert flt (set new). filter_ok limit x"
        "\<forall>c e. covers (insert flt (set new)) c e \<longleftrightarrow>
           edge g (LF_Contract c) (LF_Event e) \<noteq> None \<and> (v = LF_Contract c \<or> v = LF_Event e)" by blast
    let ?g = "gm_remove_node ops v g"
    obtain m where "edge g v m \<noteq> None" using nb neighbors_law [of _ v g] by (metis list.set_intros(1) neq_Nil_conv)
    from remove_count [OF this] Suc.prems(2) have count: "gm_edge_count ops ?g \<le> n" by simp
    have bip: "bipartite edge ?g" using Suc.prems(1) by (auto simp: bipartite_def remove_law)
    from Suc.IH [OF bip count, of "filters @ new @ [flt]"] obtain rest where
      rest: "vertex_loop n ops limit ?g (filters @ new @ [flt]) = Some (Return ((filters @ new @ [flt]) @ rest))"
        "\<forall>x \<in> set rest. filter_ok limit x"
        "\<forall>c e. covers (set rest) c e \<longleftrightarrow> edge ?g (LF_Contract c) (LF_Event e) \<noteq> None" by blast
    have push: "push_filter flt (filters @ new) = Return (filters @ new @ [flt])"
      using push_filter_ok [of limit flt "filters @ new"] turn(2) by simp
    have "vertex_loop (Suc n) ops limit g filters = Some (Return (filters @ (new @ flt # rest)))"
      using False v(1) turn(1) push rest(1) by (subst vertex_loop.simps) simp
    moreover have "covers (set (new @ flt # rest)) c e \<longleftrightarrow> edge g (LF_Contract c) (LF_Event e) \<noteq> None" for c e
    proof -
      have "covers (set (new @ flt # rest)) c e \<longleftrightarrow> covers (insert flt (set new)) c e \<or> covers (set rest) c e" by auto
      then show ?thesis using turn(3) rest(3) remove_law [of v g "LF_Contract c" "LF_Event e"] by auto
    qed
    moreover have "\<forall>x \<in> set (new @ flt # rest). filter_ok limit x" using turn(2) rest(2) by auto
    ultimately show ?thesis by (intro exI [of _ "new @ flt # rest"]) blast
  qed
qed

end

section \<open>Log filters find the logs that have handlers\<close>

text \<open>What \<open>eth_getLogs\<close> returns for a filter: no contracts stand for all of them, and likewise events.\<close>

definition get_logs_matches :: "eth_get_logs_filter \<Rightarrow> eth_log \<Rightarrow> bool" where
  "get_logs_matches x lg \<longleftrightarrow> (glf_contracts x = [] \<or> log_address lg \<in> set (glf_contracts x)) \<and>
     (glf_event_signatures x = [] \<or> (case log_topics lg of [] \<Rightarrow> False | t # _ \<Rightarrow> t \<in> set (glf_event_signatures x)))"

text \<open>The event handlers of data sources with their addresses, and the last one for a contract and an event.\<close>

definition ds_handlers :: "data_source list \<Rightarrow> (address option \<times> mapping_event_handler) list" where
  "ds_handlers dss = concat (map (\<lambda>ds. map (Pair (ds_address ds)) (mp_event_handlers (ds_mapping ds))) dss)"

definition last_handler ::
    "('tok, 'json) eth_lib \<Rightarrow> (address option \<times> mapping_event_handler) list \<Rightarrow> address option \<Rightarrow> h256 \<Rightarrow> mapping_event_handler option" where
  "last_handler lib hs a e = map_option snd (find (\<lambda>x. fst x = a \<and> topic0 lib (snd x) = e) (rev hs))"

lemma last_handler_snoc:
  "last_handler lib (hs @ [x]) a e = (if fst x = a \<and> topic0 lib (snd x) = e then Some (snd x) else last_handler lib hs a e)"
  by (simp add: last_handler_def)

lemma last_handler_None:
  "last_handler lib hs a e \<noteq> None \<longleftrightarrow> (\<exists>h. (a, h) \<in> set hs \<and> topic0 lib h = e)"
  by (auto simp: last_handler_def find_None_iff)

lemma from_data_sources_fold:
  "log_filter_from_data_sources lib ops dss =
     fold (\<lambda>x. add_event_handler lib ops (fst x) (snd x)) (ds_handlers dss) (log_filter_default ops)"
proof -
  have inner: "fold (\<lambda>x. add_event_handler lib ops (fst x) (snd x)) (map (Pair a) hs) f = fold (add_event_handler lib ops a) hs f"
    for a hs f
    by (induction hs arbitrary: f) simp_all
  have "fold (\<lambda>ds. fold (add_event_handler lib ops (ds_address ds)) (mp_event_handlers (ds_mapping ds))) dss f =
      fold (\<lambda>x. add_event_handler lib ops (fst x) (snd x)) (ds_handlers dss) f" for f
    by (induction dss arbitrary: f) (simp_all add: ds_handlers_def inner)
  then show ?thesis by (simp add: log_filter_from_data_sources_def)
qed

context graph_map
begin

lemma log_filter_matches_iff:
  "log_filter_matches ops f lg \<longleftrightarrow> (\<exists>e ts. log_topics lg = e # ts \<and>
     (edge (lf_graph f) (LF_Contract (log_address lg)) (LF_Event e) \<noteq> None \<or> map_of (lf_wildcard_events f) e \<noteq> None))"
proof (cases "log_topics lg")
  case (Cons e ts)
  have "list_ex (\<lambda>(s, t, _). s = LF_Contract (log_address lg) \<and> t = LF_Event e \<or> t = LF_Contract (log_address lg) \<and> s = LF_Event e)
      (gm_all_edges ops (lf_graph f)) \<longleftrightarrow> edge (lf_graph f) (LF_Contract (log_address lg)) (LF_Event e) \<noteq> None"
    unfolding edge_any [symmetric] list_ex_iff by auto
  with Cons show ?thesis by (simp add: log_filter_matches_def Let_def)
qed (simp add: log_filter_matches_def)

lemma handlers_filter:
  fixes hs :: "(address option \<times> mapping_event_handler) list" and lib :: "('tok, 'json) eth_lib"
  defines "f \<equiv> fold (\<lambda>x. add_event_handler lib ops (fst x) (snd x)) hs (log_filter_default ops)"
  shows "edge (lf_graph f) (LF_Contract c) (LF_Event e) = map_option eh_receipt (last_handler lib hs (Some c) e)"
    "map_of (lf_wildcard_events f) e = map_option eh_receipt (last_handler lib hs None e)"
    "bipartite edge (lf_graph f)"
proof -
  have "edge (lf_graph f) (LF_Contract c) (LF_Event e) = map_option eh_receipt (last_handler lib hs (Some c) e) \<and>
      map_of (lf_wildcard_events f) e = map_option eh_receipt (last_handler lib hs None e) \<and> bipartite edge (lf_graph f)"
    unfolding f_def
  proof (induction hs rule: rev_induct)
    case Nil
    show ?case by (simp add: log_filter_default_def new_law last_handler_def bipartite_def)
  next
    case (snoc x hs)
    let ?f = "fold (\<lambda>x. add_event_handler lib ops (fst x) (snd x)) hs (log_filter_default ops)"
    show ?case
    proof (cases "fst x")
      case None
      then have "fold (\<lambda>x. add_event_handler lib ops (fst x) (snd x)) (hs @ [x]) (log_filter_default ops) =
          ?f\<lparr>lf_wildcard_events := hm_insert (topic0 lib (snd x)) (eh_receipt (snd x)) (lf_wildcard_events ?f)\<rparr>"
        by (simp add: add_event_handler_def)
      with snoc None show ?thesis by (simp add: last_handler_snoc hm_simps)
    next
      case (Some a)
      let ?g = "gm_add_edge ops (LF_Contract a) (LF_Event (topic0 lib (snd x))) (eh_receipt (snd x)) (lf_graph ?f)"
      have step: "fold (\<lambda>x. add_event_handler lib ops (fst x) (snd x)) (hs @ [x]) (log_filter_default ops) = ?f\<lparr>lf_graph := ?g\<rparr>"
        using Some by (simp add: add_event_handler_def)
      have "bipartite edge ?g" using snoc by (auto simp: bipartite_def add_law)
      with snoc Some show ?thesis unfolding step by (auto simp: last_handler_snoc add_law)
    qed
  qed
  then show "edge (lf_graph f) (LF_Contract c) (LF_Event e) = map_option eh_receipt (last_handler lib hs (Some c) e)"
    "map_of (lf_wildcard_events f) e = map_option eh_receipt (last_handler lib hs None e)"
    "bipartite edge (lf_graph f)" by simp_all
qed

lemma get_logs_filters_ok:
  assumes "bipartite edge (lf_graph f)" "1 \<le> limit"
  shows "\<exists>fs. eth_get_logs_filters ops limit f = Some (Return fs) \<and>
    (\<forall>lg. (\<exists>x \<in> set fs. get_logs_matches x lg) \<longleftrightarrow> log_filter_matches ops f lg) \<and>
    (\<forall>x \<in> set fs. length (glf_contracts x) \<le> limit)"
proof -
  let ?wild = "map (\<lambda>(e, _). from_event e) (lf_wildcard_events f)"
  from vertex_loop_ok [OF assms(1) order_refl assms(2), of ?wild] obtain new where
    new: "eth_get_logs_filters ops limit f = Some (Return (?wild @ new))" "\<forall>x \<in> set new. filter_ok limit x"
      "\<forall>c e. covers (set new) c e \<longleftrightarrow> edge (lf_graph f) (LF_Contract c) (LF_Event e) \<noteq> None"
    unfolding eth_get_logs_filters_def by blast
  have wild: "(\<exists>x \<in> set ?wild. get_logs_matches x lg) \<longleftrightarrow> (\<exists>e ts. log_topics lg = e # ts \<and> map_of (lf_wildcard_events f) e \<noteq> None)" for lg
  proof -
    have one: "get_logs_matches (from_event e) lg \<longleftrightarrow> (\<exists>ts. log_topics lg = e # ts)" for e
      by (cases "log_topics lg") (auto simp: get_logs_matches_def from_event_def)
    have "(\<exists>x \<in> set ?wild. get_logs_matches x lg) \<longleftrightarrow> (\<exists>y \<in> set (lf_wildcard_events f). get_logs_matches (from_event (fst y)) lg)"
      by (auto simp: case_prod_beta)
    then show ?thesis unfolding one by (auto simp: map_of_eq_None_iff)
  qed
  have "(\<exists>x \<in> set new. get_logs_matches x lg) \<longleftrightarrow> (\<exists>e ts. log_topics lg = e # ts \<and> covers (set new) (log_address lg) e)" for lg
    using new(2) by (cases "log_topics lg") (auto simp: get_logs_matches_def filter_ok_def covers_def)
  with wild new(3) have "(\<exists>x \<in> set (?wild @ new). get_logs_matches x lg) \<longleftrightarrow> log_filter_matches ops f lg" for lg
    unfolding log_filter_matches_iff set_append bex_Un by auto
  moreover have "\<forall>x \<in> set (?wild @ new). length (glf_contracts x) \<le> limit"
    using new(2) by (auto simp: filter_ok_def from_event_def)
  ultimately show ?thesis using new(1) by blast
qed

end

section \<open>A graph as a list of edges\<close>

text \<open>The newest edge comes first and counts.\<close>

type_synonym list_edges = "(log_filter_node \<times> log_filter_node \<times> bool) list"

definition same_ends :: "log_filter_node \<Rightarrow> log_filter_node \<Rightarrow> log_filter_node \<times> log_filter_node \<times> bool \<Rightarrow> bool" where
  "same_ends s t x \<longleftrightarrow> (s, t) = (fst x, fst (snd x)) \<or> (s, t) = (fst (snd x), fst x)"

definition list_edge :: "list_edges \<Rightarrow> log_filter_node \<Rightarrow> log_filter_node \<Rightarrow> bool option" where
  "list_edge g s t = map_option (\<lambda>x. snd (snd x)) (find (same_ends s t) g)"

fun newest_edges :: "list_edges \<Rightarrow> list_edges" where
  "newest_edges [] = []"
| "newest_edges (x # xs) = x # filter (\<lambda>y. \<not> same_ends (fst x) (fst (snd x)) y) (newest_edges xs)"

definition avoids :: "log_filter_node \<Rightarrow> log_filter_node \<times> log_filter_node \<times> bool \<Rightarrow> bool" where
  "avoids n x \<longleftrightarrow> fst x \<noteq> n \<and> fst (snd x) \<noteq> n"

definition list_graph :: "list_edges graph_ops" where
  "list_graph =
     \<lparr> gm_new = [], gm_add_edge = (\<lambda>s t w g. (s, t, w) # g), gm_all_edges = newest_edges,
       gm_nodes = (\<lambda>g. map fst g @ map (\<lambda>x. fst (snd x)) g),
       gm_neighbors = (\<lambda>n g. remdups (map (\<lambda>x. fst (snd x)) (filter (\<lambda>x. fst x = n) g) @ map fst (filter (\<lambda>x. fst (snd x) = n) g))),
       gm_remove_node = (\<lambda>n g. filter (avoids n) g) \<rparr>"

lemma newest_edges_iff: "x \<in> set (newest_edges g) \<longleftrightarrow> find (same_ends (fst x) (fst (snd x))) g = Some x"
  by (induction g) (auto simp: same_ends_def)

lemma newest_filter: "newest_edges (filter (avoids n) g) = filter (avoids n) (newest_edges g)"
proof (induction g)
  case (Cons x g)
  show ?case
  proof (cases "avoids n x")
    case False
    then have "avoids n y \<Longrightarrow> \<not> same_ends (fst x) (fst (snd x)) y" for y by (auto simp: avoids_def same_ends_def)
    then have "filter (avoids n) (newest_edges g) = filter (avoids n) (filter (\<lambda>y. \<not> same_ends (fst x) (fst (snd x)) y) (newest_edges g))"
      by (auto intro: filter_cong)
    with False Cons show ?thesis by simp
  qed (use Cons in \<open>simp add: conj_commute\<close>)
qed simp

lemma same_ends_sym: "same_ends s t = same_ends t s"
  by (auto simp: same_ends_def fun_eq_iff)

lemma list_edge_iff: "list_edge g s t \<noteq> None \<longleftrightarrow> (\<exists>x \<in> set g. same_ends s t x)"
  by (auto simp: list_edge_def find_None_iff)

lemma list_edge_newest:
  assumes "list_edge g s t = Some w"
  shows "(s, t, w) \<in> set (newest_edges g) \<or> (t, s, w) \<in> set (newest_edges g)"
proof -
  from assms obtain x where x: "find (same_ends s t) g = Some x" "w = snd (snd x)" by (auto simp: list_edge_def)
  from find_SomeD [OF x(1)] have "x = (s, t, w) \<or> x = (t, s, w)" by (cases x) (auto simp: same_ends_def x(2))
  with x(1) show ?thesis unfolding newest_edges_iff by (auto simp: same_ends_sym [of t s])
qed

interpretation lgraph: graph_map list_graph list_edge
proof
  fix g s t
  show "list_edge g s t = list_edge g t s" by (simp add: list_edge_def same_ends_sym [of s t])
next
  fix s t
  show "list_edge (gm_new list_graph) s t = None" by (simp add: list_graph_def list_edge_def)
next
  fix a b w g s t
  show "list_edge (gm_add_edge list_graph a b w g) s t =
      (if (s, t) = (a, b) \<or> (s, t) = (b, a) then Some w else list_edge g s t)"
    by (auto simp: list_graph_def list_edge_def same_ends_def)
next
  fix s t w g
  assume "(s, t, w) \<in> set (gm_all_edges list_graph g)"
  then show "list_edge g s t = Some w" by (simp add: list_graph_def newest_edges_iff list_edge_def)
next
  fix g s t w
  assume "list_edge g s t = Some w"
  then show "(s, t, w) \<in> set (gm_all_edges list_graph g) \<or> (t, s, w) \<in> set (gm_all_edges list_graph g)"
    by (simp add: list_graph_def list_edge_newest)
next
  fix g s t
  assume "list_edge g s t \<noteq> None"
  then show "s \<in> set (gm_nodes list_graph g)" unfolding list_edge_iff by (auto simp: list_graph_def same_ends_def)
next
  fix m n g
  show "m \<in> set (gm_neighbors list_graph n g) \<longleftrightarrow> list_edge g n m \<noteq> None"
    unfolding list_edge_iff by (force simp: list_graph_def same_ends_def)
next
  fix n g s t
  have "find (same_ends s t) (filter (avoids n) g) = (if s = n \<or> t = n then None else find (same_ends s t) g)"
  proof (induction g)
    case (Cons x g)
    have "avoids n x \<longleftrightarrow> s \<noteq> n \<and> t \<noteq> n" if "same_ends s t x" using that by (auto simp: avoids_def same_ends_def)
    with Cons show ?case by (cases "same_ends s t x"; cases "avoids n x") simp_all
  qed simp
  then show "list_edge (gm_remove_node list_graph n g) s t = (if s = n \<or> t = n then None else list_edge g s t)"
    by (simp add: list_graph_def list_edge_def)
next
  fix g n m
  assume "list_edge g n m \<noteq> None"
  then obtain w where "list_edge g n m = Some w" by blast
  from list_edge_newest [OF this] obtain x where "x \<in> set (newest_edges g)" "\<not> avoids n x" by (auto simp: avoids_def)
  then have "length (filter (avoids n) (newest_edges g)) < length (newest_edges g)" by (rule length_filter_less)
  then show "gm_edge_count list_graph (gm_remove_node list_graph n g) < gm_edge_count list_graph g"
    by (simp add: gm_edge_count_def list_graph_def newest_filter)
qed

section \<open>Extending a log filter\<close>

lemma map_of_fold_insert: "map_of (fold (\<lambda>(k, v). hm_insert k v) xs m) k \<noteq> None \<longleftrightarrow> map_of xs k \<noteq> None \<or> map_of m k \<noteq> None"
proof (induction xs arbitrary: m)
  case (Cons x xs)
  then show ?case by (cases x) (auto simp: hm_simps)
qed simp

context graph_map
begin

lemma fold_add_edges:
  "edge (fold (\<lambda>(s, t, e). gm_add_edge ops s t e) es g) s t \<noteq> None \<longleftrightarrow>
     (\<exists>e. (s, t, e) \<in> set es \<or> (t, s, e) \<in> set es) \<or> edge g s t \<noteq> None"
proof (induction es arbitrary: g)
  case (Cons x es)
  obtain a b w where x: "x = (a, b, w)" by (cases x)
  from Cons show ?case by (auto simp: x add_law)
qed simp

lemma log_filter_extend_edges:
  "edge (lf_graph (log_filter_extend ops other f)) s t \<noteq> None \<longleftrightarrow> edge (lf_graph f) s t \<noteq> None \<or> edge (lf_graph other) s t \<noteq> None"
proof (cases "log_filter_is_empty ops other")
  case True
  then have "edge (lf_graph other) s t = None" using edge_count_0 by (simp add: log_filter_is_empty_def)
  with True show ?thesis by (simp add: log_filter_extend_def)
next
  case False
  then show ?thesis
    using fold_add_edges [of "gm_all_edges ops (lf_graph other)" "lf_graph f" s t] edge_any [of s t "lf_graph other"]
    by (auto simp: log_filter_extend_def)
qed

lemma log_filter_extend_bipartite:
  "bipartite edge (lf_graph f) \<Longrightarrow> bipartite edge (lf_graph other) \<Longrightarrow> bipartite edge (lf_graph (log_filter_extend ops other f))"
  unfolding bipartite_def log_filter_extend_edges by blast

lemma log_filter_extend_matches:
  "log_filter_matches ops (log_filter_extend ops other f) lg \<longleftrightarrow> log_filter_matches ops f lg \<or> log_filter_matches ops other lg"
proof -
  have "map_of (lf_wildcard_events (log_filter_extend ops other f)) e \<noteq> None \<longleftrightarrow>
      map_of (lf_wildcard_events f) e \<noteq> None \<or> map_of (lf_wildcard_events other) e \<noteq> None" for e
    using map_of_fold_insert [of "lf_wildcard_events other" "lf_wildcard_events f" e]
    by (auto simp: log_filter_extend_def log_filter_is_empty_def)
  then show ?thesis unfolding log_filter_matches_iff log_filter_extend_edges by blast
qed

lemma data_sources_filter:
  "bipartite edge (lf_graph (log_filter_from_data_sources lib ops dss))"
  "log_filter_matches ops (log_filter_from_data_sources lib ops dss) lg \<longleftrightarrow>
     (\<exists>ds \<in> set dss. matches_trigger_address ds (Trig_Log lg r) \<and> (\<exists>h hs. handlers_for_log lib ds lg = Inr (h # hs)))"
proof -
  note hf = handlers_filter [of lib "ds_handlers dss", folded from_data_sources_fold]
  show "bipartite edge (lf_graph (log_filter_from_data_sources lib ops dss))" by (rule hf(3))
  have mem: "(a, h) \<in> set (ds_handlers dss) \<longleftrightarrow> (\<exists>ds \<in> set dss. ds_address ds = a \<and> h \<in> set (mp_event_handlers (ds_mapping ds)))" for a h
    by (auto simp: ds_handlers_def)
  have some: "(\<exists>h hs. handlers_for_log lib ds lg = Inr (h # hs)) \<longleftrightarrow>
      (\<exists>e ts. log_topics lg = e # ts \<and> (\<exists>h \<in> set (mp_event_handlers (ds_mapping ds)). topic0 lib h = e))" for ds
  proof (cases "log_topics lg")
    case (Cons e ts)
    have "(\<exists>h hs. filter P xs = h # hs) \<longleftrightarrow> (\<exists>h \<in> set xs. P h)" for P and xs :: "mapping_event_handler list"
      by (metis filter_empty_conv neq_Nil_conv)
    with Cons show ?thesis by (auto simp: handlers_for_log_def)
  qed (simp add: handlers_for_log_def)
  have addr: "matches_trigger_address ds (Trig_Log lg r) \<longleftrightarrow> ds_address ds = None \<or> ds_address ds = Some (log_address lg)" for ds
    by (auto simp: matches_trigger_address_def split: option.splits)
  show "log_filter_matches ops (log_filter_from_data_sources lib ops dss) lg \<longleftrightarrow>
     (\<exists>ds \<in> set dss. matches_trigger_address ds (Trig_Log lg r) \<and> (\<exists>h hs. handlers_for_log lib ds lg = Inr (h # hs)))"
    unfolding log_filter_matches_iff hf(1,2) map_option_is_None last_handler_None mem some addr by blast
qed

lemma default_matches: "\<not> log_filter_matches ops (log_filter_default ops) lg"
  by (simp add: log_filter_matches_iff log_filter_default_def new_law)

end

text \<open>
  C11. The requests for logs that are made for a set of data sources return exactly the logs that one of them has
  a handler for: none is missed and there are no others. Working them out ends, no assertion on the way fails,
  and no request names more contracts than the limit.
\<close>

theorem get_logs_requests_exact:
  assumes "graph_map ops edge" "1 \<le> max_contracts"
  shows "\<exists>fs. eth_get_logs_filters ops max_contracts
      (tf_log (trigger_filter_extend lib ops dss (trigger_filter_default ops))) = Some (Return fs) \<and>
    (\<forall>lg. (\<exists>x \<in> set fs. get_logs_matches x lg) \<longleftrightarrow>
      (\<exists>ds \<in> set dss. matches_trigger_address ds (Trig_Log lg None) \<and> (\<exists>h hs. handlers_for_log lib ds lg = Inr (h # hs)))) \<and>
    (\<forall>x \<in> set fs. length (glf_contracts x) \<le> max_contracts)"
proof -
  note gm = assms(1)
  let ?d = "log_filter_default ops" and ?o = "log_filter_from_data_sources lib ops dss"
  have "bipartite edge (lf_graph ?d)" by (simp add: bipartite_def log_filter_default_def graph_map.new_law [OF gm])
  from graph_map.log_filter_extend_bipartite [OF gm this graph_map.data_sources_filter(1) [OF gm]]
  have bip: "bipartite edge (lf_graph (log_filter_extend ops ?o ?d))" .
  from graph_map.get_logs_filters_ok [OF gm bip assms(2)] show ?thesis
    unfolding graph_map.log_filter_extend_matches [OF gm] graph_map.data_sources_filter(2) [OF gm, where r = None]
    by (simp add: trigger_filter_extend_def trigger_filter_default_def graph_map.default_matches [OF gm])
qed

definition example_handler :: mapping_event_handler where
  "example_handler = \<lparr> eh_event = ''Transfer(address)'', eh_topic0 = Some 5, eh_handler = ''handleTransfer'', eh_receipt = True \<rparr>"

definition example_source :: "address option \<Rightarrow> mapping_event_handler \<Rightarrow> data_source" where
  "example_source a h = \<lparr> ds_kind = ''ethereum'', ds_network = None, ds_name = ''Token'', ds_manifest_idx = 0, ds_address = a,
     ds_start_block = 0, ds_mapping = example_mapping\<lparr>mp_event_handlers := [h]\<rparr>, ds_context = None, ds_creation_block = None,
     ds_contract_abi = example_abi \<rparr>"

theorem get_logs_requests_exact_witness:
  "\<exists>fs. eth_get_logs_filters list_graph 100
      (tf_log (trigger_filter_extend example_lib list_graph [example_source (Some 9) example_handler] (trigger_filter_default list_graph)))
      = Some (Return fs) \<and> (\<forall>x \<in> set fs. length (glf_contracts x) \<le> 100)"
proof -
  have "(1 :: nat) \<le> 100" by simp
  from get_logs_requests_exact [OF lgraph.graph_map_axioms this, of example_lib "[example_source (Some 9) example_handler]"]
  show ?thesis by blast
qed

section \<open>Call filters find the calls that have handlers\<close>

text \<open>The signatures that a map of a call filter has for an address, and that no entry stands for all signatures.\<close>

definition sigs_of :: "(address, block_number \<times> bytes list) hash_map \<Rightarrow> address \<Rightarrow> bytes set" where
  "sigs_of m a = (case map_of m a of None \<Rightarrow> {} | Some (_, sigs) \<Rightarrow> set sigs)"

definition sigs_wf :: "(address, block_number \<times> bytes list) hash_map \<Rightarrow> bool" where
  "sigs_wf m \<longleftrightarrow> hm_wf m \<and> (\<forall>x \<in> set m. snd (snd x) \<noteq> [])"

lemma sigs_wf_iff: "sigs_wf m \<longleftrightarrow> hm_wf m \<and> (\<forall>a b sigs. map_of m a = Some (b, sigs) \<longrightarrow> sigs \<noteq> [])"
  unfolding sigs_wf_def by (force dest: map_of_SomeD)

lemma sigs_wf_update: "sigs_wf m \<Longrightarrow> sigs \<noteq> [] \<Longrightarrow> sigs_wf (hm_insert a (b, sigs) m)"
  by (simp add: sigs_wf_iff hm_simps)

lemma sigs_of_call_entry: "sigs_of (call_entry (st, a', s) m) a = (if a = a' then insert s (sigs_of m a) else sigs_of m a)"
  by (auto simp: sigs_of_def call_entry_def hm_simps Let_def split: option.splits)

lemma sigs_wf_call_entry: "sigs_wf m \<Longrightarrow> sigs_wf (call_entry x m)"
proof (cases x)
  case (fields st a s)
  have "List.insert s sigs \<noteq> []" for sigs by (metis empty_iff empty_set in_set_insert insertI1 set_insert)
  then show "sigs_wf m \<Longrightarrow> sigs_wf (call_entry x m)"
    by (simp add: fields call_entry_def Let_def case_prod_beta sigs_wf_update)
qed

lemma call_entries:
  "sigs_of (fold call_entry xs m) a = {s. \<exists>st. (st, a, s) \<in> set xs} \<union> sigs_of m a"
  "sigs_wf m \<Longrightarrow> sigs_wf (fold call_entry xs m)"
proof (induction xs arbitrary: m)
  case (Cons x xs)
  { case 1 show ?case by (cases x) (auto simp: Cons.IH(1) sigs_of_call_entry) }
  { case 2 then show ?case by (simp add: Cons.IH(2) sigs_wf_call_entry) }
qed simp_all

lemma sigs_of_extend_entry:
  "sigs_of (extend_entry (a', b, new) m) a = (if a = a' then set new \<union> sigs_of m a else sigs_of m a)"
proof -
  have "set (fold List.insert new sigs) = set new \<union> set sigs" for sigs :: "bytes list"
    by (induction new arbitrary: sigs) auto
  then show ?thesis by (auto simp: sigs_of_def extend_entry_def hm_simps split: option.splits)
qed

lemma sigs_wf_member: "sigs_wf m \<Longrightarrow> map_of m a = Some (b, sigs) \<Longrightarrow> sigs \<noteq> []"
  by (auto simp: sigs_wf_def dest: map_of_SomeD)

lemma sigs_wf_extend_entry: "sigs_wf m \<Longrightarrow> new \<noteq> [] \<Longrightarrow> sigs_wf (extend_entry (a, b, new) m)"
proof -
  assume wf: "sigs_wf m" "new \<noteq> []"
  have "fold List.insert new sigs \<noteq> []" if "sigs \<noteq> []" for sigs :: "bytes list"
    using that by (induction new arbitrary: sigs) (auto simp: List.insert_def)
  with wf sigs_wf_member [OF wf(1), of a] show "sigs_wf (extend_entry (a, b, new) m)"
    by (auto simp: extend_entry_def sigs_wf_update split: option.splits)
qed

lemma extend_entries:
  "sigs_of (fold extend_entry xs m) a = (\<Union>x \<in> set xs. if fst x = a then set (snd (snd x)) else {}) \<union> sigs_of m a"
  "sigs_wf m \<Longrightarrow> \<forall>x \<in> set xs. snd (snd x) \<noteq> [] \<Longrightarrow> sigs_wf (fold extend_entry xs m)"
proof (induction xs arbitrary: m)
  case (Cons x xs)
  { case 1 show ?case by (cases x) (auto simp: Cons.IH(1) sigs_of_extend_entry) }
  { case 2 then show ?case by (cases x) (simp add: Cons.IH(2) sigs_wf_extend_entry) }
qed simp_all

lemma sigs_of_entries: "hm_wf m \<Longrightarrow> sigs_of m a = (\<Union>x \<in> set m. if fst x = a then set (snd (snd x)) else {})"
proof (cases "map_of m a")
  case None
  then have "a \<notin> fst ` set m" by (simp add: map_of_eq_None_iff)
  with None show ?thesis by (auto simp: sigs_of_def)
next
  case (Some e)
  assume "hm_wf m"
  from map_of_eq_Some_iff [OF this, of a] Some have "(a, y) \<in> set m \<longleftrightarrow> y = e" for y by (metis option.inject)
  then have "{x \<in> set m. fst x = a} = {(a, e)}" by auto
  moreover have "(\<Union>x \<in> set m. if fst x = a then set (snd (snd x)) else {}) = (\<Union>x \<in> {x \<in> set m. fst x = a}. set (snd (snd x)))"
    by auto
  ultimately show ?thesis using Some by (simp add: sigs_of_def case_prod_beta)
qed

lemma call_filter_matches_iff:
  assumes "sigs_wf (cf_contract_signatures f)"
  shows "call_filter_matches f call \<longleftrightarrow> 4 \<le> length (call_input call) \<and>
    take 4 (call_input call) \<in> sigs_of (cf_contract_signatures f) (call_to call) \<union> set (cf_wildcard_signatures f)"
  using sigs_wf_member [OF assms, of "call_to call"]
  by (auto simp: call_filter_matches_def sigs_of_def Let_def split: option.splits)

lemma call_filter_extend_matches:
  assumes "sigs_wf (cf_contract_signatures f)" "sigs_wf (cf_contract_signatures other)"
  shows "call_filter_matches (call_filter_extend other f) call \<longleftrightarrow> call_filter_matches f call \<or> call_filter_matches other call"
proof (cases "call_filter_is_empty other")
  case True
  then show ?thesis by (auto simp: call_filter_extend_def call_filter_is_empty_def call_filter_matches_def Let_def)
next
  case False
  have sigs: "cf_contract_signatures (call_filter_extend other f) = fold extend_entry (cf_contract_signatures other) (cf_contract_signatures f)"
    and wild: "set (cf_wildcard_signatures (call_filter_extend other f)) = set (cf_wildcard_signatures other) \<union> set (cf_wildcard_signatures f)"
  proof -
    have "set (fold List.insert new sigs) = set new \<union> set sigs" for new sigs :: "bytes list"
      by (induction new arbitrary: sigs) auto
    with False show "cf_contract_signatures (call_filter_extend other f) = fold extend_entry (cf_contract_signatures other) (cf_contract_signatures f)"
      "set (cf_wildcard_signatures (call_filter_extend other f)) = set (cf_wildcard_signatures other) \<union> set (cf_wildcard_signatures f)"
      by (simp_all add: call_filter_extend_def)
  qed
  have "sigs_wf (cf_contract_signatures (call_filter_extend other f))"
    unfolding sigs by (rule extend_entries(2)) (use assms in \<open>auto simp: sigs_wf_def\<close>)
  moreover have "hm_wf (cf_contract_signatures other)" using assms(2) by (simp add: sigs_wf_def)
  ultimately show ?thesis
    by (auto simp: call_filter_matches_iff assms sigs wild extend_entries(1) sigs_of_entries)
qed

lemma call_filter_from_data_sources_matches:
  "sigs_wf (cf_contract_signatures (call_filter_from_data_sources lib dss))"
  "call_filter_matches (call_filter_from_data_sources lib dss) call \<longleftrightarrow> 4 \<le> length (call_input call) \<and>
     (\<exists>ds \<in> set dss. ds_address ds = Some (call_to call) \<and>
        (\<exists>h \<in> set (mp_call_handlers (ds_mapping ds)). function_selector lib h = take 4 (call_input call)))"
proof -
  let ?xs = "concat (filter_map (\<lambda>ds. map_option (\<lambda>addr.
      map (\<lambda>h. (ds_start_block ds, addr, function_selector lib h)) (mp_call_handlers (ds_mapping ds))) (ds_address ds)) dss)"
  have [simp]: "call_filter_from_data_sources lib dss = \<lparr> cf_contract_signatures = fold call_entry ?xs [], cf_wildcard_signatures = [] \<rparr>"
    by (simp add: call_filter_from_data_sources_def call_filter_from_iter_def)
  have wf: "sigs_wf (fold call_entry ?xs [])" by (rule call_entries(2)) (simp add: sigs_wf_def)
  then show "sigs_wf (cf_contract_signatures (call_filter_from_data_sources lib dss))" by simp
  have "(\<exists>st. (st, a, s) \<in> set ?xs) \<longleftrightarrow>
      (\<exists>ds \<in> set dss. ds_address ds = Some a \<and> (\<exists>h \<in> set (mp_call_handlers (ds_mapping ds)). function_selector lib h = s))" (is "?l a s \<longleftrightarrow> ?r a s") for a s
  proof
    assume "?l a s"
    then obtain ds h where "ds \<in> set dss" "ds_address ds = Some a" "h \<in> set (mp_call_handlers (ds_mapping ds))"
      "s = function_selector lib h" by auto
    then show "?r a s" by metis
  next
    assume "?r a s"
    then obtain ds h where *: "ds \<in> set dss" "ds_address ds = Some a" "h \<in> set (mp_call_handlers (ds_mapping ds))"
      "function_selector lib h = s" by blast
    then have "(ds_start_block ds, a, s) \<in> set (map (\<lambda>h. (ds_start_block ds, a, function_selector lib h)) (mp_call_handlers (ds_mapping ds)))"
      by auto
    with * show "?l a s" unfolding set_concat set_filter_map by fastforce
  qed
  moreover have "call_filter_matches (call_filter_from_data_sources lib dss) call \<longleftrightarrow> 4 \<le> length (call_input call) \<and>
      (\<exists>st. (st, call_to call, take 4 (call_input call)) \<in> set ?xs)"
    using call_filter_matches_iff [of "\<lparr> cf_contract_signatures = fold call_entry ?xs [], cf_wildcard_signatures = [] \<rparr>" call] wf
    unfolding call_filter.simps call_entries(1) by (simp add: sigs_of_def)
  ultimately show "call_filter_matches (call_filter_from_data_sources lib dss) call \<longleftrightarrow> 4 \<le> length (call_input call) \<and>
     (\<exists>ds \<in> set dss. ds_address ds = Some (call_to call) \<and>
        (\<exists>h \<in> set (mp_call_handlers (ds_mapping ds)). function_selector lib h = take 4 (call_input call)))"
    by presburger
qed

section \<open>Block filters find the blocks that have handlers\<close>

lemma extend_address_set: "snd ` set (extend_address x xs) = insert (snd x) (snd ` set xs)"
proof (cases "find_contract_address xs (snd x)")
  case None
  then show ?thesis by (simp add: extend_address_def)
next
  case (Some current)
  then have cur: "current \<in> set xs" "snd current = snd x"
    unfolding find_contract_address_def by (auto simp: find_Some_iff case_prod_beta)
  have "insert (snd x) (snd ` (set xs - {current})) = insert (snd x) (snd ` set xs)" using cur(2) by auto
  moreover have "snd x \<in> snd ` set xs" using imageI [OF cur(1), of snd] by (simp add: cur(2))
  ultimately show ?thesis using Some by (simp add: extend_address_def insert_absorb)
qed

lemma block_filter_extend_fields:
  "snd ` set (bf_contract_addresses (block_filter_extend other f)) = snd ` set (bf_contract_addresses other) \<union> snd ` set (bf_contract_addresses f)"
  "bf_trigger_every_block (block_filter_extend other f) \<longleftrightarrow> bf_trigger_every_block f \<or> bf_trigger_every_block other"
proof -
  have "snd ` set (fold extend_address xs ys) = snd ` set xs \<union> snd ` set ys" for xs ys
  proof (induction xs arbitrary: ys)
    case (Cons x xs)
    then show ?case using extend_address_set [of x ys] by simp
  qed simp
  then show "snd ` set (bf_contract_addresses (block_filter_extend other f)) = snd ` set (bf_contract_addresses other) \<union> snd ` set (bf_contract_addresses f)"
    "bf_trigger_every_block (block_filter_extend other f) \<longleftrightarrow> bf_trigger_every_block f \<or> bf_trigger_every_block other"
    by (auto simp: block_filter_extend_def block_filter_is_empty_def split: if_splits)
qed

lemma block_filter_of_fields:
  "snd ` set (bf_contract_addresses (block_filter_of ds a)) = (if has_block_handler_with_call_filter (ds_mapping ds) then {a} else {})"
  "bf_trigger_every_block (block_filter_of ds a) \<longleftrightarrow> handler_for_block ds Trig_Every \<noteq> None"
  by (auto simp: block_filter_of_def has_block_handler_with_call_filter_def list_ex_iff find_None_iff)

lemma block_filter_from_data_sources_fields:
  "snd ` set (bf_contract_addresses (block_filter_from_data_sources dss)) =
     {a. \<exists>ds \<in> set dss. ds_address ds = Some a \<and> has_block_handler_with_call_filter (ds_mapping ds)}"
  "bf_trigger_every_block (block_filter_from_data_sources dss) \<longleftrightarrow>
     (\<exists>ds \<in> set dss. ds_address ds \<noteq> None \<and> handler_for_block ds Trig_Every \<noteq> None)"
proof -
  let ?add = "\<lambda>ds f. case ds_address ds of None \<Rightarrow> f | Some address \<Rightarrow> block_filter_extend (block_filter_of ds address) f"
  have "snd ` set (bf_contract_addresses (fold ?add dss f)) = snd ` set (bf_contract_addresses f) \<union>
      {a. \<exists>ds \<in> set dss. ds_address ds = Some a \<and> has_block_handler_with_call_filter (ds_mapping ds)} \<and>
    (bf_trigger_every_block (fold ?add dss f) \<longleftrightarrow> bf_trigger_every_block f \<or>
      (\<exists>ds \<in> set dss. ds_address ds \<noteq> None \<and> handler_for_block ds Trig_Every \<noteq> None))" for f
  proof (induction dss arbitrary: f)
    case (Cons ds dss)
    show ?case
    proof (cases "ds_address ds")
      case None
      with Cons.IH [of f] show ?thesis by simp
    next
      case (Some a)
      with Cons.IH [of "block_filter_extend (block_filter_of ds a) f"] show ?thesis
        unfolding block_filter_extend_fields block_filter_of_fields by (auto simp del: handler_for_block.simps)
    qed
  qed simp
  from this [of block_filter_default] show
    "snd ` set (bf_contract_addresses (block_filter_from_data_sources dss)) =
       {a. \<exists>ds \<in> set dss. ds_address ds = Some a \<and> has_block_handler_with_call_filter (ds_mapping ds)}"
    "bf_trigger_every_block (block_filter_from_data_sources dss) \<longleftrightarrow>
       (\<exists>ds \<in> set dss. ds_address ds \<noteq> None \<and> handler_for_block ds Trig_Every \<noteq> None)"
    unfolding block_filter_from_data_sources_def by (simp_all add: block_filter_default_def del: handler_for_block.simps)
qed

lemma call_filter_from_block_filter_matches:
  "call_filter_matches (call_filter_from_block_filter f) call \<longleftrightarrow>
     4 \<le> length (call_input call) \<and> call_to call \<in> snd ` set (bf_contract_addresses f)"
proof -
  have "case map_of (fold (\<lambda>(start_block, address). hm_insert address (start_block, [])) xs m) a of
      None \<Rightarrow> a \<notin> snd ` set xs \<and> map_of m a = None
    | Some (_, sigs) \<Rightarrow> (a \<in> snd ` set xs \<or> map_of m a \<noteq> None) \<and> sigs = []"
    if "\<forall>a b sigs. map_of m a = Some (b, sigs) \<longrightarrow> sigs = []" for xs and m :: "(address, block_number \<times> bytes list) hash_map" and a
    using that
  proof (induction xs arbitrary: m)
    case Nil
    then show ?case by (auto split: option.splits)
  next
    case (Cons x xs)
    obtain st a' where x: "x = (st, a')" by (cases x)
    have "\<forall>a b sigs. map_of (hm_insert a' (st, []) m) a = Some (b, sigs) \<longrightarrow> sigs = []"
      using Cons.prems by (simp add: hm_simps)
    from Cons.IH [OF this] show ?case by (auto simp: x hm_simps split: option.splits if_splits)
  qed
  from this [of "[]" "call_to call" "bf_contract_addresses f"] show ?thesis
    by (auto simp: call_filter_matches_def call_filter_from_block_filter_def Let_def split: option.splits)
qed

section \<open>No trigger is missed\<close>

text \<open>The triggers that a block has, whatever data sources there are.\<close>

fun trigger_of_block :: "block_with_calls \<Rightarrow> eth_trigger \<Rightarrow> bool" where
  "trigger_of_block b (Trig_Log lg r) \<longleftrightarrow> (\<exists>receipt \<in> set (eb_receipts (bwc_block b)). r = Some receipt \<and> lg \<in> set (rc_logs receipt))"
| "trigger_of_block b (Trig_Call call) \<longleftrightarrow>
     (\<exists>calls. bwc_calls b = Some calls \<and> call \<in> set calls \<and> transaction_for_call_succeeded b call = Inr True)"
| "trigger_of_block b (Trig_Block p Trig_Every) \<longleftrightarrow> light_block_ptr (eb_block (bwc_block b)) = Some p"
| "trigger_of_block b (Trig_Block p (Trig_WithCallTo a)) \<longleftrightarrow> light_block_ptr (eb_block (bwc_block b)) = Some p \<and>
     (\<exists>calls. bwc_calls b = Some calls \<and> (\<exists>call \<in> set calls. call_to call = a \<and> 4 \<le> length (call_input call)))"

definition needs_address :: "data_source \<Rightarrow> bool" where
  "needs_address ds \<longleftrightarrow> mp_call_handlers (ds_mapping ds) \<noteq> [] \<or> mp_block_handlers (ds_mapping ds) \<noteq> []"

lemma validated_address: "VE_SourceAddressRequired \<notin> set (ds_validate ds) \<Longrightarrow> needs_address ds \<Longrightarrow> \<exists>a. ds_address ds = Some a"
  by (auto simp: ds_validate_def needs_address_def Let_def split: if_splits)

lemma succeeded_calls_set:
  "succeeded_calls b calls = Inr ts \<Longrightarrow> set ts = {Trig_Call c | c. c \<in> set calls \<and> transaction_for_call_succeeded b c = Inr True}"
proof (induction calls arbitrary: ts)
  case (Cons c calls)
  from Cons.prems obtain ok us where *: "transaction_for_call_succeeded b c = Inr ok" "succeeded_calls b calls = Inr us"
      "ts = (if ok then Trig_Call c # us else us)"
    by (auto split: sum.splits)
  from Cons.IH [OF *(2)] * show ?case by (auto split: if_splits)
qed simp

lemma match_log_handlers: "match_log lib ds lg r b = Return (Inr (Some h)) \<Longrightarrow> \<exists>x xs. handlers_for_log lib ds lg = Inr (x # xs)"
proof -
  assume m: "match_log lib ds lg r b = Return (Inr (Some h))"
  then obtain hs where hs: "handlers_for_log lib ds lg = Inr hs" by (auto simp: match_log_def split: sum.splits)
  with m have "hs \<noteq> []" by (auto simp: match_log_def)
  with hs show ?thesis by (auto simp: neq_Nil_conv)
qed

lemma match_call_handler:
  "match_call lib ds call b = Return (Inr (Some h)) \<Longrightarrow> 4 \<le> length (call_input call) \<and>
     (\<exists>x \<in> set (mp_call_handlers (ds_mapping ds)). function_selector lib x = take 4 (call_input call))"
proof -
  assume m: "match_call lib ds call b = Return (Inr (Some h))"
  then obtain x where "handler_for_call lib ds call = Inr (Some x)" by (auto simp: match_call_def split: sum.splits option.splits)
  then show ?thesis by (auto simp: handler_for_call_def find_Some_iff split: if_splits)
qed

lemma match_and_decode_cases:
  assumes "match_and_decode lib ds t b = Return (Inr (Some h))"
  shows "matches_trigger_address ds t"
    and "case t of Trig_Block _ k \<Rightarrow> handler_for_block ds k \<noteq> None
         | Trig_Log lg r \<Rightarrow> match_log lib ds lg r b = Return (Inr (Some h))
         | Trig_Call call \<Rightarrow> match_call lib ds call b = Return (Inr (Some h))"
  using assms by (auto simp: match_and_decode_def split: if_splits option.splits eth_trigger.splits)

lemma default_filters:
  "tf_call (trigger_filter_extend lib ops dss (trigger_filter_default ops)) =
     call_filter_extend (call_filter_from_data_sources lib dss) \<lparr> cf_contract_signatures = [], cf_wildcard_signatures = [] \<rparr>"
  "tf_log (trigger_filter_extend lib ops dss (trigger_filter_default ops)) =
     log_filter_extend ops (log_filter_from_data_sources lib ops dss) (log_filter_default ops)"
  "tf_block (trigger_filter_extend lib ops dss (trigger_filter_default ops)) =
     block_filter_extend (block_filter_from_data_sources dss) block_filter_default"
  by (simp_all add: trigger_filter_extend_def trigger_filter_default_def)

lemma call_filter_empty_matches: "call_filter_is_empty f \<Longrightarrow> \<not> call_filter_matches f call"
  by (auto simp: call_filter_is_empty_def call_filter_matches_def Let_def)

lemma call_filter_default_extend:
  "call_filter_matches (tf_call (trigger_filter_extend lib ops dss (trigger_filter_default ops))) call \<longleftrightarrow>
     call_filter_matches (call_filter_from_data_sources lib dss) call"
proof -
  let ?d = "\<lparr> cf_contract_signatures = [], cf_wildcard_signatures = [] \<rparr>"
  have "sigs_wf (cf_contract_signatures ?d)" "\<not> call_filter_matches ?d call"
    by (simp_all add: sigs_wf_def call_filter_empty_matches call_filter_is_empty_def)
  with call_filter_extend_matches [OF this(1) call_filter_from_data_sources_matches(1), of lib dss call]
  show ?thesis unfolding default_filters by blast
qed


lemma parse_call_triggers_set:
  assumes "parse_call_triggers f b = Inr ts"
  shows "set ts = {Trig_Call c | c. trigger_of_block b (Trig_Call c) \<and> call_filter_matches f c}"
proof (cases "call_filter_is_empty f")
  case True
  with assms call_filter_empty_matches [OF True] show ?thesis by (simp add: parse_call_triggers_def)
next
  case False
  show ?thesis
  proof (cases "bwc_calls b")
    case None
    with False assms show ?thesis by (simp add: parse_call_triggers_def)
  next
    case (Some calls)
    with False assms have "succeeded_calls b (filter (call_filter_matches f) calls) = Inr ts" by (simp add: parse_call_triggers_def)
    from succeeded_calls_set [OF this] Some show ?thesis by auto
  qed
qed

lemma parse_block_triggers_set:
  assumes "parse_block_triggers f b = Some ts"
  shows "set ts = {Trig_Block p (Trig_WithCallTo a) | p a. trigger_of_block b (Trig_Block p (Trig_WithCallTo a)) \<and>
        a \<in> snd ` set (bf_contract_addresses f)} \<union>
      {Trig_Block p Trig_Every | p. trigger_of_block b (Trig_Block p Trig_Every) \<and> bf_trigger_every_block f}"
proof (cases "block_filter_is_empty f")
  case True
  with assms show ?thesis by (simp add: parse_block_triggers_def block_filter_is_empty_def split: if_splits)
next
  case False
  with assms obtain p where p: "light_block_ptr (eb_block (bwc_block b)) = Some p"
    by (auto simp: parse_block_triggers_def split: option.splits)
  with False assms have ts: "ts = (case bwc_calls b of
        Some calls \<Rightarrow> map (\<lambda>call. Trig_Block p (Trig_WithCallTo (call_to call)))
          (filter (call_filter_matches (call_filter_from_block_filter f)) calls)
      | None \<Rightarrow> []) @ (if bf_trigger_every_block f then [Trig_Block p Trig_Every] else [])"
    by (simp add: parse_block_triggers_def Let_def)
  show ?thesis by (cases "bwc_calls b") (auto simp: ts p call_filter_from_block_filter_matches)
qed

context graph_map
begin

lemma log_filter_empty_matches: "log_filter_is_empty ops f \<Longrightarrow> \<not> log_filter_matches ops f lg"
  using edge_count_0 [of "lf_graph f"] by (auto simp: log_filter_matches_iff log_filter_is_empty_def)

lemma parse_log_triggers_set:
  "set (parse_log_triggers ops f (bwc_block b)) =
     {Trig_Log lg r | lg r. trigger_of_block b (Trig_Log lg r) \<and> log_filter_matches ops f lg}"
proof (cases "log_filter_is_empty ops f")
  case True
  with log_filter_empty_matches [OF True] show ?thesis by (simp add: parse_log_triggers_def)
next
  case False
  then show ?thesis by (auto simp: parse_log_triggers_def)
qed

end

lemma call_handled:
  assumes "match_and_decode lib ds (Trig_Call call) b = Return (Inr (Some h))" "VE_SourceAddressRequired \<notin> set (ds_validate ds)"
    "ds \<in> set dss"
  shows "call_filter_matches (call_filter_from_data_sources lib dss) call"
proof -
  note m = match_and_decode_cases [OF assms(1)]
  from match_call_handler [of lib ds call b h] m(2) obtain x where x: "4 \<le> length (call_input call)"
      "x \<in> set (mp_call_handlers (ds_mapping ds))" "function_selector lib x = take 4 (call_input call)" by auto
  then have "needs_address ds" by (auto simp: needs_address_def)
  from validated_address [OF assms(2) this] m(1) have "ds_address ds = Some (call_to call)"
    by (auto simp: matches_trigger_address_def)
  with x assms(3) show ?thesis unfolding call_filter_from_data_sources_matches by blast
qed

lemma block_handled:
  assumes "match_and_decode lib ds (Trig_Block p k) b = Return (Inr (Some h))" "VE_SourceAddressRequired \<notin> set (ds_validate ds)"
    "ds \<in> set dss"
  shows "case k of Trig_Every \<Rightarrow> bf_trigger_every_block (block_filter_from_data_sources dss)
    | Trig_WithCallTo a \<Rightarrow> a \<in> snd ` set (bf_contract_addresses (block_filter_from_data_sources dss))"
proof -
  note m = match_and_decode_cases [OF assms(1)]
  from m(2) obtain x where x: "handler_for_block ds k = Some x" by auto
  then have "needs_address ds" by (cases k) (auto simp: needs_address_def)
  from validated_address [OF assms(2) this] obtain a where a: "ds_address ds = Some a" by blast
  show ?thesis
  proof (cases k)
    case Trig_Every
    with x a assms(3) show ?thesis unfolding block_filter_from_data_sources_fields by auto
  next
    case (Trig_WithCallTo a')
    with x have "has_block_handler_with_call_filter (ds_mapping ds)"
      by (auto simp: has_block_handler_with_call_filter_def list_ex_iff find_Some_iff)
    with a m(1) Trig_WithCallTo assms(3) show ?thesis
      unfolding block_filter_from_data_sources_fields by (auto simp: matches_trigger_address_def)
  qed
qed

lemma block_filter_default_extend:
  "snd ` set (bf_contract_addresses (block_filter_extend f block_filter_default)) = snd ` set (bf_contract_addresses f)"
  "bf_trigger_every_block (block_filter_extend f block_filter_default) = bf_trigger_every_block f"
  unfolding block_filter_extend_fields by (simp_all add: block_filter_default_def)

lemma nonfinal_triggers:
  assumes "triggers_in_nonfinal_block ops f b = Some (Inr (b', ts))"
  obtains calls blocks where "parse_call_triggers (tf_call f) b = Inr calls" "parse_block_triggers (tf_block f) b = Some blocks"
    "set ts \<subseteq> set (parse_log_triggers ops (tf_log f) (bwc_block b)) \<union> set calls \<union> set blocks"
    "\<And>t. t \<in> set (parse_log_triggers ops (tf_log f) (bwc_block b)) \<union> set calls \<union> set blocks \<Longrightarrow> \<exists>t' \<in> set ts. trigger_eq t t'"
proof -
  from assms obtain calls blocks where cb: "parse_call_triggers (tf_call f) b = Inr calls"
      "parse_block_triggers (tf_block f) b = Some blocks"
    by (auto simp: triggers_in_nonfinal_block_def split: sum.splits option.splits)
  let ?all = "parse_log_triggers ops (tf_log f) (bwc_block b) @ calls @ blocks"
  from assms cb have ts: "ts = dedup_by trigger_eq (sort_by trigger_le ?all)"
    by (auto simp: triggers_in_nonfinal_block_def block_with_triggers_new_def split: if_splits)
  show ?thesis
  proof (rule that [OF cb])
    show "set ts \<subseteq> set (parse_log_triggers ops (tf_log f) (bwc_block b)) \<union> set calls \<union> set blocks"
      using set_dedup_by [of trigger_eq "sort_by trigger_le ?all"] ts by auto
    fix t
    assume "t \<in> set (parse_log_triggers ops (tf_log f) (bwc_block b)) \<union> set calls \<union> set blocks"
    then have "t \<in> set (sort_by trigger_le ?all)" by simp
    from dedup_by_keeps [OF trigger_eq_refl this] show "\<exists>t' \<in> set ts. trigger_eq t t'" unfolding ts .
  qed
qed

text \<open>
  C10. The filter that is made of a list of data sources misses nothing: if a block that is not final yet has a log, a call
  that succeeded, or is itself a trigger that one of the data sources has a handler for, then this trigger, or one equal
  to it, is among the triggers found in the block. All triggers found are in the block, and for each there is a data
  source with its address or with no address. Data sources with call or block handlers need an address, which is
  what the validation of a data source checks.
\<close>

theorem no_trigger_missed:
  assumes "graph_map ops edge" "\<forall>ds \<in> set dss. VE_SourceAddressRequired \<notin> set (ds_validate ds)"
    and "triggers_in_nonfinal_block ops (trigger_filter_extend lib ops dss (trigger_filter_default ops)) b = Some (Inr (b', ts))"
  shows "(\<forall>t. trigger_of_block b t \<longrightarrow>
      (\<exists>ds \<in> set dss. \<exists>h. match_and_decode lib ds t (eb_block (bwc_block b)) = Return (Inr (Some h))) \<longrightarrow>
      (\<exists>t' \<in> set ts. trigger_eq t t')) \<and>
    (\<forall>t \<in> set ts. trigger_of_block b t \<and> (\<exists>ds \<in> set dss. matches_trigger_address ds t))"
proof -
  note gm = assms(1)
  let ?f = "trigger_filter_extend lib ops dss (trigger_filter_default ops)"
  from nonfinal_triggers [OF assms(3)] obtain calls blocks where
    cb: "parse_call_triggers (tf_call ?f) b = Inr calls" "parse_block_triggers (tf_block ?f) b = Some blocks"
    and sub: "set ts \<subseteq> set (parse_log_triggers ops (tf_log ?f) (bwc_block b)) \<union> set calls \<union> set blocks"
    and keep: "\<And>t. t \<in> set (parse_log_triggers ops (tf_log ?f) (bwc_block b)) \<union> set calls \<union> set blocks \<Longrightarrow> \<exists>t' \<in> set ts. trigger_eq t t'"
    by blast
  have logs: "Trig_Log lg r \<in> set (parse_log_triggers ops (tf_log ?f) (bwc_block b)) \<longleftrightarrow> trigger_of_block b (Trig_Log lg r) \<and>
      (\<exists>ds \<in> set dss. matches_trigger_address ds (Trig_Log lg r) \<and> (\<exists>h hs. handlers_for_log lib ds lg = Inr (h # hs)))" for lg r
    unfolding graph_map.parse_log_triggers_set [OF gm] default_filters graph_map.log_filter_extend_matches [OF gm]
      graph_map.data_sources_filter(2) [OF gm, where r = r]
    by (auto simp: graph_map.default_matches [OF gm])
  note calls = parse_call_triggers_set [OF cb(1), unfolded call_filter_default_extend]
  note blocks = parse_block_triggers_set [OF cb(2), unfolded default_filters block_filter_default_extend]
  have "\<exists>t' \<in> set ts. trigger_eq t t'"
    if t: "trigger_of_block b t" and ds: "ds \<in> set dss" "match_and_decode lib ds t (eb_block (bwc_block b)) = Return (Inr (Some h))"
    for t ds h
  proof (cases t)
    case (Trig_Block p k)
    with block_handled [of lib ds p k] ds assms(2) t have "t \<in> set blocks" unfolding blocks by (cases k) auto
    then show ?thesis by (intro keep) simp
  next
    case (Trig_Call call)
    with call_handled [of lib ds call] ds assms(2) t have "t \<in> set calls" unfolding calls by blast
    then show ?thesis by (intro keep) simp
  next
    case (Trig_Log lg r)
    with match_and_decode_cases [OF ds(2)] match_log_handlers [of lib ds lg r] ds(1) t
    have "t \<in> set (parse_log_triggers ops (tf_log ?f) (bwc_block b))" unfolding Trig_Log logs by auto
    then show ?thesis by (intro keep) simp
  qed
  moreover have "trigger_of_block b t \<and> (\<exists>ds \<in> set dss. matches_trigger_address ds t)" if "t \<in> set ts" for t
  proof -
    from that sub consider "t \<in> set (parse_log_triggers ops (tf_log ?f) (bwc_block b))" | "t \<in> set calls" | "t \<in> set blocks" by blast
    then show ?thesis
    proof cases
      case 1
      then obtain lg r where "t = Trig_Log lg r" unfolding graph_map.parse_log_triggers_set [OF gm] by blast
      with 1 logs show ?thesis by blast
    next
      case 2
      then obtain c ds where "t = Trig_Call c" "trigger_of_block b t" "ds \<in> set dss" "ds_address ds = Some (call_to c)"
        unfolding calls call_filter_from_data_sources_matches by blast
      moreover from this have "matches_trigger_address ds t" by (simp add: matches_trigger_address_def)
      ultimately show ?thesis by blast
    next
      case 3
      then obtain p k ds where "t = Trig_Block p k" "trigger_of_block b t" "ds \<in> set dss" "\<And>a. k = Trig_WithCallTo a \<Longrightarrow> ds_address ds = Some a"
        unfolding blocks block_filter_from_data_sources_fields by blast
      moreover from this have "matches_trigger_address ds t"
        by (cases k) (simp_all add: matches_trigger_address_def split: option.split)
      ultimately show ?thesis by blast
    qed
  qed
  ultimately show ?thesis by blast
qed

definition example_log :: eth_log where
  "example_log = \<lparr> log_address = 9, log_topics = [5], log_data = [], log_block_hash = Some 1, log_block_number = Some 7,
     log_transaction_hash = Some 3, log_transaction_index = Some 0, log_index = Some 0 \<rparr>"

definition example_light_block :: light_block where
  "example_light_block = \<lparr> blk_hash = Some 1, blk_number = Some 7, blk_parent_hash = 0, blk_transactions =
     [\<lparr> tx_hash = 3, tx_block_hash = Some 1, tx_block_number = Some 7, tx_index = Some 0, tx_from = None, tx_rest = [] \<rparr>] \<rparr>"

definition example_receipt :: tx_receipt where
  "example_receipt = \<lparr> rc_transaction_hash = 3, rc_logs = [example_log], rc_status = Some 1 \<rparr>"

definition example_call :: "address \<Rightarrow> eth_call" where
  "example_call a = \<lparr> call_from = 4, call_to = a, call_value = 0, call_gas_used = 0, call_input = [1, 2, 3, 4], call_output = [],
     call_block_number = 7, call_block_hash = 1, call_transaction_hash = Some 3, call_transaction_index = 0 \<rparr>"

definition example_block :: block_with_calls where
  "example_block = \<lparr> bwc_block = \<lparr> eb_block = example_light_block, eb_receipts = [example_receipt] \<rparr>,
     bwc_calls = Some [example_call 9] \<rparr>"

definition example_block_source :: data_source where
  "example_block_source = (example_source (Some 9) example_handler)\<lparr>ds_mapping := example_mapping
     \<lparr>mp_block_handlers := [\<lparr> bh_handler = ''handleBlock'', bh_filter = Some BHF_Call \<rparr>, \<lparr> bh_handler = ''handleEvery'', bh_filter = None \<rparr>]\<rparr>\<rparr>"

lemmas example_block_defs = example_block_def example_light_block_def example_receipt_def example_call_def example_log_def
  example_block_source_def example_source_def example_mapping_def example_handler_def

lemma example_block_ptr: "light_block_ptr (eb_block (bwc_block example_block)) = Some (ptr_of 1 7)"
  by (simp add: example_block_defs light_block_ptr_def block_number_of_def BLOCK_NUMBER_MAX_def)

theorem no_trigger_missed_witness:
  "\<exists>ts. triggers_in_nonfinal_block list_graph
       (trigger_filter_extend example_lib list_graph [example_block_source] (trigger_filter_default list_graph)) example_block
       = Some (Inr (example_block, ts)) \<and>
     (\<exists>t' \<in> set ts. trigger_eq (Trig_Block (ptr_of 1 7) (Trig_WithCallTo 9)) t')"
proof -
  let ?f = "trigger_filter_extend example_lib list_graph [example_block_source] (trigger_filter_default list_graph)"
  have f: "tf_log ?f = log_filter_default list_graph" "call_filter_is_empty (tf_call ?f)"
    "tf_block ?f = \<lparr> bf_contract_addresses = [(0, 9)], bf_trigger_every_block = True \<rparr>"
    unfolding default_filters
    by (simp_all add: log_filter_extend_def log_filter_is_empty_def log_filter_from_data_sources_def log_filter_default_def
        list_graph_def gm_edge_count_def example_block_defs call_filter_from_data_sources_def call_filter_from_iter_def
        call_filter_extend_def call_filter_is_empty_def block_filter_from_data_sources_def block_filter_of_def block_filter_extend_def
        block_filter_is_empty_def block_filter_default_def extend_address_def find_contract_address_def)
  have "log_filter_is_empty list_graph (log_filter_default list_graph)"
    by (simp add: log_filter_is_empty_def log_filter_default_def list_graph_def gm_edge_count_def)
  moreover have "parse_block_triggers (tf_block ?f) example_block =
      Some [Trig_Block (ptr_of 1 7) (Trig_WithCallTo 9), Trig_Block (ptr_of 1 7) Trig_Every]"
    by (simp add: parse_block_triggers_def block_filter_is_empty_def f(3) example_block_ptr)
      (simp add: example_block_def example_call_def call_filter_from_block_filter_matches)
  ultimately obtain ts where ts: "triggers_in_nonfinal_block list_graph ?f example_block = Some (Inr (example_block, ts))"
    using f(2) by (simp add: triggers_in_nonfinal_block_def parse_call_triggers_def f(1) parse_log_triggers_def block_with_triggers_new_def)
  have "\<forall>ds \<in> set [example_block_source]. VE_SourceAddressRequired \<notin> set (ds_validate ds)"
    by (simp add: ds_validate_def Let_def example_block_defs)
  note missed = no_trigger_missed [OF lgraph.graph_map_axioms this ts, THEN conjunct1, rule_format]
  have "trigger_of_block example_block (Trig_Block (ptr_of 1 7) (Trig_WithCallTo 9))"
    using example_block_ptr by (simp add: example_block_def example_call_def)
  moreover have "\<exists>h. match_and_decode example_lib example_block_source (Trig_Block (ptr_of 1 7) (Trig_WithCallTo 9))
      (eb_block (bwc_block example_block)) = Return (Inr (Some h))"
    using example_block_ptr
    by (simp add: match_and_decode_def with_handler_def matches_trigger_address_def light_number_def block_number_of_def
        BLOCK_NUMBER_MAX_def example_block_defs)
  ultimately show ?thesis using missed ts by auto
qed

section \<open>What the filters leave out\<close>

text \<open>
  C38. Whether the receipt of a transaction is fetched for an event of a contract depends on the last handler for
  that event only, of the handlers for the contract and of those for all contracts: an earlier handler with
  \<open>receipt: true\<close> is forgotten when a later one for the same contract and event does without. The
  edges of the graph are listed with their contract first.
\<close>

theorem receipts_only_for_last_handler:
  assumes "graph_map ops edge"
    and "\<forall>x \<in> set (gm_all_edges ops (lf_graph (log_filter_from_data_sources lib ops dss))). \<exists>c. fst x = LF_Contract c"
  shows "requires_transaction_receipt ops (log_filter_from_data_sources lib ops dss) e (Some a) \<longleftrightarrow>
    (\<exists>h. last_handler lib (ds_handlers dss) None e = Some h \<and> eh_receipt h) \<or>
    (\<exists>h. last_handler lib (ds_handlers dss) (Some a) e = Some h \<and> eh_receipt h)"
proof -
  let ?f = "log_filter_from_data_sources lib ops dss"
  note hf = graph_map.handlers_filter [OF assms(1), of lib "ds_handlers dss", folded from_data_sources_fold]
  have first: "(LF_Event e, t, r) \<notin> set (gm_all_edges ops (lf_graph ?f))" for t r using assms(2) by fastforce
  have listed: "(LF_Contract a, LF_Event e, True) \<in> set (gm_all_edges ops (lf_graph ?f)) \<longleftrightarrow>
      edge (lf_graph ?f) (LF_Contract a) (LF_Event e) = Some True"
    using graph_map.all_edges_sound [OF assms(1)] graph_map.all_edges_complete [OF assms(1)] first by metis
  have "list_ex (\<lambda>(s, t, r). r \<and> (s = LF_Contract a \<and> t = LF_Event e) \<or> (t = LF_Contract a \<and> s = LF_Event e))
      (gm_all_edges ops (lf_graph ?f)) \<longleftrightarrow> (LF_Contract a, LF_Event e, True) \<in> set (gm_all_edges ops (lf_graph ?f))"
    using first [of "LF_Contract a"] unfolding list_ex_iff by auto
  with listed hf(1,2) show ?thesis by (auto simp: requires_transaction_receipt_def)
qed

theorem receipts_only_for_last_handler_witness:
  "\<not> requires_transaction_receipt list_graph (log_filter_from_data_sources example_lib list_graph
       [example_source (Some 9) example_handler, example_source (Some 9) (example_handler\<lparr>eh_receipt := False\<rparr>)]) 5 (Some 9)"
proof -
  let ?dss = "[example_source (Some 9) example_handler, example_source (Some 9) (example_handler\<lparr>eh_receipt := False\<rparr>)]"
  have "ds_handlers ?dss = [(Some 9, example_handler), (Some 9, example_handler\<lparr>eh_receipt := False\<rparr>)]"
    by (simp add: ds_handlers_def example_source_def)
  then have "last_handler example_lib (ds_handlers ?dss) None 5 = None"
    "last_handler example_lib (ds_handlers ?dss) (Some 9) 5 = Some (example_handler\<lparr>eh_receipt := False\<rparr>)"
    by (simp_all add: last_handler_def topic0_def example_handler_def)
  moreover have "\<forall>x \<in> set (gm_all_edges list_graph (lf_graph (log_filter_from_data_sources example_lib list_graph ?dss))). \<exists>c. fst x = LF_Contract c"
    by (simp add: log_filter_from_data_sources_def example_source_def add_event_handler_def list_graph_def log_filter_default_def)
  ultimately show ?thesis using receipts_only_for_last_handler [OF lgraph.graph_map_axioms, of example_lib ?dss 5 9] by simp
qed

text \<open>
  C39. Block handlers with a call filter see different blocks before and after the blocks are final: if some data
  source has a handler for every block, then a call to a contract with a call filter makes a trigger in a block that is
  not final, but none when a range of final blocks is scanned.
\<close>

theorem scan_skips_call_filtered_blocks:
  assumes "bf_trigger_every_block f" "a \<in> snd ` set (bf_contract_addresses f)"
    and "bwc_calls b = Some calls" "call \<in> set calls" "call_to call = a" "4 \<le> length (call_input call)"
    and "light_block_ptr (eb_block (bwc_block b)) = Some p"
  shows "(\<exists>ts. parse_block_triggers f b = Some ts \<and> Trig_Block p (Trig_WithCallTo a) \<in> set ts) \<and>
    (\<forall>trace_stream to ptrs. Trig_Block p (Trig_WithCallTo a) \<notin> set (scan_block_triggers trace_stream f to ptrs))"
proof -
  obtain ts where "parse_block_triggers f b = Some ts"
    using assms(7) by (cases "block_filter_is_empty f") (simp_all add: parse_block_triggers_def Let_def)
  moreover from parse_block_triggers_set [OF this] assms have "Trig_Block p (Trig_WithCallTo a) \<in> set ts" by auto
  ultimately show ?thesis using assms(1) by (auto simp: scan_block_triggers_def)
qed

theorem scan_skips_call_filtered_blocks_witness:
  "\<forall>trace_stream to ptrs. Trig_Block (ptr_of 1 7) (Trig_WithCallTo 9) \<notin>
     set (scan_block_triggers trace_stream \<lparr> bf_contract_addresses = [(0, 9)], bf_trigger_every_block = True \<rparr> to ptrs)"
  using scan_skips_call_filtered_blocks [of "\<lparr> bf_contract_addresses = [(0, 9)], bf_trigger_every_block = True \<rparr>" 9
      example_block "[example_call 9]" "example_call 9" "ptr_of 1 7"] example_block_ptr
  by (simp add: example_block_def example_call_def)

text \<open>
  The same trigger can be among the triggers of a block more than once: all block triggers compare as equal, so
  they are not sorted, and duplicates are removed only where they are next to each other. Here a block calls a
  contract, another one, and the first again.
\<close>

theorem duplicate_triggers_survive:
  assumes "a \<noteq> c"
  shows "block_with_triggers_new b
      [Trig_Block p (Trig_WithCallTo a), Trig_Block p (Trig_WithCallTo c), Trig_Block p (Trig_WithCallTo a)] =
    Some (b, [Trig_Block p (Trig_WithCallTo a), Trig_Block p (Trig_WithCallTo c), Trig_Block p (Trig_WithCallTo a)])"
  using assms by (simp add: block_with_triggers_new_def trigger_le_simps)

theorem duplicate_triggers_survive_witness:
  "block_with_triggers_new () [Trig_Block example_ptr (Trig_WithCallTo 1), Trig_Block example_ptr (Trig_WithCallTo 2), Trig_Block example_ptr (Trig_WithCallTo 1)] \<noteq>
     Some ((), [Trig_Block example_ptr (Trig_WithCallTo 1), Trig_Block example_ptr (Trig_WithCallTo 2)])"
  using duplicate_triggers_survive [of 1 2 "()" example_ptr] by simp

text \<open>
  The text of node capabilities is read back as the same capabilities unless a node has both: they are written
  with a blank after the comma, and read without one, so the second is lost.
\<close>

theorem capabilities_text_round_trip:
  "capabilities_from_str (capabilities_display c) = c \<longleftrightarrow> \<not> (cap_archive c \<and> cap_traces c)"
proof (cases c)
  case (fields archive traces)
  then show ?thesis
    by (cases archive; cases traces) (simp_all add: capabilities_from_str_def capabilities_display_def)
qed

end
