(* ===== verification/Polling_Stream.thy ===== *)
theory Polling_Stream
  imports Float64 Writable_Queue
begin

text \<open>
  The block stream of \<open>graph/src/blockchain/polling_block_stream.rs\<close>, which tells a subgraph which blocks to process
  and which to revert so that it follows the chain through its reorganisations.

  The chain store and the \<open>TriggersAdapter\<close> of a chain are the record \<open>chain_world\<close>: their answers while one
  reconciliation step runs. Each step gets its own, so the chain may change at any time. What their documentation
  promises is the locale \<open>chain_laws\<close>. A block is what its trait gives: its pointer and that of its parent.
\<close>

section \<open>State\<close>

record chain_block =
  cb_ptr :: block_ptr
  cb_parent_ptr :: "block_ptr option"

definition cb_parent_hash :: "chain_block \<Rightarrow> bytes option" where
  "cb_parent_hash b = map_option ptr_hash (cb_parent_ptr b)"

text \<open>A \<open>BlockWithTriggers\<close>.\<close>

type_synonym 'd triggered_block = "chain_block \<times> 'd list"

record 'd chain_world =
  w_chain_head_ptr :: "string + block_ptr option"
  w_ancestor_block :: "block_ptr \<Rightarrow> block_number \<Rightarrow> string + chain_block option"
  w_scan_triggers :: "block_number \<Rightarrow> block_number \<Rightarrow> string + 'd triggered_block list"
  w_triggers_in_block :: "chain_block \<Rightarrow> string + 'd triggered_block"
  w_is_on_main_chain :: "block_ptr \<Rightarrow> string + bool"
  w_parent_ptr :: "block_ptr \<Rightarrow> string + block_ptr option"

record stream_ctx =
  ctx_reorg_threshold :: block_number
  ctx_start_blocks :: "block_number list"
  ctx_previous_triggers_per_block :: f64
  ctx_previous_block_range_size :: block_number
  ctx_max_block_range_size :: block_number
  ctx_target_triggers_per_block_range :: u64
  ctx_current_block :: "block_ptr option"

datatype 'd reconciliation_step =
    Step_Revert block_ptr
  | Step_ProcessDescendantBlocks "'d triggered_block list" block_number
  | Step_Retry
  | Step_Done

datatype 'd next_blocks_result =
    Next_Blocks "'d triggered_block list" block_number
  | Next_Revert block_ptr
  | Next_Done

text \<open>A future that is being polled holds the context it was started with; a delay is a number of seconds.\<close>

datatype 'd block_stream_state =
    BS_BeginReconciliation
  | BS_Reconciliation stream_ctx
  | BS_YieldingBlocks "'d triggered_block list"
  | BS_RetryAfterDelay nat
  | BS_Idle

record 'd polling_stream =
  ps_state :: "'d block_stream_state"
  ps_consecutive_err_count :: u32
  ps_ctx :: stream_ctx

definition STARTING_PREVIOUS_TRIGGERS_PER_BLOCK :: f64 where
  "STARTING_PREVIOUS_TRIGGERS_PER_BLOCK = Fin 1000000"

definition polling_stream_new ::
    "block_number list \<Rightarrow> block_number \<Rightarrow> block_number \<Rightarrow> u64 \<Rightarrow> block_ptr option \<Rightarrow> 'd polling_stream" where
  "polling_stream_new start_blocks reorg_threshold max_block_range_size target start_block =
     \<lparr> ps_state = BS_BeginReconciliation, ps_consecutive_err_count = 0,
       ps_ctx = \<lparr> ctx_reorg_threshold = reorg_threshold, ctx_start_blocks = start_blocks,
         ctx_previous_triggers_per_block = STARTING_PREVIOUS_TRIGGERS_PER_BLOCK, ctx_previous_block_range_size = 1,
         ctx_max_block_range_size = max_block_range_size, ctx_target_triggers_per_block_range = target,
         ctx_current_block = start_block \<rparr> \<rparr>"

section \<open>Reconciliation\<close>

definition range_size_upper_limit :: "stream_ctx \<Rightarrow> block_number" where
  "range_size_upper_limit ctx = min (ctx_max_block_range_size ctx) (ctx_previous_block_range_size ctx * 10)"

definition range_size :: "rounding \<Rightarrow> stream_ctx \<Rightarrow> block_number" where
  "range_size rnd ctx =
     (if f64_eq (ctx_previous_triggers_per_block ctx) (Fin 0) then range_size_upper_limit ctx
      else f64_as_i32 (f64_min (f64_max
             (f64_div rnd (f64_of_nat rnd (unat (ctx_target_triggers_per_block_range ctx))) (ctx_previous_triggers_per_block ctx))
             (Fin 1)) (f64_of_int rnd (range_size_upper_limit ctx))))"

definition next_start_block :: "stream_ctx \<Rightarrow> block_number \<Rightarrow> block_number" where
  "next_start_block ctx from =
     (case filter (\<lambda>b. b > from) (ctx_start_blocks ctx) of [] \<Rightarrow> BLOCK_NUMBER_MAX | b # bs \<Rightarrow> fold min bs b)"

text \<open>The last block to scan.\<close>

definition scan_to :: "rounding \<Rightarrow> stream_ctx \<Rightarrow> block_ptr \<Rightarrow> block_number \<Rightarrow> block_number \<Rightarrow> block_number" where
  "scan_to rnd ctx head_ptr reorg_threshold from =
     (let to_limit = min (ptr_number head_ptr - reorg_threshold) (next_start_block ctx from - 1)
      in min (from + range_size rnd ctx - 1) to_limit)"

definition scan_step :: "rounding \<Rightarrow> 'd chain_world \<Rightarrow> stream_ctx \<Rightarrow> block_ptr \<Rightarrow> block_number \<Rightarrow> block_number \<Rightarrow>
     string + 'd reconciliation_step" where
  "scan_step rnd w ctx head_ptr reorg_threshold from =
     (case w_scan_triggers w from (scan_to rnd ctx head_ptr reorg_threshold from) of
        Inl e \<Rightarrow> Inl e
      | Inr blocks \<Rightarrow> Inr (Step_ProcessDescendantBlocks blocks (range_size rnd ctx)))"

definition stream_parent_ptr :: "'d chain_world \<Rightarrow> block_ptr \<Rightarrow> string + block_ptr" where
  "stream_parent_ptr w p =
     (case w_parent_ptr w p of
        Inl e \<Rightarrow> Inl e | Inr None \<Rightarrow> Inl ''Failed to get parent pointer'' | Inr (Some q) \<Rightarrow> Inr q)"

definition revert_step :: "'d chain_world \<Rightarrow> block_ptr \<Rightarrow> string + 'd reconciliation_step" where
  "revert_step w p = (case stream_parent_ptr w p of Inl e \<Rightarrow> Inl e | Inr parent \<Rightarrow> Inr (Step_Revert parent))"

definition nonfinal_step :: "'d chain_world \<Rightarrow> block_ptr \<Rightarrow> block_ptr \<Rightarrow> string + 'd reconciliation_step" where
  "nonfinal_step w head_ptr subgraph_ptr =
     (case w_ancestor_block w head_ptr (ptr_number head_ptr - ptr_number subgraph_ptr - 1) of
        Inl e \<Rightarrow> Inl e
      | Inr None \<Rightarrow> Inr Step_Retry
      | Inr (Some head_ancestor) \<Rightarrow>
          if cb_parent_hash head_ancestor = Some (ptr_hash subgraph_ptr) then
            (case w_triggers_in_block w head_ancestor of
               Inl e \<Rightarrow> Inl e | Inr block \<Rightarrow> Inr (Step_ProcessDescendantBlocks [block] 1))
          else revert_step w subgraph_ptr)"

definition get_next_step :: "rounding \<Rightarrow> 'd chain_world \<Rightarrow> stream_ctx \<Rightarrow> string + 'd reconciliation_step" where
  "get_next_step rnd w ctx =
     (case w_chain_head_ptr w of
        Inl e \<Rightarrow> Inl e
      | Inr None \<Rightarrow> Inr Step_Done
      | Inr (Some head_ptr) \<Rightarrow>
          (let reorg_threshold = min (ctx_reorg_threshold ctx) (ptr_number head_ptr)
           in case ctx_current_block ctx of
                None \<Rightarrow> scan_step rnd w ctx head_ptr reorg_threshold 0
              | Some ptr \<Rightarrow>
                  if ptr_number ptr \<ge> ptr_number head_ptr then Inr Step_Done
                  else if ptr_number head_ptr - ptr_number ptr > reorg_threshold then
                    (case w_is_on_main_chain w ptr of
                       Inl e \<Rightarrow> Inl e
                     | Inr is_on_main_chain \<Rightarrow>
                         if \<not> is_on_main_chain then revert_step w ptr
                         else scan_step rnd w ctx head_ptr reorg_threshold (ptr_number ptr + 1))
                  else nonfinal_step w head_ptr ptr))"

text \<open>
  The loop takes one \<^typ>\<open>'d chain_world\<close> per turn; it goes on as long as the step is a retry, and is still waiting
  when there are no more.
\<close>

fun next_blocks :: "rounding \<Rightarrow> 'd chain_world list \<Rightarrow> stream_ctx \<Rightarrow> (string + 'd next_blocks_result) option" where
  "next_blocks rnd [] ctx = None"
| "next_blocks rnd (w # ws) ctx =
     (case get_next_step rnd w ctx of
        Inl e \<Rightarrow> Some (Inl e)
      | Inr (Step_ProcessDescendantBlocks bs sz) \<Rightarrow> Some (Inr (Next_Blocks bs sz))
      | Inr Step_Retry \<Rightarrow> next_blocks rnd ws ctx
      | Inr Step_Done \<Rightarrow> Some (Inr Next_Done)
      | Inr (Step_Revert p) \<Rightarrow> Some (Inr (Next_Revert p)))"

section \<open>Polling\<close>

datatype 'd stream_event = SE_Revert block_ptr | SE_ProcessBlock "'d triggered_block"

datatype 'd stream_poll = SP_Pending | SP_Ready "string + 'd stream_event"

datatype head_update = Upd_Pending | Upd_Ready | Upd_Ended

text \<open>What a turn of the loop finds when it polls the future of its state.\<close>

record 'd poll_input =
  in_worlds :: "'d chain_world list"
  in_delay_over :: bool
  in_head_update :: head_update

definition on_blocks :: "rounding \<Rightarrow> 'd triggered_block list \<Rightarrow> block_number \<Rightarrow> 'd polling_stream \<Rightarrow> 'd polling_stream" where
  "on_blocks rnd bs block_range_size s =
     (let ctx = ps_ctx s;
          ctx = (if ps_consecutive_err_count s = 1
                 then ctx\<lparr>ctx_max_block_range_size := max (ctx_max_block_range_size ctx * 9 div 10) 10\<rparr> else ctx);
          total_triggers = sum_list (map (\<lambda>b. length (snd b)) bs)
      in s\<lparr>ps_ctx := ctx\<lparr>ctx_previous_triggers_per_block := f64_div rnd (f64_of_nat rnd total_triggers) (f64_of_int rnd block_range_size),
                        ctx_previous_block_range_size := block_range_size\<rparr>,
           ps_consecutive_err_count := 0, ps_state := BS_YieldingBlocks bs\<rparr>)"

definition retry_secs :: "u32 \<Rightarrow> nat" where
  "retry_secs consecutive_err_count = unat (max (5 * consecutive_err_count) 120)"

definition on_error :: "'d polling_stream \<Rightarrow> 'd polling_stream" where
  "on_error s =
     (let count = ps_consecutive_err_count s + 1
      in s\<lparr>ps_ctx := (ps_ctx s)\<lparr>ctx_previous_triggers_per_block := STARTING_PREVIOUS_TRIGGERS_PER_BLOCK\<rparr>,
           ps_consecutive_err_count := count, ps_state := BS_RetryAfterDelay (retry_secs count)\<rparr>)"

text \<open>
  A turn of the loop of \<open>poll_next\<close> ends the poll with a result on the left, or goes on with the state on the right. A state
  that waits takes the next input; without inputs nothing is ready.
\<close>

definition poll_turn ::
    "rounding \<Rightarrow> 'd poll_input list \<Rightarrow> 'd polling_stream \<Rightarrow>
     ('d polling_stream \<times> 'd stream_poll) + ('d poll_input list \<times> 'd polling_stream)" where
  "poll_turn rnd inputs s =
     (case ps_state s of
        BS_BeginReconciliation \<Rightarrow> Inr (inputs, s\<lparr>ps_state := BS_Reconciliation (ps_ctx s)\<rparr>)
      | BS_Reconciliation ctx \<Rightarrow>
          (case inputs of
             [] \<Rightarrow> Inl (s, SP_Pending)
           | i # inputs' \<Rightarrow>
               (case next_blocks rnd (in_worlds i) ctx of
                  None \<Rightarrow> Inl (s, SP_Pending)
                | Some (Inr (Next_Blocks bs sz)) \<Rightarrow> Inr (inputs', on_blocks rnd bs sz s)
                | Some (Inr Next_Done) \<Rightarrow> Inr (inputs', s\<lparr>ps_consecutive_err_count := 0, ps_state := BS_Idle\<rparr>)
                | Some (Inr (Next_Revert p)) \<Rightarrow>
                    Inl (s\<lparr>ps_ctx := (ps_ctx s)\<lparr>ctx_current_block := Some p\<rparr>, ps_state := BS_BeginReconciliation\<rparr>,
                         SP_Ready (Inr (SE_Revert p)))
                | Some (Inl e) \<Rightarrow> Inl (on_error s, SP_Ready (Inl e))))
      | BS_YieldingBlocks [] \<Rightarrow> Inr (inputs, s\<lparr>ps_state := BS_BeginReconciliation\<rparr>)
      | BS_YieldingBlocks (b # bs) \<Rightarrow>
          Inl (s\<lparr>ps_ctx := (ps_ctx s)\<lparr>ctx_current_block := Some (cb_ptr (fst b))\<rparr>, ps_state := BS_YieldingBlocks bs\<rparr>,
               SP_Ready (Inr (SE_ProcessBlock b)))
      | BS_RetryAfterDelay _ \<Rightarrow>
          (case inputs of
             [] \<Rightarrow> Inl (s, SP_Pending)
           | i # inputs' \<Rightarrow>
               if in_delay_over i then Inr (inputs', s\<lparr>ps_state := BS_BeginReconciliation\<rparr>) else Inl (s, SP_Pending))
      | BS_Idle \<Rightarrow>
          (case inputs of
             [] \<Rightarrow> Inl (s, SP_Pending)
           | i # inputs' \<Rightarrow>
               (case in_head_update i of
                  Upd_Ready \<Rightarrow> Inr (inputs', s\<lparr>ps_state := BS_BeginReconciliation\<rparr>)
                | Upd_Ended \<Rightarrow> Inl (s, SP_Ready (Inl ''chain head update stream ended unexpectedly''))
                | Upd_Pending \<Rightarrow> Inl (s, SP_Pending))))"

fun state_rank :: "'d block_stream_state \<Rightarrow> nat" where
  "state_rank (BS_YieldingBlocks _) = 2"
| "state_rank BS_BeginReconciliation = 1"
| "state_rank _ = 0"

lemma poll_turn_decreases:
  "poll_turn rnd inputs s = Inr (inputs', s') \<Longrightarrow> length inputs' < length inputs \<or>
     inputs' = inputs \<and> state_rank (ps_state s') < state_rank (ps_state s)"
  by (auto simp: poll_turn_def split: block_stream_state.splits list.splits option.splits sum.splits next_blocks_result.splits
      if_splits head_update.splits)

function poll_next :: "rounding \<Rightarrow> 'd poll_input list \<Rightarrow> 'd polling_stream \<Rightarrow> 'd polling_stream \<times> 'd stream_poll" where
  "poll_next rnd inputs s =
     (case poll_turn rnd inputs s of Inl r \<Rightarrow> r | Inr (inputs', s') \<Rightarrow> poll_next rnd inputs' s')"
  by pat_completeness auto
termination
  by (relation "measures [\<lambda>(_, inputs, _). length inputs, \<lambda>(_, _, s). state_rank (ps_state s)]")
    (auto dest: poll_turn_decreases)

declare poll_next.simps [simp del]

section \<open>The range of a scan\<close>

context f64_rounding
begin

lemma rnd_small_int: "0 \<le> i \<Longrightarrow> i \<le> BLOCK_NUMBER_MAX \<Longrightarrow> rnd (real_of_int i) = real_of_int i"
  by (rule rnd_int) (simp add: BLOCK_NUMBER_MAX_def)

lemma clamp_bounds:
  assumes "1 \<le> limit" "limit \<le> BLOCK_NUMBER_MAX"
  shows "1 \<le> f64_as_i32 (f64_min (f64_max x (Fin 1)) (f64_of_int rnd limit)) \<and>
    f64_as_i32 (f64_min (f64_max x (Fin 1)) (f64_of_int rnd limit)) \<le> limit"
proof -
  have limit: "f64_of_int rnd limit = Fin (real_of_int limit)" using assms by (simp add: f64_of_int_def rnd_small_int)
  have one: "1 \<le> real_of_int limit" using assms(1) by simp
  obtain y where y: "f64_min (f64_max x (Fin 1)) (f64_of_int rnd limit) = Fin y" "1 \<le> y" "y \<le> real_of_int limit"
  proof (cases x)
    case (Fin z)
    show thesis by (rule that [of "min (max z 1) (real_of_int limit)"]) (use one Fin limit in \<open>simp_all add: f64_max_def f64_min_def min_def max_def\<close>)
  next
    case PosInf
    show thesis by (rule that [of "real_of_int limit"]) (use one PosInf limit in \<open>simp_all add: f64_max_def f64_min_def\<close>)
  qed (rule that [of 1]; use one limit in \<open>simp add: f64_max_def f64_min_def\<close>)+
  from y have "1 \<le> \<lfloor>y\<rfloor>" by (simp add: le_floor_iff)
  moreover have "\<lfloor>y\<rfloor> \<le> limit" using floor_mono [OF y(3)] by simp
  ultimately show ?thesis using y(1,2) assms(2) by (simp add: BLOCK_NUMBER_MAX_def)
qed

end

text \<open>What stays true of the numbers in the context.\<close>

definition ctx_ok :: "stream_ctx \<Rightarrow> bool" where
  "ctx_ok ctx \<longleftrightarrow> 0 \<le> ctx_reorg_threshold ctx \<and> 1 \<le> ctx_previous_block_range_size ctx \<and> 1 \<le> ctx_max_block_range_size ctx \<and>
     ctx_max_block_range_size ctx \<le> BLOCK_NUMBER_MAX"

lemma range_size_bounds:
  assumes "f64_rounding rnd" "ctx_ok ctx"
  shows "1 \<le> range_size rnd ctx" "range_size rnd ctx \<le> range_size_upper_limit ctx"
proof -
  have limit: "1 \<le> range_size_upper_limit ctx" "range_size_upper_limit ctx \<le> BLOCK_NUMBER_MAX"
    using assms(2) unfolding ctx_ok_def range_size_upper_limit_def by linarith+
  note clamp = f64_rounding.clamp_bounds [OF assms(1) limit]
  show "1 \<le> range_size rnd ctx" unfolding range_size_def using limit(1) clamp [THEN conjunct1] by (simp split: if_split)
  show "range_size rnd ctx \<le> range_size_upper_limit ctx" unfolding range_size_def using clamp [THEN conjunct2] by (simp split: if_split)
qed

lemma fold_min_less: "fold min bs b \<in> insert b (set bs) \<and> (\<forall>x \<in> insert b (set bs). fold min bs b \<le> (x :: int))"
proof (induction bs arbitrary: b)
  case (Cons c bs)
  from Cons [of "min c b"] show ?case by (auto simp: min_def split: if_splits)
qed simp

lemma next_start_block_bounds:
  assumes "from < BLOCK_NUMBER_MAX"
  shows "from < next_start_block ctx from" "\<forall>s \<in> set (ctx_start_blocks ctx). from < s \<longrightarrow> next_start_block ctx from \<le> s"
proof -
  have "from < next_start_block ctx from \<and> (\<forall>s \<in> set (ctx_start_blocks ctx). from < s \<longrightarrow> next_start_block ctx from \<le> s)"
  proof (cases "filter (\<lambda>b. b > from) (ctx_start_blocks ctx)")
    case Nil
    then have "next_start_block ctx from = BLOCK_NUMBER_MAX" "\<forall>s \<in> set (ctx_start_blocks ctx). \<not> from < s"
      by (auto simp: next_start_block_def filter_empty_conv)
    with assms show ?thesis by auto
  next
    case (Cons b bs)
    then have set: "insert b (set bs) = {s \<in> set (ctx_start_blocks ctx). from < s}" by (metis list.simps(15) set_filter)
    have "next_start_block ctx from = fold min bs b" using Cons by (simp add: next_start_block_def)
    with fold_min_less [of bs b] set show ?thesis by auto
  qed
  then show "from < next_start_block ctx from" "\<forall>s \<in> set (ctx_start_blocks ctx). from < s \<longrightarrow> next_start_block ctx from \<le> s"
    by simp_all
qed

lemma scan_to_bounds:
  assumes "f64_rounding rnd" "ctx_ok ctx" "from \<le> ptr_number head - reorg" "from < BLOCK_NUMBER_MAX"
  shows "from \<le> scan_to rnd ctx head reorg from" "scan_to rnd ctx head reorg from \<le> ptr_number head - reorg"
    "scan_to rnd ctx head reorg from - from < range_size_upper_limit ctx"
    "\<forall>s \<in> set (ctx_start_blocks ctx). \<not> (from < s \<and> s \<le> scan_to rnd ctx head reorg from)"
proof -
  note size = range_size_bounds [OF assms(1,2)]
  note start = next_start_block_bounds [OF assms(4), of ctx]
  show "from \<le> scan_to rnd ctx head reorg from" using size(1) start(1) assms(3) by (simp add: scan_to_def)
  show "scan_to rnd ctx head reorg from \<le> ptr_number head - reorg" by (simp add: scan_to_def)
  show "scan_to rnd ctx head reorg from - from < range_size_upper_limit ctx" using size(2) unfolding scan_to_def Let_def by linarith
  have "scan_to rnd ctx head reorg from < next_start_block ctx from" unfolding scan_to_def Let_def by linarith
  with start(2) show "\<forall>s \<in> set (ctx_start_blocks ctx). \<not> (from < s \<and> s \<le> scan_to rnd ctx head reorg from)" by fastforce
qed

section \<open>The chain\<close>

text \<open>Blocks point to their parents; \<open>ancestor parent p q\<close> means that \<open>p\<close> is \<open>q\<close> or comes before it.\<close>

definition ancestor :: "(block_ptr \<Rightarrow> block_ptr option) \<Rightarrow> block_ptr \<Rightarrow> block_ptr \<Rightarrow> bool" where
  "ancestor parent p q \<longleftrightarrow> (\<lambda>x y. parent x = Some y)\<^sup>*\<^sup>* q p"

text \<open>Blocks that are final are there to stay, and form one chain.\<close>

locale chain_laws =
  fixes parent :: "block_ptr \<Rightarrow> block_ptr option" and final :: "block_ptr \<Rightarrow> bool"
  assumes parent_number: "parent q = Some p \<Longrightarrow> ptr_number q = ptr_number p + 1"
    and final_linear: "final p \<Longrightarrow> final q \<Longrightarrow> ptr_number p \<le> ptr_number q \<Longrightarrow> ancestor parent p q"
    and final_number: "final p \<Longrightarrow> 0 \<le> ptr_number p"
begin

lemma ancestor_refl [simp]: "ancestor parent p p"
  by (simp add: ancestor_def)

lemma ancestor_parent: "parent q = Some p \<Longrightarrow> ancestor parent p q"
  unfolding ancestor_def by (rule r_into_rtranclp)

lemma ancestor_number: "ancestor parent p q \<Longrightarrow> ptr_number p \<le> ptr_number q \<and> (ptr_number p = ptr_number q \<longrightarrow> p = q)"
  unfolding ancestor_def
proof (induction rule: rtranclp_induct)
  case (step y z)
  from parent_number [OF step.hyps(2)] step.IH show ?case by simp
qed simp

lemma ancestor_cases:
  assumes "ancestor parent p q"
  shows "p = q \<or> (\<exists>r. parent q = Some r \<and> ancestor parent p r)"
  using assms unfolding ancestor_def by (cases rule: converse_rtranclpE) blast+

lemma ancestors_comparable: "ancestor parent p h \<Longrightarrow> ancestor parent q h \<Longrightarrow> ancestor parent p q \<or> ancestor parent q p"
  unfolding ancestor_def
proof (induction rule: converse_rtranclp_induct)
  case (step y z)
  show ?case
  proof (cases "q = y")
    case True
    with converse_rtranclp_into_rtranclp [where r = "\<lambda>x y. parent x = Some y", OF step.hyps(1,2)] show ?thesis by simp
  next
    case False
    from step.prems have "(\<lambda>x y. parent x = Some y)\<^sup>*\<^sup>* z q"
    proof (cases rule: converse_rtranclpE)
      case (step r)
      with \<open>parent y = Some z\<close> show ?thesis by simp
    qed (use False in simp)
    with step.IH show ?thesis by blast
  qed
qed simp

lemma ancestor_le: "ancestor parent p h \<Longrightarrow> ancestor parent q h \<Longrightarrow> ptr_number p \<le> ptr_number q \<Longrightarrow> ancestor parent p q"
  using ancestors_comparable [of p h q] ancestor_number [of q p] by auto

lemma ancestor_child:
  assumes "ancestor parent p h" "ancestor parent q h" "ptr_number q = ptr_number p + 1"
  shows "parent q = Some p"
proof -
  have "ancestor parent p q" using ancestor_le [OF assms(1,2)] assms(3) by simp
  from ancestor_cases [OF this] assms(3) obtain r where r: "parent q = Some r" "ancestor parent p r" by auto
  from parent_number [OF r(1)] assms(3) have "ptr_number r = ptr_number p" by simp
  with ancestor_number [OF r(2)] r(1) show ?thesis by simp
qed

end

text \<open>What the store and the adapter promise while the head of the chain is \<open>h\<close>; \<open>relevant\<close> are the blocks with triggers.\<close>

definition scan_ok :: "(block_ptr \<Rightarrow> bool) \<Rightarrow> (block_ptr \<Rightarrow> bool) \<Rightarrow> block_number \<Rightarrow> block_number \<Rightarrow> 'd triggered_block list \<Rightarrow> bool" where
  "scan_ok final relevant from to bs \<longleftrightarrow> bs \<noteq> [] \<and> sorted_wrt (\<lambda>x y. ptr_number (cb_ptr (fst x)) < ptr_number (cb_ptr (fst y))) bs \<and>
     (\<forall>b \<in> set bs. final (cb_ptr (fst b)) \<and> from \<le> ptr_number (cb_ptr (fst b)) \<and> ptr_number (cb_ptr (fst b)) \<le> to) \<and>
     (\<forall>p. final p \<and> relevant p \<and> from \<le> ptr_number p \<and> ptr_number p \<le> to \<longrightarrow> p \<in> (\<lambda>b. cb_ptr (fst b)) ` set bs)"

definition world_ok ::
    "(block_ptr \<Rightarrow> block_ptr option) \<Rightarrow> (block_ptr \<Rightarrow> bool) \<Rightarrow> (block_ptr \<Rightarrow> bool) \<Rightarrow> block_number \<Rightarrow> 'd chain_world \<Rightarrow> bool" where
  "world_ok parent final relevant reorg w \<longleftrightarrow>
     (\<forall>h. w_chain_head_ptr w = Inr (Some h) \<longrightarrow>
        0 \<le> ptr_number h \<and> ptr_number h < BLOCK_NUMBER_MAX \<and>
        (\<forall>p. final p \<and> ptr_number p \<le> ptr_number h \<longrightarrow> ancestor parent p h) \<and>
        (\<forall>p. ancestor parent p h \<and> 0 \<le> ptr_number p \<and> ptr_number h - ptr_number p > min reorg (ptr_number h) \<longrightarrow> final p) \<and>
        (\<forall>p b. ptr_number h - ptr_number p > min reorg (ptr_number h) \<longrightarrow> w_is_on_main_chain w p = Inr b \<longrightarrow> (b \<longleftrightarrow> final p)) \<and>
        (\<forall>from to bs. 0 \<le> from \<longrightarrow> from \<le> to \<longrightarrow> to \<le> ptr_number h - min reorg (ptr_number h) \<longrightarrow> w_scan_triggers w from to = Inr bs \<longrightarrow>
           scan_ok final relevant from to bs) \<and>
        (\<forall>n b. w_ancestor_block w h n = Inr (Some b) \<longrightarrow>
           ancestor parent (cb_ptr b) h \<and> ptr_number (cb_ptr b) = ptr_number h - n \<and> cb_parent_ptr b = parent (cb_ptr b))) \<and>
     (\<forall>p q. w_parent_ptr w p = Inr (Some q) \<longrightarrow> parent p = Some q) \<and>
     (\<forall>b b' ts. w_triggers_in_block w b = Inr (b', ts) \<longrightarrow> b' = b)"

lemma world_ok_head:
  assumes "world_ok parent final relevant reorg w" "w_chain_head_ptr w = Inr (Some h)"
  shows "0 \<le> ptr_number h" "ptr_number h < BLOCK_NUMBER_MAX"
    and "final p \<Longrightarrow> ptr_number p \<le> ptr_number h \<Longrightarrow> ancestor parent p h"
    and "ptr_number h - ptr_number p > min reorg (ptr_number h) \<Longrightarrow> w_is_on_main_chain w p = Inr b \<Longrightarrow> b \<longleftrightarrow> final p"
    and "0 \<le> from \<Longrightarrow> from \<le> to \<Longrightarrow> to \<le> ptr_number h - min reorg (ptr_number h) \<Longrightarrow> w_scan_triggers w from to = Inr bs \<Longrightarrow>
      scan_ok final relevant from to bs"
    and "w_ancestor_block w h n = Inr (Some c) \<Longrightarrow> ancestor parent (cb_ptr c) h"
    and "w_ancestor_block w h n = Inr (Some c) \<Longrightarrow> ptr_number (cb_ptr c) = ptr_number h - n"
    and "w_ancestor_block w h n = Inr (Some c) \<Longrightarrow> cb_parent_ptr c = parent (cb_ptr c)"
    and "ancestor parent p h \<Longrightarrow> 0 \<le> ptr_number p \<Longrightarrow> ptr_number h - ptr_number p > min reorg (ptr_number h) \<Longrightarrow> final p"
  using assms unfolding world_ok_def by (simp_all (no_asm_simp))

section \<open>The stream follows the chain\<close>

fun event_ptr :: "'d stream_event \<Rightarrow> block_ptr" where
  "event_ptr (SE_Revert p) = p"
| "event_ptr (SE_ProcessBlock b) = cb_ptr (fst b)"

definition number_of :: "block_ptr option \<Rightarrow> block_number" where
  "number_of cur = (case cur of None \<Rightarrow> - 1 | Some p \<Rightarrow> ptr_number p)"

text \<open>
  An event that a subgraph with the head \<open>cur\<close> can follow: a revert goes to the parent of a block that is not final, a new
  block comes after the head on the same chain, and no final block with triggers lies between them.
\<close>

fun event_ok :: "(block_ptr \<Rightarrow> block_ptr option) \<Rightarrow> (block_ptr \<Rightarrow> bool) \<Rightarrow> (block_ptr \<Rightarrow> bool) \<Rightarrow> block_ptr option \<Rightarrow> 'd stream_event \<Rightarrow> bool" where
  "event_ok parent final relevant cur (SE_Revert q) \<longleftrightarrow> (\<exists>p. cur = Some p \<and> parent p = Some q \<and> \<not> final p)"
| "event_ok parent final relevant cur (SE_ProcessBlock b) \<longleftrightarrow>
     number_of cur < ptr_number (cb_ptr (fst b)) \<and> (\<forall>p. cur = Some p \<longrightarrow> ancestor parent p (cb_ptr (fst b))) \<and>
     (\<forall>p. final p \<and> relevant p \<longrightarrow> \<not> (number_of cur < ptr_number p \<and> ptr_number p < ptr_number (cb_ptr (fst b))))"

fun path_ok :: "(block_ptr \<Rightarrow> block_ptr option) \<Rightarrow> (block_ptr \<Rightarrow> bool) \<Rightarrow> (block_ptr \<Rightarrow> bool) \<Rightarrow> block_ptr option \<Rightarrow> 'd stream_event list \<Rightarrow> bool" where
  "path_ok parent final relevant cur [] \<longleftrightarrow> True"
| "path_ok parent final relevant cur (ev # evs) \<longleftrightarrow>
     event_ok parent final relevant cur ev \<and> path_ok parent final relevant (Some (event_ptr ev)) evs"

text \<open>What a step may be.\<close>

definition step_ok ::
    "(block_ptr \<Rightarrow> block_ptr option) \<Rightarrow> (block_ptr \<Rightarrow> bool) \<Rightarrow> (block_ptr \<Rightarrow> bool) \<Rightarrow> block_ptr option \<Rightarrow> 'd reconciliation_step \<Rightarrow> bool" where
  "step_ok parent final relevant cur st = (case st of
       Step_ProcessDescendantBlocks bs sz \<Rightarrow> bs \<noteq> [] \<and> path_ok parent final relevant cur (map SE_ProcessBlock bs) \<and> 1 \<le> sz
     | Step_Revert q \<Rightarrow> event_ok parent final relevant cur (SE_Revert q :: 'd stream_event)
     | _ \<Rightarrow> True)"

context chain_laws
begin

lemma scan_path:
  assumes "sorted_wrt (\<lambda>x y. ptr_number (cb_ptr (fst x)) < ptr_number (cb_ptr (fst y))) bs"
    and "\<forall>b \<in> set bs. final (cb_ptr (fst b)) \<and> number_of cur < ptr_number (cb_ptr (fst b)) \<and> ptr_number (cb_ptr (fst b)) \<le> to"
    and "\<forall>p. final p \<and> relevant p \<and> number_of cur < ptr_number p \<and> ptr_number p \<le> to \<longrightarrow> p \<in> (\<lambda>b. cb_ptr (fst b)) ` set bs"
    and "\<forall>p. cur = Some p \<longrightarrow> final p"
  shows "path_ok parent final relevant cur (map SE_ProcessBlock bs)"
  using assms
proof (induction bs arbitrary: cur)
  case (Cons b bs)
  let ?p = "cb_ptr (fst b)"
  have "ancestor parent p ?p" if "cur = Some p" for p
    using Cons.prems(2,4) that by (intro final_linear) (auto simp: number_of_def)
  moreover have "\<not> (number_of cur < ptr_number p \<and> ptr_number p < ptr_number ?p)" if p: "final p" "relevant p" for p
  proof
    assume between: "number_of cur < ptr_number p \<and> ptr_number p < ptr_number ?p"
    have "ptr_number p \<le> to" using between Cons.prems(2) by force
    with Cons.prems(3) p between obtain c where "c \<in> set (b # bs)" "p = cb_ptr (fst c)" by blast
    with Cons.prems(1) between show False by auto
  qed
  ultimately have ok: "event_ok parent final relevant cur (SE_ProcessBlock b)" using Cons.prems(2) by simp
  have "path_ok parent final relevant (Some ?p) (map SE_ProcessBlock bs)"
  proof (rule Cons.IH)
    show "\<forall>p. final p \<and> relevant p \<and> number_of (Some ?p) < ptr_number p \<and> ptr_number p \<le> to \<longrightarrow> p \<in> (\<lambda>b. cb_ptr (fst b)) ` set bs"
    proof (intro allI impI)
      fix p
      assume p: "final p \<and> relevant p \<and> number_of (Some ?p) < ptr_number p \<and> ptr_number p \<le> to"
      then have "number_of cur < ptr_number p" using Cons.prems(2) by (auto simp: number_of_def)
      with Cons.prems(3) p have "p \<in> (\<lambda>b. cb_ptr (fst b)) ` set (b # bs)" by blast
      with p show "p \<in> (\<lambda>b. cb_ptr (fst b)) ` set bs" by (auto simp: number_of_def)
    qed
  qed (use Cons.prems(1,2) in \<open>auto simp: number_of_def\<close>)
  with ok show ?case by simp
qed simp

lemma scan_step_ok:
  assumes "f64_rounding rnd" "ctx_ok ctx" "world_ok parent final relevant (ctx_reorg_threshold ctx) w"
    and head: "w_chain_head_ptr w = Inr (Some h)"
    and frm: "number_of (ctx_current_block ctx) + 1 = from" "\<forall>p. ctx_current_block ctx = Some p \<longrightarrow> final p"
      "from \<le> ptr_number h - min (ctx_reorg_threshold ctx) (ptr_number h)"
    and step: "scan_step rnd w ctx h (min (ctx_reorg_threshold ctx) (ptr_number h)) from = Inr st"
  shows "step_ok parent final relevant (ctx_current_block ctx) st"
proof -
  let ?reorg = "min (ctx_reorg_threshold ctx) (ptr_number h)"
  let ?to = "scan_to rnd ctx h ?reorg from"
  note h = world_ok_head(1,2) [OF assms(3) head]
  have "from < BLOCK_NUMBER_MAX" using frm(3) h assms(2) unfolding ctx_ok_def by linarith
  note to = scan_to_bounds [OF assms(1,2) frm(3) this]
  from step obtain bs where bs: "w_scan_triggers w from ?to = Inr bs" "st = Step_ProcessDescendantBlocks bs (range_size rnd ctx)"
    by (auto simp: scan_step_def split: sum.splits)
  have "0 \<le> from"
  proof (cases "ctx_current_block ctx")
    case (Some p)
    with frm(1,2) final_number [of p] show ?thesis by (simp add: number_of_def)
  qed (use frm(1) in \<open>simp add: number_of_def\<close>)
  from world_ok_head(5) [OF assms(3) head this to(1,2) bs(1)] have ok: "scan_ok final relevant from ?to bs" .
  have num: "number_of (ctx_current_block ctx) < n \<longleftrightarrow> from \<le> n" for n using frm(1) by linarith
  have "path_ok parent final relevant (ctx_current_block ctx) (map SE_ProcessBlock bs)"
    by (rule scan_path [where to = ?to]) (use ok frm(2) in \<open>simp_all add: scan_ok_def num\<close>)
  with ok range_size_bounds(1) [OF assms(1,2)] show ?thesis by (simp add: step_ok_def bs(2) scan_ok_def)
qed

lemma revert_step_ok:
  assumes "world_ok parent final relevant reorg w" "revert_step w p = Inr st" "\<not> final p"
  shows "step_ok parent final relevant (Some p) st"
proof -
  from assms(2) obtain q where q: "w_parent_ptr w p = Inr (Some q)" "st = Step_Revert q"
    by (auto simp: revert_step_def stream_parent_ptr_def split: sum.splits option.splits)
  with assms(1) have "parent p = Some q" by (simp add: world_ok_def)
  with assms(3) q(2) show ?thesis by (simp add: step_ok_def)
qed

lemma nonfinal_step_ok:
  assumes w: "world_ok parent final relevant reorg w" and head: "w_chain_head_ptr w = Inr (Some h)"
    and p: "ptr_number p < ptr_number h" and step: "nonfinal_step w h p = Inr st"
  shows "step_ok parent final relevant (Some p) st"
proof (cases "w_ancestor_block w h (ptr_number h - ptr_number p - 1)")
  case (Inr r)
  show ?thesis
  proof (cases r)
    case None
    with Inr step show ?thesis by (simp add: nonfinal_step_def step_ok_def)
  next
    case (Some b)
    with Inr have anc: "w_ancestor_block w h (ptr_number h - ptr_number p - 1) = Inr (Some b)" by simp
    from world_ok_head(6,7,8) [OF w head anc]
    have b: "ancestor parent (cb_ptr b) h" "ptr_number (cb_ptr b) = ptr_number p + 1" "cb_parent_ptr b = parent (cb_ptr b)"
      by simp_all
    show ?thesis
    proof (cases "cb_parent_hash b = Some (ptr_hash p)")
      case True
      with b(3) obtain q where q: "parent (cb_ptr b) = Some q" "ptr_hash q = ptr_hash p" by (auto simp: cb_parent_hash_def)
      from parent_number [OF q(1)] b(2) q(2) have "q = p" by (simp add: block_ptr.equality)
      with q(1) have child: "parent (cb_ptr b) = Some p" by simp
      from True Inr Some step obtain ts where "st = Step_ProcessDescendantBlocks [(b, ts)] 1"
        using w by (auto simp: nonfinal_step_def world_ok_def split: sum.splits)
      with b(2) ancestor_parent [OF child] show ?thesis by (simp add: step_ok_def number_of_def)
    next
      case False
      then have "revert_step w p = Inr st" using Inr Some step by (simp add: nonfinal_step_def)
      moreover have "\<not> final p"
      proof
        assume "final p"
        with world_ok_head(3) [OF w head] p have "ancestor parent p h" by simp
        from ancestor_child [OF this b(1,2)] b(3) False show False by (simp add: cb_parent_hash_def)
      qed
      ultimately show ?thesis using revert_step_ok [OF w] by blast
    qed
  qed
qed (use step in \<open>simp add: nonfinal_step_def\<close>)

lemma get_next_step_ok:
  assumes "f64_rounding rnd" "ctx_ok ctx" "world_ok parent final relevant (ctx_reorg_threshold ctx) w"
    and step: "get_next_step rnd w ctx = Inr st"
  shows "step_ok parent final relevant (ctx_current_block ctx) st"
proof (cases "w_chain_head_ptr w")
  case (Inr head)
  show ?thesis
  proof (cases head)
    case None
    with Inr step show ?thesis by (simp add: get_next_step_def step_ok_def)
  next
    case (Some h)
    with Inr have head: "w_chain_head_ptr w = Inr (Some h)" by simp
    let ?reorg = "min (ctx_reorg_threshold ctx) (ptr_number h)"
    show ?thesis
    proof (cases "ctx_current_block ctx")
      case None
      with head step have "scan_step rnd w ctx h ?reorg 0 = Inr st" by (simp add: get_next_step_def Let_def)
      with None show ?thesis by (intro scan_step_ok [OF assms(1,2,3) head]) (auto simp: number_of_def)
    next
      case cur: (Some p)
      consider "ptr_number p \<ge> ptr_number h" | "ptr_number p < ptr_number h" "ptr_number h - ptr_number p > ?reorg"
        | "ptr_number p < ptr_number h" "ptr_number h - ptr_number p \<le> ?reorg" by linarith
      then show ?thesis
      proof cases
        case 1
        with head cur step show ?thesis by (simp add: get_next_step_def Let_def step_ok_def)
      next
        case 2
        with head cur step obtain on where on: "w_is_on_main_chain w p = Inr on"
            "(if \<not> on then revert_step w p else scan_step rnd w ctx h ?reorg (ptr_number p + 1)) = Inr st"
          by (auto simp: get_next_step_def Let_def split: sum.splits)
        from world_ok_head(4) [OF assms(3) head 2(2) on(1)] have final: "on \<longleftrightarrow> final p" .
        show ?thesis
        proof (cases on)
          case True
          with on(2) have "scan_step rnd w ctx h ?reorg (ptr_number p + 1) = Inr st" by simp
          with True final cur 2(2) show ?thesis by (intro scan_step_ok [OF assms(1,2,3) head]) (auto simp: number_of_def)
        next
          case False
          with on(2) final revert_step_ok [OF assms(3)] cur show ?thesis by simp
        qed
      next
        case 3
        with head cur step have "nonfinal_step w h p = Inr st" by (simp add: get_next_step_def Let_def)
        from nonfinal_step_ok [OF assms(3) head 3(1) this] cur show ?thesis by simp
      qed
    qed
  qed
qed (use step in \<open>simp add: get_next_step_def\<close>)

end

section \<open>Runs of the stream\<close>

definition input_ok :: "(block_ptr \<Rightarrow> block_ptr option) \<Rightarrow> (block_ptr \<Rightarrow> bool) \<Rightarrow> (block_ptr \<Rightarrow> bool) \<Rightarrow> block_number \<Rightarrow> 'd poll_input \<Rightarrow> bool" where
  "input_ok parent final relevant reorg i \<longleftrightarrow> (\<forall>w \<in> set (in_worlds i). world_ok parent final relevant reorg w)"

definition stream_inv :: "(block_ptr \<Rightarrow> block_ptr option) \<Rightarrow> (block_ptr \<Rightarrow> bool) \<Rightarrow> (block_ptr \<Rightarrow> bool) \<Rightarrow> block_number \<Rightarrow> 'd polling_stream \<Rightarrow> bool" where
  "stream_inv parent final relevant reorg s \<longleftrightarrow> ctx_ok (ps_ctx s) \<and> ctx_reorg_threshold (ps_ctx s) = reorg \<and>
     (case ps_state s of
        BS_Reconciliation ctx \<Rightarrow> ctx = ps_ctx s
      | BS_YieldingBlocks bs \<Rightarrow> path_ok parent final relevant (ctx_current_block (ps_ctx s)) (map SE_ProcessBlock bs)
      | _ \<Rightarrow> True)"

abbreviation current_block :: "'d polling_stream \<Rightarrow> block_ptr option" where
  "current_block s \<equiv> ctx_current_block (ps_ctx s)"

definition poll_ok :: "(block_ptr \<Rightarrow> block_ptr option) \<Rightarrow> (block_ptr \<Rightarrow> bool) \<Rightarrow> (block_ptr \<Rightarrow> bool) \<Rightarrow> block_number \<Rightarrow>
     'd polling_stream \<Rightarrow> 'd polling_stream \<times> 'd stream_poll \<Rightarrow> bool" where
  "poll_ok parent final relevant reorg s r \<longleftrightarrow> stream_inv parent final relevant reorg (fst r) \<and>
     (case snd r of
        SP_Ready (Inr ev) \<Rightarrow> event_ok parent final relevant (current_block s) ev \<and> current_block (fst r) = Some (event_ptr ev)
      | _ \<Rightarrow> current_block (fst r) = current_block s)"

definition turn_ok :: "(block_ptr \<Rightarrow> block_ptr option) \<Rightarrow> (block_ptr \<Rightarrow> bool) \<Rightarrow> (block_ptr \<Rightarrow> bool) \<Rightarrow> block_number \<Rightarrow> 'd polling_stream \<Rightarrow>
     'd poll_input list \<Rightarrow> ('d polling_stream \<times> 'd stream_poll) + ('d poll_input list \<times> 'd polling_stream) \<Rightarrow> bool" where
  "turn_ok parent final relevant reorg s inputs r = (case r of
       Inl res \<Rightarrow> poll_ok parent final relevant reorg s res
     | Inr (inputs', s') \<Rightarrow> stream_inv parent final relevant reorg s' \<and> current_block s' = current_block s \<and> set inputs' \<subseteq> set inputs)"

text \<open>The states and results of a number of polls, each with what it finds ready.\<close>

fun polls :: "rounding \<Rightarrow> 'd poll_input list list \<Rightarrow> 'd polling_stream \<Rightarrow> 'd polling_stream \<times> 'd stream_poll list" where
  "polls rnd [] s = (s, [])"
| "polls rnd (inputs # rest) s =
     (let (s', r) = poll_next rnd inputs s; (s'', rs) = polls rnd rest s' in (s'', r # rs))"

definition poll_events :: "'d stream_poll list \<Rightarrow> 'd stream_event list" where
  "poll_events rs = filter_map (\<lambda>r. case r of SP_Ready (Inr ev) \<Rightarrow> Some ev | _ \<Rightarrow> None) rs"

lemma on_blocks_fields:
  "ps_state (on_blocks rnd bs sz s) = BS_YieldingBlocks bs" "current_block (on_blocks rnd bs sz s) = current_block s"
  "ctx_ok (ps_ctx s) \<Longrightarrow> 1 \<le> sz \<Longrightarrow> ctx_ok (ps_ctx (on_blocks rnd bs sz s))"
  "ctx_reorg_threshold (ps_ctx (on_blocks rnd bs sz s)) = ctx_reorg_threshold (ps_ctx s)"
  by (auto simp: on_blocks_def Let_def ctx_ok_def BLOCK_NUMBER_MAX_def)

lemma on_error_inv: "stream_inv parent final relevant reorg s \<Longrightarrow> stream_inv parent final relevant reorg (on_error s)"
  "current_block (on_error s) = current_block s"
  by (simp_all add: stream_inv_def on_error_def Let_def ctx_ok_def)

context chain_laws
begin

lemma next_blocks_ok:
  assumes "f64_rounding rnd" "ctx_ok ctx" "\<forall>w \<in> set ws. world_ok parent final relevant (ctx_reorg_threshold ctx) w"
    and "next_blocks rnd ws ctx = Some (Inr r)"
  shows "case r of
      Next_Blocks bs sz \<Rightarrow> bs \<noteq> [] \<and> path_ok parent final relevant (ctx_current_block ctx) (map SE_ProcessBlock bs) \<and> 1 \<le> sz
    | Next_Revert q \<Rightarrow> event_ok parent final relevant (ctx_current_block ctx) (SE_Revert q)
    | Next_Done \<Rightarrow> True"
  using assms(3,4)
proof (induction ws)
  case (Cons w ws)
  show ?case
  proof (cases "get_next_step rnd w ctx")
    case (Inr st)
    from get_next_step_ok [OF assms(1,2) _ Inr] Cons.prems(1) have "step_ok parent final relevant (ctx_current_block ctx) st" by simp
    with Inr Cons show ?thesis by (cases st) (auto simp: step_ok_def)
  qed (use Cons.prems in simp)
qed simp

lemma reconciliation_turn_ok:
  assumes "f64_rounding rnd" "stream_inv parent final relevant reorg s" "\<forall>i \<in> set inputs. input_ok parent final relevant reorg i"
    and state: "ps_state s = BS_Reconciliation ctx"
  shows "turn_ok parent final relevant reorg s inputs (poll_turn rnd inputs s)"
proof (cases inputs)
  case Nil
  with state assms(2) show ?thesis by (simp add: poll_turn_def turn_ok_def poll_ok_def)
next
  case (Cons i rest)
  from state assms(2) have ctx: "ctx = ps_ctx s" "ctx_ok ctx" "ctx_reorg_threshold ctx = reorg" by (simp_all add: stream_inv_def)
  with assms(3) Cons have "\<forall>w \<in> set (in_worlds i). world_ok parent final relevant (ctx_reorg_threshold ctx) w"
    by (simp add: input_ok_def)
  note nb_ok = next_blocks_ok [OF assms(1) ctx(2) this]
  show ?thesis
  proof (cases "next_blocks rnd (in_worlds i) ctx")
    case None
    with state Cons assms(2) show ?thesis by (simp add: poll_turn_def turn_ok_def poll_ok_def)
  next
    case nb: (Some res)
    show ?thesis
    proof (cases res)
      case (Inl e)
      with state Cons nb on_error_inv(1) [OF assms(2)] on_error_inv(2) [of s] show ?thesis
        by (simp add: poll_turn_def turn_ok_def poll_ok_def)
    next
      case (Inr r)
      from nb_ok [OF nb [unfolded Inr]] state Cons nb Inr assms(2) ctx show ?thesis
        by (cases r) (simp_all add: poll_turn_def turn_ok_def poll_ok_def stream_inv_def ctx_ok_def on_blocks_fields [unfolded ctx_ok_def] subset_insertI)
    qed
  qed
qed

lemma poll_turn_ok:
  assumes "f64_rounding rnd" "stream_inv parent final relevant reorg s" "\<forall>i \<in> set inputs. input_ok parent final relevant reorg i"
  shows "turn_ok parent final relevant reorg s inputs (poll_turn rnd inputs s)"
proof (cases "ps_state s")
  case (BS_Reconciliation ctx)
  show ?thesis by (rule reconciliation_turn_ok [OF assms BS_Reconciliation])
next
  case (BS_YieldingBlocks bs)
  with assms(2) show ?thesis by (cases bs) (simp_all add: poll_turn_def turn_ok_def poll_ok_def stream_inv_def ctx_ok_def)
next
  case BS_Idle
  with assms(2) show ?thesis
    by (cases inputs) (auto simp: poll_turn_def turn_ok_def poll_ok_def stream_inv_def split: head_update.split)
qed (use assms(2) in \<open>auto simp: poll_turn_def turn_ok_def poll_ok_def stream_inv_def split: list.split\<close>)

lemma poll_next_ok:
  assumes "f64_rounding rnd" "stream_inv parent final relevant reorg s" "\<forall>i \<in> set inputs. input_ok parent final relevant reorg i"
  shows "poll_ok parent final relevant reorg s (poll_next rnd inputs s)"
  using assms
proof (induction rnd inputs s rule: poll_next.induct)
  case (1 rnd inputs s)
  note turn = poll_turn_ok [OF "1.prems"]
  show ?case
  proof (cases "poll_turn rnd inputs s")
    case (Inl r)
    with turn show ?thesis by (subst poll_next.simps) (simp add: turn_ok_def)
  next
    case (Inr x)
    obtain inputs' s' where x: "x = (inputs', s')" by (cases x)
    with turn Inr have s': "stream_inv parent final relevant reorg s'" "current_block s' = current_block s" "set inputs' \<subseteq> set inputs"
      by (simp_all add: turn_ok_def)
    from "1.IH" [OF Inr x [symmetric] "1.prems"(1) s'(1)] "1.prems"(3) s'(3)
    have "poll_ok parent final relevant reorg s' (poll_next rnd inputs' s')" by blast
    moreover have "poll_next rnd inputs s = poll_next rnd inputs' s'" by (subst poll_next.simps) (simp add: Inr x)
    ultimately show ?thesis unfolding poll_ok_def s'(2) by (simp only: s'(2))
  qed
qed

lemma polls_ok:
  assumes "f64_rounding rnd" "stream_inv parent final relevant reorg s"
    and "\<forall>inputs \<in> set inputss. \<forall>i \<in> set inputs. input_ok parent final relevant reorg i" "polls rnd inputss s = (s', rs)"
  shows "path_ok parent final relevant (current_block s) (poll_events rs) \<and> stream_inv parent final relevant reorg s' \<and>
    current_block s' = last (current_block s # map (\<lambda>ev. Some (event_ptr ev)) (poll_events rs))"
  using assms(2,3,4)
proof (induction inputss arbitrary: s rs)
  case (Cons inputs inputss)
  obtain t r where t: "poll_next rnd inputs s = (t, r)" by (cases "poll_next rnd inputs s")
  obtain us where us: "polls rnd inputss t = (s', us)" "rs = r # us"
    using Cons.prems(3) t by (auto split: prod.splits)
  from poll_next_ok [OF assms(1) Cons.prems(1), of inputs] Cons.prems(2) t
  have ok: "poll_ok parent final relevant reorg s (t, r)" by simp
  then have "stream_inv parent final relevant reorg t" by (simp add: poll_ok_def)
  from Cons.IH [OF this _ us(1)] Cons.prems(2)
  have IH: "path_ok parent final relevant (current_block t) (poll_events us)" "stream_inv parent final relevant reorg s'"
    "current_block s' = last (current_block t # map (\<lambda>ev. Some (event_ptr ev)) (poll_events us))" by simp_all
  have "(\<exists>ev. r = SP_Ready (Inr ev) \<and> event_ok parent final relevant (current_block s) ev \<and> current_block t = Some (event_ptr ev)) \<or>
      poll_events (r # us) = poll_events us \<and> current_block t = current_block s"
    using ok by (auto simp: poll_ok_def poll_events_def split: stream_poll.splits sum.splits)
  then show ?case
  proof (elim disjE exE conjE)
    fix ev
    assume ev: "r = SP_Ready (Inr ev)" "event_ok parent final relevant (current_block s) ev" "current_block t = Some (event_ptr ev)"
    then have "poll_events rs = ev # poll_events us" by (simp add: us(2) poll_events_def)
    with ev IH show ?thesis by simp
  qed (use IH us(2) in simp)
qed (simp add: poll_events_def)

end


section \<open>The stream catches up\<close>

lemma get_next_step_far:
  assumes "w_chain_head_ptr w = Inr (Some h)" "ctx_current_block ctx = Some p" "ptr_number p < ptr_number h"
    and far: "ptr_number h - ptr_number p > min (ctx_reorg_threshold ctx) (ptr_number h)" and on: "w_is_on_main_chain w p = Inr on"
  shows "get_next_step rnd w ctx = (if \<not> on then revert_step w p
    else scan_step rnd w ctx h (min (ctx_reorg_threshold ctx) (ptr_number h)) (ptr_number p + 1))"
  unfolding get_next_step_def Let_def assms(1,2) sum.case option.case if_P [OF far] on using assms(3) by simp

text \<open>All calls succeed and the head of the chain is \<open>h\<close>.\<close>

definition world_total :: "(block_ptr \<Rightarrow> block_ptr option) \<Rightarrow> block_ptr \<Rightarrow> 'd chain_world \<Rightarrow> bool" where
  "world_total parent h w \<longleftrightarrow> w_chain_head_ptr w = Inr (Some h) \<and> (\<forall>p. \<exists>b. w_is_on_main_chain w p = Inr b) \<and>
     (\<forall>from to. \<exists>bs. w_scan_triggers w from to = Inr bs) \<and> (\<forall>b. \<exists>ts. w_triggers_in_block w b = Inr (b, ts)) \<and>
     (\<forall>n. 0 \<le> n \<and> n \<le> ptr_number h \<longrightarrow> (\<exists>b. w_ancestor_block w h n = Inr (Some b))) \<and>
     (\<forall>p. w_parent_ptr w p = Inr (parent p))"

text \<open>The stream can still get to \<open>h\<close>: its block is \<open>h\<close>, or lower and shares an ancestor with it.\<close>

definition on_the_way :: "(block_ptr \<Rightarrow> block_ptr option) \<Rightarrow> block_ptr \<Rightarrow> block_ptr option \<Rightarrow> bool" where
  "on_the_way parent h cur \<longleftrightarrow> (\<forall>p. cur = Some p \<longrightarrow> p = h \<or>
     ptr_number p < ptr_number h \<and> (\<exists>c. 0 \<le> ptr_number c \<and> ancestor parent c p \<and> ancestor parent c h))"

definition on_chain :: "(block_ptr \<Rightarrow> block_ptr option) \<Rightarrow> block_ptr \<Rightarrow> block_ptr option \<Rightarrow> bool" where
  "on_chain parent h cur \<longleftrightarrow> (\<forall>p. cur = Some p \<longrightarrow> ancestor parent p h)"

definition way_left :: "(block_ptr \<Rightarrow> block_ptr option) \<Rightarrow> block_ptr \<Rightarrow> block_ptr option \<Rightarrow> nat" where
  "way_left parent h cur =
     (if on_chain parent h cur then nat (ptr_number h - number_of cur) else nat (ptr_number h + 2 + number_of cur))"

context chain_laws
begin

lemma ancestor_trans: "ancestor parent p q \<Longrightarrow> ancestor parent q r \<Longrightarrow> ancestor parent p r"
  unfolding ancestor_def by (rule rtranclp_trans)

text \<open>A step of the reconciliation brings the stream closer.\<close>

lemma step_on_chain:
  assumes "f64_rounding rnd" "ctx_ok ctx" and w: "world_ok parent final relevant (ctx_reorg_threshold ctx) w" and total: "world_total parent h w"
    and cur: "on_chain parent h (ctx_current_block ctx)" "ctx_current_block ctx \<noteq> Some h" "number_of (ctx_current_block ctx) < ptr_number h"
      "\<And>p. ctx_current_block ctx = Some p \<Longrightarrow> 0 \<le> ptr_number p"
  shows "\<exists>bs sz. get_next_step rnd w ctx = Inr (Step_ProcessDescendantBlocks bs sz) \<and> (\<forall>b \<in> set bs. ancestor parent (cb_ptr (fst b)) h)"
proof -
  from total have head: "w_chain_head_ptr w = Inr (Some h)" by (simp add: world_total_def)
  let ?reorg = "min (ctx_reorg_threshold ctx) (ptr_number h)"
  have scan: "\<exists>bs sz. scan_step rnd w ctx h ?reorg from = Inr (Step_ProcessDescendantBlocks bs sz) \<and> (\<forall>b \<in> set bs. ancestor parent (cb_ptr (fst b)) h)"
    if frm: "from \<le> ptr_number h - ?reorg" and "0 \<le> from" for "from"
  proof -
    have "from < BLOCK_NUMBER_MAX" using frm world_ok_head(1,2) [OF w head] assms(2) unfolding ctx_ok_def by linarith
    note to = scan_to_bounds(1,2) [OF assms(1,2) frm this]
    obtain bs where bs: "w_scan_triggers w from (scan_to rnd ctx h ?reorg from) = Inr bs" using total unfolding world_total_def by blast
    have "ancestor parent (cb_ptr (fst b)) h" if "b \<in> set bs" for b
      using world_ok_head(5) [OF w head \<open>0 \<le> from\<close> to bs] that to(2) world_ok_head(3) [OF w head, of "cb_ptr (fst b)"] world_ok_head(1) [OF w head] assms(2)
      by (force simp: scan_ok_def ctx_ok_def)
    with bs show ?thesis by (simp add: scan_step_def)
  qed
  show ?thesis
  proof (cases "ctx_current_block ctx")
    case None
    then have "get_next_step rnd w ctx = scan_step rnd w ctx h ?reorg 0" by (simp add: get_next_step_def head Let_def)
    with scan [of 0] show ?thesis by simp
  next
    case (Some p)
    with cur have p: "ancestor parent p h" "ptr_number p < ptr_number h" "0 \<le> ptr_number p" by (simp_all add: on_chain_def number_of_def)
    show ?thesis
    proof (cases "ptr_number h - ptr_number p > ?reorg")
      case True
      obtain on where on: "w_is_on_main_chain w p = Inr on" using total unfolding world_total_def by blast
      with world_ok_head(4) [OF w head True on] world_ok_head(9) [OF w head p(1,3) True] have "on" by simp
      with get_next_step_far [OF head Some p(2) True on]
      have "get_next_step rnd w ctx = scan_step rnd w ctx h ?reorg (ptr_number p + 1)" by simp
      with scan [of "ptr_number p + 1"] True p(3) show ?thesis by simp
    next
      case False
      have "0 \<le> ptr_number h - ptr_number p - 1" "ptr_number h - ptr_number p - 1 \<le> ptr_number h" using p by simp_all
      with total obtain b where b: "w_ancestor_block w h (ptr_number h - ptr_number p - 1) = Inr (Some b)" unfolding world_total_def by blast
      note anc = world_ok_head(6,7,8) [OF w head b]
      have "parent (cb_ptr b) = Some p" by (rule ancestor_child [OF p(1) anc(1)]) (simp add: anc(2))
      then have "cb_parent_hash b = Some (ptr_hash p)" by (simp add: cb_parent_hash_def anc(3))
      moreover obtain ts where "w_triggers_in_block w b = Inr (b, ts)" using total unfolding world_total_def by blast
      ultimately have "get_next_step rnd w ctx = Inr (Step_ProcessDescendantBlocks [(b, ts)] 1)"
        using False Some p b by (simp add: get_next_step_def head Let_def nonfinal_step_def)
      with anc(1) show ?thesis by simp
    qed
  qed
qed

lemma step_off_chain:
  assumes w: "world_ok parent final relevant (ctx_reorg_threshold ctx) w" and total: "world_total parent h w"
    and cur: "ctx_current_block ctx = Some p" "\<not> ancestor parent p h" "ptr_number p < ptr_number h" "parent p = Some q" "0 \<le> ptr_number p"
  shows "get_next_step rnd w ctx = Inr (Step_Revert q)"
proof -
  from total have head: "w_chain_head_ptr w = Inr (Some h)" by (simp add: world_total_def)
  let ?reorg = "min (ctx_reorg_threshold ctx) (ptr_number h)"
  from total cur(4) have rev: "revert_step w p = Inr (Step_Revert q)" by (simp add: revert_step_def stream_parent_ptr_def world_total_def)
  show ?thesis
  proof (cases "ptr_number h - ptr_number p > ?reorg")
    case True
    obtain on where on: "w_is_on_main_chain w p = Inr on" using total unfolding world_total_def by blast
    have "\<not> final p" using world_ok_head(3) [OF w head, of p] cur(2,3) by auto
    with world_ok_head(4) [OF w head True on] have "\<not> on" by simp
    with get_next_step_far [OF head cur(1,3) True on] rev show ?thesis by simp
  next
    case False
    have "0 \<le> ptr_number h - ptr_number p - 1" "ptr_number h - ptr_number p - 1 \<le> ptr_number h" using cur by simp_all
    with total obtain b where b: "w_ancestor_block w h (ptr_number h - ptr_number p - 1) = Inr (Some b)" unfolding world_total_def by blast
    note anc = world_ok_head(6,7,8) [OF w head b]
    have "cb_parent_hash b \<noteq> Some (ptr_hash p)"
    proof
      assume "cb_parent_hash b = Some (ptr_hash p)"
      then obtain r where r: "parent (cb_ptr b) = Some r" "ptr_hash r = ptr_hash p" using anc(3) by (auto simp: cb_parent_hash_def)
      from parent_number [OF r(1)] anc(2) r(2) have "r = p" by (simp add: block_ptr.equality)
      with ancestor_trans [OF ancestor_parent [OF r(1)] anc(1)] cur(2) show False by simp
    qed
    with False cur b rev show ?thesis by (simp add: get_next_step_def head Let_def nonfinal_step_def)
  qed
qed

end

definition catching ::
    "(block_ptr \<Rightarrow> block_ptr option) \<Rightarrow> (block_ptr \<Rightarrow> bool) \<Rightarrow> (block_ptr \<Rightarrow> bool) \<Rightarrow> block_number \<Rightarrow> block_ptr \<Rightarrow> 'd polling_stream \<Rightarrow> bool" where
  "catching parent final relevant reorg h s \<longleftrightarrow> stream_inv parent final relevant reorg s \<and> on_the_way parent h (current_block s) \<and>
     (case ps_state s of
        BS_BeginReconciliation \<Rightarrow> True
      | BS_YieldingBlocks bs \<Rightarrow> (bs \<noteq> [] \<longrightarrow> on_chain parent h (current_block s)) \<and> (\<forall>b \<in> set bs. ancestor parent (cb_ptr (fst b)) h)
      | _ \<Rightarrow> False)"

lemma poll_next_begin:
  assumes "ps_state s = BS_BeginReconciliation \<or> ps_state s = BS_YieldingBlocks []"
  shows "poll_next rnd inputs s = poll_next rnd inputs (s\<lparr>ps_state := BS_Reconciliation (ps_ctx s)\<rparr>)"
proof -
  have "poll_next rnd inputs t = poll_next rnd inputs (t\<lparr>ps_state := BS_Reconciliation (ps_ctx t)\<rparr>)"
    if "ps_state t = BS_BeginReconciliation" for t :: "'a polling_stream"
    using that by (subst poll_next.simps) (simp add: poll_turn_def)
  note recon = this
  show ?thesis
  proof (cases "ps_state s = BS_BeginReconciliation")
    case False
    with assms have "poll_next rnd inputs s = poll_next rnd inputs (s\<lparr>ps_state := BS_BeginReconciliation\<rparr>)"
      by (subst poll_next.simps) (simp add: poll_turn_def)
    with recon [of "s\<lparr>ps_state := BS_BeginReconciliation\<rparr>"] show ?thesis by simp
  qed (rule recon)
qed

lemma poll_next_reconciliation:
  assumes "ps_state s = BS_Reconciliation ctx"
  shows "poll_next rnd [i] s = (case next_blocks rnd (in_worlds i) ctx of
      Some (Inr (Next_Blocks bs sz)) \<Rightarrow> poll_next rnd [] (on_blocks rnd bs sz s)
    | Some (Inr Next_Done) \<Rightarrow> (s\<lparr>ps_consecutive_err_count := 0, ps_state := BS_Idle\<rparr>, SP_Pending)
    | Some (Inr (Next_Revert p)) \<Rightarrow>
        (s\<lparr>ps_ctx := (ps_ctx s)\<lparr>ctx_current_block := Some p\<rparr>, ps_state := BS_BeginReconciliation\<rparr>, SP_Ready (Inr (SE_Revert p)))
    | Some (Inl e) \<Rightarrow> (on_error s, SP_Ready (Inl e)) | None \<Rightarrow> (s, SP_Pending))"
proof -
  have idle: "poll_next rnd [] t = (t, SP_Pending)" if "ps_state t = BS_Idle" for t :: "'a polling_stream"
    using that by (subst poll_next.simps) (simp add: poll_turn_def)
  show ?thesis using assms
    by (subst poll_next.simps) (simp add: poll_turn_def idle split: option.split sum.split next_blocks_result.split)
qed

context chain_laws
begin

lemma on_the_way_number: "0 \<le> ptr_number h \<Longrightarrow> on_the_way parent h (Some p) \<Longrightarrow> 0 \<le> ptr_number p"
  by (auto simp: on_the_way_def dest: ancestor_number)

lemma yield_gets_closer:
  assumes c: "catching parent final relevant reorg h s" and state: "ps_state s = BS_YieldingBlocks (b # bs)" and h: "0 \<le> ptr_number h"
  shows "\<exists>s' r. poll_next rnd inputs s = (s', r) \<and> catching parent final relevant reorg h s' \<and>
    way_left parent h (current_block s') < way_left parent h (current_block s)"
proof -
  let ?s = "s\<lparr>ps_ctx := (ps_ctx s)\<lparr>ctx_current_block := Some (cb_ptr (fst b))\<rparr>, ps_state := BS_YieldingBlocks bs\<rparr>"
  have run: "poll_next rnd inputs s = (?s, SP_Ready (Inr (SE_ProcessBlock b)))"
    by (subst poll_next.simps) (simp add: poll_turn_def state)
  from c state have inv: "event_ok parent final relevant (current_block s) (SE_ProcessBlock b)" "stream_inv parent final relevant reorg ?s"
      "ancestor parent (cb_ptr (fst b)) h" "\<forall>x \<in> set bs. ancestor parent (cb_ptr (fst x)) h"
      "on_chain parent h (current_block s)" "on_the_way parent h (current_block s)"
    by (simp_all add: catching_def stream_inv_def ctx_ok_def)
  have "- 1 \<le> number_of (current_block s)"
    using on_the_way_number [OF h] inv(6) by (cases "current_block s") (fastforce simp: number_of_def)+
  with inv(1) have b: "0 \<le> ptr_number (cb_ptr (fst b))" "number_of (current_block s) < ptr_number (cb_ptr (fst b))" by simp_all
  from ancestor_number [OF inv(3)] have le: "ptr_number (cb_ptr (fst b)) \<le> ptr_number h"
    and eq: "ptr_number (cb_ptr (fst b)) = ptr_number h \<Longrightarrow> cb_ptr (fst b) = h" by simp_all
  have "on_the_way parent h (Some (cb_ptr (fst b)))"
    unfolding on_the_way_def using b(1) inv(3) le eq by fastforce
  with inv have "catching parent final relevant reorg h ?s" by (simp add: catching_def on_chain_def)
  moreover have "way_left parent h (current_block ?s) < way_left parent h (current_block s)"
    using inv(3,5) b le by (simp add: way_left_def on_chain_def number_of_def)
  ultimately show ?thesis using run by blast
qed

lemma way_left_revert:
  assumes "0 \<le> ptr_number q" "0 \<le> ptr_number h" "parent p = Some q" "\<not> ancestor parent p h"
  shows "way_left parent h (Some q) < way_left parent h (Some p)"
  using assms parent_number [OF assms(3)] by (simp add: way_left_def on_chain_def number_of_def)

lemma off_chain_closer:
  assumes w: "world_ok parent final relevant reorg w" and total: "world_total parent h w" and c: "catching parent final relevant reorg h s"
    and off: "\<not> on_chain parent h (current_block s)" and h: "0 \<le> ptr_number h"
  shows "\<exists>q. get_next_step rnd w (ps_ctx s) = Inr (Step_Revert q) \<and> on_the_way parent h (Some q) \<and>
    way_left parent h (Some q) < way_left parent h (current_block s)"
proof -
  from c have ctx: "ctx_reorg_threshold (ps_ctx s) = reorg" "on_the_way parent h (current_block s)"
    by (simp_all add: catching_def stream_inv_def)
  from off obtain p where p: "current_block s = Some p" "\<not> ancestor parent p h" by (auto simp: on_chain_def)
  then have "p \<noteq> h" by auto
  with ctx(2) p obtain a where a: "ptr_number p < ptr_number h" "0 \<le> ptr_number a" "ancestor parent a p" "ancestor parent a h"
    by (auto simp: on_the_way_def)
  with p(2) ancestor_cases [OF a(3)] obtain q where q: "parent p = Some q" "ancestor parent a q" by auto
  have num: "0 \<le> ptr_number q" "0 \<le> ptr_number p" "ptr_number q < ptr_number h"
    using ancestor_number [OF q(2)] a(1,2) parent_number [OF q(1)] by simp_all
  have "get_next_step rnd w (ps_ctx s) = Inr (Step_Revert q)"
    by (rule step_off_chain [OF w [folded ctx(1)] total p(1,2) a(1) q(1) num(2)])
  moreover have "on_the_way parent h (Some q)" using num(3) a(2,4) q(2) by (auto simp: on_the_way_def)
  ultimately show ?thesis using way_left_revert [OF num(1) h q(1) p(2)] p(1) by auto
qed

lemma on_chain_closer:
  assumes rnd: "f64_rounding rnd" and w: "world_ok parent final relevant reorg w" and total: "world_total parent h w"
    and c: "catching parent final relevant reorg h s" and on: "on_chain parent h (current_block s)" "current_block s \<noteq> Some h"
    and h: "0 \<le> ptr_number h"
  shows "\<exists>b bs sz. get_next_step rnd w (ps_ctx s) = Inr (Step_ProcessDescendantBlocks (b # bs) sz) \<and>
    catching parent final relevant reorg h (on_blocks rnd (b # bs) sz s)"
proof -
  from c have ctx: "ctx_ok (ps_ctx s)" "ctx_reorg_threshold (ps_ctx s) = reorg" "on_the_way parent h (current_block s)"
    by (simp_all add: catching_def stream_inv_def)
  note w' = w [folded ctx(2)]
  have "number_of (current_block s) < ptr_number h"
    using ctx(3) on(2) h by (cases "current_block s") (auto simp: number_of_def on_the_way_def)
  moreover have "0 \<le> ptr_number p" if "current_block s = Some p" for p using on_the_way_number [OF h] ctx(3) that by simp
  ultimately obtain bs sz where step: "get_next_step rnd w (ps_ctx s) = Inr (Step_ProcessDescendantBlocks bs sz)"
      "\<forall>b \<in> set bs. ancestor parent (cb_ptr (fst b)) h"
    using step_on_chain [OF rnd ctx(1) w' total on] by blast
  from get_next_step_ok [OF rnd ctx(1) w' step(1)] have ok: "bs \<noteq> []" "path_ok parent final relevant (current_block s) (map SE_ProcessBlock bs)" "1 \<le> sz"
    by (simp_all add: step_ok_def)
  with ctx on(1) step(2) have "catching parent final relevant reorg h (on_blocks rnd bs sz s)"
    by (simp add: catching_def stream_inv_def on_blocks_fields)
  moreover from ok(1) obtain b bs' where "bs = b # bs'" by (cases bs) auto
  ultimately show ?thesis using step(1) by blast
qed

lemma poll_gets_closer:
  assumes rnd: "f64_rounding rnd" and w: "world_ok parent final relevant reorg w" and total: "world_total parent h w"
    and c: "catching parent final relevant reorg h s" and i: "in_worlds i = [w]"
  shows "\<exists>s' r. poll_next rnd [i] s = (s', r) \<and> (ps_state s' = BS_Idle \<and> current_block s' = Some h \<or>
    catching parent final relevant reorg h s' \<and> way_left parent h (current_block s') < way_left parent h (current_block s))"
proof (cases "\<exists>b bs. ps_state s = BS_YieldingBlocks (b # bs)")
  case True
  from total have "w_chain_head_ptr w = Inr (Some h)" by (simp add: world_total_def)
  from True yield_gets_closer [OF c _ world_ok_head(1) [OF w this]] show ?thesis by blast
next
  case False
  from total have head: "w_chain_head_ptr w = Inr (Some h)" by (simp add: world_total_def)
  note h = world_ok_head(1) [OF w head]
  let ?r = "s\<lparr>ps_state := BS_Reconciliation (ps_ctx s)\<rparr>"
  have "ps_state s = BS_BeginReconciliation \<or> ps_state s = BS_YieldingBlocks []"
  proof (cases "ps_state s")
    case (BS_YieldingBlocks bs)
    with False show ?thesis by (cases bs) auto
  qed (use c in \<open>simp_all add: catching_def\<close>)
  note first = poll_next_begin [OF this, of rnd "[i]"]
  have "ps_state ?r = BS_Reconciliation (ps_ctx s)" by simp
  note recon = first [unfolded poll_next_reconciliation [OF this, of rnd i, unfolded i]]
  consider "current_block s = Some h" | "on_chain parent h (current_block s)" "current_block s \<noteq> Some h" | "\<not> on_chain parent h (current_block s)"
    by blast
  then show ?thesis
  proof cases
    case 1
    then have "get_next_step rnd w (ps_ctx s) = Inr Step_Done" by (simp add: get_next_step_def head Let_def)
    with 1 show ?thesis unfolding recon by simp
  next
    case 2
    from on_chain_closer [OF rnd w total c this h] obtain b bs sz where
      step: "get_next_step rnd w (ps_ctx s) = Inr (Step_ProcessDescendantBlocks (b # bs) sz)"
        "catching parent final relevant reorg h (on_blocks rnd (b # bs) sz s)" by blast
    have "on_blocks rnd (b # bs) sz ?r = on_blocks rnd (b # bs) sz s" by (simp add: on_blocks_def Let_def)
    with step yield_gets_closer [OF step(2) on_blocks_fields(1) h, of rnd "[]"] show ?thesis
      unfolding recon by (auto simp: on_blocks_fields)
  next
    case 3
    from off_chain_closer [OF w total c 3 h] obtain q where
      q: "get_next_step rnd w (ps_ctx s) = Inr (Step_Revert q)" "on_the_way parent h (Some q)"
        "way_left parent h (Some q) < way_left parent h (current_block s)" by blast
    with c show ?thesis unfolding recon by (simp add: catching_def stream_inv_def ctx_ok_def)
  qed
qed

lemma stream_catches_up_from:
  assumes rnd: "f64_rounding rnd" and w: "world_ok parent final relevant reorg w" and total: "world_total parent h w"
    and c: "catching parent final relevant reorg h s" and i: "in_worlds i = [w]"
  shows "\<exists>n s' rs. polls rnd (replicate n [i]) s = (s', rs) \<and> ps_state s' = BS_Idle \<and> current_block s' = Some h"
  using c
proof (induction "way_left parent h (current_block s)" arbitrary: s rule: less_induct)
  case less
  from poll_gets_closer [OF rnd w total less.prems i] obtain t r where t: "poll_next rnd [i] s = (t, r)"
      "ps_state t = BS_Idle \<and> current_block t = Some h \<or>
       catching parent final relevant reorg h t \<and> way_left parent h (current_block t) < way_left parent h (current_block s)"
    by blast
  from t(2) show ?case
  proof
    assume "ps_state t = BS_Idle \<and> current_block t = Some h"
    with t(1) have "polls rnd (replicate 1 [i]) s = (t, [r]) \<and> ps_state t = BS_Idle \<and> current_block t = Some h" by simp
    then show ?thesis by blast
  next
    assume "catching parent final relevant reorg h t \<and> way_left parent h (current_block t) < way_left parent h (current_block s)"
    with less.hyps obtain n s' rs where "polls rnd (replicate n [i]) t = (s', rs)" "ps_state s' = BS_Idle" "current_block s' = Some h"
      by blast
    with t(1) have "polls rnd (replicate (Suc n) [i]) s = (s', r # rs) \<and> ps_state s' = BS_Idle \<and> current_block s' = Some h" by simp
    then show ?thesis by blast
  qed
qed

end



section \<open>A chain without forks\<close>

text \<open>The block with number \<open>n\<close> has \<open>n\<close> zeros as its hash. Blocks up to \<open>limit\<close> are final.\<close>

definition line_ptr :: "block_number \<Rightarrow> block_ptr" where
  "line_ptr n = \<lparr> ptr_hash = replicate (nat n) 0, ptr_number = n \<rparr>"

definition line_parent :: "block_ptr \<Rightarrow> block_ptr option" where
  "line_parent p = (if 0 < ptr_number p \<and> p = line_ptr (ptr_number p) then Some (line_ptr (ptr_number p - 1)) else None)"

definition line_final :: "block_number \<Rightarrow> block_ptr \<Rightarrow> bool" where
  "line_final limit p \<longleftrightarrow> 0 \<le> ptr_number p \<and> ptr_number p \<le> limit \<and> p = line_ptr (ptr_number p)"

definition line_block :: "block_number \<Rightarrow> chain_block" where
  "line_block n = \<lparr> cb_ptr = line_ptr n, cb_parent_ptr = line_parent (line_ptr n) \<rparr>"

definition line_world :: "block_number \<Rightarrow> block_number \<Rightarrow> nat chain_world" where
  "line_world limit h =
     \<lparr> w_chain_head_ptr = Inr (Some (line_ptr h)),
       w_ancestor_block = (\<lambda>p n. Inr (if 0 \<le> n \<and> n \<le> ptr_number p then Some (line_block (ptr_number p - n)) else None)),
       w_scan_triggers = (\<lambda>from to. Inr (map (\<lambda>n. (line_block n, [])) [from..to])),
       w_triggers_in_block = (\<lambda>b. Inr (b, [])), w_is_on_main_chain = (\<lambda>p. Inr (line_final limit p)),
       w_parent_ptr = (\<lambda>p. Inr (line_parent p)) \<rparr>"

lemma ptr_number_line [simp]: "ptr_number (line_ptr n) = n"
  by (simp add: line_ptr_def)

lemma line_ancestor: "0 \<le> m \<Longrightarrow> m \<le> n \<Longrightarrow> ancestor line_parent (line_ptr m) (line_ptr n)"
proof (induction "nat (n - m)" arbitrary: n)
  case (Suc k)
  then have "ancestor line_parent (line_ptr m) (line_ptr (n - 1))" by simp
  moreover have "line_parent (line_ptr n) = Some (line_ptr (n - 1))" using Suc by (simp add: line_parent_def)
  ultimately show ?case unfolding ancestor_def by (meson converse_rtranclp_into_rtranclp)
qed (simp add: ancestor_def)

interpretation line_chain: chain_laws line_parent "line_final limit" for limit
proof
  fix p q
  show "line_parent q = Some p \<Longrightarrow> ptr_number q = ptr_number p + 1" by (auto simp: line_parent_def split: if_splits)
  assume "line_final limit p" "line_final limit q" "ptr_number p \<le> ptr_number q"
  then show "ancestor line_parent p q" using line_ancestor [of "ptr_number p" "ptr_number q"] by (simp add: line_final_def)
qed (simp add: line_final_def)

lemma line_ancestor_iff:
  "0 \<le> n \<Longrightarrow> ancestor line_parent p (line_ptr n) \<longleftrightarrow> p = line_ptr (ptr_number p) \<and> 0 \<le> ptr_number p \<and> ptr_number p \<le> n"
proof
  assume "ancestor line_parent p (line_ptr n)" "0 \<le> n"
  then show "p = line_ptr (ptr_number p) \<and> 0 \<le> ptr_number p \<and> ptr_number p \<le> n"
    unfolding ancestor_def by (induction rule: rtranclp_induct) (auto simp: line_parent_def split: if_splits)
qed (metis line_ancestor)

lemma line_world_ok:
  assumes "0 \<le> h" "h < BLOCK_NUMBER_MAX" "0 \<le> reorg" and limit: "limit = h - min reorg h"
  shows "world_ok line_parent (line_final limit) relevant reorg (line_world limit h)"
proof -
  have scan: "scan_ok (line_final limit) relevant from to (map (\<lambda>n. (line_block n, [] :: nat list)) [from..to])"
    if "0 \<le> from" "from \<le> to" "to \<le> limit" for "from" to
  proof -
    have "sorted_wrt (<) [from..to]" by simp
    moreover have "p \<in> (\<lambda>n. line_ptr n) ` {from..to}" if "line_final limit p" "from \<le> ptr_number p" "ptr_number p \<le> to" for p
      using that by (auto simp: line_final_def)
    ultimately show ?thesis using that
      by (simp add: scan_ok_def line_block_def sorted_wrt_map image_image) (auto simp: line_final_def)
  qed
  have anc: "ancestor line_parent p (line_ptr h)" if "line_final limit p" "ptr_number p \<le> h" for p
    using that assms(1) by (simp add: line_ancestor_iff line_final_def)
  show ?thesis
    unfolding world_ok_def using assms(1,2) scan anc
    by (auto simp: line_world_def line_ancestor_iff limit line_final_def line_block_def)
qed

lemma line_world_total: "0 \<le> h \<Longrightarrow> world_total line_parent (line_ptr h) (line_world limit h)"
  by (simp add: world_total_def line_world_def)

definition line_input :: "nat poll_input" where
  "line_input = \<lparr> in_worlds = [line_world 2 3], in_delay_over = True, in_head_update = Upd_Pending \<rparr>"

lemma line_input_ok: "world_ok line_parent (line_final 2) relevant 1 (line_world 2 3)"
  by (rule line_world_ok) (simp_all add: BLOCK_NUMBER_MAX_def)




section \<open>After errors\<close>

text \<open>The pause after an error is two minutes at least, and has no upper limit.\<close>

lemma retry_secs_bounds:
  assumes "unat n * 5 < 2 ^ 32"
  shows "retry_secs n = max (5 * unat n) 120"
proof -
  have "unat (5 * n) = 5 * unat n" using assms by (simp add: unat_word_ariths)
  then show ?thesis by (simp add: retry_secs_def max_def word_le_nat_alt)
qed

text \<open>After a single error the maximal range shrinks by a tenth, but a maximum below 10 grows to 10.\<close>

lemma max_range_after_error:
  "ps_consecutive_err_count s = 1 \<Longrightarrow>
     ctx_max_block_range_size (ps_ctx (on_blocks rnd bs sz s)) = max (ctx_max_block_range_size (ps_ctx s) * 9 div 10) 10"
  by (simp add: on_blocks_def Let_def)

end
