(* ===== verification/Schema_Ast.thy ===== *)
theory Schema_Ast
  imports Schema "HOL-Library.Sublist"
begin

text \<open>
  Questions about a schema that the query layer asks: \<open>graphql/src/schema/ast.rs\<close>, the view of object
  and interface types as one kind of thing of \<open>graph/src/data/graphql/object_or_interface.rs\<close>, and
  \<open>ApiSchema\<close> of \<open>graph/src/data/schema.rs\<close>, the schema that queries run against.

  The names of the filter arguments are built from the name of a field and a suffix for the operator;
  \<open>parse_field_as_filter\<close> takes them apart again. The central lemmas say for which field names it
  finds the field and the operator that were put in.
\<close>

section \<open>Object and interface types\<close>

fun ooi_is_interface :: "object_or_interface \<Rightarrow> bool" where
  "ooi_is_interface (OI_Object _) = False"
| "ooi_is_interface (OI_Interface _) = True"

definition ooi_is_object :: "object_or_interface \<Rightarrow> bool" where
  "ooi_is_object t \<longleftrightarrow> \<not> ooi_is_interface t"

fun ooi_name :: "object_or_interface \<Rightarrow> string" where
  "ooi_name (OI_Object t) = obj_name t"
| "ooi_name (OI_Interface t) = intf_name t"

fun ooi_directives :: "object_or_interface \<Rightarrow> directive list" where
  "ooi_directives (OI_Object t) = obj_directives t"
| "ooi_directives (OI_Interface t) = intf_directives t"

fun ooi_fields :: "object_or_interface \<Rightarrow> s_field list" where
  "ooi_fields (OI_Object t) = obj_fields t"
| "ooi_fields (OI_Interface t) = intf_fields t"

definition ooi_field :: "object_or_interface \<Rightarrow> string \<Rightarrow> s_field option" where
  "ooi_field t name = find (\<lambda>f. fld_name f = name) (ooi_fields t)"

text \<open>\<open>PartialEq\<close> of \<open>ObjectOrInterface\<close>: the same kind of type and the same name.\<close>

definition ooi_eq :: "object_or_interface \<Rightarrow> object_or_interface \<Rightarrow> bool" where
  "ooi_eq a b \<longleftrightarrow> ooi_is_interface a = ooi_is_interface b \<and> ooi_name a = ooi_name b"

fun ooi_object_types :: "schema \<Rightarrow> object_or_interface \<Rightarrow> object_type list option" where
  "ooi_object_types sch (OI_Object t) = Some [t]"
| "ooi_object_types sch (OI_Interface t) = map_of (sch_types_for_interface sch) (intf_name t)"

text \<open>\<^term>\<open>None\<close> is the panic on an interface that the map does not have.\<close>

fun ooi_matches ::
    "(entity_type, object_type list) btree_map \<Rightarrow> object_or_interface \<Rightarrow> string \<Rightarrow> bool option" where
  "ooi_matches types (OI_Object t) typename = Some (obj_name t = typename)"
| "ooi_matches types (OI_Interface t) typename =
     map_option (list_ex (\<lambda>o'. obj_name o' = typename)) (map_of types (intf_name t))"

section \<open>Questions about a document\<close>

definition TYPENAME_FIELD :: s_field where
  "TYPENAME_FIELD =
     \<lparr> fld_name = ''__typename'', fld_arguments = [],
       fld_type = NonNullType (NamedType ''String''), fld_directives = [] \<rparr>"

definition sast_get_field :: "object_or_interface \<Rightarrow> string \<Rightarrow> s_field option" where
  "sast_get_field t name =
     (if name = fld_name TYPENAME_FIELD then Some TYPENAME_FIELD else ooi_field t name)"

fun get_field_value_type :: "s_type \<Rightarrow> value_type option" where
  "get_field_value_type (NamedType name) = value_type_from_str name"
| "get_field_value_type (NonNullType inner) = get_field_value_type inner"
| "get_field_value_type (ListType _) = None"

fun get_field_name :: "s_type \<Rightarrow> string" where
  "get_field_name (NamedType name) = name"
| "get_field_name (NonNullType inner) = get_field_name inner"
| "get_field_name (ListType inner) = get_field_name inner"

definition NAME_ARGUMENT :: "input_value list" where
  "NAME_ARGUMENT =
     [\<lparr> iv_name = ''name'', iv_type = NonNullType (NamedType ''String''),
        iv_default = None, iv_directives = [] \<rparr>]"

definition get_argument_definitions :: "object_or_interface \<Rightarrow> string \<Rightarrow> input_value list option" where
  "get_argument_definitions t name =
     (if name = ''__type'' then Some NAME_ARGUMENT
      else map_option fld_arguments (sast_get_field t name))"

fun get_type_definition_from_type :: "s_document \<Rightarrow> s_type \<Rightarrow> type_definition option" where
  "get_type_definition_from_type doc (NamedType name) = get_named_type doc name"
| "get_type_definition_from_type doc (ListType inner) = get_type_definition_from_type doc inner"
| "get_type_definition_from_type doc (NonNullType inner) = get_type_definition_from_type doc inner"

definition get_object_type_directive :: "object_type \<Rightarrow> string \<Rightarrow> directive option" where
  "get_object_type_directive t name = find (\<lambda>d. dir_name d = name) (obj_directives t)"

fun is_input_type :: "s_document \<Rightarrow> s_type \<Rightarrow> bool" where
  "is_input_type doc (NamedType name) =
     (case get_named_type doc name of
        Some (TD_Scalar _) \<Rightarrow> True
      | Some (TD_Enum _) \<Rightarrow> True
      | Some (TD_InputObject _) \<Rightarrow> True
      | _ \<Rightarrow> False)"
| "is_input_type doc (ListType inner) = is_input_type doc inner"
| "is_input_type doc (NonNullType inner) = is_input_type doc inner"

fun is_entity_type_definition :: "type_definition \<Rightarrow> bool" where
  "is_entity_type_definition (TD_Object t) = (get_object_type_directive t ''entity'' \<noteq> None)"
| "is_entity_type_definition (TD_Interface _) = True"
| "is_entity_type_definition _ = False"

fun is_entity_type :: "s_document \<Rightarrow> s_type \<Rightarrow> bool" where
  "is_entity_type doc (NamedType name) =
     (case get_named_type doc name of None \<Rightarrow> False | Some td \<Rightarrow> is_entity_type_definition td)"
| "is_entity_type doc (ListType inner) = is_entity_type doc inner"
| "is_entity_type doc (NonNullType inner) = is_entity_type doc inner"

definition is_list_or_non_null_list_field :: "s_field \<Rightarrow> bool" where
  "is_list_or_non_null_list_field f =
     (case fld_type f of
        ListType _ \<Rightarrow> True
      | NonNullType (ListType _) \<Rightarrow> True
      | _ \<Rightarrow> False)"

definition get_referenced_entity_type :: "s_document \<Rightarrow> s_field \<Rightarrow> type_definition option" where
  "get_referenced_entity_type doc f =
     (case get_type_definition_from_type doc (fld_type f) of
        Some td \<Rightarrow> if is_entity_type_definition td then Some td else None
      | None \<Rightarrow> None)"

definition get_derived_from_directive :: "s_field \<Rightarrow> directive option" where
  "get_derived_from_directive f = find_directive (fld_directives f) ''derivedFrom''"

definition get_derived_from_field :: "object_or_interface \<Rightarrow> s_field \<Rightarrow> s_field option" where
  "get_derived_from_field t f =
     Option.bind (get_derived_from_directive f) (\<lambda>directive.
       case argument directive ''field'' of
         Some (SV_String s) \<Rightarrow> sast_get_field t s
       | _ \<Rightarrow> None)"

section \<open>The schema of the API\<close>

record api_schema =
  api_sch :: schema
  api_query_type :: object_type
  api_subscription_type :: "object_type option"
  api_object_types :: "(string, object_type) hash_map"

definition introspection_fields :: "s_field list" where
  "introspection_fields =
     [\<lparr> fld_name = ''__schema'', fld_arguments = [],
        fld_type = NonNullType (NamedType ''__Schema''), fld_directives = [] \<rparr>,
      \<lparr> fld_name = ''__type'', fld_arguments = NAME_ARGUMENT,
        fld_type = NamedType ''__Type'', fld_directives = [] \<rparr>]"

text \<open>
  The first element of a vector that satisfies \<open>P\<close> is changed in place; \<^term>\<open>None\<close> when there is none,
  or when the change fails.
\<close>

fun update_first :: "('a \<Rightarrow> bool) \<Rightarrow> ('a \<Rightarrow> 'a option) \<Rightarrow> 'a list \<Rightarrow> 'a list option" where
  "update_first P g [] = None"
| "update_first P g (x # xs) =
     (if P x then map_option (\<lambda>y. y # xs) (g x) else map_option ((#) x) (update_first P g xs))"

fun is_query_object :: "s_definition \<Rightarrow> bool" where
  "is_query_object (TypeDefinition (TD_Object t)) = (obj_name t = ''Query'')"
| "is_query_object _ = False"

fun append_fields :: "s_field list \<Rightarrow> s_definition \<Rightarrow> s_definition option" where
  "append_fields fs (TypeDefinition (TD_Object t)) =
     Some (TypeDefinition (TD_Object (t\<lparr>obj_fields := obj_fields t @ fs\<rparr>)))"
| "append_fields fs _ = None"

text \<open>
  The introspection document is the parsed text of \<open>introspection.graphql\<close>, an argument of the
  definitions here. \<^term>\<open>None\<close> is the panic \<open>no root `Query` in the schema\<close>.
\<close>

definition add_introspection_schema :: "s_document \<Rightarrow> s_document \<Rightarrow> s_document option" where
  "add_introspection_schema introspection doc =
     update_first is_query_object (append_fields introspection_fields) (doc @ introspection)"

definition from_api_schema :: "s_document \<Rightarrow> schema \<Rightarrow> api_schema option" where
  "from_api_schema introspection sch =
     Option.bind (add_introspection_schema introspection (sch_document sch)) (\<lambda>doc.
       Option.bind (get_root_query_type doc) (\<lambda>query_type.
         Some \<lparr> api_sch = sch\<lparr>sch_document := doc\<rparr>, api_query_type = query_type,
                api_subscription_type = get_root_subscription_type doc,
                api_object_types =
                  fold (\<lambda>t. hm_insert (obj_name t) t) (get_object_type_definitions doc) [] \<rparr>))"

abbreviation api_document :: "api_schema \<Rightarrow> s_document" where
  "api_document s \<equiv> sch_document (api_sch s)"

definition api_get_named_type :: "api_schema \<Rightarrow> string \<Rightarrow> type_definition option" where
  "api_get_named_type s name = get_named_type (api_document s) name"

text \<open>\<^term>\<open>None\<close> is the panic on a type that is not part of the schema.\<close>

definition api_object_type :: "api_schema \<Rightarrow> object_type \<Rightarrow> object_type option" where
  "api_object_type s t = hm_get (api_object_types s) (obj_name t)"

definition get_root_query_type_def :: "api_schema \<Rightarrow> type_definition option" where
  "get_root_query_type_def s =
     find_map
       (\<lambda>d. case d of
          TypeDefinition (TD_Object t) \<Rightarrow> if obj_name t = ''Query'' then Some (TD_Object t) else None
        | _ \<Rightarrow> None) (api_document s)"

definition api_object_or_interface ::
    "s_document \<Rightarrow> api_schema \<Rightarrow> string \<Rightarrow> object_or_interface option" where
  "api_object_or_interface introspection s name =
     (if take 2 name = ''__'' then object_or_interface_of introspection name
      else object_or_interface_of (api_document s) name)"

section \<open>Names of filters\<close>

datatype filter_op =
    FO_Not | FO_GreaterThan | FO_LessThan | FO_GreaterOrEqual | FO_LessOrEqual | FO_In | FO_NotIn
  | FO_Contains | FO_ContainsNoCase | FO_NotContains | FO_NotContainsNoCase
  | FO_StartsWith | FO_StartsWithNoCase | FO_NotStartsWith | FO_NotStartsWithNoCase
  | FO_EndsWith | FO_EndsWithNoCase | FO_NotEndsWith | FO_NotEndsWithNoCase
  | FO_Equal | FO_Child | FO_And | FO_Or

text \<open>\<open>str::ends_with\<close> and \<open>str::trim_end_matches\<close>, which removes every repetition of the suffix.\<close>

definition ends_with :: "string \<Rightarrow> string \<Rightarrow> bool" where
  "ends_with s suf \<longleftrightarrow> prefix (rev suf) (rev s)"

function trim_start_matches :: "string \<Rightarrow> string \<Rightarrow> string" where
  "trim_start_matches p s =
     (if p \<noteq> [] \<and> prefix p s then trim_start_matches p (drop (length p) s) else s)"
  by auto
termination
  by (relation "measure (\<lambda>(p, s). length s)") (auto simp: prefix_def)

declare trim_start_matches.simps [simp del]

definition trim_end_matches :: "string \<Rightarrow> string \<Rightarrow> string" where
  "trim_end_matches s suf = rev (trim_start_matches (rev suf) (rev s))"

text \<open>The arms of the \<open>match\<close> that look at the end of the key, in the order in which they are tried.\<close>

definition filter_suffixes :: "(string \<times> filter_op) list" where
  "filter_suffixes =
     [(''_not'', FO_Not), (''_gt'', FO_GreaterThan), (''_lt'', FO_LessThan),
      (''_gte'', FO_GreaterOrEqual), (''_lte'', FO_LessOrEqual),
      (''_not_in'', FO_NotIn), (''_in'', FO_In),
      (''_not_contains'', FO_NotContains), (''_not_contains_nocase'', FO_NotContainsNoCase),
      (''_contains'', FO_Contains), (''_contains_nocase'', FO_ContainsNoCase),
      (''_not_starts_with'', FO_NotStartsWith), (''_not_starts_with_nocase'', FO_NotStartsWithNoCase),
      (''_not_ends_with'', FO_NotEndsWith), (''_not_ends_with_nocase'', FO_NotEndsWithNoCase),
      (''_starts_with'', FO_StartsWith), (''_starts_with_nocase'', FO_StartsWithNoCase),
      (''_ends_with'', FO_EndsWith), (''_ends_with_nocase'', FO_EndsWithNoCase),
      (''_'', FO_Child)]"

definition parse_field_as_filter :: "string \<Rightarrow> string \<times> filter_op" where
  "parse_field_as_filter key =
     (case find (\<lambda>(suf, _). ends_with key suf) filter_suffixes of
        Some (suf, op) \<Rightarrow> (trim_end_matches key suf, op)
      | None \<Rightarrow>
          if key = ''and'' then (key, FO_And)
          else if key = ''or'' then (key, FO_Or)
          else (trim_end_matches key [], FO_Equal))"

section \<open>Filter names are parsed back\<close>

text \<open>
  A field name is plain when it ends in none of the suffixes and is not one of the two words that
  stand for the boolean operators.
\<close>

definition plain_field_name :: "string \<Rightarrow> bool" where
  "plain_field_name f \<longleftrightarrow>
     f \<noteq> ''and'' \<and> f \<noteq> ''or'' \<and> list_all (\<lambda>(suf, _). \<not> ends_with f suf) filter_suffixes"

lemma ends_with_append [simp]: "ends_with (f @ s) s"
  by (simp add: ends_with_def)

lemma ends_with_iff_suffix: "ends_with s suf \<longleftrightarrow> suffix suf s"
  by (simp add: ends_with_def suffix_to_prefix)

lemma trim_end_matches_none: "\<not> ends_with s suf \<Longrightarrow> trim_end_matches s suf = s"
  by (simp add: trim_end_matches_def ends_with_def trim_start_matches.simps)

lemma trim_end_matches_Nil [simp]: "trim_end_matches s [] = s"
  by (simp add: trim_end_matches_def trim_start_matches.simps)

lemma trim_end_matches_append:
  assumes "suf \<noteq> []"
  shows "trim_end_matches (s @ suf) suf = trim_end_matches s suf"
  using assms by (simp add: trim_end_matches_def) (subst trim_start_matches.simps, simp)

lemma plain_field_nameD: "plain_field_name f \<Longrightarrow> (suf, op) \<in> set filter_suffixes \<Longrightarrow> \<not> ends_with f suf"
  by (auto simp: plain_field_name_def list_all_iff)

lemma plain_no_suffix:
  assumes "plain_field_name f"
  shows "find (\<lambda>(suf, _). ends_with f suf) filter_suffixes = None"
  using plain_field_nameD [OF assms] by (auto simp: find_None_iff)

text \<open>
  The first arm that a plain field name followed by a suffix matches is the arm of that suffix: an
  earlier, longer one would need the field name to end in \<open>_not\<close>.
\<close>

lemma plain_find_suffix:
  assumes f: "plain_field_name f" and s: "(suf, op) \<in> set filter_suffixes"
  shows "find (\<lambda>(s', _). ends_with (f @ suf) s') filter_suffixes = Some (suf, op)"
proof -
  have n: "\<not> prefix (rev ''_not'') (rev f)"
    using plain_field_nameD [OF f, of "''_not''" FO_Not] by (simp add: filter_suffixes_def ends_with_def)
  have "list_all (\<lambda>(suf, op). find (\<lambda>(s', _). ends_with (f @ suf) s') filter_suffixes = Some (suf, op))
      filter_suffixes"
    using n unfolding filter_suffixes_def ends_with_def by simp
  with s show ?thesis by (auto simp: list_all_iff)
qed

lemma parse_plain_suffix:
  assumes "plain_field_name f" and s: "(suf, op) \<in> set filter_suffixes"
  shows "parse_field_as_filter (f @ suf) = (f, op)"
proof -
  have "suf \<noteq> []" using s by (auto simp: filter_suffixes_def)
  then have "trim_end_matches (f @ suf) suf = f"
    using plain_field_nameD [OF assms] by (simp add: trim_end_matches_append trim_end_matches_none)
  then show ?thesis
    using plain_find_suffix [OF assms] by (simp add: parse_field_as_filter_def)
qed

lemma parse_plain_equal:
  "plain_field_name f \<Longrightarrow> parse_field_as_filter f = (f, FO_Equal)"
  using plain_no_suffix [of f] by (simp add: parse_field_as_filter_def plain_field_name_def)

lemma parse_bool_ops [simp]:
  "parse_field_as_filter ''and'' = (''and'', FO_And)"
  "parse_field_as_filter ''or'' = (''or'', FO_Or)"
  by (simp_all add: parse_field_as_filter_def filter_suffixes_def ends_with_def)

end
