(* ===== verification/Api_Schema.thy ===== *)
theory Api_Schema
  imports Schema_Ast
begin

text \<open>
  \<open>graphql/src/schema/api.rs\<close>: the schema of the GraphQL API is derived from the schema of the
  subgraph. Every object and interface type gets an enum of the attributes one can order by and an
  input object with the filters for its fields, list fields that refer to entities get the arguments
  of a collection, and the root types \<open>Query\<close> and \<open>Subscription\<close> get two fields per type.

  Camel case and plural come from the crate \<open>inflector\<close> and are the parameters \<open>to_camel_case\<close> and
  \<open>to_plural\<close>; the settings that the code reads are the record \<open>api_env\<close>.
\<close>

section \<open>Error policy\<close>

datatype error_policy = EP_Allow | EP_Deny

definition error_policy_from_str :: "string \<Rightarrow> error_policy option" where
  "error_policy_from_str s =
     (if s = ''allow'' then Some EP_Allow else if s = ''deny'' then Some EP_Deny else None)"

definition error_policy_try_from :: "r_value \<Rightarrow> error_policy option" where
  "error_policy_try_from v = (case v of RV_Enum s \<Rightarrow> error_policy_from_str s | _ \<Rightarrow> None)"

definition error_policy_try_from_q :: "s_value \<Rightarrow> error_policy option" where
  "error_policy_try_from_q v = (case v of SV_Enum s \<Rightarrow> error_policy_from_str s | _ \<Rightarrow> None)"

section \<open>Pieces of the schema\<close>

text \<open>\<open>APISchema_panic\<close> stands for the \<open>unwrap\<close>, \<open>expect\<close> and \<open>unreachable!\<close> calls.\<close>

datatype api_schema_error =
    TypeExists string
  | TypeNotFound string
  | FulltextSearchNonDeterministic
  | APISchema_panic

record api_env =
  disable_child_sorting :: bool
  disable_bool_filters :: bool
  allow_fulltext :: bool

definition BLOCK_HEIGHT :: string where "BLOCK_HEIGHT = ''Block_height''"
definition CHANGE_BLOCK_FILTER_NAME :: string where "CHANGE_BLOCK_FILTER_NAME = ''BlockChangedFilter''"
definition ERROR_POLICY_TYPE :: string where "ERROR_POLICY_TYPE = ''_SubgraphErrorPolicy_''"
definition META_FIELD_NAME :: string where "META_FIELD_NAME = ''_meta''"

definition input_value_of :: "string \<Rightarrow> string \<Rightarrow> s_type \<Rightarrow> input_value" where
  "input_value_of name suf value_type =
     \<lparr> iv_name = (if suf = [] then name else name @ ''_'' @ suf), iv_type = value_type,
       iv_default = None, iv_directives = [] \<rparr>"

definition plain_field :: "string \<Rightarrow> s_type \<Rightarrow> s_field" where
  "plain_field name ty = \<lparr> fld_name = name, fld_arguments = [], fld_type = ty, fld_directives = [] \<rparr>"

abbreviation meta_scalar :: "string \<Rightarrow> s_definition" where
  "meta_scalar name \<equiv> TypeDefinition (TD_Scalar \<lparr> pt_name = name, pt_directives = [] \<rparr>)"

definition block_height_input :: s_definition where
  "block_height_input =
     TypeDefinition (TD_InputObject \<lparr> pt_name = BLOCK_HEIGHT, pt_directives = [],
       io_fields = [input_value_of ''hash'' [] (NamedType ''Bytes''), input_value_of ''number'' [] (NamedType ''Int''),
                    input_value_of ''number_gte'' [] (NamedType ''Int'')] \<rparr>)"

text \<open>The document \<open>meta.graphql\<close>.\<close>

definition META_FIELD_SCHEMA :: s_document where
  "META_FIELD_SCHEMA =
     [meta_scalar ''Boolean'', meta_scalar ''ID'', meta_scalar ''Int'', meta_scalar ''Float'', meta_scalar ''String'',
      DirectiveDefinition, DirectiveDefinition, DirectiveDefinition, DirectiveDefinition, DirectiveDefinition,
      meta_scalar ''BigDecimal'', meta_scalar ''Bytes'', meta_scalar ''BigInt'',
      TypeDefinition (TD_Object \<lparr> obj_name = META_FIELD_TYPE, obj_implements_interfaces = [], obj_directives = [],
        obj_fields = [plain_field ''block'' (NonNullType (NamedType ''_Block_'')),
                      plain_field ''deployment'' (NonNullType (NamedType ''String'')),
                      plain_field ''hasIndexingErrors'' (NonNullType (NamedType ''Boolean''))] \<rparr>),
      TypeDefinition (TD_InputObject \<lparr> pt_name = CHANGE_BLOCK_FILTER_NAME, pt_directives = [],
        io_fields = [input_value_of ''number_gte'' [] (NonNullType (NamedType ''Int''))] \<rparr>),
      block_height_input,
      TypeDefinition (TD_Object \<lparr> obj_name = ''_Block_'', obj_implements_interfaces = [], obj_directives = [],
        obj_fields = [plain_field ''hash'' (NamedType ''Bytes''), plain_field ''number'' (NonNullType (NamedType ''Int'')),
                      plain_field ''timestamp'' (NamedType ''Int'')] \<rparr>),
      TypeDefinition (TD_Enum \<lparr> pt_name = ERROR_POLICY_TYPE, pt_directives = [], enum_values = [''allow'', ''deny''] \<rparr>),
      block_height_input,
      TypeDefinition (TD_Enum \<lparr> pt_name = ''OrderDirection'', pt_directives = [], enum_values = [''asc'', ''desc''] \<rparr>)]"

definition add_meta_field_type :: "s_document \<Rightarrow> s_document" where
  "add_meta_field_type doc = doc @ META_FIELD_SCHEMA"

section \<open>Values to order by\<close>

definition enum_value_from_child_entity_field :: "s_document \<Rightarrow> string \<Rightarrow> s_field \<Rightarrow> string option" where
  "enum_value_from_child_entity_field doc parent_field_name f =
     (if is_list_or_non_null_list_field f \<or> is_entity_type doc (fld_type f) then None
      else Some (parent_field_name @ ''__'' @ fld_name f))"

fun resolve_supported_type_name :: "s_type \<Rightarrow> string option" where
  "resolve_supported_type_name (NamedType name) = Some name"
| "resolve_supported_type_name (ListType _) = None"
| "resolve_supported_type_name (NonNullType of_type) = resolve_supported_type_name of_type"

definition field_enum_values_from_child_entity ::
    "api_env \<Rightarrow> s_document \<Rightarrow> s_field \<Rightarrow> api_schema_error + string list" where
  "field_enum_values_from_child_entity env doc f =
     (case (if disable_child_sorting env then None else resolve_supported_type_name (fld_type f)) of
        None \<Rightarrow> Inr []
      | Some name \<Rightarrow>
          (case get_named_type doc name of
             None \<Rightarrow> Inl (TypeNotFound name)
           | Some (TD_Object t) \<Rightarrow>
               Inr (filter_map (enum_value_from_child_entity_field doc (fld_name f)) (obj_fields t))
           | Some (TD_Interface t) \<Rightarrow>
               Inr (filter_map (enum_value_from_child_entity_field doc (fld_name f)) (intf_fields t))
           | Some _ \<Rightarrow> Inr []))"

definition field_enum_values :: "api_env \<Rightarrow> s_document \<Rightarrow> s_field list \<Rightarrow> api_schema_error + string list" where
  "field_enum_values env doc flds =
     try_fold
       (\<lambda>f enum_values'.
          case field_enum_values_from_child_entity env doc f of
            Inl e \<Rightarrow> Inl e
          | Inr vs \<Rightarrow> Inr (enum_values' @ [fld_name f] @ vs))
       flds []"

definition add_order_by_type ::
    "api_env \<Rightarrow> string \<Rightarrow> s_field list \<Rightarrow> s_document \<Rightarrow> api_schema_error + s_document" where
  "add_order_by_type env name flds doc =
     (let type_name' = name @ ''_orderBy'' in
      case get_named_type doc type_name' of
        Some _ \<Rightarrow> Inl (TypeExists type_name')
      | None \<Rightarrow>
          (case field_enum_values env doc flds of
             Inl e \<Rightarrow> Inl e
           | Inr vs \<Rightarrow>
               Inr (doc @ [TypeDefinition (TD_Enum \<lparr> pt_name = type_name', pt_directives = [],
                                                      enum_values = vs \<rparr>)])))"

section \<open>Filters\<close>

definition scalar_filter_types :: "string \<Rightarrow> string list" where
  "scalar_filter_types name =
     (if name \<in> {''BigInt'', ''BigDecimal'', ''ID'', ''Int''}
      then [[], ''not'', ''gt'', ''lt'', ''gte'', ''lte'', ''in'', ''not_in'']
      else if name = ''Boolean'' then [[], ''not'', ''in'', ''not_in'']
      else if name = ''Bytes''
      then [[], ''not'', ''gt'', ''lt'', ''gte'', ''lte'', ''in'', ''not_in'', ''contains'', ''not_contains'']
      else if name = ''String''
      then [[], ''not'', ''gt'', ''lt'', ''gte'', ''lte'', ''in'', ''not_in'',
            ''contains'', ''contains_nocase'', ''not_contains'', ''not_contains_nocase'',
            ''starts_with'', ''starts_with_nocase'', ''not_starts_with'', ''not_starts_with_nocase'',
            ''ends_with'', ''ends_with_nocase'', ''not_ends_with'', ''not_ends_with_nocase'']
      else [[], ''not''])"

definition filter_value_type :: "string \<Rightarrow> string \<Rightarrow> s_type" where
  "filter_value_type name filter_type =
     (if filter_type = ''in'' \<or> filter_type = ''not_in'' then ListType (NonNullType (NamedType name))
      else NamedType name)"

definition field_scalar_filter_input_values :: "s_field \<Rightarrow> string \<Rightarrow> input_value list" where
  "field_scalar_filter_input_values f name =
     map (\<lambda>filter_type. input_value_of (fld_name f) filter_type (filter_value_type name filter_type))
       (scalar_filter_types name)"

definition field_enum_filter_input_values :: "s_field \<Rightarrow> string \<Rightarrow> input_value list" where
  "field_enum_filter_input_values f name =
     map (\<lambda>filter_type. input_value_of (fld_name f) filter_type (filter_value_type name filter_type))
       [[], ''not'', ''in'', ''not_in'']"

definition extend_with_child_filter_input_value :: "s_field \<Rightarrow> string \<Rightarrow> input_value list \<Rightarrow> input_value list" where
  "extend_with_child_filter_input_value f field_type_name input_values =
     input_values @ [input_value_of (fld_name f @ ''_'') [] (NamedType (field_type_name @ ''_filter''))]"

definition list_filter_types :: "string list" where
  "list_filter_types =
     [[], ''not'', ''contains'', ''contains_nocase'', ''not_contains'', ''not_contains_nocase'']"

definition list_input_field_type :: "s_field \<Rightarrow> type_definition \<Rightarrow> string option \<times> string option" where
  "list_input_field_type f typedef =
     (case typedef of
        TD_Object t \<Rightarrow>
          (if get_derived_from_directive f \<noteq> None then None else Some ''String'', Some (obj_name t))
      | TD_Interface t \<Rightarrow>
          (if get_derived_from_directive f \<noteq> None then None else Some ''String'', Some (intf_name t))
      | TD_Scalar t \<Rightarrow> (Some (pt_name t), None)
      | TD_Enum t \<Rightarrow> (Some (pt_name t), None)
      | _ \<Rightarrow> (None, None))"

definition field_list_filter_input_values :: "s_document \<Rightarrow> s_field \<Rightarrow> s_type \<Rightarrow> input_value list option" where
  "field_list_filter_input_values doc f field_type =
     map_option
       (\<lambda>typedef.
          let (input_field_type, parent_type_name) = list_input_field_type f typedef;
              input_values =
                (case input_field_type of
                   None \<Rightarrow> []
                 | Some ty \<Rightarrow>
                     map (\<lambda>filter_type.
                            input_value_of (fld_name f) filter_type (ListType (NonNullType (NamedType ty))))
                       list_filter_types)
          in case parent_type_name of
               None \<Rightarrow> input_values
             | Some parent \<Rightarrow> extend_with_child_filter_input_value f parent input_values)
       (get_type_definition_from_type doc field_type)"

fun field_filter_input_values ::
    "s_document \<Rightarrow> s_field \<Rightarrow> s_type \<Rightarrow> api_schema_error + input_value list" where
  "field_filter_input_values doc f (NamedType name) =
     (let entity_filters =
        extend_with_child_filter_input_value f name
          (if get_derived_from_directive f \<noteq> None then [] else field_scalar_filter_input_values f ''String'')
      in case get_named_type doc name of
           None \<Rightarrow> Inl (TypeNotFound name)
         | Some (TD_Object _) \<Rightarrow> Inr entity_filters
         | Some (TD_Interface _) \<Rightarrow> Inr entity_filters
         | Some (TD_Scalar t) \<Rightarrow> Inr (field_scalar_filter_input_values f (pt_name t))
         | Some (TD_Enum t) \<Rightarrow> Inr (field_enum_filter_input_values f (pt_name t))
         | Some _ \<Rightarrow> Inr [])"
| "field_filter_input_values doc f (ListType t) =
     Inr (case field_list_filter_input_values doc f t of None \<Rightarrow> [] | Some vs \<Rightarrow> vs)"
| "field_filter_input_values doc f (NonNullType t) = field_filter_input_values doc f t"

definition field_input_values :: "s_document \<Rightarrow> s_field list \<Rightarrow> api_schema_error + input_value list" where
  "field_input_values doc flds =
     try_fold
       (\<lambda>f input_values.
          case field_filter_input_values doc f (fld_type f) of
            Inl e \<Rightarrow> Inl e
          | Inr vs \<Rightarrow> Inr (input_values @ vs))
       flds []"

definition block_changed_filter_argument :: input_value where
  "block_changed_filter_argument = input_value_of ''_change_block'' [] (NamedType CHANGE_BLOCK_FILTER_NAME)"

definition add_filter_type :: "api_env \<Rightarrow> string \<Rightarrow> s_field list \<Rightarrow> s_document \<Rightarrow> api_schema_error + s_document" where
  "add_filter_type env name flds doc =
     (let filter_type_name = name @ ''_filter'' in
      case get_named_type doc filter_type_name of
        Some _ \<Rightarrow> Inl (TypeExists filter_type_name)
      | None \<Rightarrow>
          (case field_input_values doc flds of
             Inl e \<Rightarrow> Inl e
           | Inr vs \<Rightarrow>
               (let bool_filters =
                  (if disable_bool_filters env then []
                   else [input_value_of ''and'' [] (ListType (NamedType filter_type_name)),
                         input_value_of ''or'' [] (ListType (NamedType filter_type_name))])
                in Inr (doc @ [TypeDefinition (TD_InputObject \<lparr> pt_name = filter_type_name, pt_directives = [],
                                 io_fields = vs @ [block_changed_filter_argument] @ bool_filters \<rparr>)]))))"

definition add_types_for_object_types ::
    "api_env \<Rightarrow> object_type list \<Rightarrow> s_document \<Rightarrow> api_schema_error + s_document" where
  "add_types_for_object_types env object_types doc =
     try_fold
       (\<lambda>t doc.
          if obj_name t = SCHEMA_TYPE_NAME then Inr doc
          else case add_order_by_type env (obj_name t) (obj_fields t) doc of
                 Inl e \<Rightarrow> Inl e
               | Inr doc \<Rightarrow> add_filter_type env (obj_name t) (obj_fields t) doc)
       object_types doc"

definition add_types_for_interface_types ::
    "api_env \<Rightarrow> interface_type list \<Rightarrow> s_document \<Rightarrow> api_schema_error + s_document" where
  "add_types_for_interface_types env interface_types doc =
     try_fold
       (\<lambda>t doc.
          case add_order_by_type env (intf_name t) (intf_fields t) doc of
            Inl e \<Rightarrow> Inl e
          | Inr doc \<Rightarrow> add_filter_type env (intf_name t) (intf_fields t) doc)
       interface_types doc"

section \<open>Arguments and root types\<close>

definition block_argument :: input_value where
  "block_argument = input_value_of ''block'' [] (NamedType BLOCK_HEIGHT)"

definition subgraph_error_argument :: input_value where
  "subgraph_error_argument =
     \<lparr> iv_name = ''subgraphError'', iv_type = NonNullType (NamedType ERROR_POLICY_TYPE),
       iv_default = Some (SV_Enum ''deny''), iv_directives = [] \<rparr>"

definition skip_argument :: input_value where
  "skip_argument = (input_value_of ''skip'' [] (NamedType ''Int''))\<lparr>iv_default := Some (SV_Int 0)\<rparr>"

definition first_argument :: input_value where
  "first_argument = (input_value_of ''first'' [] (NamedType ''Int''))\<lparr>iv_default := Some (SV_Int 100)\<rparr>"

definition collection_arguments_for_named_type :: "string \<Rightarrow> input_value list" where
  "collection_arguments_for_named_type name =
     [skip_argument, first_argument,
      input_value_of ''orderBy'' [] (NamedType (name @ ''_orderBy'')),
      input_value_of ''orderDirection'' [] (NamedType ''OrderDirection''),
      input_value_of ''where'' [] (NamedType (name @ ''_filter''))]"

definition collection_type :: "string \<Rightarrow> s_type" where
  "collection_type name = NonNullType (ListType (NonNullType (NamedType name)))"

definition query_fields_for_type :: "(string \<Rightarrow> string) \<Rightarrow> (string \<Rightarrow> string) \<Rightarrow> string \<Rightarrow> s_field list" where
  "query_fields_for_type to_camel_case to_plural name =
     [\<lparr> fld_name = to_camel_case name,
        fld_arguments = [input_value_of ''id'' [] (NonNullType (NamedType ''ID'')), block_argument,
                         subgraph_error_argument],
        fld_type = NamedType name, fld_directives = [] \<rparr>,
      \<lparr> fld_name = to_camel_case (to_plural name),
        fld_arguments = collection_arguments_for_named_type name @ [block_argument, subgraph_error_argument],
        fld_type = collection_type name, fld_directives = [] \<rparr>]"

definition meta_field :: s_field where
  "meta_field =
     \<lparr> fld_name = META_FIELD_NAME, fld_arguments = [input_value_of ''block'' [] (NamedType BLOCK_HEIGHT)],
       fld_type = NamedType META_FIELD_TYPE, fld_directives = [] \<rparr>"

text \<open>\<^term>\<open>None\<close> is one of the \<open>unwrap\<close> calls on the arguments of the directive.\<close>

definition query_field_for_fulltext :: "directive \<Rightarrow> s_field option" where
  "query_field_for_fulltext fulltext =
     Option.bind (Option.bind (argument fulltext ''name'') sv_as_str) (\<lambda>name.
     Option.bind (Option.bind (argument fulltext ''include'') sv_as_list) (\<lambda>includes'.
     Option.bind (case includes' of [] \<Rightarrow> None | i # _ \<Rightarrow> sv_as_object i) (\<lambda>included_entity.
     Option.bind (Option.bind (map_of included_entity ''entity'') sv_as_str) (\<lambda>entity_name.
       Some \<lparr> fld_name = name,
              fld_arguments = [input_value_of ''text'' [] (NonNullType (NamedType ''String'')),
                               first_argument, skip_argument, block_argument, subgraph_error_argument],
              fld_type = collection_type entity_name, fld_directives = [fulltext] \<rparr>))))"

definition root_type :: "string \<Rightarrow> s_field list \<Rightarrow> s_definition" where
  "root_type name flds =
     TypeDefinition (TD_Object \<lparr> obj_name = name, obj_implements_interfaces = [], obj_directives = [],
                                 obj_fields = flds \<rparr>)"

definition queried_type_names :: "object_type list \<Rightarrow> interface_type list \<Rightarrow> string list" where
  "queried_type_names object_types interface_types =
     filter (\<lambda>name. name \<noteq> SCHEMA_TYPE_NAME) (map obj_name object_types) @ map intf_name interface_types"

definition add_query_type ::
    "(string \<Rightarrow> string) \<Rightarrow> (string \<Rightarrow> string) \<Rightarrow> api_env \<Rightarrow> object_type list \<Rightarrow> interface_type list \<Rightarrow>
     s_document \<Rightarrow> api_schema_error + s_document" where
  "add_query_type to_camel_case to_plural env object_types interface_types doc =
     (if get_named_type doc ''Query'' \<noteq> None then Inl (TypeExists ''Query'')
      else
        case get_fulltext_directives (allow_fulltext env) doc of
          Inl _ \<Rightarrow> Inl FulltextSearchNonDeterministic
        | Inr fulltexts \<Rightarrow>
            (case collect_options (map query_field_for_fulltext fulltexts) of
               None \<Rightarrow> Inl APISchema_panic
             | Some fulltext_fields \<Rightarrow>
                 Inr (doc @ [root_type ''Query''
                   (concat (map (query_fields_for_type to_camel_case to_plural)
                              (queried_type_names object_types interface_types))
                    @ fulltext_fields @ [meta_field])])))"

definition add_subscription_type ::
    "(string \<Rightarrow> string) \<Rightarrow> (string \<Rightarrow> string) \<Rightarrow> object_type list \<Rightarrow> interface_type list \<Rightarrow>
     s_document \<Rightarrow> api_schema_error + s_document" where
  "add_subscription_type to_camel_case to_plural object_types interface_types doc =
     (if get_named_type doc ''Subscription'' \<noteq> None then Inl (TypeExists ''Subscription'')
      else Inr (doc @ [root_type ''Subscription''
             (concat (map (query_fields_for_type to_camel_case to_plural)
                        (queried_type_names object_types interface_types))
              @ [meta_field])]))"

section \<open>Arguments of list fields\<close>

definition set_arguments :: "string \<Rightarrow> input_value list \<Rightarrow> s_field list \<Rightarrow> s_field list option" where
  "set_arguments field_name args flds =
     update_first (\<lambda>f. fld_name f = field_name) (\<lambda>f. Some (f\<lparr>fld_arguments := args\<rparr>)) flds"

definition definition_named :: "string \<Rightarrow> s_definition \<Rightarrow> bool" where
  "definition_named name d = (case d of TypeDefinition td \<Rightarrow> type_definition_name td = name | _ \<Rightarrow> False)"

text \<open>
  The mutable lookups of a type and of a field in it, and the update of the field, in one step:
  \<^term>\<open>None\<close> is the panic when either is missing.
\<close>

definition update_object_field ::
    "string \<Rightarrow> string \<Rightarrow> input_value list \<Rightarrow> s_document \<Rightarrow> s_document option" where
  "update_object_field name field_name args doc =
     update_first (definition_named name)
       (\<lambda>d. case d of
          TypeDefinition (TD_Object t) \<Rightarrow>
            map_option (\<lambda>fs. TypeDefinition (TD_Object (t\<lparr>obj_fields := fs\<rparr>)))
              (set_arguments field_name args (obj_fields t))
        | _ \<Rightarrow> None) doc"

definition update_interface_field ::
    "string \<Rightarrow> string \<Rightarrow> input_value list \<Rightarrow> s_document \<Rightarrow> s_document option" where
  "update_interface_field name field_name args doc =
     update_first (definition_named name)
       (\<lambda>d. case d of
          TypeDefinition (TD_Interface t) \<Rightarrow>
            map_option (\<lambda>fs. TypeDefinition (TD_Interface (t\<lparr>intf_fields := fs\<rparr>)))
              (set_arguments field_name args (intf_fields t))
        | _ \<Rightarrow> None) doc"

definition add_arguments_for_field ::
    "(string \<Rightarrow> input_value list \<Rightarrow> s_document \<Rightarrow> s_document option) \<Rightarrow> s_document \<Rightarrow> s_field \<Rightarrow>
     s_document \<Rightarrow> api_schema_error + s_document" where
  "add_arguments_for_field update input_schema f doc =
     (case get_referenced_entity_type input_schema f of
        None \<Rightarrow> Inr doc
      | Some td \<Rightarrow>
          if \<not> is_list_or_non_null_list_field f then Inr doc
          else
            (case td of
               TD_Object t \<Rightarrow>
                 (case update (fld_name f) (collection_arguments_for_named_type (obj_name t)) doc of
                    None \<Rightarrow> Inl APISchema_panic | Some d \<Rightarrow> Inr d)
             | TD_Interface t \<Rightarrow>
                 (case update (fld_name f) (collection_arguments_for_named_type (intf_name t)) doc of
                    None \<Rightarrow> Inl APISchema_panic | Some d \<Rightarrow> Inr d)
             | _ \<Rightarrow> Inl APISchema_panic))"

definition add_field_arguments :: "s_document \<Rightarrow> s_document \<Rightarrow> api_schema_error + s_document" where
  "add_field_arguments input_schema doc =
     (case try_fold
        (\<lambda>t. try_fold (add_arguments_for_field (update_object_field (obj_name t)) input_schema) (obj_fields t))
        (get_object_type_definitions input_schema) doc of
        Inl e \<Rightarrow> Inl e
      | Inr doc' \<Rightarrow>
          try_fold
            (\<lambda>t. try_fold (add_arguments_for_field (update_interface_field (intf_name t)) input_schema)
                   (intf_fields t))
            (get_interface_type_definitions input_schema) doc')"

section \<open>The derived schema\<close>

definition is_schema_type :: "s_definition \<Rightarrow> bool" where
  "is_schema_type d =
     (case d of TypeDefinition (TD_Object t) \<Rightarrow> obj_name t = SCHEMA_TYPE_NAME | _ \<Rightarrow> False)"

text \<open>\<open>?\<close> on the steps that change the schema in place.\<close>

definition and_then :: "'e + 'a \<Rightarrow> ('a \<Rightarrow> 'e + 'b) \<Rightarrow> 'e + 'b" where
  "and_then r f = (case r of Inl e \<Rightarrow> Inl e | Inr x \<Rightarrow> f x)"

definition api_schema ::
    "(string \<Rightarrow> string) \<Rightarrow> (string \<Rightarrow> string) \<Rightarrow> api_env \<Rightarrow> s_document \<Rightarrow> api_schema_error + s_document" where
  "api_schema to_camel_case to_plural env input_schema =
     (let object_types = get_object_type_definitions input_schema;
          interface_types = get_interface_type_definitions input_schema
      in and_then (add_types_for_object_types env object_types (add_meta_field_type input_schema)) (\<lambda>doc.
         and_then (add_types_for_interface_types env interface_types doc) (\<lambda>doc.
         and_then (add_field_arguments input_schema doc) (\<lambda>doc.
         and_then (add_query_type to_camel_case to_plural env object_types interface_types doc) (\<lambda>doc.
         and_then (add_subscription_type to_camel_case to_plural object_types interface_types doc) (\<lambda>doc.
           Inr (filter (\<lambda>d. \<not> is_schema_type d) doc)))))))"

section \<open>Filter arguments name a field and an operator\<close>

text \<open>
  The operator that a filter argument stands for: its field and the arm of \<open>parse_field_as_filter\<close>
  whose suffix was appended.
\<close>

definition filter_name_of :: "string \<Rightarrow> string \<Rightarrow> filter_op \<Rightarrow> bool" where
  "filter_name_of f name op \<longleftrightarrow>
     name = f \<and> op = FO_Equal \<or> (\<exists>suf. name = f @ suf \<and> (suf, op) \<in> set filter_suffixes)"

lemma filter_name_of_parsed:
  "plain_field_name f \<Longrightarrow> filter_name_of f name op \<Longrightarrow> parse_field_as_filter name = (f, op)"
  by (auto simp: filter_name_of_def parse_plain_suffix parse_plain_equal)

definition known_filter_type :: "string \<Rightarrow> bool" where
  "known_filter_type ft \<longleftrightarrow> ft = [] \<or> map_of filter_suffixes (''_'' @ ft) \<noteq> None"

lemma scalar_filter_types_known: "list_all known_filter_type (scalar_filter_types n)"
  unfolding scalar_filter_types_def known_filter_type_def filter_suffixes_def by simp

lemma list_filter_types_known: "list_all known_filter_type list_filter_types"
  unfolding list_filter_types_def known_filter_type_def filter_suffixes_def by simp

lemma enum_filter_types_known: "list_all known_filter_type [[], ''not'', ''in'', ''not_in'']"
  unfolding known_filter_type_def filter_suffixes_def by simp

lemma filter_name_of_input_value:
  assumes "known_filter_type ft"
  shows "\<exists>op. filter_name_of f (iv_name (input_value_of f ft ty)) op"
proof (cases "ft = []")
  case False
  with assms obtain op where "(''_'' @ ft, op) \<in> set filter_suffixes"
    using map_of_SomeD by (force simp: known_filter_type_def)
  with False show ?thesis by (auto simp: filter_name_of_def input_value_of_def)
qed (auto simp: filter_name_of_def input_value_of_def)

lemma filter_names_of_types:
  assumes "list_all known_filter_type fts" "iv \<in> set (map (\<lambda>ft. input_value_of f ft (ty ft)) fts)"
  shows "\<exists>op. filter_name_of f (iv_name iv) op"
  using assms filter_name_of_input_value by (auto simp: list_all_iff)

lemma filter_name_of_child: "filter_name_of f (iv_name (input_value_of (f @ ''_'') [] ty)) FO_Child"
  by (auto simp: filter_name_of_def input_value_of_def filter_suffixes_def)

lemma scalar_filter_names:
  "iv \<in> set (field_scalar_filter_input_values f n) \<Longrightarrow> \<exists>op. filter_name_of (fld_name f) (iv_name iv) op"
  unfolding field_scalar_filter_input_values_def by (rule filter_names_of_types [OF scalar_filter_types_known])

lemma enum_filter_names:
  "iv \<in> set (field_enum_filter_input_values f n) \<Longrightarrow> \<exists>op. filter_name_of (fld_name f) (iv_name iv) op"
  unfolding field_enum_filter_input_values_def by (rule filter_names_of_types [OF enum_filter_types_known])

lemma child_filter_names:
  assumes "iv \<in> set (extend_with_child_filter_input_value f n vs)"
    and "\<And>iv. iv \<in> set vs \<Longrightarrow> \<exists>op. filter_name_of (fld_name f) (iv_name iv) op"
  shows "\<exists>op. filter_name_of (fld_name f) (iv_name iv) op"
  using assms filter_name_of_child by (auto simp: extend_with_child_filter_input_value_def)

lemma list_filter_names:
  assumes "field_list_filter_input_values doc f ty = Some vs" "iv \<in> set vs"
  shows "\<exists>op. filter_name_of (fld_name f) (iv_name iv) op"
proof -
  have l: "\<exists>op. filter_name_of (fld_name f) (iv_name iv) op"
    if "iv \<in> set (map (\<lambda>ft. input_value_of (fld_name f) ft t) list_filter_types)" for iv t
    using that by (rule filter_names_of_types [OF list_filter_types_known])
  obtain td where td: "get_type_definition_from_type doc ty = Some td"
    using assms(1) by (auto simp: field_list_filter_input_values_def)
  obtain a b where ab: "list_input_field_type f td = (a, b)" by force
  show ?thesis
    using assms td ab by (cases a; cases b)
      (auto simp: field_list_filter_input_values_def intro: l elim!: child_filter_names)
qed

lemma field_filter_names:
  assumes "field_filter_input_values doc f ty = Inr vs" "iv \<in> set vs"
  shows "\<exists>op. filter_name_of (fld_name f) (iv_name iv) op"
  using assms
proof (induction doc f ty rule: field_filter_input_values.induct)
  case (1 doc f name)
  have e: "\<exists>op. filter_name_of (fld_name f) (iv_name iv) op"
    if "iv \<in> set (extend_with_child_filter_input_value f name
          (if get_derived_from_directive f \<noteq> None then [] else field_scalar_filter_input_values f ''String''))"
    using that by (rule child_filter_names) (auto split: if_splits intro: scalar_filter_names)
  show ?case
    using 1 scalar_filter_names [of iv f] enum_filter_names [of iv f] e
    by (simp add: Let_def split: option.splits type_definition.splits) (auto split: type_definition.splits)
next
  case (2 doc f t)
  then show ?case using list_filter_names [of doc f t] by (auto split: option.splits)
qed simp

lemma try_fold_append_mem:
  assumes "try_fold (\<lambda>f acc. case g f of Inl e \<Rightarrow> Inl e | Inr vs \<Rightarrow> Inr (acc @ vs)) xs acc = Inr r"
    and "v \<in> set r"
  shows "v \<in> set acc \<or> (\<exists>f \<in> set xs. \<exists>vs. g f = Inr vs \<and> v \<in> set vs)"
  using assms
proof (induction xs arbitrary: acc)
  case (Cons x xs)
  then obtain vs where "g x = Inr vs" by (auto split: sum.splits)
  with Cons.IH [of "acc @ vs"] Cons.prems show ?case by auto
qed simp

lemma field_input_names:
  assumes "field_input_values doc flds = Inr vs" "iv \<in> set vs"
  obtains f op where "f \<in> set flds" "filter_name_of (fld_name f) (iv_name iv) op"
  using try_fold_append_mem [OF assms(1) [unfolded field_input_values_def] assms(2)]
    field_filter_names that by fastforce

lemma add_filter_type_cases:
  assumes "add_filter_type env name flds doc = Inr doc'"
  obtains vs bs where "get_named_type doc (name @ ''_filter'') = None" "field_input_values doc flds = Inr vs"
    "bs = (if disable_bool_filters env then []
           else [input_value_of ''and'' [] (ListType (NamedType (name @ ''_filter''))),
                 input_value_of ''or'' [] (ListType (NamedType (name @ ''_filter'')))])"
    "doc' = doc @ [TypeDefinition (TD_InputObject \<lparr> pt_name = name @ ''_filter'', pt_directives = [],
                      io_fields = vs @ [block_changed_filter_argument] @ bs \<rparr>)]"
  using assms by (auto simp: add_filter_type_def Let_def split: option.splits sum.splits)

text \<open>
  The filter type that is generated for an entity whose field names are plain has, besides
  \<open>_change_block\<close>, \<open>and\<close> and \<open>or\<close>, only arguments whose name \<open>parse_field_as_filter\<close> takes apart into a
  field of that entity and a comparison or child operator: what the API offers is what the query
  layer understands.
\<close>

theorem filter_arguments_parsed_back:
  assumes "add_filter_type env name flds doc = Inr doc'"
    and "\<And>f. f \<in> set flds \<Longrightarrow> plain_field_name (fld_name f)"
  shows "\<exists>t. doc' = doc @ [TypeDefinition (TD_InputObject t)] \<and>
    (\<forall>iv \<in> set (io_fields t).
       iv_name iv \<in> {''_change_block'', ''and'', ''or''} \<or>
       (\<exists>f op. f \<in> set flds \<and> op \<notin> {FO_And, FO_Or} \<and>
               filter_name_of (fld_name f) (iv_name iv) op \<and>
               parse_field_as_filter (iv_name iv) = (fld_name f, op)))"
proof -
  obtain vs bs where v: "field_input_values doc flds = Inr vs"
    and b: "bs = (if disable_bool_filters env then []
           else [input_value_of ''and'' [] (ListType (NamedType (name @ ''_filter''))),
                 input_value_of ''or'' [] (ListType (NamedType (name @ ''_filter'')))])"
    and d: "doc' = doc @ [TypeDefinition (TD_InputObject \<lparr> pt_name = name @ ''_filter'', pt_directives = [],
                io_fields = vs @ [block_changed_filter_argument] @ bs \<rparr>)]"
    using add_filter_type_cases [OF assms(1)] by metis
  have bs: "\<forall>iv \<in> set bs. iv_name iv \<in> {''and'', ''or''}"
    unfolding b by (simp add: input_value_of_def)
  have op: "op \<notin> {FO_And, FO_Or}" if "filter_name_of f n op" for f n op
    using that by (auto simp: filter_name_of_def filter_suffixes_def)
  have "\<exists>f op. f \<in> set flds \<and> op \<notin> {FO_And, FO_Or} \<and> filter_name_of (fld_name f) (iv_name iv) op \<and>
      parse_field_as_filter (iv_name iv) = (fld_name f, op)" if iv: "iv \<in> set vs" for iv
    using field_input_names [OF v iv] filter_name_of_parsed assms(2) op by metis
  then show ?thesis
    using d bs by (auto simp: block_changed_filter_argument_def input_value_of_def)
qed

section \<open>Arguments have input types\<close>

definition keeps_inputs :: "s_document \<Rightarrow> s_document \<Rightarrow> bool" where
  "keeps_inputs doc doc' \<longleftrightarrow> (\<forall>name. is_input_type doc (NamedType name) \<longrightarrow> is_input_type doc' (NamedType name))"

lemma keeps_inputs_refl [simp]: "keeps_inputs doc doc"
  by (simp add: keeps_inputs_def)

lemma keeps_inputs_trans [trans]: "keeps_inputs a b \<Longrightarrow> keeps_inputs b c \<Longrightarrow> keeps_inputs a c"
  by (simp add: keeps_inputs_def)

lemma keeps_inputsD: "keeps_inputs a b \<Longrightarrow> is_input_type a (NamedType n) \<Longrightarrow> is_input_type b (NamedType n)"
  by (simp only: keeps_inputs_def)

abbreviation type_def_of :: "s_definition \<Rightarrow> type_definition option" where
  "type_def_of d \<equiv> (case d of TypeDefinition td \<Rightarrow> Some td | _ \<Rightarrow> None)"

lemma get_named_type_Nil [simp]: "get_named_type [] n = None"
  by (simp add: get_named_type_def List.map_filter_simps)

lemma get_named_type_Cons:
  "get_named_type (d # doc) n =
     (if definition_named n d then type_def_of d else get_named_type doc n)"
  by (cases d) (auto simp: get_named_type_def definition_named_def List.map_filter_simps split: type_definition.splits)

lemma get_named_type_append:
  "get_named_type (a @ b) n = (case get_named_type a n of Some t \<Rightarrow> Some t | None \<Rightarrow> get_named_type b n)"
  by (induction a) (auto simp: get_named_type_Cons definition_named_def split: s_definition.splits)

lemma get_named_type_snoc:
  "get_named_type doc n = None \<Longrightarrow> type_definition_name td = n \<Longrightarrow>
   get_named_type (doc @ [TypeDefinition td]) n = Some td"
  by (simp add: get_named_type_append get_named_type_Cons definition_named_def)

lemma keeps_inputs_append [simp]: "keeps_inputs a (a @ b)"
  by (auto simp: keeps_inputs_def get_named_type_append split: option.splits)

lemma keeps_inputs_retain: "keeps_inputs doc (filter (\<lambda>d. \<not> is_schema_type d) doc)"
proof -
  have "is_input_type doc (NamedType n) \<Longrightarrow> is_input_type (filter (\<lambda>d. \<not> is_schema_type d) doc) (NamedType n)" for n
  proof (induction doc)
    case (Cons d doc)
    show ?case
    proof (cases "is_schema_type d")
      case True
      then obtain t where "d = TypeDefinition (TD_Object t)"
        by (auto simp: is_schema_type_def split: s_definition.splits type_definition.splits)
      with Cons True show ?thesis by (simp add: get_named_type_Cons split: if_splits)
    qed (use Cons in \<open>simp add: get_named_type_Cons split: if_splits\<close>)
  qed simp
  then show ?thesis unfolding keeps_inputs_def by blast
qed

lemma update_first_cases:
  assumes "update_first P g xs = Some ys"
  obtains us x y vs where "xs = us @ x # vs" "ys = us @ y # vs" "P x" "g x = Some y" "\<forall>u \<in> set us. \<not> P u"
proof -
  have "\<exists>us x y vs. xs = us @ x # vs \<and> ys = us @ y # vs \<and> P x \<and> g x = Some y \<and> (\<forall>u \<in> set us. \<not> P u)"
    using assms
  proof (induction xs arbitrary: ys)
    case (Cons a xs)
    show ?case
    proof (cases "P a")
      case True
      with Cons.prems show ?thesis by (force intro: exI [where x = "[]"])
    next
      case False
      with Cons.prems obtain zs where "ys = a # zs" "update_first P g xs = Some zs" by auto
      with Cons.IH False show ?thesis by (metis append_Cons set_ConsD)
    qed
  qed simp
  then show ?thesis using that by blast
qed

text \<open>An update in place of an object or interface type leaves every input type where it is.\<close>

definition not_input :: "s_definition \<Rightarrow> bool" where
  "not_input d = (case d of TypeDefinition (TD_Object _) \<Rightarrow> True | TypeDefinition (TD_Interface _) \<Rightarrow> True | _ \<Rightarrow> False)"

lemma keeps_inputs_update:
  assumes "\<And>n. definition_named n x = definition_named n y" "not_input x"
  shows "keeps_inputs (us @ x # vs) (us @ y # vs)"
  unfolding keeps_inputs_def
proof (intro allI impI)
  fix n
  assume i: "is_input_type (us @ x # vs) (NamedType n)"
  have "get_named_type us n \<noteq> None \<or> \<not> definition_named n x"
    using i assms(2) by (auto simp: get_named_type_append get_named_type_Cons not_input_def
        split: s_definition.splits type_definition.splits)
  then have "get_named_type (us @ y # vs) n = get_named_type (us @ x # vs) n"
    using assms(1) [of n] by (cases "get_named_type us n") (auto simp: get_named_type_append get_named_type_Cons)
  with i show "is_input_type (us @ y # vs) (NamedType n)" by simp
qed

lemma update_object_field_keeps:
  assumes "update_object_field n f args doc = Some doc'"
  shows "keeps_inputs doc doc'"
  using update_first_cases [OF assms [unfolded update_object_field_def]]
proof cases
  case (1 us x y vs)
  then obtain t fs where "x = TypeDefinition (TD_Object t)" "y = TypeDefinition (TD_Object (t\<lparr>obj_fields := fs\<rparr>))"
    by (auto split: s_definition.splits type_definition.splits)
  with 1 show ?thesis
    using keeps_inputs_update [of x y us vs] by (simp add: definition_named_def not_input_def)
qed

lemma update_interface_field_keeps:
  assumes "update_interface_field n f args doc = Some doc'"
  shows "keeps_inputs doc doc'"
  using update_first_cases [OF assms [unfolded update_interface_field_def]]
proof cases
  case (1 us x y vs)
  then obtain t fs where "x = TypeDefinition (TD_Interface t)" "y = TypeDefinition (TD_Interface (t\<lparr>intf_fields := fs\<rparr>))"
    by (auto split: s_definition.splits type_definition.splits)
  with 1 show ?thesis
    using keeps_inputs_update [of x y us vs] by (simp add: definition_named_def not_input_def)
qed

lemma try_fold_keeps_inputs:
  assumes "try_fold g xs doc = Inr doc'"
    and "\<And>x d d'. x \<in> set xs \<Longrightarrow> g x d = Inr d' \<Longrightarrow> keeps_inputs d d'"
  shows "keeps_inputs doc doc'"
  using assms
proof (induction xs arbitrary: doc)
  case (Cons x xs)
  then obtain d where d: "g x doc = Inr d" "try_fold g xs d = Inr doc'" by (auto split: sum.splits)
  then have "keeps_inputs doc d" "keeps_inputs d doc'" using Cons by auto
  then show ?case by (rule keeps_inputs_trans)
qed simp

lemma add_arguments_for_field_keeps:
  assumes "add_arguments_for_field upd input f doc = Inr doc'"
    and "\<And>args doc doc'. upd (fld_name f) args doc = Some doc' \<Longrightarrow> keeps_inputs doc doc'"
  shows "keeps_inputs doc doc'"
  using assms by (auto simp: add_arguments_for_field_def split: option.splits if_splits type_definition.splits)

lemma add_field_arguments_keeps:
  assumes "add_field_arguments input doc = Inr doc'"
  shows "keeps_inputs doc doc'"
proof -
  obtain d where
    o: "try_fold (\<lambda>t. try_fold (add_arguments_for_field (update_object_field (obj_name t)) input) (obj_fields t))
          (get_object_type_definitions input) doc = Inr d" and
    i: "try_fold (\<lambda>t. try_fold (add_arguments_for_field (update_interface_field (intf_name t)) input)
            (intf_fields t)) (get_interface_type_definitions input) d = Inr doc'"
    using assms unfolding add_field_arguments_def by (auto split: sum.splits)
  have "keeps_inputs doc d"
    by (rule try_fold_keeps_inputs [OF o], rule try_fold_keeps_inputs, assumption)
      (rule add_arguments_for_field_keeps, assumption, rule update_object_field_keeps)
  moreover have "keeps_inputs d doc'"
    by (rule try_fold_keeps_inputs [OF i], rule try_fold_keeps_inputs, assumption)
      (rule add_arguments_for_field_keeps, assumption, rule update_interface_field_keeps)
  ultimately show ?thesis by (rule keeps_inputs_trans)
qed

lemma add_order_by_type_inputs:
  assumes "add_order_by_type env n flds doc = Inr doc'"
  shows "keeps_inputs doc doc' \<and> is_input_type doc' (NamedType (n @ ''_orderBy''))"
proof -
  obtain vs where "get_named_type doc (n @ ''_orderBy'') = None"
    "doc' = doc @ [TypeDefinition (TD_Enum \<lparr> pt_name = n @ ''_orderBy'', pt_directives = [], enum_values = vs \<rparr>)]"
    using assms by (auto simp: add_order_by_type_def Let_def split: option.splits sum.splits)
  then show ?thesis by (simp add: get_named_type_snoc)
qed

lemma add_filter_type_inputs:
  assumes "add_filter_type env n flds doc = Inr doc'"
  shows "keeps_inputs doc doc' \<and> is_input_type doc' (NamedType (n @ ''_filter''))"
  using add_filter_type_cases [OF assms]
proof cases
  case (1 vs bs)
  then show ?thesis by (simp add: get_named_type_snoc)
qed

definition queryable :: "s_document \<Rightarrow> string \<Rightarrow> bool" where
  "queryable doc n \<longleftrightarrow>
     is_input_type doc (NamedType (n @ ''_orderBy'')) \<and> is_input_type doc (NamedType (n @ ''_filter''))"

lemma queryable_kept: "keeps_inputs a b \<Longrightarrow> queryable a n \<Longrightarrow> queryable b n"
  unfolding queryable_def using keeps_inputsD by blast

lemma add_types_inputs:
  assumes "add_order_by_type env n flds doc = Inr d" "add_filter_type env n flds d = Inr doc'"
  shows "keeps_inputs doc doc' \<and> queryable doc' n"
  using add_order_by_type_inputs [OF assms(1)] add_filter_type_inputs [OF assms(2)]
  unfolding queryable_def by (meson keeps_inputsD keeps_inputs_trans)

lemma try_fold_queryable:
  assumes "try_fold g xs doc = Inr doc'"
    and "\<And>x d d'. x \<in> set xs \<Longrightarrow> g x d = Inr d' \<Longrightarrow> keeps_inputs d d' \<and> (P x \<longrightarrow> queryable d' (name x))"
  shows "keeps_inputs doc doc' \<and> (\<forall>x \<in> set xs. P x \<longrightarrow> queryable doc' (name x))"
  using assms
proof (induction xs arbitrary: doc)
  case (Cons x xs)
  then obtain d where d: "g x doc = Inr d" "try_fold g xs d = Inr doc'" by (auto split: sum.splits)
  have x: "keeps_inputs doc d \<and> (P x \<longrightarrow> queryable d (name x))"
    using Cons.prems(2) [OF _ d(1)] by simp
  have xs: "keeps_inputs d doc' \<and> (\<forall>x \<in> set xs. P x \<longrightarrow> queryable doc' (name x))"
    using d(2) by (rule Cons.IH) (rule Cons.prems(2), simp_all)
  from x xs have "keeps_inputs doc doc'" "P x \<longrightarrow> queryable doc' (name x)"
    using keeps_inputs_trans queryable_kept by blast+
  with xs show ?case by simp
qed simp

lemma add_types_for_object_types_inputs:
  assumes "add_types_for_object_types env ts doc = Inr doc'"
  shows "keeps_inputs doc doc' \<and> (\<forall>t \<in> set ts. obj_name t \<noteq> SCHEMA_TYPE_NAME \<longrightarrow> queryable doc' (obj_name t))"
  using assms unfolding add_types_for_object_types_def
  by (rule try_fold_queryable) (auto split: if_splits sum.splits dest: add_types_inputs)

lemma add_types_for_interface_types_inputs:
  assumes "add_types_for_interface_types env ts doc = Inr doc'"
  shows "keeps_inputs doc doc' \<and> (\<forall>t \<in> set ts. queryable doc' (intf_name t))"
proof -
  have "keeps_inputs doc doc' \<and> (\<forall>t \<in> set ts. True \<longrightarrow> queryable doc' (intf_name t))"
    using assms unfolding add_types_for_interface_types_def
    by (rule try_fold_queryable) (auto split: sum.splits dest: add_types_inputs)
  then show ?thesis by simp
qed

definition meta_input_names :: "string list" where
  "meta_input_names = [''ID'', ''Int'', ''String'', BLOCK_HEIGHT, ERROR_POLICY_TYPE, ''OrderDirection'']"

lemma meta_inputs:
  "n \<in> set meta_input_names \<Longrightarrow> get_named_type doc n = None \<Longrightarrow>
   is_input_type (add_meta_field_type doc) (NamedType n)"
  by (auto simp: meta_input_names_def add_meta_field_type_def get_named_type_append META_FIELD_SCHEMA_def
      get_named_type_Cons definition_named_def BLOCK_HEIGHT_def ERROR_POLICY_TYPE_def META_FIELD_TYPE_def
      CHANGE_BLOCK_FILTER_NAME_def block_height_input_def)

lemma is_input_type_base: "is_input_type doc (NamedType (get_base_type ty)) = is_input_type doc ty"
  by (induction ty) simp_all

lemma query_fields_arguments:
  assumes m: "\<And>n. n \<in> set meta_input_names \<Longrightarrow> is_input_type doc (NamedType n)"
    and q: "queryable doc name" and f: "f \<in> set (query_fields_for_type tc tp name)"
    and a: "a \<in> set (fld_arguments f)"
  shows "is_input_type doc (iv_type a)"
proof -
  have "get_base_type (iv_type a) \<in> set meta_input_names \<union> {name @ ''_orderBy'', name @ ''_filter''}"
    using f a by (auto simp: query_fields_for_type_def collection_arguments_for_named_type_def input_value_of_def
        block_argument_def subgraph_error_argument_def skip_argument_def first_argument_def meta_input_names_def)
  then have "is_input_type doc (NamedType (get_base_type (iv_type a)))"
    using m q unfolding queryable_def by (elim UnE insertE) (simp_all only:, simp)
  then show ?thesis by (simp only: is_input_type_base)
qed

lemma collect_options_mem:
  "collect_options (map g xs) = Some ys \<Longrightarrow> y \<in> set ys \<Longrightarrow> \<exists>x \<in> set xs. g x = Some y"
proof (induction xs arbitrary: ys)
  case (Cons x xs)
  then obtain z zs where "g x = Some z" "collect_options (map g xs) = Some zs" "ys = z # zs"
    by (cases "g x") (auto split: option.splits)
  with Cons show ?case by auto
qed simp

lemma fulltext_field_arguments:
  assumes m: "\<And>n. n \<in> set meta_input_names \<Longrightarrow> is_input_type doc (NamedType n)"
    and "query_field_for_fulltext d = Some f" "a \<in> set (fld_arguments f)"
  shows "is_input_type doc (iv_type a)"
proof -
  have "get_base_type (iv_type a) \<in> set meta_input_names"
    using assms(2-) by (auto simp: query_field_for_fulltext_def bind_eq_Some_conv input_value_of_def
      block_argument_def subgraph_error_argument_def skip_argument_def first_argument_def meta_input_names_def)
  then have "is_input_type doc (NamedType (get_base_type (iv_type a)))" by (rule m)
  then show ?thesis by (simp only: is_input_type_base)
qed

lemma meta_field_arguments:
  assumes m: "\<And>n. n \<in> set meta_input_names \<Longrightarrow> is_input_type doc (NamedType n)"
    and "a \<in> set (fld_arguments meta_field)"
  shows "is_input_type doc (iv_type a)"
  using assms(2-) m [of BLOCK_HEIGHT] by (auto simp: meta_field_def input_value_of_def meta_input_names_def)

lemma get_root_query_type_append:
  assumes "get_named_type doc ''Query'' = None"
  shows "get_root_query_type (filter (\<lambda>d. \<not> is_schema_type d) (doc @ root_type ''Query'' flds # rest)) =
    Some \<lparr> obj_name = ''Query'', obj_implements_interfaces = [], obj_directives = [], obj_fields = flds \<rparr>"
  using assms
proof (induction doc)
  case Nil
  then show ?case
    by (simp add: get_root_query_type_def root_type_def find_map_def List.map_filter_simps is_schema_type_def
        SCHEMA_TYPE_NAME_def)
next
  case (Cons d doc)
  then show ?case
    by (auto simp: get_root_query_type_def find_map_def List.map_filter_simps get_named_type_Cons
        definition_named_def split: s_definition.splits type_definition.splits if_splits)
qed

lemma and_then_Inr: "and_then r g = Inr y \<longleftrightarrow> (\<exists>x. r = Inr x \<and> g x = Inr y)"
  by (auto simp: and_then_def split: sum.splits)

lemma add_query_type_cases:
  assumes "add_query_type tc tp env ots its doc = Inr doc'"
  obtains fs where "get_named_type doc ''Query'' = None"
    "doc' = doc @ [root_type ''Query''
       (concat (map (query_fields_for_type tc tp) (queried_type_names ots its)) @ fs @ [meta_field])]"
    "\<forall>f \<in> set fs. \<exists>d. query_field_for_fulltext d = Some f"
proof -
  obtain ds fs where "get_named_type doc ''Query'' = None"
    "doc' = doc @ [root_type ''Query''
       (concat (map (query_fields_for_type tc tp) (queried_type_names ots its)) @ fs @ [meta_field])]"
    and c: "collect_options (map query_field_for_fulltext ds) = Some fs"
    using assms by (auto simp: add_query_type_def split: if_splits sum.splits option.splits)
  then show ?thesis using that [of fs] collect_options_mem [OF c] by blast
qed

lemma api_schema_cases:
  assumes "api_schema tc tp env doc = Inr doc'"
  obtains d fs flds where "keeps_inputs (add_meta_field_type doc) d" "get_named_type d ''Query'' = None"
    "\<And>n. n \<in> set (queried_type_names (get_object_type_definitions doc) (get_interface_type_definitions doc)) \<Longrightarrow>
       queryable d n"
    "flds = concat (map (query_fields_for_type tc tp)
              (queried_type_names (get_object_type_definitions doc) (get_interface_type_definitions doc)))
            @ fs @ [meta_field]"
    "\<forall>f \<in> set fs. \<exists>d. query_field_for_fulltext d = Some f"
    "\<exists>s. doc' = filter (\<lambda>d. \<not> is_schema_type d) (d @ root_type ''Query'' flds # [s])"
proof -
  obtain d1 d2 d3 d4 d5 where
    d1: "add_types_for_object_types env (get_object_type_definitions doc) (add_meta_field_type doc) = Inr d1" and
    d2: "add_types_for_interface_types env (get_interface_type_definitions doc) d1 = Inr d2" and
    d3: "add_field_arguments doc d2 = Inr d3" and
    d4: "add_query_type tc tp env (get_object_type_definitions doc) (get_interface_type_definitions doc) d3 = Inr d4" and
    d5: "add_subscription_type tc tp (get_object_type_definitions doc) (get_interface_type_definitions doc) d4 = Inr d5"
      "doc' = filter (\<lambda>d. \<not> is_schema_type d) d5"
    using assms by (auto simp: api_schema_def Let_def and_then_Inr)
  note k1 = add_types_for_object_types_inputs [OF d1]
  note k2 = add_types_for_interface_types_inputs [OF d2]
  note k3 = add_field_arguments_keeps [OF d3]
  have keeps: "keeps_inputs (add_meta_field_type doc) d3"
    using k1 k2 k3 keeps_inputs_trans by blast
  have q: "queryable d3 n"
    if "n \<in> set (queried_type_names (get_object_type_definitions doc) (get_interface_type_definitions doc))" for n
  proof -
    consider t where "t \<in> set (get_object_type_definitions doc)" "n = obj_name t" "n \<noteq> SCHEMA_TYPE_NAME"
      | t where "t \<in> set (get_interface_type_definitions doc)" "n = intf_name t"
      using \<open>n \<in> _\<close> by (auto simp: queried_type_names_def)
    then have "queryable d2 n"
    proof cases
      case (1 t)
      then have "queryable d1 n" using k1 by simp
      then show ?thesis using k2 queryable_kept by blast
    qed (use k2 in simp)
    then show ?thesis using k3 queryable_kept by blast
  qed
  obtain fs where fs: "get_named_type d3 ''Query'' = None"
    "d4 = d3 @ [root_type ''Query'' (concat (map (query_fields_for_type tc tp)
       (queried_type_names (get_object_type_definitions doc) (get_interface_type_definitions doc))) @ fs @ [meta_field])]"
    "\<forall>f \<in> set fs. \<exists>d. query_field_for_fulltext d = Some f"
    using add_query_type_cases [OF d4] by metis
  obtain s where s: "d5 = d4 @ [s]" using d5 by (auto simp: add_subscription_type_def split: if_splits)
  show ?thesis
    by (rule that [OF keeps fs(1) q refl fs(3)])
      (simp_all only: d5(2) s fs(2) append_assoc append_Cons append_Nil, blast)
qed

text \<open>
  When the API schema can be derived, it has a root query type, and every argument of every field
  of that type has an input type of the derived schema: the generated \<open>_orderBy\<close> and \<open>_filter\<close> types
  exist for all the fields that mention them, so the coercion of an argument never meets a type that
  is undefined or that is not an input type. The subgraph must not itself define one of the built-in
  types that the arguments use.
\<close>

theorem api_schema_arguments_are_inputs:
  assumes "api_schema tc tp env doc = Inr doc'"
    and "\<And>n. n \<in> set meta_input_names \<Longrightarrow> get_named_type doc n = None"
  shows "\<exists>q. get_root_query_type doc' = Some q \<and>
    (\<forall>f \<in> set (obj_fields q). \<forall>a \<in> set (fld_arguments f). is_input_type doc' (iv_type a))"
proof -
  from api_schema_cases [OF assms(1)] obtain d fs flds s where
    keeps: "keeps_inputs (add_meta_field_type doc) d" and none: "get_named_type d ''Query'' = None" and
    q: "\<And>n. n \<in> set (queried_type_names (get_object_type_definitions doc) (get_interface_type_definitions doc)) \<Longrightarrow>
      queryable d n" and
    flds: "flds = concat (map (query_fields_for_type tc tp)
             (queried_type_names (get_object_type_definitions doc) (get_interface_type_definitions doc)))
           @ fs @ [meta_field]" and
    fs: "\<forall>f \<in> set fs. \<exists>d. query_field_for_fulltext d = Some f" and
    doc': "doc' = filter (\<lambda>d. \<not> is_schema_type d) (d @ root_type ''Query'' flds # [s])"
    by metis
  have k: "keeps_inputs d doc'"
    unfolding doc' by (rule keeps_inputs_trans [OF keeps_inputs_append keeps_inputs_retain])
  have m: "is_input_type doc' (NamedType n)" if "n \<in> set meta_input_names" for n
    using meta_inputs [OF that assms(2) [OF that]] keeps k keeps_inputsD by blast
  have "is_input_type doc' (iv_type a)" if f: "f \<in> set flds" and a: "a \<in> set (fld_arguments f)" for f a
  proof -
    consider n where "queryable d n" "f \<in> set (query_fields_for_type tc tp n)" | "f \<in> set fs" | "f = meta_field"
      using f q unfolding flds by auto
    then show ?thesis
    proof cases
      case (1 n)
      show ?thesis by (rule query_fields_arguments [OF m queryable_kept [OF k 1(1)] 1(2) a])
    next
      case 2
      with fs obtain e where "query_field_for_fulltext e = Some f" by blast
      then show ?thesis using fulltext_field_arguments [OF m _ a] by blast
    next
      case 3
      with a show ?thesis using meta_field_arguments [OF m] by blast
    qed
  qed
  then show ?thesis unfolding doc' using get_root_query_type_append [OF none] by simp
qed

definition default_api_env :: api_env where
  "default_api_env = \<lparr> disable_child_sorting = False, disable_bool_filters = False, allow_fulltext = False \<rparr>"

definition user_document :: s_document where
  "user_document =
     [TypeDefinition (TD_Object \<lparr> obj_name = ''User'', obj_implements_interfaces = [], obj_directives = [],
        obj_fields = [plain_field ''id'' (NonNullType (NamedType ''ID'')),
                      plain_field ''friends'' (ListType (NamedType ''User''))] \<rparr>)]"

lemma user_api_schema: "case api_schema (\<lambda>s. s) (\<lambda>s. s @ ''s'') default_api_env user_document of Inl _ \<Rightarrow> False | Inr _ \<Rightarrow> True"
  by code_simp

theorem api_schema_arguments_are_inputs_witness:
  "\<exists>doc' q. api_schema (\<lambda>s. s) (\<lambda>s. s @ ''s'') default_api_env user_document = Inr doc' \<and>
     get_root_query_type doc' = Some q \<and>
     (\<forall>f \<in> set (obj_fields q). \<forall>a \<in> set (fld_arguments f). is_input_type doc' (iv_type a))"
proof -
  obtain doc' where d: "api_schema (\<lambda>s. s) (\<lambda>s. s @ ''s'') default_api_env user_document = Inr doc'"
    using user_api_schema by (auto split: sum.splits)
  have "get_named_type user_document n = None" if "n \<in> set meta_input_names" for n
    using that by (auto simp: user_document_def get_named_type_Cons definition_named_def meta_input_names_def
        BLOCK_HEIGHT_def ERROR_POLICY_TYPE_def)
  then show ?thesis using api_schema_arguments_are_inputs [OF d] d by blast
qed

definition user_flds :: "s_field list" where
  "user_flds = [plain_field ''name'' (NamedType ''String'')]"

theorem filter_arguments_parsed_back_witness:
  "\<exists>doc' t. add_filter_type default_api_env ''User'' user_flds META_FIELD_SCHEMA = Inr doc' \<and>
     doc' = META_FIELD_SCHEMA @ [TypeDefinition (TD_InputObject t)] \<and>
     (\<forall>iv \<in> set (io_fields t).
        iv_name iv \<in> {''_change_block'', ''and'', ''or''} \<or>
        (\<exists>f op. f \<in> set user_flds \<and> op \<notin> {FO_And, FO_Or} \<and>
                filter_name_of (fld_name f) (iv_name iv) op \<and>
                parse_field_as_filter (iv_name iv) = (fld_name f, op)))"
proof -
  have "case add_filter_type default_api_env ''User'' user_flds META_FIELD_SCHEMA of Inl _ \<Rightarrow> False | Inr _ \<Rightarrow> True"
    by code_simp
  then obtain doc' where d: "add_filter_type default_api_env ''User'' user_flds META_FIELD_SCHEMA = Inr doc'"
    by (auto split: sum.splits)
  have "plain_field_name (fld_name f)" if "f \<in> set user_flds" for f
    using that by (simp add: user_flds_def plain_field_def plain_field_name_def filter_suffixes_def ends_with_def)
  then show ?thesis using filter_arguments_parsed_back [OF d] d by blast
qed

end
