(* ===== verification/Query_Coercion.thy ===== *)
theory Query_Coercion
  imports Schema_Ast
begin

text \<open>
  The errors of query execution, \<open>graph/src/data/query/error.rs\<close>, the conversions between the values of
  a query document and the values that execution works with, \<open>graph/src/data/value.rs\<close>, and the coercion
  of values to the types of arguments and variables, \<open>graphql/src/values/coercion.rs\<close>.

  The values of query documents and of schema documents are one type of the parser. A type name is
  looked up with the argument \<open>resolver\<close>, as in the code; \<open>show_f64\<close> is Rust's \<open>f64::to_string\<close>.

  Coercion is shown to be sound and complete for a typing relation: its result has the type it was
  coerced to, and it leaves values that already have the type unchanged.
\<close>

section \<open>Errors\<close>

text \<open>
  Positions are left out. \<open>QE_Value\<close> carries an error of the conversion of a value, the variants
  \<open>AttributeTypeError\<close> and \<open>ValueParseError\<close>; the list in \<open>ListTypesError\<close> holds the values that the code
  prints. \<open>QE_Abort\<close> is not a variant of the enum but a panic at the named \<open>unwrap\<close>, \<open>expect\<close> or
  \<open>unreachable!\<close>.
\<close>

datatype (plugins only: code size) query_execution_error =
    OperationNameRequired
  | OperationNotFound string
  | NotSupported string
  | NoRootSubscriptionObjectType
  | NonNullError string
  | ListValueError string
  | NamedTypeError string
  | AbstractTypeError string
  | InvalidArgumentError string s_value
  | MissingArgumentError string
  | ValidationError string
  | InvalidVariableTypeError string
  | MissingVariableError string
  | ResolveEntitiesError string
  | OrderByNotSupportedError string string
  | OrderByNotSupportedForType string
  | FilterNotSupportedError string string
  | UnknownField string string
  | EmptyQuery
  | MultipleSubscriptionFields
  | SubgraphDeploymentIdError string
  | RangeArgumentsError string u32 i64
  | InvalidFilterError
  | EntityFieldError string string
  | ListTypesError string "store_value list"
  | ListFilterError string
  | QE_Value query_error
  | EntityParseError string
  | QE_StoreError
  | QE_Timeout
  | EmptySelectionSet string
  | AmbiguousDerivedFromResult string string string
  | Unimplemented string
  | EnumCoercionError string s_value string "string list"
  | ScalarCoercionError string s_value string
  | TooComplex u64 u64
  | TooDeep u8
  | CyclicalFragment string
  | TooExpensive
  | QE_Throttled
  | UndefinedFragment string
  | QE_Panic string
  | EventStreamError
  | FulltextQueryRequiresFilter
  | FulltextQueryInvalidSyntax string
  | DeploymentReverted
  | QE_ManifestResolveError
  | InvalidSubgraphManifest
  | ResultTooBig nat nat
  | DeploymentNotFound string
  | QE_Abort string

text \<open>Whether the error is the same for every indexer that runs the query, so that it can be attested.\<close>

definition is_attestable :: "query_execution_error \<Rightarrow> bool" where
  "is_attestable e =
     (case e of
        ListValueError _ \<Rightarrow> False
      | ResolveEntitiesError _ \<Rightarrow> False
      | RangeArgumentsError _ _ _ \<Rightarrow> False
      | EntityParseError _ \<Rightarrow> False
      | QE_StoreError \<Rightarrow> False
      | QE_Timeout \<Rightarrow> False
      | AmbiguousDerivedFromResult _ _ _ \<Rightarrow> False
      | TooComplex _ _ \<Rightarrow> False
      | TooDeep _ \<Rightarrow> False
      | QE_Panic _ \<Rightarrow> False
      | EventStreamError \<Rightarrow> False
      | TooExpensive \<Rightarrow> False
      | QE_Throttled \<Rightarrow> False
      | DeploymentReverted \<Rightarrow> False
      | QE_ManifestResolveError \<Rightarrow> False
      | InvalidSubgraphManifest \<Rightarrow> False
      | ValidationError _ \<Rightarrow> False
      | ResultTooBig _ _ \<Rightarrow> False
      | DeploymentNotFound _ \<Rightarrow> False
      | QE_Abort _ \<Rightarrow> False
      | _ \<Rightarrow> True)"

section \<open>Values of documents\<close>

text \<open>\<open>TryFrom<q::Value> for r::Value\<close>: a variable reference has no value, and is the error.\<close>

function r_try_from :: "s_value \<Rightarrow> s_value + r_value" where
  "r_try_from (SV_Variable v) = Inl (SV_Variable v)"
| "r_try_from (SV_Int i) = Inr (RV_Int i)"
| "r_try_from (SV_Float f) = Inr (RV_Float f)"
| "r_try_from (SV_String s) = Inr (RV_String s)"
| "r_try_from (SV_Boolean b) = Inr (RV_Boolean b)"
| "r_try_from SV_Null = Inr RV_Null"
| "r_try_from (SV_Enum e) = Inr (RV_Enum e)"
| "r_try_from (SV_List vs) =
     (case collect_results (map r_try_from vs) of Inl e \<Rightarrow> Inl e | Inr ws \<Rightarrow> Inr (RV_List ws))"
| "r_try_from (SV_Object m) =
     (case collect_results (map (\<lambda>(key, v). case r_try_from v of Inl e \<Rightarrow> Inl e | Inr w \<Rightarrow> Inr (key, w)) m) of
        Inl e \<Rightarrow> Inl e
      | Inr kws \<Rightarrow> Inr (r_object_value (bt_from_iter kws)))"
  by pat_completeness auto
termination
proof (relation "measure size", goal_cases)
  case (3 m kv key v)
  then have "(key, v) \<in> set m" by simp
  then show ?case by (auto simp: less_Suc_eq_le intro: size_list_estimation' trans_le_add2)
qed (auto simp: less_Suc_eq_le size_list_estimation')

lemma robject_iter_mem: "(k, v) \<in> set (robject_iter obj) \<longleftrightarrow> (Some k, v) \<in> set obj"
  by (induction obj) (auto simp: robject_iter_def List.map_filter_simps split: option.splits)

lemma robject_iter_size [termination_simp]:
  "(k, v) \<in> set (robject_iter obj) \<Longrightarrow> size v < size (RV_Object obj)"
  unfolding robject_iter_mem by (auto simp: less_Suc_eq_le intro: size_list_estimation')

text \<open>
  \<open>From<r::Value> for q::Value\<close>, used for the values in error messages. The cast to \<open>i32\<close> keeps the low
  half of the integer.
\<close>

function q_from :: "r_value \<Rightarrow> s_value" where
  "q_from (RV_Int i) = SV_Int (scast (ucast i :: i32))"
| "q_from (RV_Float f) = SV_Float f"
| "q_from (RV_String s) = SV_String s"
| "q_from (RV_Boolean b) = SV_Boolean b"
| "q_from RV_Null = SV_Null"
| "q_from (RV_Enum e) = SV_Enum e"
| "q_from (RV_List vs) = SV_List (map q_from vs)"
| "q_from (RV_Object obj) =
     SV_Object (bt_from_iter (map (\<lambda>(key, v). (key, q_from v)) (robject_iter obj)))"
  by pat_completeness auto
termination
  by (relation "measure size") (auto simp: less_Suc_eq_le size_list_estimation' dest: robject_iter_size)

section \<open>Coercion of document values\<close>

definition q_coerce_enum :: "string list \<Rightarrow> s_value \<Rightarrow> s_value + r_value" where
  "q_coerce_enum names v =
     (case v of
        SV_Null \<Rightarrow> Inr RV_Null
      | SV_String name \<Rightarrow> if name \<in> set names then Inr (RV_Enum name) else Inl v
      | SV_Enum name \<Rightarrow> if name \<in> set names then Inr (RV_Enum name) else Inl v
      | _ \<Rightarrow> Inl v)"

definition q_coerce_scalar :: "(f64 \<Rightarrow> string) \<Rightarrow> string \<Rightarrow> s_value \<Rightarrow> s_value + r_value" where
  "q_coerce_scalar show_f64 name v =
     (case v of
        SV_Null \<Rightarrow> Inr RV_Null
      | SV_Boolean b \<Rightarrow> if name = ''Boolean'' then Inr (RV_Boolean b) else Inl v
      | SV_Float f \<Rightarrow> if name = ''BigDecimal'' then Inr (RV_String (show_f64 f)) else Inl v
      | SV_Int i \<Rightarrow>
          if name = ''BigDecimal'' \<or> name = ''ID'' \<or> name = ''BigInt''
          then Inr (RV_String (i64_to_string i))
          else if name = ''Int'' then
            (if - (2 ^ 31) \<le> sint i \<and> sint i \<le> 2 ^ 31 - 1 then Inr (RV_Int (scast (ucast i :: i32))) else Inl v)
          else Inl v
      | SV_String s \<Rightarrow>
          if name \<in> {''BigDecimal'', ''String'', ''ID'', ''Bytes'', ''BigInt''} then Inr (RV_String s) else Inl v
      | _ \<Rightarrow> Inl v)"

section \<open>Coercion of values\<close>

text \<open>
  The value of an argument, or else its default. A default that refers to a variable is the internal
  error.
\<close>

definition value_or_default :: "r_value option \<Rightarrow> input_value \<Rightarrow> query_execution_error + r_value option" where
  "value_or_default value def =
     (case value of
        Some v \<Rightarrow> Inr (Some v)
      | None \<Rightarrow>
          (case iv_default def of
             None \<Rightarrow> Inr None
           | Some d \<Rightarrow>
               (case r_try_from d of
                  Inl _ \<Rightarrow> Inl (QE_Panic ''internal error: failed to convert default value'')
                | Inr v \<Rightarrow> Inr (Some v))))"

type_synonym type_resolver = "string \<Rightarrow> type_definition option"

function (sequential) coerce_value ::
      "(f64 \<Rightarrow> string) \<Rightarrow> type_resolver \<Rightarrow> r_value \<Rightarrow> s_type \<Rightarrow> r_value + r_value"
  and coerce_to_definition ::
      "(f64 \<Rightarrow> string) \<Rightarrow> type_resolver \<Rightarrow> r_value \<Rightarrow> string \<Rightarrow> r_value + r_value"
  and coerce_input_value ::
      "(f64 \<Rightarrow> string) \<Rightarrow> type_resolver \<Rightarrow> r_value option \<Rightarrow> input_value \<Rightarrow> query_execution_error + r_value option"
where
  "coerce_value show_f64 resolver RV_Null (NonNullType ty) = Inl RV_Null"
| "coerce_value show_f64 resolver v (NonNullType ty) = coerce_value show_f64 resolver v ty"
| "coerce_value show_f64 resolver RV_Null ty = Inr RV_Null"
| "coerce_value show_f64 resolver v (NamedType name) = coerce_to_definition show_f64 resolver v name"
| "coerce_value show_f64 resolver (RV_List vs) (ListType ty) =
     (case collect_results (map (\<lambda>v. coerce_value show_f64 resolver v ty) vs) of
        Inl v \<Rightarrow> Inl v
      | Inr ws \<Rightarrow> Inr (RV_List ws))"
| "coerce_value show_f64 resolver v (ListType ty) = Inl v"
| "coerce_to_definition show_f64 resolver v definition' =
     (case resolver definition' of
        None \<Rightarrow> Inl v
      | Some (TD_Enum t) \<Rightarrow> coerce_enum (enum_values t) v
      | Some (TD_Scalar t) \<Rightarrow> coerce_scalar show_f64 (pt_name t) v
      | Some (TD_InputObject t) \<Rightarrow>
          (case v of
             RV_Object obj \<Rightarrow>
               (case collect_results
                  (map (\<lambda>(name, value).
                          case find (\<lambda>f. iv_name f = name) (io_fields t) of
                            None \<Rightarrow> Inl (RV_Object obj)
                          | Some def \<Rightarrow>
                              (case coerce_input_value show_f64 resolver (Some value) def of
                                 Inr (Some w) \<Rightarrow> Inr (name, w)
                               | _ \<Rightarrow> Inl (RV_Object obj)))
                     (robject_iter obj)) of
                  Inl e \<Rightarrow> Inl e
                | Inr kws \<Rightarrow> Inr (r_object_value (bt_from_iter kws)))
           | _ \<Rightarrow> Inl v)
      | Some _ \<Rightarrow> Inl v)"
| "coerce_input_value show_f64 resolver value def =
     (case value_or_default value def of
        Inl e \<Rightarrow> Inl e
      | Inr None \<Rightarrow>
          if is_non_null (iv_type def) then Inl (MissingArgumentError (iv_name def)) else Inr None
      | Inr (Some v) \<Rightarrow>
          (case coerce_value show_f64 resolver v (iv_type def) of
             Inl val \<Rightarrow> Inl (InvalidArgumentError (iv_name def) (q_from val))
           | Inr w \<Rightarrow> Inr (Some w)))"
  by pat_completeness auto

text \<open>
  An input value is as large as the value that is coerced in the end, and larger than it in the second
  component, the type still to be taken apart.
\<close>

fun coercion_size ::
    "(f64 \<Rightarrow> string) \<times> type_resolver \<times> r_value \<times> s_type + (f64 \<Rightarrow> string) \<times> type_resolver \<times> r_value \<times> string +
     (f64 \<Rightarrow> string) \<times> type_resolver \<times> r_value option \<times> input_value \<Rightarrow> nat \<times> nat" where
  "coercion_size (Inl (_, _, v, ty)) = (size v, Suc (size ty))"
| "coercion_size (Inr (Inl (_, _, v, _))) = (size v, 0)"
| "coercion_size (Inr (Inr (_, _, v, def))) =
     (case value_or_default v def of Inr (Some w) \<Rightarrow> (size w, Suc (Suc (size (iv_type def)))) | _ \<Rightarrow> (0, 0))"

termination coerce_value
  apply (relation "inv_image (less_than <*lex*> less_than) coercion_size")
  apply (auto simp: less_Suc_eq_le size_list_estimation' value_or_default_def dest: robject_iter_size)
  done

section \<open>Values of a type\<close>

definition scalar_has_type :: "string \<Rightarrow> r_value \<Rightarrow> bool" where
  "scalar_has_type name v =
     (case v of
        RV_Boolean _ \<Rightarrow> name = ''Boolean''
      | RV_Int i \<Rightarrow> name = ''Int'' \<and> - (2 ^ 31) \<le> sint i \<and> sint i \<le> 2 ^ 31 - 1
      | RV_String _ \<Rightarrow> name \<in> {''BigDecimal'', ''String'', ''ID'', ''Bytes'', ''BigInt'', ''Date''}
      | RV_Object _ \<Rightarrow> name = ''JSONObject''
      | _ \<Rightarrow> False)"

text \<open>
  A value of an input object type is an object without removed entries, with its keys in increasing
  order, each of them an input field of the type with a value of the type of that field. Fields may be
  absent, also when their type is non-null.
\<close>

function (sequential) value_has_type :: "type_resolver \<Rightarrow> r_value \<Rightarrow> s_type \<Rightarrow> bool" where
  "value_has_type r v (NonNullType ty) = (v \<noteq> RV_Null \<and> value_has_type r v ty)"
| "value_has_type r RV_Null ty = True"
| "value_has_type r (RV_List vs) (ListType ty) = (\<forall>v \<in> set vs. value_has_type r v ty)"
| "value_has_type r v (ListType ty) = False"
| "value_has_type r v (NamedType name) =
     (case r name of
        Some (TD_Enum t) \<Rightarrow> (case v of RV_Enum e \<Rightarrow> e \<in> set (enum_values t) | _ \<Rightarrow> False)
      | Some (TD_Scalar t) \<Rightarrow> scalar_has_type (pt_name t) v
      | Some (TD_InputObject t) \<Rightarrow>
          (case v of
             RV_Object obj \<Rightarrow>
               obj = robject_from_iter (robject_iter obj) \<and> bt_wf (robject_iter obj) \<and>
               (\<forall>(key, w) \<in> set (robject_iter obj).
                  case find (\<lambda>f. iv_name f = key) (io_fields t) of
                    None \<Rightarrow> False
                  | Some def \<Rightarrow> value_has_type r w (iv_type def))
           | _ \<Rightarrow> False)
      | _ \<Rightarrow> False)"
  by pat_completeness auto
termination
  by (relation "measures [\<lambda>(r, v, ty). size v, \<lambda>(r, v, ty). size ty]")
    (auto simp: less_Suc_eq_le size_list_estimation' dest: robject_iter_size)

lemma bt_insert_end: "\<forall>e \<in> set m. fst e < k \<Longrightarrow> bt_insert k v m = m @ [(k, v)]"
  by (induction m) auto

lemma bt_from_iter_sorted: "bt_wf m \<Longrightarrow> bt_from_iter m = m"
proof -
  have "bt_wf (acc @ m) \<Longrightarrow> fold (\<lambda>(k, v). bt_insert k v) m acc = acc @ m" for acc
  proof (induction m arbitrary: acc)
    case (Cons e m)
    then have "bt_insert (fst e) (snd e) acc = acc @ [e]"
      by (subst bt_insert_end) (auto simp: sorted_wrt_append)
    with Cons show ?case by (cases e) simp
  qed simp
  from this [of "[]"] show "bt_wf m \<Longrightarrow> bt_from_iter m = m" by (simp add: bt_from_iter_def)
qed

lemma set_bt_insert: "e \<in> set (bt_insert k v m) \<Longrightarrow> e = (k, v) \<or> e \<in> set m"
  by (induction m) (auto split: if_splits)

lemma set_bt_from_iter: "set (bt_from_iter kvs) \<subseteq> set kvs"
proof -
  have "e \<in> set (fold (\<lambda>(k, v). bt_insert k v) kvs m) \<Longrightarrow> e \<in> set kvs \<union> set m" for e m
    by (induction kvs arbitrary: m) (auto dest: set_bt_insert)
  from this [of _ "[]"] show ?thesis unfolding bt_from_iter_def by fastforce
qed

lemma robject_iter_from_iter [simp]: "robject_iter (robject_from_iter m) = m"
  by (induction m) (auto simp: robject_iter_def robject_from_iter_def List.map_filter_simps)

lemma r_object_value_from_iter: "r_object_value m = RV_Object (robject_from_iter m)"
  by (simp add: r_object_value_def robject_from_iter_def)

lemma coerce_scalar_typed:
  "coerce_scalar show_f64 name v = Inr w \<Longrightarrow> w = RV_Null \<and> v = RV_Null \<or> w \<noteq> RV_Null \<and> scalar_has_type name w"
  by (auto simp: coerce_scalar_def scalar_has_type_def split: r_value.splits if_splits)

lemma coerce_scalar_id: "scalar_has_type name v \<Longrightarrow> coerce_scalar show_f64 name v = Inr v"
  by (auto simp: coerce_scalar_def scalar_has_type_def split: r_value.splits)

lemma coerce_enum_typed:
  "coerce_enum names v = Inr w \<Longrightarrow> w = RV_Null \<and> v = RV_Null \<or> (\<exists>e \<in> set names. w = RV_Enum e)"
  by (auto simp: coerce_enum_def split: r_value.splits if_splits)

lemma coerce_to_definition_non_null:
  "coerce_to_definition show_f64 r v name = Inr w \<Longrightarrow> v \<noteq> RV_Null \<Longrightarrow> w \<noteq> RV_Null"
  by (auto simp: r_object_value_def split: option.splits type_definition.splits r_value.splits sum.splits
      dest: coerce_scalar_typed coerce_enum_typed)

lemma coerce_value_non_null:
  "coerce_value show_f64 r v ty = Inr w \<Longrightarrow> v \<noteq> RV_Null \<Longrightarrow> w \<noteq> RV_Null"
proof (induction ty)
  case (NamedType n)
  then show ?case by (cases v) (auto simp del: coerce_to_definition.simps dest: coerce_to_definition_non_null)
next
  case (ListType ty)
  then show ?case by (cases v) (auto split: sum.splits)
next
  case (NonNullType ty)
  then show ?case by (cases v) auto
qed

definition coerced_field ::
    "(f64 \<Rightarrow> string) \<Rightarrow> type_resolver \<Rightarrow> input_value list \<Rightarrow> r_value \<Rightarrow> string \<times> r_value \<Rightarrow> r_value + string \<times> r_value" where
  "coerced_field show_f64 r flds err =
     (\<lambda>(name, value).
        case find (\<lambda>f. iv_name f = name) flds of
          None \<Rightarrow> Inl err
        | Some def \<Rightarrow>
            (case coerce_input_value show_f64 r (Some value) def of
               Inr (Some w) \<Rightarrow> Inr (name, w)
             | _ \<Rightarrow> Inl err))"

lemma coerce_to_definition_object:
  "r name = Some (TD_InputObject t) \<Longrightarrow>
   coerce_to_definition show_f64 r (RV_Object obj) name =
     (case collect_results (map (coerced_field show_f64 r (io_fields t) (RV_Object obj)) (robject_iter obj)) of
        Inl e \<Rightarrow> Inl e
      | Inr kws \<Rightarrow> Inr (r_object_value (bt_from_iter kws)))"
  by (simp add: coerced_field_def)

lemma coerced_field_Inr:
  "coerced_field show_f64 r flds err (name, v) = Inr kw \<longleftrightarrow>
   (\<exists>def w. find (\<lambda>f. iv_name f = name) flds = Some def \<and> coerce_value show_f64 r v (iv_type def) = Inr w \<and>
            kw = (name, w))"
  by (auto simp: coerced_field_def value_or_default_def split: option.splits sum.splits)

lemma find_Some_mem: "find P xs = Some x \<Longrightarrow> P x \<and> x \<in> set xs"
  by (auto simp: find_Some_iff in_set_conv_nth)

text \<open>
  A result has type \<open>NamedType name\<close> when the values below it do. The induction is on the size of the
  coerced value, and for one value on the type.
\<close>

lemma coerce_to_definition_typed:
  assumes "coerce_to_definition show_f64 r v name = Inr w" "v \<noteq> RV_Null"
    and below: "\<And>u ty w. size u < size v \<Longrightarrow> coerce_value show_f64 r u ty = Inr w \<Longrightarrow> value_has_type r w ty"
  shows "value_has_type r w (NamedType name)"
proof -
  obtain td where td: "r name = Some td" using assms(1) by (auto split: option.splits)
  show ?thesis
  proof (cases td)
    case (TD_Scalar t)
    then have "w \<noteq> RV_Null \<and> scalar_has_type (pt_name t) w"
      using assms td coerce_scalar_typed by fastforce
    with td TD_Scalar show ?thesis by (cases w) auto
  next
    case (TD_Enum t)
    then obtain e where "e \<in> set (enum_values t)" "w = RV_Enum e"
      using assms td coerce_enum_typed by fastforce
    with td TD_Enum show ?thesis by simp
  next
    case (TD_InputObject t)
    with assms(1) td obtain obj where v: "v = RV_Object obj" by (cases v) auto
    obtain kws where kws: "map (coerced_field show_f64 r (io_fields t) v) (robject_iter obj) = map Inr kws"
      and w: "w = r_object_value (bt_from_iter kws)"
      using assms(1) coerce_to_definition_object [of r name t show_f64 obj] td TD_InputObject unfolding v
      by (auto simp: collect_results_Inr_iff split: sum.splits)
    have "case find (\<lambda>f. iv_name f = key) (io_fields t) of None \<Rightarrow> False | Some def \<Rightarrow> value_has_type r x (iv_type def)"
      if "(key, x) \<in> set kws" for key x
    proof -
      have "Inr (key, x) \<in> set (map (coerced_field show_f64 r (io_fields t) v) (robject_iter obj))"
        unfolding kws using that by simp
      then obtain u where u: "(key, u) \<in> set (robject_iter obj)"
        "coerced_field show_f64 r (io_fields t) v (key, u) = Inr (key, x)"
        by (auto simp: coerced_field_Inr dest!: sym [of "Inr _"])
      then obtain def where "find (\<lambda>f. iv_name f = key) (io_fields t) = Some def"
        "coerce_value show_f64 r u (iv_type def) = Inr x" by (auto simp: coerced_field_Inr)
      with below robject_iter_size [OF u(1)] v show ?thesis by simp
    qed
    then show ?thesis
      using td TD_InputObject set_bt_from_iter [of kws] unfolding w r_object_value_from_iter by auto
  qed (use assms(1) td in auto)
qed

lemma coerce_value_typed: "coerce_value show_f64 r v ty = Inr w \<Longrightarrow> value_has_type r w ty"
proof (induction "size v" arbitrary: v ty w rule: less_induct)
  case less
  then have below: "size u < size v \<Longrightarrow> coerce_value show_f64 r u ty = Inr w \<Longrightarrow> value_has_type r w ty" for u ty w
    by blast
  from less.prems show ?case
  proof (induction ty arbitrary: w)
    case (NamedType n)
    show ?case
    proof (cases "v = RV_Null")
      case False
      with NamedType have "coerce_to_definition show_f64 r v n = Inr w"
        by (cases v) (simp_all del: coerce_to_definition.simps)
      then show ?thesis using False below by (rule coerce_to_definition_typed)
    qed (use NamedType in simp)
  next
    case (ListType ty)
    consider "v = RV_Null" | vs where "v = RV_List vs" using ListType.prems by (cases v) auto
    then show ?case
    proof cases
      case (2 vs)
      then obtain ws where ws: "map (\<lambda>v. coerce_value show_f64 r v ty) vs = map Inr ws" "w = RV_List ws"
        using ListType.prems by (auto simp: collect_results_Inr_iff split: sum.splits)
      have "value_has_type r x ty" if "x \<in> set ws" for x
      proof -
        have "Inr x \<in> set (map (\<lambda>v. coerce_value show_f64 r v ty) vs)" unfolding ws using that by simp
        then obtain u where "u \<in> set vs" "coerce_value show_f64 r u ty = Inr x" by auto
        moreover from this(1) have "size u < size v"
          unfolding 2 by (simp add: less_Suc_eq_le size_list_estimation')
        ultimately show ?thesis using below by blast
      qed
      then show ?thesis using ws by simp
    qed (use ListType.prems in simp)
  next
    case (NonNullType ty)
    then have "v \<noteq> RV_Null" "coerce_value show_f64 r v ty = Inr w" by (cases v; simp)+
    then show ?case using NonNullType.IH coerce_value_non_null by simp
  qed
qed

lemma coerce_to_definition_id:
  assumes ty: "value_has_type r v (NamedType name)" and "v \<noteq> RV_Null"
    and below: "\<And>u ty. size u < size v \<Longrightarrow> value_has_type r u ty \<Longrightarrow> coerce_value show_f64 r u ty = Inr u"
  shows "coerce_to_definition show_f64 r v name = Inr v"
proof -
  obtain td where td: "r name = Some td" using assms(1,2) by (cases v) (auto split: option.splits)
  show ?thesis
  proof (cases td)
    case (TD_Scalar t)
    then have "scalar_has_type (pt_name t) v" using assms(1,2) td by (cases v) auto
    with td TD_Scalar show ?thesis by (simp add: coerce_scalar_id)
  next
    case (TD_Enum t)
    with assms(1,2) td show ?thesis by (cases v) (auto simp: coerce_enum_def)
  next
    case (TD_InputObject t)
    with assms(1,2) td obtain obj where v: "v = RV_Object obj" by (cases v) auto
    have obj: "obj = robject_from_iter (robject_iter obj)" "bt_wf (robject_iter obj)"
      and typed: "\<And>key w. (key, w) \<in> set (robject_iter obj) \<Longrightarrow>
        (case find (\<lambda>f. iv_name f = key) (io_fields t) of None \<Rightarrow> False | Some def \<Rightarrow> value_has_type r w (iv_type def))"
      using ty td TD_InputObject unfolding v by auto
    have "coerced_field show_f64 r (io_fields t) v kw = Inr kw" if "kw \<in> set (robject_iter obj)" for kw
    proof -
      obtain key w where kw: "kw = (key, w)" by force
      with typed [of key w] that obtain def where def: "find (\<lambda>f. iv_name f = key) (io_fields t) = Some def"
        "value_has_type r w (iv_type def)" by (auto split: option.splits)
      moreover have "size w < size v" using that kw robject_iter_size unfolding v by simp
      ultimately show ?thesis using below unfolding kw coerced_field_Inr by blast
    qed
    then have "collect_results (map (coerced_field show_f64 r (io_fields t) v) (robject_iter obj)) =
        Inr (robject_iter obj)"
      by (simp add: collect_results_Inr_iff)
    moreover have "r_object_value (bt_from_iter (robject_iter obj)) = v"
      unfolding v r_object_value_from_iter using obj by (simp add: bt_from_iter_sorted)
    ultimately show ?thesis
      using coerce_to_definition_object [of r name t show_f64 obj] td TD_InputObject
      unfolding v by (simp del: coerce_to_definition.simps)
  qed (use assms(1,2) td in \<open>cases v; auto\<close>)+
qed

lemma coerce_value_id: "value_has_type r v ty \<Longrightarrow> coerce_value show_f64 r v ty = Inr v"
proof (induction "size v" arbitrary: v ty rule: less_induct)
  case less
  then have below: "size u < size v \<Longrightarrow> value_has_type r u ty \<Longrightarrow> coerce_value show_f64 r u ty = Inr u" for u ty
    by blast
  from less.prems show ?case
  proof (induction ty)
    case (NamedType n)
    show ?case
    proof (cases "v = RV_Null")
      case False
      have "coerce_to_definition show_f64 r v n = Inr v"
        using NamedType False below by (rule coerce_to_definition_id)
      then show ?thesis using False by (cases v) (simp_all del: coerce_to_definition.simps)
    qed simp
  next
    case (ListType ty)
    consider "v = RV_Null" | vs where "v = RV_List vs" using ListType.prems by (cases v) auto
    then show ?case
    proof cases
      case (2 vs)
      have "coerce_value show_f64 r u ty = Inr u" if "u \<in> set vs" for u
        using that ListType.prems below unfolding 2 by (simp add: less_Suc_eq_le size_list_estimation')
      then have "collect_results (map (\<lambda>u. coerce_value show_f64 r u ty) vs) = Inr vs"
        by (simp add: collect_results_Inr_iff)
      then show ?thesis unfolding 2 by simp
    qed simp
  next
    case (NonNullType ty)
    then show ?case by (cases v) auto
  qed
qed

text \<open>
  Coercion is type sound and a projection: what it returns has the type it was asked for, and
  coercing the result again changes nothing. In particular a coerced \<open>Int\<close> fits into 32 bits, a coerced
  enum is one of the values of its type, a coerced input object has only fields of its type, and a
  null is never the result for a non-null type.
\<close>

theorem coerce_value_type_sound:
  "coerce_value show_f64 r v ty = Inr w \<Longrightarrow>
   value_has_type r w ty \<and> coerce_value show_f64 r w ty = Inr w"
  using coerce_value_typed coerce_value_id by blast

definition number_filter_resolver :: type_resolver where
  "number_filter_resolver =
     map_of [(''Int'', TD_Scalar \<lparr> pt_name = ''Int'', pt_directives = [] \<rparr>),
             (''BlockChangedFilter'',
                TD_InputObject \<lparr> pt_name = ''BlockChangedFilter'', pt_directives = [],
                  io_fields = [\<lparr> iv_name = ''number_gte'', iv_type = NonNullType (NamedType ''Int''),
                                 iv_default = None, iv_directives = [] \<rparr>] \<rparr>)]"

theorem coerce_value_type_sound_witness:
  "value_has_type number_filter_resolver (RV_List [RV_Object [(Some ''number_gte'', RV_Int 7)]])
     (NonNullType (ListType (NamedType ''BlockChangedFilter''))) \<and>
   coerce_value (\<lambda>_. []) number_filter_resolver (RV_List [RV_Object [(Some ''number_gte'', RV_Int 7)]])
     (NonNullType (ListType (NamedType ''BlockChangedFilter''))) =
   Inr (RV_List [RV_Object [(Some ''number_gte'', RV_Int 7)]])"
proof (rule coerce_value_type_sound [of _ _ "RV_List [RV_Object [(None, RV_Null), (Some ''number_gte'', RV_Int 7)]]"])
  show "coerce_value (\<lambda>_. []) number_filter_resolver
      (RV_List [RV_Object [(None, RV_Null), (Some ''number_gte'', RV_Int 7)]])
      (NonNullType (ListType (NamedType ''BlockChangedFilter''))) =
    Inr (RV_List [RV_Object [(Some ''number_gte'', RV_Int 7)]])"
    by (simp add: number_filter_resolver_def robject_iter_def List.map_filter_simps value_or_default_def
        coerce_scalar_def r_object_value_def bt_from_iter_def)
qed

text \<open>
  An input object with a field missing is accepted even when the type of the field is non-null, since
  only the fields that are present are looked at.
\<close>

lemma missing_required_field_accepted:
  "coerce_value (\<lambda>_. []) number_filter_resolver (RV_Object []) (NonNullType (NamedType ''BlockChangedFilter'')) =
   Inr (RV_Object [])"
  by (simp add: number_filter_resolver_def robject_iter_def List.map_filter_simps r_object_value_def bt_from_iter_def)

lemma scast_ucast_i64:
  fixes i :: i64
  assumes "- (2 ^ 31) \<le> sint i" "sint i \<le> 2 ^ 31 - 1"
  shows "(scast (ucast i :: i32) :: i64) = i"
proof -
  have "sint (ucast i :: i32) = signed_take_bit 31 (sint i)"
    by transfer (simp add: signed_take_bit_take_bit)
  also have "\<dots> = sint i"
    using assms by (intro signed_take_bit_int_eq_self) simp_all
  finally show ?thesis unfolding scast_eq [of "ucast i"] by (rule ssubst) simp
qed

text \<open>
  The two coercions of scalars agree, except for \<open>Date\<close> and \<open>JSONObject\<close>, which only the second one
  knows.
\<close>

lemma q_coerce_scalar_agrees:
  assumes "r_try_from v = Inr w" "name \<noteq> ''Date''" "name \<noteq> ''JSONObject''"
  shows "q_coerce_scalar show_f64 name v = Inr x \<longleftrightarrow> coerce_scalar show_f64 name w = Inr x"
proof (cases v)
  case (SV_Int i)
  then have w: "w = RV_Int i" using assms(1) by simp
  show ?thesis
  proof (cases "- (2 ^ 31) \<le> sint i \<and> sint i \<le> 2 ^ 31 - 1")
    case True
    then have "(scast (ucast i :: i32) :: i64) = i" by (intro scast_ucast_i64) auto
    then show ?thesis unfolding q_coerce_scalar_def coerce_scalar_def w SV_Int by (simp only: r_value.simps s_value.simps True simp_thms if_True split: if_split) simp
  next
    case False
    then show ?thesis unfolding q_coerce_scalar_def coerce_scalar_def w SV_Int by (simp only: r_value.simps s_value.simps simp_thms if_False split: if_split) simp
  qed
next
  case (SV_List vs)
  with assms(1) obtain ws where "w = RV_List ws" by (auto split: sum.splits)
  with SV_List show ?thesis by (simp add: q_coerce_scalar_def coerce_scalar_def)
next
  case (SV_Object m)
  with assms(1) obtain ws where "w = RV_Object ws" by (auto simp: r_object_value_def split: sum.splits)
  with SV_Object assms(3) show ?thesis by (simp add: q_coerce_scalar_def coerce_scalar_def)
next
  case (SV_String s)
  with assms(1) have "w = RV_String s" by simp
  with SV_String assms(2) show ?thesis by (simp add: q_coerce_scalar_def coerce_scalar_def)
next
  case (SV_Float f)
  with assms(1) have "w = RV_Float f" by simp
  with SV_Float show ?thesis by (simp add: q_coerce_scalar_def coerce_scalar_def)
next
  case (SV_Boolean b)
  with assms(1) have "w = RV_Boolean b" by simp
  with SV_Boolean show ?thesis by (simp add: q_coerce_scalar_def coerce_scalar_def)
next
  case (SV_Enum e)
  with assms(1) have "w = RV_Enum e" by simp
  with SV_Enum show ?thesis by (simp add: q_coerce_scalar_def coerce_scalar_def)
next
  case SV_Null
  with assms(1) have "w = RV_Null" by simp
  with SV_Null show ?thesis by (simp add: q_coerce_scalar_def coerce_scalar_def)
qed (use assms(1) in simp)

end
