(* ===== verification/Selection_Set.thy ===== *)
theory Selection_Set
  imports Query_Coercion
begin

text \<open>
  \<open>graphql/src/execution/ast.rs\<close>: the form in which a query is executed. Fragments have been expanded and
  variables replaced; a selection set maps each concrete object type that a field can return to the
  fields selected for it. Fields with the same response key are merged into one.

  The object types of a set of types are kept in a list. In the code it is a hash set, so the list is in
  some order and no lemma relies on which one.
\<close>

section \<open>Directives and fields\<close>

record a_directive =
  ad_name :: string
  ad_arguments :: "(string \<times> r_value) list"

datatype a_field = A_Field
  (af_alias: "string option")
  (af_name: string)
  (af_arguments: "(string \<times> r_value) list")
  (af_directives: "a_directive list")
  (af_selection_set: "(object_type \<times> a_field list) list")

type_synonym selection_set = "(object_type \<times> a_field list) list"

definition argument_value :: "(string \<times> r_value) list \<Rightarrow> string \<Rightarrow> r_value option" where
  "argument_value args name = map_option snd (find (\<lambda>(n, _). n = name) args)"

definition eval_if :: "a_directive \<Rightarrow> bool" where
  "eval_if d =
     (case argument_value (ad_arguments d) ''if'' of
        None \<Rightarrow> True
      | Some (RV_Boolean b) \<Rightarrow> b
      | Some _ \<Rightarrow> False)"

definition directive_skip :: "a_directive \<Rightarrow> bool" where
  "directive_skip d =
     (if ad_name d = ''include'' then \<not> eval_if d
      else if ad_name d = ''skip'' then eval_if d
      else False)"

definition response_key :: "a_field \<Rightarrow> string" where
  "response_key f = (case af_alias f of Some a \<Rightarrow> a | None \<Rightarrow> af_name f)"

fun prepend_directives :: "a_directive list \<Rightarrow> a_field \<Rightarrow> a_field" where
  "prepend_directives ds (A_Field alias name args dirs sels) = A_Field alias name args (ds @ dirs) sels"

definition set_is_empty :: "selection_set \<Rightarrow> bool" where
  "set_is_empty sels = list_all (\<lambda>(_, flds). flds = []) sels"

definition is_leaf :: "a_field \<Rightarrow> bool" where
  "is_leaf f = set_is_empty (af_selection_set f)"

section \<open>Selection sets\<close>

definition set_new :: "object_type list \<Rightarrow> selection_set" where
  "set_new types = map (\<lambda>t. (t, [])) types"

definition empty_from :: "selection_set \<Rightarrow> selection_set" where
  "empty_from other = map (\<lambda>(t, _). (t, [])) other"

definition interior_fields :: "selection_set \<Rightarrow> (object_type \<times> a_field list) list" where
  "interior_fields sels = map (\<lambda>(t, flds). (t, filter (\<lambda>f. \<not> is_leaf f) flds)) sels"

definition single_field :: "selection_set \<Rightarrow> a_field option" where
  "single_field sels =
     (case sels of
        [] \<Rightarrow> None
      | (_, [f]) # rest \<Rightarrow> if list_all (\<lambda>(_, flds). flds = [f]) rest then Some f else None
      | _ \<Rightarrow> None)"

definition fields_for :: "selection_set \<Rightarrow> object_type \<Rightarrow> query_execution_error + a_field list" where
  "fields_for sels t =
     (case find (\<lambda>(our_type, _). obj_name our_type = obj_name t) sels of
        None \<Rightarrow> Inl (ValidationError (''invalid query: no fields for type `'' @ obj_name t @ ''`''))
      | Some (_, flds) \<Rightarrow> Inr flds)"

lemma try_fold_cong [fundef_cong]:
  "xs = ys \<Longrightarrow> s = t \<Longrightarrow> (\<And>x s. x \<in> set ys \<Longrightarrow> f x s = g x s) \<Longrightarrow> try_fold f xs s = try_fold g ys t"
  by (induction xs arbitrary: s t ys) (auto split: sum.splits)

lemma size_list_mem: "x \<in> set xs \<Longrightarrow> f x < size_list f xs"
  by (induction xs) auto

lemma merge_size:
  assumes "(t, fs) \<in> set other" "f \<in> set fs"
  shows "Suc (2 * size f) < 2 * size_list (size_prod (\<lambda>_. 0) (size_list size)) other"
proof -
  have "size_list size fs < size_list (size_prod (\<lambda>_. 0) (size_list size)) other"
    using assms size_list_mem [of "(t, fs)" other "size_prod (\<lambda>_. 0) (size_list size)"] by simp
  moreover have "size f < size_list size fs" using assms(2) by (rule size_list_mem)
  ultimately show ?thesis by simp
qed

lemma size_a_field: "size_list (size_prod (\<lambda>_. 0) (size_list size)) (af_selection_set f) < size f"
  by (cases f) simp

lemma size_prepend [simp]: "size (prepend_directives ds f) = size f"
  by (cases f) simp

text \<open>
  The first entry that satisfies \<open>P\<close> is changed by a step that can fail, and \<open>other\<close> says what happens
  when there is none.
\<close>

fun try_update :: "('a \<Rightarrow> bool) \<Rightarrow> ('a \<Rightarrow> 'e + 'a) \<Rightarrow> 'e + 'a list \<Rightarrow> 'a list \<Rightarrow> 'e + 'a list" where
  "try_update P g other [] = other"
| "try_update P g other (x # xs) =
     (if P x then (case g x of Inl e \<Rightarrow> Inl e | Inr y \<Rightarrow> Inr (y # xs))
      else case try_update P g other xs of Inl e \<Rightarrow> Inl e | Inr ys \<Rightarrow> Inr (x # ys))"

lemma try_update_cong [fundef_cong]:
  "P = P' \<Longrightarrow> (\<And>x. g x = g' x) \<Longrightarrow> other = other' \<Longrightarrow> xs = ys \<Longrightarrow> try_update P g other xs = try_update P' g' other' ys"
  by (induction xs arbitrary: ys) (auto split: sum.splits)

text \<open>
  \<open>merge\<close> and \<open>merge_field\<close>. A field whose response key is already there has its selections merged into
  those of the existing field; arguments and directives of the new field are dropped.
\<close>

function merge_set :: "selection_set \<Rightarrow> selection_set \<Rightarrow> a_directive list \<Rightarrow> query_execution_error + selection_set"
  and merge_field :: "a_field list \<Rightarrow> a_field \<Rightarrow> query_execution_error + a_field list" where
  "merge_set self other directives =
     try_fold
       (\<lambda>(other_type, other_fields) self.
          try_update (\<lambda>(obj_type, _). obj_name other_type = obj_name obj_type)
            (\<lambda>(obj_type, flds).
               case try_fold (\<lambda>f flds. merge_field flds (prepend_directives directives f)) other_fields flds of
                 Inl e \<Rightarrow> Inl e
               | Inr flds' \<Rightarrow> Inr (obj_type, flds'))
            (Inl (ValidationError (''invalid query: can not merge fields because type `'' @ obj_name other_type @
                                   ''` showed up unexpectedly'')))
            self)
       other self"
| "merge_field flds new_field =
     (if list_ex (\<lambda>f. response_key f = response_key new_field) flds
      then try_update (\<lambda>f. response_key f = response_key new_field)
             (\<lambda>f. case merge_set (af_selection_set f) (af_selection_set new_field) [] of
                     Inl e \<Rightarrow> Inl e
                   | Inr sels \<Rightarrow> Inr (A_Field (af_alias f) (af_name f) (af_arguments f) (af_directives f) sels))
             (Inr flds) flds
      else Inr (flds @ [new_field]))"
  by pat_completeness auto
termination
  by (relation "measure (\<lambda>x. case x of
        Inl (self, other, ds) \<Rightarrow> 2 * size_list (size_prod (\<lambda>_. 0) (size_list size)) other
      | Inr (flds, f) \<Rightarrow> 2 * size f + 1)") (auto intro: merge_size simp: less_Suc_eq_le size_a_field less_imp_le)

declare merge_set.simps [simp del] merge_field.simps [simp del]

definition set_push :: "selection_set \<Rightarrow> a_field \<Rightarrow> query_execution_error + selection_set" where
  "set_push sels new_field =
     collect_results
       (map (\<lambda>(t, flds).
               case merge_field flds new_field of Inl e \<Rightarrow> Inl e | Inr flds' \<Rightarrow> Inr (t, flds')) sels)"

definition push_fields :: "selection_set \<Rightarrow> a_field list \<Rightarrow> query_execution_error + selection_set" where
  "push_fields sels flds = try_fold (\<lambda>f sels. set_push sels f) flds sels"

section \<open>Sets of object types\<close>

datatype object_type_set = OTS_Any | OTS_Only "object_type list"

definition ots_contains :: "object_type_set \<Rightarrow> object_type \<Rightarrow> bool" where
  "ots_contains ots t =
     (case ots of OTS_Any \<Rightarrow> True | OTS_Only ts \<Rightarrow> list_ex (\<lambda>t'. obj_name t' = obj_name t) ts)"

definition ots_intersect :: "object_type_set \<Rightarrow> object_type_set \<Rightarrow> object_type_set" where
  "ots_intersect self other =
     (case self of OTS_Any \<Rightarrow> other | OTS_Only ts \<Rightarrow> OTS_Only (filter (ots_contains other) ts))"

text \<open>Insertion into a hash set of object types, which are equal when their names are.\<close>

definition ots_insert :: "object_type \<Rightarrow> object_type list \<Rightarrow> object_type list" where
  "ots_insert t ts = (if list_ex (\<lambda>t'. obj_name t' = obj_name t) ts then ts else ts @ [t])"

definition insert_object_type ::
    "api_schema \<Rightarrow> object_type \<Rightarrow> object_type list \<Rightarrow> query_execution_error + object_type list" where
  "insert_object_type s t ts =
     (case api_object_type s t of
        None \<Rightarrow> Inl (QE_Abort ''ApiSchema.object_type is only used with existing types'')
      | Some t' \<Rightarrow> Inr (ots_insert t' ts))"

text \<open>
  The members of a union are resolved in turn. The first argument bounds the nesting of unions, which
  GraphQL limits to one; \<^term>\<open>None\<close> means that the bound was too small.
\<close>

fun resolve_object_types ::
    "nat \<Rightarrow> api_schema \<Rightarrow> string \<Rightarrow> (query_execution_error + object_type list) option" where
  "resolve_object_types 0 s name = None"
| "resolve_object_types (Suc n) s name =
     (case api_get_named_type s name of
        None \<Rightarrow> Some (Inl (AbstractTypeError name))
      | Some (TD_Interface intf) \<Rightarrow>
          (case map_of (sch_types_for_interface (api_sch s)) (intf_name intf) of
             None \<Rightarrow> Some (Inl (QE_Abort ''types_for_interface''))
           | Some ts \<Rightarrow> Some (try_fold (insert_object_type s) ts []))
      | Some (TD_Union tys) \<Rightarrow>
          fold (\<lambda>ty acc.
                  case acc of
                    Some (Inr ts) \<Rightarrow>
                      (case resolve_object_types n s ty of
                         None \<Rightarrow> None
                       | Some (Inl e) \<Rightarrow> Some (Inl e)
                       | Some (Inr ts') \<Rightarrow> Some (Inr (fold ots_insert ts' ts)))
                  | r \<Rightarrow> r)
            (union_types tys) (Some (Inr []))
      | Some (TD_Object ty) \<Rightarrow> Some (insert_object_type s ty [])
      | Some _ \<Rightarrow> Some (Inl (NamedTypeError name)))"

definition ots_from_name ::
    "nat \<Rightarrow> api_schema \<Rightarrow> string \<Rightarrow> (query_execution_error + object_type_set) option" where
  "ots_from_name n s name = map_option (map_sum id OTS_Only) (resolve_object_types n s name)"

definition ots_convert ::
    "nat \<Rightarrow> api_schema \<Rightarrow> string option \<Rightarrow> (query_execution_error + object_type_set) option" where
  "ots_convert n s type_cond =
     (case type_cond of None \<Rightarrow> Some (Inr OTS_Any) | Some name \<Rightarrow> ots_from_name n s name)"

definition ots_type_names ::
    "nat \<Rightarrow> api_schema \<Rightarrow> object_type_set \<Rightarrow> object_or_interface \<Rightarrow>
     (query_execution_error + object_type list) option" where
  "ots_type_names n s ots current_type =
     map_option (map_sum id (filter (ots_contains ots))) (resolve_object_types n s (ooi_name current_type))"

section \<open>Well-formed selection sets\<close>

text \<open>
  In a well-formed selection set the fields for one type have different response keys, at every level:
  the result of the query is then an object with one entry per field.
\<close>

fun wf_field :: "a_field \<Rightarrow> bool" where
  "wf_field (A_Field alias name args dirs sels) =
     (\<forall>(t, flds) \<in> set sels. distinct (map response_key flds) \<and> (\<forall>f \<in> set flds. wf_field f))"

definition wf_fields :: "a_field list \<Rightarrow> bool" where
  "wf_fields flds \<longleftrightarrow> distinct (map response_key flds) \<and> (\<forall>f \<in> set flds. wf_field f)"

definition wf_set :: "selection_set \<Rightarrow> bool" where
  "wf_set sels \<longleftrightarrow> (\<forall>(t, flds) \<in> set sels. wf_fields flds)"

lemma wf_field_iff: "wf_field f \<longleftrightarrow> wf_set (af_selection_set f)"
  by (cases f) (simp add: wf_set_def wf_fields_def)

lemma wf_field_prepend [simp]: "wf_field (prepend_directives ds f) = wf_field f"
  by (cases f) simp

lemma response_key_prepend [simp]: "response_key (prepend_directives ds f) = response_key f"
  by (cases f) (simp add: response_key_def split: option.split)

lemma wf_fields_Nil [simp]: "wf_fields []"
  by (simp add: wf_fields_def)

lemma wf_set_new [simp]: "wf_set (set_new ts)"
  by (auto simp: wf_set_def set_new_def)

lemma wf_set_empty_from [simp]: "wf_set (empty_from sels)"
  by (auto simp: wf_set_def empty_from_def)

lemma try_update_cases:
  assumes "try_update P g other xs = Inr ys"
  obtains (found) us x y vs where "xs = us @ x # vs" "ys = us @ y # vs" "P x" "g x = Inr y"
  | (absent) "\<not> list_ex P xs" "\<exists>zs. other = Inr zs"
proof -
  have "(\<exists>us x y vs. xs = us @ x # vs \<and> ys = us @ y # vs \<and> P x \<and> g x = Inr y) \<or>
      \<not> list_ex P xs \<and> (\<exists>zs. other = Inr zs)"
    using assms
  proof (induction xs arbitrary: ys)
    case (Cons a xs)
    show ?case
    proof (cases "P a")
      case True
      with Cons.prems show ?thesis by (force split: sum.splits intro: exI [where x = "[]"])
    next
      case False
      with Cons.prems obtain zs where "ys = a # zs" "try_update P g other xs = Inr zs" by (auto split: sum.splits)
      with Cons.IH False show ?thesis by simp (metis append_Cons)
    qed
  qed auto
  then show ?thesis using found absent by blast
qed

lemma wf_fields_replace:
  assumes "wf_fields (us @ f # vs)" "response_key g = response_key f" "wf_field g"
  shows "wf_fields (us @ g # vs)"
  using assms by (auto simp: wf_fields_def)

lemma merge_wf:
  shows "merge_set self other ds = Inr r \<Longrightarrow> wf_set self \<Longrightarrow> wf_set other \<Longrightarrow>
           wf_set r \<and> map fst r = map fst self"
    and "merge_field flds f = Inr flds' \<Longrightarrow> wf_fields flds \<Longrightarrow> wf_field f \<Longrightarrow>
           wf_fields flds' \<and>
           map response_key flds' =
             map response_key flds @ (if response_key f \<in> response_key ` set flds then [] else [response_key f])"
proof (induction self other ds and flds f arbitrary: r and flds' rule: merge_set_merge_field.induct)
  case (1 self other ds)
  let ?I = "\<lambda>sels :: selection_set. wf_set sels \<and> map fst sels = map fst self"
  show ?case
  proof (rule try_fold_invariant [OF 1(2) [unfolded merge_set.simps], where I = ?I])
    fix e :: "object_type \<times> a_field list" and s s' :: selection_set
    assume e: "e \<in> set other" and I: "?I s"
      and step: "(case e of (other_type, other_fields) \<Rightarrow> \<lambda>self.
          try_update (\<lambda>(obj_type, _). obj_name other_type = obj_name obj_type)
            (\<lambda>(obj_type, flds).
               case try_fold (\<lambda>f flds. merge_field flds (prepend_directives ds f)) other_fields flds of
                 Inl e \<Rightarrow> Inl e
               | Inr flds' \<Rightarrow> Inr (obj_type, flds'))
            (Inl (ValidationError (''invalid query: can not merge fields because type `'' @ obj_name other_type @
                                   ''` showed up unexpectedly'')))
            self) s = Inr s'"
    obtain ot ofs where ot: "e = (ot, ofs)" by force
    have fields: "wf_fields fs'"
      if "try_fold (\<lambda>f flds. merge_field flds (prepend_directives ds f)) ofs fs = Inr fs'" "wf_fields fs" for fs fs'
    proof (rule try_fold_invariant [OF that(1), where I = wf_fields, OF that(2)])
      fix g fs fs'
      assume "g \<in> set ofs" "wf_fields fs" "merge_field fs (prepend_directives ds g) = Inr fs'"
      moreover from this(1) have "wf_field g" using 1(4) e ot by (auto simp: wf_set_def wf_fields_def)
      ultimately show "wf_fields fs'" using 1(1) e ot by auto
    qed
    from step show "?I s'" unfolding ot prod.case
    proof (cases rule: try_update_cases)
      case (found us x y vs)
      then obtain fs fs' where "x = (fst x, fs)" "y = (fst x, fs')"
        "try_fold (\<lambda>f flds. merge_field flds (prepend_directives ds f)) ofs fs = Inr fs'"
        by (cases x) (auto split: sum.splits)
      with found I fields show ?thesis by (auto simp: wf_set_def)
    qed auto
  qed (use 1 in simp)
next
  case (2 flds f)
  show ?case
  proof (cases "list_ex (\<lambda>g. response_key g = response_key f) flds")
    case True
    then have k: "response_key f \<in> response_key ` set flds" unfolding list_ex_iff by (metis imageI)
    from True 2(2) have "try_update (\<lambda>g. response_key g = response_key f)
        (\<lambda>f'. case merge_set (af_selection_set f') (af_selection_set f) [] of
                Inl e \<Rightarrow> Inl e
              | Inr sels \<Rightarrow> Inr (A_Field (af_alias f') (af_name f') (af_arguments f') (af_directives f') sels))
        (Inr flds) flds = Inr flds'" by (simp add: merge_field.simps)
    then show ?thesis
    proof (cases rule: try_update_cases)
      case (found us x y vs)
      then obtain sels where m: "merge_set (af_selection_set x) (af_selection_set f) [] = Inr sels"
        and y: "y = A_Field (af_alias x) (af_name x) (af_arguments x) (af_directives x) sels"
        by (auto split: sum.splits)
      have "wf_set sels"
        using 2(1) [OF True m] 2(3,4) found(1) by (auto simp: wf_field_iff wf_fields_def)
      then have "wf_field y" "response_key y = response_key x"
        by (auto simp: y wf_field_iff response_key_def split: option.split)
      then show ?thesis using found 2(3) k wf_fields_replace by simp
    qed (use True in simp)
  next
    case False
    with 2 show ?thesis by (auto simp: merge_field.simps wf_fields_def list_ex_iff)
  qed
qed

lemmas merge_set_wf = merge_wf(1)
lemmas merge_field_wf = merge_wf(2)

lemma set_push_wf:
  assumes "set_push sels f = Inr r" "wf_set sels" "wf_field f"
  shows "wf_set r \<and> map fst r = map fst sels"
proof -
  have m: "map (\<lambda>(t, flds). case merge_field flds f of Inl e \<Rightarrow> Inl e | Inr flds' \<Rightarrow> Inr (t, flds')) sels = map Inr r"
    using assms(1) by (simp add: set_push_def collect_results_Inr_iff)
  then show ?thesis using assms(2)
  proof (induction sels arbitrary: r)
    case (Cons e sels)
    obtain t fs where e: "e = (t, fs)" by force
    with Cons.prems obtain fs' r' where fs': "merge_field fs f = Inr fs'" "r = (t, fs') # r'"
      "map (\<lambda>(t, flds). case merge_field flds f of Inl e \<Rightarrow> Inl e | Inr flds' \<Rightarrow> Inr (t, flds')) sels = map Inr r'"
      by (cases r) (auto split: sum.splits)
    have "wf_fields fs'" using merge_field_wf [OF fs'(1)] Cons.prems e assms(3) by (simp add: wf_set_def)
    with Cons.IH [OF fs'(3)] Cons.prems fs'(2) e show ?case by (simp add: wf_set_def)
  qed (simp add: wf_set_def)
qed

end
