(* ===== verification/Query_Prepare.thy ===== *)
theory Query_Prepare
  imports Selection_Set Api_Schema
begin

text \<open>
  Preparing a query for execution: \<open>graphql/src/execution/query.rs\<close>, with the helpers of
  \<open>graphql/src/query/ast.rs\<close> and \<open>graphql/src/query/ext.rs\<close>. The variables are coerced, the query is
  checked for its depth, its complexity and cyclic fragments, its fields are validated, and it is expanded into
  selection sets with coerced arguments.

  Fragments can refer to each other, so that the recursion over selections need not end. The functions
  that recurse without a bound of their own have the number of calls they may nest as an argument and
  return \<^term>\<open>None\<close> when it is not enough; in the program that is an overflow of the stack.
\<close>

section \<open>Query documents\<close>

datatype selection =
    S_Field "string option" string "(string \<times> s_value) list" "directive list" "selection list"
  | S_Spread string "directive list"
  | S_Inline "string option" "directive list" "selection list"

record fragment_definition =
  frag_name :: string
  frag_type_condition :: string
  frag_directives :: "directive list"
  frag_selection_set :: "selection list"

record variable_definition =
  var_name :: string
  var_type :: s_type
  var_default :: "s_value option"

datatype operation_definition =
    OD_SelectionSet "selection list"
  | OD_Query "string option" "variable_definition list" "selection list"
  | OD_Mutation "string option" "variable_definition list" "selection list"
  | OD_Subscription "string option" "variable_definition list" "selection list"

datatype q_definition = QD_Operation operation_definition | QD_Fragment fragment_definition

type_synonym q_document = "q_definition list"

definition get_operations :: "q_document \<Rightarrow> operation_definition list" where
  "get_operations doc = filter_map (\<lambda>d. case d of QD_Operation op \<Rightarrow> Some op | _ \<Rightarrow> None) doc"

fun get_operation_name :: "operation_definition \<Rightarrow> string option" where
  "get_operation_name (OD_Mutation n _ _) = n"
| "get_operation_name (OD_Query n _ _) = n"
| "get_operation_name (OD_SelectionSet _) = None"
| "get_operation_name (OD_Subscription n _ _) = n"

definition get_operation :: "q_document \<Rightarrow> string option \<Rightarrow> query_execution_error + operation_definition" where
  "get_operation doc name =
     (let operations = get_operations doc in
      case name of
        None \<Rightarrow> (case operations of [op] \<Rightarrow> Inr op | _ \<Rightarrow> Inl OperationNameRequired)
      | Some s \<Rightarrow>
          if operations = [] then Inl OperationNameRequired
          else (case find (\<lambda>op. get_operation_name op = Some s) operations of
                  None \<Rightarrow> Inl (OperationNotFound s)
                | Some op \<Rightarrow> Inr op))"

definition get_argument_value :: "(string \<times> s_value) list \<Rightarrow> string \<Rightarrow> s_value option" where
  "get_argument_value args name = map_option snd (find (\<lambda>(n, _). n = name) args)"

fun get_variable_definitions :: "operation_definition \<Rightarrow> variable_definition list option" where
  "get_variable_definitions (OD_Query _ vs _) = Some vs"
| "get_variable_definitions (OD_Subscription _ vs _) = Some vs"
| "get_variable_definitions (OD_Mutation _ vs _) = Some vs"
| "get_variable_definitions (OD_SelectionSet _) = None"

section \<open>Block constraints\<close>

text \<open>
  \<open>hash_from_str\<close> parses a block hash, and \<open>i32_from_str\<close> is the standard library's parser for \<open>i32\<close>.
\<close>

datatype block_constraint = BC_Hash bytes | BC_Number block_number | BC_Min block_number | BC_Latest

definition i32_try_from_value :: "(string \<Rightarrow> int option) \<Rightarrow> r_value \<Rightarrow> block_number option" where
  "i32_try_from_value i32_from_str v =
     (case v of
        RV_Int n \<Rightarrow> if - (2 ^ 31) \<le> sint n \<and> sint n < 2 ^ 31 then Some (sint n) else None
      | RV_String s \<Rightarrow> i32_from_str s
      | _ \<Rightarrow> None)"

definition block_constraint_try_from ::
    "(string \<Rightarrow> bytes option) \<Rightarrow> (string \<Rightarrow> int option) \<Rightarrow> r_value \<Rightarrow> block_constraint option" where
  "block_constraint_try_from hash_from_str i32_from_str v =
     (case v of
        RV_Object m \<Rightarrow>
          (case robject_get m ''hash'' of
             Some hash \<Rightarrow> (case hash of RV_String s \<Rightarrow> map_option BC_Hash (hash_from_str s) | _ \<Rightarrow> None)
           | None \<Rightarrow>
               (case robject_get m ''number'' of
                  Some n \<Rightarrow> map_option BC_Number (i32_try_from_value i32_from_str n)
                | None \<Rightarrow>
                    (case robject_get m ''number_gte'' of
                       Some n \<Rightarrow> map_option BC_Min (i32_try_from_value i32_from_str n)
                     | None \<Rightarrow> None)))
      | RV_Null \<Rightarrow> Some BC_Latest
      | _ \<Rightarrow> None)"

section \<open>Variables\<close>

type_synonym query_variables = "(string, r_value) hash_map"

definition coerce_variable ::
    "(f64 \<Rightarrow> string) \<Rightarrow> api_schema \<Rightarrow> variable_definition \<Rightarrow> r_value \<Rightarrow> query_execution_error list + r_value" where
  "coerce_variable show_f64 s def v =
     (case coerce_value show_f64 (api_get_named_type s) v (var_type def) of
        Inl w \<Rightarrow> Inl [InvalidArgumentError (var_name def) (q_from w)]
      | Inr w \<Rightarrow> Inr w)"

text \<open>One turn of the loop; the state is what is left of the given variables, the coerced values and the errors.\<close>

definition coerce_variable_step ::
    "(f64 \<Rightarrow> string) \<Rightarrow> api_schema \<Rightarrow> variable_definition \<Rightarrow>
     query_variables option \<times> query_variables \<times> query_execution_error list \<Rightarrow>
     query_execution_error list + query_variables option \<times> query_variables \<times> query_execution_error list" where
  "coerce_variable_step show_f64 s def st =
     (let (variables, coerced, errors) = st in
      if \<not> is_input_type (api_document s) (var_type def)
      then Inr (variables, coerced, errors @ [InvalidVariableTypeError (var_name def)])
      else
        let given = Option.bind variables (\<lambda>vars. hm_get vars (var_name def));
            variables' = map_option (hm_remove (var_name def)) variables
        in case (case given of
                   Some v \<Rightarrow> Inr (Some v)
                 | None \<Rightarrow>
                     (case var_default def of
                        None \<Rightarrow> Inr None
                      | Some d \<Rightarrow>
                          (case r_try_from d of
                             Inl _ \<Rightarrow> Inl [QE_Abort ''default value of a variable'']
                           | Inr v \<Rightarrow> Inr (Some v)))) of
             Inl e \<Rightarrow> Inl e
           | Inr None \<Rightarrow>
               Inr (variables', coerced,
                    errors @ (if is_non_null (var_type def) then [MissingVariableError (var_name def)] else []))
           | Inr (Some v) \<Rightarrow>
               (case coerce_variable show_f64 s def v of
                  Inl e \<Rightarrow> Inl e
                | Inr w \<Rightarrow> Inr (variables', hm_insert (var_name def) w coerced, errors)))"

definition coerce_variables ::
    "(f64 \<Rightarrow> string) \<Rightarrow> api_schema \<Rightarrow> operation_definition \<Rightarrow> query_variables option \<Rightarrow>
     query_execution_error list + query_variables" where
  "coerce_variables show_f64 s operation variables =
     (let defs = (case get_variable_definitions operation of None \<Rightarrow> [] | Some ds \<Rightarrow> ds) in
      case try_fold (coerce_variable_step show_f64 s) defs (variables, [], []) of
        Inl e \<Rightarrow> Inl e
      | Inr (_, coerced, errors) \<Rightarrow> if errors = [] then Inr coerced else Inl errors)"

section \<open>Complexity\<close>

text \<open>What does not change while a query is prepared.\<close>

record query_ctx =
  qc_schema :: api_schema
  qc_introspection :: s_document
  qc_introspection_query :: object_type
  qc_show_f64 :: "f64 \<Rightarrow> string"
  qc_variables :: query_variables
  qc_fragments :: "(string, fragment_definition) hash_map"

definition exec_get_field :: "query_ctx \<Rightarrow> object_or_interface \<Rightarrow> string \<Rightarrow> s_field option" where
  "exec_get_field ctx t name =
     (if name = ''__schema'' \<or> name = ''__type''
      then sast_get_field (OI_Object (qc_introspection_query ctx)) name
      else sast_get_field t name)"

definition checked_add :: "u64 \<Rightarrow> u64 \<Rightarrow> u64 option" where
  "checked_add a b = (if unat a + unat b < 2 ^ 64 then Some (a + b) else None)"

definition checked_mul :: "u64 \<Rightarrow> u64 \<Rightarrow> u64 option" where
  "checked_mul a b = (if unat a * unat b < 2 ^ 64 then Some (a * b) else None)"

text \<open>\<open>CE_Abort\<close> is the \<open>unwrap\<close> on a fragment that is not defined.\<close>

datatype complexity_error =
  CE_TooDeep | CE_Overflow | CE_Invalid | CE_CyclicalFragment string | CE_Abort

definition type_field :: "query_ctx \<Rightarrow> type_definition \<Rightarrow> string \<Rightarrow> s_field option" where
  "type_field ctx ty name =
     (case ty of
        TD_Object t \<Rightarrow> exec_get_field ctx (OI_Object t) name
      | TD_Interface t \<Rightarrow> exec_get_field ctx (OI_Interface t) name
      | _ \<Rightarrow> None)"

definition max_entities :: "(string \<times> s_value) list \<Rightarrow> u64" where
  "max_entities args = (case get_argument_value args ''first'' of Some (SV_Int n) \<Rightarrow> n | _ \<Rightarrow> 100)"

definition collection_complexity :: "u64 \<Rightarrow> u64 \<Rightarrow> complexity_error + u64" where
  "collection_complexity n field_complexity =
     (case Option.bind (checked_mul n field_complexity) (checked_add n) of
        None \<Rightarrow> Inl CE_Overflow | Some c \<Rightarrow> Inr c)"

definition add_complexity :: "u64 \<Rightarrow> u64 \<Rightarrow> complexity_error + u64" where
  "add_complexity total_complexity c = (case checked_add total_complexity c of None \<Rightarrow> Inl CE_Overflow | Some t \<Rightarrow> Inr t)"

text \<open>
  The body of the loop over the selections, with \<open>recurse\<close> for the call at the next depth. The sum for a
  field that is not a collection is not checked: in a build without overflow checks it wraps around.
\<close>

definition complexity_step ::
    "(type_definition \<Rightarrow> selection list \<Rightarrow> string set \<Rightarrow> complexity_error + u64) \<Rightarrow> query_ctx \<Rightarrow>
     type_definition \<Rightarrow> string set \<Rightarrow> selection \<Rightarrow> u64 \<Rightarrow> complexity_error + u64" where
  "complexity_step recurse ctx ty visited sel total_complexity =
     (case sel of
        S_Field _ name args _ sels \<Rightarrow>
          if sels = [] then Inr total_complexity
          else
            (case type_field ctx ty name of
               None \<Rightarrow> Inl CE_Invalid
             | Some s_field \<Rightarrow>
                 (case api_get_named_type (qc_schema ctx) (get_base_type (fld_type s_field)) of
                    None \<Rightarrow> Inl CE_Invalid
                  | Some fty \<Rightarrow>
                      (case recurse fty sels visited of
                         Inl e \<Rightarrow> Inl e
                       | Inr fc \<Rightarrow>
                           if \<not> is_list_or_non_null_list_field s_field then Inr (total_complexity + fc)
                           else and_then (collection_complexity (max_entities args) fc)
                                  (add_complexity total_complexity))))
      | S_Spread fragment_name _ \<Rightarrow>
          (case hm_get (qc_fragments ctx) fragment_name of
             None \<Rightarrow> Inl CE_Abort
           | Some def \<Rightarrow>
               (case api_get_named_type (qc_schema ctx) (frag_type_condition def) of
                  None \<Rightarrow> Inl CE_Invalid
                | Some ty' \<Rightarrow>
                    if fragment_name \<in> visited then Inl (CE_CyclicalFragment fragment_name)
                    else and_then (recurse ty' (frag_selection_set def) (insert fragment_name visited))
                           (add_complexity total_complexity)))
      | S_Inline type_condition _ sels \<Rightarrow>
          (case (case type_condition of
                   Some name \<Rightarrow> api_get_named_type (qc_schema ctx) name
                 | None \<Rightarrow> Some ty) of
             None \<Rightarrow> Inl CE_Invalid
           | Some ty' \<Rightarrow> and_then (recurse ty' sels visited) (add_complexity total_complexity)))"

function complexity_inner ::
    "query_ctx \<Rightarrow> u8 \<Rightarrow> type_definition \<Rightarrow> selection list \<Rightarrow> u8 \<Rightarrow> string set \<Rightarrow> complexity_error + u64" where
  "complexity_inner ctx max_depth ty items depth visited =
     (if max_depth \<le> depth then Inl CE_TooDeep
      else try_fold
        (complexity_step
           (\<lambda>ty items visited. complexity_inner ctx max_depth ty items (depth + 1) visited) ctx ty visited)
        items 0)"
  by pat_completeness auto

lemma depth_decreases: "depth < max_depth \<Longrightarrow> unat max_depth - unat (depth + 1) < unat max_depth - unat (depth :: u8)"
proof -
  assume d: "depth < max_depth"
  have "unat max_depth < 2 ^ 8" using unsigned_less [of max_depth] by simp
  with d have "unat (depth + 1) = unat depth + 1"
    by (simp add: unat_word_ariths word_less_nat_alt)
  with d show ?thesis by (simp add: word_less_nat_alt)
qed

termination complexity_inner
  by (relation "measure (\<lambda>(ctx, max_depth, ty, items, depth, visited). unat max_depth - unat depth)")
    (auto simp: depth_decreases not_le)

declare complexity_inner.simps [simp del]

definition query_complexity :: "query_ctx \<Rightarrow> selection list \<Rightarrow> u8 \<Rightarrow> query_execution_error + u64" where
  "query_complexity ctx items max_depth =
     (case get_root_query_type_def (qc_schema ctx) of
        None \<Rightarrow> Inl (QE_Abort ''get_root_query_type_def'')
      | Some root_type' \<Rightarrow>
          (case complexity_inner ctx max_depth root_type' items 0 {} of
             Inr c \<Rightarrow> Inr c
           | Inl CE_Invalid \<Rightarrow> Inr 0
           | Inl CE_TooDeep \<Rightarrow> Inl (TooDeep max_depth)
           | Inl CE_Overflow \<Rightarrow> Inl (TooComplex u64_MAX 0)
           | Inl (CE_CyclicalFragment name) \<Rightarrow> Inl (CyclicalFragment name)
           | Inl CE_Abort \<Rightarrow> Inl (QE_Abort ''fragment'')))"

definition check_complexity ::
    "query_ctx \<Rightarrow> selection list \<Rightarrow> u64 option \<Rightarrow> u8 \<Rightarrow> query_execution_error list + u64" where
  "check_complexity ctx items max_complexity max_depth =
     (case query_complexity ctx items max_depth of
        Inl e \<Rightarrow> Inl [e]
      | Inr c \<Rightarrow>
          (case max_complexity of
             Some m \<Rightarrow> if m < c then Inl [TooComplex c m] else Inr c
           | None \<Rightarrow> Inr c))"

section \<open>Validation of fields\<close>

abbreviation ctx_object_or_interface :: "query_ctx \<Rightarrow> string \<Rightarrow> object_or_interface option" where
  "ctx_object_or_interface ctx name \<equiv> api_object_or_interface (qc_introspection ctx) (qc_schema ctx) name"

fun validate_fields_inner ::
    "nat \<Rightarrow> query_ctx \<Rightarrow> string \<Rightarrow> object_or_interface \<Rightarrow> selection list \<Rightarrow> query_execution_error list option" where
  "validate_fields_inner 0 ctx type_name' ty items = None"
| "validate_fields_inner (Suc n) ctx type_name' ty items =
     map_option concat (collect_options (map
       (\<lambda>sel. case sel of
          S_Field _ name _ _ sels \<Rightarrow>
            (case exec_get_field ctx ty name of
               None \<Rightarrow> Some [UnknownField type_name' name]
             | Some s_field \<Rightarrow>
                 (let base_type = get_base_type (fld_type s_field) in
                  if api_get_named_type (qc_schema ctx) base_type = None then Some [NamedTypeError base_type]
                  else case ctx_object_or_interface ctx base_type of
                         None \<Rightarrow> Some []
                       | Some ty' \<Rightarrow> validate_fields_inner n ctx base_type ty' sels))
        | S_Spread fragment_name _ \<Rightarrow>
            (case hm_get (qc_fragments ctx) fragment_name of
               None \<Rightarrow> Some [UndefinedFragment fragment_name]
             | Some frag \<Rightarrow>
                 (case ctx_object_or_interface ctx (frag_type_condition frag) of
                    None \<Rightarrow> Some [NamedTypeError (frag_type_condition frag)]
                  | Some ty' \<Rightarrow>
                      validate_fields_inner n ctx (frag_type_condition frag) ty' (frag_selection_set frag)))
        | S_Inline type_condition _ sels \<Rightarrow>
            (case type_condition of
               Some name \<Rightarrow>
                 (case ctx_object_or_interface ctx name of
                    None \<Rightarrow> Some [NamedTypeError name]
                  | Some ty' \<Rightarrow> validate_fields_inner n ctx name ty' sels)
             | None \<Rightarrow> validate_fields_inner n ctx type_name' ty sels))
       items))"

definition validate_query_fields ::
    "nat \<Rightarrow> query_ctx \<Rightarrow> selection list \<Rightarrow> (query_execution_error list + unit) option" where
  "validate_query_fields n ctx items =
     map_option (\<lambda>errors. if errors = [] then Inr () else Inl errors)
       (validate_fields_inner n ctx ''Query'' (OI_Object (api_query_type (qc_schema ctx))) items)"

section \<open>Interpolation and coercion of arguments\<close>

definition variable_value :: "query_ctx \<Rightarrow> string \<Rightarrow> r_value" where
  "variable_value ctx name = (case hm_get (qc_variables ctx) name of None \<Rightarrow> RV_Null | Some v \<Rightarrow> v)"

function interpolate_value :: "query_ctx \<Rightarrow> s_value \<Rightarrow> r_value" where
  "interpolate_value ctx (SV_Variable v) = variable_value ctx v"
| "interpolate_value ctx (SV_Int i) = RV_Int i"
| "interpolate_value ctx (SV_Float f) = RV_Float f"
| "interpolate_value ctx (SV_String s) = RV_String s"
| "interpolate_value ctx (SV_Boolean b) = RV_Boolean b"
| "interpolate_value ctx SV_Null = RV_Null"
| "interpolate_value ctx (SV_Enum e) = RV_Enum e"
| "interpolate_value ctx (SV_List vs) = RV_List (map (interpolate_value ctx) vs)"
| "interpolate_value ctx (SV_Object m) =
     r_object_value (bt_from_iter (map (\<lambda>(key, v). (key, interpolate_value ctx v)) m))"
  by pat_completeness auto
termination
proof (relation "measure (size \<circ> snd)", goal_cases)
  case (3 ctx m kv key v)
  then have "(key, v) \<in> set m" by simp
  then show ?case by (auto simp: less_Suc_eq_le intro: size_list_estimation' trans_le_add2)
qed (auto simp: less_Suc_eq_le size_list_estimation')

definition interpolate_arguments :: "query_ctx \<Rightarrow> (string \<times> s_value) list \<Rightarrow> (string \<times> r_value) list" where
  "interpolate_arguments ctx args = map (\<lambda>(name, v). (name, interpolate_value ctx v)) args"

definition interpolate_directives :: "query_ctx \<Rightarrow> directive list \<Rightarrow> a_directive list \<times> bool" where
  "interpolate_directives ctx dirs =
     (let ads = map (\<lambda>d. \<lparr> ad_name = dir_name d, ad_arguments = interpolate_arguments ctx (dir_arguments d) \<rparr>) dirs
      in (ads, list_ex directive_skip ads))"

definition set_argument :: "string \<Rightarrow> r_value \<Rightarrow> (string \<times> r_value) list \<Rightarrow> (string \<times> r_value) list" where
  "set_argument name v args =
     (case update_first (\<lambda>(n, _). n = name) (\<lambda>(n, _). Some (n, v)) args of
        Some args' \<Rightarrow> args'
      | None \<Rightarrow> args @ [(name, v)])"

text \<open>One turn of the loop over the definitions; the state is the arguments, the number of them that are
  defined, and the errors.\<close>

definition coerce_argument_step ::
    "query_ctx \<Rightarrow> string \<Rightarrow> input_value \<Rightarrow>
     (string \<times> r_value) list \<times> nat \<times> query_execution_error list \<Rightarrow>
     (string \<times> r_value) list \<times> nat \<times> query_execution_error list" where
  "coerce_argument_step ctx field_name def st =
     (let (args, defined_args, errors) = st;
          arg_value = argument_value args (iv_name def);
          defined_args' = (if arg_value \<noteq> None then defined_args + 1 else defined_args)
      in case coerce_input_value (qc_show_f64 ctx) (api_get_named_type (qc_schema ctx)) arg_value def of
           Inr (Some v) \<Rightarrow>
             (let v' = (if iv_name def = ''text'' then RV_Object (robject_from_iter [(field_name, v)]) else v)
              in (set_argument (iv_name def) v' args, defined_args', errors))
         | Inr None \<Rightarrow> (args, defined_args', errors)
         | Inl e \<Rightarrow> (args, defined_args', errors @ [e]))"

definition coerce_argument_values ::
    "query_ctx \<Rightarrow> (string \<times> r_value) list \<Rightarrow> object_or_interface \<Rightarrow> string \<Rightarrow>
     query_execution_error list + (string \<times> r_value) list" where
  "coerce_argument_values ctx args ty field_name =
     (let arg_defs = get_argument_definitions ty field_name;
          (args', defined_args, errors) =
            fold (coerce_argument_step ctx field_name) (case arg_defs of None \<Rightarrow> [] | Some ds \<Rightarrow> ds) (args, 0, []);
          args'' =
            (if defined_args < length args' then
               (case arg_defs of
                  None \<Rightarrow> []
                | Some ds \<Rightarrow> filter (\<lambda>(name, _). list_ex (\<lambda>def. iv_name def = name) ds) args')
             else args')
      in if errors = [] then Inr args'' else Inl errors)"

section \<open>Expansion\<close>

text \<open>A computation that can run out of nested calls, or fail with a list of errors.\<close>

type_synonym 'a exec = "(query_execution_error list + 'a) option"

definition exec_bind :: "'a exec \<Rightarrow> ('a \<Rightarrow> 'b exec) \<Rightarrow> 'b exec" where
  "exec_bind m f = (case m of None \<Rightarrow> None | Some (Inl e) \<Rightarrow> Some (Inl e) | Some (Inr x) \<Rightarrow> f x)"

definition lift_error :: "query_execution_error + 'a \<Rightarrow> 'a exec" where
  "lift_error r = Some (map_sum (\<lambda>e. [e]) id r)"

fun exec_fold :: "('a \<Rightarrow> 's \<Rightarrow> 's exec) \<Rightarrow> 'a list \<Rightarrow> 's \<Rightarrow> 's exec" where
  "exec_fold f [] s = Some (Inr s)"
| "exec_fold f (x # xs) s = exec_bind (f x s) (exec_fold f xs)"

text \<open>
  \<open>recurse\<close> is the expansion of a nested selection set, \<open>n\<close> the bound on the nesting of unions.
\<close>

type_synonym expander = "selection list \<Rightarrow> object_type_set \<Rightarrow> object_or_interface \<Rightarrow> selection_set exec"

definition expand_sub_selection ::
    "expander \<Rightarrow> nat \<Rightarrow> query_ctx \<Rightarrow> s_field \<Rightarrow> selection list \<Rightarrow> selection_set option exec" where
  "expand_sub_selection recurse n ctx field_type items =
     (case is_leaf_type (api_document (qc_schema ctx)) (fld_type field_type) of
        None \<Rightarrow> lift_error (Inl (QE_Abort ''is_leaf_type''))
      | Some leaf \<Rightarrow>
          if items = [] then Some (Inr (if leaf then Some [] else None))
          else if leaf then Some (Inr (Some []))
          else
            (let ty = get_base_type (fld_type field_type) in
             exec_bind (Option.bind (ots_from_name n (qc_schema ctx) ty) lift_error) (\<lambda>type_set.
               case ctx_object_or_interface ctx ty of
                 None \<Rightarrow> lift_error (Inl (QE_Abort ''object_or_interface''))
               | Some ty' \<Rightarrow>
                   exec_bind (recurse items type_set ty') (\<lambda>sels. Some (Inr (Some sels))))))"

definition expand_field ::
    "expander \<Rightarrow> nat \<Rightarrow> query_ctx \<Rightarrow> string option \<Rightarrow> string \<Rightarrow> (string \<times> s_value) list \<Rightarrow> directive list \<Rightarrow>
     selection list \<Rightarrow> object_or_interface \<Rightarrow> a_field option exec" where
  "expand_field recurse n ctx alias name args dirs items parent_type =
     (if name = ''__typename'' then Some (Inr (Some (A_Field alias name [] [] [])))
      else
        case ooi_field parent_type name of
          None \<Rightarrow> Some (Inl [UnknownField (ooi_name parent_type) name])
        | Some field_type \<Rightarrow>
            (let (directives, skip) = interpolate_directives ctx dirs in
             if skip then Some (Inr None)
             else
               exec_bind (Some (coerce_argument_values ctx (interpolate_arguments ctx args) parent_type name)) (\<lambda>args'.
               exec_bind (expand_sub_selection recurse n ctx field_type items) (\<lambda>sels.
                 Some (Inr (map_option (A_Field alias name args' directives) sels))))))"

definition expand_fragment ::
    "expander \<Rightarrow> nat \<Rightarrow> query_ctx \<Rightarrow> directive list \<Rightarrow> string option \<Rightarrow> object_type_set \<Rightarrow> selection list \<Rightarrow>
     object_or_interface \<Rightarrow> selection_set \<Rightarrow> selection_set exec" where
  "expand_fragment recurse n ctx dirs frag_cond type_set items ty newset =
     (let (directives, skip) = interpolate_directives ctx dirs in
      case (case frag_cond of Some name \<Rightarrow> ctx_object_or_interface ctx name | None \<Rightarrow> Some ty) of
        None \<Rightarrow> lift_error (Inl (QE_Abort ''type names on fragment spreads are valid''))
      | Some ty' \<Rightarrow>
          if skip then Some (Inr newset)
          else
            exec_bind (Option.bind (ots_convert n (qc_schema ctx) frag_cond) lift_error) (\<lambda>cond_set.
            exec_bind (recurse items (ots_intersect cond_set type_set) ty') (\<lambda>sels.
              lift_error (merge_set newset sels directives))))"

definition expand_selection ::
    "expander \<Rightarrow> nat \<Rightarrow> query_ctx \<Rightarrow> object_type_set \<Rightarrow> object_or_interface \<Rightarrow> selection \<Rightarrow>
     string set \<times> selection_set \<Rightarrow> (string set \<times> selection_set) exec" where
  "expand_selection recurse n ctx type_set ty sel st =
     (let (visited, newset) = st in
      case sel of
        S_Field alias name args dirs items \<Rightarrow>
          exec_bind (expand_field recurse n ctx alias name args dirs items ty) (\<lambda>f.
            case f of
              None \<Rightarrow> Some (Inr (visited, newset))
            | Some f' \<Rightarrow>
                exec_bind (lift_error (set_push newset f')) (\<lambda>newset'. Some (Inr (visited, newset'))))
      | S_Spread fragment_name _ \<Rightarrow>
          (case hm_get (qc_fragments ctx) fragment_name of
             None \<Rightarrow> lift_error (Inl (QE_Abort ''fragment''))
           | Some frag \<Rightarrow>
               if fragment_name \<in> visited then Some (Inr (visited, newset))
               else exec_bind (expand_fragment recurse n ctx (frag_directives frag) (Some (frag_type_condition frag))
                                 type_set (frag_selection_set frag) ty newset)
                      (\<lambda>newset'. Some (Inr (insert fragment_name visited, newset'))))
      | S_Inline type_condition dirs items \<Rightarrow>
          exec_bind (expand_fragment recurse n ctx dirs type_condition type_set items ty newset)
            (\<lambda>newset'. Some (Inr (visited, newset'))))"

fun expand_selection_set :: "nat \<Rightarrow> query_ctx \<Rightarrow> expander" where
  "expand_selection_set 0 ctx items type_set ty = None"
| "expand_selection_set (Suc n) ctx items type_set ty =
     exec_bind (Option.bind (ots_type_names (Suc n) (qc_schema ctx) type_set ty) lift_error) (\<lambda>types.
     exec_bind (exec_fold (expand_selection (expand_selection_set n ctx) (Suc n) ctx type_set ty) items ({}, set_new types))
       (\<lambda>(_, newset). Some (Inr newset)))"

section \<open>Prepared queries\<close>

datatype query_kind = QK_Query | QK_Subscription

record prepared_query =
  pq_schema :: api_schema
  pq_selection_set :: selection_set
  pq_kind :: query_kind

definition is_query :: "prepared_query \<Rightarrow> bool" where
  "is_query q \<longleftrightarrow> pq_kind q = QK_Query"

definition is_subscription :: "prepared_query \<Rightarrow> bool" where
  "is_subscription q \<longleftrightarrow> pq_kind q = QK_Subscription"

text \<open>
  The validation rules are those of the crate \<open>graphql_tools\<close>: \<open>validate_rules\<close> gives the messages of the
  rules that the document breaks. The flag is \<open>ENV_VARS.graphql.silent_graphql_validations\<close>.
\<close>

definition validate_query ::
    "(s_document \<Rightarrow> q_document \<Rightarrow> string list) \<Rightarrow> bool \<Rightarrow> s_document \<Rightarrow> q_document \<Rightarrow>
     query_execution_error list + unit" where
  "validate_query validate_rules silent schema_doc doc =
     (let errors = validate_rules schema_doc doc in
      if errors \<noteq> [] \<and> \<not> silent then Inl (map ValidationError errors) else Inr ())"

definition split_definitions ::
    "q_document \<Rightarrow> query_execution_error list +
       operation_definition option \<times> (string, fragment_definition) hash_map" where
  "split_definitions doc =
     try_fold
       (\<lambda>defn (operation, fragments).
          case defn of
            QD_Operation op \<Rightarrow>
              (case operation of None \<Rightarrow> Inr (Some op, fragments) | Some _ \<Rightarrow> Inl [OperationNameRequired])
          | QD_Fragment frag \<Rightarrow> Inr (operation, hm_insert (frag_name frag) frag fragments))
       doc (None, [])"

fun operation_kind :: "operation_definition \<Rightarrow> query_execution_error list + query_kind \<times> selection list" where
  "operation_kind (OD_Query _ _ sels) = Inr (QK_Query, sels)"
| "operation_kind (OD_SelectionSet sels) = Inr (QK_Query, sels)"
| "operation_kind (OD_Subscription _ _ sels) = Inr (QK_Subscription, sels)"
| "operation_kind (OD_Mutation _ _ _) = Inl [NotSupported ''Mutations are not supported'']"

definition query_convert :: "nat \<Rightarrow> query_ctx \<Rightarrow> selection list \<Rightarrow> object_type \<Rightarrow> selection_set exec" where
  "query_convert n ctx items root_ty = expand_selection_set n ctx items OTS_Any (OI_Object root_ty)"

record query_env =
  qe_introspection :: s_document
  qe_introspection_query :: object_type
  qe_show_f64 :: "f64 \<Rightarrow> string"
  qe_validate_rules :: "s_document \<Rightarrow> q_document \<Rightarrow> string list"
  qe_silent_validations :: bool

definition query_new ::
    "nat \<Rightarrow> query_env \<Rightarrow> api_schema \<Rightarrow> q_document \<Rightarrow> query_variables option \<Rightarrow> u64 option \<Rightarrow> u8 \<Rightarrow>
     prepared_query exec" where
  "query_new n env s doc variables max_complexity max_depth =
     exec_bind (Some (validate_query (qe_validate_rules env) (qe_silent_validations env) (api_document s) doc)) (\<lambda>_.
     exec_bind (Some (split_definitions doc)) (\<lambda>(operation, fragments).
     exec_bind (Some (case operation of None \<Rightarrow> Inl [OperationNameRequired] | Some op \<Rightarrow> Inr op)) (\<lambda>op.
     exec_bind (Some (coerce_variables (qe_show_f64 env) s op variables)) (\<lambda>vars.
     exec_bind (Some (operation_kind op)) (\<lambda>(kind, items).
     exec_bind (Some (case kind of
                        QK_Query \<Rightarrow> Inr (api_query_type s)
                      | QK_Subscription \<Rightarrow>
                          (case api_subscription_type s of
                             None \<Rightarrow> Inl [QE_Abort ''subscription_type''] | Some t \<Rightarrow> Inr t))) (\<lambda>root_ty.
       let ctx = \<lparr> qc_schema = s, qc_introspection = qe_introspection env,
                   qc_introspection_query = qe_introspection_query env, qc_show_f64 = qe_show_f64 env,
                   qc_variables = vars, qc_fragments = fragments \<rparr>
       in exec_bind (Some (check_complexity ctx items max_complexity max_depth)) (\<lambda>_.
          exec_bind (validate_query_fields n ctx items) (\<lambda>_.
          exec_bind (query_convert n ctx items root_ty) (\<lambda>sels.
            Some (Inr \<lparr> pq_schema = s, pq_selection_set = sels, pq_kind = kind \<rparr>))))))))))"

text \<open>One turn of the loop of \<open>Query::block_constraint\<close>: the groups so far and the previous constraint.\<close>

type_synonym constraint_group = "block_constraint \<times> selection_set \<times> error_policy"

definition field_constraint ::
    "(string \<Rightarrow> bytes option) \<Rightarrow> (string \<Rightarrow> int option) \<Rightarrow> a_field \<Rightarrow>
     query_execution_error list + block_constraint" where
  "field_constraint hash_from_str i32_from_str f =
     (case argument_value (af_arguments f) ''block'' of
        None \<Rightarrow> Inr BC_Latest
      | Some bc \<Rightarrow>
          (case block_constraint_try_from hash_from_str i32_from_str bc of
             None \<Rightarrow> Inl [InvalidArgumentError ''block'' (q_from bc)]
           | Some c \<Rightarrow> Inr c))"

definition field_error_policy :: "a_field \<Rightarrow> query_execution_error list + error_policy" where
  "field_error_policy f =
     (case argument_value (af_arguments f) ''subgraphError'' of
        None \<Rightarrow> Inr EP_Deny
      | Some v \<Rightarrow>
          (case error_policy_try_from v of
             None \<Rightarrow> Inl [InvalidArgumentError ''subgraphError'' (q_from v)]
           | Some p \<Rightarrow> Inr p))"

definition block_constraint_step ::
    "(string \<Rightarrow> bytes option) \<Rightarrow> (string \<Rightarrow> int option) \<Rightarrow> selection_set \<Rightarrow> a_field \<Rightarrow>
     constraint_group list \<times> block_constraint option \<Rightarrow>
     query_execution_error list + constraint_group list \<times> block_constraint option" where
  "block_constraint_step hash_from_str i32_from_str all_sels f st =
     (let (bcs, prev_bc) = st in
      and_then (field_constraint hash_from_str i32_from_str f) (\<lambda>bc.
      and_then (field_error_policy f) (\<lambda>policy.
        if prev_bc = Some bc then
          (case bcs of
             [] \<Rightarrow> Inl [QE_Abort ''bcs.last_mut()'']
           | _ \<Rightarrow>
               (let (bc', sels, error_policy) = last bcs in
                case set_push sels f of
                  Inl e \<Rightarrow> Inl [e]
                | Inr sels' \<Rightarrow>
                    Inr (butlast bcs @ [(bc', sels', if policy = EP_Deny then EP_Deny else error_policy)], Some bc)))
        else
          (case set_push (empty_from all_sels) f of
             Inl e \<Rightarrow> Inl [e]
           | Inr sels' \<Rightarrow> Inr (bcs @ [(bc, sels', policy)], Some bc)))))"

definition block_constraints ::
    "(string \<Rightarrow> bytes option) \<Rightarrow> (string \<Rightarrow> int option) \<Rightarrow> prepared_query \<Rightarrow>
     query_execution_error list + constraint_group list" where
  "block_constraints hash_from_str i32_from_str q =
     (case fields_for (pq_selection_set q) (api_query_type (pq_schema q)) of
        Inl e \<Rightarrow> Inl [e]
      | Inr flds \<Rightarrow>
          (case try_fold (block_constraint_step hash_from_str i32_from_str (pq_selection_set q)) flds ([], None) of
             Inl e \<Rightarrow> Inl e
           | Inr (bcs, _) \<Rightarrow> Inr bcs))"

end
