(* ===== verification/Query_Expansion.thy ===== *)
theory Query_Expansion
  imports Query_Prepare
begin

text \<open>
  What the preparation of queries guarantees: the check of depth and complexity bounds the recursion of
  the later steps when it reaches a result, and does not when it gives up on an invalid field; its result
  is the exact number of entities modulo the width of the machine; arguments have the types of their
  definitions; expanded selection sets are well-formed; and the fields are grouped by block constraint
  without changing their order.
\<close>

section \<open>The check of the complexity bounds the recursion\<close>

fun depth_ok :: "nat \<Rightarrow> (string, fragment_definition) hash_map \<Rightarrow> selection list \<Rightarrow> bool" where
  "depth_ok 0 frags items = False"
| "depth_ok (Suc n) frags items =
     list_all
       (\<lambda>sel. case sel of
          S_Field _ _ _ _ sels \<Rightarrow> sels = [] \<or> depth_ok n frags sels
        | S_Spread name _ \<Rightarrow>
            (case hm_get frags name of None \<Rightarrow> False | Some d \<Rightarrow> depth_ok n frags (frag_selection_set d))
        | S_Inline _ _ sels \<Rightarrow> depth_ok n frags sels)
       items"

lemma try_fold_step:
  "try_fold g xs s = Inr r \<Longrightarrow> x \<in> set xs \<Longrightarrow> \<exists>s s'. g x s = Inr s'"
  by (induction xs arbitrary: s) (auto split: sum.splits)

lemma depth_step: "depth < max_depth \<Longrightarrow> unat max_depth - unat depth = Suc (unat max_depth - unat (depth + 1 :: u8))"
proof -
  assume d: "depth < max_depth"
  have "unat max_depth < 2 ^ 8" using unsigned_less [of max_depth] by simp
  with d have "unat (depth + 1) = unat depth + 1"
    by (simp add: unat_word_ariths word_less_nat_alt)
  with d show ?thesis by (simp add: word_less_nat_alt)
qed

lemma complexity_bounds_depth:
  "complexity_inner ctx max_depth ty items depth visited = Inr c \<Longrightarrow>
   depth_ok (unat max_depth - unat depth) (qc_fragments ctx) items"
proof (induction ctx max_depth ty items depth visited arbitrary: c rule: complexity_inner.induct)
  case (1 ctx max_depth ty items depth visited)
  have d: "\<not> max_depth \<le> depth" using 1(2) by (auto simp: complexity_inner.simps)
  have steps: "try_fold (complexity_step
      (\<lambda>ty items visited. complexity_inner ctx max_depth ty items (depth + 1) visited) ctx ty visited) items 0 = Inr c"
    using 1(2) d by (simp add: complexity_inner.simps [of ctx max_depth ty items])
  have "case sel of
          S_Field _ _ _ _ sels \<Rightarrow> sels = [] \<or> depth_ok (unat max_depth - unat (depth + 1)) (qc_fragments ctx) sels
        | S_Spread name _ \<Rightarrow>
            (case hm_get (qc_fragments ctx) name of
               None \<Rightarrow> False
             | Some d \<Rightarrow> depth_ok (unat max_depth - unat (depth + 1)) (qc_fragments ctx) (frag_selection_set d))
        | S_Inline _ _ sels \<Rightarrow> depth_ok (unat max_depth - unat (depth + 1)) (qc_fragments ctx) sels"
    if "sel \<in> set items" for sel
  proof -
    obtain t t' where "complexity_step (\<lambda>ty items visited. complexity_inner ctx max_depth ty items (depth + 1) visited)
        ctx ty visited sel t = Inr t'"
      using try_fold_step [OF steps \<open>sel \<in> _\<close>] by blast
    then show ?thesis
      using 1(1) [OF d \<open>sel \<in> _\<close>] by (cases sel) (auto simp: complexity_step_def and_then_Inr split: option.splits sum.splits if_splits)
  qed
  then show ?case using d by (auto simp: depth_step not_le list_all_iff)
qed

lemma collect_options_defined: "(\<And>x. x \<in> set xs \<Longrightarrow> g x \<noteq> None) \<Longrightarrow> collect_options (map g xs) \<noteq> None"
proof (induction xs)
  case (Cons x xs)
  then obtain y where "g x = Some y" by fastforce
  with Cons show ?case by simp
qed simp

lemma validate_fields_defined:
  "depth_ok n (qc_fragments ctx) items \<Longrightarrow> n \<le> k \<Longrightarrow> validate_fields_inner (Suc k) ctx name ty items \<noteq> None"
proof (induction n arbitrary: k name ty items)
  case (Suc n)
  then obtain k' where k: "k = Suc k'" "n \<le> k'" by (cases k) auto
  have e: "validate_fields_inner (Suc k') ctx name ty [] \<noteq> None" for name ty by simp
  show ?case
    unfolding k validate_fields_inner.simps(2) [of "Suc k'"] option.map_disc_iff
  proof (rule collect_options_defined, goal_cases)
    case (1 sel)
    with Suc.prems(1) have "case sel of
          S_Field _ _ _ _ sels \<Rightarrow> sels = [] \<or> depth_ok n (qc_fragments ctx) sels
        | S_Spread name _ \<Rightarrow>
            (case hm_get (qc_fragments ctx) name of
               None \<Rightarrow> False | Some d \<Rightarrow> depth_ok n (qc_fragments ctx) (frag_selection_set d))
        | S_Inline _ _ sels \<Rightarrow> depth_ok n (qc_fragments ctx) sels"
      by (simp add: list_all_iff)
    with Suc.IH [OF _ k(2)] e show ?case
      by (cases sel) (auto simp: Let_def simp del: validate_fields_inner.simps split: option.splits)
  qed
qed simp

definition flat_unions :: "api_schema \<Rightarrow> bool" where
  "flat_unions s \<longleftrightarrow>
     (\<forall>name u. api_get_named_type s name = Some (TD_Union u) \<longrightarrow>
        (\<forall>m \<in> set (union_types u). \<forall>v. api_get_named_type s m \<noteq> Some (TD_Union v)))"

lemma fold_option_defined:
  assumes "\<And>x r. x \<in> set xs \<Longrightarrow> r \<noteq> None \<Longrightarrow> g x r \<noteq> None" "s \<noteq> None"
  shows "fold g xs s \<noteq> None"
  using assms
proof (induction xs arbitrary: s)
  case (Cons x xs)
  have "g x s \<noteq> None" using Cons.prems by simp
  then show ?case using Cons by simp
qed simp

lemma resolve_non_union:
  "\<forall>u. api_get_named_type s name \<noteq> Some (TD_Union u) \<Longrightarrow> resolve_object_types (Suc n) s name \<noteq> None"
  by (auto split: option.splits type_definition.splits)

lemma resolve_defined:
  assumes "flat_unions s" shows "resolve_object_types (Suc (Suc n)) s name \<noteq> None"
proof (cases "\<exists>u. api_get_named_type s name = Some (TD_Union u)")
  case True
  then obtain u where u: "api_get_named_type s name = Some (TD_Union u)" by blast
  have m: "resolve_object_types (Suc n) s m \<noteq> None" if "m \<in> set (union_types u)" for m
    using assms u that by (intro resolve_non_union) (auto simp: flat_unions_def)
  show ?thesis
    unfolding resolve_object_types.simps(2) [of "Suc n"] u option.case type_definition.case
    by (rule fold_option_defined)
      (auto simp del: resolve_object_types.simps split: sum.splits option.splits dest: m)
qed (use resolve_non_union in blast)

lemma exec_bind_defined: "m \<noteq> None \<Longrightarrow> (\<And>x. m = Some (Inr x) \<Longrightarrow> f x \<noteq> None) \<Longrightarrow> exec_bind m f \<noteq> None"
  by (auto simp: exec_bind_def split: option.splits sum.splits)

lemma lift_error_defined [simp]: "lift_error r \<noteq> None"
  by (simp add: lift_error_def)

lemma exec_fold_defined:
  "(\<And>x s. x \<in> set xs \<Longrightarrow> f x s \<noteq> None) \<Longrightarrow> exec_fold f xs s \<noteq> None"
proof (induction xs arbitrary: s)
  case (Cons x xs)
  have "f x s \<noteq> None" "\<And>s. exec_fold f xs s \<noteq> None" using Cons by auto
  then show ?case unfolding exec_fold.simps by (rule exec_bind_defined)
qed simp

lemma bind_lift_defined: "m \<noteq> None \<Longrightarrow> Option.bind m lift_error \<noteq> None"
  by (auto simp: lift_error_def)

lemma ots_defined:
  assumes "flat_unions s"
  shows "ots_from_name (Suc (Suc n)) s name \<noteq> None" "ots_convert (Suc (Suc n)) s c \<noteq> None"
    "ots_type_names (Suc (Suc n)) s ots ty \<noteq> None"
  using resolve_defined [OF assms]
  by (auto simp: ots_from_name_def ots_convert_def ots_type_names_def simp del: resolve_object_types.simps
      split: option.splits)

lemmas defined_intros = exec_bind_defined [unfolded not_None_eq] bind_lift_defined [unfolded not_None_eq]
  lift_error_defined [unfolded not_None_eq]

lemma expand_field_defined:
  assumes "flat_unions (qc_schema ctx)"
    and "\<And>ts ty. items \<noteq> [] \<Longrightarrow> recurse items ts ty \<noteq> None"
  shows "expand_field recurse (Suc (Suc k)) ctx alias name args dirs items ty \<noteq> None"
proof -
  have "expand_sub_selection recurse (Suc (Suc k)) ctx ft items \<noteq> None" for ft
    unfolding expand_sub_selection_def using assms(2) ots_defined(1) [OF assms(1)]
    by (auto simp: Let_def split: option.split intro!: defined_intros)
  then show ?thesis
    unfolding expand_field_def
    by (auto simp: split_beta split: option.split intro!: defined_intros)
qed

lemma expand_fragment_defined:
  assumes "flat_unions (qc_schema ctx)" and "\<And>ts ty. recurse items ts ty \<noteq> None"
  shows "expand_fragment recurse (Suc (Suc k)) ctx dirs c ts items ty newset \<noteq> None"
  unfolding expand_fragment_def split_beta Let_def
  using assms(2) ots_defined(2) [OF assms(1)]
  by (auto split: option.split intro!: defined_intros)

lemma expand_selection_defined:
  assumes u: "flat_unions (qc_schema ctx)"
    and r: "\<And>items ts ty. items = [] \<or> depth_ok n (qc_fragments ctx) items \<Longrightarrow> recurse items ts ty \<noteq> None"
    and sel: "depth_ok (Suc n) (qc_fragments ctx) [sel]"
  shows "expand_selection recurse (Suc (Suc k)) ctx ts ty sel st \<noteq> None"
proof (cases sel)
  case (S_Field al name args dirs items)
  then have "expand_field recurse (Suc (Suc k)) ctx al name args dirs items ty \<noteq> None"
    using sel r by (intro expand_field_defined [OF u]) auto
  with S_Field show ?thesis
    by (auto simp: expand_selection_def split_beta split: option.split intro!: defined_intros)
next
  case (S_Spread name dirs)
  with sel r show ?thesis
    by (auto simp: expand_selection_def split_beta split: option.splits
        intro!: defined_intros expand_fragment_defined [OF u, unfolded not_None_eq])
next
  case (S_Inline c dirs items)
  with sel r show ?thesis
    by (auto simp: expand_selection_def split_beta
        intro!: defined_intros expand_fragment_defined [OF u, unfolded not_None_eq])
qed

lemma expand_defined:
  assumes u: "flat_unions (qc_schema ctx)"
  shows "depth_ok n (qc_fragments ctx) items \<Longrightarrow> n \<le> k \<Longrightarrow> expand_selection_set (Suc (Suc k)) ctx items ts ty \<noteq> None"
proof (induction n arbitrary: k items ts ty)
  case (Suc n)
  then obtain k' where k: "k = Suc k'" "n \<le> k'" by (cases k) auto
  have "expand_selection_set (Suc k) ctx [] ts ty \<noteq> None" for ts ty
    using ots_defined(3) [OF u, of k' ts ty] unfolding k expand_selection_set.simps
    by (auto intro!: defined_intros)
  then have r: "expand_selection_set (Suc k) ctx items ts ty \<noteq> None"
    if "items = [] \<or> depth_ok n (qc_fragments ctx) items" for items ts ty
    using that Suc.IH [OF _ k(2)] k(1) by blast
  have "exec_fold (expand_selection (expand_selection_set (Suc k) ctx) (Suc (Suc k)) ctx ts ty) items st \<noteq> None" for st
    using Suc.prems(1) by (intro exec_fold_defined expand_selection_defined [OF u r]) (auto simp: list_all_iff)
  then show ?case
    using ots_defined(3) [OF u, of k ts ty]
    unfolding expand_selection_set.simps(2) [of "Suc k"] by (auto simp del: expand_selection_set.simps intro!: defined_intros)
qed simp

text \<open>
  The check of the complexity protects the later steps: when it has gone through the whole query,
  which fixes the depth of the query by \<open>max_depth\<close> and excludes cyclic fragments, the validation of the
  fields and the expansion end, with calls nested no deeper than two more than \<open>max_depth\<close>. Members of
  unions are object or interface types, as GraphQL demands.
\<close>

theorem checked_query_preparation_ends:
  assumes "complexity_inner ctx max_depth ty items 0 {} = Inr c" and "flat_unions (qc_schema ctx)"
    and "unat max_depth + 2 \<le> n"
  shows "validate_query_fields n ctx items \<noteq> None \<and> query_convert n ctx items root_ty \<noteq> None"
proof -
  have d: "depth_ok (unat max_depth) (qc_fragments ctx) items"
    using complexity_bounds_depth [OF assms(1)] by simp
  define k where "k = n - 2"
  have k: "n = Suc (Suc k)" "unat max_depth \<le> k" using assms(3) unfolding k_def by linarith+
  have "validate_query_fields n ctx items \<noteq> None"
    using validate_fields_defined [OF d, of "Suc k"] k unfolding validate_query_fields_def by auto
  moreover have "query_convert n ctx items root_ty \<noteq> None"
    using expand_defined [OF assms(2) d k(2)] unfolding query_convert_def k by blast
  ultimately show ?thesis ..
qed

definition query_object :: object_type where
  "query_object =
     \<lparr> obj_name = ''Query'', obj_implements_interfaces = [], obj_directives = [],
       obj_fields = [plain_field ''user'' (NamedType ''User''),
                     \<lparr> fld_name = ''users'', fld_arguments = collection_arguments_for_named_type ''User'',
                       fld_type = collection_type ''User'', fld_directives = [] \<rparr>] \<rparr>"

definition user_object :: object_type where
  "user_object =
     \<lparr> obj_name = ''User'', obj_implements_interfaces = [], obj_directives = [],
       obj_fields = [plain_field ''name'' (NamedType ''String''),
                     \<lparr> fld_name = ''friends'', fld_arguments = collection_arguments_for_named_type ''User'',
                       fld_type = collection_type ''User'', fld_directives = [] \<rparr>] \<rparr>"

definition user_schema :: api_schema where
  "user_schema =
     \<lparr> api_sch = \<lparr> sch_id = ''Qm'',
         sch_document = [TypeDefinition (TD_Object query_object), TypeDefinition (TD_Object user_object),
                         meta_scalar ''String'', meta_scalar ''Int''],
         sch_interfaces_for_type = [], sch_types_for_interface = [], sch_immutable_types = {} \<rparr>,
       api_query_type = query_object, api_subscription_type = None,
       api_object_types = [(''Query'', query_object), (''User'', user_object)] \<rparr>"

definition user_ctx :: query_ctx where
  "user_ctx =
     \<lparr> qc_schema = user_schema, qc_introspection = [], qc_introspection_query = query_object,
       qc_show_f64 = (\<lambda>_. []), qc_variables = [],
       qc_fragments = [(''F'', \<lparr> frag_name = ''F'', frag_type_condition = ''Query'', frag_directives = [],
                                 frag_selection_set = [S_Spread ''F'' []] \<rparr>)] \<rparr>"

abbreviation leaf :: "string \<Rightarrow> selection" where
  "leaf name \<equiv> S_Field None name [] [] []"

lemmas user_simps = user_ctx_def user_schema_def query_object_def user_object_def plain_field_def type_field_def
  exec_get_field_def sast_get_field_def ooi_field_def TYPENAME_FIELD_def api_get_named_type_def get_named_type_Cons
  definition_named_def collection_type_def is_list_or_non_null_list_field_def

lemma flat_user_schema: "flat_unions user_schema"
  by (auto simp: flat_unions_def user_simps split: if_splits)

lemma user_query_complexity:
  "complexity_inner user_ctx 2 (TD_Object query_object) [S_Field None ''user'' [] [] [leaf ''name'']] 0 {} = Inr 0"
  by (simp add: complexity_inner.simps complexity_step_def user_simps word_le_nat_alt)

theorem checked_query_preparation_ends_witness:
  "validate_query_fields 4 user_ctx [S_Field None ''user'' [] [] [leaf ''name'']] \<noteq> None \<and>
   query_convert 4 user_ctx [S_Field None ''user'' [] [] [leaf ''name'']] query_object \<noteq> None"
proof (rule checked_query_preparation_ends [OF user_query_complexity])
  show "flat_unions (qc_schema user_ctx)" using flat_user_schema by (simp add: user_ctx_def)
qed simp

lemma collect_options_None: "x \<in> set xs \<Longrightarrow> g x = None \<Longrightarrow> collect_options (map g xs) = None"
proof (induction xs)
  case (Cons a xs)
  then show ?case by (cases "g a") auto
qed simp

lemma validate_cyclic:
  assumes "hm_get (qc_fragments ctx) name = Some d" "S_Spread name ds \<in> set (frag_selection_set d)"
    and "ctx_object_or_interface ctx (frag_type_condition d) = Some ty'"
  shows "S_Spread name ds' \<in> set items \<Longrightarrow> validate_fields_inner n ctx type_name' ty items = None"
proof (induction n arbitrary: type_name' ty items ds')
  case (Suc n)
  have n: "validate_fields_inner n ctx (frag_type_condition d) ty' (frag_selection_set d) = None"
    by (rule Suc.IH) (rule assms(2))
  show ?case
    unfolding validate_fields_inner.simps(2)
    by (simp only: option.map_disc_iff, rule collect_options_None [OF Suc.prems]) (use assms(1,3) n in simp)
qed simp

text \<open>
  The check does not protect the later steps when the query has an invalid field in front: the check
  stops there, reports the complexity 0 and never sees the fragments that follow. If one of them
  includes itself, the validation of the fields does not end, however many calls may be nested, and the
  program overflows its stack. (By default the rules of GraphQL validation that would reject such a query
  are not applied.)
\<close>

theorem invalid_field_hides_cyclic_fragment:
  assumes "get_root_query_type_def (qc_schema ctx) = Some rt" and "type_field ctx rt name = None"
    and "sels \<noteq> []" and "0 < max_depth"
    and "hm_get (qc_fragments ctx) frag = Some d" and "S_Spread frag ds \<in> set (frag_selection_set d)"
    and "ctx_object_or_interface ctx (frag_type_condition d) = Some ty'"
  shows "check_complexity ctx (S_Field al name args dirs sels # S_Spread frag ds # rest) m max_depth = Inr 0 \<and>
    validate_query_fields n ctx (S_Field al name args dirs sels # S_Spread frag ds # rest) = None"
proof
  have "complexity_inner ctx max_depth rt (S_Field al name args dirs sels # S_Spread frag ds # rest) 0 {} = Inl CE_Invalid"
    using assms(2-4) by (simp add: complexity_inner.simps [of ctx max_depth rt] complexity_step_def not_le)
  then show "check_complexity ctx (S_Field al name args dirs sels # S_Spread frag ds # rest) m max_depth = Inr 0"
    using assms(1) by (auto simp: check_complexity_def query_complexity_def split: option.splits)
  show "validate_query_fields n ctx (S_Field al name args dirs sels # S_Spread frag ds # rest) = None"
    using validate_cyclic [OF assms(5-7), of ds] by (simp add: validate_query_fields_def)
qed

theorem invalid_field_hides_cyclic_fragment_witness:
  "check_complexity user_ctx [S_Field None ''nope'' [] [] [leaf ''id''], S_Spread ''F'' []] None 10 = Inr 0 \<and>
   validate_query_fields 1000 user_ctx [S_Field None ''nope'' [] [] [leaf ''id''], S_Spread ''F'' []] = None"
proof (rule invalid_field_hides_cyclic_fragment)
  show "get_root_query_type_def (qc_schema user_ctx) = Some (TD_Object query_object)"
    by (simp add: get_root_query_type_def_def find_map_def List.map_filter_simps user_ctx_def user_schema_def query_object_def)
  show "type_field user_ctx (TD_Object query_object) ''nope'' = None" by (simp add: user_simps)
  show "hm_get (qc_fragments user_ctx) ''F'' =
      Some \<lparr> frag_name = ''F'', frag_type_condition = ''Query'', frag_directives = [], frag_selection_set = [S_Spread ''F'' []] \<rparr>"
    by (simp add: user_ctx_def)
  show "ctx_object_or_interface user_ctx (frag_type_condition
      \<lparr> frag_name = ''F'', frag_type_condition = ''Query'', frag_directives = [], frag_selection_set = [S_Spread ''F'' []] \<rparr>) =
      Some (OI_Object query_object)"
    by (simp add: api_object_or_interface_def object_or_interface_of_def user_simps)
qed simp_all

section \<open>The complexity is the number of entities\<close>

text \<open>
  The largest number of entities that a query can return, as an exact number: a collection of \<open>n\<close>
  entities, each with \<open>c\<close> more below it, has \<open>n + n * c\<close>. The first argument is the depth.
\<close>

fun entity_count :: "nat \<Rightarrow> query_ctx \<Rightarrow> type_definition \<Rightarrow> selection list \<Rightarrow> nat" where
  "entity_count 0 ctx ty items = 0"
| "entity_count (Suc n) ctx ty items =
     sum_list (map
       (\<lambda>sel. case sel of
          S_Field _ name args _ sels \<Rightarrow>
            if sels = [] then 0
            else
              (case type_field ctx ty name of
                 None \<Rightarrow> 0
               | Some f \<Rightarrow>
                   (case api_get_named_type (qc_schema ctx) (get_base_type (fld_type f)) of
                      None \<Rightarrow> 0
                    | Some fty \<Rightarrow>
                        (let c = entity_count n ctx fty sels in
                         if is_list_or_non_null_list_field f
                         then unat (max_entities args) + unat (max_entities args) * c else c)))
        | S_Spread name _ \<Rightarrow>
            (case hm_get (qc_fragments ctx) name of
               None \<Rightarrow> 0
             | Some d \<Rightarrow>
                 (case api_get_named_type (qc_schema ctx) (frag_type_condition d) of
                    None \<Rightarrow> 0
                  | Some ty' \<Rightarrow> entity_count n ctx ty' (frag_selection_set d)))
        | S_Inline c _ sels \<Rightarrow>
            (case (case c of Some name \<Rightarrow> api_get_named_type (qc_schema ctx) name | None \<Rightarrow> Some ty) of
               None \<Rightarrow> 0
             | Some ty' \<Rightarrow> entity_count n ctx ty' sels))
       items)"

lemma add_complexity_sum: "add_complexity a b = Inr c \<Longrightarrow> c = a + b"
  by (auto simp: add_complexity_def checked_add_def split: option.splits if_splits)

lemma collection_complexity_exact:
  "collection_complexity n b = Inr c \<Longrightarrow> c = n + n * b"
  by (auto simp: collection_complexity_def checked_add_def checked_mul_def bind_eq_Some_conv split: option.splits if_splits)

lemma try_fold_sum:
  fixes s :: "'w :: {ab_semigroup_add, comm_monoid_add}"
  assumes "try_fold g xs s = Inr r" "\<And>x s s'. x \<in> set xs \<Longrightarrow> g x s = Inr s' \<Longrightarrow> s' = s + h x"
  shows "r = s + sum_list (map h xs)"
  using assms
proof (induction xs arbitrary: s)
  case (Cons x xs)
  then obtain s' where s': "g x s = Inr s'" "try_fold g xs s' = Inr r" by (auto split: sum.splits)
  have "s' = s + h x" using Cons.prems(2) [OF _ s'(1)] by simp
  moreover have "r = s' + sum_list (map h xs)" using s'(2) by (rule Cons.IH) (rule Cons.prems(2), simp_all)
  ultimately show ?case by (simp add: add.assoc)
qed simp

lemma complexity_is_entity_count:
  "complexity_inner ctx max_depth ty items depth visited = Inr c \<Longrightarrow>
   c = of_nat (entity_count (unat max_depth - unat depth) ctx ty items)"
proof (induction ctx max_depth ty items depth visited arbitrary: c rule: complexity_inner.induct)
  case (1 ctx max_depth ty items depth visited)
  have d: "\<not> max_depth \<le> depth" using 1(2) by (auto simp: complexity_inner.simps)
  have steps: "try_fold (complexity_step
      (\<lambda>ty items visited. complexity_inner ctx max_depth ty items (depth + 1) visited) ctx ty visited) items 0 = Inr c"
    using 1(2) d by (simp add: complexity_inner.simps [of ctx max_depth ty items])
  let ?n = "unat max_depth - unat (depth + 1)"
  have "t' = t + of_nat (entity_count (Suc ?n) ctx ty [sel])"
    if sel: "sel \<in> set items" and
      "complexity_step (\<lambda>ty items visited. complexity_inner ctx max_depth ty items (depth + 1) visited)
        ctx ty visited sel t = Inr t'" for sel t t'
    using that(2) 1(1) [OF d sel]
    by (cases sel)
      (auto simp: complexity_step_def and_then_Inr Let_def split: option.splits sum.splits if_splits
        dest!: add_complexity_sum collection_complexity_exact)
  then have "c = 0 + sum_list (map (\<lambda>sel. of_nat (entity_count (Suc ?n) ctx ty [sel])) items)"
    by (rule try_fold_sum [OF steps])
  moreover have "of_nat (entity_count (Suc ?n) ctx ty items) =
      (sum_list (map (\<lambda>sel. of_nat (entity_count (Suc ?n) ctx ty [sel])) items) :: u64)"
    by (induction items) simp_all
  ultimately show ?case using d depth_step [of depth max_depth] by (simp add: not_le)
qed

text \<open>
  When the check gives a complexity, it is the largest number of entities that the query can
  return, as counted by \<open>entity_count\<close>, modulo the width of the machine word; so it is that number
  whenever the number fits into 64 bits.
\<close>

theorem complexity_exact:
  assumes "complexity_inner ctx max_depth ty items 0 {} = Inr c"
    and "entity_count (unat max_depth) ctx ty items < 2 ^ 64"
  shows "unat c = entity_count (unat max_depth) ctx ty items"
  using complexity_is_entity_count [OF assms(1)] assms(2) by (simp add: unat_of_nat)

theorem complexity_exact_witness:
  "unat (100 :: u64) =
   entity_count (unat (3 :: u8)) user_ctx (TD_Object query_object) [S_Field None ''users'' [] [] [leaf ''name'']]"
proof (rule complexity_exact)
  show "complexity_inner user_ctx 3 (TD_Object query_object) [S_Field None ''users'' [] [] [leaf ''name'']] 0 {} = Inr 100"
    by (simp add: complexity_inner.simps complexity_step_def user_simps word_le_nat_alt collection_complexity_def
        max_entities_def get_argument_value_def checked_mul_def checked_add_def add_complexity_def and_then_def)
  show "entity_count (unat (3 :: u8)) user_ctx (TD_Object query_object) [S_Field None ''users'' [] [] [leaf ''name'']] < 2 ^ 64"
  proof -
    have "unat (3 :: u8) = Suc (Suc (Suc 0))" by simp
    then show ?thesis
      by (simp only:) (simp add: user_simps max_entities_def get_argument_value_def)
  qed
qed

text \<open>
  The bound of the theorem is needed: a query whose fields return more than $2^{64}$ entities can have a small
  complexity, because the sum for fields that are not collections wraps around. And a number of
  entities that is given by a variable counts as 100.
\<close>

abbreviation nested_users :: "i64 \<Rightarrow> i64 \<Rightarrow> selection" where
  "nested_users a b \<equiv> S_Field None ''user'' [] []
     [S_Field None ''friends'' [(''first'', SV_Int a)] []
        [S_Field None ''friends'' [(''first'', SV_Int b)] [] [leaf ''name'']]]"

lemma complexity_wraps:
  "complexity_inner user_ctx 5 (TD_Object query_object)
     [nested_users 0x7fffffffffffffff 1, nested_users 2 0] 0 {} = Inr 0"
  by (simp add: complexity_inner.simps complexity_step_def user_simps word_le_nat_alt collection_complexity_def
        max_entities_def get_argument_value_def checked_mul_def checked_add_def add_complexity_def and_then_def)

lemma variable_counts_as_100:
  "get_argument_value args ''first'' = Some (SV_Variable v) \<Longrightarrow> max_entities args = 100"
  by (simp add: max_entities_def)

section \<open>Arguments have the types of their definitions\<close>

definition argument_ok :: "query_ctx \<Rightarrow> string \<Rightarrow> input_value \<Rightarrow> r_value option \<Rightarrow> bool" where
  "argument_ok ctx field_name def v =
     (case v of
        None \<Rightarrow> \<not> is_non_null (iv_type def) \<and> iv_default def = None
      | Some w \<Rightarrow>
          if iv_name def = ''text''
          then \<exists>u. w = RV_Object [(Some field_name, u)] \<and>
                   value_has_type (api_get_named_type (qc_schema ctx)) u (iv_type def)
          else value_has_type (api_get_named_type (qc_schema ctx)) w (iv_type def))"

lemma argument_value_set_argument:
  "argument_value (set_argument n v args) m = (if m = n then Some v else argument_value args m)"
proof -
  have "argument_value (case update_first (\<lambda>(k, _). k = n) (\<lambda>(k, _). Some (k, v)) args of
          Some args' \<Rightarrow> args' | None \<Rightarrow> args @ [(n, v)]) m = (if m = n then Some v else argument_value args m)"
  proof (induction args)
    case (Cons a args)
    then show ?case
      by (cases "update_first (\<lambda>(k, _). k = n) (\<lambda>(k, _). Some (k, v)) args") (auto simp: argument_value_def)
  qed (simp add: argument_value_def)
  then show ?thesis by (simp add: set_argument_def)
qed

lemma coerce_input_value_typed:
  assumes "coerce_input_value show_f64 r v def = Inr x"
  shows "case x of None \<Rightarrow> v = None \<and> \<not> is_non_null (iv_type def) \<and> iv_default def = None
                 | Some w \<Rightarrow> value_has_type r w (iv_type def)"
  using assms coerce_value_typed
  by (auto simp: value_or_default_def split: sum.splits option.splits if_splits)

lemma coerce_argument_step_ok:
  assumes "coerce_argument_step ctx f def (args, k, errs) = (args', k', [])"
  shows "errs = [] \<and> argument_ok ctx f def (argument_value args' (iv_name def)) \<and>
    (\<forall>m. m \<noteq> iv_name def \<longrightarrow> argument_value args' m = argument_value args m)"
proof (cases "coerce_input_value (qc_show_f64 ctx) (api_get_named_type (qc_schema ctx))
    (argument_value args (iv_name def)) def")
  case (Inl e)
  with assms show ?thesis by (simp add: coerce_argument_step_def Let_def)
next
  case (Inr x)
  note typed = coerce_input_value_typed [OF Inr]
  show ?thesis
  proof (cases x)
    case None
    with assms Inr typed show ?thesis
      by (auto simp: coerce_argument_step_def Let_def argument_ok_def simp del: coerce_input_value.simps)
  next
    case (Some w)
    with assms Inr typed show ?thesis
      by (auto simp: coerce_argument_step_def Let_def argument_ok_def argument_value_set_argument robject_from_iter_def
          simp del: coerce_input_value.simps split: if_splits)
  qed
qed

lemma coerce_argument_fold_ok:
  assumes "fold (coerce_argument_step ctx f) defs (args, k, errs) = (args', k', [])" "distinct (map iv_name defs)"
  shows "errs = [] \<and> (\<forall>def \<in> set defs. argument_ok ctx f def (argument_value args' (iv_name def))) \<and>
    (\<forall>m. m \<notin> iv_name ` set defs \<longrightarrow> argument_value args' m = argument_value args m)"
  using assms
proof (induction defs arbitrary: args k errs)
  case (Cons d defs)
  obtain a k2 e where s: "coerce_argument_step ctx f d (args, k, errs) = (a, k2, e)" by (metis prod_cases3)
  with Cons.prems have IH: "e = []" "\<forall>def \<in> set defs. argument_ok ctx f def (argument_value args' (iv_name def))"
    "\<forall>m. m \<notin> iv_name ` set defs \<longrightarrow> argument_value args' m = argument_value a m"
    using Cons.IH [of a k2 e] by auto
  from coerce_argument_step_ok [OF s [unfolded IH(1)]] IH Cons.prems(2) show ?case by auto
qed simp

lemma coerced_argument_ok:
  assumes "coerce_argument_values ctx args ty field_name = Inr args'"
    and "get_argument_definitions ty field_name = Some defs" and "distinct (map iv_name defs)"
    and "def \<in> set defs"
  shows "argument_ok ctx field_name def (argument_value args' (iv_name def))"
proof -
  obtain a k e where f: "fold (coerce_argument_step ctx field_name) defs (args, 0, []) = (a, k, e)" by (metis prod_cases3)
  have e: "e = []" and a: "args' = a \<or> args' = filter (\<lambda>(name, _). list_ex (\<lambda>def. iv_name def = name) defs) a"
    using assms(1,2) f by (auto simp: coerce_argument_values_def Let_def split: if_splits)
  have "argument_value (filter (\<lambda>(name, _). list_ex (\<lambda>def. iv_name def = name) defs) a) (iv_name def) =
      argument_value a (iv_name def)" for a :: "(string \<times> r_value) list"
    using assms(4) by (induction a) (auto simp: argument_value_def list_ex_iff)
  with a have "argument_value args' (iv_name def) = argument_value a (iv_name def)" by auto
  with coerce_argument_fold_ok [OF f [unfolded e] assms(3)] assms(4) show ?thesis by simp
qed

text \<open>
  When the arguments of a field are accepted, every argument that the schema defines for the field
  has a value of its type, or is absent, has no default and may be null. (The argument of a full text
  search is wrapped in an object under the name of the field.)
\<close>

theorem coerced_arguments_typed:
  assumes "coerce_argument_values ctx args ty field_name = Inr args'"
    and "get_argument_definitions ty field_name = Some defs" and "distinct (map iv_name defs)"
    and "def \<in> set defs"
  shows "argument_ok ctx field_name def (argument_value args' (iv_name def))"
  using assms by (rule coerced_argument_ok)

theorem coerced_arguments_typed_witness:
  "argument_ok user_ctx ''users'' first_argument
     (argument_value [(''first'', RV_Int 7), (''skip'', RV_Int 0)] ''first'')"
proof -
  have "coerce_argument_values user_ctx [(''bogus'', RV_Null), (''first'', RV_Int 7)] (OI_Object query_object) ''users'' =
      Inr [(''first'', RV_Int 7), (''skip'', RV_Int 0)]"
    by (simp add: coerce_argument_values_def get_argument_definitions_def user_simps coerce_argument_step_def Let_def
        collection_arguments_for_named_type_def skip_argument_def first_argument_def input_value_of_def
        argument_value_def value_or_default_def coerce_scalar_def set_argument_def list_ex_iff)
  from coerced_arguments_typed [OF this, of "collection_arguments_for_named_type ''User''" first_argument]
  show ?thesis
    by (simp add: get_argument_definitions_def user_simps collection_arguments_for_named_type_def
        skip_argument_def first_argument_def input_value_of_def)
qed

section \<open>Expanded selection sets are well-formed\<close>

lemma exec_bind_Inr: "exec_bind m f = Some (Inr y) \<longleftrightarrow> (\<exists>x. m = Some (Inr x) \<and> f x = Some (Inr y))"
  by (auto simp: exec_bind_def split: option.splits sum.splits)

lemma lift_error_Inr [simp]: "lift_error r = Some (Inr x) \<longleftrightarrow> r = Inr x"
  by (cases r) (auto simp: lift_error_def)

lemma exec_fold_invariant:
  assumes "exec_fold f xs s = Some (Inr r)" "I s"
    and "\<And>x s s'. x \<in> set xs \<Longrightarrow> I s \<Longrightarrow> f x s = Some (Inr s') \<Longrightarrow> I s'"
  shows "I r"
  using assms
proof (induction xs arbitrary: s)
  case (Cons x xs)
  then obtain s' where "f x s = Some (Inr s')" "exec_fold f xs s' = Some (Inr r)" by (auto simp: exec_bind_Inr)
  with Cons show ?case by (metis list.set_intros)
qed simp

lemma wf_set_Nil [simp]: "wf_set []"
  by (simp add: wf_set_def)

lemma expand_field_wf:
  assumes "expand_field recurse n ctx al name args dirs items ty = Some (Inr (Some f))"
    and "\<And>ts ty sels. recurse items ts ty = Some (Inr sels) \<Longrightarrow> wf_set sels"
  shows "wf_field f"
proof -
  have sub: "wf_set sels" if "expand_sub_selection recurse n ctx ft items = Some (Inr (Some sels))" for ft sels
    using that assms(2)
    by (auto simp: expand_sub_selection_def Let_def exec_bind_Inr split: option.splits if_splits)
  show ?thesis
    using assms(1) sub
    by (auto simp: expand_field_def exec_bind_Inr split_beta Let_def wf_field_iff split: if_splits option.splits)
qed

lemma expand_fragment_wf:
  assumes "expand_fragment recurse n ctx dirs c ts items ty newset = Some (Inr r)" "wf_set newset"
    and "\<And>ts ty sels. recurse items ts ty = Some (Inr sels) \<Longrightarrow> wf_set sels"
  shows "wf_set r"
  using assms
  by (auto simp: expand_fragment_def exec_bind_Inr split_beta Let_def split: if_splits option.splits dest: merge_set_wf)

lemma expand_selection_wf:
  assumes "expand_selection recurse n ctx ts ty sel (visited, newset) = Some (Inr st)" "wf_set newset"
    and r: "\<And>items ts ty sels. recurse items ts ty = Some (Inr sels) \<Longrightarrow> wf_set sels"
  shows "wf_set (snd st)"
proof (cases sel)
  case (S_Field al name args dirs items)
  with assms(1) obtain f where f: "expand_field recurse n ctx al name args dirs items ty = Some (Inr f)"
    and st: "case f of None \<Rightarrow> st = (visited, newset) | Some f' \<Rightarrow> \<exists>s. set_push newset f' = Inr s \<and> st = (visited, s)"
    by (auto simp: expand_selection_def exec_bind_Inr split: option.splits)
  then show ?thesis
    using expand_field_wf [OF _ r] set_push_wf assms(2) by (cases f) fastforce+
next
  case (S_Spread name dirs)
  with assms(1,2) show ?thesis
    using expand_fragment_wf [OF _ assms(2) r]
    by (auto simp: expand_selection_def exec_bind_Inr lift_error_def split: option.splits if_splits)
next
  case (S_Inline c dirs items)
  with assms(1) show ?thesis
    using expand_fragment_wf [OF _ assms(2) r] by (auto simp: expand_selection_def exec_bind_Inr)
qed

text \<open>
  In the selection set that a query is expanded into, the fields for one object type have different
  response keys at every level: repeated fields and fields of overlapping fragments have been merged,
  and the result of the query is an object with one entry per field.
\<close>

theorem expanded_selections_well_formed:
  "expand_selection_set n ctx items ts ty = Some (Inr sels) \<Longrightarrow> wf_set sels"
proof (induction n arbitrary: items ts ty sels)
  case (Suc n)
  then obtain types vis where
    f: "exec_fold (expand_selection (expand_selection_set n ctx) (Suc n) ctx ts ty) items ({}, set_new types) = Some (Inr (vis, sels))"
    by (auto simp: exec_bind_Inr)
  have "wf_set (snd (vis, sels))"
    by (rule exec_fold_invariant [OF f, where I = "\<lambda>st. wf_set (snd st)"])
      (auto intro: Suc.IH expand_selection_wf)
  then show ?case by simp
qed simp

theorem expanded_selections_well_formed_witness:
  "\<exists>sels. expand_selection_set 4 user_ctx
      [S_Field None ''user'' [] [] [leaf ''name''], S_Field None ''user'' [] [] [leaf ''__typename'']]
      OTS_Any (OI_Object query_object) = Some (Inr sels) \<and> wf_set sels"
proof -
  have "case expand_selection_set 4 user_ctx
      [S_Field None ''user'' [] [] [leaf ''name''], S_Field None ''user'' [] [] [leaf ''__typename'']]
      OTS_Any (OI_Object query_object) of Some (Inr _) \<Rightarrow> True | _ \<Rightarrow> False"
    by code_simp
  then show ?thesis
    using expanded_selections_well_formed by (auto split: option.splits sum.splits)
qed

section \<open>Grouping by block constraint\<close>

lemma set_push_fields:
  assumes "set_push sels f = Inr r" "fields_for sels t = Inr fs" "response_key f \<notin> response_key ` set fs"
  shows "fields_for r t = Inr (fs @ [f])"
proof -
  have m: "map (\<lambda>(t, flds). case merge_field flds f of Inl e \<Rightarrow> Inl e | Inr flds' \<Rightarrow> Inr (t, flds')) sels = map Inr r"
    using assms(1) by (simp add: set_push_def collect_results_Inr_iff)
  have new: "merge_field fs f = Inr (fs @ [f])"
    using assms(3) by (auto simp: merge_field.simps list_ex_iff image_iff)
  from m assms(2) show ?thesis
  proof (induction sels arbitrary: r)
    case (Cons e sels)
    obtain t' fs' where e: "e = (t', fs')" by force
    with Cons.prems obtain fs'' r' where r: "merge_field fs' f = Inr fs''" "r = (t', fs'') # r'"
      "map (\<lambda>(t, flds). case merge_field flds f of Inl e \<Rightarrow> Inl e | Inr flds' \<Rightarrow> Inr (t, flds')) sels = map Inr r'"
      by (cases r) (auto split: sum.splits)
    show ?case
    proof (cases "obj_name t' = obj_name t")
      case True
      with Cons.prems(2) e new r show ?thesis by (simp add: fields_for_def)
    next
      case False
      with Cons.prems(2) e have "fields_for sels t = Inr fs" by (simp add: fields_for_def)
      from Cons.IH [OF r(3) this] False r(2) show ?thesis by (simp add: fields_for_def)
    qed
  qed (simp add: fields_for_def)
qed

lemma fields_for_empty_from: "fields_for sels t = Inr fs \<Longrightarrow> fields_for (empty_from sels) t = Inr []"
  by (induction sels) (auto simp: fields_for_def empty_from_def split: option.splits if_splits)

text \<open>A group of fields and the entry for it.\<close>

definition group_ok ::
    "(string \<Rightarrow> bytes option) \<Rightarrow> (string \<Rightarrow> int option) \<Rightarrow> object_type \<Rightarrow> a_field list \<Rightarrow> constraint_group \<Rightarrow> bool" where
  "group_ok h i t flds g =
     (case g of (bc, sels, policy) \<Rightarrow>
        flds \<noteq> [] \<and> fields_for sels t = Inr flds \<and> (\<forall>f \<in> set flds. field_constraint h i f = Inr bc) \<and>
        (policy = EP_Deny \<longleftrightarrow> (\<exists>f \<in> set flds. field_error_policy f = Inr EP_Deny)))"

definition groups_ok ::
    "(string \<Rightarrow> bytes option) \<Rightarrow> (string \<Rightarrow> int option) \<Rightarrow> object_type \<Rightarrow> a_field list \<Rightarrow> constraint_group list \<Rightarrow> bool" where
  "groups_ok h i t flds bcs \<longleftrightarrow>
     (\<exists>groups. concat groups = flds \<and> list_all2 (group_ok h i t) groups bcs) \<and> distinct_adj (map fst bcs)"

lemma group_extend:
  assumes "groups_ok h i t pre (bs @ [(bc, sels, p)])" "set_push sels f = Inr sels'"
    and "field_constraint h i f = Inr bc" "field_error_policy f = Inr policy"
    and "response_key f \<notin> response_key ` set pre"
  shows "groups_ok h i t (pre @ [f]) (bs @ [(bc, sels', if policy = EP_Deny then EP_Deny else p)])"
proof -
  obtain gs g where g: "concat gs @ g = pre" "list_all2 (group_ok h i t) gs bs" "group_ok h i t g (bc, sels, p)"
    using assms(1) unfolding groups_ok_def by (auto simp: list_all2_append2 list_all2_Cons2)
  then have "response_key f \<notin> response_key ` set g" using assms(5) by auto
  with g(3) assms(2-4) have "group_ok h i t (g @ [f]) (bc, sels', if policy = EP_Deny then EP_Deny else p)"
    using set_push_fields by (auto simp: group_ok_def)
  then have "list_all2 (group_ok h i t) (gs @ [g @ [f]]) (bs @ [(bc, sels', if policy = EP_Deny then EP_Deny else p)])"
    using g(2) by (intro list_all2_appendI) simp_all
  moreover have "concat (gs @ [g @ [f]]) = pre @ [f]" using g(1) by simp
  moreover have "distinct_adj (map fst (bs @ [(bc, sels', if policy = EP_Deny then EP_Deny else p)]))"
    using assms(1) by (simp add: groups_ok_def)
  ultimately show ?thesis unfolding groups_ok_def by blast
qed

lemma group_new:
  assumes "groups_ok h i t pre bs" "set_push (empty_from all_sels) f = Inr sels'"
    and "field_constraint h i f = Inr bc" "field_error_policy f = Inr policy"
    and "fields_for all_sels t = Inr flds" "bs \<noteq> [] \<longrightarrow> fst (last bs) \<noteq> bc"
  shows "groups_ok h i t (pre @ [f]) (bs @ [(bc, sels', policy)])"
proof -
  obtain gs where gs: "concat gs = pre" "list_all2 (group_ok h i t) gs bs" "distinct_adj (map fst bs)"
    using assms(1) by (auto simp: groups_ok_def)
  have "group_ok h i t [f] (bc, sels', policy)"
    using set_push_fields [OF assms(2) fields_for_empty_from [OF assms(5)]] assms(3,4)
    by (auto simp: group_ok_def)
  then have "list_all2 (group_ok h i t) (gs @ [[f]]) (bs @ [(bc, sels', policy)])"
    using gs(2) by (intro list_all2_appendI) simp_all
  moreover have "concat (gs @ [[f]]) = pre @ [f]" using gs(1) by simp
  moreover have "distinct_adj (map fst (bs @ [(bc, sels', policy)]))"
    using gs(3) assms(6) by (cases bs rule: rev_cases) (auto simp: distinct_adj_append_iff)
  ultimately show ?thesis unfolding groups_ok_def by blast
qed

lemma block_constraint_fold:
  assumes "try_fold (block_constraint_step h i all_sels) rest (bcs, prev) = Inr (bcs', prev')"
    and "groups_ok h i t pre bcs" "prev = (if bcs = [] then None else Some (fst (last bcs)))"
    and "distinct (map response_key (pre @ rest))" "fields_for all_sels t = Inr flds"
  shows "groups_ok h i t (pre @ rest) bcs'"
  using assms
proof (induction rest arbitrary: pre bcs prev)
  case (Cons f rest)
  obtain bcs2 prev2 where s: "block_constraint_step h i all_sels f (bcs, prev) = Inr (bcs2, prev2)"
    "try_fold (block_constraint_step h i all_sels) rest (bcs2, prev2) = Inr (bcs', prev')"
    using Cons.prems(1) by (auto split: sum.splits)
  obtain bc policy where bc: "field_constraint h i f = Inr bc" "field_error_policy f = Inr policy"
    using s(1) by (auto simp: block_constraint_step_def and_then_Inr)
  have key: "response_key f \<notin> response_key ` set pre" using Cons.prems(4) by auto
  have "groups_ok h i t (pre @ [f]) bcs2 \<and> prev2 = (if bcs2 = [] then None else Some (fst (last bcs2)))"
  proof (cases "prev = Some bc")
    case True
    then obtain bs bc' sels p where l: "bcs = bs @ [(bc', sels, p)]" "bc' = bc"
      using Cons.prems(3) by (cases bcs rule: rev_cases) auto
    with s(1) True bc obtain sels' where "set_push sels f = Inr sels'"
      "bcs2 = bs @ [(bc, sels', if policy = EP_Deny then EP_Deny else p)]" "prev2 = Some bc"
      by (cases bs) (auto simp: block_constraint_step_def and_then_def split: sum.splits list.splits)
    then show ?thesis using group_extend [OF _ _ bc key] Cons.prems(2) l by simp
  next
    case False
    with s(1) bc obtain sels' where "set_push (empty_from all_sels) f = Inr sels'"
      "bcs2 = bcs @ [(bc, sels', policy)]" "prev2 = Some bc"
      by (auto simp: block_constraint_step_def and_then_def split: sum.splits)
    then show ?thesis
      using group_new [OF Cons.prems(2) _ bc Cons.prems(5)] False Cons.prems(3) by (auto split: if_splits)
  qed
  with Cons.IH [OF s(2), of "pre @ [f]"] Cons.prems(4,5) show ?case by simp
qed simp

text \<open>
  The fields of a query are split into groups, in the order in which they appear: the groups put
  one after the other are the fields of the query, the fields of a group have the group's block
  constraint, two neighbouring groups have different constraints, and the policy of a group denies errors
  exactly when one of its fields does.
\<close>

theorem block_constraint_groups:
  assumes "block_constraints h i q = Inr bcs"
    and "fields_for (pq_selection_set q) (api_query_type (pq_schema q)) = Inr flds"
    and "wf_set (pq_selection_set q)"
  shows "groups_ok h i (api_query_type (pq_schema q)) flds bcs"
proof -
  have "distinct (map response_key flds)"
    using assms(2,3) find_Some_mem by (fastforce simp: fields_for_def wf_set_def wf_fields_def split: option.splits)
  moreover obtain prev where
    "try_fold (block_constraint_step h i (pq_selection_set q)) flds ([], None) = Inr (bcs, prev)"
    using assms(1,2) by (auto simp: block_constraints_def split: sum.splits)
  ultimately show ?thesis
    using block_constraint_fold [of h i "pq_selection_set q" flds "[]" None bcs prev "api_query_type (pq_schema q)" "[]" flds]
      assms(2) by (simp add: groups_ok_def)
qed

definition two_fields :: "a_field list" where
  "two_fields =
     [A_Field None ''user'' [(''block'', RV_Object [(Some ''number'', RV_Int 5)])] [] [],
      A_Field (Some ''b'') ''user'' [] [] []]"

definition two_field_query :: prepared_query where
  "two_field_query =
     \<lparr> pq_schema = user_schema, pq_selection_set = [(query_object, two_fields)], pq_kind = QK_Query \<rparr>"

theorem block_constraint_groups_witness:
  "groups_ok (\<lambda>_. None) (\<lambda>_. None) query_object two_fields
     [(BC_Number 5, [(query_object, [two_fields ! 0])], EP_Deny), (BC_Latest, [(query_object, [two_fields ! 1])], EP_Deny)]"
proof -
  have "block_constraints (\<lambda>_. None) (\<lambda>_. None) two_field_query =
      Inr [(BC_Number 5, [(query_object, [two_fields ! 0])], EP_Deny), (BC_Latest, [(query_object, [two_fields ! 1])], EP_Deny)]"
    by (simp add: block_constraints_def two_field_query_def two_fields_def user_schema_def fields_for_def
        block_constraint_step_def and_then_def field_constraint_def argument_value_def block_constraint_try_from_def
        robject_get_def has_key_def i32_try_from_value_def field_error_policy_def set_push_def empty_from_def
        merge_field.simps)
  moreover have "fields_for (pq_selection_set two_field_query) (api_query_type (pq_schema two_field_query)) = Inr two_fields"
    by (simp add: fields_for_def two_field_query_def user_schema_def)
  moreover have "wf_set (pq_selection_set two_field_query)"
    by (simp add: two_field_query_def wf_set_def wf_fields_def two_fields_def response_key_def)
  ultimately have "groups_ok (\<lambda>_. None) (\<lambda>_. None) (api_query_type (pq_schema two_field_query)) two_fields
     [(BC_Number 5, [(query_object, [two_fields ! 0])], EP_Deny), (BC_Latest, [(query_object, [two_fields ! 1])], EP_Deny)]"
    by (rule block_constraint_groups)
  then show ?thesis by (simp add: two_field_query_def user_schema_def)
qed

end
