(* ===== verification/Entity_Query.thy ===== *)
theory Entity_Query
  imports Query_Expansion Store_Types "HOL-Library.Sublist"
begin

text \<open>
  \<open>graphql/src/store/query.rs\<close>: the query for entities that the store runs is built from the arguments of
  a GraphQL field: the range from \<open>first\<close> and \<open>skip\<close>, the filter from \<open>where\<close> or \<open>text\<close>, the order from
  \<open>orderBy\<close> and \<open>orderDirection\<close>.

  The arguments have been coerced, and the code relies on it: it panics on an argument of another type.
  The lemmas show that it is right to do so.
\<close>

section \<open>Ranges\<close>

definition range_argument ::
    "a_field \<Rightarrow> string \<Rightarrow> int \<Rightarrow> u32 \<Rightarrow> u32 \<Rightarrow> string \<Rightarrow> query_execution_error + u32" where
  "range_argument f name lowest max_value default_value unreachable =
     (case argument_value (af_arguments f) name of
        Some (RV_Int n) \<Rightarrow>
          if lowest \<le> sint n \<and> sint n \<le> uint max_value then Inr (ucast n)
          else Inl (RangeArgumentsError name max_value n)
      | Some RV_Null \<Rightarrow> Inr default_value
      | None \<Rightarrow> Inr default_value
      | _ \<Rightarrow> Inl (QE_Abort unreachable))"

definition build_range :: "a_field \<Rightarrow> u32 \<Rightarrow> u32 \<Rightarrow> query_execution_error + entity_range" where
  "build_range f max_first max_skip =
     and_then (range_argument f ''first'' 1 max_first 100 ''first is an Int with a default value'') (\<lambda>first.
     and_then (range_argument f ''skip'' 0 max_skip 0 ''skip is an Int with a default value'') (\<lambda>skip.
       Inr \<lparr> range_first = Some first, range_skip = skip \<rparr>))"

section \<open>Filters\<close>

record filter_env =
  fe_lib :: scalar_lib
  fe_schema :: api_schema
  fe_introspection :: s_document
  fe_disable_bool_filters :: bool
  fe_disable_child_sorting :: bool
  fe_i32_from_str :: "string \<Rightarrow> int option"

abbreviation env_object_or_interface :: "filter_env \<Rightarrow> string \<Rightarrow> object_or_interface option" where
  "env_object_or_interface env name \<equiv> api_object_or_interface (fe_introspection env) (fe_schema env) name"

definition build_fulltext_filter_from_object :: "r_object \<Rightarrow> query_execution_error + entity_filter option" where
  "build_fulltext_filter_from_object obj =
     (case robject_iter obj of
        (key, RV_String s) # _ \<Rightarrow> Inr (Some (F_Equal key (V_String s)))
      | _ \<Rightarrow> Inl FulltextQueryRequiresFilter)"

definition parse_change_block_filter :: "filter_env \<Rightarrow> r_value \<Rightarrow> query_execution_error + block_number" where
  "parse_change_block_filter env v =
     (case v of
        RV_Object obj \<Rightarrow>
          (case Option.bind (robject_get obj ''number_gte'') (i32_try_from_value (fe_i32_from_str env)) of
             None \<Rightarrow> Inl InvalidFilterError
           | Some n \<Rightarrow> Inr n)
      | _ \<Rightarrow> Inl InvalidFilterError)"

text \<open>The variant of a value, which \<open>mem::discriminant\<close> compares.\<close>

fun value_discriminant :: "store_value \<Rightarrow> nat" where
  "value_discriminant (V_String _) = 0"
| "value_discriminant (V_Int _) = 1"
| "value_discriminant (V_BigDecimal _) = 2"
| "value_discriminant (V_Bool _) = 3"
| "value_discriminant (V_List _) = 4"
| "value_discriminant V_Null = 5"
| "value_discriminant (V_Bytes _) = 6"
| "value_discriminant (V_BigInt _) = 7"

definition list_values :: "store_value \<Rightarrow> string \<Rightarrow> query_execution_error + store_value list" where
  "list_values v filter_type =
     (case v of
        V_List [] \<Rightarrow> Inr []
      | V_List (x # xs) \<Rightarrow>
          collect_results
            (map (\<lambda>y. if value_discriminant x = value_discriminant y then Inr y
                      else Inl (ListTypesError filter_type [x, y])) (x # xs))
      | _ \<Rightarrow> Inl (ListFilterError filter_type))"

definition build_entity_filter ::
    "string \<Rightarrow> filter_op \<Rightarrow> store_value \<Rightarrow> query_execution_error + entity_filter" where
  "build_entity_filter field_name operation v =
     (case operation of
        FO_Not \<Rightarrow> Inr (F_Not field_name v)
      | FO_GreaterThan \<Rightarrow> Inr (F_GreaterThan field_name v)
      | FO_LessThan \<Rightarrow> Inr (F_LessThan field_name v)
      | FO_GreaterOrEqual \<Rightarrow> Inr (F_GreaterOrEqual field_name v)
      | FO_LessOrEqual \<Rightarrow> Inr (F_LessOrEqual field_name v)
      | FO_In \<Rightarrow> and_then (list_values v ''_in'') (\<lambda>vs. Inr (F_In field_name vs))
      | FO_NotIn \<Rightarrow> and_then (list_values v ''_not_in'') (\<lambda>vs. Inr (F_NotIn field_name vs))
      | FO_Contains \<Rightarrow> Inr (F_Contains field_name v)
      | FO_ContainsNoCase \<Rightarrow> Inr (F_ContainsNoCase field_name v)
      | FO_NotContains \<Rightarrow> Inr (F_NotContains field_name v)
      | FO_NotContainsNoCase \<Rightarrow> Inr (F_NotContainsNoCase field_name v)
      | FO_StartsWith \<Rightarrow> Inr (F_StartsWith field_name v)
      | FO_StartsWithNoCase \<Rightarrow> Inr (F_StartsWithNoCase field_name v)
      | FO_NotStartsWith \<Rightarrow> Inr (F_NotStartsWith field_name v)
      | FO_NotStartsWithNoCase \<Rightarrow> Inr (F_NotStartsWithNoCase field_name v)
      | FO_EndsWith \<Rightarrow> Inr (F_EndsWith field_name v)
      | FO_EndsWithNoCase \<Rightarrow> Inr (F_EndsWithNoCase field_name v)
      | FO_NotEndsWith \<Rightarrow> Inr (F_NotEndsWith field_name v)
      | FO_NotEndsWithNoCase \<Rightarrow> Inr (F_NotEndsWithNoCase field_name v)
      | FO_Equal \<Rightarrow> Inr (F_Equal field_name v)
      | _ \<Rightarrow> Inl (QE_Abort ''unreachable''))"

text \<open>
  The attribute that links a child to its parent: for a derived field the field it is derived from,
  otherwise the field itself.
\<close>

definition child_attribute :: "object_or_interface \<Rightarrow> s_field \<Rightarrow> string \<Rightarrow> string option" where
  "child_attribute child_entity f field_name =
     (if is_derived (fld_directives f) then map_option fld_name (get_derived_from_field child_entity f)
      else Some field_name)"

definition option_error :: "query_execution_error \<Rightarrow> 'a option \<Rightarrow> query_execution_error + 'a" where
  "option_error e m = (case m of None \<Rightarrow> Inl e | Some x \<Rightarrow> Inr x)"

definition not_implemented :: query_execution_error where
  "not_implemented = AbstractTypeError ''Interface is not implemented by any types''"

text \<open>\<open>recurse\<close> builds the filter for the fields of the child.\<close>

definition build_child_filter_from_object ::
    "(object_or_interface \<Rightarrow> query_execution_error + entity_filter list) \<Rightarrow> filter_env \<Rightarrow> object_or_interface \<Rightarrow>
     string \<Rightarrow> query_execution_error + entity_filter" where
  "build_child_filter_from_object recurse env entity field_name =
     and_then (option_error InvalidFilterError (ooi_field entity field_name)) (\<lambda>f.
     let type_name' = get_base_type (fld_type f) in
     and_then (option_error InvalidFilterError (env_object_or_interface env type_name')) (\<lambda>child_entity.
     and_then (recurse child_entity) (\<lambda>fs.
     and_then (option_error InvalidFilterError (child_attribute child_entity f field_name)) (\<lambda>attr.
       let derived = is_derived (fld_directives f) in
       if ooi_is_interface child_entity then
         and_then (option_error not_implemented (ooi_object_types (api_sch (fe_schema env)) child_entity)) (\<lambda>ts.
           Inr (F_Or (map (\<lambda>t. F_Child attr (obj_name t) (F_And fs) derived) ts)))
       else if ooi_is_interface entity then
         and_then (option_error not_implemented (ooi_object_types (api_sch (fe_schema env)) entity)) (\<lambda>ts.
         and_then (collect_results (map
           (\<lambda>t. and_then (option_error InvalidFilterError (object_field t field_name)) (\<lambda>f'.
                and_then (option_error InvalidFilterError (child_attribute child_entity f' field_name)) (\<lambda>attr'.
                  Inr (F_Child attr' (ooi_name child_entity) (F_And fs) (is_derived (fld_directives f')))))) ts))
           (\<lambda>children. Inr (F_Or children)))
       else Inr (F_Child attr type_name' (F_And fs) derived)))))"

definition bool_filters_disabled :: query_execution_error where
  "bool_filters_disabled = NotSupported ''Boolean filters are not supported''"

definition entity_field :: "object_or_interface \<Rightarrow> string \<Rightarrow> query_execution_error + s_field" where
  "entity_field entity name = option_error (EntityFieldError (ooi_name entity) name) (sast_get_field entity name)"

text \<open>
  The lists under \<open>and\<close> and \<open>or\<close> are collected from all the entries of the object, not only from the entry
  at hand.
\<close>

lemma list_item_size: "v \<in> set vs \<Longrightarrow> size v < size (RV_List vs)"
  by (auto simp: less_Suc_eq_le size_list_estimation')

function build_filter_from_object ::
      "filter_env \<Rightarrow> object_or_interface \<Rightarrow> r_object \<Rightarrow> query_execution_error + entity_filter list"
  and build_list_filter_from_object ::
      "filter_env \<Rightarrow> object_or_interface \<Rightarrow> r_object \<Rightarrow> query_execution_error + entity_filter list"
  and build_list_filter_from_value ::
      "filter_env \<Rightarrow> object_or_interface \<Rightarrow> r_value \<Rightarrow> query_execution_error + entity_filter list"
where
  "build_filter_from_object env entity obj =
     collect_results (map
       (\<lambda>(key, v).
          if key = ''_change_block'' then map_sum id F_ChangeBlockGte (parse_change_block_filter env v)
          else
            let (field_name, op) = parse_field_as_filter key in
            case op of
              FO_And \<Rightarrow>
                if fe_disable_bool_filters env then Inl bool_filters_disabled
                else map_sum id F_And (build_list_filter_from_object env entity obj)
            | FO_Or \<Rightarrow>
                if fe_disable_bool_filters env then Inl bool_filters_disabled
                else map_sum id F_Or (build_list_filter_from_object env entity obj)
            | FO_Child \<Rightarrow>
                (case v of
                   RV_Object o' \<Rightarrow>
                     build_child_filter_from_object (\<lambda>child. build_filter_from_object env child o') env entity field_name
                 | _ \<Rightarrow>
                     and_then (entity_field entity field_name) (\<lambda>f.
                       Inl (QE_Value (AttributeTypeError v (fld_type f)))))
            | _ \<Rightarrow>
                and_then (entity_field entity field_name) (\<lambda>f.
                and_then (map_sum QE_Value id (from_query_value (fe_lib env) v (fld_type f))) (\<lambda>store_value.
                  build_entity_filter field_name op store_value)))
       (robject_iter obj))"
| "build_list_filter_from_object env entity obj =
     map_sum id concat (collect_results (map (\<lambda>(_, v). build_list_filter_from_value env entity v) (robject_iter obj)))"
| "build_list_filter_from_value env entity v =
     (case v of
        RV_List items \<Rightarrow>
          collect_results (map
            (\<lambda>item. case item of
               RV_Object o' \<Rightarrow> map_sum id F_And (build_filter_from_object env entity o')
             | _ \<Rightarrow> Inl InvalidFilterError) items)
      | _ \<Rightarrow> Inl InvalidFilterError)"
  by pat_completeness auto
termination
  by (relation "measure (\<lambda>x. case x of
      Inl (env, e, obj) \<Rightarrow> 3 * size (RV_Object obj) + 2
    | Inr (Inl (env, e, obj)) \<Rightarrow> 3 * size (RV_Object obj) + 1
    | Inr (Inr (env, e, v)) \<Rightarrow> 3 * size v)")
    (auto simp del: r_value.size dest!: robject_iter_size list_item_size)

declare build_filter_from_object.simps [simp del] build_list_filter_from_object.simps [simp del]
  build_list_filter_from_value.simps [simp del]

definition build_filter ::
    "filter_env \<Rightarrow> object_or_interface \<Rightarrow> a_field \<Rightarrow> query_execution_error + entity_filter option" where
  "build_filter env entity f =
     (case argument_value (af_arguments f) ''where'' of
        Some (RV_Object obj) \<Rightarrow> map_sum id (\<lambda>fs. Some (F_And fs)) (build_filter_from_object env entity obj)
      | Some RV_Null \<Rightarrow> Inr None
      | None \<Rightarrow>
          (case argument_value (af_arguments f) ''text'' of
             Some (RV_Object obj) \<Rightarrow> build_fulltext_filter_from_object obj
           | None \<Rightarrow> Inr None
           | _ \<Rightarrow> Inl InvalidFilterError)
      | _ \<Rightarrow> Inl InvalidFilterError)"

section \<open>Orders\<close>

text \<open>\<open>str::split("__")\<close>.\<close>

fun split_dunder :: "string \<Rightarrow> string list" where
  "split_dunder [] = [[]]"
| "split_dunder (c # cs) =
     (if c = CHR ''_'' \<and> take 1 cs = ''_'' then [] # split_dunder (drop 1 cs)
      else case split_dunder cs of [] \<Rightarrow> [[c]] | p # ps \<Rightarrow> (c # p) # ps)"

datatype order_by_value = OBV_Direct string | OBV_Child string string

definition parse_order_by :: "string \<Rightarrow> query_execution_error + order_by_value" where
  "parse_order_by enum_value =
     (case split_dunder enum_value of
        [] \<Rightarrow> Inl (QE_Value (ValueParseError ''Invalid order value''))
      | [first] \<Rightarrow> Inr (OBV_Direct first)
      | first # second # _ \<Rightarrow> Inr (OBV_Child first second))"

datatype order_child =
    OrderChild_Object entity_type string bool
  | OrderChild_Interface "entity_type list" string bool

definition build_fulltext_order_by_from_object :: "r_object \<Rightarrow> query_execution_error + (string \<times> value_type) option" where
  "build_fulltext_order_by_from_object obj =
     (case robject_iter obj of
        (key, RV_String _) # _ \<Rightarrow> Inr (Some (key, VT_String))
      | _ \<Rightarrow> Inl FulltextQueryRequiresFilter)"

definition order_by_direct ::
    "object_or_interface \<Rightarrow> string \<Rightarrow> query_execution_error + (string \<times> value_type \<times> order_child option) option" where
  "order_by_direct entity name =
     and_then (entity_field entity name) (\<lambda>f.
     and_then (option_error (OrderByNotSupportedError (ooi_name entity) name) (get_field_value_type (fld_type f)))
       (\<lambda>vt. Inr (Some (name, vt, None))))"

definition order_by_child_of ::
    "filter_env \<Rightarrow> object_or_interface \<Rightarrow> string \<Rightarrow> string \<Rightarrow>
     query_execution_error + (string \<times> value_type \<times> order_child option) option" where
  "order_by_child_of env entity parent_field_name child_field_name =
     (if ooi_is_interface entity then Inl (OrderByNotSupportedError (ooi_name entity) parent_field_name)
      else
        and_then (entity_field entity parent_field_name) (\<lambda>f.
        let base_type = get_base_type (fld_type f); derived = is_derived (fld_directives f) in
        and_then (option_error (NamedTypeError base_type) (env_object_or_interface env base_type)) (\<lambda>child_entity.
        and_then (entity_field child_entity child_field_name) (\<lambda>child_field.
        and_then (option_error (EntityFieldError (ooi_name entity) (fld_name f))
                    (child_attribute child_entity f parent_field_name)) (\<lambda>join_attribute'.
        and_then
          (case child_entity of
             OI_Object _ \<Rightarrow> Inr (OrderChild_Object base_type join_attribute' derived)
           | OI_Interface intf \<Rightarrow>
               and_then (option_error (AbstractTypeError ''Interface not implemented by any object type'')
                           (map_of (sch_types_for_interface (api_sch (fe_schema env))) (intf_name intf)))
                 (\<lambda>ts. Inr (OrderChild_Interface (map obj_name ts) join_attribute' derived))) (\<lambda>child.
        and_then (option_error (OrderByNotSupportedError (ooi_name child_entity) child_field_name)
                    (get_field_value_type (fld_type child_field)))
          (\<lambda>vt. Inr (Some (child_field_name, vt, Some child)))))))))"

definition build_order_by ::
    "filter_env \<Rightarrow> object_or_interface \<Rightarrow> a_field \<Rightarrow>
     query_execution_error + (string \<times> value_type \<times> order_child option) option" where
  "build_order_by env entity f =
     (case argument_value (af_arguments f) ''orderBy'' of
        Some (RV_Enum name) \<Rightarrow>
          and_then (parse_order_by name) (\<lambda>ob.
            case ob of
              OBV_Direct name' \<Rightarrow> order_by_direct entity name'
            | OBV_Child parent child \<Rightarrow> order_by_child_of env entity parent child)
      | _ \<Rightarrow>
          (case argument_value (af_arguments f) ''text'' of
             Some (RV_Object obj) \<Rightarrow>
               map_sum id (map_option (\<lambda>(attr, vt). (attr, vt, None))) (build_fulltext_order_by_from_object obj)
           | None \<Rightarrow> Inr None
           | _ \<Rightarrow> Inl InvalidFilterError))"

datatype order_direction = OD_Ascending | OD_Descending

definition build_order_direction :: "a_field \<Rightarrow> order_direction" where
  "build_order_direction f =
     (case argument_value (af_arguments f) ''orderDirection'' of
        Some (RV_Enum name) \<Rightarrow> if name = ''desc'' then OD_Descending else OD_Ascending
      | _ \<Rightarrow> OD_Ascending)"

fun entity_order_child :: "string \<Rightarrow> order_child \<Rightarrow> order_by_child" where
  "entity_order_child attr (OrderChild_Object t join derived) =
     OC_Object \<lparr> sort_by_attribute = attr, join_attribute = join, ob_derived = derived \<rparr> t"
| "entity_order_child attr (OrderChild_Interface ts join derived) =
     OC_Interface \<lparr> sort_by_attribute = attr, join_attribute = join, ob_derived = derived \<rparr> ts"

definition build_order ::
    "filter_env \<Rightarrow> (string \<times> value_type \<times> order_child option) option \<Rightarrow> order_direction \<Rightarrow>
     query_execution_error + entity_order" where
  "build_order env order_by direction =
     (case order_by of
        None \<Rightarrow> Inr Order_Default
      | Some (attr, vt, None) \<Rightarrow>
          Inr (if direction = OD_Ascending then Order_Ascending attr vt else Order_Descending attr vt)
      | Some (attr, _, Some child) \<Rightarrow>
          if fe_disable_child_sorting env
          then Inl (NotSupported ''Sorting by child attributes is not supported'')
          else Inr (if direction = OD_Ascending then Order_ChildAscending (entity_order_child attr child)
                    else Order_ChildDescending (entity_order_child attr child)))"

section \<open>Queries\<close>

definition parse_subgraph_id :: "object_or_interface \<Rightarrow> query_execution_error + deployment_hash" where
  "parse_subgraph_id entity =
     option_error (SubgraphDeploymentIdError (ooi_name entity))
       (Option.bind (find (\<lambda>d. dir_name d = ''subgraphId'') (ooi_directives entity)) (\<lambda>d.
          case find (\<lambda>(name, _). name = ''id'') (dir_arguments d) of
            Some (_, SV_String i) \<Rightarrow> (case deployment_hash_new i of Inl _ \<Rightarrow> None | Inr h \<Rightarrow> Some h)
          | _ \<Rightarrow> None))"

type_synonym selected_attributes = "(string, attribute_names) btree_map"

definition selected_get :: "selected_attributes \<Rightarrow> object_type \<Rightarrow> attribute_names \<times> selected_attributes" where
  "selected_get sa t =
     (case map_of sa (obj_name t) of
        None \<Rightarrow> (AN_All, sa)
      | Some names \<Rightarrow> (names, filter (\<lambda>(k, _). k \<noteq> obj_name t) sa))"

fun selected_columns :: "selected_attributes \<Rightarrow> object_type list \<Rightarrow> (entity_type \<times> attribute_names) list" where
  "selected_columns sa [] = []"
| "selected_columns sa (t # ts) = (let (names, sa') = selected_get sa t in (obj_name t, names) # selected_columns sa' ts)"

text \<open>The types of an interface are looked up with an index expression, which panics when there is none.\<close>

definition build_collection ::
    "object_or_interface \<Rightarrow> (entity_type, object_type list) btree_map \<Rightarrow> selected_attributes \<Rightarrow>
     query_execution_error + entity_collection" where
  "build_collection entity types_for_interface column_names =
     (case entity of
        OI_Object t \<Rightarrow> Inr (EC_All (selected_columns column_names [t]))
      | OI_Interface t \<Rightarrow>
          (case map_of types_for_interface (intf_name t) of
             None \<Rightarrow> Inl (QE_Abort ''types_for_interface'')
           | Some ts \<Rightarrow> Inr (EC_All (selected_columns column_names ts))))"

definition build_query ::
    "filter_env \<Rightarrow> object_or_interface \<Rightarrow> block_number \<Rightarrow> a_field \<Rightarrow> (entity_type, object_type list) btree_map \<Rightarrow>
     u32 \<Rightarrow> u32 \<Rightarrow> selected_attributes \<Rightarrow> query_execution_error + entity_query" where
  "build_query env entity block f types_for_interface max_first max_skip column_names =
     and_then (build_collection entity types_for_interface column_names) (\<lambda>collection.
     and_then (parse_subgraph_id entity) (\<lambda>subgraph.
     and_then (build_range f max_first max_skip) (\<lambda>range'.
     and_then (build_filter env entity f) (\<lambda>filter'.
     and_then (build_order_by env entity f) (\<lambda>order_by.
     and_then (build_order env order_by (build_order_direction f)) (\<lambda>order.
       Inr ((entity_query_new subgraph block collection)
              \<lparr>eq_range := range', eq_filter := filter', eq_order := order\<rparr>)))))))"

text \<open>
  The types that a subscription has to watch, found breadth first. The queue can only grow by the
  fields of the selection sets of its entries.
\<close>

definition collect_entity_types ::
    "api_schema \<Rightarrow> object_type \<Rightarrow> a_field \<Rightarrow> (deployment_hash \<times> string) set \<Rightarrow>
     query_execution_error + (deployment_hash \<times> string) set \<times> (object_type \<times> a_field) list" where
  "collect_entity_types s t f entities =
     (case sast_get_field (OI_Object t) (af_name f) of
        None \<Rightarrow> Inr (entities, [])
      | Some field_type \<Rightarrow>
          (case get_type_definition_from_type (api_document s) (fld_type field_type) of
             Some (TD_Object ot) \<Rightarrow>
               (let entities' =
                  (if get_object_type_directive ot ''entity'' \<noteq> None
                   then (case parse_subgraph_id (OI_Object ot) of
                           Inl _ \<Rightarrow> entities | Inr h \<Rightarrow> insert (h, obj_name ot) entities)
                   else entities)
                in case api_object_type s ot of
                     None \<Rightarrow> Inl (QE_Abort ''object_type'')
                   | Some ot' \<Rightarrow>
                       and_then (fields_for (af_selection_set f) ot')
                         (\<lambda>sub_fields. Inr (entities', map (Pair ot') sub_fields)))
           | _ \<Rightarrow> Inr (entities, [])))"

function collect_entities_loop ::
    "api_schema \<Rightarrow> (object_type \<times> a_field) list \<Rightarrow> (deployment_hash \<times> string) set \<Rightarrow>
     query_execution_error + (deployment_hash \<times> string) set" where
  "collect_entities_loop s [] entities = Inr entities"
| "collect_entities_loop s ((t, f) # queue) entities =
     (case collect_entity_types s t f entities of
        Inl e \<Rightarrow> Inl e
      | Inr (entities', added) \<Rightarrow> collect_entities_loop s (queue @ added) entities')"
  by pat_completeness auto

definition field_queue_size :: "(object_type \<times> a_field) list \<Rightarrow> nat" where
  "field_queue_size queue = sum_list (map (\<lambda>(t, f). size f) queue)"

lemma field_size_pos: "0 < size (f :: a_field)"
  by (cases f) simp

lemma fields_for_size: "fields_for sels t = Inr fs \<Longrightarrow>
  sum_list (map size fs) \<le> size_list (size_prod (\<lambda>_. 0) (size_list size)) sels"
proof (induction sels)
  case (Cons e sels)
  have l: "sum_list (map size fs) \<le> size_list size fs" for fs :: "a_field list" by (induction fs) auto
  obtain t' fs' where e: "e = (t', fs')" by force
  show ?case
  proof (cases "obj_name t' = obj_name t")
    case True
    with Cons.prems e have "fs' = fs" by (simp add: fields_for_def)
    with e l [of fs] show ?thesis by simp
  next
    case False
    with Cons.prems e have "fields_for sels t = Inr fs" by (simp add: fields_for_def)
    with Cons.IH e show ?thesis by simp
  qed
qed (simp add: fields_for_def)

lemma collect_entity_types_size:
  assumes "collect_entity_types s t f entities = Inr (entities', added)"
  shows "field_queue_size added < size f"
proof -
  have "added = [] \<or> (\<exists>ot fs. added = map (Pair ot) fs \<and> fields_for (af_selection_set f) ot = Inr fs)"
    using assms by (auto simp: collect_entity_types_def and_then_Inr Let_def
        split: option.splits type_definition.splits)
  then show ?thesis
  proof (elim disjE exE conjE)
    fix ot fs
    assume "added = map (Pair ot) fs" "fields_for (af_selection_set f) ot = Inr fs"
    then show ?thesis
      using fields_for_size [of "af_selection_set f" ot fs] size_a_field [of f]
      by (simp add: field_queue_size_def o_def)
  qed (simp add: field_queue_size_def field_size_pos)
qed

termination collect_entities_loop
  by (relation "measure (\<lambda>(s, queue, entities). field_queue_size queue)")
    (auto dest: collect_entity_types_size simp: field_queue_size_def)

definition collect_entities_from_query_field ::
    "api_schema \<Rightarrow> object_type \<Rightarrow> a_field \<Rightarrow> query_execution_error + subscription_filter set" where
  "collect_entities_from_query_field s t f =
     map_sum id (image (\<lambda>(h, name). SF_Entities h name)) (collect_entities_loop s [(t, f)] {})"

section \<open>Ranges are within the limits\<close>

lemma get_named_type_name: "get_named_type doc n = Some td \<Longrightarrow> type_definition_name td = n"
  by (induction doc) (auto simp: get_named_type_Cons definition_named_def split: if_splits s_definition.splits)

lemma int_argument:
  assumes "argument_ok ctx name def v" "iv_type def = NamedType ''Int''" "iv_name def \<noteq> ''text''"
    and "api_get_named_type (qc_schema ctx) ''Int'' = Some (TD_Scalar t)"
  shows "v \<in> {None, Some RV_Null} \<or> (\<exists>n. v = Some (RV_Int n))"
proof (cases v)
  case (Some w)
  have "pt_name t = ''Int''"
    using get_named_type_name assms(4) by (fastforce simp: api_get_named_type_def)
  then have "w = RV_Null \<or> scalar_has_type ''Int'' w"
    using assms Some by (cases w) (auto simp: argument_ok_def)
  then show ?thesis using Some by (cases w) (auto simp: scalar_has_type_def)
qed simp

lemma range_argument_bounds:
  assumes "v = argument_value (af_arguments f) name" "v \<in> {None, Some RV_Null} \<or> (\<exists>n. v = Some (RV_Int n))"
    and "lo \<in> {0, 1}"
  shows "case range_argument f name lo mx dflt u of
      Inr k \<Rightarrow> k = dflt \<or> lo \<le> uint k \<and> k \<le> mx
    | Inl e \<Rightarrow> \<exists>n. e = RangeArgumentsError name mx n"
proof -
  have "lo \<le> uint (ucast n :: u32) \<and> (ucast n :: u32) \<le> mx" if "lo \<le> sint n" "sint n \<le> uint mx" for n :: i64
  proof -
    have "uint mx < 2 ^ 32" using unsigned_less [of mx] by simp
    with that assms(3) have r: "0 \<le> sint n" "sint n < 2 ^ 32" by auto
    have "uint (ucast n :: u32) = take_bit 32 (sint n)"
      by transfer (simp add: take_bit_signed_take_bit)
    with r have "uint (ucast n :: u32) = sint n" by (simp add: take_bit_int_eq_self)
    with that show ?thesis by (simp add: word_le_def)
  qed
  then show ?thesis using assms(1,2) by (auto simp: range_argument_def)
qed

text \<open>
  For a field with the arguments \<open>first\<close> and \<open>skip\<close> of a collection, whose arguments have been coerced,
  the range is built without a panic: it asks for at least one entity and for at most the larger of the
  limit and the default of 100, and skips at most the limit; or the error names the argument that is out
  of range.
\<close>

theorem built_range_within_limits:
  assumes "coerce_argument_values ctx args parent name = Inr args'"
    and "get_argument_definitions parent name = Some defs" and "distinct (map iv_name defs)"
    and "{first_argument, skip_argument} \<subseteq> set defs"
    and "api_get_named_type (qc_schema ctx) ''Int'' = Some (TD_Scalar t)"
  shows "case build_range (A_Field al name args' dirs sels) max_first max_skip of
      Inr r \<Rightarrow> (\<exists>k. range_first r = Some k \<and> 1 \<le> uint k \<and> k \<le> max max_first 100) \<and> range_skip r \<le> max_skip
    | Inl e \<Rightarrow> \<exists>m n. e = RangeArgumentsError ''first'' m n \<or> e = RangeArgumentsError ''skip'' m n"
proof -
  let ?f = "A_Field al name args' dirs sels"
  have arg: "argument_value (af_arguments ?f) (iv_name def) \<in> {None, Some RV_Null} \<or>
      (\<exists>n. argument_value (af_arguments ?f) (iv_name def) = Some (RV_Int n))"
    if "def \<in> {first_argument, skip_argument}" for def
    using int_argument [OF coerced_argument_ok [OF assms(1-3), of def] _ _ assms(5)] that assms(4)
    by (auto simp: first_argument_def skip_argument_def input_value_of_def)
  note first = range_argument_bounds [OF refl arg [of first_argument], of 1 max_first 100 "''first is an Int with a default value''"]
  note skip = range_argument_bounds [OF refl arg [of skip_argument], of 0 max_skip 0 "''skip is an Int with a default value''"]
  have "(100 :: u32) \<le> max max_first 100" by simp
  then show ?thesis
    using first skip unfolding build_range_def
    by (auto simp: and_then_def first_argument_def skip_argument_def input_value_of_def le_max_iff_disj split: sum.splits)
qed

theorem built_range_within_limits_witness:
  "case build_range (A_Field None ''users'' [(''first'', RV_Int 7), (''skip'', RV_Int 0)] [] []) 1000 5000 of
     Inr r \<Rightarrow> (\<exists>k. range_first r = Some k \<and> 1 \<le> uint k \<and> k \<le> max 1000 100) \<and> range_skip r \<le> 5000
   | Inl e \<Rightarrow> \<exists>m n. e = RangeArgumentsError ''first'' m n \<or> e = RangeArgumentsError ''skip'' m n"
proof (rule built_range_within_limits)
  show "coerce_argument_values user_ctx [(''first'', RV_Int 7)] (OI_Object query_object) ''users'' =
      Inr [(''first'', RV_Int 7), (''skip'', RV_Int 0)]"
    by (simp add: coerce_argument_values_def get_argument_definitions_def user_simps coerce_argument_step_def Let_def
        collection_arguments_for_named_type_def skip_argument_def first_argument_def input_value_of_def
        argument_value_def value_or_default_def coerce_scalar_def set_argument_def list_ex_iff)
  show "get_argument_definitions (OI_Object query_object) ''users'' = Some (collection_arguments_for_named_type ''User'')"
    by (simp add: get_argument_definitions_def user_simps)
  show "distinct (map iv_name (collection_arguments_for_named_type ''User''))"
    by (simp add: collection_arguments_for_named_type_def skip_argument_def first_argument_def input_value_of_def)
  show "{first_argument, skip_argument} \<subseteq> set (collection_arguments_for_named_type ''User'')"
    by (simp add: collection_arguments_for_named_type_def)
  show "api_get_named_type (qc_schema user_ctx) ''Int'' = Some (TD_Scalar \<lparr> pt_name = ''Int'', pt_directives = [] \<rparr>)"
    by (simp add: user_simps)
qed

section \<open>Building a filter does not panic\<close>

lemma collect_results_Inl: "collect_results (map g xs) = Inl e \<Longrightarrow> \<exists>x \<in> set xs. g x = Inl e"
proof (induction xs)
  case (Cons x xs)
  then show ?case by (cases "g x") (auto split: sum.splits)
qed simp

lemma and_then_Inl: "and_then r g = Inl e \<longleftrightarrow> r = Inl e \<or> (\<exists>x. r = Inr x \<and> g x = Inl e)"
  by (auto simp: and_then_def split: sum.splits)

lemma option_error_Inl: "option_error e m = Inl e' \<longleftrightarrow> m = None \<and> e' = e"
  by (auto simp: option_error_def split: option.splits)

lemma map_sum_Inl: "map_sum id g r = Inl e \<longleftrightarrow> r = Inl e"
  by (cases r) auto

lemma list_values_no_abort: "list_values v t \<noteq> Inl (QE_Abort m)"
  by (auto simp: list_values_def dest!: collect_results_Inl split: store_value.splits list.splits if_splits sum.splits)

lemma build_entity_filter_no_abort:
  "op \<notin> {FO_And, FO_Or, FO_Child} \<Longrightarrow> build_entity_filter f op v \<noteq> Inl (QE_Abort m)"
  using list_values_no_abort by (cases op) (auto simp: build_entity_filter_def and_then_Inl)

lemma build_child_filter_no_abort:
  assumes "\<And>child. recurse child \<noteq> Inl (QE_Abort m)"
  shows "build_child_filter_from_object recurse env entity name \<noteq> Inl (QE_Abort m)"
  using assms
  by (auto simp: build_child_filter_from_object_def and_then_Inl option_error_Inl Let_def not_implemented_def
      dest!: collect_results_Inl split: if_splits)

lemma build_filters_no_abort:
  shows "build_filter_from_object env entity obj \<noteq> Inl (QE_Abort m)"
    and "build_list_filter_from_object env entity obj \<noteq> Inl (QE_Abort m)"
    and "build_list_filter_from_value env entity v \<noteq> Inl (QE_Abort m)"
proof (induction env entity obj and env entity obj and env entity v
    rule: build_filter_from_object_build_list_filter_from_object_build_list_filter_from_value.induct)
  case (1 env entity obj)
  show ?case
  proof
    assume "build_filter_from_object env entity obj = Inl (QE_Abort m)"
    then obtain key w where kw: "(key, w) \<in> set (robject_iter obj)" and
      e: "(if key = ''_change_block'' then map_sum id F_ChangeBlockGte (parse_change_block_filter env w)
          else
            let (field_name, op) = parse_field_as_filter key in
            case op of
              FO_And \<Rightarrow>
                if fe_disable_bool_filters env then Inl bool_filters_disabled
                else map_sum id F_And (build_list_filter_from_object env entity obj)
            | FO_Or \<Rightarrow>
                if fe_disable_bool_filters env then Inl bool_filters_disabled
                else map_sum id F_Or (build_list_filter_from_object env entity obj)
            | FO_Child \<Rightarrow>
                (case w of
                   RV_Object o' \<Rightarrow>
                     build_child_filter_from_object (\<lambda>child. build_filter_from_object env child o') env entity field_name
                 | _ \<Rightarrow>
                     and_then (entity_field entity field_name) (\<lambda>f.
                       Inl (QE_Value (AttributeTypeError w (fld_type f)))))
            | _ \<Rightarrow>
                and_then (entity_field entity field_name) (\<lambda>f.
                and_then (map_sum QE_Value id (from_query_value (fe_lib env) w (fld_type f))) (\<lambda>store_value.
                  build_entity_filter field_name op store_value))) = Inl (QE_Abort m)"
      unfolding build_filter_from_object.simps [of env entity obj] by (auto dest!: collect_results_Inl)
    obtain name op where p: "parse_field_as_filter key = (name, op)" by force
    have k: "key \<noteq> ''_change_block''"
      using e by (auto simp: map_sum_Inl parse_change_block_filter_def split: r_value.splits option.splits)
    have l: "build_list_filter_from_object env entity obj \<noteq> Inl (QE_Abort m)"
      if "op \<in> {FO_And, FO_Or}" "\<not> fe_disable_bool_filters env"
      using that 1(2,3) [OF kw refl k refl p [symmetric]] by blast
    have c: "build_child_filter_from_object (\<lambda>child. build_filter_from_object env child o') env entity name \<noteq> Inl (QE_Abort m)"
      if "op = FO_Child" "w = RV_Object o'" for o'
      by (rule build_child_filter_no_abort) (rule 1(1) [OF kw refl k refl p [symmetric] that])
    have f: "entity_field entity name \<noteq> Inl (QE_Abort m)"
      by (simp add: entity_field_def option_error_Inl)
    have q: "map_sum QE_Value id r \<noteq> Inl (QE_Abort m)" for r :: "query_error + store_value" by (cases r) auto
    show False
      using e k p l c f q build_entity_filter_no_abort [of op]
      by (cases op) (auto simp: map_sum_Inl and_then_Inl bool_filters_disabled_def split: if_splits r_value.splits)
  qed
next
  case (2 env entity obj)
  then show ?case
    by (auto simp: build_list_filter_from_object.simps map_sum_Inl dest!: collect_results_Inl)
next
  case (3 env entity v)
  then show ?case
    by (auto simp: build_list_filter_from_value.simps map_sum_Inl dest!: collect_results_Inl split: r_value.splits)
qed

text \<open>
  Building a filter from the arguments of a field never panics, whatever the arguments are: the
  \<open>unreachable!\<close> for an operator without a comparison cannot be reached.
\<close>

theorem build_filter_never_panics:
  "build_filter env entity f \<noteq> Inl (QE_Abort m)"
proof -
  have "build_fulltext_filter_from_object obj \<noteq> Inl (QE_Abort m)" for obj
    by (auto simp: build_fulltext_filter_from_object_def split: list.splits r_value.splits)
  then show ?thesis
    using build_filters_no_abort(1) [of env entity _ m]
    by (auto simp: build_filter_def map_sum_Inl split: option.splits r_value.splits)
qed

section \<open>Boolean filters\<close>

lemma robject_iter_simps [simp]:
  "robject_iter [] = []"
  "robject_iter ((Some k, v) # obj) = (k, v) # robject_iter obj"
  "robject_iter ((None, v) # obj) = robject_iter obj"
  by (simp_all add: robject_iter_def List.map_filter_simps)

lemma build_bool_filter:
  assumes "\<not> fe_disable_bool_filters env"
  shows "build_list_filter_from_value env entity v = Inr fs \<Longrightarrow>
      build_filter_from_object env entity [(Some ''and'', v)] = Inr [F_And fs] \<and>
      build_filter_from_object env entity [(Some ''or'', v)] = Inr [F_Or fs]"
  using assms by (simp add: build_filter_from_object.simps build_list_filter_from_object.simps)

text \<open>
  A filter with \<open>and\<close> alone holds when all its parts do, and a filter with \<open>or\<close> alone when one of its
  parts does. But a filter that has both at the same level demands all the parts of both lists: the
  alternatives under \<open>or\<close> are all required.
\<close>

theorem boolean_filter_meaning:
  assumes "\<not> fe_disable_bool_filters env"
    and "build_list_filter_from_value env entity a = Inr fs" and "build_list_filter_from_value env entity b = Inr gs"
  shows "(\<exists>r. build_filter_from_object env entity [(Some ''and'', a)] = Inr r \<and>
           (filter_holds atom (F_And r) \<longleftrightarrow> (\<forall>f \<in> set fs. filter_holds atom f))) \<and>
    (\<exists>r. build_filter_from_object env entity [(Some ''or'', b)] = Inr r \<and>
           (filter_holds atom (F_And r) \<longleftrightarrow> (\<exists>g \<in> set gs. filter_holds atom g))) \<and>
    (\<exists>r. build_filter_from_object env entity [(Some ''and'', a), (Some ''or'', b)] = Inr r \<and>
           (fs @ gs \<noteq> [] \<longrightarrow>
            filter_holds atom (F_And r) \<longleftrightarrow> (\<forall>f \<in> set fs \<union> set gs. filter_holds atom f)))"
proof -
  have "build_filter_from_object env entity [(Some ''and'', a), (Some ''or'', b)] = Inr [F_And (fs @ gs), F_Or (fs @ gs)]"
    using assms by (simp add: build_filter_from_object.simps build_list_filter_from_object.simps)
  moreover have "filter_holds atom (F_And [F_And (fs @ gs), F_Or (fs @ gs)]) \<longleftrightarrow> (\<forall>f \<in> set fs \<union> set gs. filter_holds atom f)"
    if "fs @ gs \<noteq> []"
    using that by (cases fs; cases gs) (auto simp: list_all_iff list_ex_iff)
  ultimately show ?thesis
    using build_bool_filter [OF assms(1,2)] build_bool_filter [OF assms(1,3)]
    by (simp add: list_all_iff list_ex_iff)
qed

definition name_filter :: "string \<Rightarrow> r_value" where
  "name_filter s = RV_List [RV_Object [(Some ''name'', RV_String s)]]"

definition user_env :: filter_env where
  "user_env =
     \<lparr> fe_lib = reference_lib, fe_schema = user_schema, fe_introspection = [], fe_disable_bool_filters = False,
       fe_disable_child_sorting = False, fe_i32_from_str = (\<lambda>_. None) \<rparr>"

lemma name_filter_built:
  "build_list_filter_from_value user_env (OI_Object user_object) (name_filter s) =
     Inr [F_And [F_Equal ''name'' (V_String s)]]"
proof -
  have "parse_field_as_filter ''name'' = (''name'', FO_Equal)" by code_simp
  then show ?thesis
    by (simp add: name_filter_def build_list_filter_from_value.simps build_filter_from_object.simps entity_field_def
        user_simps option_error_def and_then_def custom_scalar_def build_entity_filter_def BYTES_SCALAR_def
        BIG_INT_SCALAR_def BIG_DECIMAL_SCALAR_def)
qed

theorem boolean_filter_meaning_witness:
  "(\<exists>r. build_filter_from_object user_env (OI_Object user_object) [(Some ''and'', name_filter ''a'')] = Inr r \<and>
     (filter_holds (\<lambda>f. f = F_Equal ''name'' (V_String ''b'')) (F_And r) \<longleftrightarrow>
      (\<forall>f \<in> {F_And [F_Equal ''name'' (V_String ''a'')]}. filter_holds (\<lambda>f. f = F_Equal ''name'' (V_String ''b'')) f))) \<and>
   (\<exists>r. build_filter_from_object user_env (OI_Object user_object)
          [(Some ''and'', name_filter ''a''), (Some ''or'', name_filter ''b'')] = Inr r \<and>
        \<not> filter_holds (\<lambda>f. f = F_Equal ''name'' (V_String ''b'')) (F_And r))"
proof -
  have "\<not> fe_disable_bool_filters user_env" by (simp add: user_env_def)
  from boolean_filter_meaning [OF this name_filter_built name_filter_built, of "''a''"
      "\<lambda>f. f = F_Equal ''name'' (V_String ''b'')" "''b''"]
  show ?thesis by auto
qed

section \<open>Order values\<close>

text \<open>A name that \<open>__\<close> does not split, also in front of another \<open>__\<close>.\<close>

definition unsplit_name :: "string \<Rightarrow> bool" where
  "unsplit_name name \<longleftrightarrow> \<not> sublist ''__'' name \<and> (name \<noteq> [] \<longrightarrow> last name \<noteq> CHR ''_'')"

lemma sublist_dunder_Cons:
  "sublist ''__'' (c # cs) \<longleftrightarrow> c = CHR ''_'' \<and> take 1 cs = ''_'' \<or> sublist ''__'' cs"
  by (cases cs) (auto simp: sublist_Cons_right)

lemma split_dunder_unsplit: "\<not> sublist ''__'' name \<Longrightarrow> split_dunder name = [name]"
  by (induction name) (auto simp: sublist_dunder_Cons)

lemma split_dunder_parent:
  "unsplit_name p \<Longrightarrow> split_dunder (p @ ''__'' @ c) = p # split_dunder c"
proof (induction p)
  case (Cons a p)
  have "unsplit_name p" "p = [] \<Longrightarrow> a \<noteq> CHR ''_''" "\<not> (a = CHR ''_'' \<and> take 1 p = ''_'')"
    using Cons.prems by (auto simp: unsplit_name_def sublist_dunder_Cons)
  then show ?case using Cons.IH by (cases p) auto
qed simp

text \<open>The fields of an object or interface type that a name of the document stands for.\<close>

definition fields_of_named :: "s_document \<Rightarrow> string \<Rightarrow> s_field list" where
  "fields_of_named doc name =
     (case get_named_type doc name of
        Some (TD_Object t) \<Rightarrow> obj_fields t
      | Some (TD_Interface t) \<Rightarrow> intf_fields t
      | _ \<Rightarrow> [])"

lemma resolve_supported_type_name_base: "resolve_supported_type_name t = Some n \<Longrightarrow> get_base_type t = n"
  by (induction t) auto

lemma order_values_of_child:
  assumes "field_enum_values_from_child_entity env doc f = Inr vs" "v \<in> set vs"
  shows "\<exists>c \<in> set (fields_of_named doc (get_base_type (fld_type f))). v = fld_name f @ ''__'' @ fld_name c"
  using assms
  by (fastforce simp: field_enum_values_from_child_entity_def fields_of_named_def enum_value_from_child_entity_field_def
      dest!: resolve_supported_type_name_base split: option.splits if_splits type_definition.splits)

lemma order_values_cases:
  assumes "field_enum_values env doc flds = Inr vs" "v \<in> set vs"
  obtains f where "f \<in> set flds" "v = fld_name f"
  | f c where "f \<in> set flds" "c \<in> set (fields_of_named doc (get_base_type (fld_type f)))" "v = fld_name f @ ''__'' @ fld_name c"
proof -
  let ?ok = "\<lambda>v. \<exists>f \<in> set flds. v = fld_name f \<or>
    (\<exists>c \<in> set (fields_of_named doc (get_base_type (fld_type f))). v = fld_name f @ ''__'' @ fld_name c)"
  have "\<forall>v \<in> set vs. ?ok v"
  proof (rule try_fold_invariant [OF assms(1) [unfolded field_enum_values_def], where I = "\<lambda>vs. \<forall>v \<in> set vs. ?ok v"])
    fix f acc acc'
    assume f: "f \<in> set flds" "\<forall>v \<in> set acc. ?ok v"
      and step: "(case field_enum_values_from_child_entity env doc f of Inl e \<Rightarrow> Inl e
        | Inr ws \<Rightarrow> Inr (acc @ [fld_name f] @ ws)) = Inr acc'"
    then obtain ws where "field_enum_values_from_child_entity env doc f = Inr ws" "acc' = acc @ [fld_name f] @ ws"
      by (auto split: sum.splits)
    then have "v \<in> set acc \<or> v = fld_name f \<or>
        (\<exists>c \<in> set (fields_of_named doc (get_base_type (fld_type f))). v = fld_name f @ ''__'' @ fld_name c)"
      if "v \<in> set acc'" for v using that order_values_of_child [of env doc f ws] by auto
    with f show "\<forall>v \<in> set acc'. ?ok v" by meson
  qed simp
  with assms(2) that show thesis by blast
qed

text \<open>
  Every value that the generated enum for \<open>orderBy\<close> has is parsed back to what it was generated for:
  the name of a field to that field, and \<open>parent__child\<close> to that field and the field of its type, provided
  that no name of a field has \<open>__\<close> in it and none of a parent ends in \<open>_\<close>.
\<close>

theorem order_values_parsed_back:
  assumes "field_enum_values env doc flds = Inr vs" "v \<in> set vs"
    and "\<forall>f \<in> set flds. unsplit_name (fld_name f) \<and>
      (\<forall>c \<in> set (fields_of_named doc (get_base_type (fld_type f))). \<not> sublist ''__'' (fld_name c))"
  shows "(\<exists>f \<in> set flds. v = fld_name f \<and> parse_order_by v = Inr (OBV_Direct (fld_name f))) \<or>
    (\<exists>f \<in> set flds. \<exists>c \<in> set (fields_of_named doc (get_base_type (fld_type f))).
       v = fld_name f @ ''__'' @ fld_name c \<and> parse_order_by v = Inr (OBV_Child (fld_name f) (fld_name c)))"
  using assms(1,2)
proof (cases rule: order_values_cases)
  case (1 f)
  then show ?thesis
    using assms(3) by (force simp: parse_order_by_def split_dunder_unsplit unsplit_name_def)
next
  case (2 f c)
  then have "parse_order_by v = Inr (OBV_Child (fld_name f) (fld_name c))"
    using assms(3) by (simp add: parse_order_by_def split_dunder_parent split_dunder_unsplit del: append_Cons append_Nil)
  with 2 show ?thesis by blast
qed

definition account_fields :: "s_field list" where
  "account_fields = [plain_field ''owner_id'' (NamedType ''String''), plain_field ''user'' (NamedType ''User'')]"

theorem order_values_parsed_back_witness:
  "(\<exists>f \<in> set account_fields. ''user__name'' = fld_name f \<and> parse_order_by ''user__name'' = Inr (OBV_Direct (fld_name f))) \<or>
   (\<exists>f \<in> set account_fields. \<exists>c \<in> set (fields_of_named (sch_document (api_sch user_schema)) (get_base_type (fld_type f))).
      ''user__name'' = fld_name f @ ''__'' @ fld_name c \<and>
      parse_order_by ''user__name'' = Inr (OBV_Child (fld_name f) (fld_name c)))"
proof (rule order_values_parsed_back)
  show "field_enum_values \<lparr> disable_child_sorting = False, disable_bool_filters = False, allow_fulltext = False \<rparr>
        (sch_document (api_sch user_schema)) account_fields =
      Inr [''owner_id'', ''user'', ''user__name'']"
    by (simp add: field_enum_values_def field_enum_values_from_child_entity_def account_fields_def user_simps
        enum_value_from_child_entity_field_def)
qed (auto simp: account_fields_def user_simps fields_of_named_def unsplit_name_def sublist_dunder_Cons)

end
