(* ===== verification/Prefetch.thy ===== *)
theory Prefetch
  imports Entity_Query
begin

text \<open>
  \<open>graphql/src/store/prefetch.rs\<close>: the entities that a query needs are fetched level by level. For a
  field of all the parents at one level there is one query to the store, which is restricted to the
  parents by a window for each type of the children; \<open>Join::perform\<close> then hands every parent its
  children, by the attribute \<open>g$parent_id\<close> that the store adds to them.

  The store is the parameter \<open>pc_find\<close>. The weight of a node is an estimate of its size in memory; it
  depends on the layout of values and is the parameter \<open>pc_weight\<close>. Traces are left out. A panic is the
  error \<^const>\<open>QE_Abort\<close>, or \<^term>\<open>None\<close> in a function that has no other error.
\<close>

section \<open>Nodes\<close>

type_synonym entity_row = "(string, r_value) btree_map"

datatype pnode = P_Node (pn_entity: entity_row) (pn_children: "(string \<times> pnode list) list")

definition node_of :: "entity_row \<Rightarrow> pnode" where
  "node_of entity = P_Node entity []"

definition is_root_node :: "pnode list \<Rightarrow> bool" where
  "is_root_node nodes = (case nodes of [] \<Rightarrow> False | n # _ \<Rightarrow> pn_entity n = [])"

definition make_root_node :: "pnode list" where
  "make_root_node = [P_Node [] []]"

lemma child_node_size:
  "(key, nodes) \<in> set cs \<Longrightarrow> n \<in> set nodes \<Longrightarrow> size n < size_list (size_prod (\<lambda>_. 0) (size_list size)) cs"
  using size_list_mem [of "(key, nodes)" cs "size_prod (\<lambda>_. 0) (size_list size)"] size_list_mem [of n nodes size]
  by (simp add: less_trans)

function node_to_value :: "pnode \<Rightarrow> r_value" where
  "node_to_value (P_Node entity children) =
     r_object_value
       (fold (\<lambda>(key, v). bt_insert (''prefetch:'' @ key) v)
          (map (\<lambda>(key, nodes). (key, RV_List (map node_to_value nodes))) children) entity)"
  by pat_completeness auto
termination
  by (relation "measure size") (auto dest: child_node_size simp: less_SucI)

definition node_list_as_value :: "pnode list \<Rightarrow> r_value" where
  "node_list_as_value nodes = RV_List (map node_to_value nodes)"

fun rvalue_as_str :: "r_value \<Rightarrow> string option" where
  "rvalue_as_str (RV_String s) = Some s"
| "rvalue_as_str _ = None"

definition node_get :: "pnode \<Rightarrow> string \<Rightarrow> r_value option" where
  "node_get n key = map_of (pn_entity n) key"

text \<open>The two errors of \<open>Node::id\<close> are not told apart: its callers only ask whether there is an id.\<close>

definition node_id :: "pnode \<Rightarrow> string option" where
  "node_id n = Option.bind (node_get n ''id'') rvalue_as_str"

definition typename :: "pnode \<Rightarrow> string option" where
  "typename n = Option.bind (node_get n ''__typename'') rvalue_as_str"

definition set_children :: "string \<Rightarrow> pnode list \<Rightarrow> pnode \<Rightarrow> pnode" where
  "set_children key nodes n = P_Node (pn_entity n) (bt_insert key nodes (pn_children n))"

section \<open>Joins\<close>

datatype join_field = JF_List string | JF_Scalar string

definition join_field_new :: "s_field \<Rightarrow> join_field" where
  "join_field_new f = (if is_list_or_non_null_list_field f then JF_List (fld_name f) else JF_Scalar (fld_name f))"

fun join_window_attribute :: "join_field \<Rightarrow> window_attribute" where
  "join_window_attribute (JF_Scalar name) = WA_Scalar name"
| "join_window_attribute (JF_List name) = WA_List name"

datatype join_relation = JR_Direct join_field | JR_Derived join_field

record join_cond =
  jc_parent_type :: entity_type
  jc_child_type :: entity_type
  jc_relation :: join_relation

definition join_cond_new :: "object_type \<Rightarrow> object_type \<Rightarrow> string \<Rightarrow> join_cond option" where
  "join_cond_new parent_type child_type field_name =
     map_option
       (\<lambda>f. \<lparr> jc_parent_type = obj_name parent_type, jc_child_type = obj_name child_type,
               jc_relation = (case get_derived_from_field (OI_Object child_type) f of
                                Some derived_from_field \<Rightarrow> JR_Direct (join_field_new derived_from_field)
                              | None \<Rightarrow> JR_Derived (join_field_new f)) \<rparr>)
       (object_field parent_type field_name)"

definition scalar_child_id :: "string \<Rightarrow> pnode \<Rightarrow> string option" where
  "scalar_child_id child_field n = Option.bind (node_get n child_field) rvalue_as_str"

definition list_child_ids :: "string \<Rightarrow> pnode \<Rightarrow> string list option" where
  "list_child_ids child_field n =
     (case node_get n child_field of
        Some (RV_List vs) \<Rightarrow>
          (let values = filter_map rvalue_as_str vs in if values = [] then None else Some values)
      | _ \<Rightarrow> None)"

definition linked_parents :: "(pnode \<Rightarrow> 'a option) \<Rightarrow> (string \<times> pnode) list \<Rightarrow> (string \<times> 'a) list" where
  "linked_parents child_ids parents_by_id =
     filter_map (\<lambda>(i, n). map_option (Pair i) (child_ids n)) parents_by_id"

definition cond_entity_link ::
    "join_cond \<Rightarrow> (string \<times> pnode) list \<Rightarrow> child_multiplicity \<Rightarrow> string list \<times> entity_link" where
  "cond_entity_link cond parents_by_id multiplicity =
     (case jc_relation cond of
        JR_Direct f \<Rightarrow> (map fst parents_by_id, EL_Direct (join_window_attribute f) multiplicity)
      | JR_Derived (JF_Scalar child_field) \<Rightarrow>
          (let ps = linked_parents (scalar_child_id child_field) parents_by_id
           in (map fst ps, EL_Parent (jc_parent_type cond) (PL_Scalar (map snd ps))))
      | JR_Derived (JF_List child_field) \<Rightarrow>
          (let ps = linked_parents (list_child_ids child_field) parents_by_id
           in (map fst ps, EL_Parent (jc_parent_type cond) (PL_List (map snd ps)))))"

record join =
  join_child_type :: object_or_interface
  join_conds :: "join_cond list"

definition join_new :: "api_schema \<Rightarrow> object_type \<Rightarrow> object_or_interface \<Rightarrow> string \<Rightarrow> join option" where
  "join_new s parent_type child_type field_name =
     Option.bind (ooi_object_types (api_sch s) child_type) (\<lambda>child_types.
     Option.bind (collect_options (map (\<lambda>t. join_cond_new parent_type t field_name) child_types)) (\<lambda>conds.
       Some \<lparr> join_child_type = child_type, join_conds = conds \<rparr>))"

text \<open>Grouping children by parent.\<close>

definition group_step :: "string \<times> pnode \<Rightarrow> (string, pnode list) btree_map \<Rightarrow> (string, pnode list) btree_map" where
  "group_step kc grouped =
     (let (key, child) = kc; old = (case map_of grouped key of None \<Rightarrow> [] | Some cs \<Rightarrow> cs)
      in bt_insert key (old @ [child]) grouped)"

definition parent_of :: "pnode \<Rightarrow> string option" where
  "parent_of child = Option.bind (node_get child ''g$parent_id'') rvalue_as_str"

definition join_perform :: "pnode list \<Rightarrow> pnode list \<Rightarrow> string \<Rightarrow> pnode list option" where
  "join_perform parents children key =
     (case parents of
        [parent] \<Rightarrow> Some [set_children key children parent]
      | _ \<Rightarrow>
          map_option
            (\<lambda>keys.
               let grouped = fold group_step (zip keys children) []
               in map (\<lambda>parent.
                         set_children key
                           (case Option.bind (node_id parent) (map_of grouped) of None \<Rightarrow> [] | Some cs \<Rightarrow> cs) parent)
                    parents)
            (collect_options (map parent_of children)))"

text \<open>\<open>dedup_by\<close> on the ids: the first of neighbours with the same id stays.\<close>

fun dedup_by_id :: "(string \<times> pnode) list \<Rightarrow> (string \<times> pnode) list" where
  "dedup_by_id (x # y # xs) = (if fst x = fst y then dedup_by_id (x # xs) else x # dedup_by_id (y # xs))"
| "dedup_by_id xs = xs"

definition parents_by_id :: "entity_type \<Rightarrow> pnode list \<Rightarrow> (string \<times> pnode) list option" where
  "parents_by_id parent_type parents =
     map_option
       (\<lambda>types.
          filter_map (\<lambda>(t, n). if t = parent_type then map_option (\<lambda>i. (i, n)) (node_id n) else None)
            (zip types parents))
       (collect_options (map typename parents))"

definition cond_window ::
    "child_multiplicity \<Rightarrow> (entity_type, attribute_names) btree_map \<Rightarrow> join_cond \<Rightarrow> (string \<times> pnode) list \<Rightarrow>
     entity_window" where
  "cond_window multiplicity column_names_map cond ps =
     (let (ids, link) = cond_entity_link cond (dedup_by_id (sort_key fst ps)) multiplicity
      in \<lparr> ew_child_type = jc_child_type cond, ew_ids = ids, ew_link = link,
           ew_column_names = (case map_of column_names_map (jc_child_type cond) of
                                Some names \<Rightarrow> names | None \<Rightarrow> AN_All) \<rparr>)"

definition join_windows ::
    "join_cond list \<Rightarrow> pnode list \<Rightarrow> child_multiplicity \<Rightarrow> entity_collection \<Rightarrow> entity_window list option" where
  "join_windows conds parents multiplicity previous_collection =
     Option.bind (entity_types_and_column_names previous_collection) (\<lambda>column_names_map.
       map_option concat (collect_options (map
         (\<lambda>cond. map_option
            (\<lambda>ps. if ps = [] then [] else [cond_window multiplicity column_names_map cond ps])
            (parents_by_id (jc_parent_type cond) parents)) conds)))"

section \<open>Selected attributes\<close>

definition stored_columns :: "object_type \<Rightarrow> a_field list \<Rightarrow> string set" where
  "stored_columns t flds =
     set (filter (\<lambda>name. \<not> is_meta_field name)
       (map af_name
         (filter (\<lambda>f. case sast_get_field (OI_Object t) (af_name f) of
                         Some field_type \<Rightarrow> \<not> is_derived (fld_directives field_type)
                       | None \<Rightarrow> False) flds)))"

definition selected_for_field :: "a_field \<Rightarrow> query_execution_error list + selected_attributes" where
  "selected_for_field f =
     (let m = bt_from_iter (map (\<lambda>(t, flds). (obj_name t, AN_Select (stored_columns t flds))) (af_selection_set f))
      in case argument_value (af_arguments f) ''orderBy'' of
           None \<Rightarrow> Inr m
         | Some (RV_Enum e) \<Rightarrow> Inr (map (\<lambda>(t, columns). (t, attribute_names_add_str columns e)) m)
         | Some _ \<Rightarrow> Inl [QE_StoreError])"

section \<open>Fetching\<close>

record prefetch_ctx =
  pc_env :: filter_env
  pc_block :: block_number
  pc_max_first :: u32
  pc_max_skip :: u32
  pc_trace :: bool
  pc_query_id :: string
  pc_find :: "entity_query \<Rightarrow> query_execution_error + entity_row list"
  pc_select_by_attributes :: bool
  pc_weight :: "pnode \<Rightarrow> nat"
  pc_error_result_size :: nat
  pc_deadline :: "nat option"
  pc_now :: "nat \<Rightarrow> nat"

abbreviation pc_schema :: "prefetch_ctx \<Rightarrow> api_schema" where
  "pc_schema ctx \<equiv> fe_schema (pc_env ctx)"

text \<open>The query for the children before it is restricted to the parents.\<close>

definition child_query ::
    "prefetch_ctx \<Rightarrow> object_or_interface \<Rightarrow> a_field \<Rightarrow> child_multiplicity \<Rightarrow> selected_attributes \<Rightarrow>
     query_execution_error + entity_query" where
  "child_query ctx child_type f multiplicity selected_attrs =
     and_then (build_query (pc_env ctx) child_type (pc_block ctx) f
                 (sch_types_for_interface (api_sch (pc_schema ctx)))
                 (pc_max_first ctx) (pc_max_skip ctx) selected_attrs) (\<lambda>query.
       let query = query\<lparr>eq_trace := pc_trace ctx, eq_query_id := Some (pc_query_id ctx)\<rparr>;
           query = (if multiplicity = CM_Single then query\<lparr>eq_order := Order_Unordered\<rparr> else query)
       in Inr (case argument_value (af_arguments f) ''id'' of
                 Some (RV_String i) \<Rightarrow>
                   query\<lparr>eq_filter := Some (and_maybe (F_Equal ''id'' (V_String i)) (eq_filter query))\<rparr>
               | _ \<Rightarrow> query))"

definition run_query :: "prefetch_ctx \<Rightarrow> entity_query \<Rightarrow> query_execution_error + pnode list" where
  "run_query ctx query = map_sum id (map node_of) (pc_find ctx query)"

definition fetch ::
    "prefetch_ctx \<Rightarrow> pnode list \<Rightarrow> join \<Rightarrow> a_field \<Rightarrow> child_multiplicity \<Rightarrow> selected_attributes \<Rightarrow>
     query_execution_error + pnode list" where
  "fetch ctx parents j f multiplicity selected_attrs =
     and_then (child_query ctx (join_child_type j) f multiplicity selected_attrs) (\<lambda>query.
       if is_root_node parents then run_query ctx query
       else case join_windows (join_conds j) parents multiplicity (eq_collection query) of
              None \<Rightarrow> Inl (QE_Abort ''windows'')
            | Some [] \<Rightarrow> Inr []
            | Some windows \<Rightarrow> run_query ctx (query\<lparr>eq_collection := EC_Window windows\<rparr>))"

definition execute_field ::
    "prefetch_ctx \<Rightarrow> pnode list \<Rightarrow> join \<Rightarrow> a_field \<Rightarrow> s_field \<Rightarrow> selected_attributes \<Rightarrow>
     query_execution_error list + pnode list" where
  "execute_field ctx parents j f field_definition selected_attrs =
     map_sum (\<lambda>e. [e]) id
       (fetch ctx parents j f
          (if is_list_or_non_null_list_field field_definition then CM_Many else CM_Single) selected_attrs)"

definition check_result_size :: "prefetch_ctx \<Rightarrow> nat \<Rightarrow> query_execution_error + unit" where
  "check_result_size ctx weight =
     (if pc_error_result_size ctx < weight then Inl (ResultTooBig weight (pc_error_result_size ctx)) else Inr ())"

section \<open>Selection sets\<close>

text \<open>Errors are collected while the loops go on, except for a panic.\<close>

definition has_panic :: "query_execution_error list \<Rightarrow> bool" where
  "has_panic es = list_ex (\<lambda>e. case e of QE_Abort _ \<Rightarrow> True | _ \<Rightarrow> False) es"

text \<open>The clock is read when there is a deadline; \<open>c\<close> counts the readings.\<close>

definition deadline_passed :: "prefetch_ctx \<Rightarrow> nat \<Rightarrow> bool \<times> nat" where
  "deadline_passed ctx c =
     (case pc_deadline ctx of None \<Rightarrow> (False, c) | Some deadline \<Rightarrow> (deadline < pc_now ctx c, Suc c))"

definition matching_parents :: "object_type \<Rightarrow> pnode list \<Rightarrow> bool list option" where
  "matching_parents t parents =
     (if is_root_node parents then Some (map (\<lambda>_. True) parents)
      else map_option (map (\<lambda>name. obj_name t = name)) (collect_options (map typename parents)))"

definition select :: "bool list \<Rightarrow> 'a list \<Rightarrow> 'a list" where
  "select flags xs = map snd (filter fst (zip flags xs))"

text \<open>The selected parents are changed in place.\<close>

fun put_back :: "bool list \<Rightarrow> 'a list \<Rightarrow> 'a list \<Rightarrow> 'a list" where
  "put_back (True # flags) (_ # xs) (y # ys) = y # put_back flags xs ys"
| "put_back (False # flags) (x # xs) ys = x # put_back flags xs ys"
| "put_back _ xs _ = xs"

text \<open>
  The children of a field: an error that is returned at once, or what the field gives, which may be
  errors to be collected.
\<close>

definition field_children ::
    "prefetch_ctx \<Rightarrow> object_type \<Rightarrow> pnode list \<Rightarrow> a_field \<Rightarrow>
     query_execution_error list + (query_execution_error list + pnode list)" where
  "field_children ctx t parents f =
     (case object_field t (af_name f) of
        None \<Rightarrow> Inl [QE_Abort ''field names are valid'']
      | Some field_type \<Rightarrow>
          (case env_object_or_interface (pc_env ctx) (get_base_type (fld_type field_type)) of
             None \<Rightarrow> Inl [QE_Abort ''we only collect fields that are objects or interfaces'']
           | Some child_type \<Rightarrow>
               (case join_new (pc_schema ctx) t child_type (af_name f) of
                  None \<Rightarrow> Inl [QE_Abort ''the name of the child type is valid'']
                | Some j \<Rightarrow>
                    and_then (if pc_select_by_attributes ctx then selected_for_field f else Inr []) (\<lambda>columns.
                      Inr (execute_field ctx parents j f field_type columns)))))"

abbreviation selections_size :: "selection_set \<Rightarrow> nat" where
  "selections_size \<equiv> size_list (size_prod (\<lambda>_. 0) (size_list size))"

lemma interior_fields_size: "selections_size (interior_fields sels) \<le> selections_size sels"
proof -
  have "size_list size (filter P fs) \<le> size_list size fs" for P and fs :: "a_field list"
    by (induction fs) auto
  then show ?thesis by (induction sels) (auto simp: interior_fields_def add_mono)
qed

function execute_selection_set ::
      "prefetch_ctx \<Rightarrow> pnode list \<Rightarrow> selection_set \<Rightarrow> nat \<Rightarrow> nat \<times> (query_execution_error list + pnode list)"
  and execute_groups ::
      "prefetch_ctx \<Rightarrow> selection_set \<Rightarrow> pnode list \<Rightarrow> query_execution_error list \<Rightarrow> nat \<Rightarrow>
       nat \<times> (query_execution_error list + pnode list \<times> query_execution_error list)"
  and execute_fields ::
      "prefetch_ctx \<Rightarrow> object_type \<Rightarrow> a_field list \<Rightarrow> pnode list \<Rightarrow> query_execution_error list \<Rightarrow> nat \<Rightarrow>
       nat \<times> (query_execution_error list + pnode list \<times> query_execution_error list)"
where
  "execute_selection_set ctx parents sels c =
     (case execute_groups ctx (interior_fields sels) parents [] c of
        (c', Inl e) \<Rightarrow> (c', Inl e)
      | (c', Inr (parents', errors)) \<Rightarrow> (c', if errors = [] then Inr parents' else Inl errors))"
| "execute_groups ctx [] parents errors c = (c, Inr (parents, errors))"
| "execute_groups ctx ((t, flds) # groups) parents errors c =
     (let (late, c) = deadline_passed ctx c in
      if late then (c, Inr (parents, errors @ [QE_Timeout]))
      else
        case matching_parents t parents of
          None \<Rightarrow> (c, Inl [QE_Abort ''all entities have a __typename''])
        | Some flags \<Rightarrow>
            if select flags parents = [] then execute_groups ctx groups parents errors c
            else
              (case execute_fields ctx t flds (select flags parents) errors c of
                 (c', Inl e) \<Rightarrow> (c', Inl e)
               | (c', Inr (selected, errors')) \<Rightarrow>
                   execute_groups ctx groups (put_back flags parents selected) errors' c'))"
| "execute_fields ctx t [] parents errors c = (c, Inr (parents, errors))"
| "execute_fields ctx t (f # flds) parents errors c =
     (case field_children ctx t parents f of
        Inl e \<Rightarrow> (c, Inl e)
      | Inr (Inl e) \<Rightarrow>
          if has_panic e then (c, Inl e) else execute_fields ctx t flds parents (errors @ e) c
      | Inr (Inr children) \<Rightarrow>
          (case execute_selection_set ctx children (af_selection_set f) c of
             (c', Inl e) \<Rightarrow>
               if has_panic e then (c', Inl e) else execute_fields ctx t flds parents (errors @ e) c'
           | (c', Inr children') \<Rightarrow>
               (case join_perform parents children' (response_key f) of
                  None \<Rightarrow> (c', Inl [QE_Abort ''g$parent_id''])
                | Some parents' \<Rightarrow>
                    (case check_result_size ctx (sum_list (map (pc_weight ctx) parents')) of
                       Inl e \<Rightarrow> (c', Inl [e])
                     | Inr _ \<Rightarrow> execute_fields ctx t flds parents' errors c'))))"
  by pat_completeness auto
termination
  by (relation "measure (\<lambda>x. case x of
      Inl (ctx, ps, sels, c) \<Rightarrow> 2 * selections_size sels + 1
    | Inr (Inl (ctx, groups, ps, es, c)) \<Rightarrow> 2 * selections_size groups
    | Inr (Inr (ctx, t, flds, ps, es, c)) \<Rightarrow> 2 * size_list size flds)")
    (auto simp: less_Suc_eq_le interior_fields_size intro!: trans_le_add1 less_imp_le [OF size_a_field])

declare execute_selection_set.simps [simp del]

definition prefetch_run :: "prefetch_ctx \<Rightarrow> selection_set \<Rightarrow> nat \<Rightarrow> nat \<times> (query_execution_error list + r_value)" where
  "prefetch_run ctx sels c =
     map_prod id (map_sum id (\<lambda>nodes.
         RV_Object (robject_from_iter (concat (map
           (\<lambda>n. map (\<lambda>(key, ns). (''prefetch:'' @ key, node_list_as_value ns)) (pn_children n)) nodes)))))
       (execute_selection_set ctx make_root_node sels c)"

section \<open>What the store promises\<close>

text \<open>
  A query that is restricted by windows gives rows that name one of the parents, and the rows for some of
  the parents are what the query gives for them alone: ranges apply to each parent, and the order of the
  rows of a parent does not depend on the others. Two rows for the same entity only differ in the parent.
\<close>

definition keep_link :: "string set \<Rightarrow> string list \<Rightarrow> 'a list \<Rightarrow> 'a list" where
  "keep_link S ids cs = map snd (filter (\<lambda>(i, _). i \<in> S) (zip ids cs))"

fun restrict_link :: "string set \<Rightarrow> string list \<Rightarrow> entity_link \<Rightarrow> entity_link" where
  "restrict_link S ids (EL_Direct a m) = EL_Direct a m"
| "restrict_link S ids (EL_Parent t (PL_Scalar cs)) = EL_Parent t (PL_Scalar (keep_link S ids cs))"
| "restrict_link S ids (EL_Parent t (PL_List cs)) = EL_Parent t (PL_List (keep_link S ids cs))"

definition restrict_window :: "string set \<Rightarrow> entity_window \<Rightarrow> entity_window" where
  "restrict_window S w =
     w\<lparr>ew_ids := filter (\<lambda>i. i \<in> S) (ew_ids w), ew_link := restrict_link S (ew_ids w) (ew_link w)\<rparr>"

definition row_parent :: "entity_row \<Rightarrow> string option" where
  "row_parent r = Option.bind (map_of r ''g$parent_id'') rvalue_as_str"

definition same_entity :: "entity_row \<Rightarrow> entity_row \<Rightarrow> bool" where
  "same_entity r r' \<longleftrightarrow>
     map_of r ''__typename'' = map_of r' ''__typename'' \<and> map_of r ''id'' = map_of r' ''id'' \<and> map_of r ''id'' \<noteq> None"

definition same_attributes :: "entity_row \<Rightarrow> entity_row \<Rightarrow> bool" where
  "same_attributes r r' \<longleftrightarrow> (\<forall>k. k \<noteq> ''g$parent_id'' \<longrightarrow> map_of r k = map_of r' k)"

locale window_store =
  fixes find_rows :: "entity_query \<Rightarrow> query_execution_error + entity_row list"
  assumes rows_have_parent:
      "find_rows (q\<lparr>eq_collection := EC_Window ws\<rparr>) = Inr rs \<Longrightarrow> r \<in> set rs \<Longrightarrow> row_parent r \<noteq> None"
    and rows_of_parents:
      "find_rows (q\<lparr>eq_collection := EC_Window ws\<rparr>) = Inr rs \<Longrightarrow>
       find_rows (q\<lparr>eq_collection := EC_Window (map (restrict_window S) ws)\<rparr>) =
         Inr (filter (\<lambda>r. \<exists>i \<in> S. row_parent r = Some i) rs)"
    and rows_agree:
      "find_rows (q\<lparr>eq_collection := EC_Window ws\<rparr>) = Inr rs \<Longrightarrow> r \<in> set rs \<Longrightarrow> r' \<in> set rs \<Longrightarrow>
       same_entity r r' \<Longrightarrow> same_attributes r r'"

section \<open>The parents of a query\<close>

abbreviation ids_of :: "pnode list \<Rightarrow> string set" where
  "ids_of ps \<equiv> {i. \<exists>p \<in> set ps. node_id p = Some i}"

definition with_ids :: "pnode list \<Rightarrow> (string \<times> pnode) list" where
  "with_ids ps = filter_map (\<lambda>n. map_option (\<lambda>i. (i, n)) (node_id n)) ps"

lemma set_with_ids: "set (with_ids ps) = {(i, n). n \<in> set ps \<and> node_id n = Some i}"
  by (auto simp: with_ids_def)

lemma fst_with_ids: "fst ` set (with_ids ps) = ids_of ps"
  by (force simp: set_with_ids)

lemma collect_options_map_Some: "collect_options (map f xs) = Some ys \<longleftrightarrow> ys = map (the \<circ> f) xs \<and> (\<forall>x \<in> set xs. f x \<noteq> None)"
proof (induction xs arbitrary: ys)
  case (Cons x xs)
  then show ?case by (cases "f x"; cases "collect_options (map f xs)") auto
qed auto

lemma parents_by_id_same_type:
  assumes "\<forall>p \<in> set ps. typename p = Some t"
  shows "parents_by_id t ps = Some (with_ids ps)"
proof -
  have "collect_options (map typename ps) = Some (map (\<lambda>_. t) ps)"
    using assms by (simp add: collect_options_map_Some)
  moreover have "filter_map (\<lambda>(t', n). if t' = t then map_option (\<lambda>i. (i, n)) (node_id n) else None) (zip (map (\<lambda>_. t) ps) ps) =
      with_ids ps"
    unfolding with_ids_def by (induction ps) (auto split: option.splits)
  ultimately show ?thesis by (simp add: parents_by_id_def)
qed

lemma dedup_by_id_set: "set (dedup_by_id xs) \<subseteq> set xs \<and> fst ` set (dedup_by_id xs) = fst ` set xs"
  by (induction xs rule: dedup_by_id.induct) auto

lemma dedup_by_id_sorted:
  "sorted (map fst xs) \<Longrightarrow> sorted (map fst (dedup_by_id xs)) \<and> distinct (map fst (dedup_by_id xs))"
proof (induction xs rule: dedup_by_id.induct)
  case (1 x y xs)
  have "fst x \<notin> fst ` set (dedup_by_id (y # xs))" if "fst x \<noteq> fst y"
    using that 1(3) dedup_by_id_set [of "y # xs"] by auto
  with 1 dedup_by_id_set [of "y # xs"] show ?case by auto
qed auto

lemma ids_sorted_list: "map fst (dedup_by_id (sort_key fst (with_ids ps))) = sorted_list_of_set (ids_of ps)"
proof (rule sorted_distinct_set_unique)
  let ?xs = "dedup_by_id (sort_key fst (with_ids ps))"
  show "sorted (map fst ?xs)" "distinct (map fst ?xs)" using dedup_by_id_sorted [of "sort_key fst (with_ids ps)"] by auto
  have fin: "finite (ids_of ps)" using fst_with_ids [of ps, symmetric] by simp
  show "sorted (sorted_list_of_set (ids_of ps))" "distinct (sorted_list_of_set (ids_of ps))" by simp_all
  show "set (map fst ?xs) = set (sorted_list_of_set (ids_of ps))"
    using fin dedup_by_id_set [of "sort_key fst (with_ids ps)"] by (simp add: fst_with_ids [symmetric])
qed

definition consistent :: "pnode list \<Rightarrow> bool" where
  "consistent ps \<longleftrightarrow>
     (\<forall>p \<in> set ps. \<forall>q \<in> set ps. same_entity (pn_entity p) (pn_entity q) \<longrightarrow>
        same_attributes (pn_entity p) (pn_entity q))"

definition same_row :: "string \<times> pnode \<Rightarrow> string \<times> pnode \<Rightarrow> bool" where
  "same_row x y \<longleftrightarrow> fst x = fst y \<and> same_attributes (pn_entity (snd x)) (pn_entity (snd y))"

lemma filter_sorted_list_of_set:
  "finite A \<Longrightarrow> B \<subseteq> A \<Longrightarrow> filter (\<lambda>i. i \<in> B) (sorted_list_of_set A) = sorted_list_of_set (B :: 'a::linorder set)"
  by (rule sorted_distinct_set_unique) (auto simp: sorted_wrt_filter finite_subset)

lemma fst_filter_ids: "map fst (filter (\<lambda>(i, _). i \<in> S) zs) = filter (\<lambda>i. i \<in> S) (map fst zs)"
  by (simp add: filter_map o_def case_prod_unfold)

lemma as_str_Some: "rvalue_as_str v = Some s \<longleftrightarrow> v = RV_String s"
  by (cases v) auto

lemma same_row_of_parents:
  assumes "consistent ps" "\<forall>p \<in> set ps. typename p = Some t" "set qs \<subseteq> set ps"
    and "x \<in> set (with_ids qs)" "y \<in> set (with_ids ps)" "fst x = fst y"
  shows "same_row x y"
proof -
  have x: "snd x \<in> set ps" "snd y \<in> set ps" "node_id (snd x) = Some (fst x)" "node_id (snd y) = Some (fst x)"
    using assms(3-) by (auto simp: set_with_ids)
  moreover have "typename (snd x) = Some t" "typename (snd y) = Some t" using x assms(2) by auto
  ultimately have "same_entity (pn_entity (snd x)) (pn_entity (snd y))"
    by (auto simp: same_entity_def node_id_def typename_def node_get_def Option.bind_eq_Some_conv as_str_Some)
  then show ?thesis using assms(1,6) x by (auto simp: consistent_def same_row_def)
qed

lemma restricted_parents:
  assumes "consistent ps" "\<forall>p \<in> set ps. typename p = Some t" "set qs \<subseteq> set ps"
  shows "list_all2 same_row (dedup_by_id (sort_key fst (with_ids qs)))
    (filter (\<lambda>(i, _). i \<in> ids_of qs) (dedup_by_id (sort_key fst (with_ids ps))))"
    (is "list_all2 _ ?xs ?ys")
proof -
  have "finite (ids_of ps)" using fst_with_ids [of ps, symmetric] by simp
  moreover have "ids_of qs \<subseteq> ids_of ps" using assms(3) by auto
  ultimately have fst: "map fst ?xs = map fst ?ys"
    unfolding fst_filter_ids ids_sorted_list by (rule filter_sorted_list_of_set [symmetric])
  then have len: "length ?xs = length ?ys" by (rule map_eq_imp_length_eq)
  have "same_row (?xs ! k) (?ys ! k)" if "k < length ?xs" for k
  proof -
    have i: "fst (?xs ! k) = fst (?ys ! k)"
      using arg_cong [OF fst, of "\<lambda>zs. zs ! k"] unfolding nth_map [OF that] nth_map [OF that [unfolded len]] .
    have sub: "set (dedup_by_id (sort_key fst (with_ids rs))) \<subseteq> set (with_ids rs)" for rs
      using dedup_by_id_set [of "sort_key fst (with_ids rs)"] by simp
    have "?xs ! k \<in> set (with_ids qs)" using subsetD [OF sub nth_mem [OF that]] .
    moreover have "?ys ! k \<in> set (with_ids ps)"
      using subsetD [OF sub, of "?ys ! k" ps] nth_mem [OF that [unfolded len]] unfolding set_filter by blast
    ultimately show ?thesis using same_row_of_parents [OF assms] i by blast
  qed
  then show ?thesis using len by (simp add: list_all2_conv_all_nth)
qed

lemma linked_parents_same:
  assumes "list_all2 same_row xs ys" "\<And>n m. same_attributes (pn_entity n) (pn_entity m) \<Longrightarrow> f n = f m"
  shows "linked_parents f xs = linked_parents f ys"
  using assms(1)
proof (induction rule: list_all2_induct)
  case (Cons x xs y ys)
  then have "fst x = fst y" "f (snd x) = f (snd y)" using assms(2) by (auto simp: same_row_def)
  with Cons show ?case by (cases x; cases y) (auto simp: linked_parents_def split: option.splits)
qed (simp add: linked_parents_def)

lemma linked_parents_filter:
  "linked_parents f (filter (\<lambda>(i, _). i \<in> S) xs) = filter (\<lambda>(i, _). i \<in> S) (linked_parents f xs)"
  by (induction xs) (auto simp: linked_parents_def split: option.splits)

lemma child_ids_same:
  assumes "same_attributes (pn_entity n) (pn_entity m)" "k \<noteq> ''g$parent_id''"
  shows "scalar_child_id k n = scalar_child_id k m" "list_child_ids k n = list_child_ids k m"
  using assms by (simp_all add: same_attributes_def scalar_child_id_def list_child_ids_def node_get_def)

definition parent_attribute :: "join_cond \<Rightarrow> string option" where
  "parent_attribute cond =
     (case jc_relation cond of
        JR_Direct _ \<Rightarrow> None | JR_Derived (JF_Scalar k) \<Rightarrow> Some k | JR_Derived (JF_List k) \<Rightarrow> Some k)"

lemma cond_entity_link_restrict:
  assumes "list_all2 same_row xs (filter (\<lambda>(i, _). i \<in> S) ys)" "parent_attribute cond \<noteq> Some ''g$parent_id''"
    and "cond_entity_link cond ys m = (ids, link)"
  shows "cond_entity_link cond xs m = (filter (\<lambda>i. i \<in> S) ids, restrict_link S ids link)"
proof -
  have "map fst xs = map fst (filter (\<lambda>(i, _). i \<in> S) ys)"
    using assms(1) by (auto simp: list_all2_conv_all_nth same_row_def intro!: nth_equalityI)
  then have ids: "map fst xs = filter (\<lambda>i. i \<in> S) (map fst ys)" by (simp add: fst_filter_ids)
  have keep: "keep_link S (map fst zs) (map snd zs) = map snd (filter (\<lambda>(i, _). i \<in> S) zs)" for zs :: "(string \<times> 'b) list"
    by (simp add: keep_link_def zip_map_fst_snd)
  show ?thesis
  proof (cases "jc_relation cond")
    case (JR_Direct f)
    then show ?thesis using assms(3) ids by (auto simp: cond_entity_link_def)
  next
    case (JR_Derived f)
    then show ?thesis
      using assms(2,3) linked_parents_same [OF assms(1) child_ids_same(1)] linked_parents_same [OF assms(1) child_ids_same(2)]
      by (cases f) (auto simp: cond_entity_link_def Let_def parent_attribute_def fst_filter_ids keep linked_parents_filter)
  qed
qed

lemma cond_window_restrict:
  assumes "consistent ps" "\<forall>p \<in> set ps. typename p = Some t" "set qs \<subseteq> set ps"
    and "parent_attribute cond \<noteq> Some ''g$parent_id''"
  shows "cond_window m names cond (with_ids qs) = restrict_window (ids_of qs) (cond_window m names cond (with_ids ps))"
proof -
  obtain ids link where l: "cond_entity_link cond (dedup_by_id (sort_key fst (with_ids ps))) m = (ids, link)" by force
  show ?thesis
    using cond_entity_link_restrict [OF restricted_parents [OF assms(1-3)] assms(4) l] l
    by (simp add: cond_window_def restrict_window_def)
qed

lemma join_windows_same_type:
  assumes "\<forall>p \<in> set ps. typename p = Some t" "\<forall>cond \<in> set conds. jc_parent_type cond = t"
  shows "join_windows conds ps m coll =
    map_option (\<lambda>names. if with_ids ps = [] then [] else map (\<lambda>cond. cond_window m names cond (with_ids ps)) conds)
      (entity_types_and_column_names coll)"
proof -
  have "collect_options (map (\<lambda>cond. map_option (\<lambda>ps. if ps = [] then [] else [cond_window m names cond ps])
          (parents_by_id (jc_parent_type cond) ps)) conds) =
      Some (map (\<lambda>cond. if with_ids ps = [] then [] else [cond_window m names cond (with_ids ps)]) conds)" for names
    using assms(2) by (simp add: collect_options_map_Some parents_by_id_same_type [OF assms(1)])
  moreover have "concat (map (\<lambda>_. []) conds) = []" "concat (map (\<lambda>cond. [g cond]) conds) = map g conds" for g :: "join_cond \<Rightarrow> entity_window"
    by (induction conds) auto
  ultimately show ?thesis
    unfolding join_windows_def by (cases "entity_types_and_column_names coll"; cases "with_ids ps = []") simp_all
qed

definition cond_ok :: "entity_type \<Rightarrow> join_cond \<Rightarrow> bool" where
  "cond_ok t cond \<longleftrightarrow> jc_parent_type cond = t \<and> parent_attribute cond \<noteq> Some ''g$parent_id''"

lemma join_new_conds:
  assumes "join_new s t child name = Some j" "name \<noteq> ''g$parent_id''"
  shows "\<forall>cond \<in> set (join_conds j). cond_ok (obj_name t) cond"
proof -
  have "cond_ok (obj_name t) cond" if "join_cond_new t c name = Some cond" for c cond
  proof -
    have "fld_name f = name" if "object_field t name = Some f" for f
      using that by (auto simp: object_field_def find_Some_iff)
    with that assms(2) show ?thesis
      by (auto simp: join_cond_new_def cond_ok_def parent_attribute_def join_field_new_def
          split: option.splits if_splits)
  qed
  then show ?thesis
    using assms(1) by (fastforce simp: join_new_def Option.bind_eq_Some_conv collect_options_map_Some)
qed

lemma row_node [simp]: "pn_entity (node_of r) = r" "pn_children (node_of r) = []" "parent_of (node_of r) = row_parent r"
  by (simp_all add: node_of_def parent_of_def row_parent_def node_get_def)

lemma map_sum_Inr: "map_sum f g r = Inr y \<longleftrightarrow> (\<exists>x. r = Inr x \<and> y = g x)"
  by (cases r) auto

context window_store
begin

lemma windows_restricted:
  assumes "find_rows (q\<lparr>eq_collection := EC_Window ws\<rparr>) = Inr rs"
    and "ws' = map (restrict_window (ids_of qs)) ws"
  shows "find_rows (q\<lparr>eq_collection := EC_Window ws'\<rparr>) = Inr (filter (\<lambda>r. \<exists>i \<in> ids_of qs. row_parent r = Some i) rs)"
  using rows_of_parents [OF assms(1)] assms(2) by simp

lemma fetch_restricted:
  assumes "pc_find ctx = find_rows" "consistent ps" "\<forall>p \<in> set ps. typename p = Some t \<and> pn_entity p \<noteq> []"
    and conds: "\<forall>cond \<in> set (join_conds j). cond_ok t cond"
    and fetch: "fetch ctx ps j f m sel = Inr cs" and sub: "set qs \<subseteq> set ps"
  shows "fetch ctx qs j f m sel = Inr (filter (\<lambda>c. \<exists>i \<in> ids_of qs. parent_of c = Some i) cs)"
proof -
  have types: "\<forall>p \<in> set ps. typename p = Some t" "\<forall>p \<in> set qs. typename p = Some t"
    and root: "\<not> is_root_node ps" "\<not> is_root_node qs"
    and parent: "\<forall>cond \<in> set (join_conds j). jc_parent_type cond = t"
    using assms(3) sub conds by (auto simp: is_root_node_def cond_ok_def split: list.splits)
  obtain q where q: "child_query ctx (join_child_type j) f m sel = Inr q"
    using fetch by (auto simp: fetch_def and_then_Inr)
  obtain names where names: "entity_types_and_column_names (eq_collection q) = Some names"
    using fetch q root by (auto simp: fetch_def and_then_def join_windows_same_type [OF types(1) parent] split: option.splits)
  let ?w = "\<lambda>rs. map (\<lambda>cond. cond_window m names cond (with_ids rs)) (join_conds j)"
  have run: "fetch ctx rs j f m sel =
      (if with_ids rs = [] \<or> join_conds j = [] then Inr [] else run_query ctx (q\<lparr>eq_collection := EC_Window (?w rs)\<rparr>))"
    if "rs \<in> {ps, qs}" for rs
    using that q root names join_windows_same_type [OF types(1) parent] join_windows_same_type [OF types(2) parent]
    by (cases "join_conds j") (auto simp: fetch_def and_then_def)
  have ids: "with_ids qs = [] \<longleftrightarrow> ids_of qs = {}" using fst_with_ids [of qs] by (metis image_is_empty set_empty)
  show ?thesis
  proof (cases "with_ids qs = [] \<or> join_conds j = []")
    case True
    then consider "join_conds j = []" | "ids_of qs = {}" using ids by blast
    then show ?thesis
    proof cases
      case 1
      then show ?thesis using run [of qs] run [of ps] fetch by simp
    next
      case 2
      then show ?thesis using True run [of qs] by simp
    qed
  next
    case False
    have "with_ids ps \<noteq> []"
    proof
      assume "with_ids ps = []"
      then have "set (with_ids qs) = {}" using sub set_with_ids [of ps] set_with_ids [of qs] by auto
      with False show False by simp
    qed
    then obtain rs where rs: "find_rows (q\<lparr>eq_collection := EC_Window (?w ps)\<rparr>) = Inr rs" "cs = map node_of rs"
      using False run [of ps] fetch assms(1) by (cases "find_rows (q\<lparr>eq_collection := EC_Window (?w ps)\<rparr>)") (auto simp: run_query_def)
    have "?w qs = map (restrict_window (ids_of qs)) (?w ps)"
      using conds cond_window_restrict [OF assms(2) types(1) sub] by (auto simp: cond_ok_def)
    from windows_restricted [OF rs(1) this] show ?thesis
      using False run [of qs] assms(1) rs(2) by (simp add: run_query_def filter_map o_def)
  qed
qed

lemma fetched_rows:
  assumes "pc_find ctx = find_rows" "fetch ctx ps j f m sel = Inr cs" "\<not> is_root_node ps"
  shows "consistent cs" "\<forall>c \<in> set cs. parent_of c \<noteq> None"
proof -
  have "cs = [] \<or> (\<exists>q ws rs. find_rows (q\<lparr>eq_collection := EC_Window ws\<rparr>) = Inr rs \<and> cs = map node_of rs)"
  proof -
    from assms obtain q ws where "join_windows (join_conds j) ps m (eq_collection q) = Some ws"
      and "(case ws of [] \<Rightarrow> Inr [] | w # ws' \<Rightarrow> run_query ctx (q\<lparr>eq_collection := EC_Window (w # ws')\<rparr>)) = Inr cs"
      by (auto simp: fetch_def and_then_Inr split: option.splits)
    then show ?thesis
      using assms(1) by (cases ws) (auto simp: run_query_def map_sum_Inr)
  qed
  then consider "cs = []" | q ws rs where "find_rows (q\<lparr>eq_collection := EC_Window ws\<rparr>) = Inr rs" "cs = map node_of rs"
    by blast
  then have "consistent cs \<and> (\<forall>c \<in> set cs. parent_of c \<noteq> None)"
  proof cases
    case (2 q ws rs)
    show ?thesis using rows_have_parent [OF 2(1)] rows_agree [OF 2(1)] 2(2) by (simp add: consistent_def)
  qed (simp add: consistent_def)
  then show "consistent cs" "\<forall>c \<in> set cs. parent_of c \<noteq> None" by blast+
qed

end

section \<open>Handing out the children\<close>

definition children_for :: "pnode list \<Rightarrow> pnode \<Rightarrow> pnode list" where
  "children_for cs p = (case node_id p of None \<Rightarrow> [] | Some i \<Rightarrow> filter (\<lambda>c. parent_of c = Some i) cs)"

lemma group_fold:
  "map_of (fold group_step kcs m) i =
     (let new = map snd (filter (\<lambda>(k, _). k = i) kcs)
      in if new = [] then map_of m i else Some ((case map_of m i of None \<Rightarrow> [] | Some l \<Rightarrow> l) @ new))"
proof (induction kcs arbitrary: m)
  case (Cons kc kcs)
  then show ?case by (cases kc) (simp add: group_step_def Let_def hm_simps)
qed simp

lemma join_perform_children:
  assumes "\<forall>c \<in> set cs. \<exists>i \<in> ids_of ps. parent_of c = Some i"
  shows "join_perform ps cs key = Some (map (\<lambda>p. set_children key (children_for cs p) p) ps)"
proof (cases "\<exists>p. ps = [p]")
  case True
  then obtain p where p: "ps = [p]" by blast
  with assms have "children_for cs p = cs"
    by (auto simp: children_for_def filter_id_conv filter_empty_conv split: option.splits intro: sym)
  with p show ?thesis by (simp add: join_perform_def)
next
  case False
  let ?keys = "map (the \<circ> parent_of) cs"
  have some: "collect_options (map parent_of cs) = Some ?keys"
    using assms unfolding collect_options_map_Some by fastforce
  have "map snd (filter (\<lambda>(k, _). k = i) (zip ?keys cs)) = filter (\<lambda>c. parent_of c = Some i) cs" for i
    using assms by (induction cs) auto
  then have "(case Option.bind (node_id p) (map_of (fold group_step (zip ?keys cs) [])) of None \<Rightarrow> [] | Some l \<Rightarrow> l) =
      children_for cs p" for p
    by (auto simp: children_for_def group_fold Let_def split: option.splits)
  with False some show ?thesis by (auto simp: join_perform_def Let_def split: list.splits)
qed

lemma same_entity_parent: "pn_entity (g n) = pn_entity n \<Longrightarrow> parent_of (g n) = parent_of n"
  by (simp add: parent_of_def node_get_def)

lemma children_for_map:
  assumes "\<And>n. pn_entity (g n) = pn_entity n"
  shows "children_for (map g cs) p = map g (children_for cs p)"
  using assms by (auto simp: children_for_def filter_map o_def same_entity_parent split: option.splits)

lemma children_for_filter:
  "p \<in> set qs \<Longrightarrow> children_for (filter (\<lambda>c. \<exists>i \<in> ids_of qs. parent_of c = Some i) cs) p = children_for cs p"
  by (auto simp: children_for_def split: option.splits intro!: filter_cong)

section \<open>One query for all parents\<close>

fun plain_names :: "a_field \<Rightarrow> bool" where
  "plain_names (A_Field _ name _ _ sels) \<longleftrightarrow>
     name \<noteq> ''g$parent_id'' \<and> list_all (\<lambda>(_, fs). list_all plain_names fs) sels"

lemma field_children_Inr:
  assumes "field_children ctx t ps f = Inr r"
  obtains j child ft columns where "join_new (pc_schema ctx) t child (af_name f) = Some j"
    "\<And>qs. field_children ctx t qs f = Inr (execute_field ctx qs j f ft columns)"
  using assms that unfolding field_children_def by (auto simp: and_then_Inr split: option.splits)

lemma field_children_errors:
  "field_children ctx t ps f = Inl e \<Longrightarrow> e \<noteq> []" "field_children ctx t ps f = Inr (Inl e) \<Longrightarrow> e \<noteq> []"
proof -
  have "selected_for_field f = Inl e \<Longrightarrow> e \<noteq> []" for e
    by (auto simp: selected_for_field_def Let_def split: option.splits r_value.splits)
  then show "field_children ctx t ps f = Inl e \<Longrightarrow> e \<noteq> []"
    by (auto simp: field_children_def and_then_Inl split: option.splits if_splits)
  have "execute_field ctx ps j f ft columns = Inl e \<Longrightarrow> e \<noteq> []" for j ft columns
    by (cases "fetch ctx ps j f (if is_list_or_non_null_list_field ft then CM_Many else CM_Single) columns")
      (auto simp: execute_field_def)
  then show "field_children ctx t ps f = Inr (Inl e) \<Longrightarrow> e \<noteq> []"
    by (metis field_children_Inr sum.inject(2))
qed

lemma errors_nonempty:
  "execute_selection_set ctx ps sels c = (c', Inl e) \<Longrightarrow> e \<noteq> []"
  "execute_groups ctx groups ps errors c = (c', Inl e) \<Longrightarrow> e \<noteq> []"
  "execute_fields ctx t flds ps errors c = (c', Inl e) \<Longrightarrow> e \<noteq> []"
proof (induction ctx ps sels c and ctx groups ps errors c and ctx t flds ps errors c arbitrary: c' e and c' e and c' e
      rule: execute_selection_set_execute_groups_execute_fields.induct)
  case (1 ctx ps sels c)
  then show ?case by (auto simp: execute_selection_set.simps split: prod.splits sum.splits if_splits)
next
  case (3 ctx t flds groups ps errors c)
  show ?case
  proof (cases "deadline_passed ctx c")
    case (Pair late c1)
    show ?thesis
    proof (cases "matching_parents t ps")
      case (Some flags)
      show ?thesis
        using 3 Pair Some by (cases "execute_fields ctx t flds (select flags ps) errors c1"; cases "snd (execute_fields ctx t flds (select flags ps) errors c1)")
          (auto split: if_splits, metis)
    qed (use 3 Pair in \<open>auto split: if_splits\<close>)
  qed
next
  case (5 ctx t f flds ps errors c)
  show ?case
  proof (cases "field_children ctx t ps f")
    case (Inr r)
    show ?thesis
    proof (cases r)
      case (Inl es)
      then show ?thesis using 5 Inr field_children_errors(2) by (auto split: if_splits)
    next
      case (Inr cs)
      note r = \<open>field_children ctx t ps f = Inr r\<close> [unfolded Inr]
      obtain c1 r1 where x: "execute_selection_set ctx cs (af_selection_set f) c = (c1, r1)" by force
      show ?thesis
      proof (cases r1)
        case (Inl es)
        then show ?thesis using 5 r x by (auto split: if_splits)
      next
        case (Inr cs')
        then show ?thesis using 5 r x by (auto split: option.splits sum.splits)
      qed
    qed
  qed (use 5 field_children_errors(1) in simp)
qed auto

definition keeps_entity :: "(pnode \<Rightarrow> pnode) \<Rightarrow> bool" where
  "keeps_entity g \<longleftrightarrow> (\<forall>n. pn_entity (g n) = pn_entity n)"

lemma keeps_entity_attributes:
  assumes "keeps_entity g"
  shows "typename (g n) = typename n" "node_id (g n) = node_id n" "parent_of (g n) = parent_of n"
    "pn_entity (g n) = pn_entity n"
  using assms by (simp_all add: keeps_entity_def typename_def node_id_def parent_of_def node_get_def)

lemma keeps_entity_compose: "keeps_entity g \<Longrightarrow> keeps_entity h \<Longrightarrow> keeps_entity (g \<circ> h)"
  by (simp add: keeps_entity_def)

lemma consistent_map: "keeps_entity g \<Longrightarrow> consistent (map g ps) \<longleftrightarrow> consistent ps"
  by (simp add: consistent_def keeps_entity_def)

lemma keeps_entity_set_children: "keeps_entity (\<lambda>p. set_children key (k p) p)"
  by (simp add: keeps_entity_def set_children_def)

lemma weights_mono:
  assumes "mset qs \<subseteq># mset ps"
  shows "sum_list (map w qs) \<le> sum_list (map (w :: 'a \<Rightarrow> nat) ps)"
proof -
  obtain rs where "mset ps = mset qs + rs" using assms by (metis subset_mset.le_iff_add)
  then have "sum_mset (image_mset w (mset ps)) = sum_mset (image_mset w (mset qs)) + sum_mset (image_mset w rs)" by simp
  then show ?thesis by (simp flip: mset_map add: sum_mset_sum_list)
qed

definition of_type :: "object_type \<Rightarrow> pnode \<Rightarrow> bool" where
  "of_type t p \<longleftrightarrow> typename p = Some (obj_name t)"

lemma select_flags: "select (map m ps) ps = filter m ps"
  by (induction ps) (auto simp: select_def)

lemma put_back_flags: "put_back (map m ps) ps (map g (filter m ps)) = map (\<lambda>p. if m p then g p else p) ps"
  by (induction ps) auto

lemma matching_parents_Some:
  assumes "\<forall>p \<in> set ps. pn_entity p \<noteq> []"
  shows "matching_parents t ps = Some flags \<longleftrightarrow>
    flags = map (of_type t) ps \<and> (\<forall>p \<in> set ps. typename p \<noteq> None)"
proof -
  have "\<not> is_root_node ps" using assms by (auto simp: is_root_node_def split: list.splits)
  then show ?thesis by (fastforce simp: matching_parents_def collect_options_map_Some of_type_def)
qed

text \<open>
  A selection set is batched when executing it for some parents does with each of them what it does with
  any of them alone.
\<close>

definition batched :: "prefetch_ctx \<Rightarrow> selection_set \<Rightarrow> bool" where
  "batched ctx sels \<longleftrightarrow>
     (\<forall>ps c c' ps'. consistent ps \<longrightarrow> (\<forall>p \<in> set ps. pn_entity p \<noteq> []) \<longrightarrow>
        execute_selection_set ctx ps sels c = (c', Inr ps') \<longrightarrow>
        (\<exists>g. keeps_entity g \<and> (\<forall>qs. mset qs \<subseteq># mset ps \<longrightarrow> execute_selection_set ctx qs sels c = (c, Inr (map g qs)))))"

context window_store
begin

lemma field_children_batched:
  assumes "pc_find ctx = find_rows" "af_name f \<noteq> ''g$parent_id''"
    and "consistent ps" "\<forall>p \<in> set ps. typename p = Some (obj_name t) \<and> pn_entity p \<noteq> []"
    and "field_children ctx t ps f = Inr (Inr cs)"
  shows "set qs \<subseteq> set ps \<Longrightarrow> field_children ctx t qs f = Inr (Inr (filter (\<lambda>c. \<exists>i \<in> ids_of qs. parent_of c = Some i) cs))"
    and "consistent cs" and "\<forall>c \<in> set cs. pn_entity c \<noteq> []"
proof -
  obtain j child ft columns where j: "join_new (pc_schema ctx) t child (af_name f) = Some j"
    and ch: "\<And>qs. field_children ctx t qs f = Inr (execute_field ctx qs j f ft columns)"
    by (rule field_children_Inr [OF assms(5)]) blast
  let ?m = "if is_list_or_non_null_list_field ft then CM_Many else CM_Single"
  have fetch: "fetch ctx ps j f ?m columns = Inr cs"
    using assms(5) ch [of ps] by (auto simp: execute_field_def map_sum_Inr)
  show "field_children ctx t qs f = Inr (Inr (filter (\<lambda>c. \<exists>i \<in> ids_of qs. parent_of c = Some i) cs))" if "set qs \<subseteq> set ps"
    using ch [of qs] fetch_restricted [OF assms(1,3,4) join_new_conds [OF j assms(2)] fetch that]
    by (simp add: execute_field_def)
  have root: "\<not> is_root_node ps" using assms(4) by (auto simp: is_root_node_def split: list.splits)
  show "consistent cs" using fetched_rows(1) [OF assms(1) fetch root] .
  show "\<forall>c \<in> set cs. pn_entity c \<noteq> []"
    using fetched_rows(2) [OF assms(1) fetch root] by (auto simp: parent_of_def node_get_def)
qed

lemma execute_fields_no_errors:
  "execute_fields ctx t flds ps errs c = (c', Inr (ps', [])) \<Longrightarrow> errs = []"
proof (induction flds arbitrary: ps errs c)
  case (Cons f flds)
  show ?case
    using Cons.prems
    by (auto split: sum.splits prod.splits if_splits option.splits dest!: Cons.IH)
qed simp

lemma execute_fields_Cons_ok:
  assumes "execute_fields ctx t (f # flds) ps errs c = (c', Inr (ps', []))"
  obtains cs c1 cs' ps1 where "field_children ctx t ps f = Inr (Inr cs)"
    "execute_selection_set ctx cs (af_selection_set f) c = (c1, Inr cs')"
    "join_perform ps cs' (response_key f) = Some ps1"
    "sum_list (map (pc_weight ctx) ps1) \<le> pc_error_result_size ctx"
    "execute_fields ctx t flds ps1 errs c1 = (c', Inr (ps', []))"
proof (cases "field_children ctx t ps f")
  case (Inr r)
  show ?thesis
  proof (cases r)
    case (Inl es)
    then show ?thesis
      using assms(1) Inr execute_fields_no_errors [of ctx t flds ps "errs @ es" c] field_children_errors(2) [of ctx t ps f es] by (auto split: if_splits)
  next
    case (Inr cs)
    note r = \<open>field_children ctx t ps f = Inr r\<close> [unfolded Inr]
    obtain c1 r1 where x: "execute_selection_set ctx cs (af_selection_set f) c = (c1, r1)" by force
    show ?thesis
    proof (cases r1)
      case (Inl es)
      then show ?thesis
        using assms(1) r x execute_fields_no_errors [of ctx t flds ps "errs @ es" c1] errors_nonempty(1) [of ctx cs "af_selection_set f" c c1 es]
        by (auto split: if_splits)
    next
      case (Inr cs')
      then show ?thesis
        using assms(1) r x that [OF r] by (auto simp: check_result_size_def split: option.splits sum.splits if_splits)
    qed
  qed
qed (use assms(1) in simp)

lemma field_batched:
  assumes find: "pc_find ctx = find_rows" and f: "af_name f \<noteq> ''g$parent_id''" "batched ctx (af_selection_set f)"
    and ps: "consistent ps" "\<forall>p \<in> set ps. typename p = Some (obj_name t) \<and> pn_entity p \<noteq> []"
    and cs: "field_children ctx t ps f = Inr (Inr cs)"
    and cs': "execute_selection_set ctx cs (af_selection_set f) c = (c1, Inr cs')"
  obtains h where "keeps_entity h"
    "\<And>qs. mset qs \<subseteq># mset ps \<Longrightarrow> \<exists>ds ds'. field_children ctx t qs f = Inr (Inr ds) \<and>
       execute_selection_set ctx ds (af_selection_set f) c = (c, Inr ds') \<and>
       join_perform qs ds' (response_key f) = Some (map h qs)"
proof -
  note ch = field_children_batched [OF find f(1) ps cs]
  obtain g where g: "keeps_entity g"
    "\<And>ds. mset ds \<subseteq># mset cs \<Longrightarrow> execute_selection_set ctx ds (af_selection_set f) c = (c, Inr (map g ds))"
    using f(2) cs' ch(2,3) unfolding batched_def by blast
  let ?h = "\<lambda>p. set_children (response_key f) (map g (children_for cs p)) p"
  have "\<exists>ds ds'. field_children ctx t qs f = Inr (Inr ds) \<and>
      execute_selection_set ctx ds (af_selection_set f) c = (c, Inr ds') \<and>
      join_perform qs ds' (response_key f) = Some (map ?h qs)" if "mset qs \<subseteq># mset ps" for qs
  proof -
    let ?ds = "filter (\<lambda>c. \<exists>i \<in> ids_of qs. parent_of c = Some i) cs"
    have "set qs \<subseteq> set ps" using that by (metis set_mset_mono set_mset_mset)
    note field = ch(1) [OF this]
    have "join_perform qs (map g ?ds) (response_key f) =
        Some (map (\<lambda>p. set_children (response_key f) (children_for (map g ?ds) p) p) qs)"
      using keeps_entity_attributes(3) [OF g(1)] by (intro join_perform_children) auto
    moreover have "children_for (map g ?ds) p = map g (children_for cs p)" if "p \<in> set qs" for p
      using that g(1) by (simp add: children_for_map children_for_filter keeps_entity_def del: bex_simps)
    ultimately have "join_perform qs (map g ?ds) (response_key f) = Some (map ?h qs)" by simp
    then show ?thesis using field g(2) [of ?ds] by (auto simp: mset_filter)
  qed
  with keeps_entity_set_children show ?thesis by (rule that)
qed

lemma execute_fields_batched:
  assumes "pc_find ctx = find_rows"
    and "\<forall>f \<in> set flds. af_name f \<noteq> ''g$parent_id'' \<and> batched ctx (af_selection_set f)"
    and "consistent ps" "\<forall>p \<in> set ps. typename p = Some (obj_name t) \<and> pn_entity p \<noteq> []"
    and "execute_fields ctx t flds ps errs c = (c', Inr (ps', []))"
  shows "errs = [] \<and>
    (\<exists>g. keeps_entity g \<and> (\<forall>qs. mset qs \<subseteq># mset ps \<longrightarrow> execute_fields ctx t flds qs [] c = (c, Inr (map g qs, []))))"
  using assms(2-)
proof (induction flds arbitrary: ps errs c)
  case Nil
  then show ?case by (auto simp: keeps_entity_def intro: exI [of _ id])
next
  case (Cons f flds)
  obtain cs c1 cs' ps1 where
    cs: "field_children ctx t ps f = Inr (Inr cs)" and
    cs': "execute_selection_set ctx cs (af_selection_set f) c = (c1, Inr cs')" and
    ps1: "join_perform ps cs' (response_key f) = Some ps1" and
    weight: "sum_list (map (pc_weight ctx) ps1) \<le> pc_error_result_size ctx" and
    rest: "execute_fields ctx t flds ps1 errs c1 = (c', Inr (ps', []))"
    by (rule execute_fields_Cons_ok [OF Cons.prems(4)])
  have f: "af_name f \<noteq> ''g$parent_id''" "batched ctx (af_selection_set f)" using Cons.prems(1) by auto
  obtain h where h: "keeps_entity h" and step: "\<And>qs. mset qs \<subseteq># mset ps \<Longrightarrow>
      \<exists>ds ds'. field_children ctx t qs f = Inr (Inr ds) \<and>
        execute_selection_set ctx ds (af_selection_set f) c = (c, Inr ds') \<and> join_perform qs ds' (response_key f) = Some (map h qs)"
    using field_batched [OF assms(1) f Cons.prems(2,3) cs cs'] by blast
  have c1: "c1 = c" "ps1 = map h ps" using step [of ps] cs cs' ps1 by auto
  have "errs = [] \<and> (\<exists>g. keeps_entity g \<and>
      (\<forall>qs. mset qs \<subseteq># mset ps1 \<longrightarrow> execute_fields ctx t flds qs [] c1 = (c1, Inr (map g qs, []))))"
    using Cons.IH [OF _ _ _ rest] Cons.prems(1-3) c1 keeps_entity_attributes [OF h] by (auto simp: consistent_map [OF h])
  then obtain g where g: "errs = []" "keeps_entity g"
    "\<And>qs. mset qs \<subseteq># mset ps1 \<Longrightarrow> execute_fields ctx t flds qs [] c = (c, Inr (map g qs, []))" using c1 by auto
  have "execute_fields ctx t (f # flds) qs [] c = (c, Inr (map (g \<circ> h) qs, []))" if "mset qs \<subseteq># mset ps" for qs
  proof -
    have sub: "mset (map h qs) \<subseteq># mset (map h ps)" using that by (simp add: image_mset_subseteq_mono)
    then have "sum_list (map (pc_weight ctx) (map h qs)) \<le> pc_error_result_size ctx"
      using weights_mono [OF sub, of "pc_weight ctx"] weight c1 by simp
    then show ?thesis using step [OF that] g(3) [of "map h qs"] sub c1 by (auto simp: check_result_size_def)
  qed
  with g h show ?case by (blast intro: keeps_entity_compose)
qed

lemma execute_groups_no_errors:
  "execute_groups ctx groups ps errs c = (c', Inr (ps', [])) \<Longrightarrow> errs = []"
proof (induction groups arbitrary: ps errs c)
  case (Cons group groups)
  show ?case
    using Cons.prems
    by (cases group) (auto split: sum.splits prod.splits if_splits option.splits dest!: Cons.IH dest: execute_fields_no_errors)
qed simp

lemma group_fields_batched:
  assumes "pc_find ctx = find_rows"
    and "\<forall>f \<in> set flds. af_name f \<noteq> ''g$parent_id'' \<and> batched ctx (af_selection_set f)"
    and "consistent ps" "\<forall>p \<in> set ps. pn_entity p \<noteq> []"
    and "if filter (of_type t) ps = [] then ps1 = ps \<and> errs1 = errs \<and> c1 = c
      else \<exists>sel. execute_fields ctx t flds (filter (of_type t) ps) errs c = (c1, Inr (sel, errs1)) \<and>
        ps1 = put_back (map (of_type t) ps) ps sel"
    and "errs1 = []"
  shows "errs = [] \<and> (\<exists>g. keeps_entity g \<and> (filter (of_type t) ps \<noteq> [] \<longrightarrow>
    (\<forall>qs. mset qs \<subseteq># mset (filter (of_type t) ps) \<longrightarrow>
       execute_fields ctx t flds qs [] c = (c, Inr (map g qs, [])))))"
proof (cases "filter (of_type t) ps = []")
  case True
  then show ?thesis using assms(5,6) by (auto simp: keeps_entity_def intro: exI [of _ id])
next
  case False
  let ?sel = "filter (of_type t) ps"
  obtain sel where "execute_fields ctx t flds ?sel errs c = (c1, Inr (sel, []))" using False assms(5,6) by auto
  moreover have "consistent ?sel" using assms(3) by (simp add: consistent_def)
  moreover have "\<forall>p \<in> set ?sel. typename p = Some (obj_name t) \<and> pn_entity p \<noteq> []" using assms(4) by (simp add: of_type_def)
  ultimately show ?thesis using execute_fields_batched [OF assms(1,2)] by blast
qed

lemma execute_group_ok:
  assumes "pc_deadline ctx = None" "\<forall>p \<in> set ps. pn_entity p \<noteq> []"
    and "execute_groups ctx ((t, flds) # groups) ps errs c = (c', Inr (ps', []))"
  obtains c1 ps1 errs1 where "\<forall>p \<in> set ps. typename p \<noteq> None"
    "if filter (of_type t) ps = [] then ps1 = ps \<and> errs1 = errs \<and> c1 = c
     else \<exists>sel. execute_fields ctx t flds (filter (of_type t) ps) errs c = (c1, Inr (sel, errs1)) \<and> ps1 = put_back (map (of_type t) ps) ps sel"
    "execute_groups ctx groups ps1 errs1 c1 = (c', Inr (ps', []))"
proof -
  obtain flags where "matching_parents t ps = Some flags"
    using assms(1,3) by (auto simp: deadline_passed_def split: option.splits)
  moreover from this have flags: "flags = map (of_type t) ps" "\<forall>p \<in> set ps. typename p \<noteq> None"
    using matching_parents_Some [OF assms(2)] by auto
  ultimately have run: "(if filter (of_type t) ps = [] then execute_groups ctx groups ps errs c
      else case execute_fields ctx t flds (filter (of_type t) ps) errs c of
             (c', Inl e) \<Rightarrow> (c', Inl e)
           | (c', Inr (sel, errs')) \<Rightarrow> execute_groups ctx groups (put_back (map (of_type t) ps) ps sel) errs' c') = (c', Inr (ps', []))"
    using assms(1,3) by (cases "filter (of_type t) ps = []") (simp_all add: deadline_passed_def select_flags)
  show ?thesis
  proof (cases "filter (of_type t) ps = []")
    case True
    then show ?thesis using run flags(2) that [of ps errs c] by (simp only: if_True) simp
  next
    case False
    obtain c1 sel errs1 where "execute_fields ctx t flds (filter (of_type t) ps) errs c = (c1, Inr (sel, errs1))"
      using run False by (auto split: prod.splits sum.splits)
    then show ?thesis
      using run False flags(2) that [of "put_back (map (of_type t) ps) ps sel" errs1 c1] by (simp only: if_False) simp
  qed
qed

lemma execute_groups_batched:
  assumes ctx: "pc_find ctx = find_rows" "pc_deadline ctx = None"
    and "\<forall>(t, fs) \<in> set groups. \<forall>f \<in> set fs. af_name f \<noteq> ''g$parent_id'' \<and> batched ctx (af_selection_set f)"
    and "consistent ps" "\<forall>p \<in> set ps. pn_entity p \<noteq> []"
    and "execute_groups ctx groups ps errs c = (c', Inr (ps', []))"
  shows "errs = [] \<and>
    (\<exists>g. keeps_entity g \<and> (\<forall>qs. mset qs \<subseteq># mset ps \<longrightarrow> execute_groups ctx groups qs [] c = (c, Inr (map g qs, []))))"
  using assms(3-)
proof (induction groups arbitrary: ps errs c)
  case Nil
  then show ?case by (auto simp: keeps_entity_def intro: exI [of _ id])
next
  case (Cons group groups)
  obtain t flds where group: "group = (t, flds)" by force
  obtain c1 ps1 errs1 where types: "\<forall>p \<in> set ps. typename p \<noteq> None" and
    step: "if filter (of_type t) ps = [] then ps1 = ps \<and> errs1 = errs \<and> c1 = c
      else \<exists>sel. execute_fields ctx t flds (filter (of_type t) ps) errs c = (c1, Inr (sel, errs1)) \<and> ps1 = put_back (map (of_type t) ps) ps sel" and
    rest: "execute_groups ctx groups ps1 errs1 c1 = (c', Inr (ps', []))"
    by (rule execute_group_ok [OF ctx(2) Cons.prems(3) Cons.prems(4) [unfolded group]])
  have "errs1 = []" using rest execute_groups_no_errors by blast
  then obtain g0 where errs: "errs = []" and g0: "keeps_entity g0" and fields: "filter (of_type t) ps \<noteq> [] \<Longrightarrow>
      \<forall>qs. mset qs \<subseteq># mset (filter (of_type t) ps) \<longrightarrow> execute_fields ctx t flds qs [] c = (c, Inr (map g0 qs, []))"
    using group_fields_batched [OF ctx(1) _ Cons.prems(2,3) step] Cons.prems(1) unfolding group by auto
  define h where "h = (\<lambda>p. if of_type t p then g0 p else p)"
  have h: "keeps_entity h" using g0 by (simp add: keeps_entity_def h_def)
  have c1: "c1 = c \<and> ps1 = map h ps"
  proof (cases "filter (of_type t) ps = []")
    case True
    then show ?thesis using step by (auto simp: h_def filter_empty_conv intro: map_idI [symmetric])
  next
    case False
    then show ?thesis using step fields errs by (auto simp: h_def put_back_flags)
  qed
  have "\<exists>g. keeps_entity g \<and> (\<forall>qs. mset qs \<subseteq># mset ps1 \<longrightarrow> execute_groups ctx groups qs [] c1 = (c1, Inr (map g qs, [])))"
    using Cons.IH [OF _ _ _ rest] Cons.prems(1-3) c1 keeps_entity_attributes [OF h] by (auto simp: consistent_map [OF h])
  then obtain g where g: "keeps_entity g"
    "\<And>qs. mset qs \<subseteq># mset ps1 \<Longrightarrow> execute_groups ctx groups qs [] c = (c, Inr (map g qs, []))" using c1 by auto
  have "execute_groups ctx (group # groups) qs [] c = (c, Inr (map (g \<circ> h) qs, []))" if "mset qs \<subseteq># mset ps" for qs
  proof -
    have sub: "set qs \<subseteq> set ps" using that by (metis set_mset_mono set_mset_mset)
    have "matching_parents t qs = Some (map (of_type t) qs)"
    proof -
      have "\<forall>p \<in> set qs. pn_entity p \<noteq> []" "\<forall>p \<in> set qs. typename p \<noteq> None" using sub types Cons.prems(3) by auto
      then show ?thesis by (simp add: matching_parents_Some)
    qed
    moreover have "execute_groups ctx groups (map h qs) [] c = (c, Inr (map (g \<circ> h) qs, []))"
      using g(2) [of "map h qs"] that c1 by (simp add: image_mset_subseteq_mono)
    moreover have "map h qs = qs" if "filter (of_type t) qs = []"
      using that by (auto simp: h_def filter_empty_conv intro: map_idI)
    moreover have "execute_fields ctx t flds (filter (of_type t) qs) [] c = (c, Inr (map g0 (filter (of_type t) qs), []))" if "filter (of_type t) qs \<noteq> []"
    proof -
      have "filter (of_type t) ps \<noteq> []" using that sub by (auto simp: filter_empty_conv)
      with fields \<open>mset qs \<subseteq># mset ps\<close> show ?thesis by (simp add: multiset_filter_mono)
    qed
    ultimately show ?thesis
      using ctx(2) by (auto simp: group deadline_passed_def select_flags put_back_flags h_def)
  qed
  with errs g(1) h show ?case by (blast intro: keeps_entity_compose)
qed

lemma selection_set_batched:
  assumes ctx: "pc_find ctx = find_rows" "pc_deadline ctx = None"
    and "list_all (\<lambda>(_, fs). list_all plain_names fs) sels"
  shows "batched ctx sels"
  using assms(3)
proof (induction sels rule: measure_induct_rule [of selections_size])
  case (less sels)
  have "af_name f \<noteq> ''g$parent_id'' \<and> batched ctx (af_selection_set f)" if f: "(t, fs) \<in> set sels" "f \<in> set fs" for t fs f
  proof -
    have "plain_names f" using f less.prems by (auto simp: list_all_iff)
    moreover have "selections_size (af_selection_set f) < selections_size sels"
      using merge_size [OF f] size_a_field [of f] by simp
    ultimately show ?thesis using less.IH by (cases f) simp
  qed
  then have groups: "\<forall>(t, fs) \<in> set (interior_fields sels). \<forall>f \<in> set fs.
      af_name f \<noteq> ''g$parent_id'' \<and> batched ctx (af_selection_set f)"
    by (auto simp: interior_fields_def)
  show ?case
    unfolding batched_def
  proof (intro allI impI)
    fix ps c c' ps'
    assume ps: "consistent ps" "\<forall>p \<in> set ps. pn_entity p \<noteq> []" and run: "execute_selection_set ctx ps sels c = (c', Inr ps')"
    have "execute_groups ctx (interior_fields sels) ps [] c = (c', Inr (ps', []))"
      using run by (auto simp: execute_selection_set.simps split: prod.splits sum.splits if_splits)
    from execute_groups_batched [OF ctx groups ps this]
    show "\<exists>g. keeps_entity g \<and> (\<forall>qs. mset qs \<subseteq># mset ps \<longrightarrow> execute_selection_set ctx qs sels c = (c, Inr (map g qs)))"
      by (auto simp: execute_selection_set.simps)
  qed
qed

lemma batched_alone:
  assumes "batched ctx sels" "consistent ps" "\<forall>p \<in> set ps. pn_entity p \<noteq> []"
    and "execute_selection_set ctx ps sels c = (c', Inr ps')"
  shows "length ps' = length ps \<and> (\<forall>i < length ps. execute_selection_set ctx [ps ! i] sels c = (c, Inr [ps' ! i]))"
proof -
  obtain g where g: "\<And>qs. mset qs \<subseteq># mset ps \<Longrightarrow> execute_selection_set ctx qs sels c = (c, Inr (map g qs))"
    using assms unfolding batched_def by blast
  have "ps' = map g ps" using g [of ps] assms(4) by simp
  moreover have "mset [ps ! i] \<subseteq># mset ps" if "i < length ps" for i using that by simp
  ultimately show ?thesis using g by (metis length_map list.simps(8,9) nth_map)
qed

end

section \<open>A store in memory\<close>

text \<open>
  What \<open>find_query_values\<close> means: the entities of the types asked for that the filter accepts, in order, in
  the range, and for a query with windows this for each parent. Filters and orders are evaluated by \<open>holds\<close>
  and \<open>rank\<close>.
\<close>

type_synonym memory_store = "((entity_type \<times> string) \<times> entity_row) list"

definition memory_row :: "memory_store \<Rightarrow> entity_type \<Rightarrow> string \<Rightarrow> entity_row" where
  "memory_row db t i =
     bt_insert ''__typename'' (RV_String t) (bt_insert ''id'' (RV_String i)
       (case map_of db (t, i) of None \<Rightarrow> [] | Some attrs \<Rightarrow> attrs))"

definition memory_rows :: "memory_store \<Rightarrow> entity_type \<Rightarrow> entity_row list" where
  "memory_rows db t = map (\<lambda>((_, i), _). memory_row db t i) (filter (\<lambda>((t', _), _). t' = t) db)"

fun memory_linked :: "entity_window \<Rightarrow> string \<Rightarrow> entity_link \<Rightarrow> entity_row \<Rightarrow> bool" where
  "memory_linked w i (EL_Direct (WA_Scalar a) _) r \<longleftrightarrow> map_of r a = Some (RV_String i)"
| "memory_linked w i (EL_Direct (WA_List a) _) r \<longleftrightarrow>
     (case map_of r a of Some (RV_List vs) \<Rightarrow> RV_String i \<in> set vs | _ \<Rightarrow> False)"
| "memory_linked w i (EL_Parent _ (PL_Scalar cs)) r \<longleftrightarrow>
     list_ex (\<lambda>(j, c). j = i \<and> map_of r ''id'' = Some (RV_String c)) (zip (ew_ids w) cs)"
| "memory_linked w i (EL_Parent _ (PL_List cs)) r \<longleftrightarrow>
     list_ex (\<lambda>(j, c). j = i \<and> list_ex (\<lambda>k. map_of r ''id'' = Some (RV_String k)) c) (zip (ew_ids w) cs)"

definition memory_children :: "memory_store \<Rightarrow> entity_window list \<Rightarrow> string \<Rightarrow> entity_row list" where
  "memory_children db ws i =
     concat (map (\<lambda>w. if i \<in> set (ew_ids w) then filter (memory_linked w i (ew_link w)) (memory_rows db (ew_child_type w)) else []) ws)"

definition memory_arrange ::
    "(entity_filter \<Rightarrow> entity_row \<Rightarrow> bool) \<Rightarrow> (entity_order \<Rightarrow> entity_row \<Rightarrow> nat) \<Rightarrow> entity_query \<Rightarrow>
     entity_row list \<Rightarrow> entity_row list" where
  "memory_arrange holds rank q rows =
     (let sorted_rows = sort_key (rank (eq_order q))
            (filter (\<lambda>r. case eq_filter q of None \<Rightarrow> True | Some f \<Rightarrow> holds f r) rows);
          rest = drop (unat (range_skip (eq_range q))) sorted_rows
      in case range_first (eq_range q) of None \<Rightarrow> rest | Some n \<Rightarrow> take (unat n) rest)"

definition memory_find ::
    "(entity_filter \<Rightarrow> entity_row \<Rightarrow> bool) \<Rightarrow> (entity_order \<Rightarrow> entity_row \<Rightarrow> nat) \<Rightarrow> memory_store \<Rightarrow> entity_query \<Rightarrow>
     query_execution_error + entity_row list" where
  "memory_find holds rank db q =
     Inr (case eq_collection q of
            EC_All types \<Rightarrow> memory_arrange holds rank q (concat (map (memory_rows db \<circ> fst) types))
          | EC_Window ws \<Rightarrow>
              concat (map
                (\<lambda>i. map (bt_insert ''g$parent_id'' (RV_String i)) (memory_arrange holds rank q (memory_children db ws i)))
                (sorted_list_of_set (\<Union>w \<in> set ws. set (ew_ids w)))))"

lemma zip_keep_link: "zip (filter (\<lambda>i. i \<in> S) ids) (keep_link S ids cs) = filter (\<lambda>(i, _). i \<in> S) (zip ids cs)"
proof (induction ids arbitrary: cs)
  case (Cons i ids)
  then show ?case by (cases cs) (auto simp: keep_link_def)
qed (simp add: keep_link_def)

lemma memory_linked_restrict:
  assumes "i \<in> S"
  shows "memory_linked (restrict_window S w) i (ew_link (restrict_window S w)) = memory_linked w i (ew_link w)"
proof
  have "list_ex (\<lambda>(j, c). j = i \<and> P c) (filter (\<lambda>(i, _). i \<in> S) xs) = list_ex (\<lambda>(j, c). j = i \<and> P c) xs"
    for P and xs :: "(string \<times> 'b) list"
    using assms by (auto simp: list_ex_iff)
  note kept = this
  show "memory_linked (restrict_window S w) i (ew_link (restrict_window S w)) r = memory_linked w i (ew_link w) r" for r
  proof (cases "ew_link w")
    case (EL_Direct a m)
    then show ?thesis by (cases a) (simp_all add: restrict_window_def)
  next
    case (EL_Parent t link)
    then show ?thesis by (cases link) (simp_all add: restrict_window_def zip_keep_link kept)
  qed
qed

lemma memory_children_restrict:
  assumes "i \<in> S"
  shows "memory_children db (map (restrict_window S) ws) i = memory_children db ws i"
proof -
  have "ew_child_type (restrict_window S w) = ew_child_type w" "i \<in> set (ew_ids (restrict_window S w)) \<longleftrightarrow> i \<in> set (ew_ids w)" for w
    using assms by (auto simp: restrict_window_def)
  then show ?thesis
    using memory_linked_restrict [OF assms] by (simp add: memory_children_def o_def cong: if_cong)
qed

lemma filter_parents:
  assumes "\<And>i r. r \<in> set (f i) \<Longrightarrow> row_parent r = Some i"
  shows "filter (\<lambda>r. \<exists>i \<in> S. row_parent r = Some i) (concat (map f is)) = concat (map f (filter (\<lambda>i. i \<in> S) is))"
proof (induction "is")
  case (Cons i "is")
  have "filter (\<lambda>r. \<exists>i \<in> S. row_parent r = Some i) (f i) = (if i \<in> S then f i else [])"
    using assms [of _ i] by (auto simp: filter_id_conv filter_empty_conv)
  with Cons show ?case by simp
qed simp

lemma set_memory_arrange: "set (memory_arrange holds rank q rows) \<subseteq> set rows"
proof -
  have "set (take n (drop m (sort_key f (filter P rows)))) \<subseteq> set rows" "set (drop m (sort_key f (filter P rows))) \<subseteq> set rows"
    for n m P and f :: "entity_row \<Rightarrow> nat"
    using set_take_subset [of n] set_drop_subset [of m "sort_key f (filter P rows)"] by fastforce+
  then show ?thesis unfolding memory_arrange_def Let_def by (auto split: option.splits)
qed

lemma row_parent_insert: "row_parent (bt_insert ''g$parent_id'' (RV_String i) r) = Some i"
  by (simp add: row_parent_def hm_simps)

lemma memory_find_rows:
  assumes "memory_find holds rank db (q\<lparr>eq_collection := EC_Window ws\<rparr>) = Inr rs" "r \<in> set rs"
  shows "\<exists>i t k. r = bt_insert ''g$parent_id'' (RV_String i) (memory_row db t k)"
proof -
  obtain i r' where r': "r = bt_insert ''g$parent_id'' (RV_String i) r'"
    "r' \<in> set (memory_arrange holds rank (q\<lparr>eq_collection := EC_Window ws\<rparr>) (memory_children db ws i))"
    using assms by (auto simp: memory_find_def)
  then have "r' \<in> set (memory_children db ws i)" using set_memory_arrange by blast
  then obtain t k where "r' = memory_row db t k"
    by (auto simp: memory_children_def memory_rows_def split: if_splits)
  with r' show ?thesis by blast
qed

interpretation memory: window_store "memory_find holds rank db" for holds rank db
proof (unfold_locales, goal_cases)
  case (1 ws q rs r)
  then show ?case using memory_find_rows row_parent_insert by fastforce
next
  case (2 ws q rs S)
  let ?f = "\<lambda>i. map (bt_insert ''g$parent_id'' (RV_String i)) (memory_arrange holds rank q (memory_children db ws i))"
  have arrange: "memory_arrange holds rank (q\<lparr>eq_collection := x\<rparr>) = memory_arrange holds rank q" for x
    by (rule ext) (simp add: memory_arrange_def)
  let ?ids = "\<Union>w \<in> set ws. set (ew_ids w)"
  have ids: "(\<Union>w \<in> set (map (restrict_window S) ws). set (ew_ids w)) = ?ids \<inter> S"
    by (auto simp: restrict_window_def)
  have "sorted_list_of_set (?ids \<inter> S) = filter (\<lambda>i. i \<in> ?ids \<inter> S) (sorted_list_of_set ?ids)"
    by (rule filter_sorted_list_of_set [symmetric]) auto
  also have "\<dots> = filter (\<lambda>i. i \<in> S) (sorted_list_of_set ?ids)" by (rule filter_cong) auto
  finally have s: "sorted_list_of_set (?ids \<inter> S) = filter (\<lambda>i. i \<in> S) (sorted_list_of_set ?ids)" .
  have "rs = concat (map ?f (sorted_list_of_set ?ids))"
    using 2 by (simp add: memory_find_def arrange)
  then have rs: "filter (\<lambda>r. \<exists>i \<in> S. row_parent r = Some i) rs = concat (map ?f (filter (\<lambda>i. i \<in> S) (sorted_list_of_set ?ids)))"
    by (simp only:) (rule filter_parents, auto simp: row_parent_insert)
  let ?g = "\<lambda>i. map (bt_insert ''g$parent_id'' (RV_String i))
    (memory_arrange holds rank q (memory_children db (map (restrict_window S) ws) i))"
  have g: "map ?g (filter (\<lambda>i. i \<in> S) xs) = map ?f (filter (\<lambda>i. i \<in> S) xs)" for xs
    by (rule map_cong) (simp_all add: memory_children_restrict)
  have "memory_find holds rank db (q\<lparr>eq_collection := EC_Window (map (restrict_window S) ws)\<rparr>) =
      Inr (concat (map ?g (filter (\<lambda>i. i \<in> S) (sorted_list_of_set ?ids))))"
    unfolding memory_find_def using ids s by (simp add: arrange)
  then show ?case unfolding rs g .
next
  case (3 ws q rs r r')
  then obtain i t k i' t' k' where "r = bt_insert ''g$parent_id'' (RV_String i) (memory_row db t k)"
    "r' = bt_insert ''g$parent_id'' (RV_String i') (memory_row db t' k')"
    using memory_find_rows by meson
  then show ?case using 3(4) by (auto simp: same_entity_def same_attributes_def memory_row_def hm_simps)
qed

text \<open>
  C0. Fetching a level of the query for all entities at once gives each of them what fetching it for this
  entity alone gives: the same children in the same order, and this through all nested levels. It is so
  for every store that keeps its promise for windows.
\<close>

theorem one_query_for_all_parents:
  assumes "window_store (pc_find ctx)" "pc_deadline ctx = None"
    and "list_all (\<lambda>(_, fs). list_all plain_names fs) sels"
    and "consistent ps" "\<forall>p \<in> set ps. pn_entity p \<noteq> []"
    and "execute_selection_set ctx ps sels c = (c', Inr ps')"
  shows "length ps' = length ps \<and>
    (\<forall>i < length ps. execute_selection_set ctx [ps ! i] sels c = (c, Inr [ps' ! i]))"
  using window_store.batched_alone [OF assms(1) window_store.selection_set_batched [OF assms(1) refl assms(2,3)] assms(4-6)] .

definition member_object :: object_type where
  "member_object = user_object\<lparr>obj_directives := [\<lparr> dir_name = ''subgraphId'', dir_arguments = [(''id'', SV_String ''Qm'')] \<rparr>]\<rparr>"

definition member_schema :: api_schema where
  "member_schema = user_schema\<lparr>api_sch := (api_sch user_schema)\<lparr>sch_document :=
     [TypeDefinition (TD_Object query_object), TypeDefinition (TD_Object member_object)]\<rparr>\<rparr>"

definition member_store :: memory_store where
  "member_store =
     [((''User'', ''u1''), [(''friends'', RV_List [RV_String ''u2'']), (''name'', RV_String ''a'')]),
      ((''User'', ''u2''), [(''friends'', RV_List [RV_String ''u1'', RV_String ''u2'']), (''name'', RV_String ''b'')])]"

definition member_ctx :: prefetch_ctx where
  "member_ctx =
     \<lparr> pc_env = user_env\<lparr>fe_schema := member_schema\<rparr>, pc_block = 7, pc_max_first = 1000, pc_max_skip = 5000,
       pc_trace = False, pc_query_id = ''q'', pc_find = memory_find (\<lambda>_ _. True) (\<lambda>_ _. 0) member_store,
       pc_select_by_attributes = False, pc_weight = (\<lambda>_. 1), pc_error_result_size = 100,
       pc_deadline = None, pc_now = id \<rparr>"

definition friends_names :: selection_set where
  "friends_names = [(member_object, [A_Field None ''friends'' [] [] [(member_object, [A_Field None ''name'' [] [] []])]])]"

abbreviation member :: "string \<Rightarrow> pnode" where
  "member i \<equiv> node_of (memory_row member_store ''User'' i)"

definition members_with_friends :: "pnode list" where
  "members_with_friends =
     [set_children ''friends'' [node_of (bt_insert ''g$parent_id'' (RV_String ''u1'') (memory_row member_store ''User'' ''u2''))] (member ''u1''),
      set_children ''friends'' [node_of (bt_insert ''g$parent_id'' (RV_String ''u2'') (memory_row member_store ''User'' ''u1'')),
        node_of (bt_insert ''g$parent_id'' (RV_String ''u2'') (memory_row member_store ''User'' ''u2''))] (member ''u2'')]"

abbreviation friends_field :: a_field where
  "friends_field \<equiv> A_Field None ''friends'' [] [] [(member_object, [A_Field None ''name'' [] [] []])]"

definition friends_query :: entity_query where
  "friends_query =
     (entity_query_new ''Qm'' 7 (EC_All [(''User'', AN_All)]))
       \<lparr>eq_range := \<lparr>range_first = Some 100, range_skip = 0\<rparr>, eq_query_id := Some ''q''\<rparr>"

lemma friends_query_built: "child_query member_ctx (OI_Object member_object) friends_field CM_Many [] = Inr friends_query"
  by (simp add: child_query_def build_query_def build_collection_def parse_subgraph_id_def build_range_def range_argument_def
      build_filter_def build_order_by_def build_order_def argument_value_def and_then_def member_ctx_def option_error_def
      member_object_def selected_get_def user_object_def deployment_hash_new_def list_all_iff is_ascii_alphanumeric_def
      is_ascii_alphabetic_def friends_query_def entity_query_new_def)

lemma friends_join:
  "join_new member_schema member_object (OI_Object member_object) ''friends'' =
     Some \<lparr> join_child_type = OI_Object member_object,
            join_conds = [\<lparr> jc_parent_type = ''User'', jc_child_type = ''User'', jc_relation = JR_Derived (JF_List ''friends'') \<rparr>] \<rparr>"
  by (simp add: join_new_def join_cond_new_def member_object_def user_simps object_field_def get_derived_from_field_def
      get_derived_from_directive_def find_directive_def join_field_new_def)

lemmas member_nodes = node_id_def typename_def node_get_def memory_row_def member_store_def hm_simps

lemma members_with_ids: "with_ids [member ''u1'', member ''u2''] = [(''u1'', member ''u1''), (''u2'', member ''u2'')]"
  by (simp add: with_ids_def member_nodes)

definition friends_window :: entity_window where
  "friends_window =
     \<lparr> ew_child_type = ''User'', ew_ids = [''u1'', ''u2''],
       ew_link = EL_Parent ''User'' (PL_List [[''u2''], [''u1'', ''u2'']]), ew_column_names = AN_All \<rparr>"

definition friends_rows :: "pnode list" where
  "friends_rows =
     [node_of (bt_insert ''g$parent_id'' (RV_String ''u1'') (memory_row member_store ''User'' ''u2'')),
       node_of (bt_insert ''g$parent_id'' (RV_String ''u2'') (memory_row member_store ''User'' ''u1'')),
       node_of (bt_insert ''g$parent_id'' (RV_String ''u2'') (memory_row member_store ''User'' ''u2''))]"

lemma friends_found:
  "field_children member_ctx member_object [member ''u1'', member ''u2''] friends_field =
     Inr (Inr friends_rows)"
proof -
  have w: "join_windows [\<lparr> jc_parent_type = ''User'', jc_child_type = ''User'', jc_relation = JR_Derived (JF_List ''friends'') \<rparr>]
      [member ''u1'', member ''u2''] CM_Many (EC_All [(''User'', AN_All)]) = 
      Some [friends_window]"
    by (subst join_windows_same_type [of _ "''User''"])
      (simp_all add: members_with_ids cond_window_def cond_entity_link_def linked_parents_def list_child_ids_def bt_from_iter_def friends_window_def,
       simp_all add: member_nodes)
  have f: "object_field member_object ''friends'' = Some \<lparr> fld_name = ''friends'', fld_arguments = collection_arguments_for_named_type ''User'',
                       fld_type = collection_type ''User'', fld_directives = [] \<rparr>"
    by (simp add: object_field_def member_object_def user_simps)
  have c: "env_object_or_interface (pc_env member_ctx) ''User'' = Some (OI_Object member_object)"
    by (simp add: member_ctx_def api_object_or_interface_def member_schema_def object_or_interface_of_def user_simps member_object_def)
  have r: "\<not> is_root_node [member ''u1'', member ''u2'']"
    by (simp add: is_root_node_def member_nodes)
  have q: "eq_collection friends_query = EC_All [(''User'', AN_All)]" by (simp add: friends_query_def entity_query_new_def)
  have ctx: "pc_schema member_ctx = member_schema" "\<not> pc_select_by_attributes member_ctx" by (simp_all add: member_ctx_def)
  have rows: "run_query member_ctx (friends_query\<lparr>eq_collection := EC_Window [friends_window]\<rparr>) =
       Inr friends_rows"
    by (simp add: run_query_def member_ctx_def memory_find_def memory_arrange_def memory_children_def memory_rows_def friends_query_def
        entity_query_new_def friends_window_def friends_rows_def member_nodes)
  show ?thesis
   using f c friends_join friends_query_built r w rows q ctx
   by (simp add: field_children_def execute_field_def fetch_def and_then_def collection_type_def is_list_or_non_null_list_field_def)
qed

lemma members_prefetched:
  "execute_selection_set member_ctx [member ''u1'', member ''u2''] friends_names 0 = (0, Inr members_with_friends)"
proof -
  have p: "join_perform [member ''u1'', member ''u2'']
      friends_rows ''friends'' = Some members_with_friends"
    by (simp add: join_perform_def friends_rows_def row_parent_def group_step_def members_with_friends_def member_nodes)
  have late: "deadline_passed member_ctx c = (False, c)" for c by (simp add: deadline_passed_def member_ctx_def)
  have m: "matching_parents member_object [member ''u1'', member ''u2''] = Some [True, True]"
    "matching_parents member_object friends_rows = Some [True, True, True]"
    by (simp_all add: matching_parents_def is_root_node_def friends_rows_def member_nodes member_object_def user_object_def)
  have size: "check_result_size member_ctx (sum_list (map (pc_weight member_ctx) members_with_friends)) = Inr ()"
    by (simp add: check_result_size_def member_ctx_def members_with_friends_def)
  have cs: "execute_selection_set member_ctx friends_rows [(member_object, [A_Field None ''name'' [] [] []])] 0 = (0, Inr friends_rows)"
    using m(2) late by (simp add: execute_selection_set.simps interior_fields_def is_leaf_def set_is_empty_def select_def)
      (simp add: friends_rows_def)
  have same: "put_back [True, True] [member ''u1'', member ''u2''] members_with_friends = members_with_friends"
    by (simp add: members_with_friends_def)
  show ?thesis
    unfolding friends_names_def execute_selection_set.simps [of member_ctx "[member ''u1'', member ''u2'']"]
    using p friends_found m(1) late size cs same
    by (simp add: interior_fields_def is_leaf_def set_is_empty_def select_def response_key_def)
qed

theorem one_query_for_all_parents_witness:
  "length members_with_friends = 2 \<and>
   (\<forall>i < 2. execute_selection_set member_ctx [[member ''u1'', member ''u2''] ! i] friends_names 0 =
      (0, Inr [members_with_friends ! i]))"
proof -
  have "length members_with_friends = length [member ''u1'', member ''u2''] \<and>
    (\<forall>i < length [member ''u1'', member ''u2''].
       execute_selection_set member_ctx [[member ''u1'', member ''u2''] ! i] friends_names 0 = (0, Inr [members_with_friends ! i]))"
  proof (rule one_query_for_all_parents)
    show "window_store (pc_find member_ctx)" by (simp add: member_ctx_def memory.window_store_axioms)
    show "pc_deadline member_ctx = None" by (simp add: member_ctx_def)
    show "list_all (\<lambda>(_, fs). list_all plain_names fs) friends_names" by (simp add: friends_names_def)
    show "consistent [member ''u1'', member ''u2'']"
      by (simp add: consistent_def same_entity_def same_attributes_def member_nodes)
    show "\<forall>p \<in> set [member ''u1'', member ''u2'']. pn_entity p \<noteq> []" by (simp add: member_nodes)
  qed (rule members_prefetched)
  then show ?thesis by simp
qed

end
