(* ===== verification/Query_Execution.thy ===== *)
theory Query_Execution
  imports Prefetch Writable_Queue
begin

text \<open>
  \<open>graphql/src/execution/execution.rs\<close>, \<open>graphql/src/execution/resolver.rs\<close> and \<open>graphql/src/store/resolver.rs\<close>:
  how the response to a query is put together from the prefetched data. A resolver finds the value of a
  field, and the value is then completed: checked against the type of the field and, for objects,
  executed with the selections of the field.

  The resolver is an argument of the execution. The resolver of the store is modelled; the one that answers
  introspection queries is a parameter. The clock is read as in \<open>Prefetch\<close>.
\<close>

section \<open>Resolvers\<close>

record exec_ctx =
  xc_schema :: api_schema
  xc_show_f64 :: "f64 \<Rightarrow> string"
  xc_deadline :: "nat option"
  xc_now :: "nat \<Rightarrow> nat"
  xc_resolve_objects :: "r_value option \<Rightarrow> a_field \<Rightarrow> s_field \<Rightarrow> object_or_interface \<Rightarrow> query_execution_error + r_value"
  xc_resolve_object :: "r_value option \<Rightarrow> a_field \<Rightarrow> s_field \<Rightarrow> object_or_interface \<Rightarrow> query_execution_error + r_value"

text \<open>\<open>resolve_enum_value\<close>, \<open>resolve_scalar_value\<close> and their variants for lists.\<close>

definition resolve_leaf :: "r_value option \<Rightarrow> r_value" where
  "resolve_leaf v = (case v of None \<Rightarrow> RV_Null | Some w \<Rightarrow> w)"

definition resolve_abstract_type :: "api_schema \<Rightarrow> r_value \<Rightarrow> query_execution_error + object_type" where
  "resolve_abstract_type s object_value =
     (case object_value of
        RV_Object data \<Rightarrow>
          (case robject_get data ''__typename'' of
             Some (RV_String name) \<Rightarrow>
               (case api_get_named_type s name of
                  Some (TD_Object t) \<Rightarrow>
                    (case api_object_type s t of
                       None \<Rightarrow> Inl (QE_Abort ''ApiSchema.object_type is only used with existing types'')
                     | Some t' \<Rightarrow> Inr t')
                | Some _ \<Rightarrow> Inl (QE_Abort ''only objects may implement interfaces'')
                | None \<Rightarrow> Inl (QE_Abort ''a name returned in a __typename must exist in the schema''))
           | _ \<Rightarrow> Inl (QE_Abort ''__typename must be a string''))
      | _ \<Rightarrow> Inl (QE_Abort ''abstract type value must be an object''))"

definition one_error :: "query_execution_error + 'a \<Rightarrow> query_execution_error list + 'a" where
  "one_error r = map_sum (\<lambda>e. [e]) id r"

definition resolve_field_value_for_named_type ::
    "exec_ctx \<Rightarrow> r_value option \<Rightarrow> a_field \<Rightarrow> s_field \<Rightarrow> string \<Rightarrow> query_execution_error list + r_value" where
  "resolve_field_value_for_named_type ctx field_value f field_definition type_name' =
     one_error
       (case api_get_named_type (xc_schema ctx) type_name' of
          None \<Rightarrow> Inl (NamedTypeError type_name')
        | Some (TD_Object t) \<Rightarrow> xc_resolve_object ctx field_value f field_definition (OI_Object t)
        | Some (TD_Enum _) \<Rightarrow> Inr (resolve_leaf field_value)
        | Some (TD_Scalar _) \<Rightarrow> Inr (resolve_leaf field_value)
        | Some (TD_Interface t) \<Rightarrow> xc_resolve_object ctx field_value f field_definition (OI_Interface t)
        | Some (TD_Union _) \<Rightarrow> Inl (Unimplemented ''unions'')
        | Some (TD_InputObject _) \<Rightarrow> Inl (QE_Abort ''input objects are never resolved''))"

fun resolve_field_value_for_list_type ::
    "exec_ctx \<Rightarrow> r_value option \<Rightarrow> a_field \<Rightarrow> s_field \<Rightarrow> s_type \<Rightarrow> query_execution_error list + r_value" where
  "resolve_field_value_for_list_type ctx field_value f field_definition (NonNullType inner_type) =
     resolve_field_value_for_list_type ctx field_value f field_definition inner_type"
| "resolve_field_value_for_list_type ctx field_value f field_definition (NamedType type_name') =
     one_error
       (case api_get_named_type (xc_schema ctx) type_name' of
          None \<Rightarrow> Inl (NamedTypeError type_name')
        | Some (TD_Object t) \<Rightarrow> xc_resolve_objects ctx field_value f field_definition (OI_Object t)
        | Some (TD_Enum _) \<Rightarrow> Inr (resolve_leaf field_value)
        | Some (TD_Scalar _) \<Rightarrow> Inr (resolve_leaf field_value)
        | Some (TD_Interface t) \<Rightarrow> xc_resolve_objects ctx field_value f field_definition (OI_Interface t)
        | Some (TD_Union _) \<Rightarrow> Inl (Unimplemented ''unions'')
        | Some (TD_InputObject _) \<Rightarrow> Inl (QE_Abort ''input objects are never resolved''))"
| "resolve_field_value_for_list_type ctx field_value f field_definition (ListType _) =
     Inl [Unimplemented ''nested list types'']"

fun resolve_field_value ::
    "exec_ctx \<Rightarrow> r_value option \<Rightarrow> a_field \<Rightarrow> s_field \<Rightarrow> s_type \<Rightarrow> query_execution_error list + r_value" where
  "resolve_field_value ctx field_value f field_definition (NonNullType inner_type) =
     resolve_field_value ctx field_value f field_definition inner_type"
| "resolve_field_value ctx field_value f field_definition (NamedType name) =
     resolve_field_value_for_named_type ctx field_value f field_definition name"
| "resolve_field_value ctx field_value f field_definition (ListType inner_type) =
     resolve_field_value_for_list_type ctx field_value f field_definition inner_type"

section \<open>Execution\<close>

definition exec_deadline_passed :: "exec_ctx \<Rightarrow> nat \<Rightarrow> bool \<times> nat" where
  "exec_deadline_passed ctx c =
     (case xc_deadline ctx of None \<Rightarrow> (False, c) | Some deadline \<Rightarrow> (deadline < xc_now ctx c, Suc c))"

text \<open>The names that more than one field has.\<close>

fun multiple_names :: "string list \<Rightarrow> string set" where
  "multiple_names [] = {}"
| "multiple_names (n # ns) = (if n \<in> set ns then {n} else {}) \<union> multiple_names ns"

text \<open>\<^term>\<open>None\<close> is the \<open>unreachable!()\<close> for a value that is no object.\<close>

definition prefetched_object :: "r_value option \<Rightarrow> r_object option option" where
  "prefetched_object v =
     (case v of Some (RV_Object obj) \<Rightarrow> Some (Some obj) | Some _ \<Rightarrow> None | None \<Rightarrow> Some None)"

text \<open>The value that was prefetched for a field, and what is left of the prefetched object.\<close>

definition prefetched_field ::
    "string set \<Rightarrow> a_field \<Rightarrow> r_object option \<Rightarrow> r_value option \<times> r_object option" where
  "prefetched_field multiple f prefetched =
     (case prefetched of
        None \<Rightarrow> (None, None)
      | Some obj \<Rightarrow>
          (case robject_remove obj (''prefetch:'' @ response_key f) of
             (Some v, obj') \<Rightarrow> (Some v, Some obj')
           | (None, obj') \<Rightarrow>
               if af_name f \<in> multiple then (robject_get obj' (af_name f), Some obj')
               else map_prod id Some (robject_remove obj' (af_name f))))"

definition complete_leaf :: "exec_ctx \<Rightarrow> a_field \<Rightarrow> type_definition \<Rightarrow> r_value \<Rightarrow> query_execution_error list + r_value" where
  "complete_leaf ctx f td v =
     (case td of
        TD_Scalar t \<Rightarrow>
          map_sum (\<lambda>w. [ScalarCoercionError (af_name f) (q_from w) (pt_name t)]) id
            (coerce_scalar (xc_show_f64 ctx) (pt_name t) v)
      | TD_Enum t \<Rightarrow>
          map_sum (\<lambda>w. [EnumCoercionError (af_name f) (q_from w) (pt_name t) (enum_values t)]) id
            (coerce_enum (enum_values t) v)
      | _ \<Rightarrow> Inl [QE_Abort ''input objects are never resolved''])"

definition complete_object_type :: "exec_ctx \<Rightarrow> type_definition \<Rightarrow> r_value \<Rightarrow> (query_execution_error + object_type) option" where
  "complete_object_type ctx td v =
     (case td of
        TD_Object t \<Rightarrow>
          Some (case api_object_type (xc_schema ctx) t of
                  None \<Rightarrow> Inl (QE_Abort ''ApiSchema.object_type is only used with existing types'')
                | Some t' \<Rightarrow> Inr t')
      | TD_Interface _ \<Rightarrow> Some (resolve_abstract_type (xc_schema ctx) v)
      | TD_Union _ \<Rightarrow> Some (resolve_abstract_type (xc_schema ctx) v)
      | _ \<Rightarrow> None)"

lemma fields_for_smaller:
  assumes "fields_for sels t = Inr fs"
  shows "size_list size fs < selections_size sels"
proof -
  obtain t' where "(t', fs) \<in> set sels"
    using assms by (auto simp: fields_for_def find_Some_iff split: option.splits) (metis nth_mem)
  then show ?thesis using size_list_mem [of "(t', fs)" sels "size_prod (\<lambda>_. 0) (size_list size)"] by simp
qed

function (sequential) execute_selection_set_to_map ::
      "exec_ctx \<Rightarrow> selection_set \<Rightarrow> object_type \<Rightarrow> r_value option \<Rightarrow> nat \<Rightarrow>
       nat \<times> (query_execution_error list + r_object)"
  and execute_response_fields ::
      "exec_ctx \<Rightarrow> object_type \<Rightarrow> string set \<Rightarrow> a_field list \<Rightarrow> r_object option \<Rightarrow> (string \<times> r_value) list \<Rightarrow>
       query_execution_error list \<Rightarrow> nat \<Rightarrow>
       nat \<times> (query_execution_error list + (string \<times> r_value) list \<times> query_execution_error list)"
  and complete_value ::
      "exec_ctx \<Rightarrow> a_field \<Rightarrow> s_type \<Rightarrow> r_value \<Rightarrow> nat \<Rightarrow> nat \<times> (query_execution_error list + r_value)"
  and complete_values ::
      "exec_ctx \<Rightarrow> a_field \<Rightarrow> s_type \<Rightarrow> r_value list \<Rightarrow> nat \<Rightarrow>
       nat \<times> (query_execution_error list + r_value list \<times> query_execution_error list)"
where
  "execute_selection_set_to_map ctx sels t prefetched c =
     (case prefetched_object prefetched of
        None \<Rightarrow> (c, Inl [QE_Abort ''unreachable''])
      | Some obj \<Rightarrow>
          (case fields_for sels t of
             Inl e \<Rightarrow> (c, Inl [e])
           | Inr flds \<Rightarrow>
               (case execute_response_fields ctx t (multiple_names (map af_name flds)) flds obj [] [] c of
                  (c', Inl e) \<Rightarrow> (c', Inl e)
                | (c', Inr (results, errors)) \<Rightarrow>
                    (c', if errors = [] then Inr (robject_from_iter results) else Inl errors))))"
| "execute_response_fields ctx t multiple [] prefetched results errors c = (c, Inr (results, errors))"
| "execute_response_fields ctx t multiple (f # flds) prefetched results errors c =
     (let (late, c) = exec_deadline_passed ctx c in
      if late then (c, Inr (results, errors @ [QE_Timeout]))
      else
        case sast_get_field (OI_Object t) (af_name f) of
          None \<Rightarrow> (c, Inl [QE_Abort ''the query was validated to contain only valid fields''])
        | Some field_type \<Rightarrow>
            (let (field_value, prefetched) = prefetched_field multiple f prefetched in
             if af_name f = ''__typename'' \<and> field_value = None then
               execute_response_fields ctx t multiple flds prefetched
                 (results @ [(response_key f, RV_String (obj_name t))]) errors c
             else
               (case (case resolve_field_value ctx field_value f field_type (fld_type field_type) of
                        Inl e \<Rightarrow> (c, Inl e)
                      | Inr v \<Rightarrow> complete_value ctx f (fld_type field_type) v c) of
                  (c', Inr v) \<Rightarrow>
                    execute_response_fields ctx t multiple flds prefetched (results @ [(response_key f, v)]) errors c'
                | (c', Inl e) \<Rightarrow>
                    if has_panic e then (c', Inl e)
                    else execute_response_fields ctx t multiple flds prefetched results (errors @ e) c')))"
| "complete_value ctx f (NonNullType inner_type) v c =
     (case complete_value ctx f inner_type v c of
        (c', Inr RV_Null) \<Rightarrow> (c', Inl [NonNullError (af_name f)])
      | r \<Rightarrow> r)"
| "complete_value ctx f (ListType inner_type) v c =
     (if r_is_null v then (c, Inr v)
      else case v of
             RV_List vs \<Rightarrow>
               (case complete_values ctx f inner_type vs c of
                  (c', Inl e) \<Rightarrow> (c', Inl e)
                | (c', Inr (vs', errors)) \<Rightarrow> (c', if errors = [] then Inr (RV_List vs') else Inl errors))
           | _ \<Rightarrow> (c, Inl [ListValueError (af_name f)]))"
| "complete_value ctx f (NamedType name) v c =
     (if r_is_null v then (c, Inr v)
      else case api_get_named_type (xc_schema ctx) name of
             None \<Rightarrow> (c, Inl [QE_Abort ''get_named_type''])
           | Some td \<Rightarrow>
               (case complete_object_type ctx td v of
                  None \<Rightarrow> (c, complete_leaf ctx f td v)
                | Some (Inl e) \<Rightarrow> (c, Inl [e])
                | Some (Inr t) \<Rightarrow>
                    (case execute_selection_set_to_map ctx (af_selection_set f) t (Some v) c of
                       (c', Inl e) \<Rightarrow> (c', Inl e)
                     | (c', Inr obj) \<Rightarrow> (c', Inr (RV_Object obj)))))"
| "complete_values ctx f inner_type [] c = (c, Inr ([], []))"
| "complete_values ctx f inner_type (v # vs) c =
     (case complete_value ctx f inner_type v c of
        (c', Inl e) \<Rightarrow>
          if has_panic e then (c', Inl e)
          else (case complete_values ctx f inner_type vs c' of
                  (c'', Inl e') \<Rightarrow> (c'', Inl e')
                | (c'', Inr (vs', errors)) \<Rightarrow> (c'', Inr (RV_Null # vs', e @ errors)))
      | (c', Inr v') \<Rightarrow>
          (case complete_values ctx f inner_type vs c' of
             (c'', Inl e') \<Rightarrow> (c'', Inl e')
           | (c'', Inr (vs', errors)) \<Rightarrow> (c'', Inr (v' # vs', errors))))"
  by pat_completeness auto

termination
  by (relation "measures [\<lambda>x. case x of
        Inl (Inl (ctx, sels, t, p, c)) \<Rightarrow> 2 * selections_size sels
      | Inl (Inr (ctx, t, m, flds, p, rs, es, c)) \<Rightarrow> 2 * size_list size flds + 1
      | Inr (Inl (ctx, f, ty, v, c)) \<Rightarrow> 2 * size f
      | Inr (Inr (ctx, f, ty, vs, c)) \<Rightarrow> 2 * size f,
    \<lambda>x. case x of
        Inr (Inl (ctx, f, ty, v, c)) \<Rightarrow> 2 * size ty
      | Inr (Inr (ctx, f, ty, vs, c)) \<Rightarrow> 2 * size ty + 1
      | _ \<Rightarrow> 0,
    \<lambda>x. case x of Inr (Inr (ctx, f, ty, vs, c)) \<Rightarrow> length vs | _ \<Rightarrow> 0]")
    (auto dest: fields_for_smaller simp: size_a_field)

declare execute_selection_set_to_map.simps [simp del] execute_response_fields.simps [simp del]
  complete_value.simps [simp del] complete_values.simps [simp del]

section \<open>The resolver of the store\<close>

record block_ptr_ts =
  bpt_ptr :: block_ptr
  bpt_timestamp :: "u64 option"

record deployment_state =
  ds_id :: deployment_hash
  ds_reorg_count :: u32
  ds_max_reorg_depth :: u32
  ds_latest_block :: block_ptr
  ds_earliest_block_number :: block_number

definition block_queryable :: "deployment_state \<Rightarrow> block_number \<Rightarrow> string + unit" where
  "block_queryable st block =
     (if ptr_number (ds_latest_block st) < block then Inl ''data for the block is not yet available''
      else if block < ds_earliest_block_number st then Inl ''data for the block is not available''
      else Inr ())"

text \<open>What the resolver asks the store for.\<close>

record query_store =
  qs_block_number_with_timestamp :: "bytes \<Rightarrow> query_execution_error + (block_number \<times> u64 option) option"
  qs_has_deterministic_errors :: "block_number \<Rightarrow> query_execution_error + bool"
  qs_deployment_state :: "query_execution_error + deployment_state"

definition queryable_error :: "deployment_state \<Rightarrow> block_number \<Rightarrow> query_execution_error + unit" where
  "queryable_error st block = map_sum (\<lambda>_. QE_Value (ValueParseError ''block.number'')) id (block_queryable st block)"

definition get_block_ts :: "query_store \<Rightarrow> block_ptr \<Rightarrow> query_execution_error + u64 option" where
  "get_block_ts store ptr =
     and_then (qs_block_number_with_timestamp store (ptr_hash ptr)) (\<lambda>r.
       case r of Some (_, Some ts) \<Rightarrow> Inr (Some ts) | _ \<Rightarrow> Inr None)"

definition ZERO_HASH :: bytes where
  "ZERO_HASH = replicate 32 0"

definition locate_block :: "query_store \<Rightarrow> block_constraint \<Rightarrow> deployment_state \<Rightarrow> query_execution_error + block_ptr_ts" where
  "locate_block store bc st =
     (case bc of
        BC_Hash hash \<Rightarrow>
          and_then (qs_block_number_with_timestamp store hash) (\<lambda>r.
            case r of
              None \<Rightarrow> Inl (QE_Value (ValueParseError ''block.hash''))
            | Some (number, ts) \<Rightarrow>
                and_then (queryable_error st number) (\<lambda>_.
                  Inr \<lparr> bpt_ptr = \<lparr> ptr_hash = hash, ptr_number = number \<rparr>, bpt_timestamp = ts \<rparr>))
      | BC_Number number \<Rightarrow>
          and_then (queryable_error st number) (\<lambda>_.
            Inr \<lparr> bpt_ptr = \<lparr> ptr_hash = ZERO_HASH, ptr_number = number \<rparr>, bpt_timestamp = None \<rparr>)
      | BC_Min min_number \<Rightarrow>
          if ptr_number (ds_latest_block st) < min_number then Inl (QE_Value (ValueParseError ''block.number_gte''))
          else and_then (get_block_ts store (ds_latest_block st)) (\<lambda>ts.
                 Inr \<lparr> bpt_ptr = ds_latest_block st, bpt_timestamp = ts \<rparr>)
      | BC_Latest \<Rightarrow>
          and_then (get_block_ts store (ds_latest_block st)) (\<lambda>ts.
            Inr \<lparr> bpt_ptr = ds_latest_block st, bpt_timestamp = ts \<rparr>))"

record store_resolver =
  sr_block_ptr :: "block_ptr_ts option"
  sr_deployment :: deployment_hash
  sr_has_non_fatal_errors :: bool
  sr_error_policy :: error_policy

definition resolver_for_subscription :: "deployment_hash \<Rightarrow> store_resolver" where
  "resolver_for_subscription deployment =
     \<lparr> sr_block_ptr = None, sr_deployment = deployment, sr_has_non_fatal_errors = False, sr_error_policy = EP_Deny \<rparr>"

definition resolver_at_block ::
    "query_store \<Rightarrow> deployment_state \<Rightarrow> block_constraint \<Rightarrow> error_policy \<Rightarrow> deployment_hash \<Rightarrow>
     query_execution_error + store_resolver" where
  "resolver_at_block store st bc error_policy deployment =
     and_then (locate_block store bc st) (\<lambda>ptr.
     and_then (qs_has_deterministic_errors store (ptr_number (bpt_ptr ptr))) (\<lambda>has_errors.
       Inr \<lparr> sr_block_ptr = Some ptr, sr_deployment = deployment, sr_has_non_fatal_errors = has_errors,
             sr_error_policy = error_policy \<rparr>))"

definition resolver_block_number :: "store_resolver \<Rightarrow> block_number" where
  "resolver_block_number sr =
     (case sr_block_ptr sr of None \<Rightarrow> BLOCK_NUMBER_MAX | Some ptr \<Rightarrow> ptr_number (bpt_ptr ptr))"

definition ooi_is_meta :: "object_or_interface \<Rightarrow> bool" where
  "ooi_is_meta t = (case t of OI_Object o' \<Rightarrow> object_is_meta o' | OI_Interface _ \<Rightarrow> False)"

definition BLOCK_FIELD_TYPE :: string where "BLOCK_FIELD_TYPE = ''_Block_''"

definition meta_value :: "scalar_lib \<Rightarrow> store_resolver \<Rightarrow> r_value" where
  "meta_value lib sr =
     (let hash = (case sr_block_ptr sr of
                    None \<Rightarrow> RV_Null
                  | Some ptr \<Rightarrow>
                      if ptr_hash (bpt_ptr ptr) = ZERO_HASH then RV_Null
                      else RV_String (bytes_to_string lib (ptr_hash (bpt_ptr ptr))));
          number = (case sr_block_ptr sr of
                      None \<Rightarrow> RV_Null | Some ptr \<Rightarrow> RV_Int (word_of_int (ptr_number (bpt_ptr ptr))));
          timestamp = (case Option.bind (sr_block_ptr sr) bpt_timestamp of None \<Rightarrow> RV_Null | Some ts \<Rightarrow> RV_Int ts);
          block = RV_Object (robject_from_iter
                    [(''hash'', hash), (''number'', number), (''timestamp'', timestamp),
                     (''__typename'', RV_String BLOCK_FIELD_TYPE)])
      in r_object_value (bt_from_iter
           [(''prefetch:block'', RV_List [block]), (''deployment'', RV_String (sr_deployment sr)),
            (''hasIndexingErrors'', RV_Boolean (sr_has_non_fatal_errors sr)),
            (''__typename'', RV_String META_FIELD_TYPE)]))"

text \<open>
  The value for \<open>_meta\<close> replaces what was prefetched. A hash that does not have 32 bytes makes the
  conversion to \<open>H256\<close> panic.
\<close>

definition handle_meta ::
    "scalar_lib \<Rightarrow> store_resolver \<Rightarrow> r_value option \<Rightarrow> object_or_interface \<Rightarrow>
     query_execution_error + r_value option \<times> r_value option" where
  "handle_meta lib sr prefetched t =
     (if ooi_is_meta t then
        (if (case sr_block_ptr sr of None \<Rightarrow> True | Some ptr \<Rightarrow> length (ptr_hash (bpt_ptr ptr)) = 32)
         then Inr (None, Some (meta_value lib sr)) else Inl (QE_Abort ''hash_as_h256''))
      else Inr (prefetched, None))"

definition expected_prefetched :: "object_or_interface \<Rightarrow> a_field \<Rightarrow> query_execution_error" where
  "expected_prefetched t f =
     ResolveEntitiesError (''internal error resolving '' @ ooi_name t @ ''.'' @ af_name f @
       '': expected prefetched result, but found nothing'')"

definition store_resolve_objects ::
    "r_value option \<Rightarrow> a_field \<Rightarrow> s_field \<Rightarrow> object_or_interface \<Rightarrow> query_execution_error + r_value" where
  "store_resolve_objects prefetched f field_definition t =
     (case prefetched of Some child \<Rightarrow> Inr child | None \<Rightarrow> Inl (expected_prefetched t f))"

definition store_resolve_object ::
    "scalar_lib \<Rightarrow> store_resolver \<Rightarrow> r_value option \<Rightarrow> a_field \<Rightarrow> s_field \<Rightarrow> object_or_interface \<Rightarrow>
     query_execution_error + r_value" where
  "store_resolve_object lib sr prefetched f field_definition t =
     and_then (handle_meta lib sr prefetched t) (\<lambda>(prefetched, meta).
       case meta of
         Some m \<Rightarrow> Inr m
       | None \<Rightarrow>
           (case prefetched of
              Some (RV_List children) \<Rightarrow>
                (case children of
                   [] \<Rightarrow> Inr RV_Null
                 | [child] \<Rightarrow> Inr child
                 | _ \<Rightarrow>
                     (case get_derived_from_field t field_definition of
                        None \<Rightarrow> Inl (QE_Abort ''only derived fields can lead to multiple children here'')
                      | Some derived_from_field \<Rightarrow>
                          Inl (AmbiguousDerivedFromResult (af_name f) (ooi_name t) (fld_name derived_from_field))))
            | _ \<Rightarrow> Inl (expected_prefetched t f)))"

section \<open>Results\<close>

datatype q_error = QErr_Encoding | QErr_Parse | QErr_Execution query_execution_error | QErr_Indexing

fun q_error_is_attestable :: "q_error \<Rightarrow> bool" where
  "q_error_is_attestable (QErr_Execution e) = is_attestable e"
| "q_error_is_attestable QErr_Indexing = False"
| "q_error_is_attestable _ = True"

record query_result =
  qr_data :: "r_object option"
  qr_errors :: "q_error list"
  qr_deployment :: "deployment_hash option"

definition query_result_new :: "r_object \<Rightarrow> query_result" where
  "query_result_new data = \<lparr> qr_data = Some data, qr_errors = [], qr_deployment = None \<rparr>"

definition query_result_errors :: "query_execution_error list \<Rightarrow> query_result" where
  "query_result_errors es = \<lparr> qr_data = None, qr_errors = map QErr_Execution es, qr_deployment = None \<rparr>"

definition query_result_from :: "query_execution_error list + r_object \<Rightarrow> query_result" where
  "query_result_from r = (case r of Inl es \<Rightarrow> query_result_errors es | Inr data \<Rightarrow> query_result_new data)"

definition has_errors :: "query_result \<Rightarrow> bool" where
  "has_errors r \<longleftrightarrow> qr_errors r \<noteq> []"

definition result_not_found :: "query_result \<Rightarrow> bool" where
  "result_not_found r =
     list_ex (\<lambda>e. case e of QErr_Execution (DeploymentNotFound _) \<Rightarrow> True | _ \<Rightarrow> False) (qr_errors r)"

definition result_is_attestable :: "query_result \<Rightarrow> bool" where
  "result_is_attestable r = list_all q_error_is_attestable (qr_errors r)"

definition to_result :: "query_result \<Rightarrow> q_error list + r_value option" where
  "to_result r = (if has_errors r then Inl (qr_errors r) else Inr (map_option RV_Object (qr_data r)))"

definition post_process :: "store_resolver \<Rightarrow> query_result \<Rightarrow> query_result" where
  "post_process sr r =
     (if \<not> sr_has_non_fatal_errors sr \<or> has_errors r then r
      else
        let r' = r\<lparr>qr_errors := [QErr_Indexing]\<rparr> in
        case sr_error_policy sr of
          EP_Allow \<Rightarrow> r'
        | EP_Deny \<Rightarrow>
            r'\<lparr>qr_data := map_option (\<lambda>m. robject_from_iter [(''_meta'', m)])
                 (Option.bind (qr_data r) (\<lambda>d. fst (robject_remove d ''_meta'')))\<rparr>)"

section \<open>Queries\<close>

text \<open>
  Root fields are answered from the prefetched data (and \<open>_meta\<close> and \<open>__typename\<close> without any), or by
  introspection. What the execution of a query needs beside its context: the prefetching of the resolver, the
  context with the resolver for introspection, and the selections of the whole query.
\<close>

record root_env =
  rt_prefetch :: "selection_set \<Rightarrow> nat \<Rightarrow> nat \<times> (query_execution_error list + r_value option)"
  rt_introspection_ctx :: exec_ctx
  rt_query_set :: selection_set

definition INTROSPECTION_QUERY_TYPE :: object_type where
  "INTROSPECTION_QUERY_TYPE =
     \<lparr> obj_name = ''Query'', obj_implements_interfaces = [], obj_directives = [],
       obj_fields =
         [\<lparr> fld_name = ''__schema'', fld_arguments = [], fld_type = NonNullType (NamedType ''__Schema''),
            fld_directives = [] \<rparr>,
          \<lparr> fld_name = ''__type'', fld_arguments = [input_value_of ''name'' [] (NonNullType (NamedType ''String''))],
            fld_type = NamedType ''__Type'', fld_directives = [] \<rparr>] \<rparr>"

definition is_introspection_field :: "string \<Rightarrow> bool" where
  "is_introspection_field name = list_ex (\<lambda>f. fld_name f = name) (obj_fields INTROSPECTION_QUERY_TYPE)"

definition META_FIELD_NAME :: string where "META_FIELD_NAME = ''_meta''"

text \<open>The loop that splits the root fields: the data, the introspection and the meta fields.\<close>

definition split_root_field ::
    "a_field \<Rightarrow> selection_set \<times> selection_set \<times> a_field list \<Rightarrow>
     query_execution_error + selection_set \<times> selection_set \<times> a_field list" where
  "split_root_field f st =
     (let (data_set, intro_set, meta_items) = st in
      if is_introspection_field (af_name f) then
        map_sum id (\<lambda>intro_set. (data_set, intro_set, meta_items)) (set_push intro_set f)
      else if af_name f = META_FIELD_NAME \<or> af_name f = ''__typename'' then
        Inr (data_set, intro_set, meta_items @ [f])
      else map_sum id (\<lambda>data_set. (data_set, intro_set, meta_items)) (set_push data_set f))"

definition split_root ::
    "selection_set \<Rightarrow> object_type \<Rightarrow>
     query_execution_error + selection_set \<times> selection_set \<times> a_field list" where
  "split_root sels root_ty =
     and_then (fields_for sels root_ty) (\<lambda>flds.
       try_fold split_root_field flds (empty_from sels, empty_from sels, []))"

definition execute_data_set ::
    "root_env \<Rightarrow> exec_ctx \<Rightarrow> selection_set \<Rightarrow> a_field list \<Rightarrow> object_type \<Rightarrow> nat \<Rightarrow>
     nat \<times> (query_execution_error list + r_object)" where
  "execute_data_set env ctx data_set meta_items root_ty c =
     (if set_is_empty data_set \<and> meta_items = [] then (c, Inr (robject_from_iter []))
      else
        case rt_prefetch env data_set c of
          (c', Inl e) \<Rightarrow> (c', Inl e)
        | (c', Inr initial_data) \<Rightarrow>
            (case push_fields data_set meta_items of
               Inl e \<Rightarrow> (c', Inl [e])
             | Inr data_set' \<Rightarrow> execute_selection_set_to_map ctx data_set' root_ty initial_data c'))"

definition execute_root_selection_set_uncached ::
    "root_env \<Rightarrow> exec_ctx \<Rightarrow> selection_set \<Rightarrow> object_type \<Rightarrow> nat \<Rightarrow>
     nat \<times> (query_execution_error list + r_object)" where
  "execute_root_selection_set_uncached env ctx sels root_ty c =
     (case split_root sels root_ty of
        Inl e \<Rightarrow> (c, Inl [e])
      | Inr (data_set, intro_set, meta_items) \<Rightarrow>
          (case execute_data_set env ctx data_set meta_items root_ty c of
             (c', Inl e) \<Rightarrow> (c', Inl e)
           | (c', Inr values) \<Rightarrow>
               if set_is_empty intro_set then (c', Inr values)
               else (case execute_selection_set_to_map (rt_introspection_ctx env) (rt_query_set env)
                            INTROSPECTION_QUERY_TYPE None c' of
                       (c'', Inl e) \<Rightarrow> (c'', Inl e)
                     | (c'', Inr intro) \<Rightarrow> (c'', Inr (robject_extend values intro)))))"

text \<open>
  A panic anywhere in the execution ends the blocking task and is reported as an error of its own. The
  caches for results are left out: they answer with a result of the same query at the same block.
\<close>

definition panic_message :: "query_execution_error list \<Rightarrow> string option" where
  "panic_message es =
     map_option (\<lambda>e. case e of QE_Abort m \<Rightarrow> m | _ \<Rightarrow> '''')
       (find (\<lambda>e. case e of QE_Abort _ \<Rightarrow> True | _ \<Rightarrow> False) es)"

definition execute_root_selection_set ::
    "root_env \<Rightarrow> exec_ctx \<Rightarrow> store_resolver \<Rightarrow> selection_set \<Rightarrow> object_type \<Rightarrow> nat \<Rightarrow> nat \<times> query_result" where
  "execute_root_selection_set env ctx sr sels root_ty c =
     (let (c', r) = execute_root_selection_set_uncached env ctx sels root_ty c in
      (c', case r of
             Inl es \<Rightarrow>
               (case panic_message es of
                  Some m \<Rightarrow> query_result_errors [QE_Panic m]
                | None \<Rightarrow> (post_process sr (query_result_errors es))\<lparr>qr_deployment := Some (sch_id (api_sch (xc_schema ctx)))\<rparr>)
           | Inr values \<Rightarrow> (post_process sr (query_result_new values))\<lparr>qr_deployment := Some (sch_id (api_sch (xc_schema ctx)))\<rparr>))"

definition execute_query ::
    "root_env \<Rightarrow> exec_ctx \<Rightarrow> store_resolver \<Rightarrow> prepared_query \<Rightarrow> selection_set option \<Rightarrow> nat \<Rightarrow> nat \<times> query_result" where
  "execute_query env ctx sr q sels c =
     (if \<not> is_query q then (c, query_result_errors [NotSupported ''Only queries are supported''])
      else execute_root_selection_set env ctx sr
             (case sels of Some s \<Rightarrow> s | None \<Rightarrow> pq_selection_set q) (api_query_type (pq_schema q)) c)"

section \<open>The types of responses\<close>

text \<open>
  The object types that a value of an object type, an interface or a union can have. The code takes the
  type that \<open>__typename\<close> names without checking that it implements the interface.
\<close>

definition response_object_type :: "api_schema \<Rightarrow> type_definition \<Rightarrow> object_type \<Rightarrow> bool" where
  "response_object_type s td t \<longleftrightarrow>
     (case td of
        TD_Object o' \<Rightarrow> api_object_type s o' = Some t
      | TD_Interface _ \<Rightarrow> (\<exists>name o'. api_get_named_type s name = Some (TD_Object o') \<and> api_object_type s o' = Some t)
      | TD_Union _ \<Rightarrow> (\<exists>name o'. api_get_named_type s name = Some (TD_Object o') \<and> api_object_type s o' = Some t)
      | _ \<Rightarrow> False)"

inductive response_has_type :: "api_schema \<Rightarrow> selection_set \<Rightarrow> r_value \<Rightarrow> s_type \<Rightarrow> bool"
  and object_conforms :: "api_schema \<Rightarrow> selection_set \<Rightarrow> object_type \<Rightarrow> r_object \<Rightarrow> bool"
  for s where
  null_named: "response_has_type s sels RV_Null (NamedType name)"
| null_list: "response_has_type s sels RV_Null (ListType ty)"
| non_null: "response_has_type s sels v ty \<Longrightarrow> v \<noteq> RV_Null \<Longrightarrow> response_has_type s sels v (NonNullType ty)"
| list_of: "\<forall>v \<in> set vs. response_has_type s sels v ty \<Longrightarrow> response_has_type s sels (RV_List vs) (ListType ty)"
| scalar_named: "api_get_named_type s name = Some (TD_Scalar t) \<Longrightarrow> scalar_has_type (pt_name t) v \<Longrightarrow>
     response_has_type s sels v (NamedType name)"
| enum_named: "api_get_named_type s name = Some (TD_Enum t) \<Longrightarrow> e \<in> set (enum_values t) \<Longrightarrow>
     response_has_type s sels (RV_Enum e) (NamedType name)"
| object_named: "api_get_named_type s name = Some td \<Longrightarrow> response_object_type s td t \<Longrightarrow> object_conforms s sels t obj \<Longrightarrow>
     response_has_type s sels (RV_Object obj) (NamedType name)"
| object_fields: "fields_for sels t = Inr flds \<Longrightarrow>
     list_all2 (\<lambda>f item. fst item = response_key f \<and>
        (af_name f = ''__typename'' \<and> snd item = RV_String (obj_name t) \<or>
         (\<exists>fd. sast_get_field (OI_Object t) (af_name f) = Some fd \<and>
            response_has_type s (af_selection_set f) (snd item) (fld_type fd)))) flds items \<Longrightarrow>
     object_conforms s sels t (robject_from_iter items)"

abbreviation item_conforms :: "api_schema \<Rightarrow> object_type \<Rightarrow> a_field \<Rightarrow> string \<times> r_value \<Rightarrow> bool" where
  "item_conforms s t f item \<equiv> fst item = response_key f \<and>
     (af_name f = ''__typename'' \<and> snd item = RV_String (obj_name t) \<or>
      (\<exists>fd. sast_get_field (OI_Object t) (af_name f) = Some fd \<and>
         response_has_type s (af_selection_set f) (snd item) (fld_type fd)))"

lemma r_is_null_iff [simp]: "r_is_null v \<longleftrightarrow> v = RV_Null"
  by (cases v) (auto simp: r_is_null_def)

lemma has_panic_nonempty: "has_panic e \<Longrightarrow> e \<noteq> []"
  by (auto simp: has_panic_def)

lemma one_error_Inl: "one_error r = Inl e \<Longrightarrow> e \<noteq> []"
  by (cases r) (auto simp: one_error_def)

lemma resolve_field_value_error: "resolve_field_value ctx v f fd ty = Inl e \<Longrightarrow> e \<noteq> []"
proof (induction ty)
  case (ListType ty)
  then show ?case by (induction ty) (auto dest: one_error_Inl)
qed (auto simp: resolve_field_value_for_named_type_def dest: one_error_Inl)

lemma complete_leaf_error: "complete_leaf ctx f td v = Inl e \<Longrightarrow> e \<noteq> []"
  by (auto simp: complete_leaf_def map_sum_def split: type_definition.splits sum.splits)

lemma complete_leaf_typed:
  assumes "complete_leaf ctx f td v = Inr w" "v \<noteq> RV_Null" "api_get_named_type s name = Some td"
  shows "response_has_type s sels w (NamedType name)"
  using assms
  by (auto simp: complete_leaf_def map_sum_def split: type_definition.splits sum.splits
      dest!: coerce_scalar_typed coerce_enum_typed intro: scalar_named enum_named)

lemma complete_object_type_typed:
  "complete_object_type ctx td v = Some (Inr t) \<Longrightarrow> response_object_type (xc_schema ctx) td t"
  by (auto simp: complete_object_type_def response_object_type_def resolve_abstract_type_def
      split: type_definition.splits option.splits r_value.splits)

text \<open>The selections of the fields of a set are smaller than the set.\<close>

lemma selection_set_induct:
  assumes "\<And>sels. (\<And>t flds f. fields_for sels t = Inr flds \<Longrightarrow> f \<in> set flds \<Longrightarrow> P (af_selection_set f)) \<Longrightarrow> P sels"
  shows "P sels"
proof (induction "selections_size sels" arbitrary: sels rule: less_induct)
  case less
  show ?case
  proof (rule assms)
    fix t flds f
    assume "fields_for sels t = Inr flds" "f \<in> set flds"
    then have "selections_size (af_selection_set f) < selections_size sels"
      using fields_for_smaller [of sels t flds] size_list_mem [of f flds size] size_a_field [of f] by simp
    then show "P (af_selection_set f)" by (rule less)
  qed
qed

text \<open>What a turn of the loop over the fields does.\<close>

definition field_result ::
    "exec_ctx \<Rightarrow> a_field \<Rightarrow> s_field \<Rightarrow> r_value option \<Rightarrow> nat \<Rightarrow> nat \<times> (query_execution_error list + r_value)" where
  "field_result ctx f field_type field_value c =
     (case resolve_field_value ctx field_value f field_type (fld_type field_type) of
        Inl e \<Rightarrow> (c, Inl e)
      | Inr v \<Rightarrow> complete_value ctx f (fld_type field_type) v c)"

lemma execute_response_fields_step:
  assumes "execute_response_fields ctx t m (f # flds) p rs es c = r"
  obtains (invalid) c1 msg where "r = (c1, Inl [QE_Abort msg])"
  | (late) c1 where "xc_deadline ctx \<noteq> None" "r = (c1, Inr (rs, es @ [QE_Timeout]))"
  | (typename) p' c1 where "af_name f = ''__typename''"
      "r = execute_response_fields ctx t m flds p' (rs @ [(response_key f, RV_String (obj_name t))]) es c1"
  | (completed) fd fv v p' c1 c2 where "sast_get_field (OI_Object t) (af_name f) = Some fd"
      "field_result ctx f fd fv c1 = (c2, Inr v)"
      "r = execute_response_fields ctx t m flds p' (rs @ [(response_key f, v)]) es c2"
  | (failed) fd fv e p' c1 c2 where "sast_get_field (OI_Object t) (af_name f) = Some fd"
      "field_result ctx f fd fv c1 = (c2, Inl e)"
      "r = (if has_panic e then (c2, Inl e) else execute_response_fields ctx t m flds p' rs (es @ e) c2)"
proof -
  obtain late c1 where d: "exec_deadline_passed ctx c = (late, c1)" by fastforce
  obtain fv p' where pf: "prefetched_field m f p = (fv, p')" by fastforce
  note step = assms [unfolded execute_response_fields.simps d pf Let_def split_conv, folded field_result_def]
  show thesis
  proof (cases late)
    case True
    with d have "xc_deadline ctx \<noteq> None" by (auto simp: exec_deadline_passed_def split: option.splits)
    with True step that(2) [of c1] show thesis by simp
  next
    case False
    show thesis
    proof (cases "sast_get_field (OI_Object t) (af_name f)")
      case None
      with step False that(1) [of c1] show thesis by force
    next
      case (Some fd)
      obtain c2 fr where fr: "field_result ctx f fd fv c1 = (c2, fr)" by fastforce
      show thesis
      proof (cases "af_name f = ''__typename'' \<and> fv = None")
        case True
        with step False Some that(3) [of p' c1] show thesis by simp
      next
        case nt: False
        show thesis
        proof (cases fr)
          case (Inl e)
          with fr that(5) [of fd fv c1 c2 e p'] step False Some nt show thesis by simp
        next
          case (Inr v)
          with fr that(4) [of fd fv c1 c2 v p'] step False Some nt show thesis by simp
        qed
      qed
    qed
  qed
qed

text \<open>Every failure names an error, so that no field can be left out of a response in silence.\<close>

definition errors_named :: "exec_ctx \<Rightarrow> selection_set \<Rightarrow> bool" where
  "errors_named ctx sels \<longleftrightarrow> (\<forall>t p c c' e. execute_selection_set_to_map ctx sels t p c = (c', Inl e) \<longrightarrow> e \<noteq> [])"

lemma complete_values_error:
  assumes "\<And>v c c' e. complete_value ctx f ty v c = (c', Inl e) \<Longrightarrow> e \<noteq> []"
  shows "complete_values ctx f ty vs c = (c', Inl e) \<Longrightarrow> e \<noteq> []"
  by (induction vs arbitrary: c c' e)
    (auto simp: complete_values.simps has_panic_nonempty split: prod.splits sum.splits if_splits)

lemma complete_value_error:
  assumes "errors_named ctx (af_selection_set f)"
  shows "complete_value ctx f ty v c = (c', Inl e) \<Longrightarrow> e \<noteq> []"
proof (induction ty arbitrary: v c c' e)
  case (NamedType name)
  then show ?case using assms
    by (auto simp: complete_value.simps errors_named_def split: if_splits option.splits prod.splits sum.splits
        dest: complete_leaf_error)
next
  case (ListType ty)
  then show ?case using complete_values_error [of ctx f ty]
    by (auto simp: complete_value.simps split: if_splits r_value.splits prod.splits sum.splits)
next
  case (NonNullType ty)
  obtain c1 r where r: "complete_value ctx f ty v c = (c1, r)" by fastforce
  with NonNullType show ?case
    by (cases r) (auto simp: complete_value.simps split: r_value.splits)
qed

lemma field_result_error:
  "errors_named ctx (af_selection_set f) \<Longrightarrow> field_result ctx f fd fv c = (c', Inl e) \<Longrightarrow> e \<noteq> []"
  by (auto simp: field_result_def split: sum.splits dest: resolve_field_value_error complete_value_error)

lemma execute_response_fields_error:
  assumes "execute_response_fields ctx t m flds p rs es c = (c', Inl e)"
    and "\<And>f. f \<in> set flds \<Longrightarrow> errors_named ctx (af_selection_set f)"
  shows "e \<noteq> []"
  using assms
proof (induction flds arbitrary: p rs es c)
  case (Cons f flds)
  from Cons.prems(1) show ?case
    by (cases rule: execute_response_fields_step)
      (use Cons.IH Cons.prems(2) in \<open>auto simp: has_panic_nonempty split: if_splits\<close>)
qed (simp add: execute_response_fields.simps)

lemma all_errors_named: "errors_named ctx sels"
proof (induction sels rule: selection_set_induct)
  case (1 sels)
  show ?case
    unfolding errors_named_def
    by (auto simp: execute_selection_set_to_map.simps split: option.splits sum.splits prod.splits if_splits
        dest: execute_response_fields_error 1)
qed

definition responses_typed :: "exec_ctx \<Rightarrow> selection_set \<Rightarrow> bool" where
  "responses_typed ctx sels \<longleftrightarrow>
     (\<forall>t p c c' obj. execute_selection_set_to_map ctx sels t p c = (c', Inr obj) \<longrightarrow>
        object_conforms (xc_schema ctx) sels t obj)"

lemma complete_values_typed:
  assumes "\<And>v c c' w. complete_value ctx f ty v c = (c', Inr w) \<Longrightarrow> response_has_type s sels w ty"
  shows "complete_values ctx f ty vs c = (c', Inr (ws, [])) \<Longrightarrow>
    length ws = length vs \<and> (\<forall>w \<in> set ws. response_has_type s sels w ty)"
proof (induction vs arbitrary: c c' ws)
  case (Cons v vs)
  obtain c1 r where r: "complete_value ctx f ty v c = (c1, r)" by fastforce
  then have "e \<noteq> []" if "r = Inl e" for e
    using complete_value_error [OF all_errors_named] that by blast
  with r Cons.prems obtain w ws' where "r = Inr w" "ws = w # ws'" "complete_values ctx f ty vs c1 = (c', Inr (ws', []))"
    by (cases r) (auto simp: complete_values.simps split: prod.splits sum.splits if_splits)
  with Cons.IH assms r show ?case by auto
qed (simp add: complete_values.simps)

lemma complete_value_typed:
  assumes "responses_typed ctx (af_selection_set f)"
  shows "complete_value ctx f ty v c = (c', Inr w) \<Longrightarrow> response_has_type (xc_schema ctx) (af_selection_set f) w ty"
proof (induction ty arbitrary: v c c' w)
  case (NamedType name)
  show ?case
  proof (cases "v = RV_Null")
    case True
    with NamedType show ?thesis by (simp add: complete_value.simps null_named)
  next
    case False
    with NamedType assms show ?thesis
      by (auto simp: complete_value.simps responses_typed_def split: if_splits option.splits prod.splits sum.splits
          intro: complete_leaf_typed object_named dest: complete_object_type_typed)
  qed
next
  case (ListType ty)
  show ?case
  proof (cases "v = RV_Null")
    case False
    with ListType.prems obtain vs ws where "complete_values ctx f ty vs c = (c', Inr (ws, []))" "w = RV_List ws"
      by (auto simp: complete_value.simps split: r_value.splits prod.splits sum.splits if_splits)
    with complete_values_typed [OF ListType.IH] show ?thesis by (auto intro: list_of)
  qed (use ListType.prems in \<open>simp add: complete_value.simps null_list\<close>)
next
  case (NonNullType ty)
  obtain c1 r where "complete_value ctx f ty v c = (c1, r)" by fastforce
  with NonNullType show ?case
    by (cases r) (auto simp: complete_value.simps split: r_value.splits intro!: non_null)
qed

lemma field_result_typed:
  "responses_typed ctx (af_selection_set f) \<Longrightarrow> field_result ctx f fd fv c = (c', Inr w) \<Longrightarrow>
    response_has_type (xc_schema ctx) (af_selection_set f) w (fld_type fd)"
  by (auto simp: field_result_def split: sum.splits dest: complete_value_typed)

lemma execute_response_fields_typed:
  assumes "execute_response_fields ctx t m flds p rs es c = (c', Inr (rs', []))"
    and "\<And>f. f \<in> set flds \<Longrightarrow> responses_typed ctx (af_selection_set f)"
  shows "es = [] \<and> (\<exists>items. rs' = rs @ items \<and> list_all2 (item_conforms (xc_schema ctx) t) flds items)"
  using assms
proof (induction flds arbitrary: p rs es c)
  case (Cons f flds)
  note more = Cons.IH [OF _ Cons.prems(2)]
  from Cons.prems(1) show ?case
  proof (cases rule: execute_response_fields_step)
    case (typename p' c1)
    with more [OF typename(2) [symmetric]] show ?thesis by (auto simp: list_all2_Cons1)
  next
    case (completed fd fv v p' c1 c2)
    with more [OF completed(3) [symmetric]] field_result_typed Cons.prems(2) show ?thesis
      by (auto simp: list_all2_Cons1)
  next
    case (failed fd fv e p' c1 c2)
    with field_result_error [OF all_errors_named failed(2)] more show ?thesis by (fastforce split: if_splits)
  qed auto
qed (simp add: execute_response_fields.simps)

lemma all_responses_typed: "responses_typed ctx sels"
proof (induction sels rule: selection_set_induct)
  case (1 sels)
  have "object_conforms (xc_schema ctx) sels t obj"
    if "execute_selection_set_to_map ctx sels t p c = (c', Inr obj)" for t p c c' obj
  proof -
    from that obtain flds m p' rs where flds: "fields_for sels t = Inr flds"
      and rs: "execute_response_fields ctx t m flds p' [] [] c = (c', Inr (rs, []))" "obj = robject_from_iter rs"
      by (auto simp: execute_selection_set_to_map.simps split: option.splits sum.splits prod.splits if_splits)
    from execute_response_fields_typed [OF rs(1)] 1 [OF flds]
    have "list_all2 (item_conforms (xc_schema ctx) t) flds rs" by auto
    with flds rs(2) show ?thesis by (simp add: object_fields)
  qed
  then show ?case by (auto simp: responses_typed_def)
qed

text \<open>C0. A selection set that is executed without errors gives an object that has exactly the response keys of
  the fields that were selected for its type, in their order, with values of the types that the schema
  declares for the fields: scalars and enum values of the named type, lists of values of the element type, no null for a non-null
  type, and objects that conform in the same way to the selections of their field. The value of
  \<open>__typename\<close> is the name of the type of the object when the store did not provide it.\<close>

theorem response_conforms_to_schema:
  assumes "execute_selection_set_to_map ctx sels t prefetched c = (c', Inr obj)"
  shows "object_conforms (xc_schema ctx) sels t obj \<and>
    (\<exists>flds. fields_for sels t = Inr flds \<and> map fst obj = map (Some \<circ> response_key) flds)"
proof -
  have *: "object_conforms (xc_schema ctx) sels t obj"
    using assms all_responses_typed by (auto simp: responses_typed_def)
  then have "\<exists>flds. fields_for sels t = Inr flds \<and> map fst obj = map (Some \<circ> response_key) flds"
    by (cases rule: object_conforms.cases)
      (auto simp: robject_from_iter_def list_all2_conv_all_nth split_beta intro!: nth_equalityI)
  with * show ?thesis ..
qed

definition store_ctx :: exec_ctx where
  "store_ctx =
     \<lparr> xc_schema = user_schema, xc_show_f64 = (\<lambda>_. []), xc_deadline = None, xc_now = (\<lambda>_. 0),
       xc_resolve_objects = store_resolve_objects,
       xc_resolve_object = store_resolve_object reference_lib (resolver_for_subscription ''Qm'') \<rparr>"

definition user_selection :: a_field where
  "user_selection = A_Field (Some ''u'') ''user'' [] [] [(user_object, [A_Field None ''name'' [] [] []])]"

abbreviation ann :: r_value where
  "ann \<equiv> RV_Object (robject_from_iter [(''name'', RV_String ''Ann'')])"

lemma ann_executed:
  "execute_selection_set_to_map store_ctx [(query_object, [user_selection])] query_object
     (Some (RV_Object (robject_from_iter [(''prefetch:u'', RV_List [ann])]))) 0 =
   (0, Inr (robject_from_iter [(''u'', ann)]))"
  by (simp add: execute_selection_set_to_map.simps execute_response_fields.simps complete_value.simps
      prefetched_object_def prefetched_field_def fields_for_def user_selection_def store_ctx_def user_simps
      exec_deadline_passed_def response_key_def robject_from_iter_def has_key_def resolve_field_value_for_named_type_def
      one_error_def store_resolve_object_def handle_meta_def ooi_is_meta_def object_is_meta_def META_FIELD_TYPE_def
      and_then_def complete_object_type_def api_object_type_def complete_leaf_def coerce_scalar_def
      resolve_leaf_def)

theorem response_conforms_to_schema_witness:
  "object_conforms user_schema [(query_object, [user_selection])] query_object (robject_from_iter [(''u'', ann)])"
  using response_conforms_to_schema [OF ann_executed] by (simp add: store_ctx_def)

section \<open>Introspection beside data\<close>

lemma unknown_field_aborts:
  assumes "xc_deadline ctx = None" "f \<in> set flds" "sast_get_field (OI_Object t) (af_name f) = None"
  shows "\<exists>c' es. execute_response_fields ctx t m flds p rs errs c = (c', Inl es) \<and> has_panic es"
  using assms(2)
proof (induction flds arbitrary: p rs errs c)
  case (Cons g flds)
  obtain r where r: "execute_response_fields ctx t m (g # flds) p rs errs c = r" by blast
  then show ?case
  proof (cases rule: execute_response_fields_step)
    case (typename p' c1)
    then have "g \<noteq> f" using assms(3) by (auto simp: sast_get_field_def TYPENAME_FIELD_def)
    with Cons r typename(2) show ?thesis by simp
  next
    case (failed fd fv e p' c1 c2)
    then have "g \<noteq> f" using assms(3) by auto
    with Cons r failed(3) show ?thesis by simp
  qed (use Cons r assms(1,3) in \<open>auto simp: has_panic_def\<close>)
qed simp

lemma introspection_get_field:
  "\<not> is_introspection_field name \<Longrightarrow> name \<noteq> ''__typename'' \<Longrightarrow> sast_get_field (OI_Object INTROSPECTION_QUERY_TYPE) name = None"
  by (auto simp: sast_get_field_def TYPENAME_FIELD_def ooi_field_def INTROSPECTION_QUERY_TYPE_def is_introspection_field_def
      find_None_iff)

lemma panic_message_some: "has_panic es \<Longrightarrow> \<exists>m. panic_message es = Some m"
  by (auto simp: has_panic_def panic_message_def list_ex_iff find_None_iff simp flip: not_None_eq)

text \<open>C0. A query that asks for introspection and also has a root field that is data (or \<open>_meta\<close>) never gives any
  data. The introspection is run on the selections of the whole query rather than on the introspection
  fields alone, the query type of the introspection schema does not have the data field, and the \<open>unwrap\<close> of
  the lookup panics: when the data itself was fetched without errors, the answer is the error for a panic.\<close>

theorem introspection_beside_data_panics:
  assumes "split_root sels root_ty = Inr (data_set, intro_set, meta_items)" "\<not> set_is_empty intro_set"
    and "fields_for (rt_query_set env) INTROSPECTION_QUERY_TYPE = Inr flds" "f \<in> set flds"
    and "\<not> is_introspection_field (af_name f)" "af_name f \<noteq> ''__typename''"
    and "xc_deadline (rt_introspection_ctx env) = None"
    and "execute_data_set env ctx data_set meta_items root_ty c = (c1, Inr values)"
  shows "\<exists>m. snd (execute_root_selection_set env ctx sr sels root_ty c) = query_result_errors [QE_Panic m]"
proof -
  from unknown_field_aborts [OF assms(7,4) introspection_get_field [OF assms(5,6)]] obtain c2 es
    where "execute_response_fields (rt_introspection_ctx env) INTROSPECTION_QUERY_TYPE
        (multiple_names (map af_name flds)) flds None [] [] c1 = (c2, Inl es)" "has_panic es" by blast
  moreover from this(2) obtain m where "panic_message es = Some m" using panic_message_some by blast
  ultimately show ?thesis
    using assms(1-3,8)
    by (auto simp: execute_root_selection_set_def execute_root_selection_set_uncached_def Let_def
        execute_selection_set_to_map.simps [of "rt_introspection_ctx env"] prefetched_object_def)
qed

definition mixed_fields :: "a_field list" where
  "mixed_fields = [A_Field None ''__schema'' [] [] [], user_selection]"

definition mixed_env :: root_env where
  "mixed_env =
     \<lparr> rt_prefetch = (\<lambda>sels c. (c, Inr (Some (RV_Object (robject_from_iter [(''prefetch:u'', RV_List [ann])]))))),
       rt_introspection_ctx = store_ctx, rt_query_set = [(query_object, mixed_fields)] \<rparr>"

theorem introspection_beside_data_panics_witness:
  "\<exists>m. snd (execute_root_selection_set mixed_env store_ctx (resolver_for_subscription ''Qm'')
     [(query_object, mixed_fields)] query_object 0) = query_result_errors [QE_Panic m]"
proof (rule introspection_beside_data_panics [where flds = mixed_fields and f = user_selection and
      data_set = "[(query_object, [user_selection])]" and intro_set = "[(query_object, [mixed_fields ! 0])]" and meta_items = "[]" and c = 0])
  show "split_root [(query_object, mixed_fields)] query_object =
      Inr ([(query_object, [user_selection])], [(query_object, [mixed_fields ! 0])], [])"
    by (simp add: split_root_def fields_for_def mixed_fields_def user_selection_def empty_from_def split_root_field_def
        is_introspection_field_def INTROSPECTION_QUERY_TYPE_def set_push_def merge_field.simps and_then_def META_FIELD_NAME_def)
  show "fields_for (rt_query_set mixed_env) INTROSPECTION_QUERY_TYPE = Inr mixed_fields"
    by (simp add: mixed_env_def fields_for_def INTROSPECTION_QUERY_TYPE_def query_object_def)
  show "execute_data_set mixed_env store_ctx [(query_object, [user_selection])] [] query_object 0 =
      (0, Inr (robject_from_iter [(''u'', ann)]))"
    using ann_executed by (simp add: execute_data_set_def mixed_env_def push_fields_def set_is_empty_def)
qed (simp_all add: mixed_fields_def mixed_env_def store_ctx_def user_selection_def set_is_empty_def is_introspection_field_def
      INTROSPECTION_QUERY_TYPE_def)

end
