(* ===== verification/Entity_Tables.thy ===== *)
theory Entity_Tables
  imports Writable_Queue Api_Schema
begin

text \<open>
  How the entities of a deployment are kept in Postgres, \<open>store/postgres/src/block_range.rs\<close> with the parts
  of \<open>relational.rs\<close>, \<open>relational_queries.rs\<close> and \<open>deployment_store.rs\<close> that read and write them. A table has
  one row for every version of an entity, with the range of blocks for which the version is valid. Writing
  at a block clamps the range of the current version and inserts the new one; reverting a block removes the
  versions that it created and unclamps those that it had ended.

  The SQL statements are modelled by what they do to the rows: a selected row is one for which the condition
  is true and not null, and a statement that breaks a constraint of the table fails. A table without a column
  for the causality region has all rows in region 0. The conversion of the values of an entity to those of the
  columns and back is not modelled; \<open>deserialize\<close> stands for reading a row.
\<close>

section \<open>Ranges of blocks\<close>

datatype pg_error =
    PE_Unknown string
  | PE_ConflictingId string string string
  | PE_UnknownTable string
  | PE_QueryExecutionError string
  | PE_DuplicateBlockProcessing string block_number
  | PE_ConstraintViolation string
  | PE_DeploymentNotFound string
  | PE_Database string
  | PE_Panic string

text \<open>The values of the type \<open>int4range\<close> with a lower bound, in their canonical form \<open>[l, u)\<close>.\<close>

datatype block_range = BR_Empty | BR block_number "block_number option"

definition int4range :: "block_number \<Rightarrow> block_number option \<Rightarrow> pg_error + block_range" where
  "int4range l u =
     (case u of
        None \<Rightarrow> Inr (BR l None)
      | Some n \<Rightarrow>
          if n < l then Inl (PE_Database ''range lower bound must be less than or equal to range upper bound'')
          else if n = l then Inr BR_Empty else Inr (BR l (Some n)))"

fun range_contains :: "block_range \<Rightarrow> block_number \<Rightarrow> bool" where
  "range_contains BR_Empty b = False"
| "range_contains (BR l u) b \<longleftrightarrow> l \<le> b \<and> (case u of None \<Rightarrow> True | Some n \<Rightarrow> b < n)"

fun range_lower :: "block_range \<Rightarrow> block_number option" where
  "range_lower BR_Empty = None"
| "range_lower (BR l u) = Some l"

fun range_upper :: "block_range \<Rightarrow> block_number option" where
  "range_upper BR_Empty = None"
| "range_upper (BR l u) = u"

definition ranges_overlap :: "block_range \<Rightarrow> block_range \<Rightarrow> bool" where
  "ranges_overlap r s =
     (case (r, s) of
        (BR l u, BR l' u') \<Rightarrow>
          (case u of None \<Rightarrow> True | Some n \<Rightarrow> l' < n) \<and> (case u' of None \<Rightarrow> True | Some n \<Rightarrow> l < n)
      | _ \<Rightarrow> False)"

text \<open>A comparison with null is not true.\<close>

definition sql_le :: "block_number option \<Rightarrow> block_number \<Rightarrow> bool" where
  "sql_le x b = (case x of None \<Rightarrow> False | Some n \<Rightarrow> n \<le> b)"

definition sql_ge :: "block_number option \<Rightarrow> block_number \<Rightarrow> bool" where
  "sql_ge x b = (case x of None \<Rightarrow> False | Some n \<Rightarrow> b \<le> n)"

definition coalesce_max :: "block_number option \<Rightarrow> block_number" where
  "coalesce_max x = (case x of None \<Rightarrow> BLOCK_NUMBER_MAX | Some n \<Rightarrow> n)"

definition BLOCK_UNVERSIONED :: block_number where
  "BLOCK_UNVERSIONED = - 1"

text \<open>\<open>UNVERSIONED_RANGE\<close> is \<open>[-1, \<infinity>)\<close>.\<close>

definition first_block_in_range :: "block_range \<Rightarrow> block_number option" where
  "first_block_in_range r = (if r = BR BLOCK_UNVERSIONED None then None else range_lower r)"

section \<open>Tables\<close>

record column =
  col_field :: string
  col_fulltext_fields :: "string list option"
  col_is_nullable :: bool

record table_def =
  tbl_object :: entity_type
  tbl_name :: string
  tbl_columns :: "column list"
  tbl_is_account_like :: bool
  tbl_immutable :: bool
  tbl_has_causality_region :: bool

text \<open>The column \<open>block_range\<close> of a mutable table, or the column \<open>block$\<close> of an immutable one.\<close>

datatype version_column = VC_Range block_range | VC_Block block_number

record trow =
  row_id :: string
  row_region :: i32
  row_data :: entity
  row_version :: version_column

type_synonym tables = "entity_type \<Rightarrow> trow list"

text \<open>The flag is \<open>CREATE_EXCLUSION_CONSTRAINT\<close>, which is set in debug builds.\<close>

record layout =
  lay_tables :: "(entity_type, table_def) hash_map"
  lay_create_exclusion_constraint :: bool

definition table_for_entity :: "layout \<Rightarrow> entity_type \<Rightarrow> pg_error + table_def" where
  "table_for_entity lay entity =
     (case hm_get (lay_tables lay) entity of None \<Rightarrow> Inl (PE_UnknownTable entity) | Some t \<Rightarrow> Inr t)"

text \<open>The methods of \<open>BlockRangeColumn\<close>.\<close>

definition brc_contains :: "table_def \<Rightarrow> block_number \<Rightarrow> version_column \<Rightarrow> bool" where
  "brc_contains t block v =
     (case v of
        VC_Range r \<Rightarrow>
          range_contains r block \<and>
          (if tbl_is_account_like t \<and> block < BLOCK_NUMBER_MAX
           then coalesce_max (range_upper r) > block \<and> sql_le (range_lower r) block else True)
      | VC_Block n \<Rightarrow> if block = BLOCK_NUMBER_MAX then True else n \<le> block)"

definition brc_literal_range_current :: "table_def \<Rightarrow> block_number \<Rightarrow> version_column" where
  "brc_literal_range_current t block = (if tbl_immutable t then VC_Block block else VC_Range (BR block None))"

fun brc_latest :: "version_column \<Rightarrow> bool" where
  "brc_latest (VC_Range r) = range_contains r BLOCK_NUMBER_MAX"
| "brc_latest (VC_Block _) = True"

fun brc_clamp :: "block_number \<Rightarrow> version_column \<Rightarrow> pg_error + version_column" where
  "brc_clamp block (VC_Range BR_Empty) = Inr (VC_Range BR_Empty)"
| "brc_clamp block (VC_Range (BR l u)) = map_sum id VC_Range (int4range l (Some block))"
| "brc_clamp block (VC_Block _) = Inl (PE_Panic ''immutable entities can not be updated or deleted'')"

fun brc_changed_since :: "block_number \<Rightarrow> version_column \<Rightarrow> bool" where
  "brc_changed_since block (VC_Range r) = sql_ge (range_lower r) block"
| "brc_changed_since block (VC_Block n) \<longleftrightarrow> block \<le> n"

text \<open>The constraints of a table: ids are unique in an immutable one, and exclude overlapping ranges in others.\<close>

definition as_constraint :: "bool \<Rightarrow> table_def \<Rightarrow> bool" where
  "as_constraint create_exclusion_constraint t \<longleftrightarrow> tbl_has_causality_region t \<or> create_exclusion_constraint"

definition rows_exclude :: "trow \<Rightarrow> trow \<Rightarrow> bool" where
  "rows_exclude r s \<longleftrightarrow>
     row_id r = row_id s \<and>
     (case (row_version r, row_version s) of (VC_Range a, VC_Range b) \<Rightarrow> ranges_overlap a b | _ \<Rightarrow> True)"

fun rows_distinct :: "trow list \<Rightarrow> bool" where
  "rows_distinct [] = True"
| "rows_distinct (r # rs) \<longleftrightarrow> list_all (\<lambda>s. \<not> rows_exclude r s) rs \<and> rows_distinct rs"

definition check_constraint :: "bool \<Rightarrow> table_def \<Rightarrow> trow list \<Rightarrow> pg_error + trow list" where
  "check_constraint excl t rows =
     (if (tbl_immutable t \<or> as_constraint excl t) \<and> \<not> rows_distinct rows
      then Inl (PE_Database ''conflicting key value violates constraint'') else Inr rows)"

section \<open>Reading entities\<close>

definition key_matches :: "table_def \<Rightarrow> entity_key \<Rightarrow> trow \<Rightarrow> bool" where
  "key_matches t key r \<longleftrightarrow>
     row_id r = key_entity_id key \<and> (tbl_has_causality_region t \<longrightarrow> row_region r = key_causality_region key)"

definition find_query :: "table_def \<Rightarrow> entity_key \<Rightarrow> block_number \<Rightarrow> trow list \<Rightarrow> trow list" where
  "find_query t key block rows = filter (\<lambda>r. key_matches t key r \<and> brc_contains t block (row_version r)) rows"

definition layout_find ::
    "(table_def \<Rightarrow> trow \<Rightarrow> pg_error + entity) \<Rightarrow> layout \<Rightarrow> tables \<Rightarrow> entity_key \<Rightarrow> block_number \<Rightarrow>
     pg_error + entity option" where
  "layout_find deserialize lay db key block =
     and_then (table_for_entity lay (key_entity_type key)) (\<lambda>t.
       case find_query t key block (db (key_entity_type key)) of
         [] \<Rightarrow> Inr None
       | r # _ \<Rightarrow> map_sum id Some (deserialize t r))"

definition find_many_query ::
    "(table_def \<times> i32) list \<Rightarrow> ((entity_type \<times> i32) \<times> string list) list \<Rightarrow> block_number \<Rightarrow> tables \<Rightarrow>
     (table_def \<times> trow) list" where
  "find_many_query ts ids_for_type block db =
     concat (map (\<lambda>(t, cr).
       map (Pair t) (filter (\<lambda>r.
         row_id r \<in> set (case map_of ids_for_type (tbl_object t, cr) of None \<Rightarrow> [] | Some ids \<Rightarrow> ids) \<and>
         (tbl_has_causality_region t \<longrightarrow> row_region r = cr) \<and> brc_contains t block (row_version r)) (db (tbl_object t)))) ts)"

definition causality_region_from_entity :: "entity \<Rightarrow> i32" where
  "causality_region_from_entity e = (case entity_get e ''causality_region'' of Some (V_Int i) \<Rightarrow> i | _ \<Rightarrow> 0)"

definition layout_find_many ::
    "(table_def \<Rightarrow> trow \<Rightarrow> pg_error + entity) \<Rightarrow> scalar_lib \<Rightarrow> layout \<Rightarrow> tables \<Rightarrow>
     ((entity_type \<times> i32) \<times> string list) list \<Rightarrow> block_number \<Rightarrow> pg_error + (entity_key \<times> entity) list" where
  "layout_find_many deserialize lib lay db ids_for_type block =
     (if ids_for_type = [] then Inr []
      else
        and_then (collect_results (map (\<lambda>((entity_type, cr), _).
            map_sum id (\<lambda>t. (t, cr)) (table_for_entity lay entity_type)) ids_for_type)) (\<lambda>ts.
          try_fold (\<lambda>(t, r) entities.
            and_then (deserialize t r) (\<lambda>data.
              case entity_id lib data of
                Inl e \<Rightarrow> Inl (PE_Unknown e)
              | Inr i \<Rightarrow>
                  (let key = \<lparr> key_entity_type = tbl_object t, key_entity_id = i,
                               key_causality_region = causality_region_from_entity data \<rparr>
                   in if map_of entities key \<noteq> None then Inl (PE_ConstraintViolation ''duplicate entity in result set'')
                      else Inr (entities @ [(key, data)]))))
          (find_many_query ts ids_for_type block db) []))"

definition POI_TABLE :: string where "POI_TABLE = ''poi2$''"

text \<open>
  \<open>FindChangesQuery\<close> and \<open>FindPossibleDeletionsQuery\<close> name the column \<open>block_range\<close>, which an immutable table
  does not have.
\<close>

definition find_changes_query :: "table_def list \<Rightarrow> block_number \<Rightarrow> tables \<Rightarrow> pg_error + (table_def \<times> trow) list" where
  "find_changes_query ts block db =
     (if list_ex tbl_immutable ts then Inl (PE_Database ''column block_range does not exist'')
      else Inr (concat (map (\<lambda>t. map (Pair t) (filter (\<lambda>r.
             case row_version r of VC_Range v \<Rightarrow> range_lower v = Some block | _ \<Rightarrow> False) (db (tbl_object t)))) ts)))"

definition find_possible_deletions_query ::
    "table_def list \<Rightarrow> block_number \<Rightarrow> tables \<Rightarrow> pg_error + (table_def \<times> trow) list" where
  "find_possible_deletions_query ts block db =
     (if list_ex tbl_immutable ts then Inl (PE_Database ''column block_range does not exist'')
      else Inr (concat (map (\<lambda>t. map (Pair t) (filter (\<lambda>r.
             case row_version r of VC_Range v \<Rightarrow> coalesce_max (range_upper v) = block | _ \<Rightarrow> False) (db (tbl_object t)))) ts)))"

definition layout_find_changes ::
    "(table_def \<Rightarrow> trow \<Rightarrow> pg_error + entity) \<Rightarrow> scalar_lib \<Rightarrow> layout \<Rightarrow> tables \<Rightarrow> block_number \<Rightarrow>
     pg_error + entity_operation list" where
  "layout_find_changes deserialize lib lay db block =
     (let ts = filter (\<lambda>t. tbl_name t \<noteq> POI_TABLE) (map snd (lay_tables lay)) in
      and_then (find_changes_query ts block db) (\<lambda>inserts_or_updates.
      and_then (find_possible_deletions_query ts block db) (\<lambda>deletions.
      and_then (collect_results (map (\<lambda>(t, r).
          and_then (deserialize t r) (\<lambda>data.
            case entity_id lib data of
              Inl _ \<Rightarrow> Inl (PE_Panic ''Invalid ID for entity.'')
            | Inr i \<Rightarrow> Inr (Op_Set \<lparr> key_entity_type = tbl_object t, key_entity_id = i,
                                     key_causality_region = causality_region_from_entity data \<rparr> data))) inserts_or_updates)) (\<lambda>sets.
        let processed = (\<lambda>op. case op of Op_Set k _ \<Rightarrow> (key_entity_type k, key_entity_id k)
                                 | Op_Remove k \<Rightarrow> (key_entity_type k, key_entity_id k)) ` set sets in
        Inr (sets @ map (\<lambda>(t, r). Op_Remove \<lparr> key_entity_type = tbl_object t, key_entity_id = row_id r,
               key_causality_region = (if tbl_has_causality_region t then row_region r else 0) \<rparr>)
             (filter (\<lambda>(t, r). (tbl_object t, row_id r) \<notin> processed) deletions))))))"

section \<open>Writing entities\<close>

definition POSTGRES_MAX_PARAMETERS :: nat where "POSTGRES_MAX_PARAMETERS = 65535"

definition DELETE_OPERATION_CHUNK_SIZE :: nat where "DELETE_OPERATION_CHUNK_SIZE = 1000"

function chunks :: "nat \<Rightarrow> 'a list \<Rightarrow> 'a list list" where
  "chunks n xs = (if n = 0 \<or> xs = [] then [] else take n xs # chunks n (drop n xs))"
  by pat_completeness auto
termination by (relation "measure (\<lambda>(n, xs). length xs)") auto

declare chunks.simps [simp del]

definition chunk_size :: "table_def \<Rightarrow> nat" where
  "chunk_size t =
     POSTGRES_MAX_PARAMETERS div
       (1 + sum_list (map (\<lambda>c. case col_fulltext_fields c of Some fs \<Rightarrow> length fs | None \<Rightarrow> 1) (tbl_columns t)))"

text \<open>The loop of \<open>InsertQuery::new\<close> over the columns: the values for fulltext search are added.\<close>

definition insert_column :: "column \<Rightarrow> entity \<Rightarrow> pg_error + entity" where
  "insert_column c e =
     (let e' = (case col_fulltext_fields c of
                  None \<Rightarrow> e
                | Some flds \<Rightarrow>
                    (let vs = filter_map (entity_get e) flds in
                     if vs = [] then e else entity_insert e (col_field c) (V_List vs)))
      in if \<not> col_is_nullable c \<and> entity_get e' (col_field c) = None
         then Inl (PE_QueryExecutionError ''value for non-nullable attribute is missing'') else Inr e')"

definition insert_values :: "table_def \<Rightarrow> entity \<Rightarrow> pg_error + entity" where
  "insert_values t e = try_fold insert_column (tbl_columns t) e"

definition insert_row :: "table_def \<Rightarrow> block_number \<Rightarrow> entity_key \<times> entity \<Rightarrow> pg_error + trow" where
  "insert_row t block ke =
     map_sum id (\<lambda>e.
         \<lparr> row_id = key_entity_id (fst ke),
           row_region = (if tbl_has_causality_region t then key_causality_region (fst ke) else 0),
           row_data = e, row_version = brc_literal_range_current t block \<rparr>)
       (insert_values t (snd ke))"

definition insert_query ::
    "bool \<Rightarrow> table_def \<Rightarrow> (entity_key \<times> entity) list \<Rightarrow> block_number \<Rightarrow> trow list \<Rightarrow> pg_error + trow list" where
  "insert_query excl t entities block rows =
     and_then (collect_results (map (insert_row t block) entities)) (\<lambda>new.
       check_constraint excl t (rows @ new))"

definition insert_chunks ::
    "bool \<Rightarrow> table_def \<Rightarrow> (entity_key \<times> entity) list \<Rightarrow> block_number \<Rightarrow> trow list \<Rightarrow> pg_error + trow list" where
  "insert_chunks excl t entities block rows =
     (if chunk_size t = 0 then Inl (PE_Panic ''chunk size must be non-zero'')
      else try_fold (\<lambda>chunk. insert_query excl t chunk block) (chunks (chunk_size t) entities) rows)"

definition layout_insert ::
    "layout \<Rightarrow> entity_type \<Rightarrow> (entity_key \<times> entity) list \<Rightarrow> block_number \<Rightarrow> tables \<Rightarrow> pg_error + nat \<times> tables" where
  "layout_insert lay entity_type entities block db =
     and_then (table_for_entity lay entity_type) (\<lambda>t.
     and_then (insert_chunks (lay_create_exclusion_constraint lay) t entities block (db entity_type)) (\<lambda>rows.
       Inr (length entities, db(entity_type := rows))))"

definition clamp_row :: "string set \<Rightarrow> block_number \<Rightarrow> trow \<Rightarrow> pg_error + trow" where
  "clamp_row ids block r =
     (if row_id r \<in> ids \<and> brc_latest (row_version r)
      then map_sum id (\<lambda>v. r\<lparr>row_version := v\<rparr>) (brc_clamp block (row_version r)) else Inr r)"

definition clamp_range_query ::
    "bool \<Rightarrow> table_def \<Rightarrow> string list \<Rightarrow> block_number \<Rightarrow> trow list \<Rightarrow> pg_error + nat \<times> trow list" where
  "clamp_range_query excl t ids block rows =
     (if tbl_immutable t then Inl (PE_ConstraintViolation ''immutable entities can not be deleted or updated'')
      else
        and_then (collect_results (map (clamp_row (set ids) block) rows)) (\<lambda>rows'.
        and_then (check_constraint excl t rows') (\<lambda>rows'.
          Inr (length (filter (\<lambda>r. row_id r \<in> set ids \<and> brc_latest (row_version r)) rows), rows'))))"

definition layout_update ::
    "layout \<Rightarrow> entity_type \<Rightarrow> (entity_key \<times> entity) list \<Rightarrow> block_number \<Rightarrow> tables \<Rightarrow> pg_error + nat \<times> tables" where
  "layout_update lay entity_type entities block db =
     and_then (table_for_entity lay entity_type) (\<lambda>t.
       if tbl_immutable t then Inl (PE_ConstraintViolation ''entities can not be updated since they are immutable'')
       else
         and_then (clamp_range_query (lay_create_exclusion_constraint lay) t (map (key_entity_id \<circ> fst) entities) block (db entity_type))
           (\<lambda>(_, rows).
         and_then (insert_chunks (lay_create_exclusion_constraint lay) t entities block rows) (\<lambda>rows'.
           Inr (length entities, db(entity_type := rows')))))"

definition layout_delete ::
    "layout \<Rightarrow> entity_type \<Rightarrow> string list \<Rightarrow> block_number \<Rightarrow> tables \<Rightarrow> pg_error + nat \<times> tables" where
  "layout_delete lay entity_type ids block db =
     and_then (table_for_entity lay entity_type) (\<lambda>t.
       if tbl_immutable t then Inl (PE_ConstraintViolation ''entities can not be deleted since they are immutable'')
       else
         and_then (try_fold (\<lambda>chunk (count, rows).
             map_sum id (\<lambda>(n, rows'). (count + n, rows'))
               (clamp_range_query (lay_create_exclusion_constraint lay) t chunk block rows))
           (chunks DELETE_OPERATION_CHUNK_SIZE ids) (0, db entity_type)) (\<lambda>(count, rows).
             Inr (count, db(entity_type := rows))))"

text \<open>
  The types that share an interface with the type of the key; indexing \<open>types_for_interface\<close> panics on an
  interface that is not there. The query for conflicts looks at all versions.
\<close>

definition types_with_shared_interface :: "schema \<Rightarrow> entity_type \<Rightarrow> pg_error + entity_type list" where
  "types_with_shared_interface sch ty =
     map_sum id (\<lambda>tss. filter (\<lambda>n. n \<noteq> ty) (map obj_name (concat tss)))
       (collect_results (map (\<lambda>i.
            case map_of (sch_types_for_interface sch) (intf_name i) of
              None \<Rightarrow> Inl (PE_Panic ''types_for_interface'') | Some ts \<Rightarrow> Inr ts)
         (case map_of (sch_interfaces_for_type sch) ty of None \<Rightarrow> [] | Some is \<Rightarrow> is)))"

definition conflicting_entity :: "layout \<Rightarrow> tables \<Rightarrow> string \<Rightarrow> entity_type list \<Rightarrow> pg_error + string option" where
  "conflicting_entity lay db i types =
     map_sum id (\<lambda>ts.
         (case concat (map (\<lambda>t. map (\<lambda>_. tbl_object t) (filter (\<lambda>r. row_id r = i) (db (tbl_object t)))) ts) of
            [] \<Rightarrow> None | names \<Rightarrow> Some (last names)))
       (collect_results (map (table_for_entity lay) types))"

definition check_interface_entity_uniqueness :: "schema \<Rightarrow> layout \<Rightarrow> tables \<Rightarrow> entity_key \<Rightarrow> pg_error + unit" where
  "check_interface_entity_uniqueness sch lay db key =
     and_then (types_with_shared_interface sch (key_entity_type key)) (\<lambda>types.
       if types = [] then Inr ()
       else
         and_then (conflicting_entity lay db (key_entity_id key) types) (\<lambda>c.
           case c of
             Some conflicting \<Rightarrow> Inl (PE_ConflictingId (key_entity_type key) (key_entity_id key) conflicting)
           | None \<Rightarrow> Inr ()))"

definition insert_entities ::
    "schema \<Rightarrow> layout \<Rightarrow> entity_type \<Rightarrow> (entity_key \<times> entity) list \<Rightarrow> block_number \<Rightarrow> tables \<Rightarrow> pg_error + nat \<times> tables" where
  "insert_entities sch lay entity_type entities block db =
     and_then (collect_results (map (\<lambda>(key, _). check_interface_entity_uniqueness sch lay db key) entities)) (\<lambda>_.
       layout_insert lay entity_type entities block db)"

definition overwrite_entities ::
    "schema \<Rightarrow> layout \<Rightarrow> entity_type \<Rightarrow> (entity_key \<times> entity) list \<Rightarrow> block_number \<Rightarrow> tables \<Rightarrow> pg_error + nat \<times> tables" where
  "overwrite_entities sch lay entity_type entities block db =
     and_then (collect_results (map (\<lambda>(key, _). check_interface_entity_uniqueness sch lay db key) entities)) (\<lambda>_.
       layout_update lay entity_type entities block db)"

text \<open>Grouping by the type of the entity, in an order of the types that \<open>ord\<close> leaves open.\<close>

definition group_by_type :: "(entity_key \<times> 'a) list \<Rightarrow> (entity_type \<times> (entity_key \<times> 'a) list) list" where
  "group_by_type xs =
     map (\<lambda>ty. (ty, filter (\<lambda>x. key_entity_type (fst x) = ty) xs)) (remdups (map (key_entity_type \<circ> fst) xs))"

definition mod_inserts :: "entity_modification list \<Rightarrow> (entity_key \<times> entity) list" where
  "mod_inserts mods = filter_map (\<lambda>m. case m of Mod_Insert k e \<Rightarrow> Some (k, e) | _ \<Rightarrow> None) mods"

definition mod_overwrites :: "entity_modification list \<Rightarrow> (entity_key \<times> entity) list" where
  "mod_overwrites mods = filter_map (\<lambda>m. case m of Mod_Overwrite k e \<Rightarrow> Some (k, e) | _ \<Rightarrow> None) mods"

definition mod_removals :: "entity_modification list \<Rightarrow> (entity_key \<times> unit) list" where
  "mod_removals mods = filter_map (\<lambda>m. case m of Mod_Remove k \<Rightarrow> Some (k, ()) | _ \<Rightarrow> None) mods"

record group_order =
  ord_data :: "(entity_type \<times> (entity_key \<times> entity) list) list \<Rightarrow> (entity_type \<times> (entity_key \<times> entity) list) list"
  ord_keys :: "(entity_type \<times> (entity_key \<times> unit) list) list \<Rightarrow> (entity_type \<times> (entity_key \<times> unit) list) list"

definition apply_entity_modifications ::
    "group_order \<Rightarrow> schema \<Rightarrow> layout \<Rightarrow> entity_modification list \<Rightarrow> block_number \<Rightarrow> tables \<Rightarrow> pg_error + int \<times> tables" where
  "apply_entity_modifications ord sch lay mods block db =
     and_then (try_fold (\<lambda>(ty, es) (count, db).
         map_sum id (\<lambda>(n, db'). (count + int n, db')) (insert_entities sch lay ty es block db))
       (ord_data ord (group_by_type (mod_inserts mods))) (0, db)) (\<lambda>st.
     and_then (try_fold (\<lambda>(ty, es) (count, db).
         map_sum id (\<lambda>(_, db'). (count, db')) (overwrite_entities sch lay ty es block db))
       (ord_data ord (group_by_type (mod_overwrites mods))) st) (\<lambda>st.
       try_fold (\<lambda>(ty, ks) (count, db).
         map_sum id (\<lambda>(n, db'). (count - int n, db')) (layout_delete lay ty (map (key_entity_id \<circ> fst) ks) block db))
       (ord_keys ord (group_by_type (mod_removals mods))) st))"

section \<open>Reverting blocks\<close>

fun revert_clamp_selects :: "block_number \<Rightarrow> version_column \<Rightarrow> bool" where
  "revert_clamp_selects block (VC_Range r) \<longleftrightarrow>
     range_contains r block \<and> \<not> range_contains r BLOCK_NUMBER_MAX \<and> sql_le (range_lower r) block \<and>
     block < coalesce_max (range_upper r) \<and> coalesce_max (range_upper r) < BLOCK_NUMBER_MAX"
| "revert_clamp_selects block (VC_Block _) = False"

fun unclamp :: "version_column \<Rightarrow> version_column" where
  "unclamp (VC_Range (BR l u)) = VC_Range (BR l None)"
| "unclamp v = v"

definition revert_clamp_query ::
    "bool \<Rightarrow> table_def \<Rightarrow> block_number \<Rightarrow> trow list \<Rightarrow> pg_error + string set \<times> trow list" where
  "revert_clamp_query excl t block rows =
     (if tbl_immutable t then Inl (PE_ConstraintViolation ''can not revert clamping in immutable table'')
      else
        map_sum id (\<lambda>rows'. (row_id ` {r \<in> set rows. revert_clamp_selects block (row_version r)}, rows'))
          (check_constraint excl t (map (\<lambda>r.
             if revert_clamp_selects block (row_version r) then r\<lparr>row_version := unclamp (row_version r)\<rparr> else r) rows)))"

text \<open>One turn of the loop of \<open>revert_block\<close>: the new rows, the change of the count and the number of events.\<close>

definition revert_table :: "bool \<Rightarrow> table_def \<Rightarrow> block_number \<Rightarrow> trow list \<Rightarrow> pg_error + (int \<times> nat) \<times> trow list" where
  "revert_table excl t block rows =
     (let removed = row_id ` {r \<in> set rows. brc_changed_since block (row_version r)};
          rest = filter (\<lambda>r. \<not> brc_changed_since block (row_version r)) rows in
      and_then (if tbl_immutable t then Inr ({}, rest) else revert_clamp_query excl t (block - 1) rest) (\<lambda>(unclamped, rows').
        Inr ((int (card (unclamped - removed)) - int (card (removed - unclamped)),
              card (removed - unclamped) + card unclamped), rows')))"

text \<open>The events only say which type has changed.\<close>

fun revert_step ::
    "layout \<Rightarrow> block_number \<Rightarrow> entity_type \<times> table_def \<Rightarrow> (entity_type list \<times> int) \<times> tables \<Rightarrow>
     pg_error + (entity_type list \<times> int) \<times> tables" where
  "revert_step lay block (ty, t) ((changes, cnt), db) =
     map_sum id (\<lambda>((d, n), rows). ((changes @ replicate n (tbl_object t), cnt + d), db(ty := rows)))
       (revert_table (lay_create_exclusion_constraint lay) t block (db ty))"

definition revert_block ::
    "layout \<Rightarrow> block_number \<Rightarrow> tables \<Rightarrow> pg_error + (entity_type list \<times> int) \<times> tables" where
  "revert_block lay block db = try_fold (revert_step lay block) (lay_tables lay) (([], 0), db)"

section \<open>Well-formed tables\<close>

text \<open>
  The versions of a table whose deployment is at block \<open>h\<close>: ranges are not empty and have no bound beyond
  \<open>h\<close>, and the ranges of different versions of an entity do not overlap.
\<close>

fun version_ok :: "bool \<Rightarrow> block_number \<Rightarrow> version_column \<Rightarrow> bool" where
  "version_ok immutable h (VC_Block n) \<longleftrightarrow> immutable \<and> n \<le> h"
| "version_ok immutable h (VC_Range BR_Empty) \<longleftrightarrow> False"
| "version_ok immutable h (VC_Range (BR l u)) \<longleftrightarrow>
     \<not> immutable \<and> l \<le> h \<and> (case u of None \<Rightarrow> True | Some n \<Rightarrow> l < n \<and> n \<le> h)"

definition row_ok :: "table_def \<Rightarrow> block_number \<Rightarrow> trow \<Rightarrow> bool" where
  "row_ok t h r \<longleftrightarrow>
     version_ok (tbl_immutable t) h (row_version r) \<and> (\<not> tbl_has_causality_region t \<longrightarrow> row_region r = 0)"

definition table_wf :: "table_def \<Rightarrow> block_number \<Rightarrow> trow list \<Rightarrow> bool" where
  "table_wf t h rows \<longleftrightarrow> list_all (row_ok t h) rows \<and> rows_distinct rows"

fun version_has :: "version_column \<Rightarrow> block_number \<Rightarrow> bool" where
  "version_has (VC_Range r) b = range_contains r b"
| "version_has (VC_Block n) b \<longleftrightarrow> n \<le> b"

text \<open>What a table says of an entity at a block.\<close>

definition table_view :: "trow list \<Rightarrow> block_number \<Rightarrow> string \<Rightarrow> (i32 \<times> entity) option" where
  "table_view rows b i =
     map_option (\<lambda>r. (row_region r, row_data r)) (find (\<lambda>r. row_id r = i \<and> version_has (row_version r) b) rows)"

lemma rows_distinct_sorted: "rows_distinct rows \<longleftrightarrow> sorted_wrt (\<lambda>r s. \<not> rows_exclude r s) rows"
  by (induction rows) (auto simp: list_all_iff)

lemma rows_exclude_sym: "rows_exclude r s \<longleftrightarrow> rows_exclude s r"
  by (auto simp: rows_exclude_def ranges_overlap_def split: version_column.splits block_range.splits)

lemma rows_distinct_append:
  "rows_distinct (xs @ ys) \<longleftrightarrow> rows_distinct xs \<and> rows_distinct ys \<and> (\<forall>x \<in> set xs. \<forall>y \<in> set ys. \<not> rows_exclude x y)"
  by (simp add: rows_distinct_sorted sorted_wrt_append)

lemma versions_overlap:
  assumes "version_ok m h v" "version_ok m h' w" "version_has v b" "version_has w b" "row_version r = v" "row_version s = w"
    and "row_id r = row_id s"
  shows "rows_exclude r s"
  using assms
  by (cases v; cases w) (auto simp: rows_exclude_def ranges_overlap_def elim!: version_ok.elims split: option.splits)

lemma sorted_wrt_mem:
  "sorted_wrt (\<lambda>x y. \<not> R x y) xs \<Longrightarrow> x \<in> set xs \<Longrightarrow> y \<in> set xs \<Longrightarrow> R x y \<Longrightarrow> R y x \<Longrightarrow> x = y"
  by (induction xs) auto

lemma one_version:
  assumes "table_wf t h rows" "r \<in> set rows" "s \<in> set rows" "row_id r = row_id s"
    and "version_has (row_version r) b" "version_has (row_version s) b"
  shows "r = s"
proof -
  have "version_ok (tbl_immutable t) h (row_version r)" "version_ok (tbl_immutable t) h (row_version s)"
    using assms(1-3) by (auto simp: table_wf_def list_all_iff row_ok_def)
  then have "rows_exclude r s" using assms(4-6) versions_overlap by blast
  moreover from this have "rows_exclude s r" using rows_exclude_sym by blast
  ultimately show ?thesis using assms(1-3) sorted_wrt_mem by (fastforce simp: table_wf_def rows_distinct_sorted)
qed

lemma table_view_Some:
  assumes "table_wf t h rows"
  shows "table_view rows b i = Some c \<longleftrightarrow>
    (\<exists>r \<in> set rows. row_id r = i \<and> version_has (row_version r) b \<and> c = (row_region r, row_data r))"
proof
  assume "\<exists>r \<in> set rows. row_id r = i \<and> version_has (row_version r) b \<and> c = (row_region r, row_data r)"
  then obtain r where r: "r \<in> set rows" "row_id r = i" "version_has (row_version r) b" "c = (row_region r, row_data r)" by blast
  then obtain s where "find (\<lambda>r. row_id r = i \<and> version_has (row_version r) b) rows = Some s"
    by (metis (mono_tags, lifting) find_None_iff option.exhaust)
  moreover from this have "s \<in> set rows" "row_id s = i" "version_has (row_version s) b"
    by (auto simp: find_Some_iff)
  ultimately show "table_view rows b i = Some c" using one_version [OF assms, of r s b] r by (simp add: table_view_def)
qed (auto simp: table_view_def find_Some_iff)

lemma table_view_eqI:
  assumes "table_wf t h rows" "table_wf t' h' rows'"
    and "\<And>c. (\<exists>r \<in> set rows. row_id r = i \<and> version_has (row_version r) b \<and> c = (row_region r, row_data r)) \<longleftrightarrow>
      (\<exists>r \<in> set rows'. row_id r = i' \<and> version_has (row_version r) b' \<and> c = (row_region r, row_data r))"
  shows "table_view rows b i = table_view rows' b' i'"
proof (rule option.expand)
  have iff: "table_view rows b i = Some c \<longleftrightarrow> table_view rows' b' i' = Some c" for c
    using assms(3) table_view_Some [OF assms(1)] table_view_Some [OF assms(2)] by simp
  then show "(table_view rows b i = None) = (table_view rows' b' i' = None)"
    by (metis not_None_eq)
  show "the (table_view rows b i) = the (table_view rows' b' i')"
    if "table_view rows b i \<noteq> None" using that iff by (metis not_None_eq option.sel)
qed

text \<open>
  The columns for account-like tables and for the blocks of immutable ones only state the condition in
  another way.
\<close>

lemma brc_contains_eq:
  assumes "version_ok m h v" "b \<le> BLOCK_NUMBER_MAX" "h \<le> BLOCK_NUMBER_MAX"
  shows "brc_contains t b v = version_has v b"
  using assms
  by (cases v) (auto simp: brc_contains_def coalesce_max_def sql_le_def elim!: version_ok.elims range_contains.elims split: option.splits)

lemma brc_latest_eq:
  assumes "version_ok m h v" "h < BLOCK_NUMBER_MAX"
  shows "brc_latest v \<longleftrightarrow> (case v of VC_Range (BR l None) \<Rightarrow> True | VC_Block _ \<Rightarrow> True | _ \<Rightarrow> False)"
  using assms by (cases "(m, h, v)" rule: version_ok.cases) (auto split: option.splits)

section \<open>What a write does to a table\<close>

text \<open>
  Inserts, overwrites and removals all have the same form: the current versions of some entities end at the
  block and new versions are added for some of them.
\<close>

definition clamped :: "string set \<Rightarrow> block_number \<Rightarrow> trow \<Rightarrow> trow" where
  "clamped ids block r =
     (if row_id r \<in> ids \<and> brc_latest (row_version r)
      then r\<lparr>row_version := (case row_version r of VC_Range (BR l _) \<Rightarrow> VC_Range (BR l (Some block)) | v \<Rightarrow> v)\<rparr> else r)"

definition table_write :: "string set \<Rightarrow> block_number \<Rightarrow> trow list \<Rightarrow> trow list \<Rightarrow> trow list" where
  "table_write ids block new rows = map (clamped ids block) rows @ new"

text \<open>The rows with one of the ids are from before the block, and there are none in an immutable table.\<close>

definition writable_ids :: "table_def \<Rightarrow> block_number \<Rightarrow> string set \<Rightarrow> trow list \<Rightarrow> bool" where
  "writable_ids t block ids rows \<longleftrightarrow>
     (\<forall>r \<in> set rows. row_id r \<in> ids \<longrightarrow>
        \<not> tbl_immutable t \<and> (\<forall>l u. row_version r = VC_Range (BR l u) \<longrightarrow> l < block))"

definition new_rows_ok :: "table_def \<Rightarrow> block_number \<Rightarrow> string set \<Rightarrow> trow list \<Rightarrow> bool" where
  "new_rows_ok t block ids new \<longleftrightarrow>
     distinct (map row_id new) \<and>
     (\<forall>r \<in> set new. row_id r \<in> ids \<and> row_version r = brc_literal_range_current t block \<and>
        (\<not> tbl_has_causality_region t \<longrightarrow> row_region r = 0))"

lemma clamped_simps [simp]:
  "row_id (clamped ids block r) = row_id r" "row_region (clamped ids block r) = row_region r"
  "row_data (clamped ids block r) = row_data r"
  by (simp_all add: clamped_def)

lemma clamped_other: "row_id r \<notin> ids \<Longrightarrow> clamped ids block r = r"
  by (simp add: clamped_def)

lemma clamped_version:
  assumes "row_ok t block r" "writable_ids t block ids rows" "r \<in> set rows" "row_id r \<in> ids" "block < BLOCK_NUMBER_MAX"
  obtains l n where "row_version (clamped ids block r) = VC_Range (BR l (Some n))" "l < n" "n \<le> block" "l < block"
    "\<And>b. version_has (row_version (clamped ids block r)) b \<longleftrightarrow> b < block \<and> version_has (row_version r) b"
proof -
  from assms obtain l u where r: "row_version r = VC_Range (BR l u)" "l < block"
    by (cases "row_version r" rule: version_column.exhaust; cases "case row_version r of VC_Range x \<Rightarrow> x")
      (auto simp: row_ok_def writable_ids_def)
  have "brc_latest (row_version r) \<longleftrightarrow> u = None"
    using assms(1,5) r brc_latest_eq [of "tbl_immutable t" block "row_version r"] by (auto simp: row_ok_def split: option.splits)
  with r assms(1,4) show ?thesis
  proof (cases u)
    case None
    with r assms(1,4) \<open>brc_latest (row_version r) \<longleftrightarrow> u = None\<close>
    have "row_version (clamped ids block r) = VC_Range (BR l (Some block))" by (simp add: clamped_def)
    with r None that [of l block] show ?thesis by auto
  next
    case (Some n)
    with r \<open>brc_latest (row_version r) \<longleftrightarrow> u = None\<close> have "clamped ids block r = r" by (auto simp: clamped_def)
    then show ?thesis by (intro that [of l n]) (use r Some assms(1) in \<open>auto simp: row_ok_def\<close>)
  qed
qed

lemma clamped_row_ok:
  assumes "row_ok t block r" "writable_ids t block ids rows" "r \<in> set rows" "block < BLOCK_NUMBER_MAX"
  shows "row_ok t block (clamped ids block r)"
proof (cases "row_id r \<in> ids")
  case True
  from clamped_version [OF assms(1-3) True assms(4)] obtain l n
    where "row_version (clamped ids block r) = VC_Range (BR l (Some n))" "l < n" "n \<le> block" "l < block" by blast
  moreover have "\<not> tbl_immutable t" using assms(2,3) True by (auto simp: writable_ids_def)
  ultimately show ?thesis using assms(1) by (simp add: row_ok_def)
qed (use assms(1) in \<open>simp add: clamped_other\<close>)

lemma clamped_has:
  assumes "row_ok t block r" "writable_ids t block ids rows" "r \<in> set rows" "block < BLOCK_NUMBER_MAX"
  shows "version_has (row_version (clamped ids block r)) b \<longleftrightarrow>
    version_has (row_version r) b \<and> (row_id r \<in> ids \<longrightarrow> b < block)"
proof (cases "row_id r \<in> ids")
  case True
  from clamped_version [OF assms(1-3) True assms(4)] True show ?thesis by blast
qed (simp add: clamped_other)

lemma exclude_common_block:
  assumes "version_ok m h (row_version r)" "version_ok m h (row_version s)" "rows_exclude r s"
  obtains b where "version_has (row_version r) b" "version_has (row_version s) b"
proof -
  have "\<exists>b. version_has (row_version r) b \<and> version_has (row_version s) b"
  proof (cases "row_version r")
    case (VC_Block n)
    with assms show ?thesis
      by (cases "row_version s" rule: version_column.exhaust; cases "case row_version s of VC_Range x \<Rightarrow> x")
        (auto intro!: exI [of _ h])
  next
    case (VC_Range a)
    with assms(1) obtain l u where a: "a = BR l u" by (cases a) auto
    from VC_Range a assms(1,2) obtain l' u' where s: "row_version s = VC_Range (BR l' u')"
      by (cases "row_version s" rule: version_column.exhaust; cases "case row_version s of VC_Range x \<Rightarrow> x") auto
    from VC_Range a s assms have "version_has (row_version r) (max l l')" "version_has (row_version s) (max l l')"
      by (auto simp: rows_exclude_def ranges_overlap_def split: option.splits)
    then show ?thesis by blast
  qed
  then show thesis using that by blast
qed

lemma table_write_wf:
  assumes "table_wf t block rows" "writable_ids t block ids rows" "new_rows_ok t block ids new" "block < BLOCK_NUMBER_MAX"
  shows "table_wf t block (table_write ids block new rows)"
proof -
  have ok: "row_ok t block r" if "r \<in> set rows" for r using assms(1) that by (auto simp: table_wf_def list_all_iff)
  have new_ok: "row_ok t block r" if "r \<in> set new" for r
    using assms(3) that by (auto simp: new_rows_ok_def row_ok_def brc_literal_range_current_def)
  have old: "\<not> rows_exclude (clamped ids block r) (clamped ids block s)"
    if rs: "r \<in> set rows" "s \<in> set rows" "\<not> rows_exclude r s" for r s
  proof
    assume ex: "rows_exclude (clamped ids block r) (clamped ids block s)"
    have "version_ok (tbl_immutable t) block (row_version (clamped ids block x))" if "x \<in> set rows" for x
      using clamped_row_ok [OF ok [OF that] assms(2) that assms(4)] by (simp add: row_ok_def)
    from exclude_common_block [OF this [OF rs(1)] this [OF rs(2)] ex] obtain b
      where "version_has (row_version (clamped ids block r)) b" "version_has (row_version (clamped ids block s)) b" .
    then have "version_has (row_version r) b" "version_has (row_version s) b"
      using clamped_has [OF ok assms(2) _ assms(4)] rs(1,2) by blast+
    moreover have "row_id r = row_id s" using ex by (simp add: rows_exclude_def)
    ultimately show False using rs versions_overlap ok [OF rs(1)] ok [OF rs(2)] by (metis row_ok_def)
  qed
  have mixed: "\<not> rows_exclude (clamped ids block r) s" if rs: "r \<in> set rows" "s \<in> set new" for r s
  proof
    assume ex: "rows_exclude (clamped ids block r) s"
    then have "row_id r \<in> ids" using assms(3) rs by (auto simp: rows_exclude_def new_rows_ok_def)
    then obtain l n where "row_version (clamped ids block r) = VC_Range (BR l (Some n))" "n \<le> block"
      using clamped_version [OF ok [OF rs(1)] assms(2) rs(1) _ assms(4)] by blast
    moreover have "row_version s = VC_Range (BR block None)"
      using assms(2,3) rs \<open>row_id r \<in> ids\<close> by (auto simp: writable_ids_def new_rows_ok_def brc_literal_range_current_def)
    ultimately show False using ex by (auto simp: rows_exclude_def ranges_overlap_def)
  qed
  have "rows_distinct (map (clamped ids block) rows)"
    using assms(1) old by (auto simp: table_wf_def rows_distinct_sorted sorted_wrt_map elim!: sorted_wrt_mono_rel [rotated])
  moreover have "rows_distinct new"
    using assms(3) unfolding new_rows_ok_def by (induction new) (auto simp: list_all_iff rows_exclude_def)
  ultimately show ?thesis
    using ok new_ok mixed clamped_row_ok [OF ok assms(2) _ assms(4)]
    by (auto simp: table_wf_def table_write_def list_all_iff rows_distinct_append)
qed

lemma table_write_view:
  assumes "table_wf t block rows" "writable_ids t block ids rows" "new_rows_ok t block ids new" "block < BLOCK_NUMBER_MAX"
  shows "table_view (table_write ids block new rows) b i =
    (if block \<le> b \<and> i \<in> ids then map_of (map (\<lambda>r. (row_id r, (row_region r, row_data r))) new) i else table_view rows b i)"
proof -
  have has: "version_has (row_version (clamped ids block r)) b \<longleftrightarrow> version_has (row_version r) b \<and> (row_id r \<in> ids \<longrightarrow> b < block)"
    if "r \<in> set rows" for r
    using assms(1) that clamped_has [OF _ assms(2) that assms(4)] by (auto simp: table_wf_def list_all_iff)
  have new: "version_has (row_version r) b \<longleftrightarrow> block \<le> b" if "r \<in> set new" for r
    using assms(3) that by (auto simp: new_rows_ok_def brc_literal_range_current_def)
  note wf = table_write_wf [OF assms]
  have split: "(\<exists>r \<in> set (table_write ids block new rows). row_id r = i \<and> version_has (row_version r) b \<and> c = (row_region r, row_data r)) \<longleftrightarrow>
      (\<exists>r \<in> set rows. row_id r = i \<and> version_has (row_version r) b \<and> (i \<in> ids \<longrightarrow> b < block) \<and> c = (row_region r, row_data r)) \<or>
      (\<exists>r \<in> set new. row_id r = i \<and> block \<le> b \<and> c = (row_region r, row_data r))" for c
    unfolding table_write_def set_append set_map bex_Un bex_simps(7) clamped_simps using has new by blast
  show ?thesis
  proof (cases "block \<le> b \<and> i \<in> ids")
    case True
    have dist: "distinct (map fst (map (\<lambda>r. (row_id r, (row_region r, row_data r))) new))"
      using assms(3) by (simp add: new_rows_ok_def comp_def)
    have "table_view (table_write ids block new rows) b i = Some c \<longleftrightarrow>
        map_of (map (\<lambda>r. (row_id r, (row_region r, row_data r))) new) i = Some c" for c
      unfolding table_view_Some [OF wf] map_of_eq_Some_iff [OF dist] split
      using True by (auto simp: image_iff)
    then show ?thesis using True by (metis (no_types, lifting) not_None_eq)
  next
    case False
    have "table_view (table_write ids block new rows) b i = table_view rows b i"
    proof (rule table_view_eqI [OF wf assms(1)])
      have "row_id r \<in> ids" if "r \<in> set new" for r using assms(3) that by (auto simp: new_rows_ok_def)
      then show "(\<exists>r \<in> set (table_write ids block new rows). row_id r = i \<and> version_has (row_version r) b \<and> c = (row_region r, row_data r)) \<longleftrightarrow>
          (\<exists>r \<in> set rows. row_id r = i \<and> version_has (row_version r) b \<and> c = (row_region r, row_data r))" for c
        unfolding split using False by (auto simp: not_le)
    qed
    with False show ?thesis by auto
  qed
qed

text \<open>The rows of entities that were not written are the same.\<close>

lemma table_write_others:
  "new_rows_ok t block ids new \<Longrightarrow>
     {r \<in> set (table_write ids block new rows). row_id r \<notin> ids} = {r \<in> set rows. row_id r \<notin> ids}"
  by (force simp: table_write_def new_rows_ok_def clamped_other)

section \<open>The statements\<close>

lemma concat_chunks: "n \<noteq> 0 \<Longrightarrow> concat (chunks n xs) = xs"
proof (induction n xs rule: chunks.induct)
  case (1 n xs)
  then show ?case by (cases "xs = []") (simp_all add: chunks.simps [of n])
qed


lemma check_constraint_Inr: "check_constraint excl t rows = Inr rows' \<longleftrightarrow>
    rows' = rows \<and> ((tbl_immutable t \<or> as_constraint excl t) \<longrightarrow> rows_distinct rows)"
  by (auto simp: check_constraint_def)

lemma insert_chunks_rows:
  assumes "insert_chunks excl t es block rows = Inr rows'"
  obtains new where "map (insert_row t block) es = map Inr new" "rows' = rows @ new"
proof -
  have "\<exists>new. map (insert_row t block) (concat css) = map Inr new \<and> rows' = rows @ new"
    if "try_fold (\<lambda>chunk. insert_query excl t chunk block) css rows = Inr rows'" for css
    using that
  proof (induction css arbitrary: rows)
    case (Cons cs css)
    from Cons.prems obtain rows1 where rows1: "insert_query excl t cs block rows = Inr rows1"
      "try_fold (\<lambda>chunk. insert_query excl t chunk block) css rows1 = Inr rows'" by (auto split: sum.splits)
    from rows1(1) obtain new where new: "map (insert_row t block) cs = map Inr new" "rows1 = rows @ new"
      by (auto simp: insert_query_def and_then_def check_constraint_Inr collect_results_Inr_iff split: sum.splits)
    from Cons.IH [OF rows1(2)] obtain new' where "map (insert_row t block) (concat css) = map Inr new'" "rows' = rows1 @ new'" by blast
    with new show ?case by (intro exI [of _ "new @ new'"]) simp
  qed simp
  from this [of "chunks (chunk_size t) es"] assms that concat_chunks [of "chunk_size t" es] show thesis
    by (auto simp: insert_chunks_def split: if_splits)
qed

lemma insert_row_Inr:
  "insert_row t block ke = Inr r \<longleftrightarrow> (\<exists>e. insert_values t (snd ke) = Inr e \<and>
     r = \<lparr> row_id = key_entity_id (fst ke), row_region = (if tbl_has_causality_region t then key_causality_region (fst ke) else 0),
           row_data = e, row_version = brc_literal_range_current t block \<rparr>)"
  by (cases "insert_values t (snd ke)") (auto simp: insert_row_def)

lemma clamp_row_eq:
  assumes "row_ok t h r" "h < BLOCK_NUMBER_MAX" "row_id r \<in> ids \<longrightarrow> \<not> tbl_immutable t \<and> (\<forall>l u. row_version r = VC_Range (BR l u) \<longrightarrow> l < block)"
  shows "clamp_row ids block r = Inr (clamped ids block r)"
proof -
  obtain v where v: "row_version r = v" by blast
  with assms show ?thesis
    by (cases "(tbl_immutable t, h, v)" rule: version_ok.cases)
      (auto simp: row_ok_def clamp_row_def clamped_def int4range_def)
qed

lemma collect_results_all: "(\<forall>x \<in> set xs. f x = Inr (g x)) \<Longrightarrow> collect_results (map f xs) = Inr (map g xs)"
  by (induction xs) auto

lemma clamp_range_query_rows:
  assumes "clamp_range_query excl t ids block rows = Inr (n, rows')" "table_wf t block rows" "block < BLOCK_NUMBER_MAX"
    and "writable_ids t block (set ids) rows"
  shows "rows' = map (clamped (set ids) block) rows"
    "n = length (filter (\<lambda>r. row_id r \<in> set ids \<and> brc_latest (row_version r)) rows)"
proof -
  have "collect_results (map (clamp_row (set ids) block) rows) = Inr (map (clamped (set ids) block) rows)"
    using assms(2-4) by (intro collect_results_all ballI clamp_row_eq) (auto simp: table_wf_def list_all_iff writable_ids_def)
  with assms(1) show "rows' = map (clamped (set ids) block) rows"
    "n = length (filter (\<lambda>r. row_id r \<in> set ids \<and> brc_latest (row_version r)) rows)"
    by (auto simp: clamp_range_query_def and_then_def check_constraint_Inr split: if_splits sum.splits)
qed

definition current_count :: "trow list \<Rightarrow> nat" where
  "current_count rows = length (filter (\<lambda>r. brc_latest (row_version r)) rows)"

lemma current_count_append [simp]: "current_count (xs @ ys) = current_count xs + current_count ys"
  by (simp add: current_count_def)

lemma clamped_clamped:
  "block < BLOCK_NUMBER_MAX \<Longrightarrow> clamped A block (clamped B block r) = clamped (A \<union> B) block r"
  by (auto simp: clamped_def split: version_column.splits block_range.splits)

lemma current_count_clamped:
  assumes "table_wf t h rows" "block < BLOCK_NUMBER_MAX" "h < BLOCK_NUMBER_MAX" "\<not> tbl_immutable t"
  shows "current_count (map (clamped ids block) rows) +
      length (filter (\<lambda>r. row_id r \<in> ids \<and> brc_latest (row_version r)) rows) = current_count rows"
proof -
  have *: "brc_latest (row_version (clamped ids block r)) \<longleftrightarrow> row_id r \<notin> ids \<and> brc_latest (row_version r)"
    if "r \<in> set rows" for r
  proof -
    have "row_ok t h r" using assms(1) that by (auto simp: table_wf_def list_all_iff)
    then obtain l u where "row_version r = VC_Range (BR l u)"
      using assms(4) by (cases "(tbl_immutable t, h, row_version r)" rule: version_ok.cases) (auto simp: row_ok_def)
    with assms(2) show ?thesis by (auto simp: clamped_def)
  qed
  have "(\<forall>r \<in> set rows. brc_latest (row_version (clamped ids block r)) \<longleftrightarrow> row_id r \<notin> ids \<and> brc_latest (row_version r)) \<Longrightarrow> ?thesis"
    by (induction rows) (auto simp: current_count_def)
  with * show ?thesis by blast
qed

lemma current_count_new:
  "new_rows_ok t block ids new \<Longrightarrow> block \<le> BLOCK_NUMBER_MAX \<Longrightarrow> current_count new = length new"
  unfolding new_rows_ok_def current_count_def
  by (induction new) (auto simp: brc_literal_range_current_def)

lemma writable_ids_clamped:
  "writable_ids t block ids rows \<Longrightarrow> writable_ids t block ids (map (clamped ids' block) rows)"
  by (fastforce simp: writable_ids_def clamped_def split: version_column.splits block_range.splits if_splits)

lemma layout_delete_write:
  assumes "layout_delete lay ty ids block db = Inr (n, db')" "hm_get (lay_tables lay) ty = Some t"
    and "table_wf t block (db ty)" "block < BLOCK_NUMBER_MAX" "writable_ids t block (set ids) (db ty)"
  shows "db' = db(ty := table_write (set ids) block [] (db ty))"
    and "current_count (db' ty) + n = current_count (db ty)"
proof -
  let ?excl = "lay_create_exclusion_constraint lay"
  let ?step = "\<lambda>chunk (count, rows). map_sum id (\<lambda>(n, rows'). (count + n, rows')) (clamp_range_query ?excl t chunk block rows)"
  have imm: "\<not> tbl_immutable t" using assms(1,2) by (auto simp: layout_delete_def and_then_def table_for_entity_def split: if_splits)
  have fold: "rows' = map (clamped (set (concat css)) block) rows \<and> current_count rows' + n' = current_count rows + n0"
    if "try_fold ?step css (n0, rows) = Inr (n', rows')" "table_wf t block rows" "writable_ids t block (set ids) rows"
      "set (concat css) \<subseteq> set ids" for css n0 n' rows rows'
    using that
  proof (induction css arbitrary: n0 rows)
    case Nil
    then show ?case by (auto simp: clamped_def)
  next
    case (Cons cs css)
    obtain q where q: "clamp_range_query ?excl t cs block rows = q" by blast
    with Cons.prems(1) obtain k rows1 where k: "clamp_range_query ?excl t cs block rows = Inr (k, rows1)"
      "try_fold ?step css (n0 + k, rows1) = Inr (n', rows')"
      by (cases q) (auto simp: id_def)
    have wr: "writable_ids t block (set cs) rows" using Cons.prems(3,4) by (auto simp: writable_ids_def)
    note r1 = clamp_range_query_rows [OF k(1) Cons.prems(2) assms(4) wr]
    have "table_wf t block rows1"
      using table_write_wf [OF Cons.prems(2) wr, of "[]"] assms(4) r1(1) by (simp add: table_write_def new_rows_ok_def)
    from Cons.IH [OF k(2) this] r1(1) writable_ids_clamped [OF Cons.prems(3)] Cons.prems(4)
    have "rows' = map (clamped (set (concat css)) block) rows1" "current_count rows' + n' = current_count rows1 + (n0 + k)" by auto
    with r1 current_count_clamped [OF Cons.prems(2) assms(4,4) imm, of "set cs"] show ?case
      using clamped_clamped [OF assms(4)] by (simp add: Un_commute)
  qed
  from assms(1,2) imm obtain rows' where r: "try_fold ?step (chunks DELETE_OPERATION_CHUNK_SIZE ids) (0, db ty) = Inr (n, rows')"
    "db' = db(ty := rows')"
    by (auto simp: layout_delete_def and_then_def table_for_entity_def split: sum.splits)
  have "concat (chunks DELETE_OPERATION_CHUNK_SIZE ids) = ids" by (rule concat_chunks) (simp add: DELETE_OPERATION_CHUNK_SIZE_def)
  with fold [OF r(1) assms(3,5)] r(2)
  show "db' = db(ty := table_write (set ids) block [] (db ty))" "current_count (db' ty) + n = current_count (db ty)"
    by (auto simp: table_write_def)
qed

lemma layout_insert_write:
  assumes "layout_insert lay ty es block db = Inr (n, db')"
  obtains t new where "hm_get (lay_tables lay) ty = Some t" "map (insert_row t block) es = map Inr new" "n = length es"
    "db' = db(ty := db ty @ new)"
proof -
  from assms obtain t rows' where t: "hm_get (lay_tables lay) ty = Some t"
    and "insert_chunks (lay_create_exclusion_constraint lay) t es block (db ty) = Inr rows'" "n = length es" "db' = db(ty := rows')"
    by (auto simp: layout_insert_def and_then_def table_for_entity_def split: sum.splits option.splits)
  then show thesis using insert_chunks_rows that by metis
qed

lemma layout_update_write:
  assumes "layout_update lay ty es block db = Inr (n, db')" "hm_get (lay_tables lay) ty = Some t"
    and "table_wf t block (db ty)" "block < BLOCK_NUMBER_MAX" "writable_ids t block (key_entity_id ` fst ` set es) (db ty)"
  obtains new where "map (insert_row t block) es = map Inr new" "\<not> tbl_immutable t"
    "db' = db(ty := table_write (key_entity_id ` fst ` set es) block new (db ty))"
proof -
  let ?ids = "map (key_entity_id \<circ> fst) es"
  from assms(1,2) obtain k rows rows' where imm: "\<not> tbl_immutable t"
    and r: "clamp_range_query (lay_create_exclusion_constraint lay) t ?ids block (db ty) = Inr (k, rows)"
      "insert_chunks (lay_create_exclusion_constraint lay) t es block rows = Inr rows'" "db' = db(ty := rows')"
    by (auto simp: layout_update_def and_then_def table_for_entity_def split: sum.splits if_splits)
  from insert_chunks_rows [OF r(2)] obtain new where "map (insert_row t block) es = map Inr new" "rows' = rows @ new" .
  moreover have "rows = map (clamped (key_entity_id ` fst ` set es) block) (db ty)"
    using clamp_range_query_rows(1) [OF r(1) assms(3,4)] assms(5) by (simp add: image_comp)
  ultimately show thesis using that imm r(3) by (simp add: table_write_def)
qed

section \<open>The modifications of a block\<close>

definition mod_loc :: "entity_modification \<Rightarrow> entity_type \<times> string" where
  "mod_loc m = (key_entity_type (mod_entity_ref m), key_entity_id (mod_entity_ref m))"

text \<open>What a table stores for an entity: its causality region and the values of its columns.\<close>

definition stored :: "layout \<Rightarrow> entity_key \<Rightarrow> entity \<Rightarrow> (i32 \<times> entity) option" where
  "stored lay k e =
     (case hm_get (lay_tables lay) (key_entity_type k) of
        None \<Rightarrow> None
      | Some t \<Rightarrow>
          (case insert_values t e of
             Inl _ \<Rightarrow> None
           | Inr e' \<Rightarrow> Some (if tbl_has_causality_region t then key_causality_region k else 0, e')))"

fun mod_target :: "layout \<Rightarrow> entity_modification \<Rightarrow> (i32 \<times> entity) option" where
  "mod_target lay (Mod_Insert k e) = stored lay k e"
| "mod_target lay (Mod_Overwrite k e) = stored lay k e"
| "mod_target lay (Mod_Remove _) = None"

definition target :: "layout \<Rightarrow> entity_modification list \<Rightarrow> entity_type \<times> string \<Rightarrow> (i32 \<times> entity) option" where
  "target lay mods x = Option.bind (find (\<lambda>m. mod_loc m = x) mods) (mod_target lay)"

definition tables_wf :: "layout \<Rightarrow> block_number \<Rightarrow> tables \<Rightarrow> bool" where
  "tables_wf lay h db \<longleftrightarrow> (\<forall>ty t. hm_get (lay_tables lay) ty = Some t \<longrightarrow> table_wf t h (db ty))"

text \<open>
  The modifications fit the entities there are: one for each id, inserts for entities that are not there, and overwrites and
  removals for entities that are, in the causality region of the key.
\<close>

definition has_current :: "tables \<Rightarrow> entity_type \<times> string \<Rightarrow> bool" where
  "has_current db x \<longleftrightarrow> (\<exists>r \<in> set (db (fst x)). row_id r = snd x \<and> brc_latest (row_version r))"

definition mods_fit :: "tables \<Rightarrow> entity_modification list \<Rightarrow> bool" where
  "mods_fit db mods \<longleftrightarrow>
     distinct (map mod_loc mods) \<and>
     (\<forall>m \<in> set mods. has_current db (mod_loc m) \<longleftrightarrow> (case m of Mod_Insert _ _ \<Rightarrow> False | _ \<Rightarrow> True)) \<and>
     (\<forall>m \<in> set mods. \<forall>r \<in> set (db (fst (mod_loc m))).
        row_id r = snd (mod_loc m) \<and> brc_latest (row_version r) \<longrightarrow> row_region r = key_causality_region (mod_entity_ref m))"

definition after_writes ::
    "layout \<Rightarrow> block_number \<Rightarrow> entity_modification list \<Rightarrow> tables \<Rightarrow> (entity_type \<times> string) set \<Rightarrow> tables \<Rightarrow> bool" where
  "after_writes lay block mods db0 D db \<longleftrightarrow>
     tables_wf lay block db \<and>
     (\<forall>ty b i. table_view (db ty) b i =
        (if block \<le> b \<and> (ty, i) \<in> D then target lay mods (ty, i) else table_view (db0 ty) b i)) \<and>
     (\<forall>ty. {r \<in> set (db ty). (ty, row_id r) \<notin> D} = {r \<in> set (db0 ty). (ty, row_id r) \<notin> D})"

lemma after_writes_rows:
  "after_writes lay block mods db0 D db \<Longrightarrow> (ty, row_id r) \<notin> D \<Longrightarrow> r \<in> set (db ty) \<longleftrightarrow> r \<in> set (db0 ty)"
  unfolding after_writes_def by blast

lemma writable_ids_after:
  assumes "after_writes lay block mods db0 D db" "writable_ids t block ids (db0 ty)" "\<forall>i \<in> ids. (ty, i) \<notin> D"
  shows "writable_ids t block ids (db ty)"
  using assms(2,3) after_writes_rows [OF assms(1)] by (fastforce simp: writable_ids_def)

lemma after_writes_step:
  assumes after: "after_writes lay block mods db0 D db" and t: "hm_get (lay_tables lay) ty = Some t"
    and block: "block < BLOCK_NUMBER_MAX" and wr: "writable_ids t block ids (db0 ty)" and fresh: "\<forall>i \<in> ids. (ty, i) \<notin> D"
    and new: "new_rows_ok t block ids new"
    and target: "\<forall>i \<in> ids. map_of (map (\<lambda>r. (row_id r, (row_region r, row_data r))) new) i = target lay mods (ty, i)"
  shows "after_writes lay block mods db0 (D \<union> {ty} \<times> ids) (db(ty := table_write ids block new (db ty)))"
proof -
  have wf: "table_wf t block (db ty)" using after t by (auto simp: after_writes_def tables_wf_def)
  note wr' = writable_ids_after [OF after wr fresh]
  have "table_wf t block (table_write ids block new (db ty))" by (rule table_write_wf [OF wf wr' new block])
  then have "tables_wf lay block (db(ty := table_write ids block new (db ty)))"
    using after t by (auto simp: after_writes_def tables_wf_def)
  moreover have "table_view ((db(ty := table_write ids block new (db ty))) ty') b i =
      (if block \<le> b \<and> (ty', i) \<in> D \<union> {ty} \<times> ids then target lay mods (ty', i) else table_view (db0 ty') b i)" for ty' b i
    using table_write_view [OF wf wr' new block, of b i] target after by (auto simp: after_writes_def)
  moreover have "{r \<in> set ((db(ty := table_write ids block new (db ty))) ty'). (ty', row_id r) \<notin> D \<union> {ty} \<times> ids} =
      {r \<in> set (db0 ty'). (ty', row_id r) \<notin> D \<union> {ty} \<times> ids}" for ty'
  proof (cases "ty' = ty")
    case True
    have "r \<in> set (table_write ids block new (db ty)) \<longleftrightarrow> r \<in> set (db ty)" if "row_id r \<notin> ids" for r
      using table_write_others [OF new, of "db ty"] that by blast
    with True after_writes_rows [OF after] show ?thesis by auto
  qed (use after_writes_rows [OF after] in auto)
  ultimately show ?thesis by (simp add: after_writes_def)
qed

lemma new_rows_of_group:
  assumes new: "map (insert_row t block) es = map Inr new" and dist: "distinct (map (key_entity_id \<circ> fst) es)"
    and t: "hm_get (lay_tables lay) ty = Some t"
    and target: "\<forall>(k, e) \<in> set es. key_entity_type k = ty \<and> target lay mods (ty, key_entity_id k) = stored lay k e"
  shows "new_rows_ok t block (key_entity_id ` fst ` set es) new" (is ?ok)
    and "\<forall>i \<in> key_entity_id ` fst ` set es.
      map_of (map (\<lambda>r. (row_id r, (row_region r, row_data r))) new) i = target lay mods (ty, i)" (is ?t)
    and "length new = length es" and "\<forall>(k, e) \<in> set es. stored lay k e \<noteq> None"
proof -
  have len: "length new = length es" using arg_cong [OF new, of length] by simp
  have row: "insert_row t block (es ! j) = Inr (new ! j)" if "j < length es" for j
    using arg_cong [OF new, of "\<lambda>xs. xs ! j"] that len by simp
  have ids: "map row_id new = map (key_entity_id \<circ> fst) es"
    using row len by (simp add: list_eq_iff_nth_eq insert_row_Inr) fastforce
  have mem: "\<exists>j < length es. r = new ! j" if "r \<in> set new" for r using that len by (auto simp: in_set_conv_nth)
  have "row_id r \<in> key_entity_id ` fst ` set es" if "r \<in> set new" for r
  proof -
    have "row_id r \<in> set (map row_id new)" using that by simp
    then show ?thesis unfolding ids by (auto simp: image_comp)
  qed
  with mem row dist ids show ?ok by (fastforce simp: new_rows_ok_def insert_row_Inr)
  have "map_of (map (\<lambda>r. (row_id r, (row_region r, row_data r))) new) (key_entity_id (fst (es ! j))) =
      target lay mods (ty, key_entity_id (fst (es ! j)))" if j: "j < length es" for j
  proof -
    from row [OF j] obtain e' where e': "insert_values t (snd (es ! j)) = Inr e'"
      "new ! j = \<lparr> row_id = key_entity_id (fst (es ! j)),
        row_region = (if tbl_has_causality_region t then key_causality_region (fst (es ! j)) else 0), row_data = e',
        row_version = brc_literal_range_current t block \<rparr>" by (auto simp: insert_row_Inr)
    have "(key_entity_id (fst (es ! j)), (row_region (new ! j), row_data (new ! j))) \<in>
        set (map (\<lambda>r. (row_id r, (row_region r, row_data r))) new)" using j len e' by (force simp: in_set_conv_nth)
    moreover have "distinct (map fst (map (\<lambda>r. (row_id r, (row_region r, row_data r))) new))"
      using ids dist by (simp add: comp_def)
    moreover have "target lay mods (ty, key_entity_id (fst (es ! j))) = stored lay (fst (es ! j)) (snd (es ! j))"
      "key_entity_type (fst (es ! j)) = ty" using target j by (auto simp: split_beta)
    ultimately show ?thesis using e' t by (simp add: stored_def)
  qed
  note row_target = this
  show ?t
  proof
    fix i
    assume "i \<in> key_entity_id ` fst ` set es"
    then obtain x where "x \<in> set es" "i = key_entity_id (fst x)" by blast
    moreover from this(1) obtain j where "j < length es" "x = es ! j" by (metis in_set_conv_nth)
    ultimately show "map_of (map (\<lambda>r. (row_id r, (row_region r, row_data r))) new) i = target lay mods (ty, i)"
      using row_target by simp
  qed
  show "length new = length es" by (rule len)
  have "stored lay (fst (es ! j)) (snd (es ! j)) \<noteq> None" if "j < length es" for j
    using row [OF that] target that t by (auto simp: insert_row_Inr stored_def split_beta)
  then show "\<forall>(k, e) \<in> set es. stored lay k e \<noteq> None" unfolding all_set_conv_all_nth by (simp add: split_beta)
qed

definition total_count :: "layout \<Rightarrow> tables \<Rightarrow> int" where
  "total_count lay db = sum_list (map (\<lambda>(ty, t). int (current_count (db ty))) (lay_tables lay))"

lemma total_count_update:
  assumes "hm_wf (lay_tables lay)" "hm_get (lay_tables lay) ty = Some t"
  shows "total_count lay (db(ty := rows)) = total_count lay db + int (current_count rows) - int (current_count (db ty))"
proof -
  have "hm_wf ts \<Longrightarrow> map_of ts ty = Some t \<Longrightarrow> sum_list (map (\<lambda>(ty', t). int (current_count ((db(ty := rows)) ty'))) ts) =
      sum_list (map (\<lambda>(ty, t). int (current_count (db ty))) ts) + int (current_count rows) - int (current_count (db ty))"
    for ts :: "(entity_type \<times> table_def) list"
  proof (induction ts)
    case (Cons e ts)
    have "sum_list (map (\<lambda>(ty', t). int (current_count ((db(ty := rows)) ty'))) us) =
        sum_list (map (\<lambda>(ty, t). int (current_count (db ty))) us)" if "ty \<notin> fst ` set us" for us :: "(entity_type \<times> table_def) list"
      using that by (induction us) auto
    with Cons show ?case by (cases e) (auto split: if_splits)
  qed simp
  with assms show ?thesis by (simp add: total_count_def)
qed

lemma target_of_mod: "mods_fit db mods \<Longrightarrow> m \<in> set mods \<Longrightarrow> target lay mods (mod_loc m) = mod_target lay m"
proof -
  have "distinct (map mod_loc ms) \<Longrightarrow> m \<in> set ms \<Longrightarrow> find (\<lambda>m'. mod_loc m' = mod_loc m) ms = Some m" for ms
    by (induction ms) (auto simp: rev_image_eqI)
  then show "mods_fit db mods \<Longrightarrow> m \<in> set mods \<Longrightarrow> target lay mods (mod_loc m) = mod_target lay m"
    by (simp add: mods_fit_def target_def)
qed

lemma mods_fit_inj: "mods_fit db mods \<Longrightarrow> m \<in> set mods \<Longrightarrow> m' \<in> set mods \<Longrightarrow> mod_loc m = mod_loc m' \<Longrightarrow> m = m'"
  by (auto simp: mods_fit_def distinct_map dest: inj_onD)

text \<open>The state between the groups: \<open>D\<close> has the entities that were written, \<open>count\<close> how many were added.\<close>

definition writes_inv ::
    "layout \<Rightarrow> block_number \<Rightarrow> entity_modification list \<Rightarrow> tables \<Rightarrow> (entity_type \<times> string) set \<Rightarrow> int \<times> tables \<Rightarrow> bool" where
  "writes_inv lay block mods db0 D st \<longleftrightarrow>
     after_writes lay block mods db0 D (snd st) \<and> total_count lay (snd st) = total_count lay db0 + fst st \<and>
     (\<forall>m \<in> set mods. mod_loc m \<in> D \<longrightarrow> mod_is_remove m \<or> mod_target lay m \<noteq> None)"

definition locs :: "entity_type \<times> (entity_key \<times> 'a) list \<Rightarrow> (entity_type \<times> string) set" where
  "locs g = {fst g} \<times> key_entity_id ` fst ` set (snd g)"

lemma fold_groups:
  assumes "try_fold step gs st = Inr st'" "I D st" "distinct (map fst gs)" "\<forall>g \<in> set gs. locs g \<inter> D = {}"
    and "\<And>g D st st'. g \<in> set gs \<Longrightarrow> I D st \<Longrightarrow> locs g \<inter> D = {} \<Longrightarrow> step g st = Inr st' \<Longrightarrow> I (D \<union> locs g) st'"
  shows "I (D \<union> \<Union> (locs ` set gs)) st'"
  using assms
proof (induction gs arbitrary: D st)
  case (Cons g gs)
  from Cons.prems(1) obtain st1 where st1: "step g st = Inr st1" "try_fold step gs st1 = Inr st'" by (auto split: sum.splits)
  have "I (D \<union> locs g) st1" using Cons.prems(2,4,5) st1(1) by simp
  moreover have "locs g \<inter> locs g' = {}" if "g' \<in> set gs" for g' using Cons.prems(3) that by (auto simp: locs_def)
  then have "\<forall>g' \<in> set gs. locs g' \<inter> (D \<union> locs g) = {}" using Cons.prems(4) by auto
  ultimately have "I ((D \<union> locs g) \<union> \<Union> (locs ` set gs)) st'"
    using Cons.IH [OF st1(2)] Cons.prems(3,5) by auto
  then show ?case by (simp add: Un_assoc)
qed simp

lemma group_by_type_facts:
  assumes "distinct (map (\<lambda>x. (key_entity_type (fst x), key_entity_id (fst x))) xs)"
  shows "distinct (map fst (group_by_type xs))"
    and "\<Union> (locs ` set (group_by_type xs)) = (\<lambda>x. (key_entity_type (fst x), key_entity_id (fst x))) ` set xs"
    and "(ty, es) \<in> set (group_by_type xs) \<Longrightarrow> distinct (map (key_entity_id \<circ> fst) es)"
    and "(ty, es) \<in> set (group_by_type xs) \<Longrightarrow> x \<in> set es \<Longrightarrow> key_entity_type (fst x) = ty \<and> x \<in> set xs"
proof -
  show "distinct (map fst (group_by_type xs))" by (simp add: group_by_type_def comp_def)
  show "\<Union> (locs ` set (group_by_type xs)) = (\<lambda>x. (key_entity_type (fst x), key_entity_id (fst x))) ` set xs"
    by (force simp: group_by_type_def locs_def)
  have "distinct (map (key_entity_id \<circ> fst) (filter (\<lambda>x. key_entity_type (fst x) = ty) ys))"
    if "distinct (map (\<lambda>x. (key_entity_type (fst x), key_entity_id (fst x))) ys)" for ys :: "(entity_key \<times> 'a) list"
    using that by (induction ys) force+
  with assms show "(ty, es) \<in> set (group_by_type xs) \<Longrightarrow> distinct (map (key_entity_id \<circ> fst) es)"
    by (auto simp: group_by_type_def)
  show "(ty, es) \<in> set (group_by_type xs) \<Longrightarrow> x \<in> set es \<Longrightarrow> key_entity_type (fst x) = ty \<and> x \<in> set xs"
    by (auto simp: group_by_type_def)
qed

lemma tables_wfD: "tables_wf lay h db \<Longrightarrow> hm_get (lay_tables lay) ty = Some t \<Longrightarrow> table_wf t h (db ty)"
  by (simp add: tables_wf_def)

lemma table_wf_row: "table_wf t h rows \<Longrightarrow> r \<in> set rows \<Longrightarrow> version_ok (tbl_immutable t) h (row_version r)"
  by (auto simp: table_wf_def list_all_iff row_ok_def)

lemma immutable_latest: "table_wf t h rows \<Longrightarrow> tbl_immutable t \<Longrightarrow> r \<in> set rows \<Longrightarrow> brc_latest (row_version r)"
  by (drule table_wf_row, assumption) (cases "(tbl_immutable t, h, row_version r)" rule: version_ok.cases; simp)

text \<open>What the lemmas on the groups share.\<close>

definition block_ready :: "layout \<Rightarrow> block_number \<Rightarrow> entity_modification list \<Rightarrow> tables \<Rightarrow> bool" where
  "block_ready lay block mods db0 \<longleftrightarrow>
     hm_wf (lay_tables lay) \<and> tables_wf lay (block - 1) db0 \<and> block < BLOCK_NUMBER_MAX \<and> mods_fit db0 mods"

lemma writable_before:
  assumes "block_ready lay block mods db0" "hm_get (lay_tables lay) ty = Some t"
    and "tbl_immutable t \<Longrightarrow> \<forall>r \<in> set (db0 ty). row_id r \<notin> ids"
  shows "writable_ids t block ids (db0 ty)"
proof -
  have "row_ok t (block - 1) r" if "r \<in> set (db0 ty)" for r
    using assms(1,2) that by (auto simp: block_ready_def tables_wf_def table_wf_def list_all_iff)
  with assms(3) show ?thesis by (fastforce simp: writable_ids_def row_ok_def)
qed

lemma latest_iff_has_current:
  assumes "after_writes lay block mods db0 D db" "(ty, i) \<notin> D"
  shows "(\<exists>r \<in> set (db ty). row_id r = i \<and> brc_latest (row_version r)) \<longleftrightarrow> has_current db0 (ty, i)"
  using assms after_writes_rows [OF assms(1)] by (auto simp: has_current_def)

lemma insert_group:
  assumes ready: "block_ready lay block mods db0" and inv: "writes_inv lay block mods db0 D (cnt, db)"
    and es: "distinct (map (key_entity_id \<circ> fst) es)" "\<forall>(k, e) \<in> set es. key_entity_type k = ty \<and> Mod_Insert k e \<in> set mods"
    and fresh: "locs (ty, es) \<inter> D = {}" and res: "insert_entities sch lay ty es block db = Inr (n, db')"
  shows "writes_inv lay block mods db0 (D \<union> locs (ty, es)) (cnt + int n, db')"
proof -
  let ?ids = "key_entity_id ` fst ` set es"
  note after = inv [unfolded writes_inv_def snd_conv, THEN conjunct1]
  from res have "layout_insert lay ty es block db = Inr (n, db')" by (auto simp: insert_entities_def and_then_def split: sum.splits)
  from layout_insert_write [OF this] obtain t new where t: "hm_get (lay_tables lay) ty = Some t"
    and new: "map (insert_row t block) es = map Inr new" and n: "n = length es" and db': "db' = db(ty := db ty @ new)" .
  have fit: "mods_fit db0 mods" and block: "block < BLOCK_NUMBER_MAX" using ready by (auto simp: block_ready_def)
  have "\<forall>(k, e) \<in> set es. key_entity_type k = ty \<and> target lay mods (ty, key_entity_id k) = stored lay k e"
    using es(2) target_of_mod [OF fit] by (fastforce simp: mod_loc_def)
  note nr = new_rows_of_group [OF new es(1) t this]
  have absent: "\<not> has_current db0 (ty, i)" if "i \<in> ?ids" for i
    using that es(2) fit by (fastforce simp: mods_fit_def mod_loc_def)
  have "\<forall>r \<in> set (db0 ty). row_id r \<notin> ?ids" if "tbl_immutable t"
  proof
    fix r assume r: "r \<in> set (db0 ty)"
    then have "brc_latest (row_version r)"
      using ready immutable_latest [OF tables_wfD [OF _ t] that] by (auto simp: block_ready_def)
    with absent r show "row_id r \<notin> ?ids" by (fastforce simp: has_current_def)
  qed
  then have wr: "writable_ids t block ?ids (db0 ty)" using writable_before [OF ready t] by blast
  have "clamped ?ids block r = r" if "r \<in> set (db ty)" for r
    using that absent latest_iff_has_current [OF after, of ty "row_id r"] fresh by (force simp: clamped_def locs_def)
  then have "db ty @ new = table_write ?ids block new (db ty)" by (simp add: table_write_def map_idI)
  with after_writes_step [OF after t block wr _ nr(1,2)] fresh
  have "after_writes lay block mods db0 (D \<union> {ty} \<times> ?ids) db'" by (auto simp: db' locs_def)
  moreover have "total_count lay db' = total_count lay db0 + (cnt + int n)"
    using inv ready total_count_update [OF _ t, of db "db ty @ new"] current_count_new [OF nr(1)] nr(3) block n
    by (simp add: writes_inv_def db' block_ready_def)
  moreover have "mod_target lay m \<noteq> None" if "m \<in> set mods" "mod_loc m \<in> {ty} \<times> ?ids" for m
  proof -
    from that(2) es(2) obtain k e where "(k, e) \<in> set es" "Mod_Insert k e \<in> set mods" "mod_loc m = mod_loc (Mod_Insert k e)"
      by (force simp: mod_loc_def)
    with nr(4) mods_fit_inj [OF fit that(1)] show ?thesis by fastforce
  qed
  ultimately show ?thesis using inv by (auto simp: writes_inv_def locs_def)
qed

lemma sorted_wrt_distinct: "sorted_wrt (\<lambda>r s. f r \<noteq> f s) xs \<Longrightarrow> distinct (map f xs)"
  by (induction xs) auto

lemma current_ids:
  assumes "table_wf t h rows" "h < BLOCK_NUMBER_MAX" "\<not> tbl_immutable t"
  shows "length (filter (\<lambda>r. row_id r \<in> ids \<and> brc_latest (row_version r)) rows) =
    card {i \<in> ids. \<exists>r \<in> set rows. row_id r = i \<and> brc_latest (row_version r)}"
proof -
  let ?rs = "filter (\<lambda>r. row_id r \<in> ids \<and> brc_latest (row_version r)) rows"
  have "version_has (row_version r) BLOCK_NUMBER_MAX" if "r \<in> set rows" "brc_latest (row_version r)" for r
    using that assms(1,3) by (cases "row_version r") (auto simp: table_wf_def list_all_iff row_ok_def)
  then have excl: "rows_exclude r s" if "r \<in> set rows" "s \<in> set rows" "brc_latest (row_version r)" "brc_latest (row_version s)"
      "row_id r = row_id s" for r s
    using that versions_overlap [OF table_wf_row [OF assms(1) that(1)] table_wf_row [OF assms(1) that(2)]] by blast
  have "sorted_wrt (\<lambda>r s. \<not> rows_exclude r s) ?rs"
    using assms(1) by (simp add: table_wf_def rows_distinct_sorted sorted_wrt_filter)
  then have "sorted_wrt (\<lambda>r s. row_id r \<noteq> row_id s) ?rs"
    by (rule sorted_wrt_mono_rel [rotated]) (use excl in auto)
  then have "distinct (map row_id ?rs)" by (rule sorted_wrt_distinct)
  then have "length ?rs = card (row_id ` set ?rs)" using distinct_card by fastforce
  also have "row_id ` set ?rs = {i \<in> ids. \<exists>r \<in> set rows. row_id r = i \<and> brc_latest (row_version r)}" by auto
  finally show ?thesis .
qed

lemma overwrite_group:
  assumes ready: "block_ready lay block mods db0" and inv: "writes_inv lay block mods db0 D (cnt, db)"
    and es: "distinct (map (key_entity_id \<circ> fst) es)" "\<forall>(k, e) \<in> set es. key_entity_type k = ty \<and> Mod_Overwrite k e \<in> set mods"
    and fresh: "locs (ty, es) \<inter> D = {}" and res: "overwrite_entities sch lay ty es block db = Inr (n, db')"
  shows "writes_inv lay block mods db0 (D \<union> locs (ty, es)) (cnt, db')"
proof -
  let ?ids = "key_entity_id ` fst ` set es"
  note after = inv [unfolded writes_inv_def snd_conv, THEN conjunct1]
  from res have upd: "layout_update lay ty es block db = Inr (n, db')" by (auto simp: overwrite_entities_def and_then_def split: sum.splits)
  then obtain t where t: "hm_get (lay_tables lay) ty = Some t" and imm: "\<not> tbl_immutable t"
    by (auto simp: layout_update_def and_then_def table_for_entity_def split: sum.splits option.splits if_splits)
  have fit: "mods_fit db0 mods" and block: "block < BLOCK_NUMBER_MAX" using ready by (auto simp: block_ready_def)
  have wr: "writable_ids t block ?ids (db0 ty)" using writable_before [OF ready t] imm by blast
  have fresh': "\<forall>i \<in> ?ids. (ty, i) \<notin> D" using fresh by (auto simp: locs_def)
  have wf: "table_wf t block (db ty)" using after tables_wfD t by (auto simp: after_writes_def)
  note wr' = writable_ids_after [OF after wr fresh']
  from layout_update_write [OF upd t wf block wr'] obtain new where new: "map (insert_row t block) es = map Inr new"
    and db': "db' = db(ty := table_write ?ids block new (db ty))" .
  have "\<forall>(k, e) \<in> set es. key_entity_type k = ty \<and> target lay mods (ty, key_entity_id k) = stored lay k e"
    using es(2) target_of_mod [OF fit] by (fastforce simp: mod_loc_def)
  note nr = new_rows_of_group [OF new es(1) t this]
  have "after_writes lay block mods db0 (D \<union> {ty} \<times> ?ids) db'"
    unfolding db' by (rule after_writes_step [OF after t block wr fresh' nr(1,2)])
  moreover have "has_current db0 (ty, i)" if "i \<in> ?ids" for i
    using that es(2) fit by (fastforce simp: mods_fit_def mod_loc_def)
  then have "{i \<in> ?ids. \<exists>r \<in> set (db ty). row_id r = i \<and> brc_latest (row_version r)} = ?ids"
    using latest_iff_has_current [OF after] fresh' by blast
  with current_ids [OF wf block imm, of ?ids] have "length (filter (\<lambda>r. row_id r \<in> ?ids \<and> brc_latest (row_version r)) (db ty)) = length es"
    using distinct_card [OF es(1)] by (simp add: image_comp)
  with current_count_clamped [OF wf block block imm, of ?ids] current_count_new [OF nr(1)] nr(3) block
  have "current_count (table_write ?ids block new (db ty)) = current_count (db ty)" by (simp add: table_write_def)
  then have "total_count lay db' = total_count lay db"
    using ready total_count_update [OF _ t] by (simp add: db' block_ready_def)
  moreover have "mod_target lay m \<noteq> None" if "m \<in> set mods" "mod_loc m \<in> {ty} \<times> ?ids" for m
  proof -
    from that(2) es(2) obtain k e where "(k, e) \<in> set es" "Mod_Overwrite k e \<in> set mods" "mod_loc m = mod_loc (Mod_Overwrite k e)"
      by (force simp: mod_loc_def)
    with nr(4) mods_fit_inj [OF fit that(1)] show ?thesis by fastforce
  qed
  ultimately show ?thesis using inv by (auto simp: writes_inv_def locs_def)
qed

lemma remove_group:
  assumes ready: "block_ready lay block mods db0" and inv: "writes_inv lay block mods db0 D (cnt, db)"
    and ks: "\<forall>(k, u) \<in> set ks. key_entity_type k = ty \<and> Mod_Remove k \<in> set mods"
    and fresh: "locs (ty, ks) \<inter> D = {}" and res: "layout_delete lay ty (map (key_entity_id \<circ> fst) ks) block db = Inr (n, db')"
  shows "writes_inv lay block mods db0 (D \<union> locs (ty, ks)) (cnt - int n, db')"
proof -
  let ?ids = "key_entity_id ` fst ` set ks"
  have ids: "set (map (key_entity_id \<circ> fst) ks) = ?ids" by (simp add: image_comp)
  note after = inv [unfolded writes_inv_def snd_conv, THEN conjunct1]
  from res obtain t where t: "hm_get (lay_tables lay) ty = Some t" and imm: "\<not> tbl_immutable t"
    by (auto simp: layout_delete_def and_then_def table_for_entity_def split: sum.splits option.splits if_splits)
  have fit: "mods_fit db0 mods" and block: "block < BLOCK_NUMBER_MAX" using ready by (auto simp: block_ready_def)
  have wr: "writable_ids t block ?ids (db0 ty)" using writable_before [OF ready t] imm by blast
  have fresh': "\<forall>i \<in> ?ids. (ty, i) \<notin> D" using fresh by (auto simp: locs_def)
  have wf: "table_wf t block (db ty)" using after tables_wfD t by (auto simp: after_writes_def)
  note del = layout_delete_write [OF res t wf block, unfolded ids, OF writable_ids_after [OF after wr fresh']]
  have "target lay mods (ty, i) = None" if "i \<in> ?ids" for i
    using that ks target_of_mod [OF fit, of _ lay] by (fastforce simp: mod_loc_def)
  then have "after_writes lay block mods db0 (D \<union> {ty} \<times> ?ids) db'"
    unfolding del(1) by (intro after_writes_step [OF after t block wr fresh']) (auto simp: new_rows_ok_def)
  moreover have "total_count lay db' = total_count lay db - int n"
    using ready total_count_update [OF _ t, of db "db' ty"] del by (simp add: block_ready_def)
  moreover have "mod_is_remove m" if "m \<in> set mods" "mod_loc m \<in> {ty} \<times> ?ids" for m
  proof -
    from that(2) ks obtain k where "Mod_Remove k \<in> set mods" "mod_loc m = mod_loc (Mod_Remove k)" by (force simp: mod_loc_def)
    with mods_fit_inj [OF fit that(1)] show ?thesis by fastforce
  qed
  ultimately show ?thesis using inv by (auto simp: writes_inv_def locs_def)
qed

lemma filter_map_locs:
  assumes "distinct (map mod_loc mods)"
    and "\<And>m x. f m = Some x \<Longrightarrow> mod_loc m = (key_entity_type (fst x), key_entity_id (fst x))"
  shows "distinct (map (\<lambda>x. (key_entity_type (fst x), key_entity_id (fst x))) (filter_map f mods))" (is ?dist)
    and "(\<lambda>x. (key_entity_type (fst x), key_entity_id (fst x))) ` set (filter_map f mods) = mod_loc ` {m \<in> set mods. f m \<noteq> None}"
proof -
  let ?L = "\<lambda>x. (key_entity_type (fst x), key_entity_id (fst x))"
  have img: "?L ` set (filter_map f ms) = mod_loc ` {m \<in> set ms. f m \<noteq> None}" for ms
  proof (induction ms)
    case (Cons m ms)
    then show ?case
    proof (cases "f m")
      case None
      then have "{m' \<in> set (m # ms). f m' \<noteq> None} = {m' \<in> set ms. f m' \<noteq> None}" by auto
      with Cons None show ?thesis by simp
    next
      case (Some x)
      then have "{m' \<in> set (m # ms). f m' \<noteq> None} = insert m {m' \<in> set ms. f m' \<noteq> None}" by auto
      with Cons Some assms(2) [OF Some] show ?thesis by simp
    qed
  qed simp
  show "?L ` set (filter_map f mods) = mod_loc ` {m \<in> set mods. f m \<noteq> None}" by (rule img)
  show ?dist
    using assms(1)
  proof (induction mods)
    case (Cons m ms)
    then show ?case
    proof (cases "f m")
      case (Some x)
      have "?L x \<notin> ?L ` set (filter_map f ms)" using Cons.prems assms(2) [OF Some] unfolding img by auto
      with Cons Some show ?thesis by simp
    qed simp
  qed simp
qed

definition order_ok :: "group_order \<Rightarrow> bool" where
  "order_ok ord \<longleftrightarrow> (\<forall>gs. mset (ord_data ord gs) = mset gs) \<and> (\<forall>gs. mset (ord_keys ord gs) = mset gs)"

lemma writes_inv_start: "block_ready lay block mods db0 \<Longrightarrow> writes_inv lay block mods db0 {} (0, db0)"
proof -
  have "version_ok m (block - 1) v \<Longrightarrow> version_ok m block v" for m v
    by (induction m block v rule: version_ok.induct) (auto split: option.splits)
  then have "table_wf t (block - 1) rows \<Longrightarrow> table_wf t block rows" for t rows
    by (auto simp: table_wf_def list_all_iff row_ok_def)
  then show "block_ready lay block mods db0 \<Longrightarrow> writes_inv lay block mods db0 {} (0, db0)"
    by (auto simp: writes_inv_def after_writes_def block_ready_def tables_wf_def)
qed

text \<open>One of the three loops over the groups.\<close>

lemma group_phase:
  assumes fold: "try_fold step gs st = Inr st'" and gs: "mset gs = mset (group_by_type (filter_map f mods))"
    and dist: "distinct (map mod_loc mods)"
    and f: "\<And>m x. f m = Some x \<Longrightarrow> mod_loc m = (key_entity_type (fst x), key_entity_id (fst x))"
    and inv: "I D st" and fresh: "mod_loc ` {m \<in> set mods. f m \<noteq> None} \<inter> D = {}"
    and step: "\<And>ty es D st st'. distinct (map (key_entity_id \<circ> fst) es) \<Longrightarrow>
       \<forall>x \<in> set es. key_entity_type (fst x) = ty \<and> (\<exists>m \<in> set mods. f m = Some x) \<Longrightarrow>
       I D st \<Longrightarrow> locs (ty, es) \<inter> D = {} \<Longrightarrow> step (ty, es) st = Inr st' \<Longrightarrow> I (D \<union> locs (ty, es)) st'"
  shows "I (D \<union> mod_loc ` {m \<in> set mods. f m \<noteq> None}) st'"
proof -
  let ?xs = "filter_map f mods"
  have fm: "distinct (map (\<lambda>x. (key_entity_type (fst x), key_entity_id (fst x))) ?xs)"
    "(\<lambda>x. (key_entity_type (fst x), key_entity_id (fst x))) ` set ?xs = mod_loc ` {m \<in> set mods. f m \<noteq> None}"
    by (rule filter_map_locs [where f = f, OF dist], erule f)+
  note gf = group_by_type_facts [OF fm(1)]
  have set: "set gs = set (group_by_type ?xs)" using gs by (metis set_mset_mset)
  have all: "\<Union> (locs ` set gs) = mod_loc ` {m \<in> set mods. f m \<noteq> None}"
    using gf(2) fm(2) by (simp only: set)
  have "distinct (map fst gs)" using gf(1) gs by (metis mset_eq_imp_distinct_iff mset_map)
  moreover have "I (D' \<union> locs g) st2" if "g \<in> set gs" "I D' st1" "locs g \<inter> D' = {}" "step g st1 = Inr st2" for g D' st1 st2
  proof (cases g)
    case (Pair ty es)
    with that(1) set have g: "(ty, es) \<in> set (group_by_type ?xs)" by simp
    have "\<exists>m \<in> set mods. f m = Some x" if "x \<in> set ?xs" for x
      using that by (induction mods) (auto split: option.splits)
    with gf(4) [OF g] have "\<forall>x \<in> set es. key_entity_type (fst x) = ty \<and> (\<exists>m \<in> set mods. f m = Some x)" by blast
    with step [OF gf(3) [OF g]] that Pair show ?thesis by blast
  qed
  moreover have "\<forall>g \<in> set gs. locs g \<inter> D = {}" using fresh all by blast
  ultimately have "I (D \<union> \<Union> (locs ` set gs)) st'" by (intro fold_groups [where I = I, OF fold inv])
  then show ?thesis unfolding all .
qed

abbreviation insert_of :: "entity_modification \<Rightarrow> (entity_key \<times> entity) option" where
  "insert_of \<equiv> \<lambda>m. case m of Mod_Insert k e \<Rightarrow> Some (k, e) | _ \<Rightarrow> None"

abbreviation overwrite_of :: "entity_modification \<Rightarrow> (entity_key \<times> entity) option" where
  "overwrite_of \<equiv> \<lambda>m. case m of Mod_Overwrite k e \<Rightarrow> Some (k, e) | _ \<Rightarrow> None"

abbreviation removal_of :: "entity_modification \<Rightarrow> (entity_key \<times> unit) option" where
  "removal_of \<equiv> \<lambda>m. case m of Mod_Remove k \<Rightarrow> Some (k, ()) | _ \<Rightarrow> None"

abbreviation locs_of :: "(entity_modification \<Rightarrow> 'x option) \<Rightarrow> entity_modification list \<Rightarrow> (entity_type \<times> string) set" where
  "locs_of f mods \<equiv> mod_loc ` {m \<in> set mods. f m \<noteq> None}"

lemma mods_fit_distinct: "block_ready lay block mods db0 \<Longrightarrow> distinct (map mod_loc mods)"
  by (simp add: block_ready_def mods_fit_def)

lemma locs_of_disjoint:
  assumes ready: "block_ready lay block mods db0" and "\<And>m. f m = None \<or> g m = None"
  shows "locs_of f mods \<inter> locs_of g mods = {}"
proof (rule equals0I)
  fix x
  assume "x \<in> locs_of f mods \<inter> locs_of g mods"
  then obtain m m' where "m \<in> set mods" "m' \<in> set mods" "f m \<noteq> None" "g m' \<noteq> None" "mod_loc m = mod_loc m'" by auto
  with mods_fit_inj [of db0 mods m m'] ready assms(2) [of m] show False by (auto simp: block_ready_def)
qed

lemma insert_phase:
  assumes ready: "block_ready lay block mods db0" and ord: "order_ok ord" and inv: "writes_inv lay block mods db0 D st0"
    and fresh: "locs_of insert_of mods \<inter> D = {}"
    and fold: "try_fold (\<lambda>(ty, es) (count, db). map_sum id (\<lambda>(n, db'). (count + int n, db')) (insert_entities sch lay ty es block db))
        (ord_data ord (group_by_type (mod_inserts mods))) st0 = Inr st1"
  shows "writes_inv lay block mods db0 (D \<union> locs_of insert_of mods) st1"
proof (rule group_phase [OF fold, where f = insert_of and mods = mods and I = "writes_inv lay block mods db0"])
  show "mset (ord_data ord (group_by_type (mod_inserts mods))) = mset (group_by_type (filter_map insert_of mods))"
    using ord by (simp add: order_ok_def mod_inserts_def)
  show "writes_inv lay block mods db0 (D \<union> locs (ty, es)) st'"
    if "distinct (map (key_entity_id \<circ> fst) es)" "\<forall>x \<in> set es. key_entity_type (fst x) = ty \<and> (\<exists>m \<in> set mods. insert_of m = Some x)"
      "writes_inv lay block mods db0 D st" "locs (ty, es) \<inter> D = {}"
      "(case (ty, es) of (ty, es) \<Rightarrow> \<lambda>(count, db). map_sum id (\<lambda>(n, db'). (count + int n, db')) (insert_entities sch lay ty es block db)) st = Inr st'"
    for ty es D st st'
  proof -
    obtain c d where st: "st = (c, d)" by fastforce
    with that(5) obtain n d' where "insert_entities sch lay ty es block d = Inr (n, d')" "st' = (c + int n, d')"
      by (cases "insert_entities sch lay ty es block d") auto
    moreover have "\<forall>(k, e) \<in> set es. key_entity_type k = ty \<and> Mod_Insert k e \<in> set mods"
      using that(2) by (fastforce split: entity_modification.splits)
    ultimately show ?thesis using insert_group [OF ready _ that(1) _ that(4)] that(3) st by blast
  qed
qed (use mods_fit_distinct [OF ready] inv fresh in \<open>auto simp: mod_loc_def split: entity_modification.splits\<close>)

lemma overwrite_phase:
  assumes ready: "block_ready lay block mods db0" and ord: "order_ok ord" and inv: "writes_inv lay block mods db0 D st0"
    and fresh: "locs_of overwrite_of mods \<inter> D = {}"
    and fold: "try_fold (\<lambda>(ty, es) (count, db). map_sum id (\<lambda>(_, db'). (count, db')) (overwrite_entities sch lay ty es block db))
        (ord_data ord (group_by_type (mod_overwrites mods))) st0 = Inr st1"
  shows "writes_inv lay block mods db0 (D \<union> locs_of overwrite_of mods) st1"
proof (rule group_phase [OF fold, where f = overwrite_of and mods = mods and I = "writes_inv lay block mods db0"])
  show "mset (ord_data ord (group_by_type (mod_overwrites mods))) = mset (group_by_type (filter_map overwrite_of mods))"
    using ord by (simp add: order_ok_def mod_overwrites_def)
  show "writes_inv lay block mods db0 (D \<union> locs (ty, es)) st'"
    if "distinct (map (key_entity_id \<circ> fst) es)" "\<forall>x \<in> set es. key_entity_type (fst x) = ty \<and> (\<exists>m \<in> set mods. overwrite_of m = Some x)"
      "writes_inv lay block mods db0 D st" "locs (ty, es) \<inter> D = {}"
      "(case (ty, es) of (ty, es) \<Rightarrow> \<lambda>(count, db). map_sum id (\<lambda>(_, db'). (count, db')) (overwrite_entities sch lay ty es block db)) st = Inr st'"
    for ty es D st st'
  proof -
    obtain c d where st: "st = (c, d)" by fastforce
    with that(5) obtain n d' where "overwrite_entities sch lay ty es block d = Inr (n, d')" "st' = (c, d')"
      by (cases "overwrite_entities sch lay ty es block d") auto
    moreover have "\<forall>(k, e) \<in> set es. key_entity_type k = ty \<and> Mod_Overwrite k e \<in> set mods"
      using that(2) by (fastforce split: entity_modification.splits)
    ultimately show ?thesis using overwrite_group [OF ready _ that(1) _ that(4)] that(3) st by blast
  qed
qed (use mods_fit_distinct [OF ready] inv fresh in \<open>auto simp: mod_loc_def split: entity_modification.splits\<close>)

lemma remove_phase:
  assumes ready: "block_ready lay block mods db0" and ord: "order_ok ord" and inv: "writes_inv lay block mods db0 D st0"
    and fresh: "locs_of removal_of mods \<inter> D = {}"
    and fold: "try_fold (\<lambda>(ty, ks) (count, db). map_sum id (\<lambda>(n, db'). (count - int n, db'))
          (layout_delete lay ty (map (key_entity_id \<circ> fst) ks) block db))
        (ord_keys ord (group_by_type (mod_removals mods))) st0 = Inr st1"
  shows "writes_inv lay block mods db0 (D \<union> locs_of removal_of mods) st1"
proof (rule group_phase [OF fold, where f = removal_of and mods = mods and I = "writes_inv lay block mods db0"])
  show "mset (ord_keys ord (group_by_type (mod_removals mods))) = mset (group_by_type (filter_map removal_of mods))"
    using ord by (simp add: order_ok_def mod_removals_def)
  show "writes_inv lay block mods db0 (D \<union> locs (ty, ks)) st'"
    if "distinct (map (key_entity_id \<circ> fst) ks)" "\<forall>x \<in> set ks. key_entity_type (fst x) = ty \<and> (\<exists>m \<in> set mods. removal_of m = Some x)"
      "writes_inv lay block mods db0 D st" "locs (ty, ks) \<inter> D = {}"
      "(case (ty, ks) of (ty, ks) \<Rightarrow> \<lambda>(count, db). map_sum id (\<lambda>(n, db'). (count - int n, db'))
        (layout_delete lay ty (map (key_entity_id \<circ> fst) ks) block db)) st = Inr st'"
    for ty ks D st st'
  proof -
    obtain c d where st: "st = (c, d)" by fastforce
    with that(5) obtain n d' where "layout_delete lay ty (map (key_entity_id \<circ> fst) ks) block d = Inr (n, d')" "st' = (c - int n, d')"
      by (cases "layout_delete lay ty (map (key_entity_id \<circ> fst) ks) block d") auto
    moreover have "\<forall>(k, u) \<in> set ks. key_entity_type k = ty \<and> Mod_Remove k \<in> set mods"
      using that(2) by (fastforce split: entity_modification.splits)
    ultimately show ?thesis using remove_group [OF ready _ _ that(4)] that(3) st by blast
  qed
qed (use mods_fit_distinct [OF ready] inv fresh in \<open>auto simp: mod_loc_def split: entity_modification.splits\<close>)

lemma apply_entity_modifications_inv:
  assumes ready: "block_ready lay block mods db0" and ord: "order_ok ord"
    and res: "apply_entity_modifications ord sch lay mods block db0 = Inr (cnt, db)"
  shows "writes_inv lay block mods db0 (mod_loc ` set mods) (cnt, db)"
proof -
  let ?I = "writes_inv lay block mods db0"
  from res obtain st1 st2 where
      ins: "try_fold (\<lambda>(ty, es) (count, db). map_sum id (\<lambda>(n, db'). (count + int n, db')) (insert_entities sch lay ty es block db))
        (ord_data ord (group_by_type (mod_inserts mods))) (0, db0) = Inr st1"
    and ovr: "try_fold (\<lambda>(ty, es) (count, db). map_sum id (\<lambda>(_, db'). (count, db')) (overwrite_entities sch lay ty es block db))
        (ord_data ord (group_by_type (mod_overwrites mods))) st1 = Inr st2"
    and rem: "try_fold (\<lambda>(ty, ks) (count, db). map_sum id (\<lambda>(n, db'). (count - int n, db'))
          (layout_delete lay ty (map (key_entity_id \<circ> fst) ks) block db))
        (ord_keys ord (group_by_type (mod_removals mods))) st2 = Inr (cnt, db)"
    by (auto simp: apply_entity_modifications_def and_then_def split: sum.splits)
  have dis: "locs_of overwrite_of mods \<inter> locs_of insert_of mods = {}"
    by (rule locs_of_disjoint [OF ready]) (simp split: entity_modification.split)
  have dis': "locs_of removal_of mods \<inter> locs_of insert_of mods = {}"
    by (rule locs_of_disjoint [OF ready]) (simp split: entity_modification.split)
  have dis'': "locs_of removal_of mods \<inter> locs_of overwrite_of mods = {}"
    by (rule locs_of_disjoint [OF ready]) (simp split: entity_modification.split)
  have I1: "?I ({} \<union> locs_of insert_of mods) st1" by (rule insert_phase [OF ready ord writes_inv_start [OF ready] _ ins]) simp
  have I2: "?I (({} \<union> locs_of insert_of mods) \<union> locs_of overwrite_of mods) st2"
    by (rule overwrite_phase [OF ready ord I1 _ ovr]) (use dis in simp)
  have "?I ((({} \<union> locs_of insert_of mods) \<union> locs_of overwrite_of mods) \<union> locs_of removal_of mods) (cnt, db)"
    by (rule remove_phase [OF ready ord I2 _ rem]) (use dis' dis'' in \<open>simp add: Int_Un_distrib\<close>)
  moreover have "insert_of m \<noteq> None \<or> overwrite_of m \<noteq> None \<or> removal_of m \<noteq> None" for m by (cases m) auto
  then have "({} \<union> locs_of insert_of mods \<union> locs_of overwrite_of mods) \<union> locs_of removal_of mods = mod_loc ` set mods" by blast
  ultimately show ?thesis by simp
qed

section \<open>Versions of entities\<close>

text \<open>The stored values of an entity at a block, which are what \<^const>\<open>layout_find\<close> reads.\<close>

definition entity_version :: "layout \<Rightarrow> tables \<Rightarrow> block_number \<Rightarrow> entity_key \<Rightarrow> entity option" where
  "entity_version lay db b k =
     (case hm_get (lay_tables lay) (key_entity_type k) of
        None \<Rightarrow> None
      | Some t \<Rightarrow>
          (case find_query t k b (db (key_entity_type k)) of [] \<Rightarrow> None | r # _ \<Rightarrow> Some (row_data r)))"

text \<open>Only tables with a column for it have entities outside of causality region 0.\<close>

definition key_ok :: "layout \<Rightarrow> entity_key \<Rightarrow> bool" where
  "key_ok lay k \<longleftrightarrow>
     (case hm_get (lay_tables lay) (key_entity_type k) of
        None \<Rightarrow> True | Some t \<Rightarrow> tbl_has_causality_region t \<or> key_causality_region k = 0)"

definition stored_entity :: "layout \<Rightarrow> entity_key \<Rightarrow> entity \<Rightarrow> entity" where
  "stored_entity lay k e = (case stored lay k e of None \<Rightarrow> e | Some (_, e') \<Rightarrow> e')"

fun stored_mod :: "layout \<Rightarrow> entity_modification \<Rightarrow> entity_modification" where
  "stored_mod lay (Mod_Insert k e) = Mod_Insert k (stored_entity lay k e)"
| "stored_mod lay (Mod_Overwrite k e) = Mod_Overwrite k (stored_entity lay k e)"
| "stored_mod lay (Mod_Remove k) = Mod_Remove k"

lemma stored_mod_ref [simp]: "mod_entity_ref (stored_mod lay m) = mod_entity_ref m"
  by (cases m) auto

lemma entity_version_view:
  assumes "tables_wf lay h db" "h \<le> BLOCK_NUMBER_MAX" "b \<le> BLOCK_NUMBER_MAX" "hm_get (lay_tables lay) (key_entity_type k) = Some t"
  shows "entity_version lay db b k =
    Option.bind (table_view (db (key_entity_type k)) b (key_entity_id k)) (\<lambda>(c, e).
      if tbl_has_causality_region t \<longrightarrow> c = key_causality_region k then Some e else None)"
proof -
  let ?rows = "db (key_entity_type k)"
  have wf: "table_wf t h ?rows" using assms(1,4) by (rule tables_wfD)
  have eq: "find_query t k b ?rows = filter (\<lambda>r. key_matches t k r \<and> version_has (row_version r) b) ?rows"
    unfolding find_query_def using brc_contains_eq [OF table_wf_row [OF wf] assms(3,2)] by (auto intro: filter_cong)
  show ?thesis
  proof (cases "find_query t k b ?rows")
    case Nil
    then have "\<not> (tbl_has_causality_region t \<longrightarrow> c = key_causality_region k)" if "table_view ?rows b (key_entity_id k) = Some (c, e)" for c e
      using that table_view_Some [OF wf] unfolding eq by (auto simp: filter_empty_conv key_matches_def)
    with Nil assms(4) show ?thesis by (cases "table_view ?rows b (key_entity_id k)") (auto simp: entity_version_def)
  next
    case (Cons r rs)
    then have "r \<in> set (filter (\<lambda>r. key_matches t k r \<and> version_has (row_version r) b) ?rows)" unfolding eq by simp
    then have r: "r \<in> set ?rows" "key_matches t k r" "version_has (row_version r) b" by simp_all
    then have "table_view ?rows b (key_entity_id k) = Some (row_region r, row_data r)"
      using table_view_Some [OF wf] by (auto simp: key_matches_def)
    with r(2) Cons assms(4) show ?thesis by (simp add: entity_version_def key_matches_def)
  qed
qed

lemma apply_modifications_at:
  assumes "inj_on mod_entity_ref (set ms)"
  shows "m \<in> set ms \<Longrightarrow> fold apply_modification ms S (mod_entity_ref m) = mod_entity m"
    and "k \<notin> mod_entity_ref ` set ms \<Longrightarrow> fold apply_modification ms S k = S k"
proof -
  have "fold apply_modification ms S k = (if \<exists>m \<in> set ms. mod_entity_ref m = k
      then mod_entity (THE m. m \<in> set ms \<and> mod_entity_ref m = k) else S k)" if "inj_on mod_entity_ref (set ms)" for ms S k
    using that
  proof (induction ms rule: rev_induct)
    case (snoc x xs)
    have inj: "inj_on mod_entity_ref (set xs)" using snoc.prems by (auto simp: inj_on_def)
    show ?case
    proof (cases "mod_entity_ref x = k")
      case True
      then have "(THE m. m \<in> set (xs @ [x]) \<and> mod_entity_ref m = k) = x"
        using snoc.prems by (intro the_equality) (auto simp: inj_on_def)
      with True show ?thesis by (simp add: apply_modification_eq)
    next
      case False
      then have "(\<lambda>m. m \<in> set (xs @ [x]) \<and> mod_entity_ref m = k) = (\<lambda>m. m \<in> set xs \<and> mod_entity_ref m = k)" by auto
      with False snoc.IH [OF inj] show ?thesis by (auto simp: apply_modification_eq)
    qed
  qed simp
  note fold = this [OF assms, of S]
  show "m \<in> set ms \<Longrightarrow> fold apply_modification ms S (mod_entity_ref m) = mod_entity m"
  proof -
    assume m: "m \<in> set ms"
    then have "(THE m'. m' \<in> set ms \<and> mod_entity_ref m' = mod_entity_ref m) = m"
      using assms by (intro the_equality) (auto simp: inj_on_def)
    with m fold [of "mod_entity_ref m"] show ?thesis by auto
  qed
  show "k \<notin> mod_entity_ref ` set ms \<Longrightarrow> fold apply_modification ms S k = S k" using fold [of k] by auto
qed

lemma mods_fit_ref_inj: "mods_fit db mods \<Longrightarrow> inj_on mod_entity_ref (set (map (stored_mod lay) mods))"
proof -
  assume fit: "mods_fit db mods"
  have "m = m'" if "m \<in> set mods" "m' \<in> set mods" "mod_entity_ref m = mod_entity_ref m'" for m m'
    using mods_fit_inj [OF fit that(1,2)] that(3) by (simp add: mod_loc_def)
  then show "inj_on mod_entity_ref (set (map (stored_mod lay) mods))" by (auto simp: inj_on_def)
qed

lemma version_has_later:
  "version_ok m h v \<Longrightarrow> h < b \<Longrightarrow> version_has v b \<Longrightarrow> b \<le> BLOCK_NUMBER_MAX \<Longrightarrow> brc_latest v"
  by (cases "(m, h, v)" rule: version_ok.cases) (auto split: option.splits)

text \<open>An entity that has the id of a modification but another key: it was not there, and still is not.\<close>

lemma other_region_absent:
  assumes ready: "block_ready lay block mods db" and m: "m \<in> set mods" "mod_loc m = (key_entity_type k, key_entity_id k)"
    and k: "mod_entity_ref m \<noteq> k" "key_ok lay k" "key_ok lay (mod_entity_ref m)" and t: "hm_get (lay_tables lay) (key_entity_type k) = Some t"
    and b: "block \<le> b" "b \<le> BLOCK_NUMBER_MAX"
  shows "tbl_has_causality_region t" "key_causality_region (mod_entity_ref m) \<noteq> key_causality_region k"
    "entity_version lay db b k = None"
proof -
  have loc: "key_entity_type (mod_entity_ref m) = key_entity_type k" "key_entity_id (mod_entity_ref m) = key_entity_id k"
    using m(2) by (simp_all add: mod_loc_def)
  with k(1) show region: "key_causality_region (mod_entity_ref m) \<noteq> key_causality_region k" by (auto intro: entity_key.equality)
  with k(2,3) t loc show cr: "tbl_has_causality_region t" by (auto simp: key_ok_def)
  have wf: "tables_wf lay (block - 1) db" and h: "block - 1 \<le> BLOCK_NUMBER_MAX" and fit: "mods_fit db mods"
    using ready by (auto simp: block_ready_def)
  have "c = key_causality_region (mod_entity_ref m)" if "table_view (db (key_entity_type k)) b (key_entity_id k) = Some (c, e)" for c e
  proof -
    from that obtain r where r: "r \<in> set (db (key_entity_type k))" "row_id r = key_entity_id k" "version_has (row_version r) b" "c = row_region r"
      using table_view_Some [OF tables_wfD [OF wf t]] by auto
    then have "brc_latest (row_version r)"
      using b by (intro version_has_later [OF table_wf_row [OF tables_wfD [OF wf t] r(1)], of b]) auto
    with fit m r show ?thesis by (fastforce simp: mods_fit_def)
  qed
  with region cr show "entity_version lay db b k = None"
    unfolding entity_version_view [OF wf h b(2) t] by (cases "table_view (db (key_entity_type k)) b (key_entity_id k)") auto
qed

lemma apply_entity_modifications_version:
  assumes ready: "block_ready lay block mods db" and inv: "writes_inv lay block mods db (mod_loc ` set mods) (cnt, db')"
    and ks: "\<forall>m \<in> set mods. key_ok lay (mod_entity_ref m)" "key_ok lay k" and b: "b \<le> BLOCK_NUMBER_MAX"
  shows "entity_version lay db' b k = v_write block (map (stored_mod lay) mods) (entity_version lay db) b k"
proof (cases "hm_get (lay_tables lay) (key_entity_type k)")
  case None
  have "mod_entity (stored_mod lay m) = None" if "m \<in> set mods" "mod_entity_ref m = k" for m
  proof -
    have "mod_is_remove m \<or> mod_target lay m \<noteq> None" using inv that(1) by (auto simp: writes_inv_def)
    then show ?thesis using that(2) None by (cases m rule: entity_modification.exhaust) (auto simp: stored_def)
  qed
  then have "fold apply_modification (map (stored_mod lay) mods) (entity_version lay db b) k = None"
    using apply_modifications_at [OF mods_fit_ref_inj [of db mods lay], of _ "entity_version lay db b"] ready None
    by (cases "k \<in> mod_entity_ref ` set mods") (force simp: block_ready_def entity_version_def image_comp)+
  with None show ?thesis by (simp add: v_write_def entity_version_def)
next
  case (Some t)
  let ?x = "(key_entity_type k, key_entity_id k)"
  have wf: "tables_wf lay (block - 1) db" "tables_wf lay block db'" and fit: "mods_fit db mods"
    and h: "block - 1 \<le> BLOCK_NUMBER_MAX" "block \<le> BLOCK_NUMBER_MAX"
    using ready inv by (auto simp: block_ready_def writes_inv_def after_writes_def)
  note views = entity_version_view [OF wf(1) h(1) b Some] entity_version_view [OF wf(2) h(2) b Some]
  have view: "table_view (db' (key_entity_type k)) b (key_entity_id k) =
      (if block \<le> b \<and> ?x \<in> mod_loc ` set mods then target lay mods ?x else table_view (db (key_entity_type k)) b (key_entity_id k))"
    using inv by (simp add: writes_inv_def after_writes_def)
  note fold = apply_modifications_at [OF mods_fit_ref_inj [OF fit, of lay], of _ "entity_version lay db b"]
  show ?thesis
  proof (cases "block \<le> b \<and> ?x \<in> mod_loc ` set mods")
    case False
    then have "entity_version lay db' b k = entity_version lay db b k" using view views by auto
    moreover have "k \<notin> mod_entity_ref ` set mods" if "block \<le> b" using False that by (force simp: mod_loc_def)
    ultimately show ?thesis using fold(2) by (simp add: v_write_def image_comp)
  next
    case True
    then obtain m where m: "m \<in> set mods" "mod_loc m = ?x" by auto
    have tgt: "target lay mods ?x = mod_target lay m" using target_of_mod [OF fit m(1)] m(2) by simp
    have sound: "mod_is_remove m \<or> mod_target lay m \<noteq> None" using inv m True by (auto simp: writes_inv_def)
    show ?thesis
    proof (cases "mod_entity_ref m = k")
      case k: True
      have "entity_version lay db' b k = mod_entity (stored_mod lay m)"
        using view views(2) True tgt sound Some k
        by (cases m rule: entity_modification.exhaust) (auto simp: stored_entity_def stored_def split: option.splits sum.splits if_splits)
      with fold(1) [of "stored_mod lay m"] m True k show ?thesis by (simp add: v_write_def)
    next
      case False
      note absent = other_region_absent [OF ready m False ks(2) _ Some _ b]
      have "k \<noteq> mod_entity_ref m'" if "m' \<in> set mods" for m'
        using mods_fit_inj [OF fit that m(1)] m(2) False by (auto simp: mod_loc_def)
      then have "fold apply_modification (map (stored_mod lay) mods) (entity_version lay db b) k = entity_version lay db b k"
        by (intro fold(2)) (force simp: image_comp)
      moreover have "entity_version lay db' b k = None"
        using view views(2) True tgt absent(1,2) ks(1) m Some
        by (cases m rule: entity_modification.exhaust) (auto simp: stored_def mod_loc_def split: option.splits sum.splits if_splits)
      ultimately show ?thesis using True absent(3) ks(1) m(1) by (simp add: v_write_def)
    qed
  qed
qed

section \<open>Reverting blocks\<close>

lemma revert_selects_eq:
  assumes "version_ok m h v" "h < BLOCK_NUMBER_MAX" "b \<le> h"
  shows "revert_clamp_selects b v \<longleftrightarrow> (\<exists>l n. v = VC_Range (BR l (Some n)) \<and> l \<le> b \<and> b < n)"
  using assms by (cases "(m, h, v)" rule: version_ok.cases) (auto simp: sql_le_def coalesce_max_def split: option.splits)

definition reverted :: "block_number \<Rightarrow> trow list \<Rightarrow> trow list" where
  "reverted b rows =
     map (\<lambda>r. if revert_clamp_selects b (row_version r) then r\<lparr>row_version := unclamp (row_version r)\<rparr> else r)
       (filter (\<lambda>r. \<not> brc_changed_since (b + 1) (row_version r)) rows)"

lemma reverted_version:
  assumes "version_ok m h v" "h < BLOCK_NUMBER_MAX" "b \<le> h" "\<not> brc_changed_since (b + 1) v"
  defines "w \<equiv> if revert_clamp_selects b v then unclamp v else v"
  shows "version_ok m b w" "version_has w c \<longleftrightarrow> version_has v (min b c)"
proof -
  have "version_ok m b w \<and> (version_has w c \<longleftrightarrow> version_has v (min b c))"
  proof (cases v)
    case (VC_Block n)
    with assms(1,4) show ?thesis by (auto simp: w_def)
  next
    case (VC_Range x)
    with assms(1) obtain l u where v: "v = VC_Range (BR l u)" by (cases x) auto
    with assms(4) have "l \<le> b" by (simp add: sql_ge_def)
    show ?thesis
    proof (cases u)
      case None
      with v assms(1) \<open>l \<le> b\<close> revert_selects_eq [OF assms(1-3)] show ?thesis by (auto simp: w_def)
    next
      case (Some n)
      with v assms(1) \<open>l \<le> b\<close> revert_selects_eq [OF assms(1-3)] show ?thesis by (auto simp: w_def)
    qed
  qed
  then show "version_ok m b w" "version_has w c \<longleftrightarrow> version_has v (min b c)" by auto
qed

lemma changed_since_has:
  "version_ok m h v \<Longrightarrow> brc_changed_since (b + 1) v \<Longrightarrow> c \<le> b \<Longrightarrow> \<not> version_has v c"
  by (cases "(m, h, v)" rule: version_ok.cases) (auto simp: sql_ge_def)

lemma reverted_view:
  assumes wf: "table_wf t h rows" and h: "h < BLOCK_NUMBER_MAX" "b \<le> h"
  shows "table_wf t b (reverted b rows)" "table_view (reverted b rows) c i = table_view rows (min b c) i"
proof -
  let ?f = "\<lambda>r. if revert_clamp_selects b (row_version r) then r\<lparr>row_version := unclamp (row_version r)\<rparr> else r"
  let ?kept = "filter (\<lambda>r. \<not> brc_changed_since (b + 1) (row_version r)) rows"
  have ok: "version_ok (tbl_immutable t) b (row_version (?f r))" "version_has (row_version (?f r)) c \<longleftrightarrow> version_has (row_version r) (min b c)"
    if "r \<in> set ?kept" for r c
  proof -
    from that have r: "r \<in> set rows" "\<not> brc_changed_since (b + 1) (row_version r)" by simp_all
    have "row_version (?f r) = (if revert_clamp_selects b (row_version r) then unclamp (row_version r) else row_version r)" by simp
    with reverted_version [OF table_wf_row [OF wf r(1)] h r(2)]
    show "version_ok (tbl_immutable t) b (row_version (?f r))" "version_has (row_version (?f r)) c \<longleftrightarrow> version_has (row_version r) (min b c)"
      by simp_all
  qed
  have excl: "\<not> rows_exclude (?f r) (?f s)" if rs: "r \<in> set ?kept" "s \<in> set ?kept" "\<not> rows_exclude r s" for r s
  proof
    assume ex: "rows_exclude (?f r) (?f s)"
    from exclude_common_block [OF ok(1) [OF rs(1)] ok(1) [OF rs(2)] ex] obtain c
      where "version_has (row_version (?f r)) c" "version_has (row_version (?f s)) c" .
    then have "version_has (row_version r) (min b c)" "version_has (row_version s) (min b c)" using ok(2) rs(1,2) by blast+
    moreover have "row_id r = row_id s" using ex by (auto simp: rows_exclude_def split: if_splits)
    ultimately show False
      using rs versions_overlap [OF table_wf_row [OF wf, of r] table_wf_row [OF wf, of s]] by auto
  qed
  have "rows_distinct (map ?f ?kept)"
    unfolding rows_distinct_sorted sorted_wrt_map
    by (rule sorted_wrt_mono_rel [OF excl]) (use wf in \<open>auto simp: table_wf_def rows_distinct_sorted sorted_wrt_filter\<close>)
  moreover have "row_ok t b (?f r)" if "r \<in> set ?kept" for r
    using ok(1) [OF that] that wf by (auto simp: row_ok_def table_wf_def list_all_iff)
  ultimately show wf': "table_wf t b (reverted b rows)" unfolding table_wf_def reverted_def list_all_iff set_map by blast
  show "table_view (reverted b rows) c i = table_view rows (min b c) i"
  proof (rule table_view_eqI [OF wf' wf])
    fix x
    have "(\<exists>r \<in> set (reverted b rows). row_id r = i \<and> version_has (row_version r) c \<and> x = (row_region r, row_data r)) \<longleftrightarrow>
        (\<exists>r \<in> set ?kept. row_id (?f r) = i \<and> version_has (row_version (?f r)) c \<and> x = (row_region (?f r), row_data (?f r)))"
      unfolding reverted_def set_map bex_simps(7) ..
    also have "\<dots> \<longleftrightarrow> (\<exists>r \<in> set ?kept. row_id r = i \<and> version_has (row_version r) (min b c) \<and> x = (row_region r, row_data r))"
    proof (rule bex_cong [OF refl])
      fix r assume "r \<in> set ?kept"
      from ok(2) [OF this, of c] show "(row_id (?f r) = i \<and> version_has (row_version (?f r)) c \<and> x = (row_region (?f r), row_data (?f r))) \<longleftrightarrow>
          (row_id r = i \<and> version_has (row_version r) (min b c) \<and> x = (row_region r, row_data r))" by auto
    qed
    also have "\<dots> \<longleftrightarrow> (\<exists>r \<in> set rows. row_id r = i \<and> version_has (row_version r) (min b c) \<and> x = (row_region r, row_data r))"
      using changed_since_has [OF table_wf_row [OF wf], of _ b "min b c"] by auto
    finally show "(\<exists>r \<in> set (reverted b rows). row_id r = i \<and> version_has (row_version r) c \<and> x = (row_region r, row_data r)) \<longleftrightarrow>
        (\<exists>r \<in> set rows. row_id r = i \<and> version_has (row_version r) (min b c) \<and> x = (row_region r, row_data r))" .
  qed
qed

lemma revert_table_rows:
  assumes "table_wf t h rows" "h < BLOCK_NUMBER_MAX" "b \<le> h"
  shows "\<exists>d. revert_table excl t (b + 1) rows = Inr (d, reverted b rows)"
proof -
  let ?kept = "filter (\<lambda>r. \<not> brc_changed_since (b + 1) (row_version r)) rows"
  have "reverted b rows = ?kept" if "tbl_immutable t"
  proof -
    have "\<not> revert_clamp_selects b (row_version r)" if "r \<in> set rows" for r
      using table_wf_row [OF assms(1) that] \<open>tbl_immutable t\<close> by (cases "(tbl_immutable t, h, row_version r)" rule: version_ok.cases) auto
    then show ?thesis by (auto simp: reverted_def intro: map_idI)
  qed
  moreover have "check_constraint excl t (reverted b rows) = Inr (reverted b rows)"
    using reverted_view(1) [OF assms] by (simp add: check_constraint_def table_wf_def)
  ultimately show ?thesis
    by (auto simp: revert_table_def and_then_def revert_clamp_query_def reverted_def Let_def)
qed

lemma revert_block_rows:
  assumes lay: "hm_wf (lay_tables lay)" and wf: "tables_wf lay h db" and h: "h < BLOCK_NUMBER_MAX" "b \<le> h"
  obtains ds where "revert_block lay (b + 1) db =
      Inr ((concat (map (\<lambda>((d, n), t). replicate n (tbl_object t)) (zip ds (map snd (lay_tables lay)))), sum_list (map fst ds)),
           \<lambda>ty. if ty \<in> fst ` set (lay_tables lay) then reverted b (db ty) else db ty)"
    "list_all2 (\<lambda>(ty, t) d. revert_table (lay_create_exclusion_constraint lay) t (b + 1) (db ty) = Inr (d, reverted b (db ty)))
       (lay_tables lay) ds"
proof -
  let ?excl = "lay_create_exclusion_constraint lay"
  let ?step = "revert_step lay (b + 1)"
  have "\<exists>ds. try_fold ?step ts ((ch, c), db1) = Inr ((ch @ concat (map (\<lambda>((d, n), t). replicate n (tbl_object t)) (zip ds (map snd ts))),
        c + sum_list (map fst ds)), \<lambda>ty. if ty \<in> fst ` set ts then reverted b (db ty) else db1 ty) \<and>
      list_all2 (\<lambda>(ty, t) d. revert_table ?excl t (b + 1) (db ty) = Inr (d, reverted b (db ty))) ts ds"
    if "distinct (map fst ts)" "\<forall>(ty, t) \<in> set ts. table_wf t h (db ty) \<and> db1 ty = db ty" for ts ch c db1
    using that
  proof (induction ts arbitrary: ch c db1)
    case (Cons e ts)
    obtain ty t where e: "e = (ty, t)" by fastforce
    with Cons.prems have wf_t: "table_wf t h (db ty)" "db1 ty = db ty" by auto
    obtain d n where d: "revert_table ?excl t (b + 1) (db ty) = Inr ((d, n), reverted b (db ty))"
      using revert_table_rows [OF wf_t(1) h] by (metis surj_pair)
    from Cons.prems e have "\<forall>(ty', t') \<in> set ts. table_wf t' h (db ty') \<and> (db1(ty := reverted b (db ty))) ty' = db ty'" by force
    moreover have "distinct (map fst ts)" using Cons.prems(1) by simp
    ultimately obtain ds where ds:
      "try_fold ?step ts ((ch @ replicate n (tbl_object t), c + d), db1(ty := reverted b (db ty))) =
         Inr (((ch @ replicate n (tbl_object t)) @ concat (map (\<lambda>((d, n), t). replicate n (tbl_object t)) (zip ds (map snd ts))),
           c + d + sum_list (map fst ds)), \<lambda>ty'. if ty' \<in> fst ` set ts then reverted b (db ty') else (db1(ty := reverted b (db ty))) ty')"
      "list_all2 (\<lambda>(ty, t) d. revert_table ?excl t (b + 1) (db ty) = Inr (d, reverted b (db ty))) ts ds"
      using Cons.IH [of "db1(ty := reverted b (db ty))" "ch @ replicate n (tbl_object t)" "c + d"] by blast
    have step: "?step e ((ch, c), db1) = Inr ((ch @ replicate n (tbl_object t), c + d), db1(ty := reverted b (db ty)))"
      using d e wf_t(2) by simp
    have "(\<lambda>ty'. if ty' \<in> fst ` set ts then reverted b (db ty') else (db1(ty := reverted b (db ty))) ty') =
        (\<lambda>ty'. if ty' \<in> fst ` set (e # ts) then reverted b (db ty') else db1 ty')" using e by auto
    with ds d e step show ?case by (intro exI [of _ "(d, n) # ds"]) (simp add: add.assoc)
  qed simp
  from this [of "lay_tables lay" db "[]" 0] lay wf that show thesis
    by (fastforce simp: revert_block_def tables_wf_def)
qed

lemma rows_at_block:
  assumes wf: "table_wf t h rows" and has: "\<forall>r \<in> set rows. P r \<longrightarrow> version_has (row_version r) c"
  shows "length (filter P rows) = card (row_id ` {r \<in> set rows. P r})"
proof -
  have excl: "rows_exclude r s" if "r \<in> set rows" "s \<in> set rows" "P r" "P s" "row_id r = row_id s" for r s
    using that versions_overlap [OF table_wf_row [OF wf that(1)] table_wf_row [OF wf that(2)]] has by blast
  have "sorted_wrt (\<lambda>r s. \<not> rows_exclude r s) (filter P rows)"
    using wf by (simp add: table_wf_def rows_distinct_sorted sorted_wrt_filter)
  then have "sorted_wrt (\<lambda>r s. row_id r \<noteq> row_id s) (filter P rows)"
    by (rule sorted_wrt_mono_rel [rotated]) (use excl in auto)
  then show ?thesis using distinct_card [OF sorted_wrt_distinct] by fastforce
qed

text \<open>When only the last block is reverted, the versions that it created are all current.\<close>

lemma revert_head_count:
  assumes wf: "table_wf t (b + 1) rows" and b: "b + 1 < BLOCK_NUMBER_MAX"
    and res: "revert_table excl t (b + 1) rows = Inr ((d, n), reverted b rows)"
  shows "int (current_count (reverted b rows)) = int (current_count rows) + d"
proof -
  let ?gone = "\<lambda>r. brc_changed_since (b + 1) (row_version r)" and ?sel = "\<lambda>r. revert_clamp_selects b (row_version r)"
  let ?R = "row_id ` {r \<in> set rows. ?gone r}" and ?U = "row_id ` {r \<in> set rows. ?sel r}"
  have cases: "(?gone r \<longrightarrow> brc_latest (row_version r) \<and> version_has (row_version r) (b + 1)) \<and>
      (?sel r \<longrightarrow> \<not> tbl_immutable t \<and> \<not> brc_latest (row_version r) \<and> \<not> ?gone r \<and> brc_latest (unclamp (row_version r)) \<and> version_has (row_version r) b)"
    if "r \<in> set rows" for r
    using table_wf_row [OF wf that] b
    by (cases "(tbl_immutable t, b + 1, row_version r)" rule: version_ok.cases)
      (auto simp: sql_ge_def sql_le_def coalesce_max_def split: option.splits)
  have R: "length (filter ?gone rows) = card ?R" by (rule rows_at_block [OF wf, where c = "b + 1"]) (use cases in blast)
  have U: "length (filter ?sel rows) = card ?U" by (rule rows_at_block [OF wf, where c = b]) (use cases in blast)
  have "current_count (reverted b rows) + length (filter ?gone rows) = current_count rows + length (filter ?sel rows)"
    using cases
  proof (induction rows)
    case (Cons r rows)
    have "current_count (reverted b rows) + length (filter ?gone rows) = current_count rows + length (filter ?sel rows)"
      by (rule Cons.IH) (rule Cons.prems, simp)
    moreover have "current_count (reverted b (r # rows)) =
        (if ?gone r \<or> \<not> ?sel r \<and> \<not> brc_latest (row_version r) then 0 else 1) + current_count (reverted b rows)"
      using Cons.prems [of r] by (auto simp: reverted_def current_count_def)
    ultimately show ?case using Cons.prems [of r] by (auto simp: current_count_def)
  qed (simp add: reverted_def current_count_def)
  moreover have "d = int (card (?U - ?R)) - int (card (?R - ?U))"
  proof -
    have "{r \<in> set (filter (\<lambda>r. \<not> ?gone r) rows). ?sel r} = {r \<in> set rows. ?sel r}" using cases by auto
    note sel = this
    show ?thesis
    proof (cases "tbl_immutable t")
      case True
      then have e: "{r \<in> set rows. ?sel r} = {}" using cases by blast
      show ?thesis unfolding e using res True by (auto simp: revert_table_def and_then_def Let_def)
    next
      case False
      with sel res show ?thesis
        by (simp add: revert_table_def and_then_def revert_clamp_query_def Let_def check_constraint_def split: if_splits)
    qed
  qed
  moreover have "int (card ?U) - int (card ?R) = int (card (?U - ?R)) - int (card (?R - ?U))"
  proof -
    have "card (?U - ?R) + card (?U \<inter> ?R) = card ?U" "card (?R - ?U) + card (?U \<inter> ?R) = card ?R"
      by (metis (no_types, lifting) Int_Diff_Un Int_Diff_disjoint List.finite_set card_Un_disjoint finite_Diff finite_Int finite_imageI finite_subset add.commute mem_Collect_eq subsetI Int_commute)+
    then show ?thesis by simp
  qed
  ultimately show ?thesis using R U by simp
qed

lemma revert_total_count:
  assumes "list_all2 (\<lambda>(ty, t) d. revert_table excl t (b + 1) (db ty) = Inr (d, reverted b (db ty))) ts es"
    and "\<forall>(ty, t) \<in> set ts. table_wf t h (db ty)" "b + 1 = h" "h < BLOCK_NUMBER_MAX"
  shows "sum_list (map (\<lambda>(ty, t). int (current_count (reverted b (db ty)))) ts) =
    sum_list (map (\<lambda>(ty, t). int (current_count (db ty))) ts) + sum_list (map fst (es :: (int \<times> nat) list))"
  using assms
proof (induction ts es rule: list_all2_induct)
  case (Cons x xs y ys)
  from Cons.hyps(1) Cons.prems revert_head_count [of "snd x" b "db (fst x)" _ "fst y" "snd y"]
  have "int (current_count (reverted b (db (fst x)))) = int (current_count (db (fst x))) + fst y" by (auto simp: split_beta)
  with Cons show ?case by (auto simp: split_beta)
qed simp

lemma revert_block_versions:
  assumes "hm_wf (lay_tables lay)" "tables_wf lay h db" "h < BLOCK_NUMBER_MAX" "b \<le> h"
  shows "\<exists>changes cnt db'. revert_block lay (b + 1) db = Inr ((changes, cnt), db') \<and> tables_wf lay b db' \<and>
    (\<forall>c k. c \<le> BLOCK_NUMBER_MAX \<longrightarrow> entity_version lay db' c k = v_revert b (entity_version lay db) c k) \<and>
    (b + 1 = h \<longrightarrow> total_count lay db' = total_count lay db + cnt)"
proof -
  let ?db' = "\<lambda>ty. if ty \<in> fst ` set (lay_tables lay) then reverted b (db ty) else db ty"
  from revert_block_rows [OF assms] obtain ds where
    res: "revert_block lay (b + 1) db =
      Inr ((concat (map (\<lambda>((d, n), t). replicate n (tbl_object t)) (zip ds (map snd (lay_tables lay)))), sum_list (map fst ds)), ?db')" and
    ds: "list_all2 (\<lambda>(ty, t) d. revert_table (lay_create_exclusion_constraint lay) t (b + 1) (db ty) = Inr (d, reverted b (db ty)))
       (lay_tables lay) ds" .
  have wf: "tables_wf lay b ?db'"
    using reverted_view(1) [OF _ assms(3,4)] assms(2) by (auto simp: tables_wf_def dom_map_of_conv_image_fst [symmetric])
  have "entity_version lay ?db' c k = entity_version lay db (min c b) k" if "c \<le> BLOCK_NUMBER_MAX" for c k
  proof (cases "hm_get (lay_tables lay) (key_entity_type k)")
    case (Some t)
    have "?db' (key_entity_type k) = reverted b (db (key_entity_type k))" using map_of_SomeD [OF Some] by force
    with entity_version_view [OF wf _ that Some] entity_version_view [OF assms(2) _ _ Some, of "min c b"] that assms(3,4)
      reverted_view(2) [OF tables_wfD [OF assms(2) Some] assms(3,4)] show ?thesis by (simp add: min.commute)
  qed (simp add: entity_version_def)
  moreover have "total_count lay ?db' = total_count lay db + sum_list (map fst ds)" if h: "b + 1 = h"
  proof -
    from revert_total_count [OF ds] assms(1-3) h
    have "sum_list (map (\<lambda>(ty, t). int (current_count (reverted b (db ty)))) (lay_tables lay)) = total_count lay db + sum_list (map fst ds)"
      by (auto simp: tables_wf_def total_count_def)
    moreover have "map (\<lambda>(ty, t). int (current_count (?db' ty))) (lay_tables lay) =
        map (\<lambda>(ty, t). int (current_count (reverted b (db ty)))) (lay_tables lay)" by (force intro: map_cong)
    ultimately show ?thesis by (simp only: total_count_def)
  qed
  ultimately show ?thesis using res wf by (auto simp: v_revert_def)
qed

section \<open>Properties\<close>

text \<open>C0. The tables keep the versions of entities as the write queue expects it: when the modifications of a block
  are applied without an error, every entity has at the blocks before it the values that it had, and from
  the block on those that the modification gives it, in whatever order the groups by entity type are
  written; the ranges of blocks stay disjoint, and the number that is returned is the change in the number
  of current entities. The modifications must fit what is there: at most one for an id, inserts only for
  entities that do not exist, overwrites and removals only for those that do.\<close>

theorem modifications_written:
  assumes "block_ready lay block mods db" "order_ok ord"
    and "apply_entity_modifications ord sch lay mods block db = Inr (cnt, db')"
    and "\<forall>m \<in> set mods. key_ok lay (mod_entity_ref m)"
  shows "tables_wf lay block db' \<and> total_count lay db' = total_count lay db + cnt \<and>
    (\<forall>b k. b \<le> BLOCK_NUMBER_MAX \<and> key_ok lay k \<longrightarrow>
       entity_version lay db' b k = v_write block (map (stored_mod lay) mods) (entity_version lay db) b k)"
  using apply_entity_modifications_inv [OF assms(1-3)] apply_entity_modifications_version [OF assms(1) _ assms(4)]
  by (auto simp: writes_inv_def after_writes_def)

definition account_table :: table_def where
  "account_table =
     \<lparr> tbl_object = ''Account'', tbl_name = ''account'',
       tbl_columns = [\<lparr> col_field = ''id'', col_fulltext_fields = None, col_is_nullable = False \<rparr>],
       tbl_is_account_like = True, tbl_immutable = False, tbl_has_causality_region = False \<rparr>"

definition account_layout :: layout where
  "account_layout = \<lparr> lay_tables = [(''Account'', account_table)], lay_create_exclusion_constraint = True \<rparr>"

definition same_order :: group_order where
  "same_order = \<lparr> ord_data = (\<lambda>gs. gs), ord_keys = (\<lambda>gs. gs) \<rparr>"

definition account_key :: entity_key where
  "account_key = \<lparr> key_entity_type = ''Account'', key_entity_id = ''a'', key_causality_region = 0 \<rparr>"

definition account_rows :: "(block_number \<times> block_number option) list \<Rightarrow> tables" where
  "account_rows vs =
     (\<lambda>_. [])(''Account'' := map (\<lambda>(l, u). \<lparr> row_id = ''a'', row_region = 0, row_data = [(''id'', V_String ''a'')],
        row_version = VC_Range (BR l u) \<rparr>) vs)"

lemmas account_simps = account_table_def account_layout_def account_key_def account_rows_def same_order_def

theorem modifications_written_witness:
  "tables_wf account_layout 6 (account_rows [(5, Some 6)]) \<and>
   total_count account_layout (account_rows [(5, Some 6)]) = total_count account_layout (account_rows [(5, None)]) - 1 \<and>
   entity_version account_layout (account_rows [(5, Some 6)]) 7 account_key = None"
proof -
  have "block_ready account_layout 6 [Mod_Remove account_key] (account_rows [(5, None)])"
    by (simp add: block_ready_def tables_wf_def table_wf_def row_ok_def mods_fit_def mod_loc_def has_current_def
        account_simps BLOCK_NUMBER_MAX_def)
  moreover have "order_ok same_order" by (simp add: order_ok_def same_order_def)
  moreover have "apply_entity_modifications same_order sch account_layout [Mod_Remove account_key] 6 (account_rows [(5, None)]) =
      Inr (- 1, account_rows [(5, Some 6)])" for sch
    by (auto simp: apply_entity_modifications_def and_then_def mod_inserts_def mod_overwrites_def mod_removals_def group_by_type_def
        layout_delete_def table_for_entity_def clamp_range_query_def clamp_row_def check_constraint_def int4range_def
        DELETE_OPERATION_CHUNK_SIZE_def chunks.simps account_simps BLOCK_NUMBER_MAX_def)
  moreover have "\<forall>m \<in> set [Mod_Remove account_key]. key_ok account_layout (mod_entity_ref m)"
    by (simp add: key_ok_def account_simps)
  ultimately have "tables_wf account_layout 6 (account_rows [(5, Some 6)]) \<and>
      total_count account_layout (account_rows [(5, Some 6)]) = total_count account_layout (account_rows [(5, None)]) + (- 1) \<and>
      (\<forall>b k. b \<le> BLOCK_NUMBER_MAX \<and> key_ok account_layout k \<longrightarrow>
         entity_version account_layout (account_rows [(5, Some 6)]) b k =
         v_write 6 (map (stored_mod account_layout) [Mod_Remove account_key]) (entity_version account_layout (account_rows [(5, None)])) b k)"
    by (rule modifications_written)
  then show ?thesis
    by (auto simp: v_write_def key_ok_def account_simps BLOCK_NUMBER_MAX_def)
qed

text \<open>C0. Reverting to a block always works on well-formed tables, and gives back the versions as of that block:
  at later blocks every entity has again the values that it had at the block. When only the last block is
  reverted, the number that is returned is the change in the number of current entities.\<close>

theorem reverted_versions:
  assumes "hm_wf (lay_tables lay)" "tables_wf lay h db" "h < BLOCK_NUMBER_MAX" "b \<le> h"
  shows "\<exists>changes cnt db'. revert_block lay (b + 1) db = Inr ((changes, cnt), db') \<and> tables_wf lay b db' \<and>
    (\<forall>c k. c \<le> BLOCK_NUMBER_MAX \<longrightarrow> entity_version lay db' c k = v_revert b (entity_version lay db) c k) \<and>
    (b + 1 = h \<longrightarrow> total_count lay db' = total_count lay db + cnt)"
  using assms by (rule revert_block_versions)

theorem reverted_versions_witness:
  "\<exists>changes cnt db'. revert_block account_layout (5 + 1) (account_rows [(5, Some 6)]) = Inr ((changes, cnt), db') \<and>
     tables_wf account_layout 5 db' \<and>
     (\<forall>c k. c \<le> BLOCK_NUMBER_MAX \<longrightarrow> entity_version account_layout db' c k =
        v_revert 5 (entity_version account_layout (account_rows [(5, Some 6)])) c k) \<and>
     ((5 :: int) + 1 = 6 \<longrightarrow> total_count account_layout db' = total_count account_layout (account_rows [(5, Some 6)]) + cnt)"
  by (rule reverted_versions)
    (simp_all add: tables_wf_def table_wf_def row_ok_def account_simps BLOCK_NUMBER_MAX_def)

text \<open>C0. When more than one block is reverted, the count can be wrong. An entity that was created after the block
  and removed again before the head is counted as one that the revert deletes, although it was not among
  the current entities; so the entity count of the deployment becomes too small by one.\<close>

theorem revert_miscounts:
  assumes "b < l" "l < u" "u < BLOCK_NUMBER_MAX" "\<not> tbl_immutable t" "row_version r = VC_Range (BR l (Some u))"
    and "lay_tables lay = [(ty, t)]" "db ty = [r]"
  shows "revert_block lay (b + 1) db = Inr (([tbl_object t], - 1), db(ty := [])) \<and>
    total_count lay db = 0 \<and> total_count lay (db(ty := [])) = 0"
  using assms
  by (simp add: revert_block_def revert_table_def and_then_def Let_def revert_clamp_query_def check_constraint_def
      sql_ge_def total_count_def current_count_def conj_disj_distribL Collect_conv_if)

theorem revert_miscounts_witness:
  "revert_block account_layout (4 + 1) (account_rows [(5, Some 6)]) =
     Inr ((([''Account''], - 1), (account_rows [(5, Some 6)])(''Account'' := []))) \<and>
   total_count account_layout (account_rows [(5, Some 6)]) = 0"
proof -
  have "revert_block account_layout (4 + 1) (account_rows [(5, Some 6)]) =
      Inr (([tbl_object account_table], - 1), (account_rows [(5, Some 6)])(''Account'' := [])) \<and>
    total_count account_layout (account_rows [(5, Some 6)]) = 0 \<and>
    total_count account_layout ((account_rows [(5, Some 6)])(''Account'' := [])) = 0"
    by (rule revert_miscounts [where l = 5 and u = 6]) (simp_all add: account_simps BLOCK_NUMBER_MAX_def)
  then show ?thesis by (simp add: account_table_def)
qed

text \<open>C0. The changes at a block can not be asked for when a deployment has an immutable entity type: the queries
  for them name a column that the table of such a type does not have, and fail whatever the block.\<close>

theorem find_changes_needs_mutable:
  assumes "(ty, t) \<in> set (lay_tables lay)" "tbl_immutable t" "tbl_name t \<noteq> POI_TABLE"
  shows "\<exists>e. layout_find_changes deserialize lib lay db block = Inl (PE_Database e)"
  using assms
  by (force simp: layout_find_changes_def find_changes_query_def and_then_def list_ex_iff Let_def)

theorem find_changes_needs_mutable_witness:
  "\<exists>e. layout_find_changes (\<lambda>_ r. Inr (row_data r)) reference_lib
     \<lparr> lay_tables = [(''Account'', account_table\<lparr>tbl_immutable := True\<rparr>)], lay_create_exclusion_constraint = False \<rparr>
     (\<lambda>_. []) 7 = Inl (PE_Database e)"
  by (rule find_changes_needs_mutable [where ty = "''Account''" and t = "account_table\<lparr>tbl_immutable := True\<rparr>"])
    (simp_all add: account_table_def POI_TABLE_def)

end
