(* ===== verification/Spec2Isabelle.thy ===== *)
theory Spec2Isabelle
  imports Prelude Float64 Graphql_Schema Scalar Store_Value Gas Lfu_Cache Store_Types Schema
    Schema_Validation Entity_Validation Entity_Cache Bounded_Queue Writable_Queue Writable_Store Block_Processing
    Eth_Trigger Eth_Data_Source Eth_Filter Polling_Stream Schema_Ast Api_Schema Query_Coercion
    Selection_Set Query_Prepare Query_Expansion Entity_Query Prefetch Query_Execution Entity_Tables
begin

text \<open>
  A verification of the core of \<open>graph-node\<close>, the Rust program under \<open>src/lib/graph-node\<close> that indexes
  subgraphs: it runs the handlers of a subgraph over the blocks of a chain and stores the entities they
  produce. File names below are relative to that directory.

  \<^bold>\<open>How the parts work together.\<close> Handlers read and write entities through the \<^emph>\<open>entity cache\<close>, which keeps what they
  do as pending operations over a store, with an LFU cache in between. At the end of a block the operations
  become modifications, which the \<^emph>\<open>writable store\<close> puts into a bounded queue; a background writer executes them
  on the database, and reads combine queue and database. Entities are attribute maps over \<^emph>\<open>store values\<close> and
  \<^emph>\<open>scalars\<close>, they are \<^emph>\<open>validated\<close> against a GraphQL \<^emph>\<open>schema\<close>, which was validated itself when the subgraph was
  deployed, and the work of handlers is metered in \<^emph>\<open>gas\<close>. The \<^emph>\<open>block stream\<close> says which block comes next; which handlers run on it is the matter of \<^emph>\<open>data sources\<close>
  and \<^emph>\<open>triggers\<close>, for Ethereum. The theorem \<open>block_reads_back\<close> in this theory spans
  cache, queue and database.

  \<^bold>\<open>Theories.\<close>
  \<^item> \<open>Prelude\<close>: machine integers (\<open>u32\<close>, \<open>u64\<close> as words, \<open>BlockNumber\<close> as an integer), hash maps and B-tree
    maps as association lists that are read through \<^const>\<open>map_of\<close>, shared lemmas.
  \<^item> \<open>Graphql_Schema\<close>: the GraphQL documents of \<open>graphql_parser\<close> with the helpers of \<open>graph/src/data/graphql/ext.rs\<close>.
  \<^item> \<open>Float64\<close>, \<open>Scalar\<close>: \<open>graph/src/data/store/scalar.rs\<close>. \<open>normalized\<close> gives one representation to equal decimals,
    conversions between \<open>BigInt\<close> and machine words are round trips and fail exactly outside their range. The
    arithmetic of the crates \<open>num\<close> and \<open>bigdecimal\<close> is a record of parameters with laws (\<open>scalar_lib\<close>).
  \<^item> \<open>Store_Value\<close>: values and entities of \<open>graph/src/data/store/mod.rs\<close> and \<open>graph/src/data/value.rs\<close>; query values
    round-trip, merging entities does not depend on the iteration order.
  \<^item> \<open>Gas\<close>: \<open>graph/src/runtime/gas\<close>. The counter never wraps, costs grow with sizes, sizes do not depend on iteration
    order.
  \<^item> \<open>Lfu_Cache\<close>: \<open>graph/src/util/lfu_cache.rs\<close> over a priority queue that is a locale (\<open>priority_queue\<close>), interpreted by a
    list. The cache refines a map with an exact weight; eviction ends and keeps its bound. The fuel of the eviction loop is
    the number of entries plus one, which is proved to be enough.
  \<^item> \<open>Store_Types\<close>: \<open>graph/src/components/store/mod.rs\<close>: filters, queries, events and their throttling, entity operations.
  \<^item> \<open>Schema\<close>, \<open>Schema_Validation\<close>: \<open>graph/src/data/schema.rs\<close>: interfaces, imports (a search that ends on cycles), full
    text definitions, and the validation of derived fields, names and full text directives, each accepted exactly when
    the stated condition holds.
  \<^item> \<open>Entity_Validation\<close>: \<open>Entity::validate\<close> and the ids of entities; panics and endless recursion are values, and are
    excluded on accepted schemas.
  \<^item> \<open>Entity_Cache\<close>: \<open>graph/src/components/store/entity_cache.rs\<close>. The locale \<open>read_store_laws\<close> states what the cache relies on
    from a store. Every sequence of calls refines a map with transactions, and \<open>as_modifications\<close> produces exactly
    the changes that lead there.
  \<^item> \<open>Bounded_Queue\<close>: \<open>graph/src/util/bounded_queue.rs\<close>, with blocking as a result, and \<open>graph/src/util/backoff.rs\<close>.
  \<^item> \<open>Writable_Queue\<close>, \<open>Writable_Store\<close>: \<open>store/postgres/src/writable.rs\<close>. Callers and the background writer are a step
    relation; its invariant says that the database is the result of a prefix of the accepted requests. Reads see all
    accepted requests, a flush means that all are written, a failed writer never writes again, and the writer can always
    finish. The locale \<open>block_store_laws\<close> states what the database does; \<open>history_store\<close> provides it.
  \<^item> \<open>Block_Processing\<close>: the entity cache on top of the writable store.
  \<^item> \<open>Polling_Stream\<close>: \<open>graph/src/blockchain/polling_block_stream.rs\<close>, the state machine that says which blocks to process and to
    revert. The answers of the chain are inputs that may change at any time; the locale \<open>chain_laws\<close> has parents and final blocks.
    The stream follows the chain through all reorganisations, and catches up with a head that stays. The range of a scan is
    computed in doubles (\<open>Float64\<close>), for any rounding that is monotone and exact on small integers.
  \<^item> \<open>Eth_Trigger\<close>: blocks, calls and triggers of Ethereum (\<open>graph/src/components/ethereum/types.rs\<close>,
    \<open>chain/ethereum/src/trigger.rs\<close>) and the order in which the triggers of a block are run.
  \<^item> \<open>Eth_Data_Source\<close>: \<open>chain/ethereum/src/data_source.rs\<close>: which handler a trigger is for, its decoding, and data sources that are
    stored and loaded again.
  \<^item> \<open>Eth_Filter\<close>: \<open>chain/ethereum/src/adapter.rs\<close> and the parts of \<open>ethereum_adapter.rs\<close> and \<open>chain.rs\<close> that find the triggers of
    a block. The filters made of the data sources miss no trigger that has a handler, and the requests for logs ask for
    exactly those that have one. The loop that makes the requests takes the number of edges as fuel, which is enough as
    every turn removes one at least. The graph of the crate \<open>petgraph\<close> is the locale \<open>graph_map\<close>.

  \<^bold>\<open>Conventions.\<close> A fallible function returns a sum with the error on the left; a panic is a value of \<open>outcome\<close> or of
  the result type of the component; a recursion that may not end returns \<^const>\<open>None\<close> or runs on fuel with a proof that
  the fuel is enough. Code outside of the repository is a record of parameters, whose documented behaviour is a
  locale with at least one interpretation on a concrete instance.

  \<^bold>\<open>Not modelled.\<close> The generation of SQL and everything that talks to Postgres (\<open>store/postgres/src\<close> apart from
  \<open>writable.rs\<close>), the RPC calls of the Ethereum adapter and the adapters for other chains, the WASM runtime and its bindings, GraphQL
  execution, networking, and configuration files: they consist of calls to services and libraries that are not part of
  the repository. Logging, metrics and stopwatches are left out everywhere.
\<close>

section \<open>A block from the handlers to the database\<close>

text \<open>
  C1. What the handlers of a block did is what the next block sees. Take a writable store in any state that
  its calls and its background writer can lead to, any sequence of calls on an entity cache on top of it
  that ends outside of handlers, and write the modifications of the cache as the next block: whenever an entity
  is read from the store after that, however far the background writer has come, the result is what the
  calls leave when they are run as transactions on a plain map of the entities.
\<close>

theorem block_reads_back:
  assumes pq: "priority_queue ops" and laws: "block_store_laws st vers head"
    and store: "ws_new dep capacity db0 = Inr ws0" "(store_step st)\<^sup>*\<^sup>* (ws0, []) (ws, pushed)"
      "\<not> writer_poisoned (ws_writer ws)" "requests_ok (head db0) pushed"
    and cache: "cache_good ops n (fold v_exec pushed (vers db0) BLOCK_NUMBER_MAX) current" "n + length calls \<le> max64"
    and calls: "cache_steps lib ops wt (with_current (ws_read_store st ws) current) calls c" "\<not> ec_in_handler c"
    and immutable: "\<And>k. k \<in> fst ` set (ec_updates c) \<Longrightarrow> is_immutable (ec_schema c) (key_entity_type k) \<Longrightarrow>
      lfu_map ops (ec_current c) k = None \<Longrightarrow> fold v_exec pushed (vers db0) BLOCK_NUMBER_MAX k = None"
    and mods: "as_modifications ops wt entry_size max_weight c = Return (Inr (mods, current'))"
    and block: "fold head_after pushed (head db0) < ptr_number p" "ptr_number p \<le> BLOCK_NUMBER_MAX"
      "ws_transact_block_operations st p cursor mods ds processed ws = Queue_done (Inr (), ws')"
    and later: "(store_step st)\<^sup>*\<^sup>* (ws', pushed @ [Req_Write p cursor mods ds processed])
        (ws'', pushed @ [Req_Write p cursor mods ds processed])" "\<not> writer_poisoned (ws_writer ws'')"
  shows "\<exists>s. txn_steps lib (bst_input_schema st) (fold v_exec pushed (vers db0) BLOCK_NUMBER_MAX, None) calls s \<and>
    (\<forall>k r. writer_get st (ws_writer ws'') k = Inr r \<longrightarrow> same_view r (now s k))"
proof -
  let ?S = "fold v_exec pushed (vers db0) BLOCK_NUMBER_MAX" and ?req = "Req_Write p cursor mods ds processed"
  from store_steps_ran [OF store(1,2)] have "writer_ran st capacity db0 (ws_writer ws) pushed" by simp
  note rl = writable_read_laws [OF laws this store(3,4)]
  have "rs_input_schema (ws_read_store st ws) = bst_input_schema st" by (simp add: ws_read_store_def)
  from block_modifications [OF pq rl cache calls immutable mods, unfolded this] obtain s where
    s: "txn_steps lib (bst_input_schema st) (?S, None) calls s" "\<forall>k. same_view (fold apply_modification mods ?S k) (now s k)"
      "distinct (map mod_entity_ref mods)" "list_all (\<lambda>m. entity_wf (mod_entity m)) mods"
    by blast
  have ok: "requests_ok (head db0) (pushed @ [?req])" using store(4) block(1,2) s(3,4) by (simp add: requests_ok_append)
  from store_steps_ran [OF store(1) rtranclp_trans [OF store(2)
      converse_rtranclp_into_rtranclp [where r = "store_step st", OF s_transact [OF block(3)] later(1)]]]
  have "writer_ran st capacity db0 (ws_writer ws'') (pushed @ [?req])" by simp
  from writable_read_laws [OF laws this later(2) ok] block(2)
  have rl'': "read_store_laws (ws_read_store st ws'') (fold apply_modification mods ?S)" by (simp only: written_versions)
  have "same_view r (now s k)" if "writer_get st (ws_writer ws'') k = Inr r" for k r
  proof -
    from that have "rs_get (ws_read_store st ws'') k = Inr r" by (simp add: ws_read_store_def)
    from read_store_laws.get_law [OF rl'' this] have "same_view r (fold apply_modification mods ?S k)" by simp
    from same_view_trans [OF this s(2) [THEN spec]] show ?thesis .
  qed
  with s(1) show ?thesis by blast
qed

definition first_store :: "(unit history, unit, unit) writable_store" where
  "first_store = \<lparr> ws_block_ptr = None, ws_block_cursor = '''', ws_writer = Writer_Sync (0, []) \<rparr>"

definition first_cache :: "((entity_key, entity option) list_queue, string + unit) entity_cache" where
  "first_cache = (with_current (ws_read_store (history_store owner_schema) first_store) (lfu_new list_pq False))
     \<lparr>ec_updates := [(example_key, EO_Update [(''id'', V_Bytes [1])])]\<rparr>"

theorem block_reads_back_witness:
  "\<exists>mods current' ws' s. as_modifications list_pq (\<lambda>_ _. 1) 0 100 first_cache = Return (Inr (mods, current')) \<and>
     ws_transact_block_operations (history_store owner_schema) \<lparr>ptr_hash = [1], ptr_number = 1\<rparr> '''' mods [] [] first_store
       = Queue_done (Inr (), ws') \<and>
     txn_steps reference_lib owner_schema (\<lambda>_. None, None)
       [C_Append [Op_Set example_key [(''id'', V_Bytes [1])]] :: (string + unit) cache_call] s \<and>
     (\<forall>k r. writer_get (history_store owner_schema) (ws_writer ws') k = Inr r \<longrightarrow> same_view r (now s k))"
proof -
  let ?st = "history_store owner_schema :: (unit history, unit, unit) block_store"
  let ?p = "\<lparr>ptr_hash = [1], ptr_number = 1\<rparr>" and ?data = "[(''id'', V_Bytes [1])]"
  let ?S = "fold v_exec ([] :: unit request list) (history_versions ((0, []) :: unit history)) BLOCK_NUMBER_MAX"
  have S: "?S = (\<lambda>_. None)" by (simp add: fun_eq_iff history_versions_def)
  have new: "ws_new example_deployment 0 (0, []) = Inr first_store"
    by (simp add: ws_new_def example_deployment_def writer_new_def first_store_def)
  have live: "\<not> writer_poisoned (ws_writer first_store)" by (simp add: writer_poisoned_def first_store_def)
  have rl: "read_store_laws (ws_read_store ?st first_store) ?S"
    by (rule writable_read_laws [OF hist.block_store_laws_axioms, where capacity = 0]) (simp_all add: first_store_def writer_poisoned_def)
  have good: "cache_good list_pq 1 ?S (lfu_new list_pq False)"
    unfolding cache_good_def
    by (intro conjI new_current_ok list_pq_queue priority_queue.lfu_new_facts [OF list_pq_queue]) (simp_all add: lfu_new_def)
  have c: "ec_updates first_cache = [(example_key, EO_Update ?data)]" "ec_store first_cache = ws_read_store ?st first_store"
      "\<not> ec_in_handler first_cache" "ec_handler_updates first_cache = []" "ec_current first_cache = lfu_new list_pq False"
      "ec_schema first_cache = owner_schema"
    by (simp_all add: first_cache_def with_current_def ws_read_store_def history_store_def)
  have imm: "\<not> is_immutable (ec_schema first_cache) t" for t by (simp add: c is_immutable_def owner_schema_def)
  have "ec_append [Op_Set example_key ?data] (with_current (ws_read_store ?st first_store) (lfu_new list_pq False)) = Some first_cache"
    by (simp add: ec_append_def first_cache_def with_current_def ec_entity_op_def update_entry_def)
  from steps_cons [OF step_append [OF _ this, of reference_lib list_pq "\<lambda>_ _. 1"] steps_nil]
  have calls: "cache_steps reference_lib list_pq (\<lambda>_ _. 1) (with_current (ws_read_store ?st first_store) (lfu_new list_pq False))
      [C_Append [Op_Set example_key ?data]] first_cache" by simp
  have wf: "ec_wf first_cache" by (simp add: ec_wf_def c ops_wf_def)
  have "rs_get_many (ec_store first_cache) (set (missing_keys list_pq first_cache)) = Inr []"
    by (simp add: c ws_read_store_def first_store_def writer_get_many_def history_store_def history_get_many_def history_keys_def)
  from as_modifications_ok [OF list_pq_queue rl [folded c(2)] wf c(3,4) good [folded c(5)] _ this, of "\<lambda>_ _. 1" 0 100] imm
  obtain mods current' where mods: "as_modifications list_pq (\<lambda>_ _. 1) 0 100 first_cache = Return (Inr (mods, current'))" by blast
  obtain ws' where ws': "ws_transact_block_operations ?st ?p '''' mods [] [] first_store = Queue_done (Inr (), ws')"
      "\<not> writer_poisoned (ws_writer ws')"
    by (simp add: ws_transact_block_operations_def writer_write_def sync_result_def first_store_def history_store_def writer_poisoned_def)
  have "\<exists>s. txn_steps reference_lib (bst_input_schema ?st) (?S, None) [C_Append [Op_Set example_key ?data] :: (string + unit) cache_call] s \<and>
      (\<forall>k r. writer_get ?st (ws_writer ws') k = Inr r \<longrightarrow> same_view r (now s k))"
    by (rule block_reads_back [OF list_pq_queue hist.block_store_laws_axioms new rtranclp.rtrancl_refl live _ good _ calls c(3) _ mods
          _ _ ws'(1) rtranclp.rtrancl_refl ws'(2)]) (simp_all add: imm BLOCK_NUMBER_MAX_def)
  with mods ws'(1) show ?thesis unfolding S by (auto simp: history_store_def)
qed

end
